(* ===== verification/Prelude.thy ===== *)
theory Prelude imports Main "HOL-Library.Word" "HOL-Library.Signed_Division" begin

text \<open>
  The prelude of the development: the named collections the components file their facts in,
  the C-level data the sources share (outcomes of calls that may not return, formatted output,
  C strings, counted loops over \<open>int\<close>) and the generic lemmas about them.

  Conventions. A C \<open>int\<close> that only holds small indices and codes is an \<open>int\<close>; a C value
  whose width matters is a \<open>'w word\<close>. A C string is a \<open>string\<close> without its
  terminating zero byte, a \<open>const char *\<close> that may be NULL is a \<open>string option\<close>.
\<close>

named_theorems step_simps \<open>unfolding rules for single steps of the models\<close>
named_theorems frame_simps \<open>what an operation leaves unchanged\<close>
named_theorems inv_intros \<open>introduction rules for the components' invariants\<close>

type_synonym u8 = "8 word"
type_synonym u32 = "32 word"
type_synonym u64 = "64 word"

section \<open>Calls that may not come back\<close>

text \<open>
  A C function that ends in a reset, in \<open>exec\<close> or in a started kernel does not return.
  \<open>Returns v s\<close> is a return with value \<open>v\<close> in state \<open>s\<close>;
  \<open>Leaves s\<close> is the state in which control left the program for good.
\<close>

datatype ('v, 's) outcome = Returns 'v 's | Leaves 's

fun then_do :: "('v, 's) outcome \<Rightarrow> ('v \<Rightarrow> 's \<Rightarrow> ('w, 's) outcome) \<Rightarrow> ('w, 's) outcome" where
  "then_do (Returns v s) f = f v s"
| "then_do (Leaves s) f = Leaves s"

fun final_state :: "('v, 's) outcome \<Rightarrow> 's" where
  "final_state (Returns v s) = s"
| "final_state (Leaves s) = s"

fun did_return :: "('v, 's) outcome \<Rightarrow> bool" where
  "did_return (Returns v s) = True"
| "did_return (Leaves s) = False"

lemma then_do_return [simp]: "then_do m Returns = m"
  by (cases m) simp_all

lemma then_do_assoc: "then_do (then_do m f) g = then_do m (\<lambda>v s. then_do (f v s) g)"
  by (cases m) simp_all

lemma then_do_eq_Returns:
  "then_do m f = Returns w s' \<longleftrightarrow> (\<exists>v s. m = Returns v s \<and> f v s = Returns w s')"
  by (cases m) simp_all

lemma then_do_eq_Leaves:
  "then_do m f = Leaves s' \<longleftrightarrow> m = Leaves s' \<or> (\<exists>v s. m = Returns v s \<and> f v s = Leaves s')"
  by (cases m) auto

lemma final_state_then_do:
  "final_state (then_do m f) = (case m of Returns v s \<Rightarrow> final_state (f v s) | Leaves s \<Rightarrow> s)"
  by (cases m) simp_all

section \<open>Formatted output\<close>

text \<open>
  An argument of \<open>printf\<close>. A message is logged as its format and its arguments, so no
  formatting is needed to say what was printed; where the code formats into a buffer it
  reads back, the pieces below build the text.
\<close>

datatype arg = AStr string | AInt int

fun digits :: "nat \<Rightarrow> nat list" where
  "digits n = (if n < 10 then [n] else digits (n div 10) @ [n mod 10])"

declare digits.simps [simp del]

definition digit_char :: "nat \<Rightarrow> char" where
  "digit_char d = char_of (48 + d)"

definition dec_of_nat :: "nat \<Rightarrow> string" where
  "dec_of_nat n = map digit_char (digits n)"

definition dec_of_int :: "int \<Rightarrow> string" where
  "dec_of_int i = (if i < 0 then CHR ''-'' # dec_of_nat (nat (- i)) else dec_of_nat (nat i))"

definition pad_left :: "nat \<Rightarrow> string \<Rightarrow> string" where
  "pad_left w t = replicate (w - length t) (CHR '' '') @ t"

text \<open>\<open>snprintf (buf, n, \<dots>)\<close> stores at most \<open>n - 1\<close> bytes of the formatted text.\<close>

definition snprintf_buf :: "nat \<Rightarrow> string \<Rightarrow> string" where
  "snprintf_buf n t = take (n - 1) t"

lemma length_snprintf_buf: "0 < n \<Longrightarrow> length (snprintf_buf n t) < n"
  by (cases "length t < n") (simp_all add: snprintf_buf_def)

lemma snprintf_buf_fits [simp]: "length t < n \<Longrightarrow> snprintf_buf n t = t"
  by (simp add: snprintf_buf_def)

lemma digits_nonempty [simp]: "digits n \<noteq> []"
  by (subst digits.simps) simp

lemma digits_below_10: "d \<in> set (digits n) \<Longrightarrow> d < 10"
proof (induction n rule: digits.induct)
  case (1 n)
  show ?case
  proof (cases "n < 10")
    case True
    with "1.prems" show ?thesis by (subst (asm) digits.simps) simp
  next
    case False
    with "1.prems" have "d \<in> set (digits (n div 10)) \<or> d = n mod 10"
      by (subst (asm) digits.simps) auto
    with "1.IH" False show ?thesis by auto
  qed
qed

fun undigits :: "nat \<Rightarrow> nat list \<Rightarrow> nat" where
  "undigits acc [] = acc"
| "undigits acc (d # ds) = undigits (10 * acc + d) ds"

lemma undigits_append: "undigits acc (xs @ ys) = undigits (undigits acc xs) ys"
  by (induction xs arbitrary: acc) simp_all

lemma undigits_digits: "undigits 0 (digits n) = n"
proof (induction n rule: digits.induct)
  case (1 n)
  show ?case
  proof (cases "n < 10")
    case True
    then show ?thesis by (subst digits.simps) simp
  next
    case False
    with "1.IH" show ?thesis by (subst digits.simps) (simp add: undigits_append)
  qed
qed

lemma digits_length_bound: "n < 10 ^ k \<Longrightarrow> 0 < k \<Longrightarrow> length (digits n) \<le> k"
proof (induction n arbitrary: k rule: digits.induct)
  case (1 n)
  show ?case
  proof (cases "n < 10")
    case True
    with "1.prems" show ?thesis by (subst digits.simps) simp
  next
    case False
    have "k \<noteq> 1" using False "1.prems"(1) by auto
    with "1.prems" obtain k' where k: "k = Suc k'" "0 < k'" by (cases k) auto
    with "1.prems" have "n div 10 < 10 ^ k'"
      by (simp add: less_mult_imp_div_less mult.commute)
    with False "1.IH" k have "length (digits (n div 10)) \<le> k'" by simp
    with False k show ?thesis by (subst digits.simps) simp
  qed
qed

lemma length_dec_of_nat: "n < 10 ^ k \<Longrightarrow> 0 < k \<Longrightarrow> length (dec_of_nat n) \<le> k"
  by (simp add: dec_of_nat_def digits_length_bound)

section \<open>C strings\<close>

text \<open>\<open>s[i]\<close> of a C string: the terminating zero byte stands at \<open>length s\<close>.\<close>

definition byte_at :: "string \<Rightarrow> nat \<Rightarrow> char" where
  "byte_at t i = (if i < length t then t ! i else CHR 0x00)"

lemma byte_at_Nil [simp]: "byte_at [] i = CHR 0x00"
  by (simp add: byte_at_def)

lemma byte_at_Cons_0 [simp]: "byte_at (c # t) 0 = c"
  by (simp add: byte_at_def)

lemma byte_at_Cons_Suc [simp]: "byte_at (c # t) (Suc i) = byte_at t i"
  by (simp add: byte_at_def)

section \<open>Counted loops\<close>

text \<open>
  \<open>for (i = lo; i < hi; i++) body\<close> over a state, where the body can fail (an access outside
  an object); the first failure stops the loop.
\<close>

fun fold_option :: "('a \<Rightarrow> 's \<Rightarrow> 's option) \<Rightarrow> 'a list \<Rightarrow> 's \<Rightarrow> 's option" where
  "fold_option f [] s = Some s"
| "fold_option f (x # xs) s = (case f x s of None \<Rightarrow> None | Some s' \<Rightarrow> fold_option f xs s')"

definition for_int :: "int \<Rightarrow> int \<Rightarrow> (int \<Rightarrow> 's \<Rightarrow> 's option) \<Rightarrow> 's \<Rightarrow> 's option" where
  "for_int lo hi body s = fold_option body [lo..hi - 1] s"

lemma fold_option_append:
  "fold_option f (xs @ ys) s = Option.bind (fold_option f xs s) (fold_option f ys)"
  by (induction xs arbitrary: s) (simp_all split: option.splits)

text \<open>The loop rule.\<close>

lemma for_int_invariant:
  assumes "P lo s"
    and "\<And>i s. lo \<le> i \<Longrightarrow> i < hi \<Longrightarrow> P i s \<Longrightarrow> \<exists>s'. body i s = Some s' \<and> P (i + 1) s'"
  shows "\<exists>s'. for_int lo hi body s = Some s' \<and> P (max lo hi) s'"
proof -
  have "\<exists>s'. fold_option body [lo..hi - 1] s = Some s' \<and> P (max lo hi) s'"
    using assms
  proof (induction "nat (hi - lo)" arbitrary: lo s)
    case 0
    then show ?case by (simp add: max_def)
  next
    case (Suc n)
    then have lt: "lo < hi" by simp
    then have upto: "[lo..hi - 1] = lo # [lo + 1..hi - 1]"
      by (simp add: upto_rec1)
    from Suc.prems lt obtain s1 where s1: "body lo s = Some s1" "P (lo + 1) s1" by auto
    have "\<exists>s'. fold_option body [lo + 1..hi - 1] s1 = Some s' \<and> P (max (lo + 1) hi) s'"
      by (rule Suc.hyps(1)) (use Suc s1 in auto)
    with s1 upto lt show ?case by (auto simp: max_def)
  qed
  then show ?thesis by (simp add: for_int_def)
qed

text \<open>A loop fails with its first round, and with any round that fails in every state it can be in.\<close>

lemma for_int_first_fails: "lo < hi \<Longrightarrow> body lo s = None \<Longrightarrow> for_int lo hi body s = None"
  by (simp add: for_int_def upto_rec1)

lemma fold_option_round_fails:
  assumes "x \<in> set xs" and "P s" and "\<And>s. P s \<Longrightarrow> f x s = None"
    and "\<And>y s s'. P s \<Longrightarrow> f y s = Some s' \<Longrightarrow> P s'"
  shows "fold_option f xs s = None"
  using assms(1,2)
proof (induction xs arbitrary: s)
  case (Cons y ys)
  show ?case
  proof (cases "f y s")
    case (Some s')
    with Cons.prems assms(3) have "x \<in> set ys" by auto
    moreover have "P s'" using assms(4) Cons.prems(2) Some by blast
    ultimately show ?thesis using Cons.IH Some by simp
  qed simp
qed simp

lemma for_int_round_fails:
  assumes "lo \<le> i" "i < hi" and "P s" and "\<And>s. P s \<Longrightarrow> body i s = None"
    and "\<And>y s s'. P s \<Longrightarrow> body y s = Some s' \<Longrightarrow> P s'"
  shows "for_int lo hi body s = None"
  unfolding for_int_def
  by (rule fold_option_round_fails [where x = i and P = P]) (use assms in auto)

lemma fold_option_preserves:
  assumes "fold_option f xs s = Some s'" and "P s"
    and "\<And>y s s'. P s \<Longrightarrow> f y s = Some s' \<Longrightarrow> P s'"
  shows "P s'"
  using assms(1,2)
proof (induction xs arbitrary: s)
  case (Cons y ys)
  then obtain s1 where s1: "f y s = Some s1" "fold_option f ys s1 = Some s'"
    by (auto split: option.splits)
  moreover have "P s1" using assms(3) Cons.prems(2) s1(1) by blast
  ultimately show ?case using Cons.IH by blast
qed simp

lemma for_int_preserves:
  assumes "for_int lo hi body s = Some s'" and "P s"
    and "\<And>y s s'. P s \<Longrightarrow> body y s = Some s' \<Longrightarrow> P s'"
  shows "P s'"
  using fold_option_preserves [of body "[lo..hi - 1]" s s' P] assms by (simp add: for_int_def)

section \<open>Lists\<close>

lemma filter_upt_nth_exists: "k < length (filter P xs) \<Longrightarrow> filter P xs ! k \<in> set xs"
  by (metis filter_is_subset nth_mem subsetD)

end
