(* ===== verification/KhBios_Base.thy ===== *)
theory KhBios_Base imports Prelude begin

text \<open>
  The data of the U-Boot setup utility \<open>kh_bios\<close> (headers under
  \<open>src/oh_bios/uboot_bios/include/\<close>): the enumerations of \<open>kh_bios.h\<close>, the board
  contract \<open>struct kh_bios_board_ops\<close>, the menu item of \<open>kh_bios_menu.h\<close>, the
  settings the menus edit (\<open>struct kh_bios_ctx\<close> of \<open>kh_bios_ui.c\<close>), and the state
  the components share.

  U-Boot itself is not part of the repository. What the code calls of it is the record
  \<open>uboot\<close>, a parameter of every definition that makes such a call: its functions work on
  an opaque state \<open>'e\<close> (the environment in RAM, its stored copy and whatever else a command
  may change). Calls without a result the code reads are entries of the log of the state.
\<close>

section \<open>kh_bios.h\<close>

datatype kh_bios_key =
  KH_KEY_NONE | KH_KEY_UP | KH_KEY_DOWN | KH_KEY_LEFT | KH_KEY_RIGHT
| KH_KEY_ENTER | KH_KEY_ESC | KH_KEY_F10

definition KH_BOOT_NORMAL :: int where "KH_BOOT_NORMAL = 0"
definition KH_BOOT_RECOVERY :: int where "KH_BOOT_RECOVERY = 1"

definition KH_PAGE_MAIN :: int where "KH_PAGE_MAIN = 0"
definition KH_PAGE_BOOT :: int where "KH_PAGE_BOOT = 1"
definition KH_PAGE_HARDWARE :: int where "KH_PAGE_HARDWARE = 2"
definition KH_PAGE_SECURITY :: int where "KH_PAGE_SECURITY = 3"
definition KH_PAGE_ADVANCED :: int where "KH_PAGE_ADVANCED = 4"

definition KH_EXIT_ADV :: int where "KH_EXIT_ADV = 2"

definition KH_BIOS_DEFAULT_DELAY :: int where "KH_BIOS_DEFAULT_DELAY = 3"

definition KH_BIOS_FW_TAG :: string where "KH_BIOS_FW_TAG = ''kh_bios-20260527-r4''"

lemmas kh_page_defs =
  KH_PAGE_MAIN_def KH_PAGE_BOOT_def KH_PAGE_HARDWARE_def KH_PAGE_SECURITY_def KH_PAGE_ADVANCED_def

lemmas kh_boot_defs = KH_BOOT_NORMAL_def KH_BOOT_RECOVERY_def

section \<open>kh_bios_menu.h\<close>

datatype kh_main_action =
  KH_MAIN_ACT_NONE | KH_MAIN_ACT_INFO | KH_MAIN_ACT_SAVE_EXIT | KH_MAIN_ACT_DISCARD_EXIT

record kh_main_menu_item =
  mi_label :: string
  mi_required_feat :: u32
  mi_page :: int
  mi_action :: kh_main_action

section \<open>State shared by the components\<close>

text \<open>\<open>struct kh_bios_ctx\<close>: the settings being edited, a static variable of the menu.\<close>

record kh_bios_ctx =
  dirty :: bool
  default_boot :: int
  once_recovery :: bool
  gmac0 :: int
  gmac1 :: int

text \<open>
  The calls whose effect is outside the program. A text of a drawn line that is read from
  a buffer nobody has written is \<open>None\<close>.
\<close>

datatype bios_event =
  Printf string "arg list"
| UiTakeover
| UiRestore
| UiDrawInit
| UiTitle string
| UiLine int int "string option" bool
| UiFooter string
| WatchdogReset
| Mdelay nat
| KbdRefresh
| PollKey
| FlushInput
| EnvSet string string
| EnvSave
| RunCommand string
| CliLoop
| BcbWrite string
| CruWritel u32
| RegWritel u32 u64
| Dsb
| Isb
| PsciReset
| Flushc

record 'e bios_state =
  st_env :: 'e
  st_ctx :: kh_bios_ctx
  st_log :: "bios_event list"

definition emit :: "bios_event \<Rightarrow> 'e bios_state \<Rightarrow> 'e bios_state" where
  "emit ev s = s\<lparr>st_log := st_log s @ [ev]\<rparr>"

definition emits :: "bios_event list \<Rightarrow> 'e bios_state \<Rightarrow> 'e bios_state" where
  "emits evs s = s\<lparr>st_log := st_log s @ evs\<rparr>"

lemma emit_sel [simp, frame_simps]:
  "st_env (emit ev s) = st_env s" "st_ctx (emit ev s) = st_ctx s"
  "st_log (emit ev s) = st_log s @ [ev]"
  by (simp_all add: emit_def)

lemma emits_sel [simp, frame_simps]:
  "st_env (emits evs s) = st_env s" "st_ctx (emits evs s) = st_ctx s"
  "st_log (emits evs s) = st_log s @ evs"
  by (simp_all add: emits_def)

section \<open>What the code calls of U-Boot\<close>

record 'e uboot =
  x_env_get :: "'e \<Rightarrow> string \<Rightarrow> string option"
  x_env_set :: "string \<Rightarrow> string \<Rightarrow> 'e \<Rightarrow> 'e"
  x_env_save :: "'e \<Rightarrow> int \<times> 'e"
  x_env_stored :: "'e \<Rightarrow> string \<Rightarrow> string option"
  x_simple_strtol :: "string \<Rightarrow> int"
  x_run_command :: "string \<Rightarrow> 'e \<Rightarrow> (int, 'e) outcome"
  x_cli_loop :: "'e \<Rightarrow> (unit, 'e) outcome"
  x_bcb_write :: "string \<Rightarrow> 'e \<Rightarrow> int \<times> 'e"
  x_video_ready :: bool
  x_has_cru :: bool
  cfg_android_bootloader :: bool
  cfg_arm_psci :: bool

text \<open>
  The documented behaviour of the U-Boot environment the code relies on: a variable set to a
  non-empty value reads back as that value and no other variable changes; saving does not
  change what is read. \<open>x_env_stored\<close> is the copy the next reset loads: setting a variable
  leaves it alone, a successful save makes it the environment in RAM.
\<close>

definition env_ok :: "'e uboot \<Rightarrow> bool" where
  "env_ok U \<longleftrightarrow>
     (\<forall>k v e k'. v \<noteq> [] \<longrightarrow>
        x_env_get U (x_env_set U k v e) k' = (if k' = k then Some v else x_env_get U e k')) \<and>
     (\<forall>e k. x_env_get U (snd (x_env_save U e)) k = x_env_get U e k)"

definition storage_ok :: "'e uboot \<Rightarrow> bool" where
  "storage_ok U \<longleftrightarrow>
     (\<forall>k v e. x_env_stored U (x_env_set U k v e) = x_env_stored U e) \<and>
     (\<forall>e. fst (x_env_save U e) = 0 \<longrightarrow> x_env_stored U (snd (x_env_save U e)) = x_env_get U e)"

text \<open>The calls, each with its entry in the log.\<close>

definition env_set :: "'e uboot \<Rightarrow> string \<Rightarrow> string \<Rightarrow> 'e bios_state \<Rightarrow> 'e bios_state" where
  "env_set U k v s = emit (EnvSet k v) (s\<lparr>st_env := x_env_set U k v (st_env s)\<rparr>)"

definition env_get :: "'e uboot \<Rightarrow> 'e bios_state \<Rightarrow> string \<Rightarrow> string option" where
  "env_get U s k = x_env_get U (st_env s) k"

definition env_save :: "'e uboot \<Rightarrow> 'e bios_state \<Rightarrow> int \<times> 'e bios_state" where
  "env_save U s =
     (let (rc, e) = x_env_save U (st_env s) in (rc, emit EnvSave (s\<lparr>st_env := e\<rparr>)))"

definition run_command ::
  "'e uboot \<Rightarrow> string \<Rightarrow> 'e bios_state \<Rightarrow> (int, 'e bios_state) outcome" where
  "run_command U cmd s =
     (let s1 = emit (RunCommand cmd) s in
      case x_run_command U cmd (st_env s1) of
        Returns rc e \<Rightarrow> Returns rc (s1\<lparr>st_env := e\<rparr>)
      | Leaves e \<Rightarrow> Leaves (s1\<lparr>st_env := e\<rparr>))"

lemma env_set_sel [simp, frame_simps]:
  "st_ctx (env_set U k v s) = st_ctx s" "st_log (env_set U k v s) = st_log s @ [EnvSet k v]"
  "st_env (env_set U k v s) = x_env_set U k v (st_env s)"
  by (simp_all add: env_set_def)

lemma env_save_sel [simp, frame_simps]:
  "st_ctx (snd (env_save U s)) = st_ctx s" "st_log (snd (env_save U s)) = st_log s @ [EnvSave]"
  "st_env (snd (env_save U s)) = snd (x_env_save U (st_env s))"
  "fst (env_save U s) = fst (x_env_save U (st_env s))"
  by (simp_all add: env_save_def split_beta)

lemma env_get_set:
  "env_ok U \<Longrightarrow> v \<noteq> [] \<Longrightarrow>
   env_get U (env_set U k v s) k' = (if k' = k then Some v else env_get U s k')"
  by (simp add: env_get_def env_ok_def)

lemma env_get_save: "env_ok U \<Longrightarrow> env_get U (snd (env_save U s)) k = env_get U s k"
  by (simp add: env_get_def env_ok_def)

lemma env_get_emit [simp]: "env_get U (emit ev s) k = env_get U s k"
  by (simp add: env_get_def)

lemma env_get_emits [simp]: "env_get U (emits evs s) k = env_get U s k"
  by (simp add: env_get_def)

lemma env_get_ctx [simp]: "env_get U (s\<lparr>st_ctx := c\<rparr>) k = env_get U s k"
  by (simp add: env_get_def)

section \<open>kh_bios_board.h\<close>

definition KH_BIOS_FEAT_BOOT_MENU :: u32 where "KH_BIOS_FEAT_BOOT_MENU = push_bit 0 1"
definition KH_BIOS_FEAT_HW_MENU :: u32 where "KH_BIOS_FEAT_HW_MENU = push_bit 1 1"
definition KH_BIOS_FEAT_SECURITY :: u32 where "KH_BIOS_FEAT_SECURITY = push_bit 2 1"
definition KH_BIOS_FEAT_FASTBOOT :: u32 where "KH_BIOS_FEAT_FASTBOOT = push_bit 3 1"
definition KH_BIOS_FEAT_ROCKUSB :: u32 where "KH_BIOS_FEAT_ROCKUSB = push_bit 4 1"

lemmas kh_feat_defs =
  KH_BIOS_FEAT_BOOT_MENU_def KH_BIOS_FEAT_HW_MENU_def KH_BIOS_FEAT_SECURITY_def
  KH_BIOS_FEAT_FASTBOOT_def KH_BIOS_FEAT_ROCKUSB_def

definition KH_BIOS_HW_INFO_LINES :: int where "KH_BIOS_HW_INFO_LINES = 8"
definition KH_BIOS_HW_TOGGLE_MAX :: int where "KH_BIOS_HW_TOGGLE_MAX = 8"

text \<open>
  \<open>struct kh_bios_board_ops\<close>: a function pointer that may be NULL is an option. The two
  \<open>fill\<close> operations write their lines into the caller's buffer and return how many they
  wrote: here they return those lines.
\<close>

record 'e board_ops =
  product_name :: "string option"
  soc_name :: string
  features :: u32
  default_delay_sec :: int
  boot_normal :: "('e bios_state \<Rightarrow> (int, 'e bios_state) outcome) option"
  set_recovery_next :: "('e bios_state \<Rightarrow> int \<times> 'e bios_state) option"
  fill_sys_info :: "(int \<Rightarrow> 'e bios_state \<Rightarrow> string list) option"
  fill_hw_lines :: "(int \<Rightarrow> 'e bios_state \<Rightarrow> string list) option"
  hw_toggle_item :: "(int \<Rightarrow> 'e bios_state \<Rightarrow> int \<times> 'e bios_state) option"
  ops_enter_fastboot :: "('e bios_state \<Rightarrow> (int, 'e bios_state) outcome) option"
  ops_enter_download :: "('e bios_state \<Rightarrow> (int, 'e bios_state) outcome) option"

section \<open>A concrete U-Boot\<close>

text \<open>
  An environment as two maps, RAM and storage, where every command returns 0: the instance at
  which the witnesses discharge hypotheses about \<open>uboot\<close>.
\<close>

type_synonym env_maps = "(string \<Rightarrow> string option) \<times> (string \<Rightarrow> string option)"

definition map_uboot :: "env_maps uboot" where
  "map_uboot =
     \<lparr>x_env_get = fst,
      x_env_set = (\<lambda>k v e. ((fst e)(k := Some v), snd e)),
      x_env_save = (\<lambda>e. (0, (fst e, fst e))),
      x_env_stored = snd,
      x_simple_strtol = (\<lambda>t. int (length t)),
      x_run_command = (\<lambda>cmd e. Returns 0 e),
      x_cli_loop = (\<lambda>e. Returns () e),
      x_bcb_write = (\<lambda>m e. (0, e)),
      x_video_ready = False,
      x_has_cru = True,
      cfg_android_bootloader = True,
      cfg_arm_psci = True\<rparr>"

definition empty_ctx :: kh_bios_ctx where
  "empty_ctx = \<lparr>dirty = False, default_boot = 0, once_recovery = False, gmac0 = 0, gmac1 = 0\<rparr>"

definition map_state :: "env_maps bios_state" where
  "map_state = \<lparr>st_env = (Map.empty, Map.empty), st_ctx = empty_ctx, st_log = []\<rparr>"

lemma map_uboot_ok: "env_ok map_uboot" "storage_ok map_uboot"
  by (simp_all add: env_ok_def storage_ok_def map_uboot_def)

end
