(* ===== verification/KhBios_Draw.thy ===== *)
theory KhBios_Draw imports KhBios_Base "HOL-Library.Monad_Syntax" begin

text \<open>
  \<open>src/oh_bios/uboot_bios/core/kh_bios_ui_draw.c\<close>: drawing the setup utility into the
  frame buffer (and its console variant). The frame buffer is a list of 32-bit pixels; a store
  outside of it, or through a NULL frame buffer, has no result (\<open>None\<close>). The font, the
  video device and the build options are parameters.
\<close>

section \<open>State\<close>

text \<open>The fields of U-Boot's \<open>struct video_priv\<close> the file uses.\<close>

record video_priv =
  xsize :: int
  ysize :: int
  line_length :: int
  fb_size :: int
  colour_bg :: u32
  colour_fg :: u32
  fb :: "u32 list option"

record video_font =
  font_width :: int
  font_height :: int
  font_chars :: int
  fontdata :: "int \<Rightarrow> u8"

record ui_config =
  cfg_drm_rockchip :: bool
  cfg_video :: bool
  vid_device :: bool

datatype ui_event = ShowFbbase int int int | ShowLogo | FlushDcache | VideoSync | UiPrintf string "arg list"

record ui_state =
  ui_vid :: bool
  ui_page_title :: string
  vid_priv :: video_priv
  ui_log :: "ui_event list"

definition ENODEV :: int where "ENODEV = 19"

definition BIOS_FB_W :: int where "BIOS_FB_W = 1920"
definition BIOS_FB_H :: int where "BIOS_FB_H = 1080"
definition BIOS_FONT_SCALE :: int where "BIOS_FONT_SCALE = 2"
definition BIOS_CHAR_W :: "video_font \<Rightarrow> int" where "BIOS_CHAR_W F = font_width F * BIOS_FONT_SCALE"
definition BIOS_CHAR_H :: "video_font \<Rightarrow> int" where "BIOS_CHAR_H F = font_height F * BIOS_FONT_SCALE"

definition C_BLUE :: u32 where "C_BLUE = 0xff000080"
definition C_BLUE_LT :: u32 where "C_BLUE_LT = 0xff0000aa"
definition C_GRAY :: u32 where "C_GRAY = 0xffc0c0c0"
definition C_WHITE :: u32 where "C_WHITE = 0xffffffff"
definition C_BLACK :: u32 where "C_BLACK = 0xff000000"

definition PANEL_X :: int where "PANEL_X = 120"
definition PANEL_Y :: int where "PANEL_Y = 180"
definition PANEL_W :: int where "PANEL_W = 920"
definition PANEL_H :: int where "PANEL_H = 640"
definition MENU_X :: int where "MENU_X = PANEL_X + 24"
definition MENU_Y0 :: int where "MENU_Y0 = PANEL_Y + 72"
definition MENU_DY :: int where "MENU_DY = 44"
definition FOOTER_Y :: int where "FOOTER_Y = 980"

lemmas layout_defs =
  BIOS_FB_W_def BIOS_FB_H_def BIOS_FONT_SCALE_def BIOS_CHAR_W_def BIOS_CHAR_H_def PANEL_X_def
  PANEL_Y_def PANEL_W_def PANEL_H_def MENU_X_def MENU_Y0_def MENU_DY_def FOOTER_Y_def

section \<open>Stores into the frame buffer\<close>

text \<open>
  \<open>line[col] = color\<close> where \<open>line\<close> is \<open>fb + row * line_length\<close> bytes: the pixel at
  byte offset \<open>row * line_length + 4 * col\<close>.
\<close>

definition fb_store :: "int \<Rightarrow> int \<Rightarrow> u32 \<Rightarrow> video_priv \<Rightarrow> video_priv option" where
  "fb_store row col color vp =
     (case fb vp of
        None \<Rightarrow> None
      | Some px \<Rightarrow>
          let off = row * line_length vp + 4 * col
          in if 0 \<le> off \<and> off mod 4 = 0 \<and> off div 4 < int (length px)
             then Some (vp\<lparr>fb := Some (px[nat (off div 4) := color])\<rparr>) else None)"

section \<open>Rectangles, characters, text\<close>

definition fb_fill_rect ::
  "int \<Rightarrow> int \<Rightarrow> int \<Rightarrow> int \<Rightarrow> u32 \<Rightarrow> video_priv \<Rightarrow> video_priv option" where
  "fb_fill_rect x y w h color vp =
     (if fb vp = None then Some vp
      else for_int y (min (y + h) (ysize vp)) (\<lambda>row vp.
             if row < 0 then Some vp
             else for_int x (min (x + w) (xsize vp)) (\<lambda>col vp.
                    if col \<ge> 0 then fb_store row col color vp else Some vp) vp) vp)"

definition fb_frame ::
  "int \<Rightarrow> int \<Rightarrow> int \<Rightarrow> int \<Rightarrow> u32 \<Rightarrow> u32 \<Rightarrow> video_priv \<Rightarrow> video_priv option" where
  "fb_frame x y w h outer inner vp = do {
     vp \<leftarrow> fb_fill_rect x y w 2 outer vp;
     vp \<leftarrow> fb_fill_rect x (y + h - 2) w 2 outer vp;
     vp \<leftarrow> fb_fill_rect x y 2 h outer vp;
     vp \<leftarrow> fb_fill_rect (x + w - 2) y 2 h outer vp;
     fb_fill_rect (x + 2) (y + 2) (w - 4) (h - 4) inner vp }"

text \<open>One bit of the glyph as a block of \<open>BIOS_FONT_SCALE\<close> by \<open>BIOS_FONT_SCALE\<close> pixels.\<close>

definition draw_block :: "int \<Rightarrow> int \<Rightarrow> u32 \<Rightarrow> video_priv \<Rightarrow> video_priv option" where
  "draw_block px py color vp =
     for_int 0 BIOS_FONT_SCALE (\<lambda>j vp.
       if py + j \<ge> ysize vp \<or> py + j < 0 then Some vp
       else for_int 0 BIOS_FONT_SCALE (\<lambda>i vp.
              if px + i \<ge> 0 \<and> px + i < xsize vp then fb_store (py + j) (px + i) color vp
              else Some vp) vp) vp"

definition draw_glyph_row ::
  "video_font \<Rightarrow> int \<Rightarrow> int \<Rightarrow> u8 \<Rightarrow> u32 \<Rightarrow> u32 \<Rightarrow> video_priv \<Rightarrow> video_priv option" where
  "draw_glyph_row F x py bits fg bg vp =
     map_option snd
       (for_int 0 (font_width F) (\<lambda>col (bits, vp).
          map_option (\<lambda>vp. (push_bit 1 bits, vp))
            (draw_block (x + col * BIOS_FONT_SCALE) py (if and bits 0x80 \<noteq> 0 then fg else bg) vp))
        (bits, vp))"

text \<open>
  A \<open>char\<close> is unsigned on the target, so that the code's test \<open>ch < 0\<close> never holds. Coordinates are
  numbers, which an \<open>int\<close> holds for texts below 2 ^ 27 characters.
\<close>

definition draw_char_at ::
  "video_font \<Rightarrow> int \<Rightarrow> int \<Rightarrow> char \<Rightarrow> u32 \<Rightarrow> u32 \<Rightarrow> video_priv \<Rightarrow> video_priv option" where
  "draw_char_at F x y ch fg bg vp =
     (if of_char ch \<ge> font_chars F then Some vp
      else for_int 0 (font_height F) (\<lambda>row vp.
             draw_glyph_row F x (y + row * BIOS_FONT_SCALE)
               (fontdata F (of_char ch * font_height F + row)) fg bg vp) vp)"

definition draw_text ::
  "video_font \<Rightarrow> int \<Rightarrow> int \<Rightarrow> string option \<Rightarrow> u32 \<Rightarrow> u32 \<Rightarrow> video_priv \<Rightarrow> video_priv option" where
  "draw_text F x y t fg bg vp =
     (case t of
        None \<Rightarrow> Some vp
      | Some t \<Rightarrow> for_int 0 (int (length t))
                   (\<lambda>i. draw_char_at F (x + i * BIOS_CHAR_W F) y (t ! nat i) fg bg) vp)"

definition draw_chrome ::
  "video_font \<Rightarrow> string option \<Rightarrow> string option \<Rightarrow> video_priv \<Rightarrow> video_priv option" where
  "draw_chrome F product page vp = do {
     vp \<leftarrow> fb_fill_rect 0 0 BIOS_FB_W BIOS_FB_H C_BLUE vp;
     vp \<leftarrow> fb_fill_rect 0 0 BIOS_FB_W 56 C_BLUE_LT vp;
     vp \<leftarrow> draw_text F 24 12 (Some ''KaihongOS Setup Utility'') C_WHITE C_BLUE_LT vp;
     vp \<leftarrow> draw_text F 1200 12 product C_WHITE C_BLUE_LT vp;
     vp \<leftarrow> draw_text F 1600 12 page C_WHITE C_BLUE_LT vp;
     vp \<leftarrow> fb_frame PANEL_X PANEL_Y PANEL_W PANEL_H C_WHITE C_GRAY vp;
     vp \<leftarrow> fb_fill_rect (PANEL_X + 4) (PANEL_Y + 4) (PANEL_W - 8) 48 C_BLUE vp;
     vp \<leftarrow> draw_text F (PANEL_X + 16) (PANEL_Y + 12) page C_WHITE C_BLUE vp;
     fb_fill_rect 0 (FOOTER_Y - 8) BIOS_FB_W 88 C_BLUE_LT vp }"

section \<open>The display and the page operations\<close>

text \<open>\<open>bios_video_priv\<close>: the device is looked up once and remembered.\<close>

definition bios_video_priv :: "ui_config \<Rightarrow> ui_state \<Rightarrow> bool \<times> ui_state" where
  "bios_video_priv C s =
     (if \<not> ui_vid s \<and> \<not> vid_device C then (False, s) else (True, s\<lparr>ui_vid := True\<rparr>))"

definition ui_emit :: "ui_event \<Rightarrow> ui_state \<Rightarrow> ui_state" where
  "ui_emit ev s = s\<lparr>ui_log := ui_log s @ [ev]\<rparr>"

definition bios_video_sync :: "ui_state \<Rightarrow> ui_state" where
  "bios_video_sync s = (if ui_vid s then ui_emit VideoSync s else s)"

definition on_vid :: "(video_priv \<Rightarrow> video_priv option) \<Rightarrow> ui_state \<Rightarrow> ui_state option" where
  "on_vid f s = map_option (\<lambda>vp. s\<lparr>vid_priv := vp\<rparr>) (f (vid_priv s))"

definition takeover_geometry :: "video_priv \<Rightarrow> video_priv" where
  "takeover_geometry vp =
     vp\<lparr>xsize := BIOS_FB_W, ysize := BIOS_FB_H, line_length := BIOS_FB_W * 4,
        fb_size := BIOS_FB_W * 4 * BIOS_FB_H, colour_bg := C_BLUE, colour_fg := C_WHITE\<rparr>"

definition kh_bios_ui_display_takeover :: "ui_config \<Rightarrow> ui_state \<Rightarrow> (int \<times> ui_state) option" where
  "kh_bios_ui_display_takeover C s =
     (if \<not> cfg_video C \<or> \<not> cfg_drm_rockchip C \<or> \<not> vid_device C then Some (- ENODEV, s)
      else let s1 = s\<lparr>ui_vid := True\<rparr> in
           if fb (vid_priv s1) = None then Some (- ENODEV, s1)
           else do {
             s2 \<leftarrow> on_vid (fb_fill_rect 0 0 BIOS_FB_W BIOS_FB_H C_BLUE)
                     (ui_emit (ShowFbbase BIOS_FB_W BIOS_FB_H 32)
                       (s1\<lparr>vid_priv := takeover_geometry (vid_priv s1)\<rparr>));
             Some (0, ui_emit (UiPrintf ''[kh_bios] HDMI FB %dx%d AMI-style UI'' [AInt BIOS_FB_W, AInt BIOS_FB_H])
                       (ui_emit VideoSync (ui_emit FlushDcache s2))) })"

definition kh_bios_ui_display_restore :: "ui_config \<Rightarrow> ui_state \<Rightarrow> ui_state" where
  "kh_bios_ui_display_restore C s =
     (if \<not> cfg_video C \<or> \<not> cfg_drm_rockchip C then s
      else let s1 = ui_emit ShowLogo s in
           if vid_device C \<and> fb (vid_priv s1) \<noteq> None then ui_emit VideoSync s1 else s1)"

definition kh_bios_ui_draw_init :: "ui_config \<Rightarrow> ui_state \<Rightarrow> int \<times> ui_state" where
  "kh_bios_ui_draw_init C s =
     (if cfg_video C
      then let (ok, s1) = bios_video_priv C s in (if ok then 0 else - ENODEV, s1)
      else (0, s))"

definition product_text :: "'e board_ops option \<Rightarrow> string" where
  "product_text B =
     (case B of Some ops \<Rightarrow> (case product_name ops of Some p \<Rightarrow> p | None \<Rightarrow> ''KaihongOS'')
              | None \<Rightarrow> ''KaihongOS'')"

definition kh_bios_ui_draw_clear ::
  "ui_config \<Rightarrow> video_font \<Rightarrow> 'e board_ops option \<Rightarrow> ui_state \<Rightarrow> ui_state option" where
  "kh_bios_ui_draw_clear C F B s =
     (if cfg_video C
      then let (ok, s1) = bios_video_priv C s in
           if \<not> ok then Some s1
           else on_vid (draw_chrome F (Some (product_text B))
                  (Some (if ui_page_title s1 \<noteq> [] then ui_page_title s1 else ''Main''))) s1
      else Some (ui_emit (UiPrintf [CHR 0x0A] []) s))"

definition kh_bios_ui_draw_title ::
  "ui_config \<Rightarrow> video_font \<Rightarrow> 'e board_ops option \<Rightarrow> string option \<Rightarrow> ui_state \<Rightarrow> ui_state option" where
  "kh_bios_ui_draw_title C F B title s =
     (if cfg_video C
      then let (ok, s1) = bios_video_priv C s in
           if \<not> ok then Some s1
           else let s2 = s1\<lparr>ui_page_title := (case title of Some t \<Rightarrow> snprintf_buf 64 t | None \<Rightarrow> [])\<rparr>
                in map_option bios_video_sync
                     (on_vid (draw_chrome F (Some (product_text B))
                        (case title of Some t \<Rightarrow> Some t | None \<Rightarrow> Some ''Main'')) s2)
      else Some (ui_emit (UiPrintf (CHR 0x0A # ''=== %s BIOS ==='' @ [CHR 0x0A] @ ''%s'' @ [CHR 0x0A])
                  [AStr (product_text B), AStr (case title of Some t \<Rightarrow> t | None \<Rightarrow> [])]) s))"

definition kh_bios_ui_draw_line ::
  "ui_config \<Rightarrow> video_font \<Rightarrow> int \<Rightarrow> int \<Rightarrow> string option \<Rightarrow> bool \<Rightarrow> ui_state \<Rightarrow> ui_state option" where
  "kh_bios_ui_draw_line C F row col label highlight s =
     (if cfg_video C
      then let (ok, s1) = bios_video_priv C s;
               y = MENU_Y0 + row * MENU_DY;
               x = MENU_X + col * BIOS_CHAR_W F
           in if \<not> ok then Some s1
              else case label of
                     None \<Rightarrow> Some s1
                   | Some t \<Rightarrow>
                       let buf = snprintf_buf 128 (''  '' @ t)
                       in if highlight
                          then on_vid (\<lambda>vp. do {
                                 vp \<leftarrow> fb_fill_rect (PANEL_X + 8) (y - 4) (PANEL_W - 16)
                                         (BIOS_CHAR_H F + 8) C_BLUE vp;
                                 draw_text F x y (Some buf) C_WHITE C_BLUE vp }) s1
                          else on_vid (draw_text F x y (Some buf) C_BLACK C_GRAY) s1
      else Some (ui_emit (UiPrintf ''%s%s'' [AStr (if highlight then ''> '' else ''  ''),
                            AStr (case label of Some t \<Rightarrow> t | None \<Rightarrow> [])]) s))"

text \<open>The arrows of the default hint are the bytes of their UTF-8 encoding.\<close>

definition default_hint :: string where
  "default_hint = [CHR 0xE2, CHR 0x86, CHR 0x91, CHR 0xE2, CHR 0x86, CHR 0x93] @
     '':Move   Enter:Select   Esc:Exit   F10:Save(setup)''"

definition kh_bios_ui_draw_footer ::
  "ui_config \<Rightarrow> video_font \<Rightarrow> string option \<Rightarrow> ui_state \<Rightarrow> ui_state option" where
  "kh_bios_ui_draw_footer C F hint s =
     (if cfg_video C
      then let (ok, s1) = bios_video_priv C s in
           if \<not> ok then Some s1
           else map_option bios_video_sync
                  (on_vid (draw_text F 24 (FOOTER_Y + 12)
                     (case hint of Some h \<Rightarrow> Some h | None \<Rightarrow> Some default_hint) C_WHITE C_BLUE_LT) s1)
      else Some (ui_emit (UiPrintf (CHR 0x0A # ''%s'') [AStr (case hint of Some h \<Rightarrow> h | None \<Rightarrow> [])]) s))"

section \<open>Pictures\<close>

text \<open>
  A frame buffer that covers the screen: whole pixels in a line, and memory for every line.
  \<open>pixel\<close> reads the pixel of a row and a column; \<open>painted m vp vp'\<close> says that
  \<open>vp'\<close> is \<open>vp\<close> with exactly the pixels of the picture \<open>m\<close> replaced.
\<close>

definition geom_ok :: "video_priv \<Rightarrow> bool" where
  "geom_ok vp \<longleftrightarrow>
     line_length vp mod 4 = 0 \<and> 4 * xsize vp \<le> line_length vp \<and> 0 \<le> line_length vp \<and>
     (\<exists>px. fb vp = Some px \<and> ysize vp * line_length vp \<le> 4 * int (length px))"

definition stride :: "video_priv \<Rightarrow> int" where "stride vp = line_length vp div 4"

definition pixel :: "video_priv \<Rightarrow> int \<Rightarrow> int \<Rightarrow> u32" where
  "pixel vp r c = the (fb vp) ! nat (r * stride vp + c)"

definition on_screen :: "video_priv \<Rightarrow> int \<Rightarrow> int \<Rightarrow> bool" where
  "on_screen vp r c \<longleftrightarrow> 0 \<le> r \<and> r < ysize vp \<and> 0 \<le> c \<and> c < xsize vp"

type_synonym picture = "int \<times> int \<Rightarrow> u32 option"

definition painted :: "picture \<Rightarrow> video_priv \<Rightarrow> video_priv \<Rightarrow> bool" where
  "painted m vp vp' \<longleftrightarrow>
     (\<exists>px px'. fb vp = Some px \<and> vp' = vp\<lparr>fb := Some px'\<rparr> \<and> length px' = length px) \<and>
     (\<forall>r c. 0 \<le> r \<longrightarrow> r < ysize vp \<longrightarrow> 0 \<le> c \<longrightarrow> c < stride vp \<longrightarrow>
        pixel vp' r c = (case m (r, c) of None \<Rightarrow> pixel vp r c | Some k \<Rightarrow> k))"

lemma painted_same [simp]:
  assumes "painted m vp vp'"
  shows "xsize vp' = xsize vp" "ysize vp' = ysize vp" "line_length vp' = line_length vp"
    "stride vp' = stride vp" "geom_ok vp' = geom_ok vp" "on_screen vp' = on_screen vp"
  using assms by (auto simp: painted_def stride_def geom_ok_def on_screen_def fun_eq_iff)

lemma painted_refl:
  assumes "geom_ok vp"
  shows "painted Map.empty vp vp"
proof -
  from assms obtain px where px: "fb vp = Some px" by (auto simp: geom_ok_def)
  then have "vp = vp\<lparr>fb := Some px\<rparr>" by simp
  with px have "\<exists>px px'. fb vp = Some px \<and> vp = vp\<lparr>fb := Some px'\<rparr> \<and> length px' = length px"
    by blast
  then show ?thesis unfolding painted_def by simp
qed

lemma painted_trans:
  assumes "painted m vp vp1" and "painted n vp1 vp2"
  shows "painted (m ++ n) vp vp2"
proof -
  note same = painted_same [OF assms(1)]
  have "\<exists>px px'. fb vp = Some px \<and> vp2 = vp\<lparr>fb := Some px'\<rparr> \<and> length px' = length px"
    using assms unfolding painted_def by auto
  moreover have "pixel vp2 r c = (case (m ++ n) (r, c) of None \<Rightarrow> pixel vp r c | Some k \<Rightarrow> k)"
    if "0 \<le> r" "r < ysize vp" "0 \<le> c" "c < stride vp" for r c
  proof -
    from assms(2) that same have
      "pixel vp2 r c = (case n (r, c) of None \<Rightarrow> pixel vp1 r c | Some k \<Rightarrow> k)"
      unfolding painted_def by metis
    moreover from assms(1) that have
      "pixel vp1 r c = (case m (r, c) of None \<Rightarrow> pixel vp r c | Some k \<Rightarrow> k)"
      unfolding painted_def by metis
    ultimately show ?thesis by (auto simp: map_add_def split: option.splits)
  qed
  ultimately show ?thesis unfolding painted_def by blast
qed

lemma index_inj:
  fixes S :: int
  assumes "0 \<le> c" "c < S" "0 \<le> c'" "c' < S" "r * S + c = r' * S + c'"
  shows "r = r' \<and> c = c'"
proof -
  have "(r * S + c) div S = (r' * S + c') div S" using assms(5) by simp
  with assms(1-4) have "r = r'" by simp
  with assms(5) show ?thesis by simp
qed

lemma fb_store_paints:
  assumes g: "geom_ok vp" and on: "on_screen vp r c"
  shows "\<exists>vp'. fb_store r c k vp = Some vp' \<and> painted [(r, c) \<mapsto> k] vp vp'"
proof -
  from g obtain px where px: "fb vp = Some px" "ysize vp * line_length vp \<le> 4 * int (length px)"
    by (auto simp: geom_ok_def)
  from g have m4: "line_length vp mod 4 = 0" "4 * xsize vp \<le> line_length vp" "0 \<le> line_length vp"
    by (simp_all add: geom_ok_def)
  have ll: "line_length vp = 4 * stride vp" "xsize vp \<le> stride vp" "0 \<le> stride vp"
    unfolding stride_def using m4 by presburger+
  from on have rc: "0 \<le> r" "r < ysize vp" "0 \<le> c" "c < stride vp" using ll by (auto simp: on_screen_def)
  have bound: "r' * stride vp + c' < int (length px)"
    if "0 \<le> r'" "r' < ysize vp" "0 \<le> c'" "c' < stride vp" for r' c'
  proof -
    from that have "r' * stride vp + c' < (r' + 1) * stride vp" by (simp add: algebra_simps)
    also have "\<dots> \<le> ysize vp * stride vp" using that by (intro mult_right_mono) auto
    also have "\<dots> \<le> int (length px)" using px(2) ll by simp
    finally show ?thesis .
  qed
  have off: "r * line_length vp + 4 * c = (r * stride vp + c) * 4" using ll by simp
  have nn: "0 \<le> r * stride vp + c" using rc ll by simp
  let ?px = "px[nat (r * stride vp + c) := k]"
  have "fb_store r c k vp = Some (vp\<lparr>fb := Some ?px\<rparr>)"
    using px bound [OF rc] nn by (simp add: fb_store_def off Let_def)
  moreover have "painted [(r, c) \<mapsto> k] vp (vp\<lparr>fb := Some ?px\<rparr>)"
    unfolding painted_def
  proof (intro conjI allI impI)
    show "\<exists>px px'. fb vp = Some px \<and> vp\<lparr>fb := Some ?px\<rparr> = vp\<lparr>fb := Some px'\<rparr> \<and> length px' = length px"
      using px by auto
  next
    fix r' c' assume a: "0 \<le> r'" "r' < ysize vp" "0 \<le> c'" "c' < stride vp"
    have "nat (r * stride vp + c) = nat (r' * stride vp + c') \<longleftrightarrow> r = r' \<and> c = c'"
    proof
      assume "nat (r * stride vp + c) = nat (r' * stride vp + c')"
      moreover have "0 \<le> r' * stride vp + c'" using a ll by simp
      ultimately have "r * stride vp + c = r' * stride vp + c'" using nn by linarith
      with index_inj [of c "stride vp" c' r r'] rc a show "r = r' \<and> c = c'" by simp
    qed simp
    then show "pixel (vp\<lparr>fb := Some ?px\<rparr>) r' c' =
        (case [(r, c) \<mapsto> k] (r', c') of None \<Rightarrow> pixel vp r' c' | Some k \<Rightarrow> k)"
      using px bound [OF rc] nn by (auto simp: pixel_def stride_def nth_list_update)
  qed
  ultimately show ?thesis by blast
qed

text \<open>The picture with the colours \<open>f\<close> at the places \<open>P\<close>.\<close>

definition pic :: "(int \<times> int \<Rightarrow> bool) \<Rightarrow> (int \<times> int \<Rightarrow> u32) \<Rightarrow> picture" where
  "pic P f = (\<lambda>x. if P x then Some (f x) else None)"

lemma pic_add: "pic P f ++ pic Q f = pic (\<lambda>x. P x \<or> Q x) f"
  by (rule ext) (simp add: pic_def map_add_def)

lemma pic_none: "pic (\<lambda>x. False) f = Map.empty"
  by (rule ext) (simp add: pic_def)

lemma pic_cong:
  assumes "\<And>r c. P (r, c) = Q (r, c)" and "\<And>r c. Q (r, c) \<Longrightarrow> f (r, c) = g (r, c)"
  shows "pic P f = pic Q g"
proof (rule ext)
  fix x :: "int \<times> int"
  show "pic P f x = pic Q g x" using assms by (cases x) (simp add: pic_def)
qed

text \<open>A loop that paints: \<open>P i\<close> are the places painted in the rounds below \<open>i\<close>.\<close>

lemma paint_loop:
  assumes g: "geom_ok vp" and P0: "\<And>r c. \<not> P lo (r, c)"
    and PQ: "\<And>i r c. lo \<le> i \<Longrightarrow> i < hi \<Longrightarrow> P (i + 1) (r, c) \<longleftrightarrow> P i (r, c) \<or> Q i (r, c)"
    and step: "\<And>i vp1. lo \<le> i \<Longrightarrow> i < hi \<Longrightarrow> geom_ok vp1 \<Longrightarrow> on_screen vp1 = on_screen vp \<Longrightarrow>
       xsize vp1 = xsize vp \<Longrightarrow> ysize vp1 = ysize vp \<Longrightarrow>
       \<exists>vp2. body i vp1 = Some vp2 \<and> painted (pic (Q i) f) vp1 vp2"
  shows "\<exists>vp'. for_int lo hi body vp = Some vp' \<and> painted (pic (P (max lo hi)) f) vp vp'"
proof (rule for_int_invariant [where P = "\<lambda>i vp'. painted (pic (P i) f) vp vp'"])
  have "pic (P lo) f = Map.empty" using P0 pic_cong [of "P lo" "\<lambda>x. False" f f] pic_none by metis
  then show "painted (pic (P lo) f) vp vp" using painted_refl [OF g] by simp
next
  fix i vp1 assume i: "lo \<le> i" "i < hi" and p: "painted (pic (P i) f) vp vp1"
  from step [OF i, of vp1] g painted_same [OF p] obtain vp2 where
    "body i vp1 = Some vp2" "painted (pic (Q i) f) vp1 vp2" by auto
  moreover have "pic (P (i + 1)) f = pic (\<lambda>x. P i x \<or> Q i x) f" by (rule pic_cong) (simp_all add: PQ i)
  ultimately show "\<exists>vp2. body i vp1 = Some vp2 \<and> painted (pic (P (i + 1)) f) vp vp2"
    using painted_trans [OF p] by (metis pic_add)
qed

lemma store_paints:
  assumes "geom_ok vp" and "on_screen vp r c"
  shows "\<exists>vp'. fb_store r c k vp = Some vp' \<and> painted (pic (\<lambda>x. x = (r, c)) (\<lambda>x. k)) vp vp'"
proof -
  have "[(r, c) \<mapsto> k] = pic (\<lambda>x. x = (r, c)) (\<lambda>x. k)" by (rule ext) (simp add: pic_def)
  with fb_store_paints [OF assms, of k] show ?thesis by simp
qed

lemma skip_paints: "geom_ok vp \<Longrightarrow> \<exists>vp'. Some vp = Some vp' \<and> painted (pic (\<lambda>x. False) f) vp vp'"
  by (simp add: painted_refl pic_none)

definition in_rect :: "video_priv \<Rightarrow> int \<Rightarrow> int \<Rightarrow> int \<Rightarrow> int \<Rightarrow> int \<times> int \<Rightarrow> bool" where
  "in_rect vp x y w h = (\<lambda>(r, c). on_screen vp r c \<and> y \<le> r \<and> r < y + h \<and> x \<le> c \<and> c < x + w)"

lemma line_below:
  fixes j :: int
  assumes "0 \<le> j"
  shows "y \<le> r \<and> r < y + (j + 1) \<longleftrightarrow> (y \<le> r \<and> r < y + j) \<or> (y + j \<le> r \<and> r < y + j + 1)"
  using assms by presburger

lemma fill_line_paints:
  assumes g: "geom_ok vp" and row: "0 \<le> row" "row < ysize vp"
  shows "\<exists>vp'. for_int x (min (x + w) (xsize vp)) (\<lambda>col vp.
            if col \<ge> 0 then fb_store row col color vp else Some vp) vp = Some vp' \<and>
          painted (pic (in_rect vp x row w 1) (\<lambda>_. color)) vp vp'"
proof -
  let ?P = "\<lambda>i (r, c). r = row \<and> 0 \<le> c \<and> x \<le> c \<and> c < i"
  let ?hi = "min (x + w) (xsize vp)"
  have "\<exists>vp'. for_int x ?hi (\<lambda>col vp. if col \<ge> 0 then fb_store row col color vp else Some vp) vp = Some vp' \<and>
          painted (pic (?P (max x ?hi)) (\<lambda>_. color)) vp vp'"
  proof (rule paint_loop [OF g, where P = ?P and Q = "\<lambda>i x. i \<ge> 0 \<and> x = (row, i)"])
    fix i vp1 assume i: "x \<le> i" "i < ?hi" and g1: "geom_ok vp1" and on: "on_screen vp1 = on_screen vp"
    show "\<exists>vp2. (if i \<ge> 0 then fb_store row i color vp1 else Some vp1) = Some vp2 \<and>
        painted (pic (\<lambda>x. i \<ge> 0 \<and> x = (row, i)) (\<lambda>_. color)) vp1 vp2"
    proof (cases "i \<ge> 0")
      case True
      with i row on have "on_screen vp1 row i" by (simp add: on_screen_def)
      from store_paints [OF g1 this, of color] True show ?thesis by simp
    next
      case False
      with skip_paints [OF g1] show ?thesis by simp
    qed
  next
    fix r c :: int
    show "\<not> ?P x (r, c)" by simp
    fix i assume "x \<le> i" "i < ?hi"
    then show "?P (i + 1) (r, c) \<longleftrightarrow> ?P i (r, c) \<or> 0 \<le> i \<and> (r, c) = (row, i)"
      unfolding prod.inject prod.case by presburger
  qed
  moreover have "pic (?P (max x ?hi)) (\<lambda>_. color) = pic (in_rect vp x row w 1) (\<lambda>_. color)"
    by (rule pic_cong) (use row in \<open>auto simp: in_rect_def on_screen_def\<close>)
  ultimately show ?thesis by simp
qed

lemma fill_rect_paints:
  assumes g: "geom_ok vp"
  shows "\<exists>vp'. fb_fill_rect x y w h color vp = Some vp' \<and>
           painted (pic (in_rect vp x y w h) (\<lambda>_. color)) vp vp'"
proof -
  let ?P = "\<lambda>i (r, c). on_screen vp r c \<and> y \<le> r \<and> r < i \<and> x \<le> c \<and> c < x + w"
  let ?body = "\<lambda>row vp. if row < 0 then Some vp
             else for_int x (min (x + w) (xsize vp)) (\<lambda>col vp.
                    if col \<ge> 0 then fb_store row col color vp else Some vp) vp"
  let ?hi = "min (y + h) (ysize vp)"
  have "\<exists>vp'. for_int y ?hi ?body vp = Some vp' \<and> painted (pic (?P (max y ?hi)) (\<lambda>_. color)) vp vp'"
  proof (rule paint_loop [OF g, where P = ?P and Q = "\<lambda>i. in_rect vp x i w 1"])
    fix i vp1 assume i: "y \<le> i" "i < ?hi" and g1: "geom_ok vp1" and on: "on_screen vp1 = on_screen vp"
      and sz: "xsize vp1 = xsize vp" "ysize vp1 = ysize vp"
    show "\<exists>vp2. ?body i vp1 = Some vp2 \<and> painted (pic (in_rect vp x i w 1) (\<lambda>_. color)) vp1 vp2"
    proof (cases "i < 0")
      case True
      have "pic (in_rect vp x i w 1) (\<lambda>_. color) = pic (\<lambda>x. False) (\<lambda>_. color)"
        by (rule pic_cong) (use True in \<open>auto simp: in_rect_def on_screen_def\<close>)
      with True skip_paints [OF g1] show ?thesis by simp
    next
      case False
      with i sz have "0 \<le> i" "i < ysize vp1" by simp_all
      from fill_line_paints [OF g1 this, of x w color] on sz False show ?thesis by (simp add: in_rect_def)
    qed
  next
    fix r c :: int
    show "\<not> ?P y (r, c)" by simp
    show "?P (i + 1) (r, c) \<longleftrightarrow> ?P i (r, c) \<or> in_rect vp x i w 1 (r, c)" if "y \<le> i" for i
      using line_below [of "i - y" y r] that unfolding in_rect_def prod.case by auto
  qed
  moreover have "pic (?P (max y ?hi)) (\<lambda>_. color) = pic (in_rect vp x y w h) (\<lambda>_. color)"
    by (rule pic_cong) (auto simp: in_rect_def on_screen_def)
  moreover obtain px where "fb vp = Some px" using g by (auto simp: geom_ok_def)
  ultimately show ?thesis by (simp add: fb_fill_rect_def)
qed


text \<open>Glyphs: the colour of the pixel \<open>c\<close> columns right of the glyph's left edge.\<close>

definition glyph_color :: "u32 \<Rightarrow> u32 \<Rightarrow> u8 \<Rightarrow> nat \<Rightarrow> u32" where
  "glyph_color fg bg bits k = (if and (push_bit k bits) 0x80 \<noteq> 0 then fg else bg)"

lemma block_paints:
  assumes g: "geom_ok vp"
  shows "\<exists>vp'. draw_block px py color vp = Some vp' \<and>
           painted (pic (in_rect vp px py 2 2) (\<lambda>_. color)) vp vp'"
proof -
  let ?inner = "\<lambda>j vp. for_int 0 BIOS_FONT_SCALE (\<lambda>i vp.
              if px + i \<ge> 0 \<and> px + i < xsize vp then fb_store (py + j) (px + i) color vp
              else Some vp) vp"
  have inner: "\<exists>vp'. ?inner j vp = Some vp' \<and>
      painted (pic (in_rect vp px (py + j) 2 1) (\<lambda>_. color)) vp vp'"
    if g: "geom_ok vp" and j: "0 \<le> py + j" "py + j < ysize vp" for j vp
  proof -
    let ?P = "\<lambda>i (r, c). on_screen vp r c \<and> r = py + j \<and> px \<le> c \<and> c < px + i"
    have "\<exists>vp'. ?inner j vp = Some vp' \<and> painted (pic (?P (max 0 BIOS_FONT_SCALE)) (\<lambda>_. color)) vp vp'"
    proof (rule paint_loop [OF g, where P = ?P and Q = "\<lambda>i x. on_screen vp (py + j) (px + i) \<and> x = (py + j, px + i)"])
      fix i vp1 assume g1: "geom_ok vp1" and on: "on_screen vp1 = on_screen vp"
        and sz: "xsize vp1 = xsize vp"
      show "\<exists>vp2. (if px + i \<ge> 0 \<and> px + i < xsize vp1 then fb_store (py + j) (px + i) color vp1
              else Some vp1) = Some vp2 \<and>
          painted (pic (\<lambda>x. on_screen vp (py + j) (px + i) \<and> x = (py + j, px + i)) (\<lambda>_. color)) vp1 vp2"
      proof (cases "on_screen vp (py + j) (px + i)")
        case True
        with store_paints [OF g1, of "py + j" "px + i" color] on sz show ?thesis
          by (simp add: on_screen_def)
      next
        case False
        with j sz have "(px + i \<ge> 0 \<and> px + i < xsize vp1) = False" by (simp add: on_screen_def)
        with skip_paints [OF g1] False show ?thesis by (simp only: if_False simp_thms)
      qed
    next
      fix r c :: int
      show "\<not> ?P 0 (r, c)" by simp
      fix i :: int assume "0 \<le> i"
      then show "?P (i + 1) (r, c) \<longleftrightarrow> ?P i (r, c) \<or>
          on_screen vp (py + j) (px + i) \<and> (r, c) = (py + j, px + i)"
        by (cases "c = px + i") auto
    qed
    moreover have "pic (?P (max 0 BIOS_FONT_SCALE)) (\<lambda>_. color) = pic (in_rect vp px (py + j) 2 1) (\<lambda>_. color)"
      by (rule pic_cong) (auto simp: in_rect_def BIOS_FONT_SCALE_def)
    ultimately show ?thesis by simp
  qed
  let ?P = "\<lambda>i (r, c). on_screen vp r c \<and> py \<le> r \<and> r < py + i \<and> px \<le> c \<and> c < px + 2"
  have "\<exists>vp'. draw_block px py color vp = Some vp' \<and>
      painted (pic (?P (max 0 BIOS_FONT_SCALE)) (\<lambda>_. color)) vp vp'"
    unfolding draw_block_def
  proof (rule paint_loop [OF g, where P = ?P and Q = "\<lambda>j. in_rect vp px (py + j) 2 1"])
    fix j vp1 assume g1: "geom_ok vp1" and on: "on_screen vp1 = on_screen vp"
      and sz: "ysize vp1 = ysize vp"
    show "\<exists>vp2. (if py + j \<ge> ysize vp1 \<or> py + j < 0 then Some vp1 else ?inner j vp1) = Some vp2 \<and>
        painted (pic (in_rect vp px (py + j) 2 1) (\<lambda>_. color)) vp1 vp2"
    proof (cases "py + j \<ge> ysize vp1 \<or> py + j < 0")
      case True
      have "pic (in_rect vp px (py + j) 2 1) (\<lambda>_. color) = pic (\<lambda>x. False) (\<lambda>_. color)"
      proof (rule pic_cong)
        show "in_rect vp px (py + j) 2 1 (r, c) = False" for r c
          using True unfolding sz in_rect_def on_screen_def prod.case by arith
      qed simp
      with True skip_paints [OF g1] show ?thesis by simp
    next
      case False
      with inner [OF g1, of j] on show ?thesis by (simp add: in_rect_def)
    qed
  next
    fix r c :: int
    show "\<not> ?P 0 (r, c)" by simp
    show "?P (j + 1) (r, c) \<longleftrightarrow> ?P j (r, c) \<or> in_rect vp px (py + j) 2 1 (r, c)" if "0 \<le> j" for j
      using line_below [OF that, of py r] unfolding in_rect_def prod.case by blast
  qed
  moreover have "pic (?P (max 0 BIOS_FONT_SCALE)) (\<lambda>_. color) = pic (in_rect vp px py 2 2) (\<lambda>_. color)"
    by (rule pic_cong) (auto simp: in_rect_def BIOS_FONT_SCALE_def)
  ultimately show ?thesis by simp
qed


lemma in_rect_wider:
  assumes "0 \<le> k"
  shows "in_rect vp x y (2 * (k + 1)) h z \<longleftrightarrow> in_rect vp x y (2 * k) h z \<or> in_rect vp (x + k * 2) y 2 h z"
proof (cases z)
  case (Pair r c)
  have "x \<le> c \<and> c < x + 2 * (k + 1) \<longleftrightarrow> (x \<le> c \<and> c < x + 2 * k) \<or> (x + k * 2 \<le> c \<and> c < x + k * 2 + 2)"
    using assms by presburger
  with Pair show ?thesis unfolding in_rect_def prod.case by blast
qed

lemma in_rect_taller:
  assumes "0 \<le> k"
  shows "in_rect vp x y w (2 * (k + 1)) z \<longleftrightarrow> in_rect vp x y w (2 * k) z \<or> in_rect vp x (y + k * 2) w 2 z"
proof (cases z)
  case (Pair r c)
  have "y \<le> r \<and> r < y + 2 * (k + 1) \<longleftrightarrow> (y \<le> r \<and> r < y + 2 * k) \<or> (y + k * 2 \<le> r \<and> r < y + k * 2 + 2)"
    using assms by presburger
  with Pair show ?thesis unfolding in_rect_def prod.case by blast
qed

lemma glyph_row_paints:
  assumes g: "geom_ok vp"
  shows "\<exists>vp'. draw_glyph_row F x py bits fg bg vp = Some vp' \<and>
     painted (pic (in_rect vp x py (2 * font_width F) 2)
       (\<lambda>(r, c). glyph_color fg bg bits (nat ((c - x) div 2)))) vp vp'"
proof -
  let ?f = "\<lambda>(r :: int, c). glyph_color fg bg bits (nat ((c - x) div 2))"
  let ?P = "\<lambda>k. in_rect vp x py (2 * k) 2"
  let ?body = "\<lambda>col (bits, vp). map_option (\<lambda>vp. (push_bit 1 bits, vp))
            (draw_block (x + col * BIOS_FONT_SCALE) py (if and bits 0x80 \<noteq> 0 then fg else bg) vp)"
  let ?inv = "\<lambda>k (b, vp'). b = push_bit (nat k) bits \<and> painted (pic (?P k) ?f) vp vp'"
  have "\<exists>s'. for_int 0 (font_width F) ?body (bits, vp) = Some s' \<and> ?inv (max 0 (font_width F)) s'"
  proof (rule for_int_invariant)
    have "pic (?P 0) ?f = pic (\<lambda>x. False) ?f" by (rule pic_cong) (auto simp: in_rect_def)
    with painted_refl [OF g] show "?inv 0 (bits, vp)" by (simp add: pic_none)
  next
    fix k s assume k: "0 \<le> k" "k < font_width F" and inv: "?inv k s"
    then obtain vp1 where s: "s = (push_bit (nat k) bits, vp1)" and p: "painted (pic (?P k) ?f) vp vp1"
      by (cases s) auto
    let ?col = "glyph_color fg bg bits (nat k)"
    from block_paints [of vp1 "x + k * 2" py ?col] g p obtain vp2 where
      b: "draw_block (x + k * 2) py ?col vp1 = Some vp2"
        "painted (pic (in_rect vp1 (x + k * 2) py 2 2) (\<lambda>_. ?col)) vp1 vp2" by auto
    have "pic (in_rect vp1 (x + k * 2) py 2 2) (\<lambda>_. ?col) = pic (in_rect vp (x + k * 2) py 2 2) ?f"
    proof (rule pic_cong)
      fix r c assume "in_rect vp (x + k * 2) py 2 2 (r, c)"
      then have "x + k * 2 \<le> c" "c < x + k * 2 + 2" by (simp_all add: in_rect_def)
      then have "(c - x) div 2 = k" by presburger
      then show "?col = ?f (r, c)" by simp
    qed (simp add: in_rect_def painted_same [OF p])
    moreover have "pic (?P (k + 1)) ?f = pic (\<lambda>y. ?P k y \<or> in_rect vp (x + k * 2) py 2 2 y) ?f"
      by (rule pic_cong) (simp_all only: in_rect_wider [OF k(1)])
    ultimately have "painted (pic (?P (k + 1)) ?f) vp vp2"
      using painted_trans [OF p b(2)] by (simp only: pic_add)
    moreover have "push_bit 1 (push_bit (nat k) bits) = push_bit (nat (k + 1)) bits"
      using k by (simp add: nat_add_distrib)
    ultimately show "\<exists>s'. ?body k s = Some s' \<and> ?inv (k + 1) s'"
      unfolding s BIOS_FONT_SCALE_def prod.case using b(1) by (simp add: glyph_color_def)
  qed
  then obtain b vp' where r: "for_int 0 (font_width F) ?body (bits, vp) = Some (b, vp')"
      "painted (pic (?P (max 0 (font_width F))) ?f) vp vp'" by auto
  have "pic (?P (max 0 (font_width F))) ?f = pic (?P (font_width F)) ?f"
    by (rule pic_cong) (auto simp: in_rect_def)
  with r show ?thesis by (simp add: draw_glyph_row_def)
qed

definition char_color :: "video_font \<Rightarrow> int \<Rightarrow> int \<Rightarrow> char \<Rightarrow> u32 \<Rightarrow> u32 \<Rightarrow> int \<times> int \<Rightarrow> u32" where
  "char_color F x y ch fg bg = (\<lambda>(r, c).
     glyph_color fg bg (fontdata F (of_char ch * font_height F + (r - y) div 2)) (nat ((c - x) div 2)))"

definition in_char :: "video_font \<Rightarrow> video_priv \<Rightarrow> int \<Rightarrow> int \<Rightarrow> char \<Rightarrow> int \<times> int \<Rightarrow> bool" where
  "in_char F vp x y ch z \<longleftrightarrow>
     of_char ch < font_chars F \<and> in_rect vp x y (2 * font_width F) (2 * font_height F) z"

lemma char_paints:
  assumes g: "geom_ok vp"
  shows "\<exists>vp'. draw_char_at F x y ch fg bg vp = Some vp' \<and>
           painted (pic (in_char F vp x y ch) (char_color F x y ch fg bg)) vp vp'"
proof (cases "of_char ch \<ge> font_chars F")
  case True
  have "pic (in_char F vp x y ch) (char_color F x y ch fg bg) = pic (\<lambda>x. False) (char_color F x y ch fg bg)"
    by (rule pic_cong) (use True in \<open>auto simp: in_char_def\<close>)
  with True skip_paints [OF g] show ?thesis by (simp add: draw_char_at_def)
next
  case False
  let ?f = "char_color F x y ch fg bg"
  let ?P = "\<lambda>k. in_rect vp x y (2 * font_width F) (2 * k)"
  let ?body = "\<lambda>row vp. draw_glyph_row F x (y + row * BIOS_FONT_SCALE)
               (fontdata F (of_char ch * font_height F + row)) fg bg vp"
  have "\<exists>vp'. for_int 0 (font_height F) ?body vp = Some vp' \<and>
      painted (pic (?P (max 0 (font_height F))) ?f) vp vp'"
  proof (rule paint_loop [OF g, where P = ?P and Q = "\<lambda>k. in_rect vp x (y + k * 2) (2 * font_width F) 2"])
    fix k vp1 assume g1: "geom_ok vp1" and on: "on_screen vp1 = on_screen vp"
    have eq: "pic (in_rect vp1 x (y + k * 2) (2 * font_width F) 2)
          (\<lambda>(r, c). glyph_color fg bg (fontdata F (of_char ch * font_height F + k)) (nat ((c - x) div 2))) =
        pic (in_rect vp x (y + k * 2) (2 * font_width F) 2) ?f"
    proof (rule pic_cong)
      fix r c assume "in_rect vp x (y + k * 2) (2 * font_width F) 2 (r, c)"
      then have "y + k * 2 \<le> r" "r < y + k * 2 + 2" by (simp_all add: in_rect_def)
      then have "(r - y) div 2 = k" by presburger
      then show "(\<lambda>(r :: int, c). glyph_color fg bg (fontdata F (of_char ch * font_height F + k))
          (nat ((c - x) div 2))) (r, c) = ?f (r, c)" by (simp add: char_color_def)
    qed (simp add: in_rect_def on)
    from glyph_row_paints [OF g1, of F x "y + k * 2" "fontdata F (of_char ch * font_height F + k)" fg bg]
    show "\<exists>vp2. ?body k vp1 = Some vp2 \<and>
        painted (pic (in_rect vp x (y + k * 2) (2 * font_width F) 2) ?f) vp1 vp2"
      unfolding eq BIOS_FONT_SCALE_def .
  next
    show "\<not> ?P 0 (r, c)" for r c by (simp add: in_rect_def)
    show "?P (k + 1) (r, c) \<longleftrightarrow> ?P k (r, c) \<or> in_rect vp x (y + k * 2) (2 * font_width F) 2 (r, c)"
      if "0 \<le> k" for k r c
      using in_rect_taller [OF that] .
  qed
  moreover have "pic (?P (max 0 (font_height F))) ?f = pic (in_char F vp x y ch) ?f"
    by (rule pic_cong) (use False in \<open>auto simp: in_char_def in_rect_def\<close>)
  ultimately show ?thesis using False by (simp add: draw_char_at_def)
qed


text \<open>Text: the character a column belongs to is found by dividing by the character width.\<close>

definition text_index :: "video_font \<Rightarrow> int \<Rightarrow> int \<Rightarrow> int" where
  "text_index F x c = (c - x) div BIOS_CHAR_W F"

definition in_text :: "video_font \<Rightarrow> video_priv \<Rightarrow> int \<Rightarrow> int \<Rightarrow> string \<Rightarrow> int \<times> int \<Rightarrow> bool" where
  "in_text F vp x y t = (\<lambda>(r, c).
     x \<le> c \<and> c < x + int (length t) * BIOS_CHAR_W F \<and>
     in_char F vp (x + text_index F x c * BIOS_CHAR_W F) y (t ! nat (text_index F x c)) (r, c))"

definition text_color :: "video_font \<Rightarrow> int \<Rightarrow> int \<Rightarrow> string \<Rightarrow> u32 \<Rightarrow> u32 \<Rightarrow> int \<times> int \<Rightarrow> u32" where
  "text_color F x y t fg bg = (\<lambda>(r, c).
     char_color F (x + text_index F x c * BIOS_CHAR_W F) y (t ! nat (text_index F x c)) fg bg (r, c))"

lemma text_index_block:
  assumes "0 < W"
  shows "(x + i * W \<le> c \<and> c < x + i * W + W) \<longleftrightarrow> (c - x) div W = (i :: int)"
proof
  assume "x + i * W \<le> c \<and> c < x + i * W + W"
  then have "c - x = W * i + (c - x - i * W)" "0 \<le> c - x - i * W" "c - x - i * W < W"
    by (simp_all add: algebra_simps)
  then show "(c - x) div W = i" by (rule int_div_pos_eq)
next
  assume d: "(c - x) div W = i"
  have "(c - x) div W * W + (c - x) mod W = c - x" by simp
  moreover have "0 \<le> (c - x) mod W" "(c - x) mod W < W" using assms by simp_all
  ultimately show "x + i * W \<le> c \<and> c < x + i * W + W" unfolding d by linarith
qed

lemma text_index_less:
  assumes "0 < W"
  shows "c < x + n * W \<longleftrightarrow> (c - x) div W < (n :: int)"
proof -
  have q: "x + (c - x) div W * W \<le> c" "c < x + ((c - x) div W + 1) * W"
    using text_index_block [OF assms, of x "(c - x) div W" c] by (simp_all add: distrib_right)
  show ?thesis
  proof
    assume "c < x + n * W"
    with q have "(c - x) div W * W < n * W" by linarith
    with assms show "(c - x) div W < n" by simp
  next
    assume "(c - x) div W < n"
    then have "((c - x) div W + 1) * W \<le> n * W" using assms by (intro mult_right_mono) simp_all
    with q show "c < x + n * W" by linarith
  qed
qed

lemma in_char_cols:
  "in_char F vp x y ch (r, c) \<Longrightarrow> x \<le> c \<and> c < x + BIOS_CHAR_W F"
  by (simp add: in_char_def in_rect_def BIOS_CHAR_W_def BIOS_FONT_SCALE_def mult.commute)

lemma text_paints:
  assumes g: "geom_ok vp" and W: "0 < font_width F"
  shows "\<exists>vp'. draw_text F x y (Some t) fg bg vp = Some vp' \<and>
           painted (pic (in_text F vp x y t) (text_color F x y t fg bg)) vp vp'"
proof -
  let ?W = "BIOS_CHAR_W F"
  have W': "0 < ?W" using W by (simp add: BIOS_CHAR_W_def BIOS_FONT_SCALE_def)
  let ?f = "text_color F x y t fg bg"
  let ?n = "int (length t)"
  let ?P = "\<lambda>i (r, c). in_text F vp x y t (r, c) \<and> c < x + i * ?W"
  let ?Q = "\<lambda>i. in_char F vp (x + i * ?W) y (t ! nat i)"
  have blk: "(c - x) div ?W = i" if "?Q i (r, c)" for i r c
    using text_index_block [OF W', of x i c] in_char_cols [OF that] by (simp add: algebra_simps)
  have "\<exists>vp'. for_int 0 ?n (\<lambda>i. draw_char_at F (x + i * ?W) y (t ! nat i) fg bg) vp = Some vp' \<and>
      painted (pic (?P (max 0 ?n)) ?f) vp vp'"
  proof (rule paint_loop [OF g, where P = ?P and Q = ?Q])
    fix r c :: int
    show "\<not> ?P 0 (r, c)" by (simp add: in_text_def)
    fix i assume i: "0 \<le> i" "i < ?n"
    show "?P (i + 1) (r, c) \<longleftrightarrow> ?P i (r, c) \<or> ?Q i (r, c)"
    proof (cases "(c - x) div ?W = i")
      case True
      then have "x + i * ?W \<le> c" "c < x + (i + 1) * ?W"
        using text_index_block [OF W', of x i c] by (simp_all add: algebra_simps)
      moreover have "x \<le> x + i * ?W" "x + (i + 1) * ?W \<le> x + ?n * ?W"
        using i W' by (simp_all add: mult_right_mono)
      ultimately show ?thesis using True by (simp add: in_text_def text_index_def)
    next
      case False
      then have "c < x + i * ?W \<longleftrightarrow> c < x + (i + 1) * ?W"
        using text_index_block [OF W', of x i c] W' unfolding distrib_right by auto
      with False blk [of i r c] show ?thesis by auto
    qed
  next
    fix i vp1 assume g1: "geom_ok vp1" and on: "on_screen vp1 = on_screen vp"
    have "pic (in_char F vp1 (x + i * ?W) y (t ! nat i)) (char_color F (x + i * ?W) y (t ! nat i) fg bg) =
        pic (?Q i) ?f"
    proof (rule pic_cong)
      show "in_char F vp1 (x + i * ?W) y (t ! nat i) (r, c) = ?Q i (r, c)" for r c
        by (simp add: in_char_def in_rect_def on)
      show "char_color F (x + i * ?W) y (t ! nat i) fg bg (r, c) = ?f (r, c)" if "?Q i (r, c)" for r c
        using blk [OF that] by (simp add: text_color_def text_index_def)
    qed
    with char_paints [OF g1, of F "x + i * ?W" y "t ! nat i" fg bg]
    show "\<exists>vp2. draw_char_at F (x + i * ?W) y (t ! nat i) fg bg vp1 = Some vp2 \<and>
        painted (pic (?Q i) ?f) vp1 vp2" by simp
  qed
  moreover have "pic (?P (max 0 ?n)) ?f = pic (in_text F vp x y t) ?f"
    by (rule pic_cong) (auto simp: in_text_def)
  ultimately show ?thesis by (simp add: draw_text_def)
qed

section \<open>Whole operations\<close>

text \<open>An operation that, on a frame buffer that covers the screen, only paints.\<close>

definition only_paints :: "(int \<times> int \<Rightarrow> bool) \<Rightarrow> (video_priv \<Rightarrow> video_priv option) \<Rightarrow> bool" where
  "only_paints A f \<longleftrightarrow>
     (\<forall>vp. geom_ok vp \<longrightarrow> (\<exists>vp' m. f vp = Some vp' \<and> painted m vp vp' \<and> (\<forall>z. m z \<noteq> None \<longrightarrow> A z)))"

lemma only_paints_bind:
  assumes "only_paints A f" and "only_paints A g"
  shows "only_paints A (\<lambda>vp. f vp \<bind> g)"
  unfolding only_paints_def
proof (intro allI impI)
  fix vp assume g0: "geom_ok vp"
  with assms(1) obtain vp1 m where f: "f vp = Some vp1" "painted m vp vp1" "\<forall>z. m z \<noteq> None \<longrightarrow> A z"
    unfolding only_paints_def by blast
  from f(2) g0 have "geom_ok vp1" by simp
  with assms(2) obtain vp2 n where g: "g vp1 = Some vp2" "painted n vp1 vp2" "\<forall>z. n z \<noteq> None \<longrightarrow> A z"
    unfolding only_paints_def by blast
  have "\<forall>z. (m ++ n) z \<noteq> None \<longrightarrow> A z"
    using f(3) g(3) by (simp add: map_add_def split: option.splits)
  with f g painted_trans [OF f(2) g(2)]
  show "\<exists>vp' m. f vp \<bind> g = Some vp' \<and> painted m vp vp' \<and> (\<forall>z. m z \<noteq> None \<longrightarrow> A z)" by auto
qed

lemma only_paintsI:
  assumes "\<And>vp. geom_ok vp \<Longrightarrow> \<exists>vp'. f vp = Some vp' \<and> painted (pic (P vp) (h vp)) vp vp'"
    and "\<And>vp z. P vp z \<Longrightarrow> A z"
  shows "only_paints A f"
  unfolding only_paints_def
proof (intro allI impI)
  fix vp assume "geom_ok vp"
  from assms(1) [OF this] obtain vp' where
    vp': "f vp = Some vp' \<and> painted (pic (P vp) (h vp)) vp vp'" ..
  have "\<forall>z. pic (P vp) (h vp) z \<noteq> None \<longrightarrow> A z" by (simp add: pic_def assms(2))
  with vp' have "f vp = Some vp' \<and> painted (pic (P vp) (h vp)) vp vp' \<and>
      (\<forall>z. pic (P vp) (h vp) z \<noteq> None \<longrightarrow> A z)" by simp
  then show "\<exists>vp' m. f vp = Some vp' \<and> painted m vp vp' \<and> (\<forall>z. m z \<noteq> None \<longrightarrow> A z)"
    by (intro exI)
qed

lemma fill_rect_only_paints:
  assumes "\<And>r c. y \<le> r \<Longrightarrow> r < y + h \<Longrightarrow> A (r, c)"
  shows "only_paints A (fb_fill_rect x y w h color)"
proof (rule only_paintsI [where P = "\<lambda>vp. in_rect vp x y w h" and h = "\<lambda>_ _. color"])
  show "\<exists>vp'. fb_fill_rect x y w h color vp = Some vp' \<and> painted (pic (in_rect vp x y w h) (\<lambda>_. color)) vp vp'"
    if "geom_ok vp" for vp by (rule fill_rect_paints [OF that])
  show "A z" if "in_rect vp x y w h z" for vp z
    using that assms by (cases z) (simp add: in_rect_def)
qed

lemma text_only_paints:
  assumes "0 < font_width F" and "\<And>r c. y \<le> r \<Longrightarrow> r < y + 2 * font_height F \<Longrightarrow> A (r, c)"
  shows "only_paints A (draw_text F x y t fg bg)"
proof (cases t)
  case None
  show ?thesis unfolding only_paints_def
  proof (intro allI impI)
    fix vp assume "geom_ok vp"
    from painted_refl [OF this] None
    have "draw_text F x y t fg bg vp = Some vp \<and> painted Map.empty vp vp \<and>
        (\<forall>z. Map.empty z \<noteq> None \<longrightarrow> A z)" by (simp add: draw_text_def)
    then show "\<exists>vp' m. draw_text F x y t fg bg vp = Some vp' \<and> painted m vp vp' \<and>
        (\<forall>z. m z \<noteq> None \<longrightarrow> A z)" by (intro exI)
  qed
next
  case (Some s)
  have "only_paints A (draw_text F x y (Some s) fg bg)"
  proof (rule only_paintsI [where P = "\<lambda>vp. in_text F vp x y s" and h = "\<lambda>_. text_color F x y s fg bg"])
    show "\<exists>vp'. draw_text F x y (Some s) fg bg vp = Some vp' \<and>
        painted (pic (in_text F vp x y s) (text_color F x y s fg bg)) vp vp'" if "geom_ok vp" for vp
      by (rule text_paints [OF that assms(1)])
    show "A z" if "in_text F vp x y s z" for vp z
      using that assms(2) by (cases z) (simp add: in_text_def in_char_def in_rect_def)
  qed
  with Some show ?thesis by simp
qed

lemma frame_only_paints: "only_paints (\<lambda>_. True) (fb_frame x y w h outer inner)"
  unfolding fb_frame_def by (intro only_paints_bind fill_rect_only_paints) simp_all

lemma chrome_only_paints: "0 < font_width F \<Longrightarrow> only_paints (\<lambda>_. True) (draw_chrome F product page)"
  unfolding draw_chrome_def
  by (intro only_paints_bind fill_rect_only_paints text_only_paints frame_only_paints) simp_all

lemma on_vid_paints:
  assumes "only_paints A f" and "geom_ok (vid_priv s)"
  shows "\<exists>s' m. on_vid f s = Some s' \<and> s' = s\<lparr>vid_priv := vid_priv s'\<rparr> \<and>
     painted m (vid_priv s) (vid_priv s') \<and> (\<forall>z. m z \<noteq> None \<longrightarrow> A z)"
proof -
  from assms obtain vp' m where "f (vid_priv s) = Some vp'" "painted m (vid_priv s) vp'"
      "\<forall>z. m z \<noteq> None \<longrightarrow> A z" unfolding only_paints_def by blast
  then show ?thesis by (intro exI [of _ "s\<lparr>vid_priv := vp'\<rparr>"] exI [of _ m]) (simp add: on_vid_def)
qed

text \<open>The band of a menu line.\<close>

definition line_band :: "int \<Rightarrow> int \<times> int \<Rightarrow> bool" where
  "line_band row = (\<lambda>(r, c). MENU_Y0 + row * MENU_DY - 4 \<le> r \<and> r < MENU_Y0 + row * MENU_DY + 36)"

lemma line_only_paints:
  assumes "0 < font_width F" and "font_height F \<le> 16"
  shows "only_paints (line_band row) (draw_text F x (MENU_Y0 + row * MENU_DY) t fg bg)"
    and "only_paints (line_band row) (\<lambda>vp. do {
           vp \<leftarrow> fb_fill_rect x' (MENU_Y0 + row * MENU_DY - 4) w (BIOS_CHAR_H F + 8) color vp;
           draw_text F x (MENU_Y0 + row * MENU_DY) t fg bg vp })"
proof -
  show text_only: "only_paints (line_band row) (draw_text F x (MENU_Y0 + row * MENU_DY) t fg bg)"
    by (rule text_only_paints) (use assms in \<open>auto simp: line_band_def\<close>)
  show "only_paints (line_band row) (\<lambda>vp. do {
           vp \<leftarrow> fb_fill_rect x' (MENU_Y0 + row * MENU_DY - 4) w (BIOS_CHAR_H F + 8) color vp;
           draw_text F x (MENU_Y0 + row * MENU_DY) t fg bg vp })"
    by (rule only_paints_bind [OF fill_rect_only_paints text_only])
      (use assms in \<open>auto simp: line_band_def BIOS_CHAR_H_def BIOS_FONT_SCALE_def\<close>)
qed

lemma video_priv_frame:
  "bios_video_priv C s = (ok, s1) \<Longrightarrow> vid_priv s1 = vid_priv s \<and> ui_page_title s1 = ui_page_title s \<and>
     ui_log s1 = ui_log s"
  by (auto simp: bios_video_priv_def split: if_splits)

lemma vid_priv_emit [simp]: "vid_priv (ui_emit ev s) = vid_priv s" "vid_priv (bios_video_sync s) = vid_priv s"
  by (simp_all add: ui_emit_def bios_video_sync_def)

lemma draw_line_painted:
  assumes C: "cfg_video C" and w: "0 < font_width F" and g: "geom_ok (vid_priv s)"
    and fh: "font_height F \<le> 16"
  shows "\<exists>s' m. kh_bios_ui_draw_line C F row col label hl s = Some s' \<and>
      painted m (vid_priv s) (vid_priv s') \<and> (\<forall>z. m z \<noteq> None \<longrightarrow> line_band row z)"
proof -
  obtain b s1 where s1: "bios_video_priv C s = (b, s1)" by fastforce
  have v1: "vid_priv s1 = vid_priv s" using video_priv_frame [OF s1] by simp
  from g have g1: "geom_ok (vid_priv s1)" unfolding v1 .
  have skip: "painted Map.empty (vid_priv s) (vid_priv s1)" unfolding v1 by (rule painted_refl [OF g])
  show ?thesis
  proof (cases "b \<and> label \<noteq> None")
    case False
    then have "kh_bios_ui_draw_line C F row col label hl s = Some s1"
      using C s1 by (auto simp: kh_bios_ui_draw_line_def Let_def)
    with skip show ?thesis by fastforce
  next
    case True
    then obtain t where t: "b" "label = Some t" by auto
    let ?buf = "snprintf_buf 128 (''  '' @ t)"
    show ?thesis
    proof (cases hl)
      case False
      with C s1 t have "kh_bios_ui_draw_line C F row col label hl s =
          on_vid (draw_text F (MENU_X + col * BIOS_CHAR_W F) (MENU_Y0 + row * MENU_DY) (Some ?buf)
            C_BLACK C_GRAY) s1" by (simp add: kh_bios_ui_draw_line_def Let_def)
      with on_vid_paints [OF line_only_paints(1) [OF w fh] g1] show ?thesis unfolding v1 by metis
    next
      case True
      with C s1 t have "kh_bios_ui_draw_line C F row col label hl s =
          on_vid (\<lambda>vp. do {
             vp \<leftarrow> fb_fill_rect (PANEL_X + 8) (MENU_Y0 + row * MENU_DY - 4) (PANEL_W - 16)
                     (BIOS_CHAR_H F + 8) C_BLUE vp;
             draw_text F (MENU_X + col * BIOS_CHAR_W F) (MENU_Y0 + row * MENU_DY) (Some ?buf)
               C_WHITE C_BLUE vp }) s1" by (simp add: kh_bios_ui_draw_line_def Let_def)
      with on_vid_paints [OF line_only_paints(2) [OF w fh] g1] show ?thesis unfolding v1 by metis
    qed
  qed
qed

text \<open>Without a frame buffer, filling does nothing and the first visible glyph pixel faults.\<close>

lemma fill_rect_no_fb: "fb vp = None \<Longrightarrow> fb_fill_rect x y w h color vp = Some vp"
  by (simp add: fb_fill_rect_def)

lemma draw_text_no_fb:
  assumes "fb vp = None" and "0 < font_width F" "0 < font_height F" and "0 \<le> x" "x < xsize vp"
    and "0 \<le> y" "y < ysize vp" and "of_char ch < font_chars F"
  shows "draw_text F x y (Some (ch # t)) fg bg vp = None"
proof -
  have "draw_block x y color vp = None" for color
    unfolding draw_block_def
    by (rule for_int_first_fails, simp add: BIOS_FONT_SCALE_def)
      (use assms in \<open>simp add: for_int_first_fails BIOS_FONT_SCALE_def fb_store_def\<close>)
  then have "draw_glyph_row F x y bits fg bg vp = None" for bits
    using assms for_int_first_fails [of 0 "font_width F" _ "(bits, vp)"]
    by (simp add: draw_glyph_row_def)
  then have "draw_char_at F x y ch fg bg vp = None"
    using assms by (simp add: draw_char_at_def for_int_first_fails)
  then show ?thesis by (simp add: draw_text_def for_int_first_fails)
qed

lemma draw_chrome_no_fb:
  assumes "fb vp = None" and "0 < font_width F" "0 < font_height F" and "24 < xsize vp"
    and "12 < ysize vp" and "75 < font_chars F"
  shows "draw_chrome F product page vp = None"
  unfolding draw_chrome_def
  using draw_text_no_fb [of vp F 24 12 "CHR ''K''" "''aihongOS Setup Utility''"] assms
  by (simp add: fill_rect_no_fb)

text \<open>A frame buffer too short for the screen it is given.\<close>

lemma fb_store_length:
  "fb_store r c k vp = Some vp' \<Longrightarrow>
   \<exists>px px'. fb vp = Some px \<and> vp' = vp\<lparr>fb := Some px'\<rparr> \<and> length px' = length px"
  by (auto simp: fb_store_def Let_def split: option.splits if_splits)

definition short_fb :: "nat \<Rightarrow> video_priv \<Rightarrow> bool" where
  "short_fb n vp \<longleftrightarrow> xsize vp = 1920 \<and> ysize vp = 1080 \<and> line_length vp = 7680 \<and>
     (\<exists>px. fb vp = Some px \<and> length px = n)"

lemma short_fb_store: "short_fb n vp \<Longrightarrow> fb_store r c k vp = Some vp' \<Longrightarrow> short_fb n vp'"
  using fb_store_length [of r c k vp vp'] by (auto simp: short_fb_def)

lemma fill_screen_too_short:
  assumes s: "short_fb n vp" and n: "n < 1920 * 1080"
  shows "fb_fill_rect 0 0 1920 1080 color vp = None"
proof -
  let ?line = "\<lambda>row vp. for_int 0 (min (0 + 1920) (xsize vp)) (\<lambda>col vp.
                    if col \<ge> 0 then fb_store row col color vp else Some vp) vp"
  let ?body = "\<lambda>row vp. if row < 0 then Some vp else ?line row vp"
  have keep: "short_fb n vp'" if "short_fb n vp" "?line row vp = Some vp'" for row vp vp'
    using that(2,1) by (rule for_int_preserves) (auto split: if_splits intro: short_fb_store)
  have last: "?line 1079 vp = None" if "short_fb n vp" for vp
  proof (rule for_int_round_fails [where i = 1919 and P = "short_fb n"])
    show "(if (1919 :: int) \<ge> 0 then fb_store 1079 1919 color vp1 else Some vp1) = None" if "short_fb n vp1" for vp1
      using that n by (auto simp: short_fb_def fb_store_def)
    show "short_fb n vp2" if "short_fb n vp1"
        "(if col \<ge> 0 then fb_store 1079 col color vp1 else Some vp1) = Some vp2" for col vp1 vp2
      using that by (auto split: if_splits intro: short_fb_store)
    show "1919 < min (0 + 1920) (xsize vp)" using that by (simp add: short_fb_def)
  qed (simp_all add: that)
  have "for_int 0 (min (0 + 1080) (ysize vp)) ?body vp = None"
  proof (rule for_int_round_fails [where i = 1079 and P = "short_fb n"])
    show "?body 1079 vp1 = None" if "short_fb n vp1" for vp1 using last [OF that] by simp
    show "short_fb n vp2" if "short_fb n vp1" "?body row vp1 = Some vp2" for row vp1 vp2
      using keep [OF that(1), of row vp2] that by (simp split: if_splits)
  qed (use s in \<open>simp_all add: short_fb_def\<close>)
  moreover have "fb vp \<noteq> None" using s by (auto simp: short_fb_def)
  ultimately show ?thesis unfolding fb_fill_rect_def by (simp only: if_False)
qed

section \<open>Instances for the witnesses\<close>

definition box_font :: video_font where
  "box_font = \<lparr>font_width = 8, font_height = 16, font_chars = 256, fontdata = (\<lambda>_. 0xFF)\<rparr>"

definition small_screen :: "u32 list option \<Rightarrow> video_priv" where
  "small_screen px = \<lparr>xsize = 64, ysize = 48, line_length = 256, fb_size = 0,
     colour_bg = 0, colour_fg = 0, fb = px\<rparr>"

definition small_ui :: "u32 list option \<Rightarrow> ui_state" where
  "small_ui px = \<lparr>ui_vid = False, ui_page_title = [], vid_priv = small_screen px, ui_log = []\<rparr>"

definition hdmi_config :: ui_config where
  "hdmi_config = \<lparr>cfg_drm_rockchip = True, cfg_video = True, vid_device = True\<rparr>"

lemma small_screen_ok: "geom_ok (small_screen (Some (replicate 3072 0)))"
  by (simp add: geom_ok_def small_screen_def)

lemma small_screen_pixel:
  assumes "0 \<le> r" "r < 48" "0 \<le> c" "c < 64"
  shows "pixel (small_screen (Some (replicate 3072 0))) r c = 0"
proof -
  have "nat (r * 64 + c) < 3072" using assms by simp
  then show ?thesis by (simp add: pixel_def small_screen_def stride_def)
qed

section \<open>Properties\<close>

text \<open>
  Filling a rectangle is exact and stays in the frame buffer: on a frame buffer that
  covers the screen it never stores outside, every pixel of the screen inside the rectangle
  gets the colour, and every other pixel (those past the end of a line included) keeps its
  value, for every rectangle, also one that hangs over an edge or starts at a negative place.
\<close>

theorem fill_rect_exact:
  assumes "geom_ok vp"
  shows "\<exists>vp'. fb_fill_rect x y w h color vp = Some vp' \<and>
    (\<forall>r c. 0 \<le> r \<longrightarrow> r < ysize vp \<longrightarrow> 0 \<le> c \<longrightarrow> c < stride vp \<longrightarrow>
       pixel vp' r c = (if c < xsize vp \<and> y \<le> r \<and> r < y + h \<and> x \<le> c \<and> c < x + w then color
                        else pixel vp r c))"
proof -
  from fill_rect_paints [OF assms] obtain vp' where
    vp': "fb_fill_rect x y w h color vp = Some vp'" "painted (pic (in_rect vp x y w h) (\<lambda>_. color)) vp vp'"
    by blast
  have "pixel vp' r c = (if c < xsize vp \<and> y \<le> r \<and> r < y + h \<and> x \<le> c \<and> c < x + w then color
      else pixel vp r c)" if "0 \<le> r" "r < ysize vp" "0 \<le> c" "c < stride vp" for r c
    using vp'(2) that unfolding painted_def by (simp add: pic_def in_rect_def on_screen_def)
  with vp'(1) show ?thesis by blast
qed

theorem fill_rect_exact_witness:
  "\<exists>vp'. fb_fill_rect (-3) 40 10 100 C_BLUE (small_screen (Some (replicate 3072 0))) = Some vp' \<and>
     pixel vp' 47 6 = C_BLUE \<and> pixel vp' 47 7 = 0 \<and> pixel vp' 39 0 = 0"
proof -
  let ?vp = "small_screen (Some (replicate 3072 0))"
  have sz: "xsize ?vp = 64" "ysize ?vp = 48" "stride ?vp = 64" by (simp_all add: small_screen_def stride_def)
  from fill_rect_exact [OF small_screen_ok, of "-3" 40 10 100 C_BLUE] obtain vp' where
    vp': "fb_fill_rect (-3) 40 10 100 C_BLUE ?vp = Some vp'"
      "\<And>r c. 0 \<le> r \<Longrightarrow> r < 48 \<Longrightarrow> 0 \<le> c \<Longrightarrow> c < 64 \<Longrightarrow> pixel vp' r c =
         (if c < 64 \<and> 40 \<le> r \<and> r < 40 + 100 \<and> -3 \<le> c \<and> c < -3 + 10 then C_BLUE else pixel ?vp r c)"
    unfolding sz by blast
  show ?thesis using vp'(1) vp'(2) [of 47 6] vp'(2) [of 47 7] vp'(2) [of 39 0]
    by (simp add: small_screen_pixel)
qed

text \<open>
  C29. Text is drawn exactly: for every string and every place, no store leaves the frame
  buffer, the pixel of a glyph is the foreground or background colour the font's bit says,
  each bit doubled in both directions, characters outside the font are skipped, and no pixel
  outside the characters' cells changes. The frame buffer is one that holds its geometry (\<open>geom_ok\<close>) and
  the coordinates do not overflow: an \<open>int\<close> in the code, they would only for strings beyond 2 ^ 27 characters.
\<close>

theorem draw_text_exact:
  assumes "geom_ok vp" and "0 < font_width F"
  shows "\<exists>vp'. draw_text F x y (Some t) fg bg vp = Some vp' \<and>
    (\<forall>r c. 0 \<le> r \<longrightarrow> r < ysize vp \<longrightarrow> 0 \<le> c \<longrightarrow> c < stride vp \<longrightarrow>
       pixel vp' r c =
         (let k = (c - x) div BIOS_CHAR_W F; ch = of_char (t ! nat k)
          in if c < xsize vp \<and> x \<le> c \<and> k < int (length t) \<and> ch < font_chars F \<and>
                y \<le> r \<and> r < y + 2 * font_height F
             then if bit (push_bit (nat ((c - x - k * BIOS_CHAR_W F) div 2))
                       (fontdata F (ch * font_height F + (r - y) div 2))) 7 then fg else bg
             else pixel vp r c))"
proof -
  from text_paints [OF assms] obtain vp' where
    vp': "draw_text F x y (Some t) fg bg vp = Some vp'"
      "painted (pic (in_text F vp x y t) (text_color F x y t fg bg)) vp vp'" by blast
  have W: "0 < BIOS_CHAR_W F" using assms(2) by (simp add: BIOS_CHAR_W_def BIOS_FONT_SCALE_def)
  have hi: "and b 0x80 \<noteq> 0 \<longleftrightarrow> bit b 7" for b :: u8
    using and_exp_eq_0_iff_not_bit [of b 7] by simp
  have inside: "in_text F vp x y t (r, c) \<longleftrightarrow> c < xsize vp \<and> x \<le> c \<and>
      (c - x) div BIOS_CHAR_W F < int (length t) \<and>
      of_char (t ! nat ((c - x) div BIOS_CHAR_W F)) < font_chars F \<and> y \<le> r \<and> r < y + 2 * font_height F"
    if "0 \<le> r" "r < ysize vp" "0 \<le> c" for r c
  proof -
    have "x + (c - x) div BIOS_CHAR_W F * BIOS_CHAR_W F \<le> c"
        "c < x + (c - x) div BIOS_CHAR_W F * BIOS_CHAR_W F + BIOS_CHAR_W F"
      using text_index_block [OF W, of x "(c - x) div BIOS_CHAR_W F" c] by simp_all
    moreover have "c < x + int (length t) * BIOS_CHAR_W F \<longleftrightarrow> (c - x) div BIOS_CHAR_W F < int (length t)"
      by (rule text_index_less [OF W])
    moreover have "2 * font_width F = BIOS_CHAR_W F" by (simp add: BIOS_CHAR_W_def BIOS_FONT_SCALE_def)
    ultimately show ?thesis using that
      by (auto simp: in_text_def in_char_def in_rect_def on_screen_def text_index_def)
  qed
  have "pixel vp' r c = (if in_text F vp x y t (r, c) then text_color F x y t fg bg (r, c) else pixel vp r c)"
    if "0 \<le> r" "r < ysize vp" "0 \<le> c" "c < stride vp" for r c
    using vp'(2) that unfolding painted_def by (simp add: pic_def)
  with vp'(1) inside show ?thesis
    by (intro exI [of _ vp'])
      (simp add: Let_def text_color_def char_color_def glyph_color_def text_index_def hi diff_diff_eq)
qed

theorem draw_text_exact_witness:
  "\<exists>vp'. draw_text box_font 40 0 (Some ''ok'') C_WHITE C_BLUE (small_screen (Some (replicate 3072 0))) = Some vp' \<and>
     pixel vp' 3 63 = C_WHITE \<and> pixel vp' 33 63 = 0"
proof -
  let ?vp = "small_screen (Some (replicate 3072 0))"
  have sz: "xsize ?vp = 64" "ysize ?vp = 48" "stride ?vp = 64" by (simp_all add: small_screen_def stride_def)
  have fd: "font_width box_font = 8" "font_height box_font = 16" "font_chars box_font = 256"
      "BIOS_CHAR_W box_font = 16" "\<And>k. fontdata box_font k = 0xFF"
    by (simp_all add: box_font_def BIOS_CHAR_W_def BIOS_FONT_SCALE_def)
  from draw_text_exact [OF small_screen_ok, of box_font 40 0 "''ok''" C_WHITE C_BLUE] obtain vp' where
    vp': "draw_text box_font 40 0 (Some ''ok'') C_WHITE C_BLUE ?vp = Some vp'"
      "pixel vp' 3 63 = C_WHITE" "pixel vp' 33 63 = 0"
    by (auto simp: sz fd Let_def small_screen_pixel bit_push_bit_iff)
  then show ?thesis by blast
qed

text \<open>
  Menu lines do not disturb each other: drawing a line, highlighted or not, always
  succeeds on a display that covers the screen, and with a font of at most 16 rows it leaves
  every pixel in the band of any other line as it was, however long the text is.
\<close>

theorem menu_lines_independent:
  assumes "cfg_video C" and "0 < font_width F" and "font_height F \<le> 16"
    and "geom_ok (vid_priv s)" and "row' \<noteq> row"
  shows "\<exists>s'. kh_bios_ui_draw_line C F row col label hl s = Some s' \<and>
    (\<forall>r c. 0 \<le> r \<longrightarrow> r < ysize (vid_priv s) \<longrightarrow> 0 \<le> c \<longrightarrow> c < stride (vid_priv s) \<longrightarrow>
       MENU_Y0 + row' * MENU_DY - 4 \<le> r \<longrightarrow> r < MENU_Y0 + row' * MENU_DY + 36 \<longrightarrow>
       pixel (vid_priv s') r c = pixel (vid_priv s) r c)"
proof -
  from draw_line_painted [OF assms(1,2,4,3)] obtain s' m where
    s': "kh_bios_ui_draw_line C F row col label hl s = Some s'" "painted m (vid_priv s) (vid_priv s')"
      "\<forall>z. m z \<noteq> None \<longrightarrow> line_band row z" by blast
  have "pixel (vid_priv s') r c = pixel (vid_priv s) r c"
    if "0 \<le> r" "r < ysize (vid_priv s)" "0 \<le> c" "c < stride (vid_priv s)"
      "MENU_Y0 + row' * MENU_DY - 4 \<le> r" "r < MENU_Y0 + row' * MENU_DY + 36" for r c
  proof -
    from assms(5) have "row' * 44 + 44 \<le> row * 44 \<or> row * 44 + 44 \<le> row' * 44" by linarith
    with that(5,6) have "\<not> line_band row (r, c)"
      unfolding line_band_def MENU_DY_def prod.case by linarith
    with s'(3) have "m (r, c) = None" by blast
    with s'(2) that show ?thesis unfolding painted_def by simp
  qed
  with s'(1) show ?thesis by blast
qed

theorem menu_lines_independent_witness:
  "\<exists>s'. kh_bios_ui_draw_line hdmi_config box_font 1 0 (Some ''Boot'') True
          (small_ui (Some (replicate 3072 0))) = Some s'"
  using menu_lines_independent [of hdmi_config box_font "small_ui (Some (replicate 3072 0))" 0 1 0
      "Some ''Boot''" True] small_screen_ok
  by (auto simp: hdmi_config_def box_font_def small_ui_def)

text \<open>
  C40. Taking over the display: with a device whose frame buffer has room for 1920 by 1080
  pixels the takeover succeeds, the geometry covers the screen from then on and every pixel
  is blue; a shorter frame buffer is overrun, because the code sets the geometry without
  looking at the size of the buffer; and without a frame buffer it reports \<open>-ENODEV\<close>.
\<close>

theorem takeover_outcome:
  assumes "cfg_video C" and "cfg_drm_rockchip C" and "vid_device C"
  shows "case fb (vid_priv s) of
      None \<Rightarrow> \<exists>s'. kh_bios_ui_display_takeover C s = Some (- ENODEV, s')
    | Some px \<Rightarrow>
        (if length px < 1920 * 1080 then kh_bios_ui_display_takeover C s = None
         else \<exists>s'. kh_bios_ui_display_takeover C s = Some (0, s') \<and> geom_ok (vid_priv s') \<and>
                (\<forall>r c. 0 \<le> r \<longrightarrow> r < 1080 \<longrightarrow> 0 \<le> c \<longrightarrow> c < 1920 \<longrightarrow>
                   pixel (vid_priv s') r c = 0xff000080))"
proof (cases "fb (vid_priv s)")
  case None
  with assms show ?thesis by (simp add: kh_bios_ui_display_takeover_def Let_def)
next
  case (Some px)
  let ?vp = "takeover_geometry (vid_priv s)"
  have vp: "fb ?vp = Some px" "xsize ?vp = 1920" "ysize ?vp = 1080" "line_length ?vp = 7680" "stride ?vp = 1920"
    using Some by (simp_all add: takeover_geometry_def stride_def BIOS_FB_W_def BIOS_FB_H_def)
  show ?thesis
  proof (cases "length px < 1920 * 1080")
    case True
    with vp have "fb_fill_rect 0 0 1920 1080 C_BLUE ?vp = None"
      by (intro fill_screen_too_short [of "length px"]) (simp_all add: short_fb_def)
    with assms Some True show ?thesis
      by (simp add: kh_bios_ui_display_takeover_def Let_def on_vid_def BIOS_FB_W_def BIOS_FB_H_def)
  next
    case False
    with vp have g: "geom_ok ?vp" by (simp add: geom_ok_def)
    from fill_rect_paints [OF this, of 0 0 1920 1080 C_BLUE] obtain vp' where
      vp': "fb_fill_rect 0 0 1920 1080 C_BLUE ?vp = Some vp'"
        "painted (pic (in_rect ?vp 0 0 1920 1080) (\<lambda>_. C_BLUE)) ?vp vp'" by blast
    have "pixel vp' r c = 0xff000080" if "0 \<le> r" "r < 1080" "0 \<le> c" "c < 1920" for r c
      using vp'(2) that vp unfolding painted_def
      by (simp add: pic_def in_rect_def on_screen_def C_BLUE_def)
    moreover have "geom_ok vp'" using painted_same(5) [OF vp'(2)] g by simp
    ultimately show ?thesis using assms Some False vp'(1)
      by (simp add: kh_bios_ui_display_takeover_def Let_def on_vid_def BIOS_FB_W_def BIOS_FB_H_def)
  qed
qed

theorem takeover_outcome_witness:
  "kh_bios_ui_display_takeover hdmi_config (small_ui (Some (replicate 3072 0))) = None"
  using takeover_outcome [of hdmi_config "small_ui (Some (replicate 3072 0))"]
  by (simp add: hdmi_config_def small_ui_def small_screen_def)

text \<open>
  A display that could not be taken over is not a safe fallback: when the device has no
  frame buffer the takeover only reports \<open>-ENODEV\<close>, but the first page title the menu then
  draws stores through the NULL frame buffer.
\<close>

theorem title_without_fb_faults:
  assumes "cfg_video C" and "vid_device C" and "fb (vid_priv s) = None"
    and "24 < xsize (vid_priv s)" and "12 < ysize (vid_priv s)"
    and "0 < font_width F" and "0 < font_height F" and "75 < font_chars F"
  shows "\<exists>s'. kh_bios_ui_display_takeover C s = Some (- ENODEV, s') \<and>
              kh_bios_ui_draw_title C F B title s' = None"
proof -
  have "draw_chrome F p q (vid_priv s) = None" for p q
    using draw_chrome_no_fb assms by blast
  with assms show ?thesis
    by (auto simp: kh_bios_ui_display_takeover_def Let_def kh_bios_ui_draw_title_def
        bios_video_priv_def on_vid_def split: option.splits)
qed

theorem title_without_fb_faults_witness:
  "\<exists>s'. kh_bios_ui_display_takeover hdmi_config (small_ui None) = Some (-19, s') \<and>
        kh_bios_ui_draw_title hdmi_config box_font (None :: unit board_ops option) (Some ''Main'') s' = None"
  using title_without_fb_faults [of hdmi_config "small_ui None" box_font "None :: unit board_ops option" "Some ''Main''"]
  by (simp add: hdmi_config_def small_ui_def small_screen_def box_font_def ENODEV_def)

end
