(* ===== verification/KhBios_Menu.thy ===== *)
theory KhBios_Menu imports KhBios_Base begin

text \<open>
  \<open>src/oh_bios/uboot_bios/core/kh_bios_menu.c\<close>: the table-driven menus. The visible items
  are those whose features the board has; the code finds the n-th visible item by counting
  over the table each time. The locale \<open>indexed_menu\<close> is what the pages rely on.
\<close>

section \<open>The tables\<close>

definition main_menu_table :: "kh_main_menu_item list" where
  "main_menu_table =
    [\<lparr>mi_label = ''System Information'', mi_required_feat = 0,
       mi_page = KH_PAGE_MAIN, mi_action = KH_MAIN_ACT_INFO\<rparr>,
     \<lparr>mi_label = ''Boot Configuration'', mi_required_feat = KH_BIOS_FEAT_BOOT_MENU,
       mi_page = KH_PAGE_BOOT, mi_action = KH_MAIN_ACT_NONE\<rparr>,
     \<lparr>mi_label = ''Hardware Configuration'', mi_required_feat = KH_BIOS_FEAT_HW_MENU,
       mi_page = KH_PAGE_HARDWARE, mi_action = KH_MAIN_ACT_NONE\<rparr>,
     \<lparr>mi_label = ''Security'', mi_required_feat = KH_BIOS_FEAT_SECURITY,
       mi_page = KH_PAGE_SECURITY, mi_action = KH_MAIN_ACT_NONE\<rparr>,
     \<lparr>mi_label = ''Advanced'', mi_required_feat = 0,
       mi_page = KH_PAGE_ADVANCED, mi_action = KH_MAIN_ACT_NONE\<rparr>,
     \<lparr>mi_label = ''Save Configuration and Exit'', mi_required_feat = 0,
       mi_page = KH_PAGE_MAIN, mi_action = KH_MAIN_ACT_SAVE_EXIT\<rparr>,
     \<lparr>mi_label = ''Discard Changes and Exit'', mi_required_feat = 0,
       mi_page = KH_PAGE_MAIN, mi_action = KH_MAIN_ACT_DISCARD_EXIT\<rparr>]"

definition adv_labels :: "string list" where
  "adv_labels = [''Enter Fastboot Mode'', ''Enter Rockusb Download'', ''U-Boot Command Line'']"

definition adv_feats :: "u32 list" where
  "adv_feats = [KH_BIOS_FEAT_FASTBOOT, KH_BIOS_FEAT_ROCKUSB, 0]"

section \<open>The operations\<close>

unbundle bit_operations_syntax

definition board_features :: "'e board_ops option \<Rightarrow> u32" where
  "board_features B = (case B of Some ops \<Rightarrow> features ops | None \<Rightarrow> 0)"

definition feat_ok :: "'e board_ops option \<Rightarrow> u32 \<Rightarrow> bool" where
  "feat_ok B required =
     (let feat = board_features B in if required = 0 then True else (feat AND required) = required)"

fun main_count_loop :: "'e board_ops option \<Rightarrow> int \<Rightarrow> kh_main_menu_item list \<Rightarrow> int" where
  "main_count_loop B n [] = n"
| "main_count_loop B n (it # its) =
     main_count_loop B (if feat_ok B (mi_required_feat it) then n + 1 else n) its"

definition kh_bios_menu_main_count :: "'e board_ops option \<Rightarrow> int" where
  "kh_bios_menu_main_count B = main_count_loop B 0 main_menu_table"

fun main_item_loop ::
  "'e board_ops option \<Rightarrow> int \<Rightarrow> int \<Rightarrow> kh_main_menu_item list \<Rightarrow> kh_main_menu_item option" where
  "main_item_loop B index vis [] = None"
| "main_item_loop B index vis (it # its) =
     (if \<not> feat_ok B (mi_required_feat it) then main_item_loop B index vis its
      else if vis = index then Some it
      else main_item_loop B index (vis + 1) its)"

definition kh_bios_menu_main_item :: "'e board_ops option \<Rightarrow> int \<Rightarrow> kh_main_menu_item option" where
  "kh_bios_menu_main_item B index = main_item_loop B index 0 main_menu_table"

function adv_count_loop :: "'e board_ops option \<Rightarrow> int \<Rightarrow> nat \<Rightarrow> int" where
  "adv_count_loop B n i =
     (if i < length adv_labels
      then adv_count_loop B (if feat_ok B (adv_feats ! i) then n + 1 else n) (i + 1) else n)"
  by pat_completeness auto
termination
  by (relation "measure (\<lambda>(B, n, i). length adv_labels - i)") auto

definition kh_bios_menu_adv_count :: "'e board_ops option \<Rightarrow> int" where
  "kh_bios_menu_adv_count B = adv_count_loop B 0 0"

function adv_index_loop :: "'e board_ops option \<Rightarrow> int \<Rightarrow> int \<Rightarrow> nat \<Rightarrow> nat option" where
  "adv_index_loop B index vis i =
     (if i < length adv_labels
      then if \<not> feat_ok B (adv_feats ! i) then adv_index_loop B index vis (i + 1)
           else if vis = index then Some i
           else adv_index_loop B index (vis + 1) (i + 1)
      else None)"
  by pat_completeness auto
termination
  by (relation "measure (\<lambda>(B, index, vis, i). length adv_labels - i)") auto

declare adv_count_loop.simps [simp del] adv_index_loop.simps [simp del]

definition kh_bios_menu_adv_label :: "'e board_ops option \<Rightarrow> int \<Rightarrow> string option" where
  "kh_bios_menu_adv_label B index =
     (case adv_index_loop B index 0 0 of Some i \<Rightarrow> Some (adv_labels ! i) | None \<Rightarrow> None)"

definition kh_bios_menu_adv_feat :: "'e board_ops option \<Rightarrow> int \<Rightarrow> u32" where
  "kh_bios_menu_adv_feat B index =
     (case adv_index_loop B index 0 0 of Some i \<Rightarrow> adv_feats ! i | None \<Rightarrow> 0)"

section \<open>The reference: filter, then index\<close>

definition nth_opt :: "'a list \<Rightarrow> int \<Rightarrow> 'a option" where
  "nth_opt xs i = (if 0 \<le> i \<and> i < int (length xs) then Some (xs ! nat i) else None)"

definition visible_main :: "'e board_ops option \<Rightarrow> kh_main_menu_item list" where
  "visible_main B = filter (\<lambda>it. feat_ok B (mi_required_feat it)) main_menu_table"

definition visible_adv :: "'e board_ops option \<Rightarrow> nat list" where
  "visible_adv B = filter (\<lambda>i. feat_ok B (adv_feats ! i)) [0..<length adv_labels]"

lemma nth_opt_Cons: "nth_opt (x # xs) i = (if i = 0 then Some x else nth_opt xs (i - 1))"
  by (auto simp: nth_opt_def nth_Cons' nat_diff_distrib)

lemma nth_opt_in_set: "nth_opt xs i = Some x \<Longrightarrow> x \<in> set xs"
  by (auto simp: nth_opt_def split: if_splits)

lemma main_count_loop_eq:
  "main_count_loop B n its = n + int (length (filter (\<lambda>it. feat_ok B (mi_required_feat it)) its))"
  by (induction its arbitrary: n) simp_all

lemma main_item_loop_eq:
  "main_item_loop B index vis its =
     nth_opt (filter (\<lambda>it. feat_ok B (mi_required_feat it)) its) (index - vis)"
  by (induction its arbitrary: vis) (auto simp: nth_opt_Cons algebra_simps, auto simp: nth_opt_def)

lemma adv_count_loop_eq:
  "adv_count_loop B n i = n + int (length (filter (\<lambda>i. feat_ok B (adv_feats ! i)) [i..<length adv_labels]))"
proof (induction B n i rule: adv_count_loop.induct)
  case (1 B n i)
  then show ?case
    by (subst adv_count_loop.simps) (auto simp: upt_conv_Cons)
qed

lemma adv_index_loop_eq:
  "adv_index_loop B index vis i =
     nth_opt (filter (\<lambda>i. feat_ok B (adv_feats ! i)) [i..<length adv_labels]) (index - vis)"
proof (induction B index vis i rule: adv_index_loop.induct)
  case (1 B index vis i)
  then show ?case
    by (subst adv_index_loop.simps)
      (auto simp: upt_conv_Cons nth_opt_Cons algebra_simps, auto simp: nth_opt_def)
qed

section \<open>The contract of an indexed menu\<close>

text \<open>
  A page draws the items \<open>0 .. count - 1\<close> and moves a cursor over them. It relies on this:
  the count is not negative, exactly the indices below it have an item, and every item it is
  given is allowed. \<open>cursor_move\<close> is the cursor step all pages share: up, down or stay,
  within the menu.
\<close>

definition cursor_move :: "int \<Rightarrow> int \<Rightarrow> kh_bios_key \<Rightarrow> int" where
  "cursor_move n sel key =
     (if key = KH_KEY_UP \<and> sel > 0 then sel - 1
      else if key = KH_KEY_DOWN \<and> sel < n - 1 then sel + 1 else sel)"

lemma cursor_move_in_range:
  "0 \<le> i \<Longrightarrow> i < n \<Longrightarrow> 0 \<le> cursor_move n i k \<and> cursor_move n i k < n"
  by (auto simp: cursor_move_def)

locale indexed_menu =
  fixes count :: "'b \<Rightarrow> int"
    and item :: "'b \<Rightarrow> int \<Rightarrow> 'i option"
    and allowed :: "'b \<Rightarrow> 'i \<Rightarrow> bool"
  assumes item_iff: "(\<exists>x. item b i = Some x) \<longleftrightarrow> 0 \<le> i \<and> i < count b"
    and item_allowed: "item b i = Some x \<Longrightarrow> allowed b x"
    and count_pos: "0 < count b"
begin

lemma item_at_cursor: "0 \<le> i \<Longrightarrow> i < count b \<Longrightarrow> \<exists>x. item b i = Some x \<and> allowed b x"
  using item_iff item_allowed by blast

lemma item_after_move:
  "0 \<le> i \<Longrightarrow> i < count b \<Longrightarrow>
   \<exists>x. item b (cursor_move (count b) i k) = Some x \<and> allowed b x"
  using cursor_move_in_range [of i "count b" k] item_at_cursor by blast

lemma first_item: "\<exists>x. item b 0 = Some x \<and> allowed b x"
  by (simp add: item_at_cursor count_pos)

end

lemma feat_ok_0 [simp]: "feat_ok B 0"
  by (simp add: feat_ok_def)

lemma visible_main_pos: "0 < length (visible_main B)"
  by (simp add: visible_main_def main_menu_table_def)

lemma visible_adv_pos: "0 < length (visible_adv B)"
  by (simp add: visible_adv_def adv_labels_def adv_feats_def upt_conv_Cons)

interpretation main_menu: indexed_menu kh_bios_menu_main_count kh_bios_menu_main_item
  "\<lambda>B it. it \<in> set main_menu_table \<and> feat_ok B (mi_required_feat it)"
proof unfold_locales
  fix B :: "'e board_ops option" and i x
  show "(\<exists>x. kh_bios_menu_main_item B i = Some x) \<longleftrightarrow> 0 \<le> i \<and> i < kh_bios_menu_main_count B"
    by (auto simp: kh_bios_menu_main_item_def kh_bios_menu_main_count_def main_item_loop_eq
        main_count_loop_eq nth_opt_def)
  show "kh_bios_menu_main_item B i = Some x \<Longrightarrow>
      x \<in> set main_menu_table \<and> feat_ok B (mi_required_feat x)"
    by (auto simp: kh_bios_menu_main_item_def main_item_loop_eq dest: nth_opt_in_set)
  show "0 < kh_bios_menu_main_count B"
    using visible_main_pos [of B]
    by (simp add: kh_bios_menu_main_count_def main_count_loop_eq visible_main_def)
qed

interpretation adv_menu: indexed_menu kh_bios_menu_adv_count
  "\<lambda>B i. map_option (\<lambda>l. (l, kh_bios_menu_adv_feat B i)) (kh_bios_menu_adv_label B i)"
  "\<lambda>B (l, f). (l, f) \<in> set (zip adv_labels adv_feats) \<and> feat_ok B f"
proof unfold_locales
  fix B :: "'e board_ops option" and i x
  show "(\<exists>x. map_option (\<lambda>l. (l, kh_bios_menu_adv_feat B i)) (kh_bios_menu_adv_label B i) = Some x)
      \<longleftrightarrow> 0 \<le> i \<and> i < kh_bios_menu_adv_count B"
    by (auto simp: kh_bios_menu_adv_label_def kh_bios_menu_adv_count_def adv_index_loop_eq
        adv_count_loop_eq nth_opt_def)
  show "0 < kh_bios_menu_adv_count B"
    using visible_adv_pos [of B]
    by (simp add: kh_bios_menu_adv_count_def adv_count_loop_eq visible_adv_def)
  assume "map_option (\<lambda>l. (l, kh_bios_menu_adv_feat B i)) (kh_bios_menu_adv_label B i) = Some x"
  then obtain j where j: "adv_index_loop B i 0 0 = Some j" "x = (adv_labels ! j, adv_feats ! j)"
    by (auto simp: kh_bios_menu_adv_label_def kh_bios_menu_adv_feat_def split: option.splits)
  from j(1) have "j < length adv_labels" "feat_ok B (adv_feats ! j)"
    by (auto simp: adv_index_loop_eq dest!: nth_opt_in_set)
  moreover have "length adv_labels = length adv_feats"
    by (simp add: adv_labels_def adv_feats_def)
  ultimately show "case x of (l, f) \<Rightarrow> (l, f) \<in> set (zip adv_labels adv_feats) \<and> feat_ok B f"
    using j(2) by (auto simp: set_zip)
qed

section \<open>Properties\<close>

text \<open>
  Both menus number their visible items exactly: for every board, counting and indexing
  over the tables agree with filtering the table by the board's features, so index
  \<open>i\<close> gives the i-th allowed item, and an index outside the menu gives none (and, on the
  Advanced page, no feature).
\<close>

theorem menus_filter_by_features:
  "kh_bios_menu_main_count B = int (length (visible_main B)) \<and>
   kh_bios_menu_main_item B i = nth_opt (visible_main B) i \<and>
   kh_bios_menu_adv_count B = int (length (visible_adv B)) \<and>
   kh_bios_menu_adv_label B i = map_option (\<lambda>j. adv_labels ! j) (nth_opt (visible_adv B) i) \<and>
   kh_bios_menu_adv_feat B i = (case nth_opt (visible_adv B) i of Some j \<Rightarrow> adv_feats ! j | None \<Rightarrow> 0)"
  by (simp add: kh_bios_menu_main_count_def kh_bios_menu_main_item_def kh_bios_menu_adv_count_def
      kh_bios_menu_adv_label_def kh_bios_menu_adv_feat_def main_count_loop_eq main_item_loop_eq
      adv_count_loop_eq adv_index_loop_eq visible_main_def visible_adv_def split: option.splits)

end
