(* ===== verification/KhBios_Env.thy ===== *)
theory KhBios_Env imports KhBios_Base begin

text \<open>
  \<open>src/oh_bios/uboot_bios/core/kh_bios_env.c\<close>: the typed settings kept in U-Boot
  environment variables, and the locale \<open>settings\<close>, the contract the menu relies on when
  it saves and reloads them.
\<close>

section \<open>The operations\<close>

definition ENV_DEFAULT_BOOT :: string where "ENV_DEFAULT_BOOT = ''kh_default_boot''"
definition ENV_ONCE_RECOVERY :: string where "ENV_ONCE_RECOVERY = ''kh_once_recovery''"
definition ENV_GMAC0 :: string where "ENV_GMAC0 = ''kh_gmac0''"
definition ENV_GMAC1 :: string where "ENV_GMAC1 = ''kh_gmac1''"
definition ENV_BIOS_DELAY :: string where "ENV_BIOS_DELAY = ''kh_bios_delay''"

lemmas env_name_defs =
  ENV_DEFAULT_BOOT_def ENV_ONCE_RECOVERY_def ENV_GMAC0_def ENV_GMAC1_def ENV_BIOS_DELAY_def

definition env_get_boot_target :: "'e uboot \<Rightarrow> 'e bios_state \<Rightarrow> int" where
  "env_get_boot_target U s =
     (case env_get U s ENV_DEFAULT_BOOT of
        Some v \<Rightarrow> (if v = ''recovery'' then KH_BOOT_RECOVERY else KH_BOOT_NORMAL)
      | None \<Rightarrow> KH_BOOT_NORMAL)"

definition kh_bios_env_set_default_boot ::
  "'e uboot \<Rightarrow> int \<Rightarrow> 'e bios_state \<Rightarrow> 'e bios_state" where
  "kh_bios_env_set_default_boot U target s =
     env_set U ENV_DEFAULT_BOOT (if target = KH_BOOT_RECOVERY then ''recovery'' else ''normal'') s"

definition kh_bios_env_get_default_boot :: "'e uboot \<Rightarrow> 'e bios_state \<Rightarrow> int" where
  "kh_bios_env_get_default_boot U s = env_get_boot_target U s"

definition kh_bios_env_set_once_recovery ::
  "'e uboot \<Rightarrow> bool \<Rightarrow> 'e bios_state \<Rightarrow> 'e bios_state" where
  "kh_bios_env_set_once_recovery U enable s =
     (if enable then env_set U ENV_ONCE_RECOVERY ''1'' s else env_set U ENV_ONCE_RECOVERY ''0'' s)"

definition kh_bios_env_get_once_recovery :: "'e uboot \<Rightarrow> 'e bios_state \<Rightarrow> bool" where
  "kh_bios_env_get_once_recovery U s =
     (case env_get U s ENV_ONCE_RECOVERY of None \<Rightarrow> False | Some v \<Rightarrow> byte_at v 0 = CHR ''1'')"

definition kh_bios_env_get_delay ::
  "'e uboot \<Rightarrow> 'e board_ops option \<Rightarrow> 'e bios_state \<Rightarrow> int \<times> 'e bios_state" where
  "kh_bios_env_get_delay U B s =
     (let d = (case B of
                 Some ops \<Rightarrow> (if default_delay_sec ops > 0 then default_delay_sec ops
                              else KH_BIOS_DEFAULT_DELAY)
               | None \<Rightarrow> KH_BIOS_DEFAULT_DELAY)
      in case env_get U s ENV_BIOS_DELAY of
           None \<Rightarrow> (d, s)
         | Some v \<Rightarrow>
             let e = x_simple_strtol U v
             in if e \<ge> 0 \<and> e \<le> 30 \<and> e \<noteq> d
                then (d, emit (Printf ''[kh_bios] ignore kh_bios_delay=%ld, use %ld sec'' [AInt e, AInt d]) s)
                else (d, s))"

definition kh_bios_env_get_gmac :: "'e uboot \<Rightarrow> int \<Rightarrow> 'e bios_state \<Rightarrow> int" where
  "kh_bios_env_get_gmac U idx s =
     (case env_get U s (if idx \<noteq> 0 then ENV_GMAC1 else ENV_GMAC0) of
        None \<Rightarrow> 1
      | Some v \<Rightarrow> if byte_at v 0 = CHR ''1'' then 1 else 0)"

definition kh_bios_env_set_gmac ::
  "'e uboot \<Rightarrow> int \<Rightarrow> int \<Rightarrow> 'e bios_state \<Rightarrow> 'e bios_state" where
  "kh_bios_env_set_gmac U idx enable s =
     env_set U (if idx \<noteq> 0 then ENV_GMAC1 else ENV_GMAC0) (if enable \<noteq> 0 then ''1'' else ''0'') s"

definition CMD_RET_SUCCESS :: int where "CMD_RET_SUCCESS = 0"
definition CMD_RET_FAILURE :: int where "CMD_RET_FAILURE = 1"

definition kh_bios_env_save :: "'e uboot \<Rightarrow> 'e bios_state \<Rightarrow> int \<times> 'e bios_state" where
  "kh_bios_env_save U s =
     (let (rc, s1) = env_save U s in (if rc \<noteq> 0 then CMD_RET_FAILURE else CMD_RET_SUCCESS, s1))"

definition kh_bios_env_apply_boot_choice :: "'e uboot \<Rightarrow> 'e bios_state \<Rightarrow> 'e bios_state" where
  "kh_bios_env_apply_boot_choice U s =
     (if kh_bios_env_get_once_recovery U s
      then env_set U ''reboot_mode'' ''recovery'' (kh_bios_env_set_once_recovery U False s)
      else s)"

section \<open>Getters read through log entries and saves\<close>

lemmas env_getter_defs =
  kh_bios_env_get_default_boot_def env_get_boot_target_def kh_bios_env_get_once_recovery_def
  kh_bios_env_get_gmac_def

lemmas env_setter_defs =
  kh_bios_env_set_default_boot_def kh_bios_env_set_once_recovery_def kh_bios_env_set_gmac_def

lemma env_getters_emit [simp]:
  "kh_bios_env_get_default_boot U (emit ev s) = kh_bios_env_get_default_boot U s"
  "kh_bios_env_get_once_recovery U (emit ev s) = kh_bios_env_get_once_recovery U s"
  "kh_bios_env_get_gmac U i (emit ev s) = kh_bios_env_get_gmac U i s"
  by (simp_all add: env_getter_defs)

lemma env_getters_ctx [simp]:
  "kh_bios_env_get_default_boot U (s\<lparr>st_ctx := c\<rparr>) = kh_bios_env_get_default_boot U s"
  "kh_bios_env_get_once_recovery U (s\<lparr>st_ctx := c\<rparr>) = kh_bios_env_get_once_recovery U s"
  "kh_bios_env_get_gmac U i (s\<lparr>st_ctx := c\<rparr>) = kh_bios_env_get_gmac U i s"
  by (simp_all add: env_getter_defs)

lemma env_getters_save:
  assumes "env_ok U"
  shows "kh_bios_env_get_default_boot U (snd (kh_bios_env_save U s)) = kh_bios_env_get_default_boot U s"
    and "kh_bios_env_get_once_recovery U (snd (kh_bios_env_save U s)) = kh_bios_env_get_once_recovery U s"
    and "kh_bios_env_get_gmac U i (snd (kh_bios_env_save U s)) = kh_bios_env_get_gmac U i s"
  using assms by (simp_all add: env_getter_defs kh_bios_env_save_def split_beta env_get_save)

lemma env_setters_frame [simp, frame_simps]:
  "st_ctx (kh_bios_env_set_default_boot U t s) = st_ctx s"
  "st_ctx (kh_bios_env_set_once_recovery U b s) = st_ctx s"
  "st_ctx (kh_bios_env_set_gmac U i e s) = st_ctx s"
  "st_ctx (snd (kh_bios_env_save U s)) = st_ctx s"
  by (simp_all add: env_setter_defs kh_bios_env_save_def split_beta)

section \<open>The contract of a settings store\<close>

text \<open>
  What the menu needs of its settings: each reads back what was last put into it, whatever
  was put into the others. \<open>valid\<close> are the values the store distinguishes.
\<close>

locale settings =
  fixes ok :: "'w \<Rightarrow> bool"
    and valid :: "'k \<Rightarrow> 'v \<Rightarrow> bool"
    and getv :: "'k \<Rightarrow> 'w \<Rightarrow> 'v"
    and putv :: "'k \<Rightarrow> 'v \<Rightarrow> 'w \<Rightarrow> 'w"
  assumes get_put_same: "ok w \<Longrightarrow> valid k v \<Longrightarrow> getv k (putv k v w) = v"
    and get_put_other: "ok w \<Longrightarrow> k' \<noteq> k \<Longrightarrow> getv k' (putv k v w) = getv k' w"
    and ok_put: "ok w \<Longrightarrow> ok (putv k v w)"
begin

definition puts :: "('k \<times> 'v) list \<Rightarrow> 'w \<Rightarrow> 'w" where
  "puts kvs w = fold (\<lambda>(k, v). putv k v) kvs w"

lemma ok_puts: "ok w \<Longrightarrow> ok (puts kvs w)"
  by (induction kvs arbitrary: w) (auto simp: puts_def ok_put)

lemma get_puts_other: "ok w \<Longrightarrow> k \<notin> fst ` set kvs \<Longrightarrow> getv k (puts kvs w) = getv k w"
proof (induction kvs arbitrary: w)
  case Nil
  then show ?case by (simp add: puts_def)
next
  case (Cons kv kvs)
  obtain k1 v1 where kv: "kv = (k1, v1)" by fastforce
  from Cons.prems kv have "getv k (puts kvs (putv k1 v1 w)) = getv k (putv k1 v1 w)"
    by (intro Cons.IH) (auto simp: ok_put)
  with Cons.prems kv show ?case by (simp add: puts_def get_put_other)
qed

text \<open>Saving several settings and reading any of them back.\<close>

lemma get_puts:
  "ok w \<Longrightarrow> distinct (map fst kvs) \<Longrightarrow> (k, v) \<in> set kvs \<Longrightarrow> valid k v \<Longrightarrow>
   getv k (puts kvs w) = v"
proof (induction kvs arbitrary: w)
  case Nil
  then show ?case by simp
next
  case (Cons kv kvs)
  obtain k1 v1 where kv: "kv = (k1, v1)" by fastforce
  show ?case
  proof (cases "(k, v) = kv")
    case True
    with Cons.prems kv have "k \<notin> fst ` set kvs" by auto
    then have "getv k (puts kvs (putv k v w)) = getv k (putv k v w)"
      by (intro get_puts_other) (simp_all add: ok_put Cons.prems)
    with True kv Cons.prems show ?thesis by (simp add: puts_def get_put_same)
  next
    case False
    with Cons.prems kv have "getv k (puts kvs (putv k1 v1 w)) = v"
      by (intro Cons.IH) (auto simp: ok_put)
    with kv show ?thesis by (simp add: puts_def)
  qed
qed

end

text \<open>The four settings of \<open>struct kh_bios_ctx\<close>, each with its getter and its setter.\<close>

datatype setting = DefaultBoot | OnceRecovery | Gmac0 | Gmac1

datatype setting_val = VInt int | VBool bool

fun setting_valid :: "setting \<Rightarrow> setting_val \<Rightarrow> bool" where
  "setting_valid DefaultBoot (VInt v) = (v = KH_BOOT_NORMAL \<or> v = KH_BOOT_RECOVERY)"
| "setting_valid OnceRecovery (VBool b) = True"
| "setting_valid Gmac0 (VInt v) = (v = 0 \<or> v = 1)"
| "setting_valid Gmac1 (VInt v) = (v = 0 \<or> v = 1)"
| "setting_valid _ _ = False"

fun setting_get :: "setting \<Rightarrow> 'e uboot \<times> 'e bios_state \<Rightarrow> setting_val" where
  "setting_get DefaultBoot (U, s) = VInt (kh_bios_env_get_default_boot U s)"
| "setting_get OnceRecovery (U, s) = VBool (kh_bios_env_get_once_recovery U s)"
| "setting_get Gmac0 (U, s) = VInt (kh_bios_env_get_gmac U 0 s)"
| "setting_get Gmac1 (U, s) = VInt (kh_bios_env_get_gmac U 1 s)"

fun setting_put ::
  "setting \<Rightarrow> setting_val \<Rightarrow> 'e uboot \<times> 'e bios_state \<Rightarrow> 'e uboot \<times> 'e bios_state" where
  "setting_put DefaultBoot (VInt v) (U, s) = (U, kh_bios_env_set_default_boot U v s)"
| "setting_put OnceRecovery (VBool b) (U, s) = (U, kh_bios_env_set_once_recovery U b s)"
| "setting_put Gmac0 (VInt v) (U, s) = (U, kh_bios_env_set_gmac U 0 v s)"
| "setting_put Gmac1 (VInt v) (U, s) = (U, kh_bios_env_set_gmac U 1 v s)"
| "setting_put _ _ w = w"

lemma setting_get_put_same:
  "env_ok (fst w) \<Longrightarrow> setting_valid k v \<Longrightarrow> setting_get k (setting_put k v w) = v"
  by (cases w; cases "(k, v)" rule: setting_valid.cases)
    (auto simp: env_getter_defs env_setter_defs env_get_set env_name_defs kh_boot_defs)

lemma setting_get_put_other:
  "env_ok (fst w) \<Longrightarrow> k' \<noteq> k \<Longrightarrow> setting_get k' (setting_put k v w) = setting_get k' w"
  by (cases w; cases k; cases k'; cases v)
    (simp_all add: env_getter_defs env_setter_defs env_get_set env_name_defs)

lemma setting_put_uboot: "fst (setting_put k v w) = fst w"
  by (cases w; cases k; cases v) simp_all

interpretation env_settings: settings "\<lambda>w. env_ok (fst w)" setting_valid setting_get setting_put
  by unfold_locales (simp_all add: setting_get_put_same setting_get_put_other setting_put_uboot)

section \<open>Properties\<close>

text \<open>
  Every setting survives the environment: after any setting is written with a value the
  menu uses, its getter returns exactly that value, and the other three settings read as
  before.
\<close>

theorem settings_roundtrip:
  assumes "env_ok U" and "setting_valid k v"
  shows "setting_get k (setting_put k v (U, s)) = v \<and>
         (\<forall>k'. k' \<noteq> k \<longrightarrow> setting_get k' (setting_put k v (U, s)) = setting_get k' (U, s))"
  using assms env_settings.get_put_same [of "(U, s)"] env_settings.get_put_other [of "(U, s)"]
  by simp

theorem settings_roundtrip_witness:
  "setting_get DefaultBoot (setting_put DefaultBoot (VInt 1) (map_uboot, map_state)) = VInt 1 \<and>
   setting_get Gmac1 (setting_put DefaultBoot (VInt 1) (map_uboot, map_state)) = setting_get Gmac1 (map_uboot, map_state)"
proof -
  have "env_ok map_uboot" "setting_valid DefaultBoot (VInt 1)" by (simp_all add: map_uboot_ok kh_boot_defs)
  note r = settings_roundtrip [OF this, of map_state]
  show ?thesis by (rule conjI [OF conjunct1 [OF r] conjunct2 [OF r, rule_format]]) simp
qed

text \<open>
  The countdown the user gets is the board's own delay when it is positive and three
  seconds otherwise, whatever the variable \<open>kh_bios_delay\<close> holds: a stored delay changes
  nothing but the log.
\<close>

theorem delay_ignores_env:
  "fst (kh_bios_env_get_delay U B s) =
     (case B of Some ops \<Rightarrow> (if default_delay_sec ops > 0 then default_delay_sec ops else 3)
              | None \<Rightarrow> 3)
   \<and> 0 < fst (kh_bios_env_get_delay U B s)
   \<and> st_env (snd (kh_bios_env_get_delay U B s)) = st_env s
   \<and> st_ctx (snd (kh_bios_env_get_delay U B s)) = st_ctx s"
  by (auto simp: kh_bios_env_get_delay_def Let_def KH_BIOS_DEFAULT_DELAY_def split: option.splits)

text \<open>
  Applying the boot choice consumes a pending one-time recovery: it is off afterwards,
  \<open>reboot_mode\<close> asks for recovery exactly when it was on (and is untouched otherwise),
  and the default boot target and both network switches read as before.
\<close>

theorem apply_boot_choice_once:
  assumes "env_ok U"
  shows "\<not> kh_bios_env_get_once_recovery U (kh_bios_env_apply_boot_choice U s) \<and>
         env_get U (kh_bios_env_apply_boot_choice U s) ''reboot_mode'' =
           (if kh_bios_env_get_once_recovery U s then Some ''recovery''
            else env_get U s ''reboot_mode'') \<and>
         kh_bios_env_get_default_boot U (kh_bios_env_apply_boot_choice U s) =
           kh_bios_env_get_default_boot U s \<and>
         kh_bios_env_get_gmac U i (kh_bios_env_apply_boot_choice U s) = kh_bios_env_get_gmac U i s"
  using assms
  by (simp add: kh_bios_env_apply_boot_choice_def env_getter_defs env_setter_defs env_get_set
      env_name_defs)

theorem apply_boot_choice_once_witness:
  "kh_bios_env_get_once_recovery map_uboot
     (kh_bios_env_set_once_recovery map_uboot True map_state) \<and>
   \<not> kh_bios_env_get_once_recovery map_uboot (kh_bios_env_apply_boot_choice map_uboot
     (kh_bios_env_set_once_recovery map_uboot True map_state)) \<and>
   env_get map_uboot (kh_bios_env_apply_boot_choice map_uboot
     (kh_bios_env_set_once_recovery map_uboot True map_state)) ''reboot_mode'' = Some ''recovery''"
proof -
  have on: "kh_bios_env_get_once_recovery map_uboot
      (kh_bios_env_set_once_recovery map_uboot True map_state)"
    by (simp add: env_getter_defs env_setter_defs env_get_set map_uboot_ok)
  show ?thesis
    using on apply_boot_choice_once [OF map_uboot_ok(1),
        of "kh_bios_env_set_once_recovery map_uboot True map_state" 0] by simp
qed

end
