(* ===== verification/KhBios_Boot.thy ===== *)
theory KhBios_Boot imports KhBios_Env begin

text \<open>
  \<open>src/oh_bios/uboot_bios/core/kh_bios_boot.c\<close>: leaving the setup utility, by a boot
  command or by a cold reset, and the entry points of the Advanced page.
\<close>

section \<open>The operations\<close>

definition RK3568_CRU_BASE :: u64 where "RK3568_CRU_BASE = 0xFDD20000"
definition RK3568_GLB_SRST_FST :: u64 where "RK3568_GLB_SRST_FST = RK3568_CRU_BASE + 0xD4"
definition RK3568_SRST_MAGIC :: u32 where "RK3568_SRST_MAGIC = 0xfdb9"

definition kh_bios_prepare_boot_continue :: "'e bios_state \<Rightarrow> 'e bios_state" where
  "kh_bios_prepare_boot_continue s = emit UiRestore s"

definition kh_bios_hw_cold_reset ::
  "'e uboot \<Rightarrow> 'e bios_state \<Rightarrow> ('v, 'e bios_state) outcome" where
  "kh_bios_hw_cold_reset U s =
     (let s1 = emit (Printf ''[kh_bios] CRU cold reset'' []) (kh_bios_prepare_boot_continue s);
          s2 = (if x_has_cru U then emit (CruWritel RK3568_SRST_MAGIC) s1 else s1);
          s3 = emits [RegWritel RK3568_SRST_MAGIC RK3568_GLB_SRST_FST, Dsb, Isb] s2;
          s4 = (if cfg_arm_psci U then emit PsciReset s3 else s3)
      in Leaves s4)"

definition kh_bios_board_force_reset ::
  "'e uboot \<Rightarrow> 'e bios_state \<Rightarrow> ('v, 'e bios_state) outcome" where
  "kh_bios_board_force_reset U s = kh_bios_hw_cold_reset U s"

definition call_set_recovery_next ::
  "'e board_ops option \<Rightarrow> bool \<Rightarrow> 'e bios_state \<Rightarrow> 'e bios_state" where
  "call_set_recovery_next B want_recovery s =
     (case B of
        Some ops \<Rightarrow> (case set_recovery_next ops of
                       Some f \<Rightarrow> if want_recovery then snd (f s) else s
                     | None \<Rightarrow> s)
      | None \<Rightarrow> s)"

definition want_recovery :: "'e uboot \<Rightarrow> 'e bios_state \<Rightarrow> bool" where
  "want_recovery U s \<longleftrightarrow>
     kh_bios_env_get_default_boot U s = KH_BOOT_RECOVERY \<or> kh_bios_env_get_once_recovery U s"

definition kh_bios_boot_system ::
  "'e uboot \<Rightarrow> 'e board_ops option \<Rightarrow> 'e bios_state \<Rightarrow> (int, 'e bios_state) outcome" where
  "kh_bios_boot_system U B s =
     (let want = want_recovery U s;
          s1 = kh_bios_env_apply_boot_choice U s;
          s2 = call_set_recovery_next B want s1
      in case B of
           None \<Rightarrow> Returns CMD_RET_FAILURE s2
         | Some ops \<Rightarrow>
             (case boot_normal ops of
                None \<Rightarrow> Returns CMD_RET_FAILURE s2
              | Some bn \<Rightarrow>
                  then_do (bn (kh_bios_prepare_boot_continue s2)) (\<lambda>ret s3.
                    Returns ret (if ret \<noteq> 0
                                 then emit (Printf ''[kh_bios] boot_normal failed (%d)'' [AInt ret]) s3
                                 else s3))))"

definition kh_bios_exit_reboot ::
  "'e uboot \<Rightarrow> 'e board_ops option \<Rightarrow> bool \<Rightarrow> 'e bios_state \<Rightarrow> ('v, 'e bios_state) outcome" where
  "kh_bios_exit_reboot U B config_saved s =
     (let s1 = emit (Printf ''[kh_bios] %s, cold reset now''
                 [AStr (if config_saved then ''configuration saved'' else ''exit without saving'')]) s;
          s2 = (if config_saved
                then call_set_recovery_next B (want_recovery U s1) (kh_bios_env_apply_boot_choice U s1)
                else s1)
      in kh_bios_hw_cold_reset U (emit Flushc s2))"

definition kh_bios_enter_fastboot ::
  "'e uboot \<Rightarrow> 'e board_ops option \<Rightarrow> 'e bios_state \<Rightarrow> (int, 'e bios_state) outcome" where
  "kh_bios_enter_fastboot U B s =
     (case B of
        Some ops \<Rightarrow> (case ops_enter_fastboot ops of
                       Some f \<Rightarrow> f s
                     | None \<Rightarrow> run_command U ''fastboot usb 0'' s)
      | None \<Rightarrow> run_command U ''fastboot usb 0'' s)"

definition kh_bios_enter_rockusb ::
  "'e uboot \<Rightarrow> 'e board_ops option \<Rightarrow> 'e bios_state \<Rightarrow> (int, 'e bios_state) outcome" where
  "kh_bios_enter_rockusb U B s =
     (case B of
        Some ops \<Rightarrow> (case ops_enter_download ops of
                       Some f \<Rightarrow> f s
                     | None \<Rightarrow> run_command U ''rockusb 0 ${devtype} ${devnum}'' s)
      | None \<Rightarrow> run_command U ''rockusb 0 ${devtype} ${devnum}'' s)"

definition kh_bios_enter_cli :: "'e uboot \<Rightarrow> 'e bios_state \<Rightarrow> (int, 'e bios_state) outcome" where
  "kh_bios_enter_cli U s =
     (let s1 = emit CliLoop s in
      case x_cli_loop U (st_env s1) of
        Returns u e \<Rightarrow> Returns 0 (s1\<lparr>st_env := e\<rparr>)
      | Leaves e \<Rightarrow> Leaves (s1\<lparr>st_env := e\<rparr>))"

section \<open>The reset sequence\<close>

definition reset_events :: "'e uboot \<Rightarrow> bios_event list" where
  "reset_events U =
     [UiRestore, Printf ''[kh_bios] CRU cold reset'' []] @
     (if x_has_cru U then [CruWritel RK3568_SRST_MAGIC] else []) @
     [RegWritel RK3568_SRST_MAGIC RK3568_GLB_SRST_FST, Dsb, Isb] @
     (if cfg_arm_psci U then [PsciReset] else [])"

lemma cold_reset_eq: "kh_bios_hw_cold_reset U s = Leaves (emits (reset_events U) s)"
  by (simp add: kh_bios_hw_cold_reset_def kh_bios_prepare_boot_continue_def reset_events_def
      emit_def emits_def Let_def)

lemma final_state_cold_reset [simp]:
  "final_state (kh_bios_hw_cold_reset U s) = emits (reset_events U) s"
  by (simp add: cold_reset_eq)

lemma call_set_recovery_next_False [simp]: "call_set_recovery_next B False s = s"
  by (simp add: call_set_recovery_next_def split: option.splits)

lemma apply_boot_choice_frame [simp, frame_simps]:
  "st_ctx (kh_bios_env_apply_boot_choice U s) = st_ctx s"
  by (simp add: kh_bios_env_apply_boot_choice_def)

text \<open>A board whose recovery hook leaves the environment's variables alone.\<close>

definition recovery_hook_ok :: "'e uboot \<Rightarrow> 'e board_ops option \<Rightarrow> bool" where
  "recovery_hook_ok U B \<longleftrightarrow>
     (\<forall>ops f s. B = Some ops \<longrightarrow> set_recovery_next ops = Some f \<longrightarrow>
        x_env_get U (st_env (snd (f s))) = x_env_get U (st_env s) \<and>
        x_env_stored U (st_env (snd (f s))) = x_env_stored U (st_env s))"

lemma call_set_recovery_next_env:
  "recovery_hook_ok U B \<Longrightarrow>
   x_env_get U (st_env (call_set_recovery_next B w s)) = x_env_get U (st_env s) \<and>
   x_env_stored U (st_env (call_set_recovery_next B w s)) = x_env_stored U (st_env s)"
  by (auto simp: call_set_recovery_next_def recovery_hook_ok_def split: option.splits)

section \<open>Properties\<close>

text \<open>
  Leaving without saving changes nothing but the log: the machine is always reset (the
  call never returns), the environment, RAM and stored, is exactly what it was, no variable
  is set or saved on the way out, and the last thing done is the reset sequence, which
  returns the display to the logo plane and writes the reset magic to the CRU register.
\<close>

theorem discard_exit_only_resets:
  "\<exists>s'. kh_bios_exit_reboot U B False s = Leaves s' \<and>
        st_env s' = st_env s \<and> st_ctx s' = st_ctx s \<and>
        st_log s' = st_log s @
          [Printf ''[kh_bios] %s, cold reset now'' [AStr ''exit without saving''], Flushc] @
          reset_events U \<and>
        RegWritel 0xfdb9 0xFDD200D4 \<in> set (reset_events U)"
  by (simp add: kh_bios_exit_reboot_def cold_reset_eq Let_def reset_events_def
      RK3568_SRST_MAGIC_def RK3568_GLB_SRST_FST_def RK3568_CRU_BASE_def)

text \<open>
  Leaving with the configuration saved hands a wanted recovery to the board and clears
  the one-time request in RAM: the machine is reset, one-time recovery reads off, the default
  boot target is kept, and \<open>reboot_mode\<close> is \<open>recovery\<close> exactly if the one-time
  request was on (otherwise it is as before).
\<close>

theorem save_exit_hands_over_recovery:
  assumes "env_ok U" and "recovery_hook_ok U B"
  shows "\<exists>s'. kh_bios_exit_reboot U B True s = Leaves s' \<and>
              \<not> kh_bios_env_get_once_recovery U s' \<and>
              kh_bios_env_get_default_boot U s' = kh_bios_env_get_default_boot U s \<and>
              env_get U s' ''reboot_mode'' =
                (if kh_bios_env_get_once_recovery U s then Some ''recovery''
                 else env_get U s ''reboot_mode'')"
proof -
  let ?s1 = "emit (Printf ''[kh_bios] %s, cold reset now'' [AStr ''configuration saved'']) s"
  let ?s2 = "call_set_recovery_next B (want_recovery U ?s1) (kh_bios_env_apply_boot_choice U ?s1)"
  have same: "env_get U ?s2 k = env_get U (kh_bios_env_apply_boot_choice U ?s1) k" for k
    using call_set_recovery_next_env [OF assms(2)] by (simp add: env_get_def)
  show ?thesis
    using assms(1)
    by (simp add: kh_bios_exit_reboot_def cold_reset_eq Let_def env_getter_defs same,
        simp add: kh_bios_env_apply_boot_choice_def env_getter_defs env_setter_defs env_get_set
        env_name_defs)
qed

definition hook_ops :: "env_maps board_ops" where
  "hook_ops =
     \<lparr>product_name = None, soc_name = ''RK3568'', features = 0, default_delay_sec = 0,
      boot_normal = Some (\<lambda>s. Leaves s),
      set_recovery_next = Some (\<lambda>s. (0, emit (BcbWrite ''boot-recovery'') s)),
      fill_sys_info = None, fill_hw_lines = None, hw_toggle_item = None,
      ops_enter_fastboot = None, ops_enter_download = None\<rparr>"

lemma hook_ops_ok: "recovery_hook_ok map_uboot (Some hook_ops)"
  by (simp add: recovery_hook_ok_def hook_ops_def)

theorem save_exit_hands_over_recovery_witness:
  "\<exists>s'. kh_bios_exit_reboot map_uboot (Some hook_ops) True
          (kh_bios_env_set_once_recovery map_uboot True map_state) =
            (Leaves s' :: (unit, env_maps bios_state) outcome) \<and>
        \<not> kh_bios_env_get_once_recovery map_uboot s' \<and>
        env_get map_uboot s' ''reboot_mode'' = Some ''recovery''"
proof -
  have on: "kh_bios_env_get_once_recovery map_uboot
      (kh_bios_env_set_once_recovery map_uboot True map_state)"
    by (simp add: env_getter_defs env_setter_defs env_get_set map_uboot_ok)
  show ?thesis
    using on save_exit_hands_over_recovery [OF map_uboot_ok(1) hook_ops_ok,
        of "kh_bios_env_set_once_recovery map_uboot True map_state"] by auto
qed

end
