(* ===== verification/KhBios_UI.thy ===== *)
theory KhBios_UI imports KhBios_Menu KhBios_Boot begin

text \<open>
  \<open>src/oh_bios/uboot_bios/core/kh_bios_ui.c\<close>, \<open>kh_bios_security.c\<close> and
  \<open>kh_bios.c\<close>: the pages of the setup utility, its main loop and its entry points.

  What \<open>kh_bios_poll_key\<close> answers is the input of the model, the list of the results of the
  successive polls (\<open>KhBios_Hotkey\<close> says how it computes them). A page that has consumed
  all of it is still waiting (\<open>Waits\<close>), \<open>Done\<close> is a page that returned with the rest of
  the input, \<open>Left\<close> a page that left the program by a reset or a command that does not
  return. What is drawn is logged; \<open>KhBios_Draw\<close> says what the entries do to the screen.
\<close>

section \<open>Waiting for keys\<close>

datatype ('v, 'e) ui_result =
  Done 'v "kh_bios_key list" "'e bios_state" | Waits "'e bios_state" | Left "'e bios_state"

text \<open>The wait of the pages with a cursor.\<close>

fun wait_key :: "kh_bios_key list \<Rightarrow> 'e bios_state \<Rightarrow> (kh_bios_key, 'e) ui_result" where
  "wait_key [] s = Waits (emits [WatchdogReset, KbdRefresh] s)"
| "wait_key (k # ks) s =
     (let s1 = emits [WatchdogReset, KbdRefresh, PollKey, Mdelay 10] s in
      if k = KH_KEY_NONE then wait_key ks s1 else Done k ks s1)"

text \<open>\<open>while (kh_bios_poll_key() == KH_KEY_NONE) \<dots>\<close>\<close>

fun wait_any :: "kh_bios_key list \<Rightarrow> 'e bios_state \<Rightarrow> (unit, 'e) ui_result" where
  "wait_any [] s = Waits s"
| "wait_any (k # ks) s =
     (let s1 = emit PollKey s in
      if k = KH_KEY_NONE then wait_any ks (emits [WatchdogReset, Mdelay 10] s1) else Done () ks s1)"

lemma wait_key_shorter: "wait_key keys s = Done k ks s' \<Longrightarrow> length ks < length keys"
  by (induction keys s rule: wait_key.induct) (auto simp: Let_def split: if_splits)

lemma wait_any_shorter: "wait_any keys s = Done u ks s' \<Longrightarrow> length ks < length keys"
  by (induction keys s rule: wait_any.induct) (auto simp: Let_def split: if_splits)

section \<open>The settings being edited\<close>

definition ctx_load :: "'e uboot \<Rightarrow> 'e bios_state \<Rightarrow> 'e bios_state" where
  "ctx_load U s = s\<lparr>st_ctx :=
     \<lparr>dirty = False, default_boot = kh_bios_env_get_default_boot U s,
      once_recovery = kh_bios_env_get_once_recovery U s,
      gmac0 = kh_bios_env_get_gmac U 0 s, gmac1 = kh_bios_env_get_gmac U 1 s\<rparr>\<rparr>"

definition upd_ctx :: "(kh_bios_ctx \<Rightarrow> kh_bios_ctx) \<Rightarrow> 'e bios_state \<Rightarrow> 'e bios_state" where
  "upd_ctx f s = s\<lparr>st_ctx := f (st_ctx s)\<rparr>"

definition ctx_save_all :: "'e uboot \<Rightarrow> 'e bios_state \<Rightarrow> 'e bios_state" where
  "ctx_save_all U s =
     (let s1 = kh_bios_env_set_default_boot U (default_boot (st_ctx s)) s;
          s2 = kh_bios_env_set_once_recovery U (once_recovery (st_ctx s1)) s1;
          s3 = kh_bios_env_set_gmac U 0 (gmac0 (st_ctx s2)) s2;
          s4 = kh_bios_env_set_gmac U 1 (gmac1 (st_ctx s3)) s3;
          s5 = snd (kh_bios_env_save U s4)
      in upd_ctx (\<lambda>c. c\<lparr>dirty := False\<rparr>) s5)"

section \<open>The pages\<close>

definition draw_lines :: "string option list \<Rightarrow> (int \<Rightarrow> bool) \<Rightarrow> 'e bios_state \<Rightarrow> 'e bios_state" where
  "draw_lines ts hl s = emits (map (\<lambda>i. UiLine (int i) 0 (ts ! i) (hl (int i))) [0..<length ts]) s"

definition show_sys_info ::
  "'e board_ops option \<Rightarrow> kh_bios_key list \<Rightarrow> 'e bios_state \<Rightarrow> (unit, 'e) ui_result" where
  "show_sys_info B keys s =
     (let ls = (case B of
                  Some ops \<Rightarrow> (case fill_sys_info ops of Some f \<Rightarrow> f KH_BIOS_HW_INFO_LINES s | None \<Rightarrow> [])
                | None \<Rightarrow> []);
          s1 = emit (UiTitle ''System Information'') s;
          s2 = draw_lines (map Some ls) (\<lambda>_. False) s1;
          s3 = (if ls = [] then emit (UiLine 0 0 (Some ''(no board system info)'') False) s2 else s2);
          s4 = emit (UiFooter ''Press any key...'') s3
      in wait_any keys s4)"

lemma show_sys_info_shorter: "show_sys_info B keys s = Done u ks s' \<Longrightarrow> length ks < length keys"
  by (auto simp: show_sys_info_def Let_def dest: wait_any_shorter)

text \<open>A call that is declared \<open>noreturn\<close>.\<close>

definition leave :: "(unit, 'e bios_state) outcome \<Rightarrow> ('v, 'e) ui_result" where
  "leave m = Left (final_state m)"

text \<open>
  The loop of the drawing of the main menu visits \<open>count\<close> indices and skips those without
  an item.
\<close>

definition draw_main :: "'e board_ops option \<Rightarrow> int \<Rightarrow> int \<Rightarrow> 'e bios_state \<Rightarrow> 'e bios_state" where
  "draw_main B count sel s =
     (let s1 = emit (UiTitle ''Main'') s;
          s2 = fold (\<lambda>i s. case kh_bios_menu_main_item B i of
                             Some item \<Rightarrow> emit (UiLine i 0 (Some (mi_label item)) (i = sel)) s
                           | None \<Rightarrow> s) [0..count - 1] s1
      in emit (UiFooter ''Up/Down: Select  Enter: OK  Esc: Exit'') s2)"

function (sequential) page_main ::
  "'e uboot \<Rightarrow> 'e board_ops option \<Rightarrow> int \<Rightarrow> kh_bios_key list \<Rightarrow> 'e bios_state \<Rightarrow> (int, 'e) ui_result"
where
  "page_main U B sel keys s =
     (let count = kh_bios_menu_main_count B in
      case wait_key keys (draw_main B count sel s) of
        Waits s1 \<Rightarrow> Waits s1
      | Left s1 \<Rightarrow> Left s1
      | Done key ks s1 \<Rightarrow>
          if key = KH_KEY_UP \<and> sel > 0 then page_main U B (sel - 1) ks s1
          else if key = KH_KEY_DOWN \<and> sel < count - 1 then page_main U B (sel + 1) ks s1
          else if key = KH_KEY_ESC then leave (kh_bios_exit_reboot U B False s1)
          else if key = KH_KEY_ENTER then
            (case kh_bios_menu_main_item B sel of
               None \<Rightarrow> page_main U B sel ks s1
             | Some item \<Rightarrow>
                 (case mi_action item of
                    KH_MAIN_ACT_INFO \<Rightarrow>
                      (case show_sys_info B ks s1 of
                         Waits s2 \<Rightarrow> Waits s2
                       | Left s2 \<Rightarrow> Left s2
                       | Done u ks2 s2 \<Rightarrow> page_main U B sel ks2 s2)
                  | KH_MAIN_ACT_SAVE_EXIT \<Rightarrow> leave (kh_bios_exit_reboot U B True (ctx_save_all U s1))
                  | KH_MAIN_ACT_DISCARD_EXIT \<Rightarrow> leave (kh_bios_exit_reboot U B False s1)
                  | KH_MAIN_ACT_NONE \<Rightarrow> Done (mi_page item) ks s1))
          else page_main U B sel ks s1)"
  by pat_completeness auto
termination
  by (relation "measure (\<lambda>(U, B, sel, keys, s). length keys)")
    (auto dest!: wait_key_shorter show_sys_info_shorter)

definition KH_BOOT_ITEMS :: int where "KH_BOOT_ITEMS = 3"

definition boot_marks :: "kh_bios_ctx \<Rightarrow> string list" where
  "boot_marks c =
     [snprintf_buf 96 (''Default: KaihongOS (Normal)'' @ (if default_boot c = KH_BOOT_NORMAL then ''  [*]'' else '''')),
      snprintf_buf 96 (''Default: Recovery'' @ (if default_boot c = KH_BOOT_RECOVERY then ''  [*]'' else '''')),
      snprintf_buf 96 (''Boot Recovery once (next reset)'' @ (if once_recovery c then ''  [ON]'' else ''  [OFF]''))]"

definition draw_boot :: "int \<Rightarrow> 'e bios_state \<Rightarrow> 'e bios_state" where
  "draw_boot sel s =
     emit (UiFooter ''Enter: Toggle/Select  Esc: Back'')
       (draw_lines (map Some (boot_marks (st_ctx s))) (\<lambda>i. sel = i) (emit (UiTitle ''Boot Configuration'') s))"

definition boot_enter :: "int \<Rightarrow> kh_bios_ctx \<Rightarrow> kh_bios_ctx" where
  "boot_enter sel c =
     (let c1 = c\<lparr>dirty := True\<rparr> in
      if sel = 0 then c1\<lparr>default_boot := KH_BOOT_NORMAL\<rparr>
      else if sel = 1 then c1\<lparr>default_boot := KH_BOOT_RECOVERY\<rparr>
      else c1\<lparr>once_recovery := \<not> once_recovery c1\<rparr>)"

function (sequential) boot_loop ::
  "int \<Rightarrow> kh_bios_key list \<Rightarrow> 'e bios_state \<Rightarrow> (int, 'e) ui_result"
where
  "boot_loop sel keys s =
     (case wait_key keys (draw_boot sel s) of
        Waits s1 \<Rightarrow> Waits s1
      | Left s1 \<Rightarrow> Left s1
      | Done key ks s1 \<Rightarrow>
          if key = KH_KEY_UP \<and> sel > 0 then boot_loop (sel - 1) ks s1
          else if key = KH_KEY_DOWN \<and> sel < KH_BOOT_ITEMS - 1 then boot_loop (sel + 1) ks s1
          else if key = KH_KEY_ESC then Done KH_PAGE_MAIN ks s1
          else if key = KH_KEY_ENTER then boot_loop sel ks (upd_ctx (boot_enter sel) s1)
          else boot_loop sel ks s1)"
  by pat_completeness auto
termination
  by (relation "measure (\<lambda>(sel, keys, s). length keys)") (auto dest!: wait_key_shorter)

definition page_boot :: "kh_bios_key list \<Rightarrow> 'e bios_state \<Rightarrow> (int, 'e) ui_result" where
  "page_boot keys s = boot_loop (default_boot (st_ctx s)) keys s"

text \<open>
  The lines of the hardware page live in a local array of eight buffers: a buffer nobody has
  written is \<open>None\<close>.
\<close>

definition hw_fill :: "'e board_ops option \<Rightarrow> (int \<Rightarrow> 'e bios_state \<Rightarrow> string list) option" where
  "hw_fill B = (case B of Some ops \<Rightarrow> fill_hw_lines ops | None \<Rightarrow> None)"

definition hw_init :: "'e board_ops option \<Rightarrow> 'e bios_state \<Rightarrow> string option list \<times> int" where
  "hw_init B s =
     (case hw_fill B of
        Some f \<Rightarrow> (let ls = f KH_BIOS_HW_TOGGLE_MAX s; n = int (length ls)
                  in (map Some ls @ replicate (nat KH_BIOS_HW_TOGGLE_MAX - length ls) None,
                      if n \<le> 0 then 2 else n))
      | None \<Rightarrow> (replicate (nat KH_BIOS_HW_TOGGLE_MAX) None, 2))"

definition gmac_text :: "string \<Rightarrow> int \<Rightarrow> string" where
  "gmac_text name v = snprintf_buf 64 (name @ '': '' @ (if v \<noteq> 0 then ''Enabled'' else ''Disabled'') @ '' (toggle)'')"

definition hw_refresh :: "'e board_ops option \<Rightarrow> kh_bios_ctx \<Rightarrow> string option list \<Rightarrow> string option list" where
  "hw_refresh B c ls =
     (if hw_fill B = None
      then ls[0 := Some (gmac_text ''GMAC0'' (gmac0 c)), 1 := Some (gmac_text ''GMAC1'' (gmac1 c))]
      else ls)"

definition draw_hw :: "string option list \<Rightarrow> int \<Rightarrow> int \<Rightarrow> 'e bios_state \<Rightarrow> 'e bios_state" where
  "draw_hw ls line_count sel s =
     emit (UiFooter ''Enter: Toggle  Esc: Back'')
       (draw_lines (take (nat line_count) ls) (\<lambda>i. sel = i) (emit (UiTitle ''Hardware Configuration'') s))"

definition hw_enter :: "'e uboot \<Rightarrow> 'e board_ops option \<Rightarrow> int \<Rightarrow> 'e bios_state \<Rightarrow> 'e bios_state" where
  "hw_enter U B sel s =
     (let s1 = upd_ctx (\<lambda>c. c\<lparr>dirty := True\<rparr>) s in
      case (case B of Some ops \<Rightarrow> hw_toggle_item ops | None \<Rightarrow> None) of
        Some f \<Rightarrow>
          (let s2 = snd (f sel s1);
               s3 = upd_ctx (\<lambda>c. c\<lparr>gmac0 := kh_bios_env_get_gmac U 0 s2\<rparr>) s2
           in upd_ctx (\<lambda>c. c\<lparr>gmac1 := kh_bios_env_get_gmac U 1 s3\<rparr>) s3)
      | None \<Rightarrow>
          if sel = 0 then upd_ctx (\<lambda>c. c\<lparr>gmac0 := (if gmac0 c = 0 then 1 else 0)\<rparr>) s1
          else upd_ctx (\<lambda>c. c\<lparr>gmac1 := (if gmac1 c = 0 then 1 else 0)\<rparr>) s1)"

function (sequential) hw_loop ::
  "'e uboot \<Rightarrow> 'e board_ops option \<Rightarrow> string option list \<Rightarrow> int \<Rightarrow> int \<Rightarrow> kh_bios_key list \<Rightarrow>
   'e bios_state \<Rightarrow> (int, 'e) ui_result"
where
  "hw_loop U B lines0 line_count sel keys s =
     (let ls = hw_refresh B (st_ctx s) lines0 in
      case wait_key keys (draw_hw ls line_count sel s) of
        Waits s1 \<Rightarrow> Waits s1
      | Left s1 \<Rightarrow> Left s1
      | Done key ks s1 \<Rightarrow>
          if key = KH_KEY_UP \<and> sel > 0 then hw_loop U B ls line_count (sel - 1) ks s1
          else if key = KH_KEY_DOWN \<and> sel < line_count - 1 then hw_loop U B ls line_count (sel + 1) ks s1
          else if key = KH_KEY_ESC then Done KH_PAGE_MAIN ks s1
          else if key = KH_KEY_ENTER then hw_loop U B ls line_count sel ks (hw_enter U B sel s1)
          else hw_loop U B ls line_count sel ks s1)"
  by pat_completeness auto
termination
  by (relation "measure (\<lambda>(U, B, ls, n, sel, keys, s). length keys)") (auto dest!: wait_key_shorter)

definition page_hardware ::
  "'e uboot \<Rightarrow> 'e board_ops option \<Rightarrow> kh_bios_key list \<Rightarrow> 'e bios_state \<Rightarrow> (int, 'e) ui_result" where
  "page_hardware U B keys s = (let (ls, n) = hw_init B s in hw_loop U B ls n 0 keys s)"

definition draw_adv :: "'e board_ops option \<Rightarrow> int \<Rightarrow> int \<Rightarrow> 'e bios_state \<Rightarrow> 'e bios_state" where
  "draw_adv B count sel s =
     (let s1 = emit (UiTitle ''Advanced'') s;
          s2 = fold (\<lambda>i s. case kh_bios_menu_adv_label B i of
                             Some label \<Rightarrow> emit (UiLine i 0 (Some label) (i = sel)) s
                           | None \<Rightarrow> s) [0..count - 1] s1
      in emit (UiFooter ''Enter: Execute  Esc: Back'') s2)"

text \<open>
  \<open>page_advanced\<close> returns its page; what it stores through \<open>exit_code\<close> nobody reads, so
  the result is the pair of both.
\<close>

function (sequential) page_advanced ::
  "'e uboot \<Rightarrow> 'e board_ops option \<Rightarrow> int \<Rightarrow> int \<Rightarrow> kh_bios_key list \<Rightarrow> 'e bios_state \<Rightarrow>
   (int \<times> int, 'e) ui_result"
where
  "page_advanced U B exit_code sel keys s =
     (let count = kh_bios_menu_adv_count B in
      case wait_key keys (draw_adv B count sel s) of
        Waits s1 \<Rightarrow> Waits s1
      | Left s1 \<Rightarrow> Left s1
      | Done key ks s1 \<Rightarrow>
          if key = KH_KEY_UP \<and> sel > 0 then page_advanced U B exit_code (sel - 1) ks s1
          else if key = KH_KEY_DOWN \<and> sel < count - 1 then page_advanced U B exit_code (sel + 1) ks s1
          else if key = KH_KEY_ESC then Done (KH_PAGE_MAIN, exit_code) ks s1
          else if key = KH_KEY_ENTER then
            (let feat = kh_bios_menu_adv_feat B sel in
             if feat = KH_BIOS_FEAT_FASTBOOT then
               (case kh_bios_enter_fastboot U B s1 of
                  Leaves s2 \<Rightarrow> Left s2 | Returns rc s2 \<Rightarrow> Done (-1, KH_EXIT_ADV) ks s2)
             else if feat = KH_BIOS_FEAT_ROCKUSB then
               (case kh_bios_enter_rockusb U B s1 of
                  Leaves s2 \<Rightarrow> Left s2 | Returns rc s2 \<Rightarrow> Done (-1, KH_EXIT_ADV) ks s2)
             else
               (case kh_bios_enter_cli U s1 of
                  Leaves s2 \<Rightarrow> Left s2 | Returns rc s2 \<Rightarrow> page_advanced U B exit_code sel ks s2))
          else page_advanced U B exit_code sel ks s1)"
  by pat_completeness auto
termination
  by (relation "measure (\<lambda>(U, B, ec, sel, keys, s). length keys)") (auto dest!: wait_key_shorter)

section \<open>The security page\<close>

definition KH_SEC_STATUS :: "bool \<Rightarrow> string" where
  "KH_SEC_STATUS hvb = (if hvb then ''HVB: enabled (bootloader)'' else ''HVB: not configured (Phase 5)'')"

fun security_wait :: "kh_bios_key list \<Rightarrow> 'e bios_state \<Rightarrow> (int, 'e) ui_result" where
  "security_wait [] s = Waits (emit WatchdogReset s)"
| "security_wait (k # ks) s =
     (let s1 = emits [WatchdogReset, PollKey] s in
      if k = KH_KEY_ESC \<or> k = KH_KEY_ENTER then Done KH_PAGE_MAIN ks s1
      else security_wait ks (emit (Mdelay 10) s1))"

definition kh_bios_page_security ::
  "bool \<Rightarrow> kh_bios_key list \<Rightarrow> 'e bios_state \<Rightarrow> (int, 'e) ui_result" where
  "kh_bios_page_security hvb keys s =
     security_wait keys (emits
       [UiTitle ''Security'', UiLine 0 0 (Some (KH_SEC_STATUS hvb)) False,
        UiLine 1 0 (Some ''Secure Boot policy: read-only in v1'') False,
        UiLine 2 0 (Some ''Use fastboot/CLI for unlock (future)'') False,
        UiFooter ''Esc: Back''] s)"

lemma security_wait_shorter: "security_wait keys s = Done p ks s' \<Longrightarrow> length ks < length keys \<and> p = KH_PAGE_MAIN"
  by (induction keys s rule: security_wait.induct) (auto simp: Let_def split: if_splits)

declare page_main.simps [simp del] boot_loop.simps [simp del] hw_loop.simps [simp del]
  page_advanced.simps [simp del]

section \<open>What a page can do\<close>

text \<open>Two states with the same environment and the same settings: they differ in the log only.\<close>

definition same_mem :: "'e bios_state \<Rightarrow> 'e bios_state \<Rightarrow> bool" where
  "same_mem s s' \<longleftrightarrow> st_env s' = st_env s \<and> st_ctx s' = st_ctx s"

lemma same_mem_refl [simp]: "same_mem s s"
  by (simp add: same_mem_def)

lemma same_mem_trans: "same_mem s s1 \<Longrightarrow> same_mem s1 s2 \<Longrightarrow> same_mem s s2"
  by (simp add: same_mem_def)

lemma same_mem_emit [simp]: "same_mem s (emit ev s') = same_mem s s'" "same_mem s (emits evs s') = same_mem s s'"
  by (simp_all add: same_mem_def)

lemma same_mem_draw_lines [simp]: "same_mem s (draw_lines ts hl s') = same_mem s s'"
  by (simp add: draw_lines_def)

lemma fold_emit_same_mem:
  "same_mem s (fold (\<lambda>i s. case f i of Some x \<Rightarrow> emit (g i x) s | None \<Rightarrow> s) xs s') = same_mem s s'"
  by (induction xs arbitrary: s') (simp_all split: option.split)

lemma same_mem_draw [simp]:
  "same_mem s (draw_main B n sel s') = same_mem s s'"
  "same_mem s (draw_adv B n sel s') = same_mem s s'"
  "same_mem s (draw_boot sel s') = same_mem s s'"
  "same_mem s (draw_hw ls n sel s') = same_mem s s'"
  by (simp_all add: draw_main_def draw_adv_def draw_boot_def draw_hw_def Let_def fold_emit_same_mem)

fun res_state :: "('v, 'e) ui_result \<Rightarrow> 'e bios_state" where
  "res_state (Done v ks s) = s" | "res_state (Waits s) = s" | "res_state (Left s) = s"

lemma wait_key_same_mem: "same_mem s s0 \<Longrightarrow> same_mem s (res_state (wait_key keys s0))"
  by (induction keys s0 rule: wait_key.induct) (auto simp: Let_def)

lemma wait_key_Done: "wait_key keys s = Done k ks s' \<Longrightarrow> same_mem s s' \<and> length ks < length keys \<and> k \<noteq> KH_KEY_NONE"
  by (induction keys s rule: wait_key.induct)
    (auto simp: Let_def same_mem_def split: if_splits)

lemma wait_key_not_Left [simp]: "wait_key keys s \<noteq> Left s'"
  by (induction keys s rule: wait_key.induct) (auto simp: Let_def)

lemma show_sys_info_same_mem: "same_mem s (res_state (show_sys_info B keys s))"
proof -
  have "same_mem s (res_state (wait_any keys s0))" if "same_mem s s0" for s0
    using that by (induction keys s0 rule: wait_any.induct) (auto simp: Let_def)
  then show ?thesis by (simp add: show_sys_info_def Let_def)
qed

lemma show_sys_info_not_Left [simp]: "show_sys_info B keys s \<noteq> Left s'"
proof -
  have "wait_any keys s0 \<noteq> Left s'" for s0 :: "'a bios_state"
    by (induction keys s0 rule: wait_any.induct) (auto simp: Let_def)
  then show ?thesis by (simp add: show_sys_info_def Let_def)
qed

text \<open>
  The outcomes of the main page: it waits or opens a page without having changed a setting or
  the environment, or it leaves by one of its two exits.
\<close>

fun main_ok ::
  "'e uboot \<Rightarrow> 'e board_ops option \<Rightarrow> kh_bios_key list \<Rightarrow> 'e bios_state \<Rightarrow> (int, 'e) ui_result \<Rightarrow> bool" where
  "main_ok U B keys s (Waits s') \<longleftrightarrow> same_mem s s'"
| "main_ok U B keys s (Left s') \<longleftrightarrow> (\<exists>s0. same_mem s s0 \<and>
     (s' = final_state (kh_bios_exit_reboot U B False s0 :: (unit, 'e bios_state) outcome) \<or>
      s' = final_state (kh_bios_exit_reboot U B True (ctx_save_all U s0) :: (unit, 'e bios_state) outcome)))"
| "main_ok U B keys s (Done p ks s') \<longleftrightarrow> same_mem s s' \<and> length ks < length keys \<and>
     (\<exists>item \<in> set (visible_main B). mi_action item = KH_MAIN_ACT_NONE \<and> p = mi_page item)"

lemma main_ok_mono:
  assumes "main_ok U B ks s1 r" and "same_mem s s1" and "length ks \<le> length keys"
  shows "main_ok U B keys s r"
proof (cases r)
  case (Done p ks' s')
  with assms show ?thesis by (auto intro: same_mem_trans)
next
  case (Waits s')
  with assms show ?thesis by (auto intro: same_mem_trans)
next
  case (Left s')
  with assms obtain s0 where "same_mem s1 s0" and
     s0: "s' = final_state (kh_bios_exit_reboot U B False s0 :: (unit, 'a bios_state) outcome) \<or>
      s' = final_state (kh_bios_exit_reboot U B True (ctx_save_all U s0) :: (unit, 'a bios_state) outcome)"
    by auto
  with assms(2) have "same_mem s s0" using same_mem_trans by blast
  with s0 Left show ?thesis by auto
qed

lemma main_item_visible: "kh_bios_menu_main_item B i = Some item \<Longrightarrow> item \<in> set (visible_main B)"
  by (auto simp: kh_bios_menu_main_item_def main_item_loop_eq visible_main_def dest!: nth_opt_in_set)

lemma page_main_ok: "main_ok U B keys s (page_main U B sel keys s)"
proof (induction U B sel keys s rule: page_main.induct)
  case (1 U B sel keys s)
  obtain r where r: "wait_key keys (draw_main B (kh_bios_menu_main_count B) sel s) = r" by simp
  show ?case
  proof (cases r)
    case (Done key ks1 s1)
    note r1 = r [unfolded Done]
    from wait_key_Done [OF r1] have s1: "same_mem s s1" "length ks1 < length keys"
      by (simp_all add: same_mem_def [of "draw_main _ _ _ _"]) (metis same_mem_def same_mem_draw(1) same_mem_refl)
    note IH = "1.IH" [OF refl r1]
    have sub: "same_mem s s2 \<and> length ks2 \<le> length keys"
      if "show_sys_info B ks1 s1 = Done u ks2 s2" for u ks2 s2
      using show_sys_info_same_mem [of s1 B ks1] show_sys_info_shorter [OF that] that s1
      by (auto intro: same_mem_trans)
    have sub': "same_mem s s2" if "show_sys_info B ks1 s1 = Waits s2" for s2
      using show_sys_info_same_mem [of s1 B ks1] that s1 by (auto intro: same_mem_trans)
    show ?thesis
      unfolding page_main.simps [of U B sel keys s] Let_def r1 ui_result.case
      using s1 sub sub'
      by (auto simp: leave_def split: option.split kh_main_action.split ui_result.split
          intro: main_ok_mono [OF IH(1)] main_ok_mono [OF IH(2)] main_ok_mono [OF IH(3)]
            main_ok_mono [OF IH(4)] main_ok_mono [OF IH(5)]
          dest: main_item_visible)
  qed (use r wait_key_same_mem [of s "draw_main B (kh_bios_menu_main_count B) sel s" keys] in
      \<open>simp_all add: page_main.simps [of U B sel keys s]\<close>)
qed

lemma wait_key_consumes:
  "(case wait_key keys s of
      Done k ks s' \<Rightarrow> \<exists>n. keys = replicate n KH_KEY_NONE @ k # ks
    | Waits s' \<Rightarrow> \<exists>n. keys = replicate n KH_KEY_NONE
    | Left s' \<Rightarrow> False)"
proof (induction keys s rule: wait_key.induct)
  case (1 s)
  show ?case by (simp add: exI [of _ 0])
next
  case (2 k ks s)
  show ?case
  proof (cases "k = KH_KEY_NONE")
    case True
    let ?r = "wait_key ks (emits [WatchdogReset, KbdRefresh, PollKey, Mdelay 10] s)"
    have "wait_key (k # ks) s = ?r" using True by (simp add: Let_def)
    moreover have "\<exists>n. k # xs = replicate n KH_KEY_NONE @ ys" if "\<exists>n. xs = replicate n KH_KEY_NONE @ ys" for xs ys
      using that True by (metis append_Cons replicate_Suc)
    ultimately show ?thesis using "2.IH" [OF refl True] by (cases ?r) (simp_all, metis append_Nil2)
  next
    case False
    then show ?thesis by (simp add: Let_def exI [of _ 0])
  qed
qed

lemma page_advanced_shorter: "page_advanced U B ec sel keys s = Done p ks s' \<Longrightarrow> length ks < length keys"
proof (induction U B ec sel keys s arbitrary: p ks s' rule: page_advanced.induct)
  case (1 U B ec sel keys s)
  obtain r where r: "wait_key keys (draw_adv B (kh_bios_menu_adv_count B) sel s) = r" by simp
  show ?case
  proof (cases r)
    case (Done key ks1 s1)
    note r1 = r [unfolded Done]
    have len: "length ks1 < length keys" using wait_key_Done [OF r1] by simp
    note IH = "1.IH" [OF refl r1]
    show ?thesis
      using "1.prems" len
      unfolding page_advanced.simps [of U B ec sel keys s] Let_def r1 ui_result.case
      by (auto split: outcome.splits if_splits intro: less_trans [OF IH(1)] less_trans [OF IH(2)]
          less_trans [OF IH(3)] less_trans [OF IH(4)])
  qed (use "1.prems" r in \<open>simp_all add: page_advanced.simps [of U B ec sel keys s]\<close>)
qed

lemma id_funpow_apply [simp]: "(id ^^ n) x = x"
  by (induction n) simp_all

section \<open>The settings editors behind the pages\<close>

text \<open>
  The boot page as a pure editor of the cursor and the settings: one step per key, in which
  everything that only draws or waits has disappeared.
\<close>

fun boot_edit :: "kh_bios_key \<Rightarrow> int \<times> kh_bios_ctx \<Rightarrow> int \<times> kh_bios_ctx" where
  "boot_edit key (sel, c) =
     (cursor_move KH_BOOT_ITEMS sel key, if key = KH_KEY_ENTER then boot_enter sel c else c)"

lemma boot_edit_NONE [simp]: "boot_edit KH_KEY_NONE x = x"
  by (cases x) (simp add: cursor_move_def)

lemma fold_edit_NONE: "f KH_KEY_NONE = id \<Longrightarrow> fold f (replicate n KH_KEY_NONE) x = x"
  by (induction n) simp_all

text \<open>What a page whose only exit is Esc does, when \<open>f\<close> is its editor.\<close>

definition edits_until_esc ::
  "(kh_bios_key \<Rightarrow> 'x \<Rightarrow> 'x) \<Rightarrow> ('x \<Rightarrow> 'e bios_state \<Rightarrow> bool) \<Rightarrow> 'x \<Rightarrow> kh_bios_key list \<Rightarrow> (int, 'e) ui_result \<Rightarrow> bool"
where
  "edits_until_esc f sh x keys r \<longleftrightarrow>
     (case r of
        Done p ks s' \<Rightarrow> p = KH_PAGE_MAIN \<and>
          (\<exists>pre. keys = pre @ KH_KEY_ESC # ks \<and> KH_KEY_ESC \<notin> set pre \<and> sh (fold f pre x) s')
      | Waits s' \<Rightarrow> KH_KEY_ESC \<notin> set keys \<and> sh (fold f keys x) s'
      | Left s' \<Rightarrow> False)"

lemma edits_until_esc_step:
  assumes "f KH_KEY_NONE = id" and "k \<noteq> KH_KEY_ESC" and "edits_until_esc f sh (f k x) ks r"
  shows "edits_until_esc f sh x (replicate n KH_KEY_NONE @ k # ks) r"
proof (cases r)
  case (Done p ks' s')
  with assms(3) obtain pre where "p = KH_PAGE_MAIN" "ks = pre @ KH_KEY_ESC # ks'" "KH_KEY_ESC \<notin> set pre"
      "sh (fold f pre (f k x)) s'" by (auto simp: edits_until_esc_def)
  with Done assms(1,2) show ?thesis
    by (auto simp: edits_until_esc_def fold_edit_NONE
        intro!: exI [of _ "replicate n KH_KEY_NONE @ k # pre"])
next
  case (Waits s')
  with assms show ?thesis by (auto simp: edits_until_esc_def fold_edit_NONE)
next
  case (Left s')
  with assms show ?thesis by (simp add: edits_until_esc_def)
qed

lemma boot_loop_edits:
  "st_env s = e \<Longrightarrow>
   edits_until_esc boot_edit (\<lambda>(sel', c) s'. st_env s' = e \<and> st_ctx s' = c) (sel, st_ctx s) keys
     (boot_loop sel keys s)"
proof (induction sel keys s rule: boot_loop.induct)
  case (1 sel keys s)
  have NONE: "boot_edit KH_KEY_NONE = id" by (rule ext) simp
  note cons = wait_key_consumes [of keys "draw_boot sel s"]
  have mem: "same_mem s (res_state (wait_key keys (draw_boot sel s)))"
    by (rule wait_key_same_mem) simp
  show ?case
  proof (cases "wait_key keys (draw_boot sel s)")
    case (Waits s1)
    with cons mem "1.prems" show ?thesis
      by (auto simp: boot_loop.simps [of sel keys s] edits_until_esc_def NONE same_mem_def)
  next
    case (Done key ks s1)
    from cons Done obtain n where n: "keys = replicate n KH_KEY_NONE @ key # ks" by auto
    from mem Done "1.prems" have s1: "st_env s1 = e" "st_ctx s1 = st_ctx s" by (simp_all add: same_mem_def)
    note IH = "1.IH" [OF Done]
    show ?thesis
    proof (cases "key = KH_KEY_ESC")
      case True
      with Done have "boot_loop sel keys s = Done KH_PAGE_MAIN ks s1"
        by (simp add: boot_loop.simps [of sel keys s])
      with True n s1 show ?thesis
        by (auto simp: edits_until_esc_def NONE intro!: exI [of _ "replicate n KH_KEY_NONE"])
    next
      case False
      have "edits_until_esc boot_edit (\<lambda>(sel', c) s'. st_env s' = e \<and> st_ctx s' = c)
          (boot_edit key (sel, st_ctx s)) ks (boot_loop sel keys s)"
        using IH s1 False Done
        by (auto simp: boot_loop.simps [of sel keys s] cursor_move_def upd_ctx_def)
      from edits_until_esc_step [OF NONE False this, of n] n show ?thesis by simp
    qed
  qed (use cons in simp)
qed


text \<open>The hardware page of a board without a toggle operation of its own, as an editor.\<close>

fun hw_edit :: "int \<Rightarrow> kh_bios_key \<Rightarrow> int \<times> kh_bios_ctx \<Rightarrow> int \<times> kh_bios_ctx" where
  "hw_edit n key (sel, c) =
     (cursor_move n sel key,
      if key = KH_KEY_ENTER
      then (if sel = 0 then c\<lparr>dirty := True, gmac0 := (if gmac0 c = 0 then 1 else 0)\<rparr>
            else c\<lparr>dirty := True, gmac1 := (if gmac1 c = 0 then 1 else 0)\<rparr>)
      else c)"

definition no_toggle :: "'e board_ops option \<Rightarrow> bool" where
  "no_toggle B \<longleftrightarrow> (case B of Some ops \<Rightarrow> hw_toggle_item ops = None | None \<Rightarrow> True)"

lemma hw_enter_no_toggle:
  "no_toggle B \<Longrightarrow> st_env (hw_enter U B sel s) = st_env s \<and>
     st_ctx (hw_enter U B sel s) = snd (hw_edit n KH_KEY_ENTER (sel, st_ctx s))"
  by (auto simp: hw_enter_def no_toggle_def upd_ctx_def Let_def split: option.splits)

lemma hw_loop_edits:
  "no_toggle B \<Longrightarrow> st_env s = e \<Longrightarrow>
   edits_until_esc (hw_edit n) (\<lambda>(sel', c) s'. st_env s' = e \<and> st_ctx s' = c) (sel, st_ctx s) keys
     (hw_loop U B ls n sel keys s)"
proof (induction U B ls n sel keys s rule: hw_loop.induct)
  case (1 U B lines0 n sel keys s)
  let ?ls = "hw_refresh B (st_ctx s) lines0"
  have NONE: "hw_edit n KH_KEY_NONE = id" by (rule ext) (auto simp: cursor_move_def)
  note cons = wait_key_consumes [of keys "draw_hw ?ls n sel s"]
  have mem: "same_mem s (res_state (wait_key keys (draw_hw ?ls n sel s)))"
    by (rule wait_key_same_mem) simp
  show ?case
  proof (cases "wait_key keys (draw_hw ?ls n sel s)")
    case (Waits s1)
    with cons mem "1.prems" show ?thesis
      by (auto simp: hw_loop.simps [of U B lines0 n sel keys s] edits_until_esc_def NONE same_mem_def Let_def)
  next
    case (Done key ks s1)
    from cons Done obtain m where m: "keys = replicate m KH_KEY_NONE @ key # ks" by auto
    from mem Done "1.prems" have s1: "st_env s1 = e" "st_ctx s1 = st_ctx s" by (simp_all add: same_mem_def)
    note IH = "1.IH" [OF refl Done]
    note hw = hw_enter_no_toggle [OF "1.prems"(1), of U sel s1 n]
    show ?thesis
    proof (cases "key = KH_KEY_ESC")
      case True
      with Done have "hw_loop U B lines0 n sel keys s = Done KH_PAGE_MAIN ks s1"
        by (simp add: hw_loop.simps [of U B lines0 n sel keys s] Let_def)
      with True m s1 show ?thesis
        by (auto simp: edits_until_esc_def NONE intro!: exI [of _ "replicate m KH_KEY_NONE"])
    next
      case False
      have "edits_until_esc (hw_edit n) (\<lambda>(sel', c) s'. st_env s' = e \<and> st_ctx s' = c)
          (hw_edit n key (sel, st_ctx s)) ks (hw_loop U B lines0 n sel keys s)"
        using IH s1 False Done hw "1.prems"
        by (auto simp: hw_loop.simps [of U B lines0 n sel keys s] cursor_move_def Let_def)
      from edits_until_esc_step [OF NONE False this, of m] m show ?thesis by simp
    qed
  qed (use cons in simp)
qed

lemma hw_loop_shorter: "hw_loop U B ls n sel keys s = Done p ks s' \<Longrightarrow> length ks < length keys"
proof (induction U B ls n sel keys s arbitrary: p ks s' rule: hw_loop.induct)
  case (1 U B lines0 n sel keys s)
  obtain r where r: "wait_key keys (draw_hw (hw_refresh B (st_ctx s) lines0) n sel s) = r" by simp
  show ?case
  proof (cases r)
    case (Done key ks1 s1)
    note r1 = r [unfolded Done]
    have len: "length ks1 < length keys" using wait_key_Done [OF r1] by simp
    note IH = "1.IH" [OF refl r1]
    show ?thesis
      using "1.prems" len
      unfolding hw_loop.simps [of U B lines0 n sel keys s] Let_def r1 ui_result.case
      by (auto split: if_splits intro: less_trans [OF IH(1)] less_trans [OF IH(2)]
          less_trans [OF IH(3)] less_trans [OF IH(4)])
  qed (use "1.prems" r in \<open>simp_all add: hw_loop.simps [of U B lines0 n sel keys s] Let_def\<close>)
qed

lemma boot_loop_shorter: "boot_loop sel keys s = Done p ks s' \<Longrightarrow> length ks < length keys"
  using boot_loop_edits [OF refl, of s sel keys] by (auto simp: edits_until_esc_def)

lemma page_main_shorter: "page_main U B sel keys s = Done p ks s' \<Longrightarrow> length ks < length keys"
  using page_main_ok [of U B keys s sel] by simp

section \<open>The main loop and the entry points\<close>

fun map_done :: "('v \<Rightarrow> 'w) \<Rightarrow> ('v, 'e) ui_result \<Rightarrow> ('w, 'e) ui_result" where
  "map_done f (Done v ks s) = Done (f v) ks s"
| "map_done f (Waits s) = Waits s"
| "map_done f (Left s) = Left s"

lemma map_done_eq_Done: "map_done f r = Done w ks s \<longleftrightarrow> (\<exists>v. r = Done v ks s \<and> w = f v)"
  by (cases r) auto

text \<open>The \<open>switch\<close> of the main loop: the next page and the exit code.\<close>

definition run_page ::
  "'e uboot \<Rightarrow> 'e board_ops option \<Rightarrow> bool \<Rightarrow> int \<Rightarrow> int \<Rightarrow> kh_bios_key list \<Rightarrow> 'e bios_state \<Rightarrow>
   (int \<times> int, 'e) ui_result" where
  "run_page U B hvb page exit_code keys s =
     (if page = KH_PAGE_MAIN then map_done (\<lambda>p. (p, exit_code)) (page_main U B 0 keys s)
      else if page = KH_PAGE_BOOT then map_done (\<lambda>p. (p, exit_code)) (page_boot keys s)
      else if page = KH_PAGE_HARDWARE then map_done (\<lambda>p. (p, exit_code)) (page_hardware U B keys s)
      else if page = KH_PAGE_SECURITY then map_done (\<lambda>p. (p, exit_code)) (kh_bios_page_security hvb keys s)
      else if page = KH_PAGE_ADVANCED then page_advanced U B exit_code 0 keys s
      else Done (-1, exit_code) keys s)"

lemma run_page_Done:
  "run_page U B hvb page ec keys s = Done (p, ec') ks s' \<Longrightarrow> length ks < length keys \<or> (p = -1 \<and> ks = keys)"
  by (auto simp: run_page_def map_done_eq_Done page_boot_def page_hardware_def split_beta
      kh_bios_page_security_def
      dest: page_main_shorter boot_loop_shorter hw_loop_shorter security_wait_shorter page_advanced_shorter
      split: if_splits)

function (sequential) page_loop ::
  "'e uboot \<Rightarrow> 'e board_ops option \<Rightarrow> bool \<Rightarrow> int \<Rightarrow> int \<Rightarrow> kh_bios_key list \<Rightarrow> 'e bios_state \<Rightarrow>
   (int, 'e) ui_result"
where
  "page_loop U B hvb page exit_code keys s =
     (if page \<ge> 0
      then case run_page U B hvb page exit_code keys s of
             Waits s1 \<Rightarrow> Waits s1
           | Left s1 \<Rightarrow> Left s1
           | Done (page', exit_code') ks s1 \<Rightarrow> page_loop U B hvb page' exit_code' ks s1
      else Done 0 keys s)"
  by pat_completeness auto
termination
  by (relation "measures [\<lambda>(U, B, hvb, page, ec, keys, s). length keys,
      \<lambda>(U, B, hvb, page, ec, keys, s). nat (page + 1)]") (auto dest: run_page_Done)

declare page_loop.simps [simp del]

definition kh_bios_run ::
  "'e uboot \<Rightarrow> 'e board_ops option \<Rightarrow> bool \<Rightarrow> kh_bios_key list \<Rightarrow> 'e bios_state \<Rightarrow> (int, 'e) ui_result" where
  "kh_bios_run U B hvb keys s =
     (let s1 = ctx_load U (emit (Printf ''[kh_bios] setup menu active (%s)'' [AStr KH_BIOS_FW_TAG]) s);
          s2 = emit UiTakeover s1;
          s3 = (if \<not> x_video_ready U
                then emit (Printf ''[kh_bios] HDMI unavailable, use serial for menu text'' []) s2 else s2)
      in page_loop U B hvb KH_PAGE_MAIN 0 keys (emits [UiDrawInit, FlushInput, KbdRefresh] s3))"

definition EINVAL :: int where "EINVAL = 22"

definition null_str :: "string option \<Rightarrow> string" where
  "null_str t = (case t of Some x \<Rightarrow> x | None \<Rightarrow> ''(null)'')"

text \<open>\<open>f10\<close> is what \<open>kh_bios_wait_f10\<close> answers for the delay (see \<open>KhBios_Hotkey\<close>).\<close>

definition kh_bios_boot_check ::
  "'e uboot \<Rightarrow> 'e board_ops option \<Rightarrow> bool \<Rightarrow> (int \<Rightarrow> bool) \<Rightarrow> kh_bios_key list \<Rightarrow> 'e bios_state \<Rightarrow>
   (int, 'e) ui_result" where
  "kh_bios_boot_check U B hvb f10 keys s =
     (let (delay, s1) = kh_bios_env_get_delay U B s in
      case B of
        None \<Rightarrow> Done (- EINVAL) keys (emit (Printf ''[kh_bios] no board ops'' []) s1)
      | Some ops \<Rightarrow>
          let s2 = emit (Printf ''[kh_bios] %s %s (%s) setup %d sec, F10/USB-B or serial-B''
                     [AStr KH_BIOS_FW_TAG, AStr (null_str (product_name ops)), AStr (soc_name ops), AInt delay]) s1
          in if f10 delay
             then (case kh_bios_run U B hvb keys (emit (Printf ''[kh_bios] F10 detected, entering BIOS'' []) s2) of
                     Waits s3 \<Rightarrow> Waits s3
                   | Left s3 \<Rightarrow> Left s3
                   | Done rc ks s3 \<Rightarrow> Done 0 ks (kh_bios_prepare_boot_continue s3))
             else Done 0 keys s2)"

definition do_kh_bios ::
  "'e uboot \<Rightarrow> 'e board_ops option \<Rightarrow> bool \<Rightarrow> (int \<Rightarrow> bool) \<Rightarrow> string list \<Rightarrow> kh_bios_key list \<Rightarrow>
   'e bios_state \<Rightarrow> (int, 'e) ui_result" where
  "do_kh_bios U B hvb f10 argv keys s =
     (if length argv > 1 \<and> argv ! 1 = ''check''
      then map_done (\<lambda>_. CMD_RET_SUCCESS) (kh_bios_boot_check U B hvb f10 keys s)
      else map_done (\<lambda>rc. if rc \<noteq> 0 then CMD_RET_FAILURE else CMD_RET_SUCCESS) (kh_bios_run U B hvb keys s))"

definition rk_board_late_init ::
  "'e uboot \<Rightarrow> 'e board_ops option \<Rightarrow> bool \<Rightarrow> bool \<Rightarrow> (int \<Rightarrow> bool) \<Rightarrow> kh_bios_key list \<Rightarrow>
   'e bios_state \<Rightarrow> (int, 'e) ui_result" where
  "rk_board_late_init U B cfg_kh_bios hvb f10 keys s =
     (if cfg_kh_bios then map_done (\<lambda>_. 0) (kh_bios_boot_check U B hvb f10 keys s) else Done 0 keys s)"

section \<open>Saving and reloading\<close>

definition ctx_valid :: "kh_bios_ctx \<Rightarrow> bool" where
  "ctx_valid c \<longleftrightarrow>
     (default_boot c = KH_BOOT_NORMAL \<or> default_boot c = KH_BOOT_RECOVERY) \<and>
     (gmac0 c = 0 \<or> gmac0 c = 1) \<and> (gmac1 c = 0 \<or> gmac1 c = 1)"

definition ctx_settings :: "kh_bios_ctx \<Rightarrow> (setting \<times> setting_val) list" where
  "ctx_settings c =
     [(DefaultBoot, VInt (default_boot c)), (OnceRecovery, VBool (once_recovery c)),
      (Gmac0, VInt (gmac0 c)), (Gmac1, VInt (gmac1 c))]"

lemma ctx_load_valid: "ctx_valid (st_ctx (ctx_load U s))"
  by (simp add: ctx_load_def ctx_valid_def env_getter_defs split: option.splits)

lemma ctx_load_env [simp]: "st_env (ctx_load U s) = st_env s"
  by (simp add: ctx_load_def)

lemma ctx_load_cong: "env_get U s = env_get U t \<Longrightarrow> st_ctx (ctx_load U s) = st_ctx (ctx_load U t)"
  by (simp add: ctx_load_def env_getter_defs)

definition ctx_written :: "'e uboot \<Rightarrow> 'e bios_state \<Rightarrow> 'e bios_state" where
  "ctx_written U s = snd (env_settings.puts (ctx_settings (st_ctx s)) (U, s))"

lemma ctx_written_eq:
  "ctx_written U s =
     kh_bios_env_set_gmac U 1 (gmac1 (st_ctx s)) (kh_bios_env_set_gmac U 0 (gmac0 (st_ctx s))
       (kh_bios_env_set_once_recovery U (once_recovery (st_ctx s))
         (kh_bios_env_set_default_boot U (default_boot (st_ctx s)) s)))"
  by (simp add: ctx_written_def env_settings.puts_def ctx_settings_def)

lemma ctx_save_all_eq:
  "ctx_save_all U s = upd_ctx (\<lambda>c. c\<lparr>dirty := False\<rparr>) (snd (kh_bios_env_save U (ctx_written U s)))"
  by (simp add: ctx_save_all_def ctx_written_eq Let_def)

lemma setting_puts_uboot: "fst (env_settings.puts kvs (U, s)) = U"
  by (induction kvs arbitrary: s)
    (auto simp: env_settings.puts_def, metis fst_conv prod.collapse setting_put_uboot)

lemma ctx_written_reads:
  assumes "env_ok U" and "ctx_valid (st_ctx s)" and "(k, v) \<in> set (ctx_settings (st_ctx s))"
  shows "setting_get k (U, ctx_written U s) = v"
proof -
  have "setting_valid k v" using assms(2,3) by (auto simp: ctx_valid_def ctx_settings_def)
  moreover have "distinct (map fst (ctx_settings (st_ctx s)))" by (simp add: ctx_settings_def)
  ultimately have "setting_get k (env_settings.puts (ctx_settings (st_ctx s)) (U, s)) = v"
    using env_settings.get_puts [of "(U, s)"] assms by simp
  moreover have "env_settings.puts (ctx_settings (st_ctx s)) (U, s) = (U, ctx_written U s)"
    by (rule prod_eqI) (simp_all add: setting_puts_uboot ctx_written_def)
  ultimately show ?thesis by simp
qed

lemma env_get_saved: "env_ok U \<Longrightarrow> env_get U (ctx_save_all U s) k = env_get U (ctx_written U s) k"
  by (simp add: ctx_save_all_eq upd_ctx_def kh_bios_env_save_def split_beta env_get_save)

lemma ctx_written_load:
  assumes "env_ok U" and "ctx_valid (st_ctx s)"
  shows "st_ctx (ctx_load U (ctx_written U s)) = (st_ctx s)\<lparr>dirty := False\<rparr>"
  using ctx_written_reads [OF assms, of DefaultBoot] ctx_written_reads [OF assms, of OnceRecovery]
    ctx_written_reads [OF assms, of Gmac0] ctx_written_reads [OF assms, of Gmac1]
  by (simp add: ctx_load_def ctx_settings_def)

lemma ctx_saved_load:
  assumes "env_ok U" and "ctx_valid (st_ctx s)"
  shows "st_ctx (ctx_load U (ctx_save_all U s)) = (st_ctx s)\<lparr>dirty := False\<rparr>"
  using ctx_written_load [OF assms] ctx_load_cong [of U "ctx_save_all U s" "ctx_written U s"]
    env_get_saved [OF assms(1)] by (simp add: fun_eq_iff)

lemma ctx_saved_ctx: "st_ctx (ctx_save_all U s) = (st_ctx s)\<lparr>dirty := False\<rparr>"
  by (simp add: ctx_save_all_eq upd_ctx_def ctx_written_eq)

text \<open>The editors keep the settings valid.\<close>

lemma boot_edit_valid: "ctx_valid c \<Longrightarrow> ctx_valid (snd (boot_edit k (sel, c)))"
  by (auto simp: boot_enter_def ctx_valid_def kh_boot_defs Let_def)

lemma hw_edit_valid: "ctx_valid c \<Longrightarrow> ctx_valid (snd (hw_edit n k (sel, c)))"
  by (auto simp: ctx_valid_def)

lemma fold_edit_valid:
  assumes "\<And>k sel c. ctx_valid c \<Longrightarrow> ctx_valid (snd (f k (sel, c)))"
  shows "ctx_valid (snd x) \<Longrightarrow> ctx_valid (snd (fold f ks x))"
proof (induction ks arbitrary: x)
  case (Cons k ks)
  then show ?case using assms [of "snd x" k "fst x"] by simp
qed simp

lemma edits_until_esc_valid:
  assumes "edits_until_esc f (\<lambda>(sel', c) s'. st_env s' = e \<and> st_ctx s' = c) (sel, c) keys r"
    and "\<And>k sel c. ctx_valid c \<Longrightarrow> ctx_valid (snd (f k (sel, c)))" and "ctx_valid c"
  shows "st_env (res_state r) = e \<and> ctx_valid (st_ctx (res_state r)) \<and> (\<forall>s'. r \<noteq> Left s')"
proof -
  have valid: "ctx_valid (snd (fold f ks (sel, c)))" for ks
    by (rule fold_edit_valid [where f = f and x = "(sel, c)"]) (use assms(2,3) in simp_all)
  show ?thesis
  proof (cases r)
    case (Done p ks s')
    with assms(1) obtain pre where "st_env s' = e" "st_ctx s' = snd (fold f pre (sel, c))"
      by (auto simp: edits_until_esc_def split_beta)
    with valid [of pre] Done show ?thesis by simp
  next
    case (Waits s')
    with assms(1) valid [of keys] show ?thesis
      by (cases "fold f keys (sel, c)") (simp add: edits_until_esc_def)
  qed (use assms(1) in \<open>simp add: edits_until_esc_def\<close>)
qed

section \<open>What a run does to the environment\<close>

text \<open>
  Boards and commands of the Advanced page that leave the environment's variables alone, so
  that what remains is what the menu itself does.
\<close>

definition keeps_env :: "('e \<Rightarrow> ('v, 'e) outcome) \<Rightarrow> bool" where
  "keeps_env f \<longleftrightarrow> (\<forall>e. final_state (f e) = e)"

definition ops_keep_env :: "('e bios_state \<Rightarrow> (int, 'e bios_state) outcome) option \<Rightarrow> bool" where
  "ops_keep_env g \<longleftrightarrow> (\<forall>f s. g = Some f \<longrightarrow>
     st_env (final_state (f s)) = st_env s \<and> st_ctx (final_state (f s)) = st_ctx s)"

definition adv_keeps_env :: "'e uboot \<Rightarrow> 'e board_ops option \<Rightarrow> bool" where
  "adv_keeps_env U B \<longleftrightarrow>
     keeps_env (x_cli_loop U) \<and> (\<forall>cmd. keeps_env (x_run_command U cmd)) \<and>
     (\<forall>ops. B = Some ops \<longrightarrow> ops_keep_env (ops_enter_fastboot ops) \<and> ops_keep_env (ops_enter_download ops))"

lemma run_command_same_mem:
  assumes "keeps_env (x_run_command U cmd)"
  shows "same_mem s (final_state (run_command U cmd s))"
proof -
  have "final_state (x_run_command U cmd (st_env s)) = st_env s"
    using assms by (simp add: keeps_env_def)
  then show ?thesis
    by (cases "x_run_command U cmd (st_env s)") (simp_all add: run_command_def same_mem_def Let_def)
qed

lemma enter_cli_same_mem:
  assumes "adv_keeps_env U B"
  shows "same_mem s (final_state (kh_bios_enter_cli U s))"
proof -
  have "final_state (x_cli_loop U (st_env s)) = st_env s"
    using assms by (simp add: adv_keeps_env_def keeps_env_def)
  then show ?thesis
    by (cases "x_cli_loop U (st_env s)") (simp_all add: kh_bios_enter_cli_def same_mem_def Let_def)
qed

lemma enter_other_same_mem:
  assumes "adv_keeps_env U B"
  shows "same_mem s (final_state (kh_bios_enter_fastboot U B s))"
    and "same_mem s (final_state (kh_bios_enter_rockusb U B s))"
  using assms run_command_same_mem [of U]
  by (auto simp: adv_keeps_env_def ops_keep_env_def kh_bios_enter_fastboot_def
      kh_bios_enter_rockusb_def same_mem_def split: option.split)

text \<open>
  A result reached from the environment \<open>e\<close>: it is unchanged, or a configuration with
  valid settings was saved and the machine reset.
\<close>

fun run_ok :: "'e uboot \<Rightarrow> 'e board_ops option \<Rightarrow> 'e \<Rightarrow> ('v, 'e) ui_result \<Rightarrow> bool" where
  "run_ok U B e (Waits s') \<longleftrightarrow> st_env s' = e \<and> ctx_valid (st_ctx s')"
| "run_ok U B e (Done v ks s') \<longleftrightarrow> st_env s' = e \<and> ctx_valid (st_ctx s')"
| "run_ok U B e (Left s') \<longleftrightarrow> st_env s' = e \<or> (\<exists>s0. st_env s0 = e \<and> ctx_valid (st_ctx s0) \<and>
     s' = final_state (kh_bios_exit_reboot U B True (ctx_save_all U s0) :: (unit, 'e bios_state) outcome))"

lemma run_ok_map_done [simp]: "run_ok U B e (map_done f r) = run_ok U B e r"
  by (cases r) simp_all

lemma discard_env: "st_env (final_state (kh_bios_exit_reboot U B False s)) = st_env s"
  by (simp add: kh_bios_exit_reboot_def)

lemma page_main_run_ok:
  assumes "ctx_valid (st_ctx s)"
  shows "run_ok U B (st_env s) (page_main U B sel keys s)"
proof -
  have "run_ok U B (st_env s) r" if "main_ok U B keys s r" for r
  proof (cases r)
    case (Left s')
    with that obtain s0 where s0: "st_env s0 = st_env s" "st_ctx s0 = st_ctx s"
      "s' = final_state (kh_bios_exit_reboot U B False s0 :: (unit, 'a bios_state) outcome) \<or>
       s' = final_state (kh_bios_exit_reboot U B True (ctx_save_all U s0) :: (unit, 'a bios_state) outcome)"
      by (auto simp: same_mem_def)
    then show ?thesis using Left assms discard_env [of U B s0] by auto
  qed (use that assms in \<open>auto simp: same_mem_def\<close>)
  with page_main_ok show ?thesis by blast
qed

lemma page_adv_run_ok:
  assumes "adv_keeps_env U B"
  shows "ctx_valid (st_ctx s) \<Longrightarrow> run_ok U B (st_env s) (page_advanced U B ec sel keys s)"
  using assms
proof (induction U B ec sel keys s rule: page_advanced.induct)
  case (1 U B ec sel keys s)
  have mem: "same_mem s (res_state (wait_key keys (draw_adv B (kh_bios_menu_adv_count B) sel s)))"
    by (rule wait_key_same_mem) simp
  show ?case
  proof (cases "wait_key keys (draw_adv B (kh_bios_menu_adv_count B) sel s)")
    case (Waits s1)
    with mem "1.prems" show ?thesis
      by (simp add: page_advanced.simps [of U B ec sel keys s] same_mem_def)
  next
    case (Done key ks s1)
    from mem Done "1.prems" have s1: "st_env s1 = st_env s" "ctx_valid (st_ctx s1)"
      by (simp_all add: same_mem_def)
    note IH = "1.IH" [OF refl Done]
    have out: "st_env (final_state m) = st_env s \<and> ctx_valid (st_ctx (final_state m))"
      if "same_mem s1 (final_state m)" for m :: "(int, 'a bios_state) outcome"
      using that s1 by (simp add: same_mem_def)
    note fb = out [OF enter_other_same_mem(1) [OF "1.prems"(2)]]
    note rk = out [OF enter_other_same_mem(2) [OF "1.prems"(2)]]
    note cli = out [OF enter_cli_same_mem [OF "1.prems"(2)]]
    show ?thesis
      unfolding page_advanced.simps [of U B ec sel keys s] Let_def Done ui_result.case
      using IH s1 fb rk cli "1.prems"
      by (auto split: outcome.split)
  qed simp
qed


lemma security_same_mem:
  "same_mem s (res_state (kh_bios_page_security hvb keys s)) \<and>
   (\<forall>s'. kh_bios_page_security hvb keys s \<noteq> Left s')"
proof -
  have "same_mem s s0 \<Longrightarrow> same_mem s (res_state (security_wait keys s0)) \<and> (\<forall>s'. security_wait keys s0 \<noteq> Left s')" for s0
    by (induction keys s0 rule: security_wait.induct) (auto simp: Let_def)
  then show ?thesis by (simp add: kh_bios_page_security_def)
qed

lemma run_okI:
  assumes "st_env (res_state r) = e" and "ctx_valid (st_ctx (res_state r))" and "\<forall>s'. r \<noteq> Left s'"
  shows "run_ok U B e r"
  using assms by (cases r) auto

lemma run_page_run_ok:
  assumes A: "adv_keeps_env U B" and T: "no_toggle B" and v: "ctx_valid (st_ctx s)"
  shows "run_ok U B (st_env s) (run_page U B hvb page ec keys s)"
proof -
  have "run_ok U B (st_env s) (page_boot keys s)"
    unfolding page_boot_def
    using edits_until_esc_valid [where f = boot_edit, OF boot_loop_edits [OF refl] boot_edit_valid v]
    by (blast intro: run_okI)
  moreover have "run_ok U B (st_env s) (page_hardware U B keys s)"
    unfolding page_hardware_def split_beta Let_def
    using edits_until_esc_valid [where f = "hw_edit (snd (hw_init B s))", OF hw_loop_edits [OF T refl] hw_edit_valid v]
    by (blast intro: run_okI)
  moreover have "run_ok U B (st_env s) (kh_bios_page_security hvb keys s)"
    using security_same_mem [of s hvb keys] v by (intro run_okI) (simp_all add: same_mem_def)
  ultimately show ?thesis
    using page_main_run_ok [OF v] page_adv_run_ok [OF A v] v by (simp add: run_page_def)
qed

lemma page_loop_run_ok:
  assumes "adv_keeps_env U B" and "no_toggle B"
  shows "ctx_valid (st_ctx s) \<Longrightarrow> run_ok U B (st_env s) (page_loop U B hvb page ec keys s)"
  using assms
proof (induction U B hvb page ec keys s rule: page_loop.induct)
  case (1 U B hvb page ec keys s)
  show ?case
  proof (cases "page \<ge> 0")
    case False
    with "1.prems" show ?thesis by (simp add: page_loop.simps [of U B hvb page])
  next
    case True
    have ok: "run_ok U B (st_env s) (run_page U B hvb page ec keys s)"
      by (rule run_page_run_ok) (use "1.prems" in auto)
    show ?thesis
    proof (cases "run_page U B hvb page ec keys s")
      case (Done pe ks s1)
      obtain p ec' where pe: "pe = (p, ec')" by fastforce
      from ok Done have s1: "st_env s1 = st_env s" "ctx_valid (st_ctx s1)" by simp_all
      from "1.IH" [OF True Done [unfolded pe] refl] s1 "1.prems"
      have "run_ok U B (st_env s) (page_loop U B hvb p ec' ks s1)" by simp
      with True Done pe show ?thesis by (simp add: page_loop.simps [of U B hvb page ec keys s])
    qed (use ok True in \<open>simp_all add: page_loop.simps [of U B hvb page ec keys s]\<close>)
  qed
qed

section \<open>Moving the cursor of the main menu\<close>

lemma page_main_down:
  assumes "0 \<le> sel" and "sel + int n < kh_bios_menu_main_count B"
  shows "\<exists>s'. page_main U B sel (replicate n KH_KEY_DOWN @ ks) s = page_main U B (sel + int n) ks s' \<and>
     same_mem s s'"
  using assms
proof (induction n arbitrary: sel s)
  case 0
  show ?case by (rule exI [of _ s]) simp
next
  case (Suc n)
  let ?s1 = "emits [WatchdogReset, KbdRefresh, PollKey, Mdelay 10] (draw_main B (kh_bios_menu_main_count B) sel s)"
  from Suc.IH [of "sel + 1" ?s1] Suc.prems obtain s' where
    "page_main U B (sel + 1) (replicate n KH_KEY_DOWN @ ks) ?s1 = page_main U B (sel + 1 + int n) ks s'"
    "same_mem ?s1 s'" by auto
  moreover have "page_main U B sel (replicate (Suc n) KH_KEY_DOWN @ ks) s =
      page_main U B (sel + 1) (replicate n KH_KEY_DOWN @ ks) ?s1"
    using Suc.prems by (simp add: page_main.simps [of U B sel "KH_KEY_DOWN # _"] Let_def)
  moreover have "same_mem s ?s1" by simp
  ultimately show ?case by (metis same_mem_trans add.assoc add.commute of_nat_Suc)
qed

lemma page_main_enter_wait:
  "wait_key (KH_KEY_ENTER # ks) s = Done KH_KEY_ENTER ks (emits [WatchdogReset, KbdRefresh, PollKey, Mdelay 10] s)"
  by (simp add: Let_def)

lemma main_item_nth:
  "i < length (visible_main B) \<Longrightarrow> kh_bios_menu_main_item B (int i) = Some (visible_main B ! i)"
  by (simp add: kh_bios_menu_main_item_def main_item_loop_eq visible_main_def nth_opt_def)

lemma main_count_visible: "kh_bios_menu_main_count B = int (length (visible_main B))"
  by (simp add: kh_bios_menu_main_count_def main_count_loop_eq visible_main_def)

lemma page_main_choose:
  assumes "i < length (visible_main B)"
  shows "\<exists>s'. same_mem s s' \<and>
     page_main U B 0 (replicate i KH_KEY_DOWN @ KH_KEY_ENTER # ks) s =
       (case mi_action (visible_main B ! i) of
          KH_MAIN_ACT_NONE \<Rightarrow> Done (mi_page (visible_main B ! i)) ks s'
        | KH_MAIN_ACT_INFO \<Rightarrow>
            (case show_sys_info B ks s' of
               Waits s2 \<Rightarrow> Waits s2 | Left s2 \<Rightarrow> Left s2 | Done u ks2 s2 \<Rightarrow> page_main U B (int i) ks2 s2)
        | KH_MAIN_ACT_SAVE_EXIT \<Rightarrow> leave (kh_bios_exit_reboot U B True (ctx_save_all U s'))
        | KH_MAIN_ACT_DISCARD_EXIT \<Rightarrow> leave (kh_bios_exit_reboot U B False s'))"
proof -
  from page_main_down [of 0 i B U "KH_KEY_ENTER # ks" s] assms obtain s1 where
    s1: "page_main U B 0 (replicate i KH_KEY_DOWN @ KH_KEY_ENTER # ks) s =
      page_main U B (int i) (KH_KEY_ENTER # ks) s1" "same_mem s s1"
    by (auto simp: main_count_visible)
  let ?s2 = "emits [WatchdogReset, KbdRefresh, PollKey, Mdelay 10] (draw_main B (kh_bios_menu_main_count B) (int i) s1)"
  have "same_mem s ?s2" using s1(2) by (simp add: same_mem_def) (metis same_mem_def same_mem_draw(1) same_mem_refl)
  then show ?thesis
    unfolding s1(1) page_main.simps [of U B "int i" "KH_KEY_ENTER # ks"] Let_def page_main_enter_wait
    by (intro exI [of _ ?s2]) (simp add: main_item_nth [OF assms] split: kh_main_action.split)
qed

section \<open>Instances for the witnesses\<close>

definition full_ops :: "env_maps board_ops" where
  "full_ops = hook_ops\<lparr>features := 0x1F\<rparr>"

lemma full_ops_ok: "adv_keeps_env map_uboot (Some full_ops)" "no_toggle (Some full_ops)"
  "recovery_hook_ok map_uboot (Some full_ops)"
  by (simp_all add: adv_keeps_env_def keeps_env_def map_uboot_def ops_keep_env_def full_ops_def
      hook_ops_def no_toggle_def recovery_hook_ok_def)

lemma visible_main_full: "visible_main (Some full_ops) = main_menu_table"
  by (simp add: visible_main_def main_menu_table_def feat_ok_def board_features_def full_ops_def
      kh_feat_defs)

lemma empty_ctx_valid: "ctx_valid empty_ctx"
  by (simp add: ctx_valid_def empty_ctx_def kh_boot_defs)

section \<open>Properties\<close>

text \<open>
  C19. What is saved is what the next session loads: for valid settings, saving them all and
  then loading gives the same four settings back, with nothing left to save.
\<close>

theorem saved_settings_reload:
  assumes "env_ok U" and "ctx_valid (st_ctx s)"
  shows "st_ctx (ctx_load U (ctx_save_all U s)) = (st_ctx s)\<lparr>dirty := False\<rparr>"
  by (rule ctx_saved_load [OF assms])

theorem saved_settings_reload_witness:
  "st_ctx (ctx_load map_uboot (ctx_save_all map_uboot
     (map_state\<lparr>st_ctx := \<lparr>dirty = True, default_boot = 1, once_recovery = True, gmac0 = 0, gmac1 = 1\<rparr>\<rparr>))) =
   \<lparr>dirty = False, default_boot = 1, once_recovery = True, gmac0 = 0, gmac1 = 1\<rparr>"
  using saved_settings_reload [OF map_uboot_ok(1), of "map_state\<lparr>st_ctx :=
      \<lparr>dirty = True, default_boot = 1, once_recovery = True, gmac0 = 0, gmac1 = 1\<rparr>\<rparr>"]
  by (simp add: ctx_valid_def kh_boot_defs)

text \<open>
  C1. The menu writes the environment only through Save: whatever keys are pressed, a run
  that is still waiting or has returned has left the environment as it was, and one that has
  reset the machine either left it as it was too or saved a configuration whose settings are
  all valid. This holds for a board without a toggle operation of its own whose Advanced
  commands do not touch the environment.
\<close>

theorem run_writes_env_only_by_saving:
  assumes "adv_keeps_env U B" and "no_toggle B"
  shows "case kh_bios_run U B hvb keys s of
      Waits s' \<Rightarrow> st_env s' = st_env s \<and> ctx_valid (st_ctx s')
    | Done rc ks s' \<Rightarrow> st_env s' = st_env s \<and> ctx_valid (st_ctx s')
    | Left s' \<Rightarrow> st_env s' = st_env s \<or>
        (\<exists>s0. st_env s0 = st_env s \<and> ctx_valid (st_ctx s0) \<and>
           s' = final_state (kh_bios_exit_reboot U B True (ctx_save_all U s0) :: (unit, 'e bios_state) outcome))"
proof -
  have "run_ok U B (st_env s) (kh_bios_run U B hvb keys s)"
  proof -
    have "run_ok U B (st_env s) (page_loop U B hvb KH_PAGE_MAIN 0 keys s0)"
      if "st_env s0 = st_env s" "ctx_valid (st_ctx s0)" for s0
      using page_loop_run_ok [OF assms, of s0] that by simp
    then show ?thesis using ctx_load_valid [of U] by (simp add: kh_bios_run_def Let_def)
  qed
  then show ?thesis by (cases "kh_bios_run U B hvb keys s") simp_all
qed

theorem run_writes_env_only_by_saving_witness:
  "case kh_bios_run map_uboot (Some full_ops) False [KH_KEY_DOWN, KH_KEY_ENTER, KH_KEY_DOWN, KH_KEY_ENTER] map_state of
      Waits s' \<Rightarrow> st_env s' = st_env map_state \<and> ctx_valid (st_ctx s')
    | Done rc ks s' \<Rightarrow> st_env s' = st_env map_state \<and> ctx_valid (st_ctx s')
    | Left s' \<Rightarrow> st_env s' = st_env map_state \<or>
        (\<exists>s0. st_env s0 = st_env map_state \<and> ctx_valid (st_ctx s0) \<and>
           s' = final_state (kh_bios_exit_reboot map_uboot (Some full_ops) True (ctx_save_all map_uboot s0)
                  :: (unit, env_maps bios_state) outcome))"
  by (rule run_writes_env_only_by_saving [OF full_ops_ok(1,2)])

text \<open>
  The boot page is an editor of the settings: for every sequence of polled keys the page
  ends at the first Esc, back to the main page with the rest of the input, and otherwise
  still waits; the settings are those of the pure editor \<open>boot_edit\<close> run over the keys
  before that, and the environment is not touched.
\<close>

theorem page_boot_refines_editor:
  "case page_boot keys s of
      Done p ks s' \<Rightarrow> p = KH_PAGE_MAIN \<and> st_env s' = st_env s \<and>
        (\<exists>pre. keys = pre @ KH_KEY_ESC # ks \<and> KH_KEY_ESC \<notin> set pre \<and>
           st_ctx s' = snd (fold boot_edit pre (default_boot (st_ctx s), st_ctx s)))
    | Waits s' \<Rightarrow> KH_KEY_ESC \<notin> set keys \<and> st_env s' = st_env s \<and>
        st_ctx s' = snd (fold boot_edit keys (default_boot (st_ctx s), st_ctx s))
    | Left s' \<Rightarrow> False"
  using boot_loop_edits [OF refl, of s "default_boot (st_ctx s)" keys]
  by (auto simp: page_boot_def edits_until_esc_def split_beta split: ui_result.split)

text \<open>
  The hardware page of a board without a toggle operation is an editor too: over the
  board's lines (two when it gives none) the cursor stays inside, Enter flips the first
  network switch on the first line and the second one on any other, and only Esc leaves.
\<close>

theorem page_hardware_refines_editor:
  assumes "no_toggle B"
  shows "case page_hardware U B keys s of
      Done p ks s' \<Rightarrow> p = KH_PAGE_MAIN \<and> st_env s' = st_env s \<and>
        (\<exists>pre. keys = pre @ KH_KEY_ESC # ks \<and> KH_KEY_ESC \<notin> set pre \<and>
           st_ctx s' = snd (fold (hw_edit (snd (hw_init B s))) pre (0, st_ctx s)))
    | Waits s' \<Rightarrow> KH_KEY_ESC \<notin> set keys \<and> st_env s' = st_env s \<and>
        st_ctx s' = snd (fold (hw_edit (snd (hw_init B s))) keys (0, st_ctx s))
    | Left s' \<Rightarrow> False"
  using hw_loop_edits [OF assms refl, of "snd (hw_init B s)" s 0 keys U "fst (hw_init B s)"]
  by (auto simp: page_hardware_def edits_until_esc_def split_beta Let_def split: ui_result.split)

theorem page_hardware_refines_editor_witness:
  "\<exists>s'. page_hardware map_uboot (Some full_ops) [KH_KEY_ENTER, KH_KEY_ESC] map_state = Done KH_PAGE_MAIN [] s' \<and>
        gmac0 (st_ctx s') = 1 \<and> gmac1 (st_ctx s') = 0"
proof -
  have "no_toggle (Some full_ops)" by (rule full_ops_ok(2))
  note h = page_hardware_refines_editor [OF this, where U = map_uboot and keys = "[KH_KEY_ENTER, KH_KEY_ESC]" and s = map_state]
  have pre: "pre = [KH_KEY_ENTER] \<and> ks = []"
    if "[KH_KEY_ENTER, KH_KEY_ESC] = pre @ KH_KEY_ESC # ks" for pre ks
    using that by (cases pre; cases "tl pre") auto
  show ?thesis
    using h by (cases "page_hardware map_uboot (Some full_ops) [KH_KEY_ENTER, KH_KEY_ESC] map_state")
      (auto dest!: pre simp: map_state_def empty_ctx_def)
qed

text \<open>
  Pressing Down \<open>i\<close> times and Enter on the main menu acts on the i-th item the
  board's features allow: a page item opens its page with the rest of the input and the
  settings and environment untouched, Save stores the settings and resets, Discard resets.
\<close>

theorem main_menu_chooses_item:
  assumes "i < length (visible_main B)"
  shows "\<exists>s'. st_env s' = st_env s \<and> st_ctx s' = st_ctx s \<and>
     (case mi_action (visible_main B ! i) of
        KH_MAIN_ACT_NONE \<Rightarrow>
          page_main U B 0 (replicate i KH_KEY_DOWN @ KH_KEY_ENTER # ks) s = Done (mi_page (visible_main B ! i)) ks s'
      | KH_MAIN_ACT_INFO \<Rightarrow> True
      | KH_MAIN_ACT_SAVE_EXIT \<Rightarrow>
          page_main U B 0 (replicate i KH_KEY_DOWN @ KH_KEY_ENTER # ks) s =
            Left (final_state (kh_bios_exit_reboot U B True (ctx_save_all U s') :: (unit, 'e bios_state) outcome))
      | KH_MAIN_ACT_DISCARD_EXIT \<Rightarrow>
          page_main U B 0 (replicate i KH_KEY_DOWN @ KH_KEY_ENTER # ks) s =
            Left (final_state (kh_bios_exit_reboot U B False s' :: (unit, 'e bios_state) outcome)))"
  using page_main_choose [OF assms, of s U ks]
  by (auto simp: same_mem_def leave_def split: kh_main_action.split)

theorem main_menu_chooses_item_witness:
  "\<exists>s'. st_env s' = st_env map_state \<and>
     page_main map_uboot (Some full_ops) 0 [KH_KEY_DOWN, KH_KEY_ENTER, KH_KEY_ESC] map_state =
       Done KH_PAGE_BOOT [KH_KEY_ESC] s'"
  using main_menu_chooses_item [of 1 "Some full_ops" map_state map_uboot "[KH_KEY_ESC]"]
  by (auto simp: visible_main_full main_menu_table_def)

text \<open>
  The main menu only opens pages the board has: whatever is pressed, a page it returns
  is one of the four sub-pages, and the boot, hardware and security pages only with their
  feature bit.
\<close>

theorem main_menu_opens_allowed_pages:
  assumes "page_main U B sel keys s = Done p ks s'"
  shows "p \<in> {KH_PAGE_BOOT, KH_PAGE_HARDWARE, KH_PAGE_SECURITY, KH_PAGE_ADVANCED} \<and>
     (p = KH_PAGE_BOOT \<longrightarrow> feat_ok B KH_BIOS_FEAT_BOOT_MENU) \<and>
     (p = KH_PAGE_HARDWARE \<longrightarrow> feat_ok B KH_BIOS_FEAT_HW_MENU) \<and>
     (p = KH_PAGE_SECURITY \<longrightarrow> feat_ok B KH_BIOS_FEAT_SECURITY) \<and>
     length ks < length keys"
proof -
  from page_main_ok [of U B keys s sel] assms obtain item where
    "item \<in> set main_menu_table" "feat_ok B (mi_required_feat item)" "mi_action item = KH_MAIN_ACT_NONE"
    "p = mi_page item" "length ks < length keys" by (auto simp: visible_main_def)
  then show ?thesis by (auto simp: main_menu_table_def kh_page_defs)
qed

theorem main_menu_opens_allowed_pages_witness:
  "\<exists>s'. page_main map_uboot (Some full_ops) 0 [KH_KEY_DOWN, KH_KEY_ENTER] map_state = Done KH_PAGE_BOOT [] s' \<and>
     feat_ok (Some full_ops) KH_BIOS_FEAT_BOOT_MENU"
proof -
  from page_main_choose [of 1 "Some full_ops" map_state map_uboot "[]"] obtain s' where
    s': "page_main map_uboot (Some full_ops) 0 [KH_KEY_DOWN, KH_KEY_ENTER] map_state = Done KH_PAGE_BOOT [] s'"
    by (auto simp: visible_main_full main_menu_table_def)
  from main_menu_opens_allowed_pages [OF this] s' show ?thesis by blast
qed

lemma stored_apply:
  "storage_ok U \<Longrightarrow> x_env_stored U (st_env (kh_bios_env_apply_boot_choice U s)) = x_env_stored U (st_env s)"
  by (simp add: kh_bios_env_apply_boot_choice_def env_setter_defs storage_ok_def)

lemma stored_after_save:
  assumes "env_ok U" and "storage_ok U" and "recovery_hook_ok U B" and "fst (x_env_save U (st_env (ctx_written U s))) = 0"
  shows "x_env_stored U (st_env (final_state (kh_bios_exit_reboot U B True (ctx_save_all U s)))) =
    env_get U (ctx_written U s)"
proof -
  let ?s1 = "emit (Printf ''[kh_bios] %s, cold reset now'' [AStr ''configuration saved'']) (ctx_save_all U s)"
  have "x_env_stored U (st_env (final_state (kh_bios_exit_reboot U B True (ctx_save_all U s)))) =
      x_env_stored U (st_env (kh_bios_env_apply_boot_choice U ?s1))"
    using call_set_recovery_next_env [OF assms(3)] by (simp add: kh_bios_exit_reboot_def Let_def)
  also have "\<dots> = x_env_stored U (st_env (ctx_save_all U s))"
    by (simp add: stored_apply [OF assms(2)])
  also have "\<dots> = x_env_stored U (snd (x_env_save U (st_env (ctx_written U s))))"
    by (simp add: ctx_save_all_eq upd_ctx_def kh_bios_env_save_def split_beta)
  also have "\<dots> = env_get U (ctx_written U s)"
    using assms(2,4) by (auto simp: storage_ok_def env_get_def)
  finally show ?thesis .
qed

text \<open>Leaving with a one-time recovery wanted: the board's hook is called, then the line is flushed and the machine reset.\<close>

lemma exit_calls_hook:
  assumes "kh_bios_env_get_once_recovery U s"
  shows "\<exists>t. env_get U t = env_get U (kh_bios_env_apply_boot_choice U s) \<and>
    kh_bios_exit_reboot U B True s = Leaves (emits (Flushc # reset_events U) (call_set_recovery_next B True t))"
proof -
  let ?s1 = "emit (Printf ''[kh_bios] %s, cold reset now'' [AStr ''configuration saved'']) s"
  have "want_recovery U ?s1" using assms by (simp add: want_recovery_def env_getter_defs)
  moreover have "env_get U (kh_bios_env_apply_boot_choice U ?s1) = env_get U (kh_bios_env_apply_boot_choice U s)"
    by (simp add: kh_bios_env_apply_boot_choice_def env_getter_defs env_setter_defs env_get_def env_set_def fun_eq_iff)
  ultimately show ?thesis
    by (intro exI [of _ "kh_bios_env_apply_boot_choice U ?s1"])
      (simp add: kh_bios_exit_reboot_def cold_reset_eq Let_def emit_def emits_def)
qed

text \<open>
  C35. The one-time recovery request outlives the reset it was made for. Saving with the
  request on stores it with the rest. Leaving then hands the recovery to the boot loader, by
  \<open>reboot_mode\<close> and by the board's recovery hook, after which it only flushes the line and resets, and
  clears the request, but only in RAM, which the reset throws away: the stored copy, which
  the next start reads, still has the request on. Assumed is that this save of the environment succeeds
  (its result is not looked at by the code), that what is set is read back and what is saved is what is
  set (\<open>env_ok\<close>, \<open>storage_ok\<close>), and that the board's hook, if it has one, leaves the variables alone.
\<close>

theorem once_recovery_stays_stored:
  assumes "env_ok U" and "storage_ok U" and "recovery_hook_ok U B" and "fst (x_env_save U (st_env (ctx_written U s))) = 0"
    and "once_recovery (st_ctx s)"
  shows "\<exists>s'. kh_bios_exit_reboot U B True (ctx_save_all U s) = (Leaves s' :: (unit, 'e bios_state) outcome) \<and>
     env_get U s' ''reboot_mode'' = Some ''recovery'' \<and>
     (\<forall>ops hook. B = Some ops \<longrightarrow> set_recovery_next ops = Some hook \<longrightarrow>
        (\<exists>t. env_get U t ''reboot_mode'' = Some ''recovery'' \<and> s' = emits (Flushc # reset_events U) (snd (hook t)))) \<and>
     \<not> kh_bios_env_get_once_recovery U s' \<and>
     x_env_stored U (st_env s') ENV_ONCE_RECOVERY = Some ''1''"
proof -
  let ?r = "kh_bios_exit_reboot U B True (ctx_save_all U s) :: (unit, 'e bios_state) outcome"
  let ?s1 = "ctx_save_all U s"
  have once: "kh_bios_env_get_once_recovery U ?s1"
    using assms(1,5) by (simp add: env_getter_defs env_get_saved ctx_written_eq env_setter_defs env_get_set env_name_defs)
  from exit_calls_hook [OF once, of B] obtain t where
    t: "env_get U t = env_get U (kh_bios_env_apply_boot_choice U ?s1)"
      "?r = Leaves (emits (Flushc # reset_events U) (call_set_recovery_next B True t))" by blast
  let ?s' = "emits (Flushc # reset_events U) (call_set_recovery_next B True t)"
  have mode: "env_get U t ''reboot_mode'' = Some ''recovery''" "\<not> kh_bios_env_get_once_recovery U t"
    using assms(1) once unfolding kh_bios_env_get_once_recovery_def t(1)
    by (simp_all add: kh_bios_env_apply_boot_choice_def env_getter_defs env_setter_defs env_get_set env_name_defs)
  have same: "env_get U ?s' = env_get U t"
    using call_set_recovery_next_env [OF assms(3)] by (simp add: env_get_def fun_eq_iff)
  have "x_env_stored U (st_env ?s') ENV_ONCE_RECOVERY = env_get U (ctx_written U s) ENV_ONCE_RECOVERY"
    using stored_after_save [OF assms(1-4)] t(2) by (metis final_state.simps(2))
  also have "\<dots> = Some ''1''"
    using assms(1,5) by (simp add: ctx_written_eq env_setter_defs env_get_set env_name_defs)
  finally have "x_env_stored U (st_env ?s') ENV_ONCE_RECOVERY = Some ''1''" .
  moreover have "\<not> kh_bios_env_get_once_recovery U ?s'" using mode(2) same by (simp add: kh_bios_env_get_once_recovery_def)
  moreover have "\<exists>t. env_get U t ''reboot_mode'' = Some ''recovery'' \<and> ?s' = emits (Flushc # reset_events U) (snd (hook t))"
    if "B = Some ops" "set_recovery_next ops = Some hook" for ops hook
    using that mode(1) by (intro exI [of _ t]) (simp add: call_set_recovery_next_def)
  ultimately show ?thesis using t(2) mode(1) same by (intro exI [of _ ?s']) auto
qed

theorem once_recovery_stays_stored_witness:
  "\<exists>s'. kh_bios_exit_reboot map_uboot (Some full_ops) True (ctx_save_all map_uboot
           (map_state\<lparr>st_ctx := empty_ctx\<lparr>once_recovery := True\<rparr>\<rparr>)) =
          (Leaves s' :: (unit, env_maps bios_state) outcome) \<and>
     env_get map_uboot s' ''reboot_mode'' = Some ''recovery'' \<and>
     \<not> kh_bios_env_get_once_recovery map_uboot s' \<and> snd (st_env s') ''kh_once_recovery'' = Some ''1''"
proof -
  have sv: "fst (x_env_save map_uboot e) = 0" for e by (simp add: map_uboot_def)
  have st: "x_env_stored map_uboot = snd" by (simp add: map_uboot_def)
  show ?thesis
    using once_recovery_stays_stored [OF map_uboot_ok full_ops_ok(3) sv,
        of "map_state\<lparr>st_ctx := empty_ctx\<lparr>once_recovery := True\<rparr>\<rparr>"]
    by (auto simp add: ENV_ONCE_RECOVERY_def st)
qed

end
