(* ===== verification/KhBios_Screen.thy ===== *)
theory KhBios_Screen imports KhBios_Draw KhBios_UI begin

text \<open>
  The menu and the screen together: the drawing entries a run of the menu logs, carried out
  by the drawing operations of \<open>KhBios_Draw\<close>, in order.
\<close>

definition show_event ::
  "ui_config \<Rightarrow> video_font \<Rightarrow> 'e board_ops option \<Rightarrow> bios_event \<Rightarrow> ui_state \<Rightarrow> ui_state option" where
  "show_event C F B ev u =
     (case ev of
        UiTakeover \<Rightarrow> map_option snd (kh_bios_ui_display_takeover C u)
      | UiRestore \<Rightarrow> Some (kh_bios_ui_display_restore C u)
      | UiDrawInit \<Rightarrow> Some (snd (kh_bios_ui_draw_init C u))
      | UiTitle t \<Rightarrow> kh_bios_ui_draw_title C F B (Some t) u
      | UiLine row col t hl \<Rightarrow> kh_bios_ui_draw_line C F row col t hl u
      | UiFooter t \<Rightarrow> kh_bios_ui_draw_footer C F (Some t) u
      | _ \<Rightarrow> Some u)"

definition show_log ::
  "ui_config \<Rightarrow> video_font \<Rightarrow> 'e board_ops option \<Rightarrow> bios_event list \<Rightarrow> ui_state \<Rightarrow> ui_state option" where
  "show_log C F B evs u = fold_option (show_event C F B) evs u"

text \<open>
  A screen with memory for the full resolution: what the takeover needs, and every operation
  keeps.
\<close>

definition screen_ok :: "ui_config \<Rightarrow> ui_state \<Rightarrow> bool" where
  "screen_ok C u \<longleftrightarrow>
     (cfg_video C \<longrightarrow> geom_ok (vid_priv u) \<and> (\<exists>px. fb (vid_priv u) = Some px \<and> 1920 * 1080 \<le> length px))"

lemma painted_length:
  assumes "painted m vp vp'" and "\<exists>px. fb vp = Some px \<and> n \<le> length px"
  shows "\<exists>px. fb vp' = Some px \<and> n \<le> length px"
proof -
  from assms(1) obtain px px' where "fb vp = Some px" "vp' = vp\<lparr>fb := Some px'\<rparr>" "length px' = length px"
    unfolding painted_def by blast
  with assms(2) show ?thesis by simp
qed

lemma screen_ok_cong: "vid_priv u' = vid_priv u \<Longrightarrow> screen_ok C u' = screen_ok C u"
  by (simp add: screen_ok_def)

lemma screen_ok_emit [simp]: "screen_ok C (ui_emit ev u) = screen_ok C u"
    "screen_ok C (bios_video_sync u) = screen_ok C u"
  by (rule screen_ok_cong, simp)+

lemma on_vid_screen_ok:
  assumes "only_paints A f" and "screen_ok C u" and "cfg_video C"
  shows "\<exists>u'. on_vid f u = Some u' \<and> screen_ok C u'"
proof -
  have g: "geom_ok (vid_priv u)" "\<exists>px. fb (vid_priv u) = Some px \<and> 1920 * 1080 \<le> length px"
    using assms(2,3) by (simp_all add: screen_ok_def)
  from on_vid_paints [OF assms(1) g(1)] obtain u' m where
    u': "on_vid f u = Some u'" "painted m (vid_priv u) (vid_priv u')" by blast
  moreover have "screen_ok C u'"
    using g(1) painted_same(5) [OF u'(2)] painted_length [OF u'(2) g(2)]
    unfolding screen_ok_def by blast
  ultimately show ?thesis by blast
qed

lemma any_text_paints: "0 < font_width F \<Longrightarrow> only_paints (\<lambda>_. True) (draw_text F x y t fg bg)"
  by (rule text_only_paints) simp_all

lemma takeover_screen_ok:
  assumes "screen_ok C u"
  shows "\<exists>rc u'. kh_bios_ui_display_takeover C u = Some (rc, u') \<and> screen_ok C u'"
proof (cases "cfg_video C \<and> cfg_drm_rockchip C \<and> vid_device C")
  case False
  with assms show ?thesis by (auto simp: kh_bios_ui_display_takeover_def)
next
  case True
  with assms obtain px where px: "fb (vid_priv u) = Some px" "1920 * 1080 \<le> length px"
    by (auto simp: screen_ok_def)
  let ?u = "ui_emit (ShowFbbase BIOS_FB_W BIOS_FB_H 32)
    (u\<lparr>ui_vid := True, vid_priv := takeover_geometry (vid_priv u)\<rparr>)"
  have "screen_ok C ?u"
    using px by (simp add: screen_ok_def geom_ok_def takeover_geometry_def BIOS_FB_W_def BIOS_FB_H_def)
  moreover have "only_paints (\<lambda>_. True) (fb_fill_rect 0 0 BIOS_FB_W BIOS_FB_H C_BLUE)"
    by (rule fill_rect_only_paints) simp
  ultimately obtain u' where "on_vid (fb_fill_rect 0 0 BIOS_FB_W BIOS_FB_H C_BLUE) ?u = Some u'" "screen_ok C u'"
    using on_vid_screen_ok True by blast
  with True px show ?thesis by (simp add: kh_bios_ui_display_takeover_def Let_def)
qed

lemma video_priv_screen_ok: "bios_video_priv C u = (ok, u1) \<Longrightarrow> screen_ok C u1 = screen_ok C u"
  by (rule screen_ok_cong) (simp add: video_priv_frame)

lemma title_screen_ok:
  assumes "screen_ok C u" and "0 < font_width F"
  shows "\<exists>u'. kh_bios_ui_draw_title C F B (Some t) u = Some u' \<and> screen_ok C u'"
proof (cases "cfg_video C")
  case False
  then show ?thesis using assms by (simp add: kh_bios_ui_draw_title_def)
next
  case True
  obtain ok u1 where u1: "bios_video_priv C u = (ok, u1)" by fastforce
  let ?u2 = "u1\<lparr>ui_page_title := snprintf_buf 64 t\<rparr>"
  have ok1: "screen_ok C u1" using assms(1) video_priv_screen_ok [OF u1] by simp
  have "screen_ok C ?u2 = screen_ok C u1" by (rule screen_ok_cong) simp
  with ok1 have "screen_ok C ?u2" by simp
  from on_vid_screen_ok [OF chrome_only_paints [OF assms(2)] this True] ok1 show ?thesis
    using True u1 by (fastforce simp: kh_bios_ui_draw_title_def Let_def)
qed

lemma footer_screen_ok:
  assumes "screen_ok C u" and "0 < font_width F"
  shows "\<exists>u'. kh_bios_ui_draw_footer C F (Some t) u = Some u' \<and> screen_ok C u'"
proof (cases "cfg_video C")
  case False
  then show ?thesis using assms by (simp add: kh_bios_ui_draw_footer_def)
next
  case True
  obtain ok u1 where u1: "bios_video_priv C u = (ok, u1)" by fastforce
  have ok1: "screen_ok C u1" using assms(1) video_priv_screen_ok [OF u1] by simp
  from on_vid_screen_ok [OF any_text_paints [OF assms(2)] this True] ok1 show ?thesis
    using True u1 by (fastforce simp: kh_bios_ui_draw_footer_def Let_def)
qed

lemma line_screen_ok:
  assumes "screen_ok C u" and "0 < font_width F"
  shows "\<exists>u'. kh_bios_ui_draw_line C F row col t hl u = Some u' \<and> screen_ok C u'"
proof (cases "cfg_video C")
  case False
  then show ?thesis using assms by (simp add: kh_bios_ui_draw_line_def)
next
  case True
  obtain ok u1 where u1: "bios_video_priv C u = (ok, u1)" by fastforce
  have ok1: "screen_ok C u1" using assms(1) video_priv_screen_ok [OF u1] by simp
  have bar: "only_paints (\<lambda>_. True) (\<lambda>vp. do {
           vp \<leftarrow> fb_fill_rect x' y' w h color vp; draw_text F x y l fg bg vp })" for x' y' w h color x y l fg bg
    by (rule only_paints_bind [OF fill_rect_only_paints any_text_paints [OF assms(2)]]) simp
  show ?thesis
    using True u1 ok1 on_vid_screen_ok [OF any_text_paints [OF assms(2)] ok1 True]
      on_vid_screen_ok [OF bar ok1 True]
    by (cases ok; cases t; cases hl) (simp_all add: kh_bios_ui_draw_line_def Let_def)
qed

lemma show_event_screen_ok:
  assumes "screen_ok C u" and "0 < font_width F"
  shows "\<exists>u'. show_event C F B ev u = Some u' \<and> screen_ok C u'"
proof (cases ev)
  case UiTakeover
  with takeover_screen_ok [OF assms(1)] show ?thesis by (auto simp: show_event_def)
next
  case UiRestore
  with assms(1) show ?thesis by (simp add: show_event_def kh_bios_ui_display_restore_def Let_def)
next
  case UiDrawInit
  obtain ok u1 where "bios_video_priv C u = (ok, u1)" by fastforce
  with UiDrawInit assms(1) video_priv_screen_ok [OF this] show ?thesis
    by (simp add: show_event_def kh_bios_ui_draw_init_def)
next
  case (UiTitle t)
  with title_screen_ok [OF assms] show ?thesis by (simp add: show_event_def)
next
  case (UiLine row col t hl)
  with line_screen_ok [OF assms] show ?thesis by (simp add: show_event_def)
next
  case (UiFooter t)
  with footer_screen_ok [OF assms] show ?thesis by (simp add: show_event_def)
qed (use assms in \<open>simp_all add: show_event_def\<close>)

lemma show_log_screen_ok:
  "screen_ok C u \<Longrightarrow> 0 < font_width F \<Longrightarrow> \<exists>u'. show_log C F B evs u = Some u' \<and> screen_ok C u'"
proof (induction evs arbitrary: u)
  case Nil
  then show ?case by (simp add: show_log_def)
next
  case (Cons ev evs)
  from show_event_screen_ok [OF Cons.prems] obtain u1 where
    "show_event C F B ev u = Some u1" "screen_ok C u1" by auto
  with Cons.IH [of u1] Cons.prems show ?case by (simp add: show_log_def)
qed

section \<open>Properties\<close>

text \<open>
  C31. No run of the menu draws outside the frame buffer: whatever keys are pressed, whatever
  texts the board supplies and whichever page is shown, carrying out all drawing of the run
  on a screen that has memory for 1920 by 1080 pixels succeeds and leaves such a screen.
\<close>

theorem menu_drawing_stays_in_buffer:
  assumes "screen_ok C u" and "0 < font_width F"
  shows "\<exists>u'. show_log C F B (st_log (res_state (kh_bios_run U B hvb keys s))) u = Some u' \<and> screen_ok C u'"
  by (rule show_log_screen_ok [OF assms])

theorem menu_drawing_stays_in_buffer_witness:
  "\<exists>u'. show_log hdmi_config box_font (Some full_ops)
          (st_log (res_state (kh_bios_run map_uboot (Some full_ops) False [KH_KEY_DOWN, KH_KEY_ENTER] map_state)))
          (small_ui (Some (replicate 2073600 0))) = Some u'"
proof -
  have "screen_ok hdmi_config (small_ui (Some (replicate 2073600 0)))"
    by (simp add: screen_ok_def small_ui_def small_screen_def geom_ok_def)
  from menu_drawing_stays_in_buffer [OF this, of box_font "Some full_ops" map_uboot False
      "[KH_KEY_DOWN, KH_KEY_ENTER]" map_state]
  show ?thesis by (auto simp: box_font_def)
qed

end
