(* ===== verification/KhBios_Hotkey.thy ===== *)
theory KhBios_Hotkey imports KhBios_Base "HOL-Library.Sublist" begin

text \<open>
  \<open>src/oh_bios/uboot_bios/core/kh_bios_hotkey.c\<close>: the keys. Bytes of the UART and of the
  USB keyboard become \<open>kh_bios_key\<close>s (\<open>kh_bios_poll_key\<close>), the bytes of the F10 escape
  sequence are recognised by a matcher kept between calls (\<open>esc_state_feed\<close>), and
  \<open>kh_bios_wait_f10\<close> runs the countdown before the boot.

  The devices are not part of the repository: the record \<open>input_ops\<close> is what the code calls
  of them, each a function on an opaque device state \<open>'i\<close> (a call may take time, so it
  returns the state after it). The build options the file tests are fields of the record.
\<close>

section \<open>What the code calls of the devices\<close>

record 'i input_ops =
  cfg_debug_uart :: bool
  cfg_adc :: bool
  cfg_dm_key :: bool
  cfg_usb_keyboard :: bool
  cfg_dm_usb :: bool
  cfg_dm_video :: bool
  cfg_console_mux :: bool
  in_adc :: "'i \<Rightarrow> (int \<times> nat) \<times> 'i"
  in_volume_up :: "'i \<Rightarrow> bool \<times> 'i"
  in_dbg_init :: "'i \<Rightarrow> 'i"
  in_dbg_tstc :: "'i \<Rightarrow> bool \<times> 'i"
  in_dbg_getc :: "'i \<Rightarrow> char \<times> 'i"
  in_ser_tstc :: "'i \<Rightarrow> bool \<times> 'i"
  in_ser_getc :: "'i \<Rightarrow> char \<times> 'i"
  in_cur_serial :: "string option"
  in_uart2 :: "string option"
  in_iomux :: "string \<Rightarrow> int"
  in_kbd_present :: "'i \<Rightarrow> bool"
  in_kbd_tstc :: "('i \<Rightarrow> int \<times> 'i) option"
  in_kbd_getc :: "('i \<Rightarrow> char \<times> 'i) option"
  in_usb_power_on :: "'i \<Rightarrow> 'i"
  in_usb_init :: "'i \<Rightarrow> int \<times> 'i"
  in_kbd_init :: "'i \<Rightarrow> int \<times> 'i"
  in_mdelay :: "nat \<Rightarrow> 'i \<Rightarrow> 'i"
  in_now :: "'i \<Rightarrow> nat \<times> 'i"
  in_vidcon :: bool
  in_serial_addr :: int
  in_debug_uart_base :: int
  in_baudrate :: int
  in_enodev :: int

datatype hk_event =
  HkPrintf string "arg list"
| HkEnvStdin string
| HkWatchdog
| HkVidPutc int int char

record 'i hk_state =
  f10_match :: nat
  usb_kbd_ready :: bool
  bios_uart_dev :: "string option"
  hk_dev :: 'i
  hk_log :: "hk_event list"

definition hk_emit :: "hk_event \<Rightarrow> 'i hk_state \<Rightarrow> 'i hk_state" where
  "hk_emit ev s = s\<lparr>hk_log := hk_log s @ [ev]\<rparr>"

definition hk_call :: "('i \<Rightarrow> 'v \<times> 'i) \<Rightarrow> 'i hk_state \<Rightarrow> 'v \<times> 'i hk_state" where
  "hk_call f s = (let (v, d) = f (hk_dev s) in (v, s\<lparr>hk_dev := d\<rparr>))"

definition hk_do :: "('i \<Rightarrow> 'i) \<Rightarrow> 'i hk_state \<Rightarrow> 'i hk_state" where
  "hk_do f s = s\<lparr>hk_dev := f (hk_dev s)\<rparr>"

section \<open>The serial line\<close>

definition bios_serial_init :: "'i input_ops \<Rightarrow> 'i hk_state \<Rightarrow> 'i hk_state" where
  "bios_serial_init X s =
     (let s1 = (case bios_uart_dev s of
                  None \<Rightarrow> (case in_cur_serial X of Some d \<Rightarrow> s\<lparr>bios_uart_dev := Some d\<rparr> | None \<Rightarrow> s)
                | Some d \<Rightarrow> s);
          s2 = (case bios_uart_dev s1 of None \<Rightarrow> s1\<lparr>bios_uart_dev := in_uart2 X\<rparr> | Some d \<Rightarrow> s1)
      in case bios_uart_dev s2 of
           None \<Rightarrow> s2
         | Some name \<Rightarrow>
             let stdin_cfg = snprintf_buf 48 (name @ '',usbkbd'');
                 s3 = hk_emit (HkEnvStdin stdin_cfg) s2
             in if cfg_console_mux X \<and> in_iomux X stdin_cfg = 0
                then hk_emit (HkPrintf ''[kh_bios] stdin mux: %s'' [AStr stdin_cfg]) s3
                else s3)"

fun rx_flush_loop :: "'i input_ops \<Rightarrow> nat \<Rightarrow> int \<Rightarrow> 'i hk_state \<Rightarrow> int \<times> 'i hk_state" where
  "rx_flush_loop X 0 flushed s = (flushed, snd (hk_call (in_dbg_tstc X) s))"
| "rx_flush_loop X (Suc room) flushed s =
     (let (t, s1) = hk_call (in_dbg_tstc X) s in
      if t
      then let (c, s2) = hk_call (in_dbg_getc X) s1
           in rx_flush_loop X room (flushed + 1)
                (hk_emit (HkPrintf ''[kh_bios] uart flush 0x%02x'' [AInt (of_char c)]) s2)
      else (flushed, s1))"

definition bios_serial_rx_arm :: "'i input_ops \<Rightarrow> 'i hk_state \<Rightarrow> 'i hk_state" where
  "bios_serial_rx_arm X s =
     (if cfg_debug_uart X
      then let s1 = hk_do (in_mdelay X 20) (hk_do (in_dbg_init X) s);
               (flushed, s2) = rx_flush_loop X 64 0 s1
           in hk_emit (HkPrintf ''[kh_bios] press B during countdown (not during USB init)'' [])
                (hk_emit (HkPrintf ''[kh_bios] UART RX ready @0x%lx %u baud, flushed %d''
                   [AInt (if in_serial_addr X \<noteq> 0 then in_serial_addr X else in_debug_uart_base X),
                    AInt (in_baudrate X), AInt flushed]) s2)
      else s)"

definition bios_stdin_tstc :: "'i input_ops \<Rightarrow> 'i hk_state \<Rightarrow> bool \<times> 'i hk_state" where
  "bios_stdin_tstc X s =
     (if cfg_debug_uart X then hk_call (in_dbg_tstc X) s
      else case bios_uart_dev s of
             Some d \<Rightarrow> hk_call (in_ser_tstc X) s
           | None \<Rightarrow> (False, s))"

definition bios_stdin_getc :: "'i input_ops \<Rightarrow> 'i hk_state \<Rightarrow> char \<times> 'i hk_state" where
  "bios_stdin_getc X s =
     (if cfg_debug_uart X then hk_call (in_dbg_getc X) s
      else case bios_uart_dev s of
             Some d \<Rightarrow> (let (t, s1) = hk_call (in_ser_tstc X) s in
                        if t then hk_call (in_ser_getc X) s1 else (CHR 0x00, s1))
           | None \<Rightarrow> (CHR 0x00, s))"

definition bios_board_key_tstc :: "'i input_ops \<Rightarrow> 'i hk_state \<Rightarrow> bool \<times> 'i hk_state" where
  "bios_board_key_tstc X s =
     (let (adc, s1) =
            (if cfg_adc X
             then let ((rc, val), s1) = hk_call (in_adc X) s in
                  if rc = 0 \<and> val \<le> 30
                  then (True, hk_emit (HkPrintf ''[kh_bios] volume/recovery key (adc=%u)'' [AInt (int val)]) s1)
                  else (False, s1)
             else (False, s))
      in if adc then (True, s1)
         else if cfg_dm_key X then hk_call (in_volume_up X) s1
         else (False, s1))"

section \<open>The F10 matcher\<close>

definition F10_SEQ :: string where "F10_SEQ = [CHR 0x1B, CHR ''['', CHR ''2'', CHR ''1'', CHR ''~'']"
definition F10_SEQ_LEN :: nat where "F10_SEQ_LEN = 5"

definition esc_state_reset :: "'i hk_state \<Rightarrow> 'i hk_state" where
  "esc_state_reset s = s\<lparr>f10_match := 0\<rparr>"

definition esc_state_feed :: "char \<Rightarrow> 'i hk_state \<Rightarrow> bool \<times> 'i hk_state" where
  "esc_state_feed c s =
     (if c = byte_at F10_SEQ (f10_match s)
      then let s1 = s\<lparr>f10_match := f10_match s + 1\<rparr>
           in if f10_match s1 \<ge> F10_SEQ_LEN then (True, s1\<lparr>f10_match := 0\<rparr>) else (False, s1)
      else (False, s\<lparr>f10_match := (if c = byte_at F10_SEQ 0 then 1 else 0)\<rparr>))"

section \<open>The keyboard and the merged input\<close>

definition bios_usb_key_tstc :: "'i input_ops \<Rightarrow> 'i hk_state \<Rightarrow> bool \<times> 'i hk_state" where
  "bios_usb_key_tstc X s =
     (if \<not> in_kbd_present X (hk_dev s) then (False, s)
      else case in_kbd_tstc X of
             None \<Rightarrow> (False, s)
           | Some f \<Rightarrow> (let (n, s1) = hk_call f s in (n > 0, s1)))"

definition bios_usb_key_getc :: "'i input_ops \<Rightarrow> 'i hk_state \<Rightarrow> char \<times> 'i hk_state" where
  "bios_usb_key_getc X s =
     (if \<not> in_kbd_present X (hk_dev s) then (CHR 0x00, s)
      else case in_kbd_getc X of
             None \<Rightarrow> (CHR 0x00, s)
           | Some f \<Rightarrow> hk_call f s)"

definition bios_usb_kbd_attach :: "'i input_ops \<Rightarrow> 'i hk_state \<Rightarrow> int \<times> 'i hk_state" where
  "bios_usb_kbd_attach X s =
     (if usb_kbd_ready s then (0, s)
      else if \<not> in_kbd_present X (hk_dev s) then (- in_enodev X, s)
      else (0, hk_emit (HkPrintf ''[kh_bios] USB keyboard ready'' []) (s\<lparr>usb_kbd_ready := True\<rparr>)))"

definition is_enter_key :: "char \<Rightarrow> bool" where
  "is_enter_key c \<longleftrightarrow> c = CHR ''b'' \<or> c = CHR ''B''"

text \<open>The two loops of \<open>bios_drain_enter_keys\<close>; a loop whose device never runs dry is \<open>None\<close>.\<close>

partial_function (option) drain_uart ::
  "'i input_ops \<Rightarrow> bool \<Rightarrow> 'i hk_state \<Rightarrow> (bool \<times> 'i hk_state) option" where
  "drain_uart X enter s =
     (case bios_stdin_tstc X s of (t, s1) \<Rightarrow>
      if \<not> t then Some (enter, s1)
      else (case bios_stdin_getc X s1 of (c, s2) \<Rightarrow>
            (case esc_state_feed c s2 of (f, s3) \<Rightarrow>
             drain_uart X (enter \<or> is_enter_key c \<or> f) s3)))"

partial_function (option) drain_usb ::
  "'i input_ops \<Rightarrow> bool \<Rightarrow> 'i hk_state \<Rightarrow> (bool \<times> 'i hk_state) option" where
  "drain_usb X enter s =
     (case (if usb_kbd_ready s then bios_usb_key_tstc X s else (False, s)) of (t, s1) \<Rightarrow>
      if \<not> t then Some (enter, s1)
      else (case bios_usb_key_getc X s1 of (c, s2) \<Rightarrow>
            (case esc_state_feed c s2 of (f, s3) \<Rightarrow>
             drain_usb X (enter \<or> is_enter_key c \<or> f) s3)))"

definition bios_drain_enter_keys ::
  "'i input_ops \<Rightarrow> 'i hk_state \<Rightarrow> (bool \<times> 'i hk_state) option" where
  "bios_drain_enter_keys X s =
     Option.bind (drain_uart X False s) (\<lambda>(enter, s1). drain_usb X enter s1)"

definition bios_key_tstc :: "'i input_ops \<Rightarrow> 'i hk_state \<Rightarrow> bool \<times> 'i hk_state" where
  "bios_key_tstc X s =
     (let (b, s1) = bios_board_key_tstc X s in
      if b then (True, s1)
      else let (t, s2) = bios_stdin_tstc X s1 in
      if t then (True, s2)
      else if usb_kbd_ready s2 then bios_usb_key_tstc X s2 else (False, s2))"

definition bios_key_getc :: "'i input_ops \<Rightarrow> 'i hk_state \<Rightarrow> char \<times> 'i hk_state" where
  "bios_key_getc X s =
     (let (u, s1) = (if usb_kbd_ready s then bios_usb_key_tstc X s else (False, s)) in
      if u then bios_usb_key_getc X s1
      else let (t, s2) = bios_stdin_tstc X s1 in
      if t then bios_stdin_getc X s2 else (CHR 0x00, s2))"

section \<open>USB start\<close>

fun attach_loop :: "'i input_ops \<Rightarrow> nat \<Rightarrow> 'i hk_state \<Rightarrow> 'i hk_state" where
  "attach_loop X 0 s = s"
| "attach_loop X (Suc tries) s =
     (let (rc, s1) = bios_usb_kbd_attach X s in
      if rc \<noteq> 0 then attach_loop X tries (hk_do (in_mdelay X 50) s1) else s1)"

definition bios_usb_keyboard_start :: "'i input_ops \<Rightarrow> 'i hk_state \<Rightarrow> int \<times> 'i hk_state" where
  "bios_usb_keyboard_start X s =
     (if cfg_usb_keyboard X
      then let s1 = hk_emit (HkPrintf ''[kh_bios] initializing USB (host 5V / hub)...'' []) s;
               s2 = hk_do (in_mdelay X 800) (hk_do (in_usb_power_on X) s1);
               (ret, s3) = hk_call (in_usb_init X) s2
           in if ret \<noteq> 0
              then (ret, hk_emit (HkPrintf ''[kh_bios] usb init failed (%d), serial B still works'' [AInt ret]) s3)
              else let (ret2, s4) = (if cfg_dm_usb X then (0, s3) else hk_call (in_kbd_init X) s3)
                   in if ret2 \<noteq> 0 then (ret2, s4)
                      else let s5 = attach_loop X 120 s4
                           in (0, if \<not> usb_kbd_ready s5
                                  then hk_emit (HkPrintf ''[kh_bios] no USB keyboard, use serial B for BIOS'' []) s5
                                  else s5)
      else (0, hk_emit (HkPrintf ''[kh_bios] USB keyboard disabled, press B on serial for BIOS'' []) s))"

section \<open>Polling a key\<close>

definition poll_csi :: "'i input_ops \<Rightarrow> 'i hk_state \<Rightarrow> kh_bios_key \<times> 'i hk_state" where
  "poll_csi X s =
     (let (t, s1) = bios_key_tstc X s in
      if \<not> t then (KH_KEY_ESC, s1)
      else let (c, s2) = bios_key_getc X s1 in
      if c = CHR ''['' then
        (let (t2, s3) = bios_key_tstc X s2 in
         if \<not> t2 then (KH_KEY_ESC, s3)
         else let (c2, s4) = bios_key_getc X s3 in
         if c2 = CHR ''A'' then (KH_KEY_UP, s4)
         else if c2 = CHR ''B'' then (KH_KEY_DOWN, s4)
         else if c2 = CHR ''C'' then (KH_KEY_RIGHT, s4)
         else if c2 = CHR ''D'' then (KH_KEY_LEFT, s4)
         else (KH_KEY_ESC, s4))
      else (KH_KEY_ESC, s2))"

definition kh_bios_poll_key :: "'i input_ops \<Rightarrow> 'i hk_state \<Rightarrow> kh_bios_key \<times> 'i hk_state" where
  "kh_bios_poll_key X s =
     (let (b, s1) = bios_board_key_tstc X s in
      if b then (KH_KEY_F10, s1)
      else let (t, s2) = bios_key_tstc X s1 in
      if \<not> t then (KH_KEY_NONE, s2)
      else let (c, s3) = bios_key_getc X s2; (f, s4) = esc_state_feed c s3 in
      if f then (KH_KEY_F10, s4)
      else if c = CHR 0x1B then poll_csi X s4
      else if c = CHR 0x0D \<or> c = CHR 0x0A then (KH_KEY_ENTER, s4)
      else if is_enter_key c then (KH_KEY_F10, s4)
      else (KH_KEY_NONE, s4))"

partial_function (option) flush_loop :: "'i input_ops \<Rightarrow> 'i hk_state \<Rightarrow> 'i hk_state option" where
  "flush_loop X s =
     (case bios_key_tstc X s of (t, s1) \<Rightarrow>
      if \<not> t then Some s1
      else (case bios_key_getc X s1 of (c, s2) \<Rightarrow> flush_loop X s2))"

definition kh_bios_flush_input :: "'i input_ops \<Rightarrow> 'i hk_state \<Rightarrow> 'i hk_state option" where
  "kh_bios_flush_input X s = flush_loop X (esc_state_reset s)"

definition kh_bios_usb_kbd_refresh :: "'i input_ops \<Rightarrow> 'i hk_state \<Rightarrow> 'i hk_state" where
  "kh_bios_usb_kbd_refresh X s = snd (bios_usb_kbd_attach X s)"

section \<open>The countdown\<close>

definition vid_puts :: "string \<Rightarrow> 'i hk_state \<Rightarrow> 'i hk_state" where
  "vid_puts t s = fold (\<lambda>i. hk_emit (HkVidPutc (40 + int i * 8) 620 (t ! i))) [0..<length t] s"

definition bios_draw_countdown :: "'i input_ops \<Rightarrow> int \<Rightarrow> 'i hk_state \<Rightarrow> 'i hk_state" where
  "bios_draw_countdown X sec s =
     (if cfg_dm_video X
      then if \<not> in_vidcon X then s
           else vid_puts (snprintf_buf 64 (''F10 or B (USB/UART) '' @ pad_left 2 (dec_of_int sec) @ '' ''))
                  (vid_puts (snprintf_buf 64 ''                    '') s)
      else hk_emit (HkPrintf ''[kh_bios] F10 (USB) or B (serial) (%2d) '' [AInt sec]) s)"

text \<open>
  One second of waiting: \<open>Some b\<close> when the wait is decided (\<open>b\<close>: enter the setup
  utility), \<open>None\<close> when the second is over.
\<close>

partial_function (option) wait_second ::
  "'i input_ops \<Rightarrow> nat \<Rightarrow> 'i hk_state \<Rightarrow> (bool option \<times> 'i hk_state) option" where
  "wait_second X start s =
     (case hk_call (in_now X) s of (now, s1) \<Rightarrow>
      if \<not> (now - start < 1000) then Some (None, s1)
      else (case bios_usb_kbd_attach X s1 of (rc, s2) \<Rightarrow>
            (case bios_board_key_tstc X s2 of (b, s3) \<Rightarrow>
             if b then Some (Some True, s3)
             else Option.bind (bios_drain_enter_keys X s3) (\<lambda>(e, s4).
               if e then Some (Some True, s4)
               else (case kh_bios_poll_key X s4 of (key, s5) \<Rightarrow>
                     if key = KH_KEY_F10 then Some (Some True, s5)
                     else if key = KH_KEY_ENTER \<or> key = KH_KEY_ESC then Some (Some False, s5)
                     else wait_second X start (hk_do (in_mdelay X 1) s5))))))"

definition countdown_head :: "'i input_ops \<Rightarrow> int \<Rightarrow> 'i hk_state \<Rightarrow> 'i hk_state" where
  "countdown_head X sec s =
     (let s1 = bios_draw_countdown X sec (hk_emit HkWatchdog s);
          (t, s2) = bios_stdin_tstc X s1
      in hk_emit (HkPrintf ''[kh_bios] enter BIOS: F10/B, %d sec (usb=%d uart=%d)''
           [AInt sec, AInt (of_bool (usb_kbd_ready s1)), AInt (of_bool t)]) s2)"

partial_function (option) countdown ::
  "'i input_ops \<Rightarrow> int \<Rightarrow> nat \<Rightarrow> 'i hk_state \<Rightarrow> (bool \<times> 'i hk_state) option" where
  "countdown X sec start s =
     (if \<not> (sec \<ge> 0)
      then Some (False, if cfg_dm_video X then s else hk_emit (HkPrintf [CHR 0x0A] []) s)
      else Option.bind (bios_drain_enter_keys X (countdown_head X sec s)) (\<lambda>(e, s2).
             if e then Some (True, s2)
             else Option.bind
                    (wait_second X start (if usb_kbd_ready s2 then s2 else snd (bios_usb_kbd_attach X s2)))
                    (\<lambda>(d, s3). case d of
                        Some b \<Rightarrow> Some (b, s3)
                      | None \<Rightarrow> (case hk_call (in_now X) s3 of (start2, s4) \<Rightarrow>
                                 countdown X (sec - 1) start2 s4))))"

definition kh_bios_wait_f10 ::
  "'i input_ops \<Rightarrow> int \<Rightarrow> 'i hk_state \<Rightarrow> (bool \<times> 'i hk_state) option" where
  "kh_bios_wait_f10 X delay_sec s =
     (let s1 = (esc_state_reset s)\<lparr>usb_kbd_ready := False\<rparr>;
          s2 = hk_emit (HkPrintf ''[kh_bios] USB init then %d sec for F10/USB-B or serial-B'' [AInt delay_sec]) s1;
          s3 = bios_serial_init X s2;
          s4 = snd (bios_usb_keyboard_start X s3);
          s5 = bios_serial_rx_arm X s4;
          (start, s6) = hk_call (in_now X) s5
      in countdown X delay_sec start s6)"

section \<open>The matcher against the sequence\<close>

definition feeds :: "string \<Rightarrow> 'i hk_state \<Rightarrow> 'i hk_state" where
  "feeds cs s = fold (\<lambda>c s. snd (esc_state_feed c s)) cs s"

lemma feeds_snoc: "feeds (cs @ [c]) s = snd (esc_state_feed c (feeds cs s))"
  by (simp add: feeds_def)

text \<open>
  The matcher's state after the bytes \<open>cs\<close>: the length of the longest proper prefix of
  the sequence that \<open>cs\<close> ends in.
\<close>

definition f10_matched :: "string \<Rightarrow> nat \<Rightarrow> bool" where
  "f10_matched cs k \<longleftrightarrow>
     k < 5 \<and> (\<forall>j \<le> 4. suffix (take j F10_SEQ) cs \<longrightarrow> j \<le> k) \<and> suffix (take k F10_SEQ) cs"

declare suffix_snoc [simp del]

lemma f10_inj: "i < 5 \<Longrightarrow> j < 5 \<Longrightarrow> byte_at F10_SEQ i = byte_at F10_SEQ j \<Longrightarrow> i = j"
proof -
  have "distinct F10_SEQ" "length F10_SEQ = 5" by (simp_all add: F10_SEQ_def)
  then show "i < 5 \<Longrightarrow> j < 5 \<Longrightarrow> byte_at F10_SEQ i = byte_at F10_SEQ j \<Longrightarrow> i = j"
    by (simp add: byte_at_def nth_eq_iff_index_eq)
qed

lemma f10_take_snoc:
  "i < 5 \<Longrightarrow> suffix (take (Suc i) F10_SEQ) (cs @ [c]) \<longleftrightarrow>
     byte_at F10_SEQ i = c \<and> suffix (take i F10_SEQ) cs"
proof -
  assume i: "i < 5"
  have "length F10_SEQ = 5" by (simp add: F10_SEQ_def)
  with i have "take (Suc i) F10_SEQ = take i F10_SEQ @ [byte_at F10_SEQ i]"
    by (simp add: take_Suc_conv_app_nth byte_at_def)
  then show ?thesis by (simp add: suffix_snoc)
qed

lemma f10_take_snoc':
  "j \<le> 5 \<Longrightarrow> suffix (take j F10_SEQ) (cs @ [c]) \<Longrightarrow>
     j = 0 \<or> (\<exists>i. j = Suc i \<and> byte_at F10_SEQ i = c \<and> suffix (take i F10_SEQ) cs)"
  by (cases j) (simp_all add: f10_take_snoc)

lemma f10_full: "suffix F10_SEQ (cs @ [c]) \<longleftrightarrow> byte_at F10_SEQ 4 = c \<and> suffix (take 4 F10_SEQ) cs"
  using f10_take_snoc [of 4 cs c] by (simp add: F10_SEQ_def)

lemma f10_exclusive:
  assumes "0 < i" "i \<le> 5" "suffix (take i F10_SEQ) cs" "0 < j" "j \<le> 5" "suffix (take j F10_SEQ) cs"
  shows "i = j"
proof -
  from assms obtain i' j' where ij: "i = Suc i'" "j = Suc j'"
    by (metis Suc_pred')
  have "length F10_SEQ = 5" by (simp add: F10_SEQ_def)
  with assms ij have "cs \<noteq> []" by (auto simp: suffix_def)
  then obtain cs' c where cs: "cs = cs' @ [c]" by (cases cs rule: rev_cases) auto
  with assms ij have "byte_at F10_SEQ i' = c" "byte_at F10_SEQ j' = c"
    by (auto simp: f10_take_snoc)
  with f10_inj [of i' j'] assms ij show ?thesis by simp
qed

lemma feed_matched:
  assumes "f10_matched cs (f10_match s)"
  shows "f10_matched (cs @ [c]) (f10_match (snd (esc_state_feed c s)))"
    and "fst (esc_state_feed c s) \<longleftrightarrow> suffix F10_SEQ (cs @ [c])"
proof -
  let ?k = "f10_match s"
  from assms have k: "?k < 5" and max: "\<And>j. j \<le> 4 \<Longrightarrow> suffix (take j F10_SEQ) cs \<Longrightarrow> j \<le> ?k"
    and suf: "suffix (take ?k F10_SEQ) cs" by (auto simp: f10_matched_def)
  note snocD = f10_take_snoc'
  have "f10_matched (cs @ [c]) (f10_match (snd (esc_state_feed c s))) \<and>
      (fst (esc_state_feed c s) \<longleftrightarrow> suffix F10_SEQ (cs @ [c]))"
  proof (cases "c = byte_at F10_SEQ ?k")
    case hit: True
    have uniq: "i = ?k" if "byte_at F10_SEQ i = c" "i < 5" for i
      using f10_inj [of i ?k] that hit k by simp
    show ?thesis
    proof (cases "?k = 4")
      case True
      have "j \<le> 0" if "j \<le> 4" "suffix (take j F10_SEQ) (cs @ [c])" for j
        using snocD [of j cs c] that uniq True by fastforce
      with True hit suf show ?thesis
        by (auto simp: esc_state_feed_def f10_matched_def F10_SEQ_LEN_def f10_full Let_def)
    next
      case False
      have "j \<le> Suc ?k" if "j \<le> 4" "suffix (take j F10_SEQ) (cs @ [c])" for j
        using snocD [of j cs c] that uniq by fastforce
      moreover have "byte_at F10_SEQ 4 \<noteq> c" using uniq [of 4] False by auto
      ultimately show ?thesis using False hit suf k
        by (auto simp: esc_state_feed_def f10_matched_def F10_SEQ_LEN_def f10_full f10_take_snoc Let_def)
    qed
  next
    case miss: False
    have nofull: "\<not> suffix F10_SEQ (cs @ [c])"
    proof
      assume "suffix F10_SEQ (cs @ [c])"
      then have "byte_at F10_SEQ 4 = c" "?k = 4" using max [of 4] k by (auto simp: f10_full)
      with miss show False by simp
    qed
    have "j \<le> (if c = byte_at F10_SEQ 0 then 1 else 0)"
      if "j \<le> 4" "suffix (take j F10_SEQ) (cs @ [c])" for j
    proof (cases "j = 0")
      case False
      with snocD [of j cs c] that obtain i where i: "j = Suc i" "byte_at F10_SEQ i = c"
          "suffix (take i F10_SEQ) cs" by auto
      show ?thesis
      proof (cases "i = 0")
        case True
        with i show ?thesis by simp
      next
        case False
        with i that max [of i] miss have "i < ?k" by (cases "i = ?k") auto
        with f10_exclusive [of i cs ?k] False i suf k show ?thesis by simp
      qed
    qed simp
    with miss nofull show ?thesis
      using f10_take_snoc [of 0 cs c]
      by (auto simp: esc_state_feed_def f10_matched_def)
  qed
  then show "f10_matched (cs @ [c]) (f10_match (snd (esc_state_feed c s)))"
    and "fst (esc_state_feed c s) \<longleftrightarrow> suffix F10_SEQ (cs @ [c])" by simp_all
qed

lemma feeds_matched: "f10_match s = 0 \<Longrightarrow> f10_matched cs (f10_match (feeds cs s))"
proof (induction cs rule: rev_induct)
  case Nil
  then show ?case by (simp add: feeds_def f10_matched_def F10_SEQ_def)
next
  case (snoc c cs)
  then show ?case by (simp add: feeds_snoc feed_matched)
qed

section \<open>A serial line with a receive queue\<close>

text \<open>
  The documented behaviour of the devices that the key decoding relies on, for a board whose
  keys are not pressed: \<open>tstc\<close> says whether a byte is waiting, \<open>getc\<close> takes the first
  waiting byte, and asking changes nothing that is waiting (\<open>pend\<close>).
\<close>

definition uart_fifo :: "'i input_ops \<Rightarrow> ('i \<Rightarrow> char list) \<Rightarrow> bool" where
  "uart_fifo X pend \<longleftrightarrow>
     cfg_debug_uart X \<and>
     (\<forall>i. \<not> (fst (fst (in_adc X i)) = 0 \<and> snd (fst (in_adc X i)) \<le> 30) \<and>
          pend (snd (in_adc X i)) = pend i) \<and>
     (\<forall>i. \<not> fst (in_volume_up X i) \<and> pend (snd (in_volume_up X i)) = pend i) \<and>
     (\<forall>i. (fst (in_dbg_tstc X i) \<longleftrightarrow> pend i \<noteq> []) \<and> pend (snd (in_dbg_tstc X i)) = pend i) \<and>
     (\<forall>i c cs. pend i = c # cs \<longrightarrow> fst (in_dbg_getc X i) = c \<and>
          pend (snd (in_dbg_getc X i)) = cs)"

definition queue_ops :: "char list input_ops" where
  "queue_ops =
     \<lparr>cfg_debug_uart = True, cfg_adc = True, cfg_dm_key = True, cfg_usb_keyboard = True,
      cfg_dm_usb = True, cfg_dm_video = False, cfg_console_mux = True,
      in_adc = (\<lambda>i. ((0, 1000), i)), in_volume_up = (\<lambda>i. (False, i)),
      in_dbg_init = (\<lambda>i. i), in_dbg_tstc = (\<lambda>i. (i \<noteq> [], i)), in_dbg_getc = (\<lambda>i. (hd i, tl i)),
      in_ser_tstc = (\<lambda>i. (i \<noteq> [], i)), in_ser_getc = (\<lambda>i. (hd i, tl i)),
      in_cur_serial = None, in_uart2 = Some ''serial@fe660000'', in_iomux = (\<lambda>_. 0),
      in_kbd_present = (\<lambda>_. False), in_kbd_tstc = None, in_kbd_getc = None,
      in_usb_power_on = (\<lambda>i. i), in_usb_init = (\<lambda>i. (0, i)), in_kbd_init = (\<lambda>i. (0, i)),
      in_mdelay = (\<lambda>n i. i), in_now = (\<lambda>i. (0, i)), in_vidcon = False,
      in_serial_addr = 0, in_debug_uart_base = 0, in_baudrate = 1500000, in_enodev = 19\<rparr>"

definition queue_state :: "char list \<Rightarrow> char list hk_state" where
  "queue_state cs = \<lparr>f10_match = 0, usb_kbd_ready = False, bios_uart_dev = None, hk_dev = cs, hk_log = []\<rparr>"

lemma queue_ops_fifo: "uart_fifo queue_ops (\<lambda>cs. cs)"
  by (simp add: uart_fifo_def queue_ops_def)

definition hk_view :: "('i \<Rightarrow> char list) \<Rightarrow> 'i hk_state \<Rightarrow> nat \<times> bool \<times> char list" where
  "hk_view pend s = (f10_match s, usb_kbd_ready s, pend (hk_dev s))"

lemma board_key_idle:
  "uart_fifo X pend \<Longrightarrow>
   \<exists>s'. bios_board_key_tstc X s = (False, s') \<and> hk_view pend s' = hk_view pend s"
  by (auto simp: uart_fifo_def bios_board_key_tstc_def hk_call_def hk_view_def Let_def split_beta)

lemma stdin_tstc_fifo:
  "uart_fifo X pend \<Longrightarrow>
   \<exists>s'. bios_stdin_tstc X s = (pend (hk_dev s) \<noteq> [], s') \<and> hk_view pend s' = hk_view pend s"
  by (auto simp: uart_fifo_def bios_stdin_tstc_def hk_call_def hk_view_def Let_def split_beta)

lemma stdin_getc_fifo:
  "uart_fifo X pend \<Longrightarrow> pend (hk_dev s) = c # cs \<Longrightarrow>
   \<exists>s'. bios_stdin_getc X s = (c, s') \<and> hk_view pend s' = (f10_match s, usb_kbd_ready s, cs)"
  by (auto simp: uart_fifo_def bios_stdin_getc_def hk_call_def hk_view_def Let_def split_beta)

lemma key_tstc_fifo:
  assumes "uart_fifo X pend" and "\<not> usb_kbd_ready s"
  shows "\<exists>s'. bios_key_tstc X s = (pend (hk_dev s) \<noteq> [], s') \<and> hk_view pend s' = hk_view pend s"
proof -
  from board_key_idle [OF assms(1), of s] obtain s1 where
    s1: "bios_board_key_tstc X s = (False, s1)" "hk_view pend s1 = hk_view pend s" by auto
  from stdin_tstc_fifo [OF assms(1), of s1] obtain s2 where
    s2: "bios_stdin_tstc X s1 = (pend (hk_dev s1) \<noteq> [], s2)" "hk_view pend s2 = hk_view pend s1" by auto
  from s1 s2 assms(2) show ?thesis
    by (auto simp: bios_key_tstc_def hk_view_def)
qed

lemma key_getc_fifo:
  assumes "uart_fifo X pend" and "\<not> usb_kbd_ready s" and "pend (hk_dev s) = c # cs"
  shows "\<exists>s'. bios_key_getc X s = (c, s') \<and> hk_view pend s' = (f10_match s, False, cs)"
proof -
  from stdin_tstc_fifo [OF assms(1), of s] obtain s2 where
    s2: "bios_stdin_tstc X s = (True, s2)" "hk_view pend s2 = hk_view pend s"
    using assms(3) by auto
  with assms have "pend (hk_dev s2) = c # cs" by (simp add: hk_view_def)
  from stdin_getc_fifo [OF assms(1) this] s2 assms(2) show ?thesis
    by (auto simp: bios_key_getc_def hk_view_def)
qed

lemma feed_view:
  "\<exists>f m s'. esc_state_feed c s = (f, s') \<and> hk_view pend s' = (m, usb_kbd_ready s, pend (hk_dev s))"
  by (auto simp: esc_state_feed_def hk_view_def Let_def)

fun csi_key :: "char \<Rightarrow> kh_bios_key" where
  "csi_key c = (if c = CHR ''A'' then KH_KEY_UP else if c = CHR ''B'' then KH_KEY_DOWN
     else if c = CHR ''C'' then KH_KEY_RIGHT else if c = CHR ''D'' then KH_KEY_LEFT else KH_KEY_ESC)"

definition csi_decode :: "char list \<Rightarrow> kh_bios_key \<times> char list" where
  "csi_decode cs =
     (case cs of [] \<Rightarrow> (KH_KEY_ESC, [])
      | c # cs1 \<Rightarrow> if c \<noteq> CHR ''['' then (KH_KEY_ESC, cs1)
                   else case cs1 of [] \<Rightarrow> (KH_KEY_ESC, []) | c2 # cs2 \<Rightarrow> (csi_key c2, cs2))"

lemma poll_csi_fifo:
  assumes X: "uart_fifo X pend" and usb: "\<not> usb_kbd_ready s"
  shows "\<exists>s'. poll_csi X s = (fst (csi_decode (pend (hk_dev s))), s') \<and>
     hk_view pend s' = (f10_match s, False, snd (csi_decode (pend (hk_dev s))))"
proof -
  from key_tstc_fifo [OF X usb] obtain s1 where
    s1: "bios_key_tstc X s = (pend (hk_dev s) \<noteq> [], s1)" "hk_view pend s1 = hk_view pend s" by auto
  show ?thesis
  proof (cases "pend (hk_dev s)")
    case Nil
    with s1 usb show ?thesis by (simp add: poll_csi_def csi_decode_def hk_view_def)
  next
    case (Cons c cs)
    with s1 usb have v1: "\<not> usb_kbd_ready s1" "pend (hk_dev s1) = c # cs" by (simp_all add: hk_view_def)
    from key_getc_fifo [OF X v1] obtain s2 where
      s2: "bios_key_getc X s1 = (c, s2)" "hk_view pend s2 = (f10_match s1, False, cs)" by auto
    show ?thesis
    proof (cases "c = CHR ''[''")
      case False
      with s1 s2 Cons show ?thesis by (simp add: poll_csi_def csi_decode_def hk_view_def)
    next
      case True
      from s2 have v2: "\<not> usb_kbd_ready s2" by (simp add: hk_view_def)
      from key_tstc_fifo [OF X v2] obtain s3 where
        s3: "bios_key_tstc X s2 = (pend (hk_dev s2) \<noteq> [], s3)" "hk_view pend s3 = hk_view pend s2" by auto
      show ?thesis
      proof (cases cs)
        case Nil
        with s1 s2 s3 Cons True show ?thesis by (simp add: poll_csi_def csi_decode_def hk_view_def)
      next
        case (Cons c2 cs2)
        with s2 s3 have v3: "\<not> usb_kbd_ready s3" "pend (hk_dev s3) = c2 # cs2" by (simp_all add: hk_view_def)
        from key_getc_fifo [OF X v3] obtain s4 where
          "bios_key_getc X s3 = (c2, s4)" "hk_view pend s4 = (f10_match s3, False, cs2)" by auto
        with s1 s2 s3 Cons True \<open>pend (hk_dev s) = c # cs\<close> show ?thesis
          by (simp add: poll_csi_def csi_decode_def hk_view_def)
      qed
    qed
  qed
qed

lemma hk_viewD: "hk_view pend s = (m, r, cs) \<Longrightarrow> f10_match s = m \<and> usb_kbd_ready s = r \<and> pend (hk_dev s) = cs"
  by (simp add: hk_view_def)

definition poll_decode :: "nat \<Rightarrow> char list \<Rightarrow> kh_bios_key \<times> char list" where
  "poll_decode m cs =
     (case cs of [] \<Rightarrow> (KH_KEY_NONE, [])
      | c # cs1 \<Rightarrow>
          if m = 4 \<and> c = CHR ''~'' then (KH_KEY_F10, cs1)
          else if c = CHR 0x1B then csi_decode cs1
          else if c = CHR 0x0D \<or> c = CHR 0x0A then (KH_KEY_ENTER, cs1)
          else if is_enter_key c then (KH_KEY_F10, cs1)
          else (KH_KEY_NONE, cs1))"

lemma feed_full:
  assumes "f10_match s < 5"
  shows "fst (esc_state_feed c s) \<longleftrightarrow> f10_match s = 4 \<and> c = CHR ''~''"
proof -
  from assms consider "f10_match s = 4" | "f10_match s < 4" by linarith
  then show ?thesis
    by cases (auto simp: esc_state_feed_def F10_SEQ_LEN_def F10_SEQ_def byte_at_def Let_def)
qed

lemma feed_below_5: "f10_match s < 5 \<Longrightarrow> f10_match (snd (esc_state_feed c s)) < 5"
  by (auto simp: esc_state_feed_def F10_SEQ_LEN_def Let_def)

lemma f10_feeds_cong: "f10_match s = f10_match t \<Longrightarrow>
    fst (esc_state_feed c s) = fst (esc_state_feed c t) \<and>
    f10_match (snd (esc_state_feed c s)) = f10_match (snd (esc_state_feed c t))"
  by (simp add: esc_state_feed_def Let_def)

lemma poll_key_fifo:
  assumes X: "uart_fifo X pend" and usb: "\<not> usb_kbd_ready s" and m: "f10_match s < 5"
  shows "fst (kh_bios_poll_key X s) = fst (poll_decode (f10_match s) (pend (hk_dev s))) \<and>
     pend (hk_dev (snd (kh_bios_poll_key X s))) = snd (poll_decode (f10_match s) (pend (hk_dev s))) \<and>
     \<not> usb_kbd_ready (snd (kh_bios_poll_key X s)) \<and> f10_match (snd (kh_bios_poll_key X s)) < 5 \<and>
     f10_match (snd (kh_bios_poll_key X s)) = (case pend (hk_dev s) of [] \<Rightarrow> f10_match s
        | c # cs \<Rightarrow> f10_match (snd (esc_state_feed c s)))"
proof -
  from board_key_idle [OF X, of s] obtain s1 where
    s1: "bios_board_key_tstc X s = (False, s1)" "hk_view pend s1 = hk_view pend s" by auto
  with usb have usb1: "\<not> usb_kbd_ready s1" by (simp add: hk_view_def)
  from key_tstc_fifo [OF X usb1] obtain s2 where
    s2: "bios_key_tstc X s1 = (pend (hk_dev s1) \<noteq> [], s2)" "hk_view pend s2 = hk_view pend s1" by auto
  from s1 s2 have v2: "f10_match s2 = f10_match s" "\<not> usb_kbd_ready s2" "pend (hk_dev s2) = pend (hk_dev s)"
      "pend (hk_dev s1) = pend (hk_dev s)"
    using usb by (simp_all add: hk_view_def)
  show ?thesis
  proof (cases "pend (hk_dev s)")
    case Nil
    with s1 s2 v2 m show ?thesis by (simp add: kh_bios_poll_key_def poll_decode_def)
  next
    case (Cons c cs)
    with v2 have "pend (hk_dev s2) = c # cs" by simp
    from key_getc_fifo [OF X v2(2) this] obtain s3 where
      s3: "bios_key_getc X s2 = (c, s3)" "hk_view pend s3 = (f10_match s2, False, cs)" by auto
    obtain f s4 where s4: "esc_state_feed c s3 = (f, s4)" by fastforce
    from feed_view [of c s3 pend] s4 hk_viewD [OF s3(2)]
    have v4: "\<not> usb_kbd_ready s4" "pend (hk_dev s4) = cs" by (auto simp: hk_view_def)
    have m4: "f10_match s4 < 5" using feed_below_5 [of s3 c] s4 hk_viewD [OF s3(2)] v2 m by simp
    have f: "f \<longleftrightarrow> f10_match s = 4 \<and> c = CHR ''~''"
      using feed_full [of s3 c] s4 hk_viewD [OF s3(2)] v2 m by simp
    have m4': "f10_match s4 = f10_match (snd (esc_state_feed c s))"
      using f10_feeds_cong [of s3 s c] s4 hk_viewD [OF s3(2)] v2 by simp
    from poll_csi_fifo [OF X v4(1)] obtain s5 where
      s5: "poll_csi X s4 = (fst (csi_decode cs), s5)" "hk_view pend s5 = (f10_match s4, False, snd (csi_decode cs))"
      using v4(2) by auto
    show ?thesis
      using s1 s2 s3 s4 v2 v4 m4 m4' f hk_viewD [OF s5(2)] s5(1) Cons
      by (simp add: kh_bios_poll_key_def poll_decode_def feed_below_5 [OF m])
  qed
qed

section \<open>Draining and flushing\<close>

lemma feeds_Cons: "feeds (c # cs) s = feeds cs (snd (esc_state_feed c s))"
  by (simp add: feeds_def)

lemma drain_uart_fifo:
  assumes X: "uart_fifo X pend" and "\<not> usb_kbd_ready s" and "pend (hk_dev s) = cs"
    and "f10_matched done (f10_match s)"
  shows "\<exists>s'. drain_uart X enter s =
      Some (enter \<or> (\<exists>c \<in> set cs. is_enter_key c) \<or>
            (\<exists>pre post. cs = pre @ post \<and> pre \<noteq> [] \<and> suffix F10_SEQ (done @ pre)), s') \<and>
      pend (hk_dev s') = [] \<and> \<not> usb_kbd_ready s' \<and> f10_matched (done @ cs) (f10_match s')"
  using assms(2-)
proof (induction cs arbitrary: s enter "done")
  case Nil
  from stdin_tstc_fifo [OF X, of s] Nil obtain s1 where
    "bios_stdin_tstc X s = (False, s1)" "hk_view pend s1 = hk_view pend s" by auto
  with Nil show ?case by (subst drain_uart.simps) (simp add: hk_view_def)
next
  case (Cons c cs)
  from stdin_tstc_fifo [OF X, of s] Cons.prems obtain s1 where
    s1: "bios_stdin_tstc X s = (True, s1)" "hk_view pend s1 = hk_view pend s" by auto
  with Cons.prems have "pend (hk_dev s1) = c # cs" by (simp add: hk_view_def)
  from stdin_getc_fifo [OF X this] obtain s2 where
    s2: "bios_stdin_getc X s1 = (c, s2)" "hk_view pend s2 = (f10_match s1, usb_kbd_ready s1, cs)" by auto
  obtain f s3 where s3: "esc_state_feed c s2 = (f, s3)" by fastforce
  have m2: "f10_matched done (f10_match s2)" using s1 s2 Cons.prems by (simp add: hk_view_def)
  from feed_matched [OF m2, of c] s3
  have m3: "f10_matched (done @ [c]) (f10_match s3)" and f: "f \<longleftrightarrow> suffix F10_SEQ (done @ [c])" by simp_all
  from feed_view [of c s2 pend] s3 s2 s1 Cons.prems
  have v3: "\<not> usb_kbd_ready s3" "pend (hk_dev s3) = cs" by (auto simp: hk_view_def)
  have step: "drain_uart X enter s = drain_uart X (enter \<or> is_enter_key c \<or> f) s3"
    using s1 s2 s3 by (subst drain_uart.simps) simp
  from Cons.IH [OF v3 m3, of "enter \<or> is_enter_key c \<or> f"] obtain s' where
    s': "drain_uart X (enter \<or> is_enter_key c \<or> f) s3 =
      Some ((enter \<or> is_enter_key c \<or> f) \<or> (\<exists>c \<in> set cs. is_enter_key c) \<or>
            (\<exists>pre post. cs = pre @ post \<and> pre \<noteq> [] \<and> suffix F10_SEQ ((done @ [c]) @ pre)), s')"
    "pend (hk_dev s') = []" "\<not> usb_kbd_ready s'" "f10_matched ((done @ [c]) @ cs) (f10_match s')" by auto
  have "(\<exists>pre post. c # cs = pre @ post \<and> pre \<noteq> [] \<and> suffix F10_SEQ (done @ pre)) \<longleftrightarrow>
      f \<or> (\<exists>pre post. cs = pre @ post \<and> pre \<noteq> [] \<and> suffix F10_SEQ ((done @ [c]) @ pre))"
    (is "?L \<longleftrightarrow> ?R")
  proof
    assume ?L
    then obtain pre post where "c # cs = pre @ post" "pre \<noteq> []" "suffix F10_SEQ (done @ pre)" by auto
    moreover then obtain pre' where "pre = c # pre'" by (cases pre) auto
    ultimately show ?R using f by (cases "pre' = []") auto
  next
    assume ?R
    then show ?L
    proof
      assume f
      with f have "c # cs = [c] @ cs \<and> [c] \<noteq> [] \<and> suffix F10_SEQ (done @ [c])" by simp
      then show ?L by blast
    next
      assume "\<exists>pre post. cs = pre @ post \<and> pre \<noteq> [] \<and> suffix F10_SEQ ((done @ [c]) @ pre)"
      then obtain pre post where "cs = pre @ post" "suffix F10_SEQ (done @ (c # pre))" by auto
      then have "c # cs = (c # pre) @ post \<and> c # pre \<noteq> [] \<and> suffix F10_SEQ (done @ (c # pre))" by simp
      then show ?L by blast
    qed
  qed
  with step s' show ?case by (auto 0 3)
qed


lemma drain_usb_detached: "\<not> usb_kbd_ready s \<Longrightarrow> drain_usb X enter s = Some (enter, s)"
  by (subst drain_usb.simps) simp

lemma flush_loop_fifo:
  assumes X: "uart_fifo X pend" and "\<not> usb_kbd_ready s"
  shows "\<exists>s'. flush_loop X s = Some s' \<and> pend (hk_dev s') = [] \<and> f10_match s' = f10_match s"
  using assms(2)
proof (induction "pend (hk_dev s)" arbitrary: s)
  case Nil
  from key_tstc_fifo [OF X Nil(2)] Nil obtain s1 where
    "bios_key_tstc X s = (False, s1)" "hk_view pend s1 = hk_view pend s" by auto
  with Nil show ?case by (subst flush_loop.simps) (simp add: hk_view_def)
next
  case (Cons c cs)
  from key_tstc_fifo [OF X Cons(3)] Cons(2) obtain s1 where
    s1: "bios_key_tstc X s = (True, s1)" "hk_view pend s1 = hk_view pend s" by (metis list.discI)
  with Cons have v1: "\<not> usb_kbd_ready s1" "pend (hk_dev s1) = c # cs" by (simp_all add: hk_view_def)
  from key_getc_fifo [OF X v1] obtain s2 where
    s2: "bios_key_getc X s1 = (c, s2)" "hk_view pend s2 = (f10_match s1, False, cs)" by auto
  from Cons(1) [of s2] s2 obtain s' where
    "flush_loop X s2 = Some s'" "pend (hk_dev s') = []" "f10_match s' = f10_match s2"
    by (auto simp: hk_view_def)
  with s1 s2 show ?case by (subst flush_loop.simps) (simp add: hk_view_def)
qed

text \<open>A key of the board that is held: the converter answers with a value of at most 30.\<close>

definition board_key_held :: "'i input_ops \<Rightarrow> bool" where
  "board_key_held X \<longleftrightarrow> cfg_adc X \<and> (\<forall>i. fst (fst (in_adc X i)) = 0 \<and> snd (fst (in_adc X i)) \<le> 30)"

lemma key_tstc_held: "board_key_held X \<Longrightarrow> fst (bios_key_tstc X s)"
  by (auto simp: board_key_held_def bios_key_tstc_def bios_board_key_tstc_def hk_call_def Let_def
      split_beta)

lemma flush_loop_held:
  assumes "flush_loop X s = Some s'"
  shows "\<not> board_key_held X"
proof (induction rule: flush_loop.raw_induct [OF _ assms])
  case (1 f X s y)
  show ?case
  proof
    assume held: "board_key_held X"
    obtain s1 where s1: "bios_key_tstc X s = (True, s1)"
      using key_tstc_held [OF held, of s] by (cases "bios_key_tstc X s") auto
    obtain c s2 where s2: "bios_key_getc X s1 = (c, s2)" by fastforce
    from 1 s1 s2 held show False by auto
  qed
qed

section \<open>A quiet board with a clock\<close>

text \<open>
  No key is pressed, no byte ever arrives, no keyboard appears, and only \<open>mdelay\<close> takes
  time, as many milliseconds as it is asked for.
\<close>

definition quiet_clock :: "'i input_ops \<Rightarrow> ('i \<Rightarrow> nat) \<Rightarrow> bool" where
  "quiet_clock X clock \<longleftrightarrow>
     cfg_debug_uart X \<and>
     (\<forall>i. \<not> in_kbd_present X i) \<and>
     (\<forall>i. \<not> (fst (fst (in_adc X i)) = 0 \<and> snd (fst (in_adc X i)) \<le> 30) \<and>
          clock (snd (in_adc X i)) = clock i) \<and>
     (\<forall>i. \<not> fst (in_volume_up X i) \<and> clock (snd (in_volume_up X i)) = clock i) \<and>
     (\<forall>i. \<not> fst (in_dbg_tstc X i) \<and> clock (snd (in_dbg_tstc X i)) = clock i) \<and>
     (\<forall>i. fst (in_now X i) = clock i \<and> clock (snd (in_now X i)) = clock i) \<and>
     (\<forall>n i. clock (in_mdelay X n i) = clock i + n)"

definition hk_at :: "('i \<Rightarrow> nat) \<Rightarrow> nat \<Rightarrow> 'i hk_state \<Rightarrow> bool" where
  "hk_at clock t s \<longleftrightarrow> clock (hk_dev s) = t \<and> \<not> usb_kbd_ready s"

lemma hk_at_emit [simp]: "hk_at clock t (hk_emit ev s) = hk_at clock t s"
  by (simp add: hk_at_def hk_emit_def)

lemma quiet_now:
  "quiet_clock X clock \<Longrightarrow> hk_at clock t s \<Longrightarrow> \<exists>s'. hk_call (in_now X) s = (t, s') \<and> hk_at clock t s'"
  by (cases "in_now X (hk_dev s)") (auto simp: quiet_clock_def hk_call_def hk_at_def dest: spec [where x = "hk_dev s"])

lemma quiet_attach:
  "quiet_clock X clock \<Longrightarrow> hk_at clock t s \<Longrightarrow> bios_usb_kbd_attach X s = (- in_enodev X, s)"
  by (simp add: quiet_clock_def bios_usb_kbd_attach_def hk_at_def)

lemma quiet_board_key:
  "quiet_clock X clock \<Longrightarrow> hk_at clock t s \<Longrightarrow>
   \<exists>s'. bios_board_key_tstc X s = (False, s') \<and> hk_at clock t s'"
  by (auto simp: quiet_clock_def bios_board_key_tstc_def hk_call_def hk_at_def Let_def split_beta)

lemma quiet_stdin:
  "quiet_clock X clock \<Longrightarrow> hk_at clock t s \<Longrightarrow>
   \<exists>s'. bios_stdin_tstc X s = (False, s') \<and> hk_at clock t s'"
  by (auto simp: quiet_clock_def bios_stdin_tstc_def hk_call_def hk_at_def Let_def split_beta)

lemma quiet_drain:
  assumes "quiet_clock X clock" and "hk_at clock t s"
  shows "\<exists>s'. bios_drain_enter_keys X s = Some (False, s') \<and> hk_at clock t s'"
proof -
  from quiet_stdin [OF assms] obtain s1 where
    s1: "bios_stdin_tstc X s = (False, s1)" "hk_at clock t s1" by auto
  then have "drain_uart X False s = Some (False, s1)" by (subst drain_uart.simps) simp
  with s1 drain_usb_detached [of s1] show ?thesis
    by (simp add: bios_drain_enter_keys_def hk_at_def)
qed

lemma quiet_poll:
  assumes Q: "quiet_clock X clock" and "hk_at clock t s"
  shows "\<exists>s'. kh_bios_poll_key X s = (KH_KEY_NONE, s') \<and> hk_at clock t s'"
proof -
  from quiet_board_key [OF assms] obtain s1 where
    s1: "bios_board_key_tstc X s = (False, s1)" "hk_at clock t s1" by auto
  from quiet_board_key [OF Q s1(2)] obtain s2 where
    s2: "bios_board_key_tstc X s1 = (False, s2)" "hk_at clock t s2" by auto
  from quiet_stdin [OF Q s2(2)] obtain s3 where
    s3: "bios_stdin_tstc X s2 = (False, s3)" "hk_at clock t s3" by auto
  from s1 s2 s3 show ?thesis by (auto simp: kh_bios_poll_key_def bios_key_tstc_def hk_at_def)
qed

lemma quiet_wait_second:
  assumes Q: "quiet_clock X clock" and "hk_at clock t s" and "start \<le> t" and "t \<le> start + 1000"
  shows "\<exists>s'. wait_second X start s = Some (None, s') \<and> hk_at clock (start + 1000) s'"
  using assms(2-)
proof (induction "start + 1000 - t" arbitrary: s t)
  case 0
  then have "hk_at clock (start + 1000) s" by (metis diff_is_0_eq le_antisym)
  from quiet_now [OF Q this] show ?case by (subst wait_second.simps) auto
next
  case (Suc n)
  from quiet_now [OF Q Suc.prems(1)] obtain s1 where
    s1: "hk_call (in_now X) s = (t, s1)" "hk_at clock t s1" by auto
  from quiet_board_key [OF Q s1(2)] obtain s2 where
    s2: "bios_board_key_tstc X s1 = (False, s2)" "hk_at clock t s2" by auto
  from quiet_drain [OF Q s2(2)] obtain s3 where
    s3: "bios_drain_enter_keys X s2 = Some (False, s3)" "hk_at clock t s3" by auto
  from quiet_poll [OF Q s3(2)] obtain s4 where
    s4: "kh_bios_poll_key X s3 = (KH_KEY_NONE, s4)" "hk_at clock t s4" by auto
  have s5: "hk_at clock (Suc t) (hk_do (in_mdelay X 1) s4)"
    using Q s4 by (simp add: hk_at_def hk_do_def quiet_clock_def)
  have "t - start < 1000" using Suc.hyps(2) Suc.prems by linarith
  then have "wait_second X start s = wait_second X start (hk_do (in_mdelay X 1) s4)"
    using s1 s2 s3 s4 quiet_attach [OF Q s1(2)] by (subst wait_second.simps) simp
  with Suc.hyps(1) [of "Suc t", OF _ s5] Suc.hyps(2) Suc.prems show ?case by simp
qed

lemma vid_puts_at [simp]: "hk_at clock t (vid_puts l s) = hk_at clock t s"
proof -
  have "hk_at clock t (fold (\<lambda>i. hk_emit (HkVidPutc (40 + int i * 8) 620 (l ! i))) is s) = hk_at clock t s" for "is"
    by (induction "is" arbitrary: s) simp_all
  then show ?thesis by (simp add: vid_puts_def)
qed

lemma quiet_head:
  assumes Q: "quiet_clock X clock" and "hk_at clock t s"
  shows "hk_at clock t (countdown_head X sec s)"
proof -
  have "hk_at clock t (bios_draw_countdown X sec (hk_emit HkWatchdog s))"
    using assms(2) by (simp add: bios_draw_countdown_def)
  from quiet_stdin [OF Q this] show ?thesis by (auto simp: countdown_head_def Let_def split_beta)
qed

lemma quiet_countdown:
  assumes Q: "quiet_clock X clock" and "hk_at clock t s" and "-1 \<le> sec"
  shows "\<exists>s'. countdown X sec t s = Some (False, s') \<and> hk_at clock (t + 1000 * nat (sec + 1)) s'"
  using assms(2-)
proof (induction "nat (sec + 1)" arbitrary: s t sec)
  case 0
  then show ?case by (subst countdown.simps) simp
next
  case (Suc n)
  from quiet_drain [OF Q quiet_head [OF Q Suc.prems(1), of sec]] obtain s1 where
    s1: "bios_drain_enter_keys X (countdown_head X sec s) = Some (False, s1)" "hk_at clock t s1" by auto
  from quiet_wait_second [OF Q s1(2), of t] obtain s2 where
    s2: "wait_second X t s1 = Some (None, s2)" "hk_at clock (t + 1000) s2" by auto
  from quiet_now [OF Q s2(2)] obtain s3 where
    s3: "hk_call (in_now X) s2 = (t + 1000, s3)" "hk_at clock (t + 1000) s3" by auto
  have "sec \<ge> 0" using Suc.hyps(2) by linarith
  then have "countdown X sec t s = countdown X (sec - 1) (t + 1000) s3"
    using s1 s2 s3 quiet_attach [OF Q s1(2)]
    by (subst countdown.simps) (simp add: hk_at_def)
  moreover have "t + 1000 + 1000 * nat (sec - 1 + 1) = t + 1000 * nat (sec + 1)"
    using Suc.hyps(2) by (simp add: nat_diff_distrib')
  moreover have "n = nat (sec - 1 + 1)" "-1 \<le> sec - 1" using Suc.hyps(2) \<open>sec \<ge> 0\<close> by simp_all
  ultimately show ?case using Suc.hyps(1) [OF _ s3(2)] by metis
qed

text \<open>The keys a menu receives from \<open>n\<close> polls.\<close>

fun poll_keys :: "'i input_ops \<Rightarrow> nat \<Rightarrow> 'i hk_state \<Rightarrow> kh_bios_key list \<times> 'i hk_state" where
  "poll_keys X 0 s = ([], s)"
| "poll_keys X (Suc n) s =
     (let (k, s1) = kh_bios_poll_key X s; (ks, s2) = poll_keys X n s1 in (k # ks, s2))"

lemma poll_keys_Suc:
  assumes "kh_bios_poll_key X s = (k, s1)"
  shows "poll_keys X (Suc n) s = (k # fst (poll_keys X n s1), snd (poll_keys X n s1))"
  using assms by (simp add: split_beta Let_def)

lemma feed_esc: "f10_match s < 5 \<Longrightarrow> f10_match (snd (esc_state_feed (CHR 0x1B) s)) = 1"
  using f10_inj [of "f10_match s" 0]
  by (auto simp: esc_state_feed_def F10_SEQ_LEN_def F10_SEQ_def Let_def)

lemma poll_f10_bytes:
  assumes X: "uart_fifo X pend" and usb: "\<not> usb_kbd_ready s" and m: "f10_match s < 5"
    and p: "pend (hk_dev s) = F10_SEQ @ rest"
  shows "\<exists>s'. poll_keys X 3 s = ([KH_KEY_ESC, KH_KEY_NONE, KH_KEY_NONE], s') \<and>
              pend (hk_dev s') = rest \<and> f10_match s' = 0"
proof -
  obtain k1 s1 where s1: "kh_bios_poll_key X s = (k1, s1)" by fastforce
  have v1: "k1 = KH_KEY_ESC" "pend (hk_dev s1) = CHR ''1'' # CHR ''~'' # rest" "\<not> usb_kbd_ready s1"
      "f10_match s1 = 1"
    using poll_key_fifo [OF X usb m] s1 p feed_esc [OF m]
    by (auto simp: poll_decode_def csi_decode_def F10_SEQ_def)
  obtain k2 s2 where s2: "kh_bios_poll_key X s1 = (k2, s2)" by fastforce
  have v2: "k2 = KH_KEY_NONE" "pend (hk_dev s2) = CHR ''~'' # rest" "\<not> usb_kbd_ready s2" "f10_match s2 = 0"
    using poll_key_fifo [OF X v1(3)] s2 v1
    by (auto simp: poll_decode_def F10_SEQ_def esc_state_feed_def F10_SEQ_LEN_def is_enter_key_def)
  obtain k3 s3 where s3: "kh_bios_poll_key X s2 = (k3, s3)" by fastforce
  have v3: "k3 = KH_KEY_NONE" "pend (hk_dev s3) = rest" "f10_match s3 = 0"
    using poll_key_fifo [OF X v2(3)] s3 v2
    by (auto simp: poll_decode_def F10_SEQ_def esc_state_feed_def F10_SEQ_LEN_def is_enter_key_def)
  have "poll_keys X 3 s = ([k1, k2, k3], s3)"
    using s1 s2 s3 by (simp add: numeral_3_eq_3)
  with v1 v2 v3 show ?thesis by auto
qed

lemma f10_matched_0: "f10_matched [] 0"
  by (simp add: f10_matched_def F10_SEQ_def)

lemma sublist_by_prefix:
  "ys \<noteq> [] \<Longrightarrow> sublist ys xs \<longleftrightarrow> (\<exists>pre post. xs = pre @ post \<and> pre \<noteq> [] \<and> suffix ys pre)"
  by (metis append_is_Nil_conv sublist_altdef sublist_altdef' prefix_def suffix_def append.assoc suffix_bot.extremum_uniqueI)

lemma drain_fifo:
  assumes X: "uart_fifo X pend" and "\<not> usb_kbd_ready s" and "f10_match s = 0"
  shows "\<exists>s'. bios_drain_enter_keys X s =
      Some ((\<exists>c \<in> set (pend (hk_dev s)). is_enter_key c) \<or> sublist F10_SEQ (pend (hk_dev s)), s') \<and>
      pend (hk_dev s') = []"
proof -
  have "F10_SEQ \<noteq> []" by (simp add: F10_SEQ_def)
  with drain_uart_fifo [OF assms(1,2) refl, of "[]" False] f10_matched_0 assms(3) obtain s1 where
    "drain_uart X False s = Some ((\<exists>c \<in> set (pend (hk_dev s)). is_enter_key c) \<or>
        sublist F10_SEQ (pend (hk_dev s)), s1)" "pend (hk_dev s1) = []" "\<not> usb_kbd_ready s1"
    by (auto simp: sublist_by_prefix)
  with drain_usb_detached [of s1] show ?thesis by (simp add: bios_drain_enter_keys_def)
qed

section \<open>Instances for the witnesses\<close>

definition clock_ops :: "nat input_ops" where
  "clock_ops =
     \<lparr>cfg_debug_uart = True, cfg_adc = True, cfg_dm_key = True, cfg_usb_keyboard = True,
      cfg_dm_usb = True, cfg_dm_video = False, cfg_console_mux = True,
      in_adc = (\<lambda>i. ((0, 1000), i)), in_volume_up = (\<lambda>i. (False, i)),
      in_dbg_init = (\<lambda>i. i), in_dbg_tstc = (\<lambda>i. (False, i)), in_dbg_getc = (\<lambda>i. (CHR 0x00, i)),
      in_ser_tstc = (\<lambda>i. (False, i)), in_ser_getc = (\<lambda>i. (CHR 0x00, i)),
      in_cur_serial = None, in_uart2 = Some ''serial@fe660000'', in_iomux = (\<lambda>_. 0),
      in_kbd_present = (\<lambda>_. False), in_kbd_tstc = None, in_kbd_getc = None,
      in_usb_power_on = (\<lambda>i. i), in_usb_init = (\<lambda>i. (0, i)), in_kbd_init = (\<lambda>i. (0, i)),
      in_mdelay = (\<lambda>n i. i + n), in_now = (\<lambda>i. (i, i)), in_vidcon = False,
      in_serial_addr = 0, in_debug_uart_base = 0, in_baudrate = 1500000, in_enodev = 19\<rparr>"

definition clock_state :: "nat \<Rightarrow> nat hk_state" where
  "clock_state t = \<lparr>f10_match = 0, usb_kbd_ready = False, bios_uart_dev = None, hk_dev = t, hk_log = []\<rparr>"

lemma clock_ops_quiet: "quiet_clock clock_ops (\<lambda>i. i)"
  by (simp add: quiet_clock_def clock_ops_def)

lemma queue_state_sel [simp]:
  "f10_match (queue_state cs) = 0" "\<not> usb_kbd_ready (queue_state cs)" "hk_dev (queue_state cs) = cs"
  by (simp_all add: queue_state_def)

section \<open>Properties\<close>

text \<open>
  The matcher recognises the F10 escape sequence exactly: after a reset, whatever bytes
  went before, feeding a byte reports F10 if and only if the bytes fed so far end in the
  sequence \<open>ESC [ 2 1 ~\<close>. No occurrence is missed because of a partial match before it.
\<close>

theorem f10_matcher_exact:
  "fst (esc_state_feed c (feeds cs (esc_state_reset s))) \<longleftrightarrow> suffix F10_SEQ (cs @ [c])"
  by (rule feed_matched(2)) (rule feeds_matched, simp add: esc_state_reset_def)

text \<open>
  C28. On a serial line without a USB keyboard and with no board key pressed, one poll takes bytes
  off the line and decodes them, in the state \<open>f10_match\<close> earlier polls left the matcher in. Nothing waiting is no
  key. A \<open>~\<close> is F10 when the matcher has already seen the four bytes before it in the F10 sequence.
  \<open>ESC [\<close> and \<open>A\<close>, \<open>B\<close>, \<open>C\<close> or \<open>D\<close> is up, down, right or left; \<open>ESC [\<close> and any other byte or none, \<open>ESC\<close> and any
  other byte, and a lone \<open>ESC\<close> are Esc, and the bytes named are all that is consumed. CR and LF are Enter, \<open>b\<close> and
  \<open>B\<close> are F10, and every other byte is taken and dropped as no key.
\<close>

theorem poll_key_decodes:
  assumes "uart_fifo X pend" and "\<not> usb_kbd_ready s" and "f10_match s < 5"
  shows "fst (kh_bios_poll_key X s) = fst (poll_decode (f10_match s) (pend (hk_dev s))) \<and>
         pend (hk_dev (snd (kh_bios_poll_key X s))) = snd (poll_decode (f10_match s) (pend (hk_dev s)))"
  using poll_key_fifo [OF assms] by blast

theorem poll_key_decodes_witness:
  "fst (kh_bios_poll_key queue_ops (queue_state [CHR 0x1B, CHR ''['', CHR ''A'', CHR ''x''])) = KH_KEY_UP \<and>
   hk_dev (snd (kh_bios_poll_key queue_ops (queue_state [CHR 0x1B, CHR ''['', CHR ''A'', CHR ''x'']))) = ''x''"
  using poll_key_decodes [OF queue_ops_fifo, of "queue_state [CHR 0x1B, CHR ''['', CHR ''A'', CHR ''x'']"]
  by (simp add: poll_decode_def csi_decode_def)

text \<open>
  C37. An F10 key whose five bytes have all arrived never opens or saves anything in a menu:
  the first poll takes \<open>ESC [ 2\<close> and reports Esc, which the menu reads as leaving without
  saving, and the two polls after it drop the rest of the sequence.
\<close>

theorem f10_bytes_poll_as_esc:
  assumes "uart_fifo X pend" and "\<not> usb_kbd_ready s" and "f10_match s < 5"
    and "pend (hk_dev s) = F10_SEQ @ rest"
  shows "\<exists>s'. poll_keys X 3 s = ([KH_KEY_ESC, KH_KEY_NONE, KH_KEY_NONE], s') \<and>
              pend (hk_dev s') = rest \<and> f10_match s' = 0"
  using poll_f10_bytes [OF assms] .

theorem f10_bytes_poll_as_esc_witness:
  "\<exists>s'. poll_keys queue_ops 3 (queue_state (F10_SEQ @ ''q'')) =
          ([KH_KEY_ESC, KH_KEY_NONE, KH_KEY_NONE], s') \<and> hk_dev s' = ''q'' \<and> f10_match s' = 0"
  using f10_bytes_poll_as_esc [OF queue_ops_fifo, of "queue_state (F10_SEQ @ ''q'')" "''q''"] by simp

text \<open>
  During the countdown the drain finds the hotkeys wherever they are in the input: it
  ends with the line empty, and asks for the setup utility exactly when a \<open>b\<close> or
  \<open>B\<close> was waiting or the F10 sequence occurs anywhere in the waiting bytes.
\<close>

theorem drain_finds_hotkeys:
  assumes "uart_fifo X pend" and "\<not> usb_kbd_ready s"
  shows "\<exists>s'. bios_drain_enter_keys X (esc_state_reset s) =
      Some (CHR ''b'' \<in> set (pend (hk_dev s)) \<or> CHR ''B'' \<in> set (pend (hk_dev s)) \<or>
            sublist F10_SEQ (pend (hk_dev s)), s') \<and>
      pend (hk_dev s') = []"
  using drain_fifo [OF assms(1), of "esc_state_reset s"] assms(2)
  by (auto simp: esc_state_reset_def is_enter_key_def)

theorem drain_finds_hotkeys_witness:
  "\<exists>s'. bios_drain_enter_keys queue_ops (esc_state_reset (queue_state (CHR 0x1B # F10_SEQ))) =
      Some (True, s') \<and> hk_dev s' = []"
  using drain_finds_hotkeys [OF queue_ops_fifo, of "queue_state (CHR 0x1B # F10_SEQ)"]
  by (simp add: sublist_Cons_right)

text \<open>
  C36. Flushing the input returns, with the line empty and the matcher reset, when no board
  key is held; while the volume or recovery key of the board is held it never returns,
  because the held key keeps counting as waiting input that reading does not consume.
\<close>

theorem flush_input_outcome:
  "(uart_fifo X pend \<and> \<not> usb_kbd_ready s \<longrightarrow>
      (\<exists>s'. kh_bios_flush_input X s = Some s' \<and> pend (hk_dev s') = [] \<and> f10_match s' = 0)) \<and>
   (board_key_held X \<longrightarrow> kh_bios_flush_input X s = None)"
proof -
  have "\<exists>s'. flush_loop X (esc_state_reset s) = Some s' \<and> pend (hk_dev s') = [] \<and> f10_match s' = 0"
    if "uart_fifo X pend" "\<not> usb_kbd_ready s"
    using flush_loop_fifo [OF that(1), of "esc_state_reset s"] that(2)
    by (simp add: esc_state_reset_def)
  moreover have "flush_loop X (esc_state_reset s) = None" if "board_key_held X"
    using flush_loop_held that by (metis not_Some_eq)
  ultimately show ?thesis by (simp add: kh_bios_flush_input_def)
qed

theorem flush_input_outcome_witness:
  "(\<exists>s'. kh_bios_flush_input queue_ops (queue_state ''junk'') = Some s' \<and> hk_dev s' = []) \<and>
   kh_bios_flush_input (queue_ops\<lparr>in_adc := (\<lambda>i. ((0, 5), i))\<rparr>) (queue_state []) = None"
proof -
  have "board_key_held (queue_ops\<lparr>in_adc := (\<lambda>i. ((0, 5), i))\<rparr>)"
    by (simp add: board_key_held_def queue_ops_def)
  then show ?thesis
    using flush_input_outcome [of queue_ops "\<lambda>cs. cs" "queue_state ''junk''"] queue_ops_fifo
      flush_input_outcome [of "queue_ops\<lparr>in_adc := (\<lambda>i. ((0, 5), i))\<rparr>" "\<lambda>cs. cs" "queue_state []"]
    by auto
qed

text \<open>
  When nothing is pressed the countdown ends, answers that the setup utility is not
  wanted, and takes exactly one second more than the delay it is given: it counts
  \<open>delay\<close> down to zero inclusive, a full second each.
\<close>

theorem countdown_takes_delay_plus_one:
  assumes "quiet_clock X clock" and "\<not> usb_kbd_ready s" and "0 \<le> delay"
  shows "\<exists>s'. countdown X delay (clock (hk_dev s)) s = Some (False, s') \<and>
              clock (hk_dev s') = clock (hk_dev s) + 1000 * (nat delay + 1)"
  using quiet_countdown [OF assms(1), of "clock (hk_dev s)" s delay] assms(2,3)
  by (auto simp: hk_at_def nat_add_distrib)

theorem countdown_takes_delay_plus_one_witness:
  "\<exists>s'. countdown clock_ops 3 50 (clock_state 50) = Some (False, s') \<and> hk_dev s' = 4050"
  using countdown_takes_delay_plus_one [OF clock_ops_quiet, of "clock_state 50" 3]
  by (simp add: clock_state_def)

end
