(* ===== verification/KhBios_Board.thy ===== *)
theory KhBios_Board imports KhBios_Boot begin

text \<open>
  \<open>src/oh_bios/uboot/bios/kh_bios_board.c\<close> and \<open>kh_bios_product.h\<close> (the board
  khdvk_rk3568_a) and \<open>src/oh_bios/uboot_bios/core/kh_bios_board_weak.c\<close> (the fallback):
  the two providers of \<open>struct kh_bios_board_ops\<close>, and the USB host power-up of the board.
\<close>

section \<open>The fallback board\<close>

definition weak_boot_normal :: "'e bios_state \<Rightarrow> (int, 'e bios_state) outcome" where
  "weak_boot_normal s =
     Returns CMD_RET_FAILURE (emit (Printf ''[kh_bios] ERROR: board ops boot_normal not implemented'' []) s)"

definition weak_ops :: "'e board_ops" where
  "weak_ops =
     \<lparr>product_name = Some ''Unknown Product'', soc_name = ''Unknown SoC'',
      features = KH_BIOS_FEAT_BOOT_MENU, default_delay_sec = KH_BIOS_DEFAULT_DELAY,
      boot_normal = Some weak_boot_normal, set_recovery_next = None,
      fill_sys_info = None, fill_hw_lines = None, hw_toggle_item = None,
      ops_enter_fastboot = None, ops_enter_download = None\<rparr>"

section \<open>USB host power\<close>

text \<open>
  The pins are named as in the board's pin table. What the GPIO and regulator drivers answer
  is the parameter \<open>board_hw\<close>; a pin that is driven high is logged.
\<close>

datatype rk_pin = RK_PD0 | RK_PD3 | RK_PD4 | RK_PD5 | RK_PD6

datatype power_event =
  RailOn string | PinHigh nat rk_pin | PowerPrintf string "arg list"

record board_hw =
  hw_regulator_get :: "string \<Rightarrow> int"
  hw_regulator_enable :: "string \<Rightarrow> int"
  hw_gpio_device :: "nat \<Rightarrow> int"
  hw_gpio_request :: "nat \<Rightarrow> rk_pin \<Rightarrow> int"
  hw_gpio_set_dir :: "nat \<Rightarrow> rk_pin \<Rightarrow> int"
  hw_gpio_get_value :: "nat \<Rightarrow> rk_pin \<Rightarrow> int"
  hw_ebusy :: int
  hw_enodev :: int

definition bios_gpio_out :: "board_hw \<Rightarrow> nat \<Rightarrow> rk_pin \<Rightarrow> int \<times> power_event list" where
  "bios_gpio_out H bank pin =
     (let ret = hw_gpio_device H bank in
      if ret \<noteq> 0 then (ret, [])
      else let ret = hw_gpio_request H bank pin in
      if ret \<noteq> 0 \<and> ret \<noteq> - hw_ebusy H then (ret, [])
      else let ret = hw_gpio_set_dir H bank pin in
      if ret \<noteq> 0 then (ret, [])
      else (hw_gpio_get_value H bank pin, [PinHigh bank pin]))"

definition usb_power_gpios :: "(nat \<times> rk_pin \<times> string) list" where
  "usb_power_gpios =
    [(1, RK_PD3, ''hub-en gpio1-D3''), (2, RK_PD0, ''j34 gpio2-D0''), (2, RK_PD4, ''j19 gpio2-D4''),
     (2, RK_PD5, ''j17 gpio2-D5''), (2, RK_PD6, ''j33 gpio2-D6'')]"

fun usb_power_loop ::
  "board_hw \<Rightarrow> (nat \<times> rk_pin \<times> string) list \<Rightarrow> int \<Rightarrow> power_event list \<Rightarrow> int \<times> power_event list" where
  "usb_power_loop H [] n evs = (n, evs)"
| "usb_power_loop H ((bank, pin, label) # gs) n evs =
     (let (ret, ev) = bios_gpio_out H bank pin in
      usb_power_loop H gs (if ret \<ge> 0 then n + 1 else n)
        (evs @ ev @ [PowerPrintf ''[kh_bios] %s: %s (read=%d)''
                       [AStr label, AStr (if ret < 0 then ''fail'' else ''high''), AInt ret]]))"

definition usb_power_rail :: "board_hw \<Rightarrow> int \<times> power_event list" where
  "usb_power_rail H =
     (let ret = hw_regulator_get H ''vcc5v0_host'' in
      if ret = 0
      then let ret2 = hw_regulator_enable H ''vcc5v0_host'' in
           (if ret2 = 0 then 1 else 0,
            (if ret2 = 0 then [RailOn ''vcc5v0_host''] else []) @
            [PowerPrintf ''[kh_bios] rail vcc5v0_host: %s''
               [AStr (if ret2 \<noteq> 0 then ''enable failed'' else ''on'')]])
      else (0, [PowerPrintf ''[kh_bios] rail vcc5v0_host: not found (%d)'' [AInt ret]]))"

definition kh_bios_board_usb_power_on :: "board_hw \<Rightarrow> int \<times> power_event list" where
  "kh_bios_board_usb_power_on H =
     (let (n, evs) = usb_power_rail H;
          (n2, evs2) = usb_power_loop H usb_power_gpios n evs
      in (if n2 \<noteq> 0 then 0 else - hw_enodev H, evs2))"

section \<open>The board's operations\<close>

text \<open>What the information page reads of the running U-Boot.\<close>

record blk_desc =
  blk_is_mmc :: bool
  blk_lba :: u64
  blk_blksz :: u64

record board_info =
  info_sys_board :: string
  info_uboot_version :: string
  info_ram_size :: u64
  info_bootdev :: "blk_desc option"
  info_mmc0 :: "blk_desc option"

definition KH_BIOS_PRODUCT_NAME :: string where "KH_BIOS_PRODUCT_NAME = ''KHDVK RK3568-A''"
definition KH_BIOS_SOC_NAME :: string where "KH_BIOS_SOC_NAME = ''RK3568''"

unbundle bit_operations_syntax

definition KH_BIOS_PRODUCT_FEATURES :: u32 where
  "KH_BIOS_PRODUCT_FEATURES =
     KH_BIOS_FEAT_BOOT_MENU OR KH_BIOS_FEAT_HW_MENU OR KH_BIOS_FEAT_SECURITY OR
     KH_BIOS_FEAT_FASTBOOT OR KH_BIOS_FEAT_ROCKUSB"

definition board_boot_normal ::
  "'e uboot \<Rightarrow> 'e bios_state \<Rightarrow> (int, 'e bios_state) outcome" where
  "board_boot_normal U s =
     then_do (run_command U ''bootkhp'' s) (\<lambda>ret s1.
       if ret \<noteq> 0
       then run_command U ''bootcmd''
              (emit (Printf ''[kh_bios] bootkhp unavailable (%d), run bootcmd'' [AInt ret]) s1)
       else Returns ret s1)"

definition board_set_recovery_next ::
  "'e uboot \<Rightarrow> 'e bios_state \<Rightarrow> int \<times> 'e bios_state" where
  "board_set_recovery_next U s =
     (if cfg_android_bootloader U
      then let (rc, e) = x_bcb_write U ''boot-recovery'' (st_env s);
               s1 = emit (BcbWrite ''boot-recovery'') (s\<lparr>st_env := e\<rparr>)
           in if rc \<noteq> 0 then (- 1, s1) else (0, s1)
      else (0, s))"

definition SZ_1G :: u64 where "SZ_1G = 0x40000000"

definition board_mem_text :: "board_info \<Rightarrow> string" where
  "board_mem_text I =
     snprintf_buf 32
       (if info_ram_size I \<ge> SZ_1G
        then dec_of_nat (unat (drop_bit 20 (info_ram_size I))) @ '' MB ('' @
             dec_of_nat (unat (drop_bit 30 (info_ram_size I))) @ '' GB)''
        else dec_of_nat (unat (drop_bit 20 (info_ram_size I))) @ '' MB'')"

definition board_stor_text :: "board_info \<Rightarrow> string" where
  "board_stor_text I =
     (let desc = (case info_bootdev I of Some d \<Rightarrow> Some d | None \<Rightarrow> info_mmc0 I) in
      case desc of
        Some d \<Rightarrow> snprintf_buf 32
                    ((if blk_is_mmc d then ''eMMC'' else ''blk'') @ '' '' @
                     dec_of_nat (unat (drop_bit 20 (blk_lba d * blk_blksz d))) @ '' MB'')
      | None \<Rightarrow> snprintf_buf 32 ''N/A'')"

definition board_fill_sys_info :: "board_info \<Rightarrow> int \<Rightarrow> 'e bios_state \<Rightarrow> string list" where
  "board_fill_sys_info I max_lines s =
     (if max_lines \<le> 0 then []
      else let ls = [snprintf_buf 64 (''Board: '' @ info_sys_board I)] in
      if int (length ls) \<ge> max_lines then ls
      else let ls = ls @ [snprintf_buf 64 (''SoC: '' @ KH_BIOS_SOC_NAME)] in
      if int (length ls) \<ge> max_lines then ls
      else let ls = ls @ [snprintf_buf 64 (''Firmware: U-Boot '' @ info_uboot_version I)] in
      if int (length ls) \<ge> max_lines then ls
      else let ls = ls @ [snprintf_buf 64 (''Memory: '' @ board_mem_text I)] in
      if int (length ls) \<ge> max_lines then ls
      else ls @ [snprintf_buf 64 (''Storage: '' @ board_stor_text I)])"

definition board_enter_fastboot ::
  "'e uboot \<Rightarrow> 'e bios_state \<Rightarrow> (int, 'e bios_state) outcome" where
  "board_enter_fastboot U s = run_command U ''fastboot usb 0'' s"

definition board_enter_download ::
  "'e uboot \<Rightarrow> 'e bios_state \<Rightarrow> (int, 'e bios_state) outcome" where
  "board_enter_download U s = run_command U ''rockusb 0 ${devtype} ${devnum}'' s"

definition rk3568a_ops :: "board_info \<Rightarrow> 'e uboot \<Rightarrow> 'e board_ops" where
  "rk3568a_ops I U =
     \<lparr>product_name = Some KH_BIOS_PRODUCT_NAME, soc_name = KH_BIOS_SOC_NAME,
      features = KH_BIOS_PRODUCT_FEATURES, default_delay_sec = KH_BIOS_DEFAULT_DELAY,
      boot_normal = Some (board_boot_normal U),
      set_recovery_next = Some (board_set_recovery_next U),
      fill_sys_info = Some (board_fill_sys_info I),
      fill_hw_lines = None, hw_toggle_item = None,
      ops_enter_fastboot = Some (board_enter_fastboot U),
      ops_enter_download = Some (board_enter_download U)\<rparr>"

section \<open>Lemmas\<close>

lemma usb_power_loop_eq:
  "fst (usb_power_loop H gs n evs) =
     n + int (length (filter (\<lambda>(b, p, l). fst (bios_gpio_out H b p) \<ge> 0) gs))"
  by (induction H gs n evs rule: usb_power_loop.induct) (auto simp: Let_def split: prod.splits)

definition power_attempts :: "power_event list \<Rightarrow> string list" where
  "power_attempts evs =
     concat (map (\<lambda>ev. case ev of
       PowerPrintf f as \<Rightarrow> (if f = ''[kh_bios] %s: %s (read=%d)''
                           then case as of AStr l # _ \<Rightarrow> [l] | _ \<Rightarrow> [] else [])
     | _ \<Rightarrow> []) evs)"

lemma power_attempts_append [simp]:
  "power_attempts (xs @ ys) = power_attempts xs @ power_attempts ys"
  by (simp add: power_attempts_def)

lemma power_attempts_gpio [simp]: "power_attempts (snd (bios_gpio_out H b p)) = []"
  by (simp add: bios_gpio_out_def power_attempts_def Let_def)

lemma usb_power_loop_attempts:
  "power_attempts (snd (usb_power_loop H gs n evs)) =
     power_attempts evs @ map (\<lambda>(b, p, l). l) gs"
proof (induction H gs n evs rule: usb_power_loop.induct)
  case (2 H b p l gs n evs)
  obtain ret ev where io: "bios_gpio_out H b p = (ret, ev)" by fastforce
  then have "power_attempts ev = []" using power_attempts_gpio [of H b p] by simp
  with 2 io show ?case by (simp add: Let_def) (simp add: power_attempts_def)
qed simp

lemma run_command_returns:
  "run_command U c s = Returns rc s' \<Longrightarrow> st_log s' = st_log s @ [RunCommand c]"
  by (auto simp: run_command_def Let_def split: outcome.splits)

lemma run_command_log: "st_log (final_state (run_command U c s)) = st_log s @ [RunCommand c]"
  by (simp add: run_command_def Let_def split: outcome.splits)

definition is_cmd :: "bios_event \<Rightarrow> bool" where
  "is_cmd ev = (case ev of RunCommand c \<Rightarrow> True | _ \<Rightarrow> False)"

lemma is_cmd_simps [simp]:
  "is_cmd (RunCommand c)" "\<not> is_cmd (Printf f as)" "\<not> is_cmd UiRestore"
  "\<not> is_cmd (EnvSet k v)" "\<not> is_cmd (BcbWrite m)"
  by (simp_all add: is_cmd_def)

definition bootkhp_failed :: "'e uboot \<Rightarrow> 'e bios_state \<Rightarrow> bool" where
  "bootkhp_failed U s =
     (case run_command U ''bootkhp'' s of Returns rc s' \<Rightarrow> rc \<noteq> 0 | Leaves s' \<Rightarrow> False)"

lemma board_boot_normal_log:
  "st_log (final_state (board_boot_normal U s)) =
     st_log s @ [RunCommand ''bootkhp''] @
     (case run_command U ''bootkhp'' s of
        Returns rc s' \<Rightarrow>
          (if rc \<noteq> 0 then [Printf ''[kh_bios] bootkhp unavailable (%d), run bootcmd'' [AInt rc],
                          RunCommand ''bootcmd''] else [])
      | Leaves s' \<Rightarrow> [])"
  using run_command_log [of U "''bootkhp''" s]
  by (cases "run_command U ''bootkhp'' s")
    (simp_all add: board_boot_normal_def run_command_log)

section \<open>Properties\<close>

text \<open>
  USB power-up tries everything and reports honestly: whatever the drivers answer, each
  of the five pins is attempted, in order, and the result is 0 exactly if the 5V rail came up
  or at least one pin was accepted; otherwise it is -ENODEV.
\<close>

theorem usb_power_on_result:
  assumes "0 < hw_enodev H"
  shows "power_attempts (snd (kh_bios_board_usb_power_on H)) = map (\<lambda>(b, p, l). l) usb_power_gpios \<and>
         (fst (kh_bios_board_usb_power_on H) = 0 \<longleftrightarrow>
            (hw_regulator_get H ''vcc5v0_host'' = 0 \<and> hw_regulator_enable H ''vcc5v0_host'' = 0) \<or>
            (\<exists>(b, p, l) \<in> set usb_power_gpios. 0 \<le> fst (bios_gpio_out H b p))) \<and>
         fst (kh_bios_board_usb_power_on H) \<in> {0, - hw_enodev H}"
proof -
  obtain n evs where rail: "usb_power_rail H = (n, evs)" by fastforce
  then have n: "0 \<le> n" "n \<noteq> 0 \<longleftrightarrow> hw_regulator_get H ''vcc5v0_host'' = 0 \<and>
      hw_regulator_enable H ''vcc5v0_host'' = 0"
    and evs: "power_attempts evs = []"
    by (auto simp: usb_power_rail_def power_attempts_def Let_def split: if_splits)
  from n(1) have "n + int (length xs) \<noteq> 0 \<longleftrightarrow> n \<noteq> 0 \<or> xs \<noteq> []" for xs :: "(nat \<times> rk_pin \<times> string) list"
    by (cases xs) auto
  then have "fst (usb_power_loop H usb_power_gpios n evs) \<noteq> 0 \<longleftrightarrow>
      n \<noteq> 0 \<or> (\<exists>(b, p, l) \<in> set usb_power_gpios. 0 \<le> fst (bios_gpio_out H b p))"
    by (simp add: usb_power_loop_eq filter_empty_conv)
  then show ?thesis
    using assms n(2) usb_power_loop_attempts [of H usb_power_gpios n evs] evs
    by (simp add: kh_bios_board_usb_power_on_def rail split_beta)
qed

definition dead_hw :: board_hw where
  "dead_hw = \<lparr>hw_regulator_get = (\<lambda>_. - 2), hw_regulator_enable = (\<lambda>_. 0), hw_gpio_device = (\<lambda>_. - 19),
     hw_gpio_request = (\<lambda>_ _. 0), hw_gpio_set_dir = (\<lambda>_ _. 0), hw_gpio_get_value = (\<lambda>_ _. 1),
     hw_ebusy = 16, hw_enodev = 19\<rparr>"

theorem usb_power_on_result_witness:
  "0 < hw_enodev dead_hw \<and> fst (kh_bios_board_usb_power_on dead_hw) = - 19"
proof -
  have pos: "0 < hw_enodev dead_hw" by (simp add: dead_hw_def)
  have dead: "fst (bios_gpio_out dead_hw b p) = - 19" for b p
    by (simp add: bios_gpio_out_def dead_hw_def)
  show ?thesis using pos usb_power_on_result [OF pos] dead by (auto simp: dead_hw_def)
qed

text \<open>
  The information lines stay inside the caller's array \<open>char lines[][64]\<close>: for any
  \<open>max_lines\<close> the board writes the first \<open>max_lines\<close> of its five lines, never more
  lines than asked for, and each with its terminating zero fits the 64 bytes of its row.
\<close>

theorem sys_info_fits_buffer:
  "board_fill_sys_info I max_lines s = take (nat max_lines) (board_fill_sys_info I 5 s) \<and>
   length (board_fill_sys_info I max_lines s) = nat (min (max max_lines 0) 5) \<and>
   (\<forall>l \<in> set (board_fill_sys_info I max_lines s). length l < 64)"
proof -
  consider "max_lines \<le> 0" | "max_lines = 1" | "max_lines = 2" | "max_lines = 3" | "max_lines = 4"
    | "5 \<le> max_lines" by linarith
  then show ?thesis
    by cases (auto simp: board_fill_sys_info_def length_snprintf_buf min_def max_def Let_def)
qed

definition sample_info :: board_info where
  "sample_info = \<lparr>info_sys_board = ''evb'', info_uboot_version = ''2017.09'',
     info_ram_size = 0x80000000, info_bootdev = None, info_mmc0 = None\<rparr>"

theorem sys_info_fits_buffer_witness:
  "length (board_fill_sys_info sample_info 8 map_state) = 5 \<and>
   (\<forall>l \<in> set (board_fill_sys_info sample_info 8 map_state). length l < 64)"
proof -
  have "length (board_fill_sys_info sample_info 8 map_state) = nat (min (max 8 0) 5)"
    using sys_info_fits_buffer [of sample_info 8 map_state] by blast
  also have "\<dots> = 5" by simp
  finally show ?thesis using sys_info_fits_buffer [of sample_info 8 map_state] by blast
qed

text \<open>
  Booting on this board: the display is back on the logo plane before the first command
  runs; \<open>bootkhp\<close> is always tried, \<open>bootcmd\<close> only after it came back with an error, and
  nothing else is run; the recovery request reaches the boot control block exactly if recovery
  is wanted (and the build has the Android boot loader), and it does so before any command.
\<close>

theorem rk3568a_boot_order:
  "\<exists>before after s1.
     st_log (final_state (kh_bios_boot_system U (Some (rk3568a_ops I U)) s)) =
       st_log s @ before @ after \<and>
     filter is_cmd before = [] \<and> last before = UiRestore \<and>
     (BcbWrite ''boot-recovery'' \<in> set before \<longleftrightarrow> want_recovery U s \<and> cfg_android_bootloader U) \<and>
     filter is_cmd after =
       RunCommand ''bootkhp'' # (if bootkhp_failed U s1 then [RunCommand ''bootcmd''] else []) \<and>
     hd after = RunCommand ''bootkhp'' \<and> st_log s1 = st_log s @ before"
proof -
  let ?B = "Some (rk3568a_ops I U)"
  let ?s0 = "kh_bios_env_apply_boot_choice U s"
  let ?s1 = "emit UiRestore (call_set_recovery_next ?B (want_recovery U s) ?s0)"
  define b0 where "b0 = (if kh_bios_env_get_once_recovery U s
    then [EnvSet ENV_ONCE_RECOVERY ''0'', EnvSet ''reboot_mode'' ''recovery''] else [])"
  have b0: "st_log ?s0 = st_log s @ b0" "filter is_cmd b0 = []"
      "BcbWrite ''boot-recovery'' \<notin> set b0"
    by (simp_all add: kh_bios_env_apply_boot_choice_def env_setter_defs b0_def)
  define b1 where "b1 = (if want_recovery U s \<and> cfg_android_bootloader U
    then [BcbWrite ''boot-recovery''] else [])"
  have s1: "st_log ?s1 = st_log s @ (b0 @ b1 @ [UiRestore])"
    using b0(1)
    by (simp add: call_set_recovery_next_def rk3568a_ops_def board_set_recovery_next_def b1_def
        split_beta Let_def)
  define after where "after = RunCommand ''bootkhp'' #
     (case run_command U ''bootkhp'' ?s1 of
        Returns rc s' \<Rightarrow>
          (if rc \<noteq> 0 then [Printf ''[kh_bios] bootkhp unavailable (%d), run bootcmd'' [AInt rc],
                          RunCommand ''bootcmd''] else [])
      | Leaves s' \<Rightarrow> [])"
  define tl_ev where "tl_ev = (case board_boot_normal U ?s1 of
      Returns rc s' \<Rightarrow> if rc \<noteq> 0 then [Printf ''[kh_bios] boot_normal failed (%d)'' [AInt rc]] else []
    | Leaves s' \<Rightarrow> [])"
  have "st_log (final_state (kh_bios_boot_system U ?B s)) =
      st_log (final_state (board_boot_normal U ?s1)) @ tl_ev"
    by (simp add: kh_bios_boot_system_def kh_bios_prepare_boot_continue_def Let_def rk3568a_ops_def
        final_state_then_do tl_ev_def split: outcome.splits)
  then have "st_log (final_state (kh_bios_boot_system U ?B s)) =
      st_log s @ (b0 @ b1 @ [UiRestore]) @ (after @ tl_ev)"
    by (simp only: board_boot_normal_log s1 after_def append_assoc append_Cons append_Nil)
  moreover have "filter is_cmd (after @ tl_ev) =
      RunCommand ''bootkhp'' # (if bootkhp_failed U ?s1 then [RunCommand ''bootcmd''] else [])"
    by (simp add: after_def tl_ev_def bootkhp_failed_def split: outcome.splits)
  moreover have "filter is_cmd (b0 @ b1 @ [UiRestore]) = []" using b0 by (simp add: b1_def)
  moreover have "BcbWrite ''boot-recovery'' \<in> set (b0 @ b1 @ [UiRestore]) \<longleftrightarrow>
      want_recovery U s \<and> cfg_android_bootloader U"
    using b0(3) by (simp add: b1_def)
  moreover have "hd (after @ tl_ev) = RunCommand ''bootkhp''" by (simp add: after_def)
  ultimately show ?thesis using s1
    by (intro exI [of _ "b0 @ b1 @ [UiRestore]"] exI [of _ "after @ tl_ev"] exI [of _ ?s1]) simp
qed

end
