(* ===== verification/Khsl_Cli.thy ===== *)
theory Khsl_Cli imports Prelude begin

text \<open>
  \<open>src/khsl/khsl/main.c\<close>, first part: the command line of \<open>khsl\<close>. An \<open>argv\<close> is
  the list of its strings; reading at or behind its terminating NULL pointer is visible as
  \<open>None\<close>. A message in two languages is logged by its English format and the language
  chosen (the Chinese wording is not modelled).
\<close>

section \<open>Environment variables\<close>

type_synonym env = "string \<Rightarrow> string option"

text \<open>\<open>getenv\<close> of a variable that is set and not empty, the test the file makes everywhere.\<close>

definition getenv_nonempty :: "env \<Rightarrow> string \<Rightarrow> string option" where
  "getenv_nonempty e k = (case e k of Some v \<Rightarrow> (if v = [] then None else Some v) | None \<Rightarrow> None)"

definition tolower :: "char \<Rightarrow> char" where
  "tolower c = (let n = of_char c :: nat in if 65 \<le> n \<and> n \<le> 90 then char_of (n + 32) else c)"

definition strcasecmp_eq :: "string \<Rightarrow> string \<Rightarrow> bool" where
  "strcasecmp_eq a b \<longleftrightarrow> map tolower a = map tolower b"

definition help_wants_zh :: "env \<Rightarrow> bool" where
  "help_wants_zh e =
     (case getenv_nonempty e ''KHSL_HELP'' of
        None \<Rightarrow> False
      | Some ov \<Rightarrow> strcasecmp_eq ov ''zh'' \<or> strcasecmp_eq ov ''zh_cn'' \<or> strcasecmp_eq ov ''chs'')"

text \<open>A message: the language (Chinese or not), its English format, its arguments.\<close>

datatype message = Message bool string "arg list"

definition khsl_t :: "env \<Rightarrow> string \<Rightarrow> arg list \<Rightarrow> message" where
  "khsl_t e en args = Message (help_wants_zh e) en args"

section \<open>Options\<close>

datatype khsl_run_mode = KHSL_RUN_INTERACTIVE | KHSL_RUN_EXEC

text \<open>\<open>exec_argv\<close> points into \<open>argv\<close>: the strings from there on.\<close>

record khsl_opts =
  want_help :: bool
  want_version :: bool
  user_override :: "string option"
  cd_override :: "string option"
  run_mode :: khsl_run_mode
  exec_argv :: "string list option"

definition zero_opts :: khsl_opts where
  "zero_opts = \<lparr>want_help = False, want_version = False, user_override = None, cd_override = None,
     run_mode = KHSL_RUN_INTERACTIVE, exec_argv = None\<rparr>"

definition management_longs :: "string list" where
  "management_longs =
     [''--install'', ''--shutdown'', ''--status'', ''--update'', ''--rollback'', ''--inbox'',
      ''--web-download'', ''--export'', ''--import'', ''--list'', ''--quiet'', ''--verbose'',
      ''--online'', ''--set-default'', ''--set-version'', ''--terminate'', ''--unregister'',
      ''--distribution'', ''--set-default-version'', ''--all'', ''--running'']"

fun management_loop :: "string \<Rightarrow> string list \<Rightarrow> bool" where
  "management_loop a [] = False"
| "management_loop a (l # ls) = (if a = l then True else management_loop a ls)"

definition management_arg_known_unimplemented :: "string \<Rightarrow> bool" where
  "management_arg_known_unimplemented a =
     (if management_loop a management_longs then True
      else a = ''-d'' \<or> a = ''-l'' \<or> a = ''-q'' \<or> a = ''-v'' \<or> a = ''-o'' \<or> a = ''-t'' \<or> a = ''-s'')"

text \<open>
  The result of \<open>parse_args\<close>: its return value, the options filled in so far, and the
  message it prints. \<open>argv ! i\<close> is only read for \<open>i < argc\<close>.
\<close>

type_synonym parse_result = "int \<times> khsl_opts \<times> message list"

function (sequential) parse_loop :: "env \<Rightarrow> string list \<Rightarrow> nat \<Rightarrow> khsl_opts \<Rightarrow> parse_result" where
  "parse_loop e argv i opts =
     (if i < length argv
      then let a = argv ! i in
        if a = ''--help'' \<or> a = ''-h'' then parse_loop e argv (i + 1) (opts\<lparr>want_help := True\<rparr>)
        else if a = ''--version'' then parse_loop e argv (i + 1) (opts\<lparr>want_version := True\<rparr>)
        else if a = ''--user'' \<or> a = ''-u'' then
          (if i + 1 \<ge> length argv
           then (2, opts, [khsl_t e ''khsl: -u/--user requires <UserName>'' []])
           else parse_loop e argv (i + 2) (opts\<lparr>user_override := Some (argv ! (i + 1))\<rparr>))
        else if a = ''--cd'' then
          (if i + 1 \<ge> length argv
           then (2, opts, [khsl_t e ''khsl: --cd requires a directory argument'' []])
           else parse_loop e argv (i + 2) (opts\<lparr>cd_override := Some (argv ! (i + 1))\<rparr>))
        else if a = ''-e'' \<or> a = ''--exec'' then
          (if i + 1 \<ge> length argv
           then (2, opts, [khsl_t e ''khsl: -e/--exec requires a command'' []])
           else (0, opts\<lparr>run_mode := KHSL_RUN_EXEC, exec_argv := Some (drop (i + 1) argv)\<rparr>, []))
        else if a = ''--'' then
          (if i + 1 \<ge> length argv
           then (2, opts, [khsl_t e ''khsl: nothing after '--'; need a command word'' []])
           else (0, opts\<lparr>run_mode := KHSL_RUN_EXEC, exec_argv := Some (drop (i + 1) argv)\<rparr>, []))
        else if byte_at a 0 = CHR ''-'' then
          (if management_arg_known_unimplemented a
           then (2, opts, [khsl_t e (''khsl: \"%s\" is a WSL-style management flag (not implemented).'' @ [CHR 0x0A] @
                 ''    Try khsl --help. Examples: khsl -e ls -la  or  khsl ls -la'') [AStr a]])
           else (2, opts, [khsl_t e ''khsl: unknown option \"%s\". Try khsl --help.'' [AStr a]]))
        else (0, opts\<lparr>run_mode := KHSL_RUN_EXEC, exec_argv := Some (drop i argv)\<rparr>, [])
      else (0, opts, []))"
  by pat_completeness auto
termination
  by (relation "measure (\<lambda>(e, argv, i, opts). length argv - i)") auto

declare parse_loop.simps [simp del]

definition parse_args :: "env \<Rightarrow> string list \<Rightarrow> parse_result" where
  "parse_args e argv = parse_loop e argv 1 zero_opts"

section \<open>The grammar of the command line\<close>

text \<open>
  A command line in its abstract form: options in order, and then how it ends. \<open>render\<close>
  writes it down with the spelling of each option.
\<close>

datatype cli_item = IHelp string | IVersion | IUser string string | ICd string

datatype cli_end = NoCommand | Exec string string "string list" | Bare string "string list"

fun item_ok :: "cli_item \<Rightarrow> bool" where
  "item_ok (IHelp sp) = (sp = ''--help'' \<or> sp = ''-h'')"
| "item_ok IVersion = True"
| "item_ok (IUser sp u) = (sp = ''--user'' \<or> sp = ''-u'')"
| "item_ok (ICd d) = True"

fun end_ok :: "cli_end \<Rightarrow> bool" where
  "end_ok NoCommand = True"
| "end_ok (Exec sp c args) = (sp = ''-e'' \<or> sp = ''--exec'' \<or> sp = ''--'')"
| "end_ok (Bare c args) = (byte_at c 0 \<noteq> CHR ''-'')"

fun render_item :: "cli_item \<Rightarrow> string list" where
  "render_item (IHelp sp) = [sp]"
| "render_item IVersion = [''--version'']"
| "render_item (IUser sp u) = [sp, u]"
| "render_item (ICd d) = [''--cd'', d]"

fun render_end :: "cli_end \<Rightarrow> string list" where
  "render_end NoCommand = []"
| "render_end (Exec sp c args) = sp # c # args"
| "render_end (Bare c args) = c # args"

fun with_item :: "cli_item \<Rightarrow> khsl_opts \<Rightarrow> khsl_opts" where
  "with_item (IHelp sp) o1 = o1\<lparr>want_help := True\<rparr>"
| "with_item IVersion o1 = o1\<lparr>want_version := True\<rparr>"
| "with_item (IUser sp u) o1 = o1\<lparr>user_override := Some u\<rparr>"
| "with_item (ICd d) o1 = o1\<lparr>cd_override := Some d\<rparr>"

fun with_end :: "cli_end \<Rightarrow> khsl_opts \<Rightarrow> khsl_opts" where
  "with_end NoCommand o1 = o1"
| "with_end (Exec sp c args) o1 = o1\<lparr>run_mode := KHSL_RUN_EXEC, exec_argv := Some (c # args)\<rparr>"
| "with_end (Bare c args) o1 = o1\<lparr>run_mode := KHSL_RUN_EXEC, exec_argv := Some (c # args)\<rparr>"

lemma parse_end:
  assumes "argv = pre @ render_end en" and "end_ok en"
  shows "parse_loop e argv (length pre) opts = (0, with_end en opts, [])"
proof (cases en)
  case NoCommand
  with assms show ?thesis by (subst parse_loop.simps) simp
next
  case (Exec sp c args)
  with assms show ?thesis
    by (subst parse_loop.simps) (auto simp: Let_def nth_append)
next
  case (Bare c args)
  with assms have "byte_at c 0 \<noteq> CHR ''-''" by simp
  then have "c \<notin> {''--help'', ''-h'', ''--version'', ''--user'', ''-u'', ''--cd'', ''-e'', ''--exec'', ''--''}"
    by auto
  with Bare assms show ?thesis by (subst parse_loop.simps) (simp add: Let_def nth_append)
qed

lemma parse_items:
  assumes "argv = pre @ concat (map render_item items) @ render_end en" and "\<forall>it \<in> set items. item_ok it"
    and "end_ok en"
  shows "parse_loop e argv (length pre) opts = (0, with_end en (fold with_item items opts), [])"
  using assms
proof (induction items arbitrary: pre opts)
  case Nil
  then show ?case by (simp add: parse_end)
next
  case (Cons it items)
  have "parse_loop e argv (length pre) opts =
      parse_loop e argv (length (pre @ render_item it)) (with_item it opts)"
  proof (cases it)
    case (IHelp sp)
    with Cons.prems have "argv ! length pre = sp" "length pre < length argv" "sp = ''--help'' \<or> sp = ''-h''"
      by simp_all
    with IHelp show ?thesis unfolding parse_loop.simps [of e argv "length pre"] by (simp add: Let_def)
  next
    case IVersion
    with Cons.prems have "argv ! length pre = ''--version''" "length pre < length argv" by simp_all
    with IVersion show ?thesis unfolding parse_loop.simps [of e argv "length pre"] by (simp add: Let_def)
  next
    case (IUser sp u)
    with Cons.prems have "argv ! length pre = sp" "argv ! Suc (length pre) = u" "Suc (length pre) < length argv"
        "sp = ''--user'' \<or> sp = ''-u''"
      by (simp_all add: nth_append)
    with IUser show ?thesis unfolding parse_loop.simps [of e argv "length pre"] by (elim disjE) (simp_all add: Let_def)
  next
    case (ICd d)
    with Cons.prems have "argv ! length pre = ''--cd''" "argv ! Suc (length pre) = d" "Suc (length pre) < length argv"
      by (simp_all add: nth_append)
    with ICd show ?thesis unfolding parse_loop.simps [of e argv "length pre"] by (simp add: Let_def)
  qed
  also have "\<dots> = (0, with_end en (fold with_item items (with_item it opts)), [])"
    by (rule Cons.IH) (use Cons.prems in simp_all)
  finally show ?case by simp
qed

text \<open>What the parser accepts is always of that form, and the command it finds has a word.\<close>

definition opts_consistent :: "khsl_opts \<Rightarrow> bool" where
  "opts_consistent o1 \<longleftrightarrow>
     (run_mode o1 = KHSL_RUN_EXEC \<longleftrightarrow> exec_argv o1 \<noteq> None) \<and> exec_argv o1 \<noteq> Some []"

definition parse_ok :: "nat \<Rightarrow> string list \<Rightarrow> parse_result \<Rightarrow> bool" where
  "parse_ok i argv r \<longleftrightarrow>
     (case r of (rc, o1, ms) \<Rightarrow>
        (rc = 0 \<and> ms = [] \<or> rc = 2 \<and> ms \<noteq> []) \<and> opts_consistent o1 \<and>
        (\<forall>xs. exec_argv o1 = Some xs \<longrightarrow> (\<exists>j \<ge> i. xs = drop j argv)))"

lemma parse_ok_if: "(c \<Longrightarrow> parse_ok i argv a) \<Longrightarrow> (\<not> c \<Longrightarrow> parse_ok i argv b) \<Longrightarrow> parse_ok i argv (if c then a else b)"
  by simp

lemma parse_ok_later: "parse_ok j argv r \<Longrightarrow> i \<le> j \<Longrightarrow> parse_ok i argv r"
  by (cases r) (simp add: parse_ok_def, meson order_trans)

definition no_command :: "khsl_opts \<Rightarrow> bool" where
  "no_command o1 \<longleftrightarrow> run_mode o1 = KHSL_RUN_INTERACTIVE \<and> exec_argv o1 = None"

lemma parse_ok_done: "no_command o1 \<Longrightarrow> parse_ok i argv (0, o1, [])"
  "no_command o1 \<Longrightarrow> parse_ok i argv (2, o1, [m])"
  by (simp_all add: parse_ok_def opts_consistent_def no_command_def)

lemma parse_ok_exec:
  "i \<le> j \<Longrightarrow> j < length argv \<Longrightarrow>
   parse_ok i argv (0, o1\<lparr>run_mode := KHSL_RUN_EXEC, exec_argv := Some (drop j argv)\<rparr>, [])"
  by (auto simp: parse_ok_def opts_consistent_def)

lemma no_command_upd [simp]:
  "no_command (o1\<lparr>want_help := b\<rparr>) = no_command o1" "no_command (o1\<lparr>want_version := b\<rparr>) = no_command o1"
  "no_command (o1\<lparr>user_override := u\<rparr>) = no_command o1" "no_command (o1\<lparr>cd_override := d\<rparr>) = no_command o1"
  by (simp_all add: no_command_def)

lemma parse_loop_ok: "no_command opts \<Longrightarrow> parse_ok i argv (parse_loop e argv i opts)"
proof (induction e argv i opts rule: parse_loop.induct)
  case (1 e argv i opts)
  note IH = "1.IH" [OF _ refl]
  note nc = "1.prems"
  show ?case
    unfolding parse_loop.simps [of e argv i opts] Let_def
  proof (intro parse_ok_if, goal_cases)
    case 1
    show ?case by (rule parse_ok_later [of "i + 1"]) (use IH(1) [OF 1] nc in simp_all)
  next
    case 2
    show ?case by (rule parse_ok_later [of "i + 1"]) (use IH(2) [OF 2(1,2,3)] nc in simp_all)
  next
    case 3
    from nc show ?case by (rule parse_ok_done)
  next
    case 4
    show ?case by (rule parse_ok_later [of "i + 2"]) (use IH(3) [OF 4(1,2,3,4,5)] nc in simp_all)
  next
    case 5
    from nc show ?case by (rule parse_ok_done)
  next
    case 6
    show ?case by (rule parse_ok_later [of "i + 2"]) (use IH(4) [OF 6(1,2,3,4,5,6)] nc in simp_all)
  qed (use nc in \<open>simp_all add: parse_ok_done parse_ok_exec\<close>)
qed

section \<open>Properties\<close>

text \<open>
  C30. The parser reads back every command line of the grammar: options in any order and any
  spelling, with the last user and directory winning, then nothing, a command after \<open>-e\<close>,
  \<open>--exec\<close> or \<open>--\<close>, or a bare command; the command's words are passed on as they are, also
  when they look like options.
\<close>

theorem parse_args_render:
  assumes "\<forall>it \<in> set items. item_ok it" and "end_ok en"
  shows "parse_args e (prog # concat (map render_item items) @ render_end en) =
     (0, with_end en (fold with_item items zero_opts), [])"
  using parse_items [of "prog # concat (map render_item items) @ render_end en" "[prog]" items en e zero_opts] assms
  by (simp add: parse_args_def)

theorem parse_args_render_witness:
  "parse_args (\<lambda>_. None) [''khsl'', ''-u'', ''shell'', ''--cd'', ''~'', ''--user'', ''root'', ''-e'', ''ls'', ''--help''] =
     (0, \<lparr>want_help = False, want_version = False, user_override = Some ''root'', cd_override = Some ''~'',
          run_mode = KHSL_RUN_EXEC, exec_argv = Some [''ls'', ''--help'']\<rparr>, [])"
  using parse_args_render [of "[IUser ''-u'' ''shell'', ICd ''~'', IUser ''--user'' ''root'']"
      "Exec ''-e'' ''ls'' [''--help'']" "\<lambda>_. None" "''khsl''"]
  by (simp add: zero_opts_def)

text \<open>
  The parser is total and consistent on every \<open>argv\<close>: it returns 0 without a message or
  2 with exactly one, and whenever it selects the exec mode the command is a non-empty tail of
  \<open>argv\<close> behind the program's name, so the later check for a missing command cannot fail.
\<close>

theorem parse_args_consistent:
  "case parse_args e argv of (rc, o1, ms) \<Rightarrow>
     (rc = 0 \<and> ms = [] \<or> rc = 2 \<and> ms \<noteq> []) \<and>
     (run_mode o1 = KHSL_RUN_EXEC \<longleftrightarrow> exec_argv o1 \<noteq> None) \<and> exec_argv o1 \<noteq> Some [] \<and>
     (case exec_argv o1 of None \<Rightarrow> True | Some xs \<Rightarrow> \<exists>j \<ge> 1. xs = drop j argv)"
proof -
  have "parse_ok 1 argv (parse_args e argv)"
    unfolding parse_args_def by (rule parse_loop_ok) (simp add: no_command_def zero_opts_def)
  then show ?thesis
    by (cases "parse_args e argv") (auto simp: parse_ok_def opts_consistent_def split: option.split)
qed

end
