(* ===== verification/Khsl_Session.thy ===== *)
theory Khsl_Session imports Khsl_Cli begin

text \<open>
  \<open>src/khsl/khsl/main.c\<close>, second part: the identity and the environment a session gets,
  the prompt, \<open>main\<close> and the relay to the terminal daemon. What the kernel and the user
  database answer is the record \<open>os\<close>; the process is the record \<open>proc\<close>, and what it
  asks of the kernel or prints is its log.
\<close>

section \<open>The process and the kernel\<close>

record passwd =
  pw_name :: string
  pw_uid :: nat
  pw_gid :: nat
  pw_dir :: "string option"
  pw_shell :: "string option"

datatype kevent =
  Stdout string "arg list"
| Stderr message
| Initgroups string nat
| Setgid nat
| Setuid nat
| Chdir string
| Execvp string "string list"
| Execl string "string list"
| Prctl string
| PrintUsage bool
| PrintMotdFile string
| PrintMotd bool
| PrintTip bool
| SendWinsize nat nat
| RawMode
| RestoreTty bool

record proc =
  p_env :: env
  p_uid :: nat
  p_euid :: nat
  p_gid :: nat
  p_cwd :: string
  p_log :: "kevent list"

record os =
  os_getpwuid :: "nat \<Rightarrow> passwd option"
  os_getpwnam :: "string \<Rightarrow> passwd option"
  os_initgroups :: "string \<Rightarrow> nat \<Rightarrow> bool"
  os_setgid :: "nat \<Rightarrow> bool"
  os_setuid :: "nat \<Rightarrow> bool"
  os_chdir :: "string \<Rightarrow> string \<Rightarrow> string option"
  os_getcwd :: "string \<Rightarrow> nat \<Rightarrow> string option"
  os_hostname :: "string option"
  os_nodename :: "string option"
  os_strerror :: string
  os_exec :: "string \<Rightarrow> bool"
  os_readable :: "string \<Rightarrow> bool"
  os_winsize :: "(nat \<times> nat) option"
  os_tty :: bool
  os_tty_end :: bool
  os_daemon :: bool

definition log :: "kevent \<Rightarrow> proc \<Rightarrow> proc" where
  "log ev p = p\<lparr>p_log := p_log p @ [ev]\<rparr>"

definition setenv :: "string \<Rightarrow> string \<Rightarrow> proc \<Rightarrow> proc" where
  "setenv k v p = p\<lparr>p_env := (p_env p)(k := Some v)\<rparr>"

definition getenv :: "proc \<Rightarrow> string \<Rightarrow> string option" where
  "getenv p k = p_env p k"

definition say :: "proc \<Rightarrow> string \<Rightarrow> arg list \<Rightarrow> kevent" where
  "say p en args = Stderr (khsl_t (p_env p) en args)"

definition chdir :: "os \<Rightarrow> string \<Rightarrow> proc \<Rightarrow> int \<times> proc" where
  "chdir K d p =
     (case os_chdir K (p_cwd p) d of
        Some c \<Rightarrow> (0, log (Chdir d) (p\<lparr>p_cwd := c\<rparr>))
      | None \<Rightarrow> (-1, log (Chdir d) p))"

section \<open>Identity\<close>

definition try_drop_privileges :: "os \<Rightarrow> proc \<Rightarrow> int \<times> passwd option \<times> proc" where
  "try_drop_privileges K p =
     (if p_uid p \<noteq> 0 \<and> p_euid p \<noteq> 0 then (0, os_getpwuid K (p_uid p), p)
      else let user = (case getenv_nonempty (p_env p) ''KHSL_USER'' of Some u \<Rightarrow> u | None \<Rightarrow> ''shell'')
           in case os_getpwnam K user of
                None \<Rightarrow> (-1, None, log (say p (''[khsl] passwd user \"%s\" not found; staying as root.'' @ [CHR 0x0A] @
                                 ''       Set KHSL_USER or use -u <UserName>.'') [AStr user]) p)
              | Some pw \<Rightarrow>
                  let p1 = log (Initgroups (pw_name pw) (pw_gid pw)) p in
                  if \<not> os_initgroups K (pw_name pw) (pw_gid pw)
                  then (-1, None, log (Stderr (Message False ''[khsl] initgroups: %s'' [AStr (os_strerror K)])) p1)
                  else let p2 = log (Setgid (pw_gid pw)) p1 in
                  if \<not> os_setgid K (pw_gid pw)
                  then (-1, None, log (Stderr (Message False ''[khsl] setgid: %s'' [AStr (os_strerror K)])) p2)
                  else let p3 = log (Setuid (pw_uid pw)) (p2\<lparr>p_gid := pw_gid pw\<rparr>) in
                  if \<not> os_setuid K (pw_uid pw)
                  then (-1, None, log (say p ''[khsl] setuid: %s%s'' [AStr (os_strerror K), AStr '' (still root)'']) p3)
                  else (0, Some pw, p3\<lparr>p_uid := pw_uid pw, p_euid := pw_uid pw\<rparr>))"

section \<open>Environment\<close>

definition apply_env_from_passwd :: "os \<Rightarrow> passwd option \<Rightarrow> proc \<Rightarrow> proc" where
  "apply_env_from_passwd K pwo p =
     (let p1 =
        (case pwo of
           None \<Rightarrow> p
         | Some pw \<Rightarrow>
             let q1 = (case pw_dir pw of
                         None \<Rightarrow> p
                       | Some d \<Rightarrow>
                           if d = [] then p
                           else let (rc, q) = chdir K d (setenv ''HOME'' d p)
                                in if rc \<noteq> 0 then snd (chdir K ''/'' q) else q);
                 q2 = setenv ''LOGNAME'' (pw_name pw) (setenv ''USER'' (pw_name pw) q1)
             in (case pw_shell pw of
                   None \<Rightarrow> q2
                 | Some sh \<Rightarrow> if sh = [] then q2 else setenv ''SHELL'' sh q2));
          term = getenv_nonempty (p_env p1) ''TERM''
      in setenv ''KHSL'' ''1''
           (setenv ''PATH'' ''/system/bin:/vendor/bin:/bin:/usr/bin''
             (setenv ''TERM'' (case term of Some t \<Rightarrow> t | None \<Rightarrow> ''xterm-256color'') p1)))"

text \<open>
  The buffer of \<open>apply_cd_override\<close>: 1024 bytes into which the two copies go; a copy that
  does not fit has no result.
\<close>

definition memcpy_at :: "nat \<Rightarrow> string \<Rightarrow> char option list \<Rightarrow> char option list option" where
  "memcpy_at at src buf =
     (if at + length src \<le> length buf
      then Some (take at buf @ map Some src @ drop (at + length src) buf) else None)"

fun c_string :: "char option list \<Rightarrow> string option" where
  "c_string [] = None"
| "c_string (None # bs) = None"
| "c_string (Some c # bs) = (if c = CHR 0x00 then Some [] else map_option (Cons c) (c_string bs))"

definition cd_path :: "string \<Rightarrow> string \<Rightarrow> string option" where
  "cd_path home dir =
     (let path = replicate 1024 None in
      Option.bind (memcpy_at 0 home path)
        (\<lambda>path. Option.bind (memcpy_at (length home) (tl dir @ [CHR 0x00]) path) c_string))"

text \<open>The outer option is a memory error, the inner result the return value.\<close>

definition apply_cd_override :: "os \<Rightarrow> string option \<Rightarrow> proc \<Rightarrow> (int \<times> proc) option" where
  "apply_cd_override K diro p =
     (case diro of
        None \<Rightarrow> Some (0, p)
      | Some dir \<Rightarrow>
          if dir = [] then Some (0, p)
          else if byte_at dir 0 = CHR ''~'' \<and> (byte_at dir 1 = CHR 0x00 \<or> byte_at dir 1 = CHR ''/'') then
            (let home = (case getenv_nonempty (p_env p) ''HOME'' of Some h \<Rightarrow> h | None \<Rightarrow> ''/'') in
             if byte_at dir 1 = CHR 0x00 then Some (chdir K home p)
             else let hn = length home; suf = length (drop 1 dir); tot = hn + suf + 1 in
             if tot \<ge> 1024 then Some (-1, p)
             else map_option (\<lambda>path. chdir K path p) (cd_path home dir))
          else Some (chdir K dir p))"

section \<open>The prompt\<close>

definition HOST_NAME_MAX :: nat where "HOST_NAME_MAX = 64"

definition ESC :: char where "ESC = CHR 0x1B"

definition prompt_text :: "bool \<Rightarrow> string \<Rightarrow> string \<Rightarrow> string \<Rightarrow> char \<Rightarrow> string" where
  "prompt_text no_color lg hn cwd pch =
     (if no_color then ''KHSL '' @ lg @ ''@khsl-'' @ hn @ '':'' @ cwd @ [pch, CHR '' '']
      else [ESC] @ ''[01;32m'' @ lg @ ''@khsl-'' @ hn @ [ESC] @ ''[00m:'' @ [ESC] @ ''[01;34m'' @ cwd @
           [ESC] @ ''[00m'' @ [pch, CHR '' ''])"

definition prompt_login :: "env \<Rightarrow> string" where
  "prompt_login e =
     (case getenv_nonempty e ''LOGNAME'' of
        Some l \<Rightarrow> l
      | None \<Rightarrow> (case getenv_nonempty e ''USER'' of Some u \<Rightarrow> u | None \<Rightarrow> ''?''))"

text \<open>\<open>gethostname\<close> fills at most 64 bytes of the zeroed buffer; the fallback cuts at 63.\<close>

definition prompt_host :: "os \<Rightarrow> string" where
  "prompt_host K =
     (case os_hostname K of
        Some h \<Rightarrow> take HOST_NAME_MAX h
      | None \<Rightarrow> (case os_nodename K of Some n \<Rightarrow> take 63 n | None \<Rightarrow> ''host''))"

definition prompt_no_color :: "env \<Rightarrow> bool" where
  "prompt_no_color e \<longleftrightarrow> e ''TERM'' = Some ''dumb'' \<or> getenv_nonempty e ''NO_COLOR'' \<noteq> None \<or>
     e ''KHSL_NO_COLOR'' \<noteq> None"

definition prompt_cwd :: "os \<Rightarrow> proc \<Rightarrow> string" where
  "prompt_cwd K p = (case os_getcwd K (p_cwd p) 512 of Some c \<Rightarrow> c | None \<Rightarrow> ''/'')"

definition khsl_export_ps1 :: "os \<Rightarrow> proc \<Rightarrow> proc" where
  "khsl_export_ps1 K p =
     (let pch = (if p_euid p = 0 then CHR ''#'' else CHR ''$'')
      in setenv ''PS1'' (snprintf_buf 576
           (prompt_text (prompt_no_color (p_env p)) (prompt_login (p_env p)) (prompt_host K)
              (prompt_cwd K p) pch)) p)"

definition apply_user_cli_override :: "khsl_opts \<Rightarrow> proc \<Rightarrow> proc" where
  "apply_user_cli_override opts p =
     (case user_override opts of
        Some u \<Rightarrow> (if u \<noteq> [] then setenv ''KHSL_USER'' u p else p)
      | None \<Rightarrow> p)"

definition file_exists_readable :: "os \<Rightarrow> string \<Rightarrow> bool" where
  "file_exists_readable K path = (if path = [] then False else os_readable K path)"

definition hushlogin_enabled :: "os \<Rightarrow> proc \<Rightarrow> bool" where
  "hushlogin_enabled K p =
     (case getenv_nonempty (p_env p) ''HOME'' of
        None \<Rightarrow> False
      | Some home \<Rightarrow>
          let len = length home + 32 in file_exists_readable K (snprintf_buf len (home @ ''/.hushlogin'')))"

definition MOTD_PATH_SYSTEM :: string where "MOTD_PATH_SYSTEM = ''/system/etc/khsl/motd''"
definition MOTD_PATH_VENDOR :: string where "MOTD_PATH_VENDOR = ''/vendor/etc/khsl/motd''"

fun motd_loop :: "os \<Rightarrow> string list \<Rightarrow> proc \<Rightarrow> proc" where
  "motd_loop K [] p = log (PrintMotd True) p"
| "motd_loop K (path # paths) p =
     (if os_readable K path then log (PrintMotdFile path) p else motd_loop K paths p)"

definition print_motd :: "os \<Rightarrow> proc \<Rightarrow> proc" where
  "print_motd K p =
     (if help_wants_zh (p_env p) then motd_loop K [MOTD_PATH_SYSTEM, MOTD_PATH_VENDOR] p
      else log (PrintMotd False) p)"

section \<open>The relay\<close>

text \<open>
  What \<open>poll\<close> and the \<open>read\<close>s after it answer: a failure (\<open>True\<close> for \<open>EINTR\<close>), or
  for the terminal and the socket whether \<open>POLLIN\<close> is set and then the bytes read, \<open>None\<close>
  for an end of file or an error. \<open>taken\<close> is how many bytes a \<open>write\<close> to the socket takes,
  which the code does not look at.
\<close>

datatype poll_answer = PollFails bool | PollReady "string option option" "string option option"

record relay_state =
  r_sent :: string
  r_shown :: string

fun relay :: "(string \<Rightarrow> nat) \<Rightarrow> poll_answer list \<Rightarrow> relay_state \<Rightarrow> bool \<times> relay_state" where
  "relay taken [] r = (False, r)"
| "relay taken (PollFails eintr # answers) r = (if eintr then relay taken answers r else (True, r))"
| "relay taken (PollReady tin sin # answers) r =
     (case tin of
        Some None \<Rightarrow> (True, r)
      | _ \<Rightarrow>
          let r1 = (case tin of
                      Some (Some b) \<Rightarrow> r\<lparr>r_sent := r_sent r @ take (taken b) b\<rparr>
                    | _ \<Rightarrow> r)
          in case sin of
               Some None \<Rightarrow> (True, r1)
             | Some (Some b) \<Rightarrow> relay taken answers (r1\<lparr>r_shown := r_shown r1 @ b\<rparr>)
             | None \<Rightarrow> relay taken answers r1)"

section \<open>main\<close>

text \<open>How a run ends: an exit status, another program in its place, or still relaying.\<close>

datatype ending = Exit int | Became string "string list" | Relaying

definition exec_argv_of :: "khsl_opts \<Rightarrow> string list" where
  "exec_argv_of opts = (case exec_argv opts of Some xs \<Rightarrow> xs | None \<Rightarrow> [])"

definition main_exec :: "os \<Rightarrow> khsl_opts \<Rightarrow> proc \<Rightarrow> ending \<times> proc" where
  "main_exec K opts p =
     (case exec_argv_of opts of
        [] \<Rightarrow> (Exit 2, log (say p ''khsl: no command to execute'' []) p)
      | cmd # args \<Rightarrow>
          let p1 = log (Execvp cmd (cmd # args)) p in
          if os_exec K cmd then (Became cmd (cmd # args), p1)
          else (Exit 127, log (Stderr (Message False ''[khsl] exec %s: %s'' [AStr cmd, AStr (os_strerror K)])) p1))"

definition main_shell :: "os \<Rightarrow> proc \<Rightarrow> ending \<times> proc" where
  "main_shell K p =
     (let p1 = log (Execl ''/system/bin/sh'' [''sh'', ''-i'']) p in
      if os_exec K ''/system/bin/sh'' then (Became ''/system/bin/sh'' [''sh'', ''-i''], p1)
      else let p2 = log (Execl ''/bin/sh'' [''sh'', ''-i'']) p1 in
      if os_exec K ''/bin/sh'' then (Became ''/bin/sh'' [''sh'', ''-i''], p2)
      else (Exit 127, log (Stderr (Message False ''[khsl] exec sh: %s'' [AStr (os_strerror K)])) p2))"

definition main_daemon ::
  "os \<Rightarrow> (string \<Rightarrow> nat) \<Rightarrow> poll_answer list \<Rightarrow> proc \<Rightarrow> ending \<times> proc \<times> relay_state" where
  "main_daemon K taken answers p =
     (let (row, col) = (case os_winsize K of Some ws \<Rightarrow> ws | None \<Rightarrow> (24, 80));
          p1 = log (SendWinsize row col) p;
          p2 = (if os_tty K then log RawMode p1 else p1);
          (ended, r) = relay taken answers \<lparr>r_sent = [], r_shown = []\<rparr>
      in if \<not> ended then (Relaying, p2, r)
         else (Exit 0, if os_tty_end K then log (RestoreTty (os_tty K)) p2 else p2, r))"

definition main_interactive ::
  "os \<Rightarrow> (string \<Rightarrow> nat) \<Rightarrow> poll_answer list \<Rightarrow> proc \<Rightarrow> ending \<times> proc \<times> relay_state" where
  "main_interactive K taken answers p =
     (let p1 = (if \<not> hushlogin_enabled K p
                then let q = print_motd K p in log (PrintTip (help_wants_zh (p_env q))) q
                else p)
      in if os_daemon K then main_daemon K taken answers p1
         else let (e, p2) = main_shell K p1 in (e, p2, \<lparr>r_sent = [], r_shown = []\<rparr>))"

text \<open>The session a process gets before it runs anything.\<close>

definition main_identity :: "os \<Rightarrow> khsl_opts \<Rightarrow> proc \<Rightarrow> proc" where
  "main_identity K opts p =
     (let p1 = apply_user_cli_override opts p;
          (rc, pw, p2) = try_drop_privileges K p1;
          p3 = (if pw = None \<and> (p_uid p2 = 0 \<or> p_euid p2 = 0)
                then setenv ''HOME'' (case getenv_nonempty (p_env p2) ''HOME'' of Some h \<Rightarrow> h | None \<Rightarrow> ''/'') p2
                else p2)
      in apply_env_from_passwd K pw p3)"

definition khsl_main ::
  "os \<Rightarrow> (string \<Rightarrow> nat) \<Rightarrow> poll_answer list \<Rightarrow> string list \<Rightarrow> proc \<Rightarrow>
   (ending \<times> proc \<times> relay_state) option" where
  "khsl_main K taken answers argv p =
     (let p0 = log (Prctl ''kworker/u4:3'') p;
          none = \<lparr>r_sent = [], r_shown = []\<rparr>;
          (rc, opts, ms) = parse_args (p_env p0) argv;
          p1 = fold (\<lambda>m. log (Stderr m)) ms p0
      in if rc \<noteq> 0 then Some (Exit rc, p1, none)
         else if want_help opts then Some (Exit 0, log (PrintUsage (help_wants_zh (p_env p1))) p1, none)
         else if want_version opts then Some (Exit 0, log (Stdout ''khsl 1.0'' []) p1, none)
         else let p2 = main_identity K opts p1 in
         case (case cd_override opts of None \<Rightarrow> Some (0, p2) | Some d \<Rightarrow> apply_cd_override K (Some d) p2) of
           None \<Rightarrow> None
         | Some (crc, p3) \<Rightarrow>
             if crc \<noteq> 0
             then Some (Exit 1, log (Stderr (Message False ''[khsl] --cd \"%s\": %s''
                          [AStr (case cd_override opts of Some d \<Rightarrow> d | None \<Rightarrow> []), AStr (os_strerror K)])) p3, none)
             else let p4 = khsl_export_ps1 K p3 in
             if run_mode opts = KHSL_RUN_EXEC
             then (case main_exec K opts p4 of (e, p5) \<Rightarrow> Some (e, p5, none))
             else Some (main_interactive K taken answers p4))"

section \<open>Facts about the pieces\<close>

lemma memcpy_at_0: "length src \<le> length buf \<Longrightarrow> memcpy_at 0 src buf = Some (map Some src @ drop (length src) buf)"
  by (simp add: memcpy_at_def)

lemma c_string_append: "CHR 0x00 \<notin> set t \<Longrightarrow> c_string (map Some (t @ [CHR 0x00]) @ rest) = Some t"
  by (induction t) auto

lemma cd_path_eq:
  assumes "length home + length (tl dir) + 1 < 1024" and "CHR 0x00 \<notin> set home" and "CHR 0x00 \<notin> set dir"
  shows "cd_path home dir = Some (home @ tl dir)"
proof -
  let ?b = "map Some home @ replicate (1024 - length home) None"
  have 1: "memcpy_at 0 home (replicate 1024 None) = Some ?b"
    using assms(1) by (simp add: memcpy_at_0)
  have 2: "memcpy_at (length home) (tl dir @ [CHR 0x00]) ?b =
      Some (map Some ((home @ tl dir) @ [CHR 0x00]) @ drop (Suc (length (tl dir))) (replicate (1024 - length home) None))"
    using assms(1) by (simp add: memcpy_at_def)
  have "CHR 0x00 \<notin> set (home @ tl dir)" using assms(2,3) by (auto dest: list.set_sel(2) [rotated]) (metis list.sel(2) list.set_sel(2))
  from c_string_append [OF this, of "drop (Suc (length (tl dir))) (replicate (1024 - length home) None)"] 1 2
  show ?thesis by (simp add: cd_path_def Let_def)
qed

lemma log_sel [simp]: "p_log (log ev p) = p_log p @ [ev]" "p_uid (log ev p) = p_uid p"
    "p_euid (log ev p) = p_euid p" "p_gid (log ev p) = p_gid p" "p_env (log ev p) = p_env p"
  by (simp_all add: log_def)

lemma setenv_sel [simp]: "p_log (setenv k v p) = p_log p" "p_uid (setenv k v p) = p_uid p"
    "p_euid (setenv k v p) = p_euid p" "p_gid (setenv k v p) = p_gid p"
    "p_env (setenv k v p) = (p_env p)(k := Some v)"
  by (simp_all add: setenv_def)

lemma chdir_sel [simp]: "p_uid (snd (chdir K d p)) = p_uid p" "p_euid (snd (chdir K d p)) = p_euid p"
    "p_gid (snd (chdir K d p)) = p_gid p" "p_env (snd (chdir K d p)) = p_env p"
  by (simp_all add: chdir_def split: option.split)

definition same_ids :: "proc \<Rightarrow> proc \<Rightarrow> bool" where
  "same_ids p q \<longleftrightarrow> p_uid q = p_uid p \<and> p_euid q = p_euid p \<and> p_gid q = p_gid p"

lemma same_ids_simps [simp]: "same_ids p p" "same_ids p (log ev q) = same_ids p q"
    "same_ids p (setenv k v q) = same_ids p q" "same_ids p (snd (chdir K d q)) = same_ids p q"
  by (simp_all add: same_ids_def)

lemma apply_env_same_ids: "same_ids p (apply_env_from_passwd K pwo p)"
  by (simp add: apply_env_from_passwd_def Let_def split_beta split: option.split)

lemma fold_log_same [simp]: "same_ids p (fold (\<lambda>m. log (Stderr m)) ms q) = same_ids p q"
    "p_env (fold (\<lambda>m. log (Stderr m)) ms q) = p_env q"
  by (induction ms arbitrary: q) simp_all

section \<open>Properties\<close>

text \<open>
  \<open>--cd\<close> never overruns its buffer and goes where it says: for strings without a zero
  byte there is always a result; \<open>~\<close> and \<open>~/...\<close> are expanded with \<open>HOME\<close> (\<open>/\<close> when it is
  unset or empty), an expansion of 1023 bytes is still taken whole and a longer one is refused
  without a change of directory, and every other path is passed on unchanged.
\<close>

theorem cd_override_outcome:
  assumes "CHR 0x00 \<notin> set dir" and "\<And>h. p_env p ''HOME'' = Some h \<Longrightarrow> CHR 0x00 \<notin> set h"
  shows "apply_cd_override K (Some dir) p =
     (let home = (case getenv_nonempty (p_env p) ''HOME'' of Some h \<Rightarrow> h | None \<Rightarrow> ''/'') in
      if dir = [] then Some (0, p)
      else if dir = ''~'' then Some (chdir K home p)
      else if hd dir = CHR ''~'' \<and> dir ! 1 = CHR ''/'' \<and> 2 \<le> length dir then
        (if length home + length (tl dir) \<le> 1022 then Some (chdir K (home @ tl dir) p) else Some (-1, p))
      else Some (chdir K dir p))"
proof -
  let ?home = "case getenv_nonempty (p_env p) ''HOME'' of Some h \<Rightarrow> h | None \<Rightarrow> ''/''"
  have h0: "CHR 0x00 \<notin> set ?home"
    using assms(2) by (auto simp: getenv_nonempty_def split: option.split)
  show ?thesis
  proof (cases dir)
    case Nil
    then show ?thesis by (simp add: apply_cd_override_def)
  next
    case (Cons c t)
    show ?thesis
    proof (cases t)
      case Nil
      with Cons assms(1) show ?thesis by (auto simp: apply_cd_override_def Let_def byte_at_def)
    next
      case (Cons c2 t2)
      with \<open>dir = c # t\<close> assms(1) have "c2 \<noteq> CHR 0x00" by auto
      have cd: "cd_path ?home dir = Some (?home @ tl dir)" if "length ?home + length (tl dir) \<le> 1022"
        by (rule cd_path_eq) (use that h0 assms(1) in auto)
      show ?thesis
        using \<open>c2 \<noteq> CHR 0x00\<close> \<open>dir = c # t\<close> Cons cd
        by (auto simp: apply_cd_override_def Let_def byte_at_def)
    qed
  qed
qed

definition root_os :: os where
  "root_os = \<lparr>os_getpwuid = (\<lambda>_. None), os_getpwnam = (\<lambda>_. None), os_initgroups = (\<lambda>_ _. True),
     os_setgid = (\<lambda>_. True), os_setuid = (\<lambda>_. True), os_chdir = (\<lambda>_ d. Some d),
     os_getcwd = (\<lambda>c n. Some c), os_hostname = Some ''rk3568'', os_nodename = None, os_strerror = [],
     os_exec = (\<lambda>_. True), os_readable = (\<lambda>_. False), os_winsize = None, os_tty = True,
     os_tty_end = True, os_daemon = False\<rparr>"

definition root_proc :: proc where
  "root_proc = \<lparr>p_env = Map.empty, p_uid = 0, p_euid = 0, p_gid = 0, p_cwd = ''/'', p_log = []\<rparr>"

theorem cd_override_outcome_witness:
  "apply_cd_override root_os (Some ''~/src'') (root_proc\<lparr>p_env := [''HOME'' \<mapsto> ''/data'']\<rparr>) =
     Some (0, root_proc\<lparr>p_env := [''HOME'' \<mapsto> ''/data''], p_cwd := ''/data/src'', p_log := [Chdir ''/data/src'']\<rparr>)"
  using cd_override_outcome [of "''~/src''" "root_proc\<lparr>p_env := [''HOME'' \<mapsto> ''/data'']\<rparr>" root_os]
  by (simp add: root_proc_def getenv_nonempty_def chdir_def root_os_def log_def Let_def)

text \<open>
  Dropping privileges is complete or nothing is claimed: a process that is not root keeps
  its ids; for root, success means that the supplementary groups, the group and the user were
  set in that order and real and effective user are the chosen one's, and a failure leaves
  the process root.
\<close>

theorem drop_privileges_outcome:
  "case try_drop_privileges K p of (rc, pwo, q) \<Rightarrow>
     (p_uid p \<noteq> 0 \<and> p_euid p \<noteq> 0 \<longrightarrow> rc = 0 \<and> q = p) \<and>
     (p_uid p = 0 \<or> p_euid p = 0 \<longrightarrow>
        (case pwo of
           Some pw \<Rightarrow> rc = 0 \<and> p_uid q = pw_uid pw \<and> p_euid q = pw_uid pw \<and> p_gid q = pw_gid pw \<and>
             p_log q = p_log p @ [Initgroups (pw_name pw) (pw_gid pw), Setgid (pw_gid pw), Setuid (pw_uid pw)]
         | None \<Rightarrow> rc = -1 \<and> p_uid q = p_uid p \<and> p_euid q = p_euid p))"
  by (auto simp: try_drop_privileges_def Let_def log_def split: option.split)

theorem drop_privileges_outcome_witness:
  "try_drop_privileges (root_os\<lparr>os_getpwnam := (\<lambda>n. Some \<lparr>pw_name = n, pw_uid = 2000, pw_gid = 2000, pw_dir = None, pw_shell = None\<rparr>)\<rparr>)
      root_proc = (0, Some \<lparr>pw_name = ''shell'', pw_uid = 2000, pw_gid = 2000, pw_dir = None, pw_shell = None\<rparr>,
        snd (snd (try_drop_privileges (root_os\<lparr>os_getpwnam := (\<lambda>n. Some \<lparr>pw_name = n, pw_uid = 2000, pw_gid = 2000, pw_dir = None, pw_shell = None\<rparr>)\<rparr>)
      root_proc))) \<and>
   p_uid (snd (snd (try_drop_privileges (root_os\<lparr>os_getpwnam := (\<lambda>n. Some \<lparr>pw_name = n, pw_uid = 2000, pw_gid = 2000, pw_dir = None, pw_shell = None\<rparr>)\<rparr>)
      root_proc))) = 2000"
proof -
  let ?K = "root_os\<lparr>os_getpwnam := (\<lambda>n. Some \<lparr>pw_name = n, pw_uid = 2000, pw_gid = 2000, pw_dir = None, pw_shell = None\<rparr>)\<rparr>"
  have r: "fst (try_drop_privileges ?K root_proc) = 0 \<and> fst (snd (try_drop_privileges ?K root_proc)) =
      Some \<lparr>pw_name = ''shell'', pw_uid = 2000, pw_gid = 2000, pw_dir = None, pw_shell = None\<rparr>"
    by (simp add: try_drop_privileges_def root_os_def root_proc_def getenv_nonempty_def Let_def)
  then show ?thesis
    using drop_privileges_outcome [where K = ?K and p = root_proc]
    by (cases "try_drop_privileges ?K root_proc") (auto simp: root_proc_def)
qed

text \<open>The user a session is for: \<open>-u\<close>, else \<open>KHSL_USER\<close>, else \<open>shell\<close>; empty names do not count.\<close>

definition session_user :: "khsl_opts \<Rightarrow> env \<Rightarrow> string" where
  "session_user opts e =
     (let given = (\<lambda>x. case x of Some u \<Rightarrow> u \<noteq> [] | None \<Rightarrow> False)
      in if given (user_override opts) then the (user_override opts)
         else if given (e ''KHSL_USER'') then the (e ''KHSL_USER'') else ''shell'')"

lemma drop_unknown:
  assumes "p_uid p = 0" "os_getpwnam K (session_user opts (p_env p)) = None"
  shows "\<exists>q. try_drop_privileges K (apply_user_cli_override opts p) = (-1, None, q) \<and> same_ids (apply_user_cli_override opts p) q"
proof -
  let ?e = "p_env (apply_user_cli_override opts p)"
  have u: "p_uid (apply_user_cli_override opts p) = 0"
    using assms(1) by (simp add: apply_user_cli_override_def split: option.split)
  have "(case getenv_nonempty ?e ''KHSL_USER'' of Some u \<Rightarrow> u | None \<Rightarrow> ''shell'') = session_user opts (p_env p)"
    by (auto simp: session_user_def apply_user_cli_override_def getenv_nonempty_def Let_def split: option.splits)
  then show ?thesis using assms(2) u by (simp add: try_drop_privileges_def Let_def)
qed

text \<open>
  C38. A command is run as root when its user does not exist: \<open>main\<close> ignores that dropping
  privileges failed. For a root process and any command line that asks for a command to be run (\<open>-e\<close>),
  without help, version or \<open>--cd\<close>, if the name the session is for, \<open>-u\<close>, else \<open>KHSL_USER\<close>, else \<open>shell\<close>,
  is not in the user database, the command replaces the process, if it can be run at all, with real and
  effective user still 0.
\<close>

theorem unknown_user_runs_as_root:
  assumes "p_uid p = 0" and "p_euid p = 0" and "parse_args (p_env p) argv = (0, opts, ms)"
    and "\<not> want_help opts" "\<not> want_version opts" "cd_override opts = None"
    and "run_mode opts = KHSL_RUN_EXEC" "exec_argv opts = Some (cmd # args)"
    and "os_getpwnam K (session_user opts (p_env p)) = None" and "os_exec K cmd"
  shows "\<exists>q r. khsl_main K taken answers argv p = Some (Became cmd (cmd # args), q, r) \<and> p_uid q = 0 \<and> p_euid q = 0"
proof -
  let ?p1 = "fold (\<lambda>m. log (Stderr m)) ms (log (Prctl ''kworker/u4:3'') p)"
  let ?p2 = "main_identity K opts ?p1"
  have p1: "p_env ?p1 = p_env p" "same_ids p ?p1" by simp_all
  then obtain q where m: "try_drop_privileges K (apply_user_cli_override opts ?p1) = (-1, None, q)"
      "same_ids (apply_user_cli_override opts ?p1) q"
    using drop_unknown [of ?p1 K opts] assms(1,9) by (auto simp: same_ids_def)
  have "same_ids ?p1 (apply_user_cli_override opts ?p1)"
    by (simp add: apply_user_cli_override_def split: option.split)
  then have "same_ids p ?p2"
    using m p1(2) apply_env_same_ids by (simp add: main_identity_def same_ids_def Let_def)
  moreover have "khsl_main K taken answers argv p =
      (case main_exec K opts (khsl_export_ps1 K ?p2) of (e, q) \<Rightarrow> Some (e, q, \<lparr>r_sent = [], r_shown = []\<rparr>))"
    using assms(3-7) by (simp add: khsl_main_def Let_def)
  ultimately show ?thesis
    using assms(1,2,8,10) by (simp add: main_exec_def exec_argv_of_def Let_def khsl_export_ps1_def same_ids_def)
qed

text \<open>Only the user \<open>ghost\<close> is missing; he is named once by \<open>KHSL_USER\<close>, once by \<open>-u\<close>.\<close>

theorem unknown_user_runs_as_root_witness:
  "(\<exists>K q r. K = root_os\<lparr>os_getpwnam := (\<lambda>n. if n = ''ghost'' then None else Some \<lparr>pw_name = n, pw_uid = 2000, pw_gid = 2000, pw_dir = None, pw_shell = None\<rparr>)\<rparr> \<and>
     khsl_main K length [] [''khsl'', ''-e'', ''id'', ''-u''] (root_proc\<lparr>p_env := [''KHSL_USER'' \<mapsto> ''ghost'']\<rparr>) =
       Some (Became ''id'' [''id'', ''-u''], q, r) \<and> p_uid q = 0 \<and> p_euid q = 0) \<and>
   (\<exists>q r. khsl_main root_os length [] [''khsl'', ''-u'', ''ghost'', ''-e'', ''id''] root_proc =
     Some (Became ''id'' [''id''], q, r) \<and> p_uid q = 0 \<and> p_euid q = 0)"
proof
  let ?K = "root_os\<lparr>os_getpwnam := (\<lambda>n. if n = ''ghost'' then None else Some \<lparr>pw_name = n, pw_uid = 2000, pw_gid = 2000, pw_dir = None, pw_shell = None\<rparr>)\<rparr>"
  let ?p = "root_proc\<lparr>p_env := [''KHSL_USER'' \<mapsto> ''ghost'']\<rparr>"
  have a: "parse_args (p_env ?p) [''khsl'', ''-e'', ''id'', ''-u''] =
      (0, zero_opts\<lparr>run_mode := KHSL_RUN_EXEC, exec_argv := Some [''id'', ''-u'']\<rparr>, [])"
    using parse_items [of "[''khsl'', ''-e'', ''id'', ''-u'']" "[''khsl'']" "[]" "Exec ''-e'' ''id'' [''-u'']" "p_env ?p" zero_opts]
    by (simp add: parse_args_def)
  show "\<exists>K q r. K = ?K \<and> khsl_main K length [] [''khsl'', ''-e'', ''id'', ''-u''] ?p = Some (Became ''id'' [''id'', ''-u''], q, r) \<and>
      p_uid q = 0 \<and> p_euid q = 0"
    using unknown_user_runs_as_root [OF _ _ a, of "''id''" "[''-u'']" ?K length "[]"]
    by (simp add: zero_opts_def session_user_def root_os_def root_proc_def)
  have b: "parse_args (p_env root_proc) [''khsl'', ''-u'', ''ghost'', ''-e'', ''id''] =
      (0, zero_opts\<lparr>user_override := Some ''ghost'', run_mode := KHSL_RUN_EXEC, exec_argv := Some [''id'']\<rparr>, [])"
    using parse_items [of "[''khsl'', ''-u'', ''ghost'', ''-e'', ''id'']" "[''khsl'']" "[IUser ''-u'' ''ghost'']" "Exec ''-e'' ''id'' []" "p_env root_proc" zero_opts]
    by (simp add: parse_args_def)
  show "\<exists>q r. khsl_main root_os length [] [''khsl'', ''-u'', ''ghost'', ''-e'', ''id''] root_proc =
      Some (Became ''id'' [''id''], q, r) \<and> p_uid q = 0 \<and> p_euid q = 0"
    using unknown_user_runs_as_root [OF _ _ b, of "''id''" "[]" root_os length "[]"]
    by (simp add: zero_opts_def session_user_def root_os_def root_proc_def)
qed

text \<open>
  What a terminal makes of a text: the parameters of its \<open>ESC [ ... m\<close> sequences, in order, and the
  characters it shows.
\<close>

function terminal :: "string \<Rightarrow> string list \<times> string" where
  "terminal s =
     (if s = [] then ([], [])
      else if take 2 s = [ESC, CHR ''['']
      then (let code = takeWhile (\<lambda>c. c \<noteq> CHR ''m'') (drop 2 s); (codes, shown) = terminal (drop (Suc (length code)) (drop 2 s))
            in (code # codes, shown))
      else (let (codes, shown) = terminal (tl s) in (codes, hd s # shown)))"
  by pat_completeness auto
termination
  by (relation "measure length") auto

declare terminal.simps [simp del]

lemma terminal_nil [simp]: "terminal [] = ([], [])"
  by (simp add: terminal.simps)

lemma terminal_code:
  assumes "CHR ''m'' \<notin> set code"
  shows "terminal (ESC # CHR ''['' # code @ CHR ''m'' # s) = (code # fst (terminal s), snd (terminal s))"
proof -
  have "takeWhile (\<lambda>c. c \<noteq> CHR ''m'') (code @ CHR ''m'' # s) = code" using assms by (induction code) auto
  moreover have "drop (Suc (length code)) (code @ CHR ''m'' # s) = s" by (induction code) simp_all
  moreover define u where "u = ESC # CHR ''['' # code @ CHR ''m'' # s"
  moreover have "u \<noteq> []" "take 2 u = [ESC, CHR ''['']" "drop 2 u = code @ CHR ''m'' # s" by (simp_all add: u_def)
  ultimately show ?thesis unfolding u_def [symmetric] by (simp add: terminal.simps [of u] Let_def split_beta)
qed

lemma terminal_plain: "ESC \<notin> set t \<Longrightarrow> terminal (t @ s) = (fst (terminal s), t @ snd (terminal s))"
proof (induction t)
  case (Cons c t)
  define u where "u = c # t @ s"
  have "u \<noteq> []" "take 2 u \<noteq> [ESC, CHR ''['']" "tl u = t @ s" "hd u = c" using Cons.prems by (auto simp: u_def numeral_2_eq_2)
  then have "terminal u = (fst (terminal (t @ s)), c # snd (terminal (t @ s)))" by (simp add: terminal.simps [of u] split_beta)
  then show ?case using Cons by (simp add: u_def)
qed simp

lemma colored_prompt:
  assumes "ESC \<notin> set lg \<union> set hn \<union> set d"
  shows "terminal ([ESC] @ ''[01;32m'' @ lg @ ''@khsl-'' @ hn @ [ESC] @ ''[00m:'' @ [ESC] @ ''[01;34m'' @ d @ s) =
    (''01;32'' # ''00'' # ''01;34'' # fst (terminal s), lg @ ''@khsl-'' @ hn @ '':'' @ d @ snd (terminal s))"
proof -
  have d: "terminal (d @ s) = (fst (terminal s), d @ snd (terminal s))" using assms by (intro terminal_plain) simp
  have b: "terminal (ESC # CHR ''['' # ''01;34'' @ CHR ''m'' # d @ s) = (''01;34'' # fst (terminal s), d @ snd (terminal s))"
    by (subst terminal_code) (simp_all add: d)
  have r: "terminal (ESC # CHR ''['' # ''00'' @ CHR ''m'' # '':'' @ ESC # CHR ''['' # ''01;34'' @ CHR ''m'' # d @ s) =
      (''00'' # ''01;34'' # fst (terminal s), '':'' @ d @ snd (terminal s))"
    using b terminal_plain [of "'':''" "ESC # CHR ''['' # ''01;34'' @ CHR ''m'' # d @ s"]
    by (subst terminal_code) (simp_all add: ESC_def)
  have "ESC \<notin> set (lg @ ''@khsl-'' @ hn)" using assms by (auto simp: ESC_def)
  then have h: "terminal ((lg @ ''@khsl-'' @ hn) @ ESC # CHR ''['' # ''00'' @ CHR ''m'' # '':'' @ ESC # CHR ''['' # ''01;34'' @ CHR ''m'' # d @ s) =
      (''00'' # ''01;34'' # fst (terminal s), (lg @ ''@khsl-'' @ hn) @ '':'' @ d @ snd (terminal s))"
    using r by (simp only: terminal_plain not_False_eq_True fst_conv snd_conv)
  show ?thesis using terminal_code [of "''01;32''"] h by simp
qed

text \<open>
  C39. Property of \<open>khsl_export_ps1\<close>: with a login, a host and a directory of at most 540 bytes together and
  without escape characters, what a terminal shows of the prompt is the login, \<open>@khsl-\<close>, the host, a colon,
  the directory, \<open>#\<close> for effective user 0 and \<open>$\<close> otherwise, and a space; with colours these are green, none,
  blue and, in the end, none, and without colours there are no escapes and \<open>KHSL\<close> stands in front. When byte 575 of
  the coloured prompt falls into the directory, the prompt is cut there: it has neither the last
  reset nor the \<open>#\<close> or \<open>$\<close>, and the terminal stays blue.
\<close>

theorem prompt_fits_or_is_cut:
  assumes "lg = prompt_login (p_env p)" "hn = prompt_host K" "d = prompt_cwd K p" "ESC \<notin> set lg \<union> set hn \<union> set d"
    and "p_env (khsl_export_ps1 K p) ''PS1'' = Some ps1"
  shows "(length lg + length hn + length d \<le> 540 \<longrightarrow>
      terminal ps1 =
        (if prompt_no_color (p_env p) then [] else [''01;32'', ''00'', ''01;34'', ''00''],
         (if prompt_no_color (p_env p) then ''KHSL '' else []) @ lg @ ''@khsl-'' @ hn @ '':'' @ d @
           (if p_euid p = 0 then ''# '' else ''$ ''))) \<and>
    (\<not> prompt_no_color (p_env p) \<longrightarrow> length lg + length hn \<le> 547 \<longrightarrow> 547 \<le> length lg + length hn + length d \<longrightarrow>
      terminal ps1 = ([''01;32'', ''00'', ''01;34''], lg @ ''@khsl-'' @ hn @ '':'' @ take (547 - length lg - length hn) d))"
proof (intro conjI impI)
  let ?c = "if p_euid p = 0 then CHR ''#'' else CHR ''$''"
  let ?t = "prompt_text (prompt_no_color (p_env p)) lg hn d ?c"
  have ps1: "ps1 = snprintf_buf 576 ?t" using assms(5) by (simp add: khsl_export_ps1_def Let_def assms(1-3))
  have e: "terminal (ESC # CHR ''['' # ''00'' @ CHR ''m'' # [?c, CHR '' '']) = ([''00''], [?c, CHR '' ''])"
    by (subst terminal_code) (simp_all add: terminal_plain [of "[c, CHR '' '']" "[]" for c, simplified] ESC_def)
  show "terminal ps1 =
      (if prompt_no_color (p_env p) then [] else [''01;32'', ''00'', ''01;34'', ''00''],
       (if prompt_no_color (p_env p) then ''KHSL '' else []) @ lg @ ''@khsl-'' @ hn @ '':'' @ d @
         (if p_euid p = 0 then ''# '' else ''$ ''))"
    if "length lg + length hn + length d \<le> 540"
  proof -
    have t: "ps1 = ?t" using that by (simp add: ps1 snprintf_buf_def prompt_text_def)
    show ?thesis
    proof (cases "prompt_no_color (p_env p)")
      case True
      then have "ESC \<notin> set ?t" using assms(4) by (auto simp: prompt_text_def ESC_def)
      then show ?thesis using terminal_plain [of ?t "[]"] True by (simp add: t prompt_text_def)
    next
      case False
      then show ?thesis using colored_prompt [OF assms(4), of "ESC # CHR ''['' # ''00'' @ CHR ''m'' # [?c, CHR '' '']"] e
        by (simp add: t prompt_text_def)
    qed
  qed
  assume a: "\<not> prompt_no_color (p_env p)" "length lg + length hn \<le> 547" "547 \<le> length lg + length hn + length d"
  let ?d = "take (547 - length lg - length hn) d"
  have "ps1 = take 575 ?t" using a by (simp add: ps1 snprintf_buf_def prompt_text_def)
  also have "\<dots> = [ESC] @ ''[01;32m'' @ lg @ ''@khsl-'' @ hn @ [ESC] @ ''[00m:'' @ [ESC] @ ''[01;34m'' @ ?d @ []"
    using a by (simp add: prompt_text_def take_Cons')
  finally show "terminal ps1 = ([''01;32'', ''00'', ''01;34''], lg @ ''@khsl-'' @ hn @ '':'' @ ?d)"
    using colored_prompt [of lg hn ?d "[]"] assms(4) by (auto dest: in_set_takeD)
qed

theorem prompt_fits_or_is_cut_witness:
  "\<exists>ps1. p_env (khsl_export_ps1 root_os (root_proc\<lparr>p_env := [''TERM'' \<mapsto> ''xterm'', ''USER'' \<mapsto> ''root'']\<rparr>)) ''PS1'' = Some ps1 \<and>
     terminal ps1 = ([''01;32'', ''00'', ''01;34'', ''00''], ''root@khsl-rk3568:/# '')"
proof -
  let ?p = "root_proc\<lparr>p_env := [''TERM'' \<mapsto> ''xterm'', ''USER'' \<mapsto> ''root'']\<rparr>"
  obtain ps1 where s: "p_env (khsl_export_ps1 root_os ?p) ''PS1'' = Some ps1" by (simp add: khsl_export_ps1_def Let_def)
  have v: "''root'' = prompt_login (p_env ?p)" "''rk3568'' = prompt_host root_os" "''/'' = prompt_cwd root_os ?p" "\<not> prompt_no_color (p_env ?p)"
    by (simp_all add: prompt_login_def prompt_host_def prompt_cwd_def prompt_no_color_def getenv_nonempty_def root_os_def
        root_proc_def HOST_NAME_MAX_def)
  from prompt_fits_or_is_cut [OF v(1-3) _ s] v(4) s show ?thesis by (simp add: ESC_def root_proc_def)
qed

text \<open>An answer after which the relay goes on, and the bytes it brings.\<close>

fun still_open :: "poll_answer \<Rightarrow> bool" where
  "still_open (PollFails eintr) = eintr"
| "still_open (PollReady tin sin) = (tin \<noteq> Some None \<and> sin \<noteq> Some None)"

fun chunk :: "string option option \<Rightarrow> string" where
  "chunk (Some (Some b)) = b"
| "chunk _ = []"

fun from_tty :: "poll_answer \<Rightarrow> string" where
  "from_tty (PollReady tin sin) = chunk tin" | "from_tty (PollFails eintr) = []"

fun from_daemon :: "poll_answer \<Rightarrow> string" where
  "from_daemon (PollReady tin sin) = chunk sin" | "from_daemon (PollFails eintr) = []"

lemma relay_open:
  "(\<And>b. taken b = length b) \<Longrightarrow> \<forall>a \<in> set answers. still_open a \<Longrightarrow>
   relay taken answers r =
     (False, r\<lparr>r_sent := r_sent r @ concat (map from_tty answers),
               r_shown := r_shown r @ concat (map from_daemon answers)\<rparr>)"
proof (induction answers arbitrary: r)
  case (Cons a answers)
  show ?case
  proof (cases a)
    case (PollFails eintr)
    with Cons show ?thesis by simp
  next
    case (PollReady tin sin)
    with Cons.prems have "tin \<noteq> Some None" "sin \<noteq> Some None" by simp_all
    with PollReady Cons show ?thesis
      by (cases tin; cases sin) (auto split: option.split)
  qed
qed simp

text \<open>
  The relay keeps order and, when every write is taken whole, every byte: as long as
  neither side has ended, what the daemon got is all terminal input in order and what the
  terminal shows is all daemon output in order, interrupted polls aside. It also shows that
  the relay never ends on its own: poll answers without \<open>POLLIN\<close>, such as a hang-up alone,
  change nothing and keep it polling.
\<close>

theorem relay_in_order:
  assumes "\<And>b. taken b = length b" and "\<forall>a \<in> set answers. still_open a"
  shows "relay taken answers \<lparr>r_sent = [], r_shown = []\<rparr> =
     (False, \<lparr>r_sent = concat (map from_tty answers), r_shown = concat (map from_daemon answers)\<rparr>)"
  using relay_open [OF assms, of "\<lparr>r_sent = [], r_shown = []\<rparr>"] by simp

theorem relay_in_order_witness:
  "relay length [PollReady (Some (Some ''ls'')) None, PollFails True, PollReady None (Some (Some ''a b'')),
     PollReady None None] \<lparr>r_sent = [], r_shown = []\<rparr> = (False, \<lparr>r_sent = ''ls'', r_shown = ''a b''\<rparr>)"
  using relay_in_order [of length "[PollReady (Some (Some ''ls'')) None, PollFails True,
      PollReady None (Some (Some ''a b'')), PollReady None None]"] by simp

end
