(* ===== verification/Bash_Dict.thy ===== *)
theory Bash_Dict imports Prelude begin

text \<open>
  The contract of the containers of bash (\<open>src/khsl/bash/bash-5.2\<close>): a table that stands for
  a finite map. A lookup may change the representation (a counter, a cached position) but not
  the map. The locale \<open>dict\<close> is interpreted by the hash tables and by the sparse arrays.
\<close>

datatype ('k, 'v) dict_op = Ins 'k 'v | Del 'k | Get 'k

fun op_key :: "('k, 'v) dict_op \<Rightarrow> 'k" where
  "op_key (Ins k v) = k" | "op_key (Del k) = k" | "op_key (Get k) = k"

text \<open>The specification: the same operations on a map, with the answers of the lookups.\<close>

fun map_step :: "('k, 'v) dict_op \<Rightarrow> ('k \<Rightarrow> 'v option) \<times> 'v option list \<Rightarrow> ('k \<Rightarrow> 'v option) \<times> 'v option list" where
  "map_step (Ins k v) (m, outs) = (m(k := Some v), outs)"
| "map_step (Del k) (m, outs) = (m(k := None), outs)"
| "map_step (Get k) (m, outs) = (m, outs @ [m k])"

locale dict =
  fixes ok :: "'t \<Rightarrow> bool"
    and valid :: "'k \<Rightarrow> bool"
    and abs :: "'t \<Rightarrow> 'k \<Rightarrow> 'v option"
    and ins :: "'k \<Rightarrow> 'v \<Rightarrow> 't \<Rightarrow> 't"
    and del :: "'k \<Rightarrow> 't \<Rightarrow> 't"
    and get :: "'k \<Rightarrow> 't \<Rightarrow> 'v option \<times> 't"
  assumes ok_ins: "ok t \<Longrightarrow> valid k \<Longrightarrow> ok (ins k v t)"
    and ok_del: "ok t \<Longrightarrow> valid k \<Longrightarrow> ok (del k t)"
    and ok_get: "ok t \<Longrightarrow> valid k \<Longrightarrow> ok (snd (get k t))"
    and abs_ins: "ok t \<Longrightarrow> valid k \<Longrightarrow> abs (ins k v t) = (abs t)(k := Some v)"
    and abs_del: "ok t \<Longrightarrow> valid k \<Longrightarrow> abs (del k t) = (abs t)(k := None)"
    and abs_get: "ok t \<Longrightarrow> valid k \<Longrightarrow> abs (snd (get k t)) = abs t"
    and get_value: "ok t \<Longrightarrow> valid k \<Longrightarrow> fst (get k t) = abs t k"
begin

fun step :: "('k, 'v) dict_op \<Rightarrow> 't \<times> 'v option list \<Rightarrow> 't \<times> 'v option list" where
  "step (Ins k v) (t, outs) = (ins k v t, outs)"
| "step (Del k) (t, outs) = (del k t, outs)"
| "step (Get k) (t, outs) = (let (v, t') = get k t in (t', outs @ [v]))"

lemma step_refines:
  assumes "ok (fst s)" and "valid (op_key p)"
  shows "ok (fst (step p s)) \<and>
    (abs (fst (step p s)), snd (step p s)) = map_step p (abs (fst s), snd s)"
  using assms ok_ins ok_del ok_get abs_ins abs_del abs_get get_value
  by (cases s; cases p) (auto simp: split_beta Let_def)

text \<open>Any sequence of operations answers as the map does, and leaves a table of the right map.\<close>

lemma run_refines:
  "ok (fst s) \<Longrightarrow> \<forall>p \<in> set ps. valid (op_key p) \<Longrightarrow>
   ok (fst (fold step ps s)) \<and>
   (abs (fst (fold step ps s)), snd (fold step ps s)) = fold map_step ps (abs (fst s), snd s)"
proof (induction ps arbitrary: s)
  case (Cons p ps)
  from step_refines [of s p] Cons.prems have
    "ok (fst (step p s))" "(abs (fst (step p s)), snd (step p s)) = map_step p (abs (fst s), snd s)"
    by simp_all
  with Cons.IH [of "step p s"] Cons.prems show ?case by simp
qed simp

lemma run_answers:
  assumes "ok t" and "\<forall>p \<in> set ps. valid (op_key p)"
  shows "snd (fold step ps (t, [])) = snd (fold map_step ps (abs t, []))"
  using run_refines [of "(t, [])" ps] assms by (metis fst_conv snd_conv)

end

end
