(* ===== verification/Bash_Hash.thy ===== *)
theory Bash_Hash imports Bash_Dict "HOL-Library.Multiset" begin

text \<open>
  \<open>src/khsl/bash/bash-5.2/hashlib.c\<close>: bash's hash tables. A chain is a list of its entries,
  the bucket array a list of chains; the pointer to an entry a search returns is the place of
  the entry, bucket and position. An \<open>int\<close> result of a multiplication that may wrap is written
  with \<open>to_int32\<close>. Characters are unsigned, as on the target (AArch64).
  \<open>nentries\<close> is an unbounded number here and an \<open>int\<close> in the code: the same below 2 ^ 31 entries.
\<close>

section \<open>Data\<close>

record 'd bucket_contents =
  bc_key :: string
  bc_data :: "'d option"
  khash :: u32
  times_found :: int

record 'd hash_table =
  bucket_array :: "'d bucket_contents list list"
  nbuckets :: int
  nentries :: int

definition DEFAULT_HASH_BUCKETS :: int where "DEFAULT_HASH_BUCKETS = 128"
definition HASH_NOSRCH :: u32 where "HASH_NOSRCH = 0x01"
definition HASH_CREATE :: u32 where "HASH_CREATE = 0x02"
definition HASH_REHASH_MULTIPLIER :: int where "HASH_REHASH_MULTIPLIER = 4"
definition HASH_REHASH_FACTOR :: int where "HASH_REHASH_FACTOR = 2"

definition to_int32 :: "int \<Rightarrow> int" where
  "to_int32 i = sint (word_of_int i :: 32 word)"

definition HASH_SHOULDGROW :: "'d hash_table \<Rightarrow> bool" where
  "HASH_SHOULDGROW t \<longleftrightarrow> nentries t \<ge> to_int32 (nbuckets t * HASH_REHASH_FACTOR)"

definition HASH_ENTRIES :: "'d hash_table option \<Rightarrow> int" where
  "HASH_ENTRIES t = (case t of Some t \<Rightarrow> nentries t | None \<Rightarrow> 0)"

section \<open>Tables as a whole\<close>

definition hash_create :: "int \<Rightarrow> 'd hash_table" where
  "hash_create buckets =
     (let n = (if buckets = 0 then DEFAULT_HASH_BUCKETS else buckets)
      in \<lparr>bucket_array = replicate (nat n) [], nbuckets = n, nentries = 0\<rparr>)"

definition hash_size :: "'d hash_table option \<Rightarrow> int" where
  "hash_size t = HASH_ENTRIES t"

fun copy_bucket_array :: "('d \<Rightarrow> 'd) \<Rightarrow> 'd bucket_contents list \<Rightarrow> 'd bucket_contents list" where
  "copy_bucket_array cp [] = []"
| "copy_bucket_array cp (e # es) = e\<lparr>bc_data := map_option cp (bc_data e)\<rparr> # copy_bucket_array cp es"

text \<open>The bucket of a hash value.\<close>

definition bucket_of :: "int \<Rightarrow> u32 \<Rightarrow> nat" where
  "bucket_of n h = unat (and h (word_of_int (n - 1)))"

definition link_item :: "nat \<Rightarrow> 'd bucket_contents \<Rightarrow> 'd hash_table \<Rightarrow> 'd hash_table" where
  "link_item b it t = t\<lparr>bucket_array := (bucket_array t)[b := it # bucket_array t ! b]\<rparr>"

definition rehash_chain :: "'d bucket_contents list \<Rightarrow> 'd hash_table \<Rightarrow> 'd hash_table" where
  "rehash_chain chain t = fold (\<lambda>it t. link_item (bucket_of (nbuckets t) (khash it)) it t) chain t"

definition hash_rehash :: "int \<Rightarrow> 'd hash_table \<Rightarrow> 'd hash_table" where
  "hash_rehash nsize t =
     (if nsize = nbuckets t then t
      else fold rehash_chain (bucket_array t)
             (t\<lparr>nbuckets := nsize, bucket_array := replicate (nat nsize) []\<rparr>))"

definition hash_grow :: "'d hash_table \<Rightarrow> 'd hash_table" where
  "hash_grow t =
     (let nsize = to_int32 (nbuckets t * HASH_REHASH_MULTIPLIER)
      in if nsize > 0 then hash_rehash nsize t else t)"

definition hash_shrink :: "'d hash_table \<Rightarrow> 'd hash_table" where
  "hash_shrink t = hash_rehash (nbuckets t div HASH_REHASH_MULTIPLIER) t"

definition hash_copy :: "('d \<Rightarrow> 'd) \<Rightarrow> 'd hash_table option \<Rightarrow> 'd hash_table option" where
  "hash_copy cp table =
     (case table of
        None \<Rightarrow> None
      | Some t \<Rightarrow>
          let new = hash_create (nbuckets t) in
          Some (new\<lparr>bucket_array := map (copy_bucket_array cp) (bucket_array t), nentries := nentries t\<rparr>))"

section \<open>Hashing\<close>

definition FNV_OFFSET :: u32 where "FNV_OFFSET = 2166136261"
definition FNV_PRIME :: u32 where "FNV_PRIME = 16777619"

definition hash_char :: "u32 \<Rightarrow> char \<Rightarrow> u32" where
  "hash_char i c =
     (let i1 = i + (push_bit 1 i + push_bit 4 i + push_bit 7 i + push_bit 8 i + push_bit 24 i)
      in xor i1 (word_of_int (of_char c)))"

fun hash_string_loop :: "u32 \<Rightarrow> string \<Rightarrow> u32" where
  "hash_string_loop i [] = i"
| "hash_string_loop i (c # s) = hash_string_loop (hash_char i c) s"

definition hash_string :: "string \<Rightarrow> u32" where
  "hash_string s = hash_string_loop FNV_OFFSET s"

definition hash_bucket :: "string \<Rightarrow> 'd hash_table \<Rightarrow> nat" where
  "hash_bucket s t = bucket_of (nbuckets t) (hash_string s)"

section \<open>Entries\<close>

fun chain_find :: "u32 \<Rightarrow> string \<Rightarrow> 'd bucket_contents list \<Rightarrow> nat option" where
  "chain_find hv s [] = None"
| "chain_find hv s (e # es) =
     (if hv = khash e \<and> bc_key e = s then Some 0 else map_option Suc (chain_find hv s es))"

definition upd_item ::
  "nat \<times> nat \<Rightarrow> ('d bucket_contents \<Rightarrow> 'd bucket_contents) \<Rightarrow> 'd hash_table \<Rightarrow> 'd hash_table" where
  "upd_item p f t =
     t\<lparr>bucket_array := (bucket_array t)[fst p := (bucket_array t ! fst p)[snd p := f (bucket_array t ! fst p ! snd p)]]\<rparr>"

definition item_at :: "nat \<times> nat \<Rightarrow> 'd hash_table \<Rightarrow> 'd bucket_contents" where
  "item_at p t = bucket_array t ! fst p ! snd p"

definition new_item :: "string \<Rightarrow> 'd bucket_contents" where
  "new_item s = \<lparr>bc_key = s, bc_data = None, khash = hash_string s, times_found = 0\<rparr>"

definition add_item :: "string \<Rightarrow> 'd hash_table \<Rightarrow> (nat \<times> nat) \<times> 'd hash_table" where
  "add_item s t =
     (let t1 = (if HASH_SHOULDGROW t then hash_grow t else t);
          b = hash_bucket s t1
      in ((b, 0), (link_item b (new_item s) t1)\<lparr>nentries := nentries t1 + 1\<rparr>))"

definition hash_search ::
  "string \<Rightarrow> 'd hash_table option \<Rightarrow> u32 \<Rightarrow> (nat \<times> nat) option \<times> 'd hash_table option" where
  "hash_search s table flags =
     (case table of
        None \<Rightarrow> (None, None)
      | Some t \<Rightarrow>
          if and flags HASH_CREATE = 0 \<and> HASH_ENTRIES table = 0 then (None, table)
          else let b = hash_bucket s t in
          case chain_find (hash_string s) s (bucket_array t ! b) of
            Some i \<Rightarrow> (Some (b, i), Some (upd_item (b, i) (\<lambda>e. e\<lparr>times_found := times_found e + 1\<rparr>) t))
          | None \<Rightarrow>
              if and flags HASH_CREATE \<noteq> 0
              then let (p, t1) = add_item s t in (Some p, Some t1)
              else (None, table))"

definition hash_remove ::
  "string \<Rightarrow> 'd hash_table option \<Rightarrow> 'd bucket_contents option \<times> 'd hash_table option" where
  "hash_remove s table =
     (case table of
        None \<Rightarrow> (None, None)
      | Some t \<Rightarrow>
          if HASH_ENTRIES table = 0 then (None, table)
          else let b = hash_bucket s t; chain = bucket_array t ! b in
          case chain_find (hash_string s) s chain of
            None \<Rightarrow> (None, table)
          | Some i \<Rightarrow>
              (Some (chain ! i),
               Some (t\<lparr>bucket_array := (bucket_array t)[b := take i chain @ drop (Suc i) chain],
                       nentries := nentries t - 1\<rparr>)))"

text \<open>A table that is NULL is replaced by a fresh one, which is not handed back.\<close>

definition hash_insert ::
  "string \<Rightarrow> 'd hash_table option \<Rightarrow> u32 \<Rightarrow> (nat \<times> nat) \<times> 'd hash_table" where
  "hash_insert s table flags =
     (let t = (case table of Some t \<Rightarrow> t | None \<Rightarrow> hash_create 0);
          (found, t1) = (if and flags HASH_NOSRCH \<noteq> 0 then (None, Some t) else hash_search s (Some t) 0);
          t2 = (case t1 of Some t1 \<Rightarrow> t1 | None \<Rightarrow> t)
      in case found of
           Some p \<Rightarrow> (p, t2)
         | None \<Rightarrow> add_item s t2)"

definition hash_flush :: "'d hash_table option \<Rightarrow> 'd hash_table option" where
  "hash_flush table =
     (case table of
        None \<Rightarrow> None
      | Some t \<Rightarrow>
          if HASH_ENTRIES table = 0 then table
          else Some (t\<lparr>bucket_array := replicate (nat (nbuckets t)) [], nentries := 0\<rparr>))"

text \<open>The function of a walk may change a state of its own; a negative result stops the walk.\<close>

fun walk_items :: "('d bucket_contents \<Rightarrow> 's \<Rightarrow> int \<times> 's) \<Rightarrow> 'd bucket_contents list \<Rightarrow> 's \<Rightarrow> bool \<times> 's" where
  "walk_items f [] s = (False, s)"
| "walk_items f (e # es) s = (let (r, s1) = f e s in if r < 0 then (True, s1) else walk_items f es s1)"

fun walk_chains :: "('d bucket_contents \<Rightarrow> 's \<Rightarrow> int \<times> 's) \<Rightarrow> 'd bucket_contents list list \<Rightarrow> 's \<Rightarrow> 's" where
  "walk_chains f [] s = s"
| "walk_chains f (c # cs) s = (let (stop, s1) = walk_items f c s in if stop then s1 else walk_chains f cs s1)"

definition hash_walk :: "'d hash_table option \<Rightarrow> ('d bucket_contents \<Rightarrow> 's \<Rightarrow> int \<times> 's) \<Rightarrow> 's \<Rightarrow> 's" where
  "hash_walk table f s =
     (case table of
        None \<Rightarrow> s
      | Some t \<Rightarrow> if HASH_ENTRIES table = 0 then s else walk_chains f (bucket_array t) s)"

section \<open>The invariant and the map of a table\<close>

definition items :: "'d hash_table \<Rightarrow> 'd bucket_contents list" where
  "items t = concat (bucket_array t)"

definition item_pair :: "'d bucket_contents \<Rightarrow> string \<times> 'd option" where
  "item_pair e = (bc_key e, bc_data e)"

text \<open>Every entry stands in the bucket of its hash value.\<close>

definition shape_ok :: "'d hash_table \<Rightarrow> bool" where
  "shape_ok t \<longleftrightarrow>
     0 < nbuckets t \<and> nbuckets t < 2 ^ 31 \<and> length (bucket_array t) = nat (nbuckets t) \<and>
     (\<forall>b < length (bucket_array t). \<forall>e \<in> set (bucket_array t ! b).
        khash e = hash_string (bc_key e) \<and> bucket_of (nbuckets t) (khash e) = b)"

definition ht_ok :: "'d hash_table \<Rightarrow> bool" where
  "ht_ok t \<longleftrightarrow> shape_ok t \<and> distinct (map bc_key (items t)) \<and> nentries t = int (length (items t))"

definition ht_map :: "'d hash_table \<Rightarrow> string \<Rightarrow> 'd option option" where
  "ht_map t = map_of (map item_pair (items t))"

lemma shape_same:
  assumes "shape_ok t" and "nbuckets t' = nbuckets t" and "bucket_array t' = bucket_array t"
  shows "shape_ok t'"
  using assms(1) unfolding shape_ok_def assms(2,3) .

lemma shape_okE:
  "shape_ok t \<Longrightarrow> b < length (bucket_array t) \<Longrightarrow> e \<in> set (bucket_array t ! b) \<Longrightarrow>
   khash e = hash_string (bc_key e) \<and> bucket_of (nbuckets t) (khash e) = b"
  unfolding shape_ok_def by blast

text \<open>Replacing one chain.\<close>

lemma shape_chain:
  assumes "shape_ok t" and "nbuckets t' = nbuckets t" and "bucket_array t' = (bucket_array t)[b := c]"
    and "\<And>e. b < length (bucket_array t) \<Longrightarrow> e \<in> set c \<Longrightarrow>
       khash e = hash_string (bc_key e) \<and> bucket_of (nbuckets t) (khash e) = b"
  shows "shape_ok t'"
proof -
  have "khash e = hash_string (bc_key e) \<and> bucket_of (nbuckets t) (khash e) = b'"
    if "b' < length (bucket_array t)" "e \<in> set ((bucket_array t)[b := c] ! b')" for b' e
    using shape_okE [OF assms(1), of b' e] assms(4) [of e] that by (cases "b' = b") auto
  with assms(1) show ?thesis unfolding shape_ok_def assms(2,3) length_list_update by blast
qed

lemma bucket_of_less: "0 < n \<Longrightarrow> n < 2 ^ 31 \<Longrightarrow> bucket_of n h < nat n"
proof -
  assume n: "0 < n" "n < 2 ^ 31"
  have "and h (word_of_int (n - 1)) \<le> (word_of_int (n - 1) :: u32)" by (rule word_and_le1)
  then have "unat (and h (word_of_int (n - 1))) \<le> unat (word_of_int (n - 1) :: u32)"
    by (simp add: word_le_nat_alt)
  also have "\<dots> = nat (n - 1)"
    unfolding unat_eq_nat_uint uint_word_of_int using n by simp
  finally show ?thesis using n by (simp add: bucket_of_def)
qed

lemma mset_concat_update:
  "b < length xs \<Longrightarrow> mset (concat (xs[b := c])) + mset (xs ! b) = mset c + mset (concat xs)"
proof (induction xs arbitrary: b)
  case (Cons x xs)
  then show ?case by (cases b) (auto simp: ac_simps)
qed simp

lemma in_concat_nth: "e \<in> set (concat xs) \<longleftrightarrow> (\<exists>b < length xs. e \<in> set (xs ! b))"
proof
  assume "e \<in> set (concat xs)"
  then obtain x where "x \<in> set xs" "e \<in> set x" by auto
  then show "\<exists>b < length xs. e \<in> set (xs ! b)" by (metis in_set_conv_nth)
next
  assume "\<exists>b < length xs. e \<in> set (xs ! b)"
  then show "e \<in> set (concat xs)" using nth_mem by fastforce
qed

lemma shape_okD:
  assumes "shape_ok t"
  shows "hash_bucket s t < length (bucket_array t)"
    and "e \<in> set (items t) \<Longrightarrow> khash e = hash_string (bc_key e) \<and> e \<in> set (bucket_array t ! hash_bucket (bc_key e) t)"
proof -
  show "hash_bucket s t < length (bucket_array t)"
    using assms bucket_of_less by (auto simp: shape_ok_def hash_bucket_def)
  assume "e \<in> set (items t)"
  then obtain b where b: "b < length (bucket_array t)" "e \<in> set (bucket_array t ! b)"
    unfolding items_def in_concat_nth by blast
  with assms have "khash e = hash_string (bc_key e)" "bucket_of (nbuckets t) (khash e) = b"
    unfolding shape_ok_def by blast+
  with b show "khash e = hash_string (bc_key e) \<and> e \<in> set (bucket_array t ! hash_bucket (bc_key e) t)"
    by (simp add: hash_bucket_def)
qed

text \<open>Linking an entry into its bucket.\<close>

lemma link_item_sel [simp]: "nbuckets (link_item b it t) = nbuckets t" "nentries (link_item b it t) = nentries t"
    "length (bucket_array (link_item b it t)) = length (bucket_array t)"
  by (simp_all add: link_item_def)

lemma link_item_shape:
  assumes "shape_ok t" and "khash it = hash_string (bc_key it)" and "b = bucket_of (nbuckets t) (khash it)"
  shows "shape_ok (link_item b it t)"
proof (rule shape_chain [OF assms(1), where b = b and c = "it # bucket_array t ! b"])
  show "khash e = hash_string (bc_key e) \<and> bucket_of (nbuckets t) (khash e) = b"
    if "b < length (bucket_array t)" "e \<in> set (it # bucket_array t ! b)" for e
    using shape_okE [OF assms(1), of b e] assms(2,3) that by auto
qed (simp_all add: link_item_def)

lemma link_item_items:
  assumes "b < length (bucket_array t)"
  shows "mset (items (link_item b it t)) = add_mset it (mset (items t))"
proof -
  have "mset (concat ((bucket_array t)[b := it # bucket_array t ! b])) + mset (bucket_array t ! b) =
      add_mset it (mset (concat (bucket_array t))) + mset (bucket_array t ! b)"
    using mset_concat_update [OF assms, of "it # bucket_array t ! b"] by simp
  then have "mset (concat ((bucket_array t)[b := it # bucket_array t ! b])) =
      add_mset it (mset (concat (bucket_array t)))" by (rule add_right_imp_eq)
  then show ?thesis by (simp add: items_def link_item_def)
qed

lemma rehash_chain_ok:
  assumes "\<forall>e \<in> set chain. khash e = hash_string (bc_key e)"
  shows "shape_ok t \<Longrightarrow> shape_ok (rehash_chain chain t) \<and> nbuckets (rehash_chain chain t) = nbuckets t \<and>
    nentries (rehash_chain chain t) = nentries t \<and>
    mset (items (rehash_chain chain t)) = mset chain + mset (items t)"
  using assms
proof (induction chain arbitrary: t)
  case Nil
  then show ?case by (simp add: rehash_chain_def)
next
  case (Cons e chain)
  let ?t = "link_item (bucket_of (nbuckets t) (khash e)) e t"
  have b: "bucket_of (nbuckets t) (khash e) < length (bucket_array t)"
    using Cons.prems bucket_of_less by (auto simp: shape_ok_def)
  have "shape_ok ?t" using Cons.prems by (intro link_item_shape) simp_all
  from Cons.IH [OF this] Cons.prems link_item_items [OF b, of e] show ?case
    by (simp add: rehash_chain_def)
qed

lemma fresh_shape: "0 < n \<Longrightarrow> n < 2 ^ 31 \<Longrightarrow>
    shape_ok (t\<lparr>nbuckets := n, bucket_array := replicate (nat n) []\<rparr>)"
  by (simp add: shape_ok_def)

lemma hash_rehash_ok:
  assumes "shape_ok t" and "0 < n" "n < 2 ^ 31"
  shows "shape_ok (hash_rehash n t) \<and> nentries (hash_rehash n t) = nentries t \<and>
    nbuckets (hash_rehash n t) = n \<and> mset (items (hash_rehash n t)) = mset (items t)"
proof (cases "n = nbuckets t")
  case True
  with assms show ?thesis by (simp add: hash_rehash_def)
next
  case False
  let ?t0 = "t\<lparr>nbuckets := n, bucket_array := replicate (nat n) []\<rparr>"
  have all: "\<forall>c \<in> set (bucket_array t). \<forall>e \<in> set c. khash e = hash_string (bc_key e)"
    using assms(1) unfolding shape_ok_def by (metis in_set_conv_nth)
  have gen: "shape_ok (fold rehash_chain cs s) \<and> nbuckets (fold rehash_chain cs s) = nbuckets s \<and>
      nentries (fold rehash_chain cs s) = nentries s \<and>
      mset (items (fold rehash_chain cs s)) = mset (concat cs) + mset (items s)"
    if "shape_ok s" "\<forall>c \<in> set cs. \<forall>e \<in> set c. khash e = hash_string (bc_key e)" for cs and s :: "'a hash_table"
    using that
  proof (induction cs arbitrary: s)
    case (Cons c cs)
    from rehash_chain_ok [of c s] Cons.prems have
      "shape_ok (rehash_chain c s)" "nbuckets (rehash_chain c s) = nbuckets s"
      "nentries (rehash_chain c s) = nentries s" "mset (items (rehash_chain c s)) = mset c + mset (items s)"
      by simp_all
    with Cons.IH [of "rehash_chain c s"] Cons.prems show ?case by (simp add: ac_simps)
  qed simp
  have "items ?t0 = []" by (simp add: items_def)
  with gen [OF fresh_shape [OF assms(2,3)] all] False show ?thesis
    by (simp add: hash_rehash_def items_def)
qed

text \<open>Tables with the same entries are the same map.\<close>

lemma ht_ok_mset:
  assumes "ht_ok t" and "shape_ok t'" and "mset (items t') = mset (items t)" and "nentries t' = nentries t"
  shows "ht_ok t' \<and> ht_map t' = ht_map t"
proof -
  have "mset (map bc_key (items t')) = mset (map bc_key (items t))" using assms(3) by simp
  from mset_eq_imp_distinct_iff [OF this] have d: "distinct (map bc_key (items t'))"
    using assms(1) by (simp add: ht_ok_def)
  have len: "length (items t') = length (items t)" using assms(3) by (metis size_mset)
  have fst: "fst \<circ> item_pair = bc_key" by (rule ext) (simp add: item_pair_def)
  have "set (items t') = set (items t)" using assms(3) by (metis set_mset_mset)
  then have "map_of (map item_pair (items t')) = map_of (map item_pair (items t))"
    using d assms(1) by (subst map_of_inject_set) (simp_all add: ht_ok_def fst)
  with d len assms show ?thesis by (simp add: ht_ok_def ht_map_def)
qed

lemma fst_item_pair: "fst \<circ> item_pair = bc_key"
  by (rule ext) (simp add: item_pair_def)

text \<open>One entry more: the map of the entries gets its key.\<close>

lemma items_add_mset:
  assumes m: "mset xs = add_mset e (mset ys)" and d: "distinct (map bc_key xs)"
  shows "map_of (map item_pair xs) = (map_of (map item_pair ys))(bc_key e \<mapsto> bc_data e)"
    and "distinct (map bc_key ys)" and "bc_key e \<notin> bc_key ` set ys"
proof -
  have e: "mset xs = mset (e # ys)" using m by simp
  then have "mset (map bc_key xs) = mset (map bc_key (e # ys))" by (simp only: mset_map)
  from mset_eq_imp_distinct_iff [OF this] d have d': "distinct (map bc_key (e # ys))" by simp
  then show "distinct (map bc_key ys)" "bc_key e \<notin> bc_key ` set ys" by simp_all
  have "set xs = set (e # ys)" using e by (metis set_mset_mset)
  then have "map_of (map item_pair xs) = map_of (map item_pair (e # ys))"
    using d d' by (subst map_of_inject_set) (simp_all add: fst_item_pair, simp add: item_pair_def)
  then show "map_of (map item_pair xs) = (map_of (map item_pair ys))(bc_key e \<mapsto> bc_data e)"
    by (simp add: item_pair_def)
qed

lemma items_add_distinct:
  assumes "mset xs = add_mset e (mset ys)" and "distinct (map bc_key ys)" and "bc_key e \<notin> bc_key ` set ys"
  shows "distinct (map bc_key xs)"
proof -
  have "mset (map bc_key xs) = mset (map bc_key (e # ys))" using assms(1) by (simp only: mset_map) simp
  from mset_eq_imp_distinct_iff [OF this] show ?thesis using assms(2,3) by simp
qed

lemma ht_map_key: "bc_key ` set (items t) = dom (ht_map t)"
  by (simp add: ht_map_def dom_map_of_conv_image_fst image_image item_pair_def)

lemma mset_length_add: "mset xs = add_mset e (mset ys) \<Longrightarrow> length xs = Suc (length ys)"
  by (metis size_add_mset size_mset)

lemma ht_add:
  assumes ok: "ht_ok t" and s: "shape_ok t'" and m: "mset (items t') = add_mset e (mset (items t))"
    and n: "nentries t' = nentries t + 1" and new: "ht_map t (bc_key e) = None"
  shows "ht_ok t' \<and> ht_map t' = (ht_map t)(bc_key e \<mapsto> bc_data e)"
proof -
  have "bc_key e \<notin> bc_key ` set (items t)" using new by (simp add: ht_map_key domIff)
  with ok m have d: "distinct (map bc_key (items t'))" by (intro items_add_distinct [OF m]) (simp_all add: ht_ok_def)
  with items_add_mset(1) [OF m d] mset_length_add [OF m] ok s n show ?thesis
    by (simp add: ht_ok_def ht_map_def)
qed

lemma ht_del:
  assumes ok: "ht_ok t" and s: "shape_ok t'" and m: "mset (items t) = add_mset e (mset (items t'))"
    and n: "nentries t' = nentries t - 1"
  shows "ht_ok t' \<and> ht_map t' = (ht_map t)(bc_key e := None)"
proof -
  have d: "distinct (map bc_key (items t))" using ok by (simp add: ht_ok_def)
  note i = items_add_mset [OF m d]
  from i(3) have "ht_map t' (bc_key e) = None" by (simp add: ht_map_key domIff)
  then have "ht_map t' = (ht_map t)(bc_key e := None)" using i(1) by (auto simp: ht_map_def)
  with i(2) mset_length_add [OF m] ok s n show ?thesis by (simp add: ht_ok_def)
qed

text \<open>Growing.\<close>

lemma hash_grow_ok:
  assumes "ht_ok t"
  shows "ht_ok (hash_grow t) \<and> ht_map (hash_grow t) = ht_map t \<and> nentries (hash_grow t) = nentries t"
proof (cases "to_int32 (nbuckets t * HASH_REHASH_MULTIPLIER) > 0")
  case False
  with assms show ?thesis by (simp add: hash_grow_def Let_def)
next
  case True
  let ?n = "to_int32 (nbuckets t * HASH_REHASH_MULTIPLIER)"
  have "?n < 2 ^ 31"
    using sint_lt [of "word_of_int (nbuckets t * HASH_REHASH_MULTIPLIER) :: 32 word"]
    by (simp add: to_int32_def)
  with True hash_rehash_ok [of t ?n] assms have
    "shape_ok (hash_rehash ?n t)" "nentries (hash_rehash ?n t) = nentries t"
    "mset (items (hash_rehash ?n t)) = mset (items t)" by (simp_all add: ht_ok_def)
  with ht_ok_mset [OF assms] True show ?thesis by (simp add: hash_grow_def Let_def)
qed

text \<open>Searching a chain.\<close>

lemma chain_find_Some:
  "chain_find hv s es = Some i \<Longrightarrow> i < length es \<and> khash (es ! i) = hv \<and> bc_key (es ! i) = s"
  by (induction es arbitrary: i) (auto split: if_splits)

lemma chain_find_None: "chain_find hv s es = None \<Longrightarrow> e \<in> set es \<Longrightarrow> khash e \<noteq> hv \<or> bc_key e \<noteq> s"
  by (induction es) (auto split: if_splits)

lemma ht_mapI: "ht_ok t \<Longrightarrow> e \<in> set (items t) \<Longrightarrow> ht_map t (bc_key e) = Some (bc_data e)"
  unfolding ht_map_def
  by (rule map_of_is_SomeI) (auto simp: ht_ok_def fst_item_pair item_pair_def)

lemma chain_find_ht_map:
  assumes ok: "ht_ok t"
  shows "case chain_find (hash_string s) s (bucket_array t ! hash_bucket s t) of
      None \<Rightarrow> ht_map t s = None
    | Some i \<Rightarrow> i < length (bucket_array t ! hash_bucket s t) \<and> bc_key (item_at (hash_bucket s t, i) t) = s \<and>
        item_at (hash_bucket s t, i) t \<in> set (items t) \<and>
        ht_map t s = Some (bc_data (item_at (hash_bucket s t, i) t))"
proof (cases "chain_find (hash_string s) s (bucket_array t ! hash_bucket s t)")
  case None
  have sh: "shape_ok t" using ok by (simp add: ht_ok_def)
  have "s \<notin> bc_key ` set (items t)"
  proof
    assume "s \<in> bc_key ` set (items t)"
    then obtain e where e: "e \<in> set (items t)" "bc_key e = s" by auto
    with shape_okD(2) [OF sh e(1)] chain_find_None [OF None, of e] show False by simp
  qed
  with None show ?thesis by (simp add: ht_map_key domIff)
next
  case (Some i)
  let ?e = "item_at (hash_bucket s t, i) t"
  have sh: "shape_ok t" using ok by (simp add: ht_ok_def)
  from chain_find_Some [OF Some] have i: "i < length (bucket_array t ! hash_bucket s t)" "bc_key ?e = s"
    by (simp_all add: item_at_def)
  then have "?e \<in> set (items t)"
    using shape_okD(1) [OF sh, of s] unfolding items_def in_concat_nth item_at_def by (metis fst_conv nth_mem snd_conv)
  with ht_mapI [OF ok this] i Some show ?thesis by simp
qed

text \<open>Adding a new entry.\<close>

lemma add_item_ok:
  assumes "ht_ok t" and "ht_map t s = None"
  shows "ht_ok (snd (add_item s t)) \<and> ht_map (snd (add_item s t)) = (ht_map t)(s \<mapsto> None) \<and>
    item_at (fst (add_item s t)) (snd (add_item s t)) = new_item s \<and>
    fst (fst (add_item s t)) < length (bucket_array (snd (add_item s t))) \<and>
    snd (fst (add_item s t)) < length (bucket_array (snd (add_item s t)) ! fst (fst (add_item s t)))"
proof -
  define t1 where "t1 = (if HASH_SHOULDGROW t then hash_grow t else t)"
  have t1: "ht_ok t1" "ht_map t1 = ht_map t"
    using hash_grow_ok [OF assms(1)] assms(1) by (auto simp: t1_def)
  let ?b = "hash_bucket s t1"
  have sh: "shape_ok t1" using t1 by (simp add: ht_ok_def)
  have b: "?b < length (bucket_array t1)" by (rule shape_okD(1) [OF sh])
  let ?t2 = "(link_item ?b (new_item s) t1)\<lparr>nentries := nentries t1 + 1\<rparr>"
  have r: "add_item s t = ((?b, 0), ?t2)" by (simp add: add_item_def t1_def Let_def)
  have "shape_ok (link_item ?b (new_item s) t1)"
    by (rule link_item_shape [OF sh]) (simp_all add: new_item_def hash_bucket_def)
  then have "shape_ok ?t2" by (rule shape_same) simp_all
  moreover have "mset (items ?t2) = add_mset (new_item s) (mset (items t1))"
    using link_item_items [OF b, of "new_item s"] by (simp add: items_def)
  ultimately have "ht_ok ?t2 \<and> ht_map ?t2 = (ht_map t1)(bc_key (new_item s) \<mapsto> bc_data (new_item s))"
    using ht_add [OF t1(1), of ?t2 "new_item s"] by (simp add: t1 assms(2) new_item_def)
  with t1 b show ?thesis unfolding r by (simp add: item_at_def link_item_def new_item_def)
qed

text \<open>Changing an entry in place, without touching its key.\<close>

lemma upd_item_ok:
  assumes ok: "ht_ok t" and p: "fst p < length (bucket_array t)" "snd p < length (bucket_array t ! fst p)"
    and f: "\<And>e. bc_key (f e) = bc_key e" "\<And>e. khash (f e) = khash e"
  shows "ht_ok (upd_item p f t) \<and>
    ht_map (upd_item p f t) = (ht_map t)(bc_key (item_at p t) \<mapsto> bc_data (f (item_at p t)))"
proof -
  obtain b i where pb: "p = (b, i)" by fastforce
  let ?xs = "bucket_array t"
  let ?e = "item_at p t"
  let ?t1 = "t\<lparr>bucket_array := ?xs[b := take i (?xs ! b) @ drop (Suc i) (?xs ! b)], nentries := nentries t - 1\<rparr>"
  let ?t2 = "upd_item p f t"
  have bi: "b < length ?xs" "i < length (?xs ! b)" using p pb by simp_all
  have chain: "?xs ! b = take i (?xs ! b) @ ?e # drop (Suc i) (?xs ! b)"
    using bi by (simp add: item_at_def pb id_take_nth_drop)
  have sh: "shape_ok t" using ok by (simp add: ht_ok_def)
  have in_b: "khash e = hash_string (bc_key e) \<and> bucket_of (nbuckets t) (khash e) = b"
    if "e \<in> set (?xs ! b)" for e using shape_okE [OF sh bi(1) that] .
  have sh1: "shape_ok ?t1"
    by (rule shape_chain [OF sh, where b = b and c = "take i (?xs ! b) @ drop (Suc i) (?xs ! b)"])
      (use in_b in \<open>auto dest: in_set_takeD in_set_dropD\<close>)
  have sh2: "shape_ok ?t2"
  proof (rule shape_chain [OF sh, where b = b and c = "(?xs ! b)[i := f (?xs ! b ! i)]"])
    fix e assume "e \<in> set ((?xs ! b)[i := f (?xs ! b ! i)])"
    then have "e = f (?xs ! b ! i) \<or> e \<in> set (?xs ! b)" using set_update_subset_insert by fastforce
    then show "khash e = hash_string (bc_key e) \<and> bucket_of (nbuckets t) (khash e) = b"
      using in_b [of e] in_b [of "?xs ! b ! i"] bi(2) f by auto
  qed (simp_all add: upd_item_def pb)
  let ?c = "take i (?xs ! b) @ drop (Suc i) (?xs ! b)"
  have mc: "mset (?xs ! b) = add_mset ?e (mset ?c)"
    by (rule trans [OF arg_cong [OF chain, of mset]]) simp
  have mu: "mset ((?xs ! b)[i := f (?xs ! b ! i)]) = add_mset (f ?e) (mset ?c)"
    using bi(2) by (simp add: upd_conv_take_nth_drop item_at_def pb)
  have "mset (concat (?xs[b := ?c])) + add_mset ?e (mset ?c) = mset ?c + mset (concat ?xs)"
    using mset_concat_update [OF bi(1), of ?c] unfolding mc .
  then have "add_mset ?e (mset (concat (?xs[b := ?c]))) + mset ?c = mset (concat ?xs) + mset ?c"
    by (simp add: ac_simps)
  then have c1: "add_mset ?e (mset (concat (?xs[b := ?c]))) = mset (concat ?xs)" by (rule add_right_imp_eq)
  then have m1: "mset (items t) = add_mset ?e (mset (items ?t1))" by (simp add: items_def)
  have "mset (concat (?xs[b := (?xs ! b)[i := f (?xs ! b ! i)]])) + add_mset ?e (mset ?c) =
      add_mset (f ?e) (mset ?c) + mset (concat ?xs)"
    using mset_concat_update [OF bi(1), of "(?xs ! b)[i := f (?xs ! b ! i)]"] unfolding mc mu .
  then have "mset (concat (?xs[b := (?xs ! b)[i := f (?xs ! b ! i)]])) + add_mset ?e (mset ?c) =
      add_mset (f ?e) (mset (concat (?xs[b := ?c]))) + add_mset ?e (mset ?c)"
    unfolding c1 [symmetric] by (simp add: ac_simps)
  then have "mset (concat (?xs[b := (?xs ! b)[i := f (?xs ! b ! i)]])) = add_mset (f ?e) (mset (concat (?xs[b := ?c])))"
    by (rule add_right_imp_eq)
  then have m2: "mset (items ?t2) = add_mset (f ?e) (mset (items ?t1))" by (simp add: items_def upd_item_def pb)
  have d1: "ht_ok ?t1 \<and> ht_map ?t1 = (ht_map t)(bc_key ?e := None)"
    by (rule ht_del [OF ok sh1 m1]) simp
  have "ht_ok ?t2 \<and> ht_map ?t2 = (ht_map ?t1)(bc_key (f ?e) \<mapsto> bc_data (f ?e))"
    by (rule ht_add [OF _ sh2 m2]) (use d1 in \<open>simp_all add: f upd_item_def\<close>)
  with d1 f show ?thesis by simp
qed

text \<open>The operations.\<close>

lemma hash_create_ok:
  assumes "0 \<le> n" "n < 2 ^ 31"
  shows "ht_ok (hash_create n) \<and> ht_map (hash_create n) = Map.empty"
  using assms by (auto simp: hash_create_def ht_ok_def shape_ok_def ht_map_def items_def DEFAULT_HASH_BUCKETS_def Let_def)

lemma empty_table: "ht_ok t \<Longrightarrow> nentries t = 0 \<Longrightarrow> ht_map t = Map.empty"
  by (simp add: ht_ok_def ht_map_def)

lemma times_found_ok:
  assumes "ht_ok t" and "b < length (bucket_array t)" and "i < length (bucket_array t ! b)"
  shows "ht_ok (upd_item (b, i) (\<lambda>e. e\<lparr>times_found := times_found e + 1\<rparr>) t) \<and>
    ht_map (upd_item (b, i) (\<lambda>e. e\<lparr>times_found := times_found e + 1\<rparr>) t) = ht_map t"
proof -
  let ?e = "item_at (b, i) t"
  have "?e \<in> set (items t)"
    using assms(2,3) unfolding items_def in_concat_nth by (auto simp: item_at_def intro!: exI [of _ b])
  from ht_mapI [OF assms(1) this] have "(ht_map t)(bc_key ?e \<mapsto> bc_data ?e) = ht_map t"
    by (simp add: fun_upd_idem)
  with upd_item_ok [OF assms(1), of "(b, i)" "\<lambda>e. e\<lparr>times_found := times_found e + 1\<rparr>"] assms(2,3)
  show ?thesis by simp
qed

text \<open>A search: what is found is the entry of the key, and only a created entry changes the map.\<close>

lemma hash_search_ok:
  assumes ok: "ht_ok t"
  shows "\<exists>t'. snd (hash_search s (Some t) flags) = Some t' \<and> ht_ok t' \<and>
     (case fst (hash_search s (Some t) flags) of
        None \<Rightarrow> ht_map t s = None \<and> and flags HASH_CREATE = 0 \<and> ht_map t' = ht_map t
      | Some p \<Rightarrow> fst p < length (bucket_array t') \<and> snd p < length (bucket_array t' ! fst p) \<and>
          bc_key (item_at p t') = s \<and> ht_map t' s = Some (bc_data (item_at p t')) \<and>
          ht_map t' = (if ht_map t s = None then (ht_map t)(s \<mapsto> None) else ht_map t) \<and>
          (ht_map t s \<noteq> None \<or> and flags HASH_CREATE \<noteq> 0))"
proof (cases "and flags HASH_CREATE = 0 \<and> nentries t = 0")
  case True
  with empty_table [OF ok] ok show ?thesis by (simp add: hash_search_def HASH_ENTRIES_def)
next
  case False
  let ?b = "hash_bucket s t"
  have b: "?b < length (bucket_array t)" using ok shape_okD(1) by (auto simp: ht_ok_def)
  note found = chain_find_ht_map [OF ok, of s]
  show ?thesis
  proof (cases "chain_find (hash_string s) s (bucket_array t ! ?b)")
    case (Some i)
    let ?f = "\<lambda>e. e\<lparr>times_found := times_found e + 1\<rparr>"
    let ?t' = "upd_item (?b, i) ?f t"
    from found Some have i: "i < length (bucket_array t ! ?b)" "bc_key (item_at (?b, i) t) = s"
      "ht_map t s = Some (bc_data (item_at (?b, i) t))" by simp_all
    have at: "item_at (?b, i) ?t' = ?f (item_at (?b, i) t)" "length (bucket_array ?t') = length (bucket_array t)"
        "length (bucket_array ?t' ! ?b) = length (bucket_array t ! ?b)"
      using b i(1) by (simp_all add: item_at_def upd_item_def)
    have "hash_search s (Some t) flags = (Some (?b, i), Some ?t')"
      using False Some by (simp add: hash_search_def HASH_ENTRIES_def Let_def)
    with times_found_ok [OF ok b i(1)] at b i show ?thesis by simp
  next
    case None
    with found have n: "ht_map t s = None" by simp
    show ?thesis
    proof (cases "and flags HASH_CREATE = 0")
      case True
      with False None n ok show ?thesis by (simp add: hash_search_def HASH_ENTRIES_def Let_def)
    next
      case create: False
      have "hash_search s (Some t) flags = (Some (fst (add_item s t)), Some (snd (add_item s t)))"
        using create None by (simp add: hash_search_def HASH_ENTRIES_def Let_def split_beta)
      with add_item_ok [OF ok n] n create show ?thesis by (simp add: new_item_def)
    qed
  qed
qed

lemma hash_remove_ok:
  assumes ok: "ht_ok t"
  shows "\<exists>t'. snd (hash_remove s (Some t)) = Some t' \<and> ht_ok t' \<and> ht_map t' = (ht_map t)(s := None) \<and>
     map_option bc_data (fst (hash_remove s (Some t))) = ht_map t s"
proof (cases "nentries t = 0")
  case True
  with empty_table [OF ok] ok show ?thesis by (simp add: hash_remove_def HASH_ENTRIES_def)
next
  case False
  let ?b = "hash_bucket s t"
  let ?c = "bucket_array t ! ?b"
  have sh: "shape_ok t" using ok by (simp add: ht_ok_def)
  have b: "?b < length (bucket_array t)" by (rule shape_okD(1) [OF sh])
  note found = chain_find_ht_map [OF ok, of s]
  show ?thesis
  proof (cases "chain_find (hash_string s) s ?c")
    case None
    with False found ok show ?thesis by (simp add: hash_remove_def HASH_ENTRIES_def Let_def fun_upd_idem)
  next
    case (Some i)
    let ?e = "item_at (?b, i) t"
    let ?r = "take i ?c @ drop (Suc i) ?c"
    let ?t' = "t\<lparr>bucket_array := (bucket_array t)[?b := ?r], nentries := nentries t - 1\<rparr>"
    from found Some have i: "i < length ?c" "bc_key ?e = s" "ht_map t s = Some (bc_data ?e)" by simp_all
    have chain: "?c = take i ?c @ ?e # drop (Suc i) ?c" using i(1) by (simp add: item_at_def id_take_nth_drop)
    have mc: "mset ?c = add_mset ?e (mset ?r)" by (rule trans [OF arg_cong [OF chain, of mset]]) simp
    have "add_mset ?e (mset (concat ((bucket_array t)[?b := ?r]))) + mset ?r = mset (concat (bucket_array t)) + mset ?r"
      using mset_concat_update [OF b, of ?r] unfolding mc by (simp add: ac_simps)
    then have "add_mset ?e (mset (concat ((bucket_array t)[?b := ?r]))) = mset (concat (bucket_array t))"
      by (rule add_right_imp_eq)
    then have m: "mset (items t) = add_mset ?e (mset (items ?t'))" by (simp add: items_def)
    have sh': "shape_ok ?t'"
      by (rule shape_chain [OF sh, where b = ?b and c = ?r])
        (use shape_okE [OF sh b] in \<open>auto dest: in_set_takeD in_set_dropD\<close>)
    have "hash_remove s (Some t) = (Some (?c ! i), Some ?t')"
      using False Some by (simp add: hash_remove_def HASH_ENTRIES_def Let_def)
    with ht_del [OF ok sh' m] i show ?thesis by (simp add: item_at_def)
  qed
qed


section \<open>The table as a whole\<close>

lemma copy_bucket_array_map:
  "copy_bucket_array cp es = map (\<lambda>e. e\<lparr>bc_data := map_option cp (bc_data e)\<rparr>) es"
  by (induction es) simp_all

lemma map_of_copied:
  "map_of (map (item_pair \<circ> (\<lambda>e. e\<lparr>bc_data := map_option cp (bc_data e)\<rparr>)) es) s =
   map_option (map_option cp) (map_of (map item_pair es) s)"
  by (induction es) (simp_all add: item_pair_def)

lemma hash_copy_ok:
  assumes ok: "ht_ok t"
  shows "\<exists>u. hash_copy cp (Some t) = Some u \<and> ht_ok u \<and> nbuckets u = nbuckets t \<and>
    ht_map u = (\<lambda>s. map_option (map_option cp) (ht_map t s))"
proof -
  let ?f = "\<lambda>e. e\<lparr>bc_data := map_option cp (bc_data e)\<rparr>"
  let ?u = "(hash_create (nbuckets t))\<lparr>bucket_array := map (copy_bucket_array cp) (bucket_array t), nentries := nentries t\<rparr>"
  have sh: "shape_ok t" using ok by (simp add: ht_ok_def)
  then have nb: "nbuckets ?u = nbuckets t" by (simp add: hash_create_def Let_def shape_ok_def)
  have cpy: "copy_bucket_array cp = map ?f" by (rule ext) (simp add: copy_bucket_array_map)
  have it: "items (v\<lparr>bucket_array := map (copy_bucket_array cp) (bucket_array t), nentries := n\<rparr>) = map ?f (items t)"
    for v :: "'a hash_table" and n by (simp add: items_def cpy map_concat)
  have "shape_ok ?u"
    unfolding shape_ok_def nb
    using sh shape_okE [OF sh] by (fastforce simp: shape_ok_def cpy)
  moreover have "distinct (map bc_key (items ?u))" "nentries ?u = int (length (items ?u))"
    using ok by (simp_all add: it comp_def ht_ok_def)
  moreover have "ht_map ?u = (\<lambda>s. map_option (map_option cp) (ht_map t s))"
    by (rule ext) (simp add: ht_map_def it map_of_copied)
  ultimately show ?thesis using nb by (simp add: hash_copy_def Let_def ht_ok_def)
qed

lemma hash_flush_ok:
  assumes "ht_ok t"
  shows "\<exists>u. hash_flush (Some t) = Some u \<and> ht_ok u \<and> nbuckets u = nbuckets t \<and> ht_map u = Map.empty"
proof (cases "nentries t = 0")
  case True
  with assms empty_table [OF assms] show ?thesis by (simp add: hash_flush_def HASH_ENTRIES_def)
next
  case False
  let ?u = "t\<lparr>bucket_array := replicate (nat (nbuckets t)) [], nentries := 0\<rparr>"
  have "shape_ok ?u" using assms by (simp add: ht_ok_def shape_ok_def)
  moreover have "items ?u = []" by (simp add: items_def)
  ultimately have "ht_ok ?u \<and> ht_map ?u = Map.empty" by (simp add: ht_ok_def ht_map_def)
  with False show ?thesis by (simp add: hash_flush_def HASH_ENTRIES_def)
qed

lemma hash_shrink_ok:
  assumes "ht_ok t" and "HASH_REHASH_MULTIPLIER \<le> nbuckets t"
  shows "ht_ok (hash_shrink t) \<and> ht_map (hash_shrink t) = ht_map t"
proof -
  have sh: "shape_ok t" using assms(1) by (simp add: ht_ok_def)
  then have nb: "0 < nbuckets t" "nbuckets t < 2 ^ 31" unfolding shape_ok_def by blast+
  have "nbuckets t div HASH_REHASH_MULTIPLIER \<le> nbuckets t" "0 < nbuckets t div HASH_REHASH_MULTIPLIER"
    using assms(2) nb(1) by (auto simp: HASH_REHASH_MULTIPLIER_def)
  with nb(2) have n: "0 < nbuckets t div HASH_REHASH_MULTIPLIER" "nbuckets t div HASH_REHASH_MULTIPLIER < 2 ^ 31"
    by linarith+
  note r = hash_rehash_ok [OF sh n]
  show ?thesis unfolding hash_shrink_def by (rule ht_ok_mset [OF assms(1)]) (use r in blast)+
qed

section \<open>Properties\<close>

text \<open>
  The hash of a key is the 32-bit FNV-1 multiply-and-xor of its bytes from the right offset:
  the shifts and additions of \<open>hash_string\<close> are the multiplication by the FNV prime.
\<close>

theorem hash_string_is_fnv:
  "hash_string s = foldl (\<lambda>i c. xor (i * FNV_PRIME) (word_of_int (of_char c))) FNV_OFFSET s"
proof -
  have "hash_char i c = xor (i * FNV_PRIME) (word_of_int (of_char c))" for i c
    by (simp add: hash_char_def Let_def FNV_PRIME_def push_bit_eq_mult algebra_simps)
  then have "hash_string_loop i s = foldl (\<lambda>i c. xor (i * FNV_PRIME) (word_of_int (of_char c))) i s" for i
    by (induction s arbitrary: i) simp_all
  then show ?thesis by (simp add: hash_string_def)
qed

text \<open>
  Rebuilding a table never loses an entry: growing it, however its size wraps, and shrinking
  it from at least four buckets keep the map, a copy has the same keys with their data copied,
  a flush leaves an empty table, and each time the result is a well-formed table again.
\<close>

theorem hash_rebuild_keeps_entries:
  assumes "ht_ok t"
  shows "(ht_ok (hash_grow t) \<and> ht_map (hash_grow t) = ht_map t) \<and>
    (HASH_REHASH_MULTIPLIER \<le> nbuckets t \<longrightarrow> ht_ok (hash_shrink t) \<and> ht_map (hash_shrink t) = ht_map t) \<and>
    (\<exists>u. hash_copy cp (Some t) = Some u \<and> ht_ok u \<and> ht_map u = (\<lambda>s. map_option (map_option cp) (ht_map t s))) \<and>
    (\<exists>u. hash_flush (Some t) = Some u \<and> ht_ok u \<and> ht_map u = Map.empty)"
  using hash_grow_ok [OF assms] hash_shrink_ok [OF assms] hash_copy_ok [OF assms] hash_flush_ok [OF assms] by blast

definition two_keys :: "string hash_table" where
  "two_keys = snd (add_item ''b'' (snd (add_item ''a'' (hash_create 4))))"

lemma two_keys_ok: "ht_ok two_keys \<and> ht_map two_keys = [''a'' \<mapsto> None, ''b'' \<mapsto> None]"
proof -
  have 0: "ht_ok (hash_create 4 :: string hash_table)" "ht_map (hash_create 4 :: string hash_table) = Map.empty"
    using hash_create_ok [of 4, where 'a = string] by auto
  with add_item_ok [OF 0(1), of "''a''"] have 1: "ht_ok (snd (add_item ''a'' (hash_create 4 :: string hash_table)))"
    "ht_map (snd (add_item ''a'' (hash_create 4 :: string hash_table))) = [''a'' \<mapsto> None]" by simp_all
  with add_item_ok [OF 1(1), of "''b''"] show ?thesis by (simp add: two_keys_def)
qed

theorem hash_rebuild_keeps_entries_witness:
  "ht_map (hash_grow two_keys) = [''a'' \<mapsto> None, ''b'' \<mapsto> None]"
  using hash_rebuild_keeps_entries [of two_keys] two_keys_ok by simp

end
