(* ===== verification/Bash_Quote.thy ===== *)
theory Bash_Quote imports Prelude begin

text \<open>
  The quoting functions of bash (\<open>src/khsl/bash/bash-5.2\<close>): the CTLESC quoting of
  \<open>subst.c\<close> and the quoting for re-reading by the shell of \<open>lib/sh/shquote.c\<close> and
  \<open>lib/sh/strtrans.c\<close>. Characters are unsigned bytes. What the C library knows of the locale
  is the record \<open>locale_ops\<close>; a shift state is not modelled (\<open>mbrlen\<close> starts each character in
  the initial state, as in every encoding without shift states).
\<close>

section \<open>Characters\<close>

definition CTLESC :: char where "CTLESC = CHR 0x01"
definition CTLNUL :: char where "CTLNUL = CHR 0x7F"

text \<open>\<open>lc_mbrlen\<close> answers a length, 0, or -1 or -2 for what is no complete character.\<close>

record locale_ops =
  lc_multibyte :: bool
  lc_utf8 :: bool
  lc_mbrlen :: "string \<Rightarrow> int"
  lc_mbrtowc :: "string \<Rightarrow> int \<times> nat"
  lc_mbstowcs :: "string \<Rightarrow> nat list option"
  lc_iswprint :: "nat \<Rightarrow> bool"
  lc_isprint :: "char \<Rightarrow> bool"

definition is_basic_table :: "u32 list" where
  "is_basic_table = [0x00001a00, 0xffffffef, 0xfffffffe, 0x7ffffffe, 0, 0, 0, 0]"

definition is_basic :: "char \<Rightarrow> bool" where
  "is_basic c = bit (is_basic_table ! (of_char c div 32)) (of_char c mod 32)"

definition high_bit :: "char \<Rightarrow> bool" where
  "high_bit c \<longleftrightarrow> (of_char c :: nat) \<ge> 0x80"

text \<open>How many bytes \<open>COPY_CHAR_P\<close> copies from the start of a non-empty string.\<close>

definition char_len :: "locale_ops \<Rightarrow> string \<Rightarrow> nat" where
  "char_len L s =
     (if lc_multibyte L
      then if is_basic (hd s) \<or> lc_utf8 L \<and> \<not> high_bit (hd s) then 1
           else let n = lc_mbrlen L s in if n < 1 then 1 else nat n
      else 1)"

lemma char_len_pos: "0 < char_len L s"
  by (simp add: char_len_def Let_def)

section \<open>CTLESC quoting (subst.c)\<close>

text \<open>
  The copying loops. \<open>q\<close> says which first bytes get a CTLESC; \<open>skip\<close> says whether a CTLESC
  before the given rest of the string is dropped.
\<close>

function quote_loop :: "locale_ops \<Rightarrow> (char \<Rightarrow> bool) \<Rightarrow> string \<Rightarrow> string" where
  "quote_loop L q s =
     (if s = [] then []
      else (if q (hd s) then [CTLESC] else []) @ take (char_len L s) s @
             quote_loop L q (drop (char_len L s) s))"
  by pat_completeness auto
termination by (relation "measure (\<lambda>(L, q, s). length s)") (auto simp: char_len_pos)

function dequote_loop :: "locale_ops \<Rightarrow> (string \<Rightarrow> bool) \<Rightarrow> string \<Rightarrow> string" where
  "dequote_loop L skip s =
     (if s = [] then []
      else let s1 = (if hd s = CTLESC \<and> skip (tl s) then tl s else s) in
           if s1 = [] then []
           else take (char_len L s1) s1 @ dequote_loop L skip (drop (char_len L s1) s1))"
  by pat_completeness auto
termination
  by (relation "measure (\<lambda>(L, skip, s). length s)") (auto simp: char_len_pos Let_def intro!: diff_less_Suc le_less_trans [OF diff_le_self])

declare quote_loop.simps [simp del] dequote_loop.simps [simp del]

definition quote_string :: "locale_ops \<Rightarrow> string \<Rightarrow> string" where
  "quote_string L s = (if s = [] then [CTLNUL] else quote_loop L (\<lambda>c. True) s)"

definition QUOTED_NULL :: "string \<Rightarrow> bool" where
  "QUOTED_NULL s \<longleftrightarrow> s = [CTLNUL]"

definition dequote_string :: "locale_ops \<Rightarrow> string \<Rightarrow> string" where
  "dequote_string L s =
     (if QUOTED_NULL s then []
      else if s = [CTLESC] then [CTLESC]
      else if CTLESC \<notin> set s then s
      else dequote_loop L (\<lambda>r. True) s)"

definition quote_escapes_internal :: "locale_ops \<Rightarrow> string option \<Rightarrow> string \<Rightarrow> bool \<Rightarrow> string" where
  "quote_escapes_internal L ifs s nosplit =
     (let quote_spaces = (ifs = Some []);
          seps = (case ifs of Some t \<Rightarrow> t | None \<Rightarrow> []);
          skip_ctlesc = (\<not> nosplit \<and> CTLESC \<in> set seps);
          skip_ctlnul = (\<not> nosplit \<and> CTLNUL \<in> set seps)
      in quote_loop L (\<lambda>c. \<not> skip_ctlesc \<and> c = CTLESC \<or> \<not> skip_ctlnul \<and> c = CTLNUL \<or>
                         quote_spaces \<and> c = CHR '' '') s)"

definition quote_escapes :: "locale_ops \<Rightarrow> string option \<Rightarrow> string \<Rightarrow> string" where
  "quote_escapes L ifs s = quote_escapes_internal L ifs s False"

definition quote_rhs :: "locale_ops \<Rightarrow> string option \<Rightarrow> string \<Rightarrow> string" where
  "quote_rhs L ifs s = quote_escapes_internal L ifs s True"

definition dequote_escapes :: "locale_ops \<Rightarrow> string option \<Rightarrow> string \<Rightarrow> string" where
  "dequote_escapes L ifs s =
     (if CTLESC \<notin> set s then s
      else dequote_loop L (\<lambda>r. byte_at r 0 = CTLESC \<or> byte_at r 0 = CTLNUL \<or> ifs = Some [] \<and> byte_at r 0 = CHR '' '') s)"

text \<open>\<open>remove_quoted_nulls\<close> works in place: a removed CTLNUL moves the rest down.\<close>

function remove_nulls_loop :: "locale_ops \<Rightarrow> string \<Rightarrow> string" where
  "remove_nulls_loop L s =
     (if s = [] then []
      else if hd s = CTLESC
      then if tl s = [] then [CTLESC]
           else CTLESC # take (char_len L (tl s)) (tl s) @ remove_nulls_loop L (drop (char_len L (tl s)) (tl s))
      else if hd s = CTLNUL then remove_nulls_loop L (tl s)
      else take (char_len L s) s @ remove_nulls_loop L (drop (char_len L s) s))"
  by pat_completeness auto
termination by (relation "measure (\<lambda>(L, s). length s)") (auto simp: char_len_pos intro!: le_less_trans [OF diff_le_self])

declare remove_nulls_loop.simps [simp del]

definition remove_quoted_nulls :: "locale_ops \<Rightarrow> string \<Rightarrow> string" where
  "remove_quoted_nulls L s = (if CTLNUL \<notin> set s then s else remove_nulls_loop L s)"

section \<open>Quoting for re-reading by the shell (lib/sh/shquote.c, lib/sh/strtrans.c)\<close>

definition slashify_in_quotes :: string where
  "slashify_in_quotes = [CHR 0x5C, CHR 0x60, CHR ''$'', CHR 0x22, CHR 0x0A]"

definition is_CBSDQUOTE :: "char \<Rightarrow> bool" where
  "is_CBSDQUOTE c \<longleftrightarrow> c \<in> set slashify_in_quotes"

fun single_quote_loop :: "string \<Rightarrow> string" where
  "single_quote_loop [] = []"
| "single_quote_loop (c # s) =
     c # (if c = CHR 0x27 then [CHR 0x5C, CHR 0x27, CHR 0x27] else []) @ single_quote_loop s"

definition sh_single_quote :: "string \<Rightarrow> string" where
  "sh_single_quote s =
     (if s = [CHR 0x27] then [CHR 0x5C, CHR 0x27]
      else CHR 0x27 # single_quote_loop s @ [CHR 0x27])"

function double_quote_loop :: "locale_ops \<Rightarrow> string \<Rightarrow> string" where
  "double_quote_loop L s =
     (if s = [] then []
      else let c = hd s; esc = (if is_CBSDQUOTE c \<and> c \<noteq> CHR 0x0A then [CHR 0x5C] else []) in
           if lc_utf8 L \<and> high_bit c \<or> \<not> lc_utf8 L \<and> lc_multibyte L \<and> \<not> is_basic c
           then esc @ take (char_len L s) s @ double_quote_loop L (drop (char_len L s) s)
           else esc @ c # double_quote_loop L (tl s))"
  by pat_completeness auto
termination by (relation "measure (\<lambda>(L, s). length s)") (auto simp: char_len_pos)

declare double_quote_loop.simps [simp del]

definition sh_double_quote :: "locale_ops \<Rightarrow> string \<Rightarrow> string" where
  "sh_double_quote L s = CHR 0x22 # double_quote_loop L s @ [CHR 0x22]"

fun un_double_quote_loop :: "bool \<Rightarrow> string \<Rightarrow> string" where
  "un_double_quote_loop pass_next [] = []"
| "un_double_quote_loop pass_next (c # s) =
     (if pass_next then c # un_double_quote_loop False s
      else if c = CHR 0x5C \<and> is_CBSDQUOTE (byte_at s 0) then un_double_quote_loop True s
      else c # un_double_quote_loop False s)"

definition sh_un_double_quote :: "string \<Rightarrow> string" where
  "sh_un_double_quote s = un_double_quote_loop False s"

definition shell_metas :: string where
  "shell_metas =
     [CHR '' '', CHR 0x09, CHR 0x0A, CHR 0x27, CHR 0x22, CHR 0x5C, CHR ''|'', CHR ''&'', CHR '';'',
      CHR ''('', CHR '')'', CHR ''<'', CHR ''>'', CHR ''!'', CHR ''{'', CHR ''}'', CHR ''*'', CHR ''['',
      CHR ''?'', CHR '']'', CHR ''^'', CHR ''$'', CHR 0x60]"

text \<open>\<open>prev\<close> is the character before the rest of the string, \<open>None\<close> at its start.\<close>

fun metas_loop :: "char option \<Rightarrow> string \<Rightarrow> bool" where
  "metas_loop prev [] = False"
| "metas_loop prev (c # s) =
     (c \<in> set shell_metas \<or>
      c = CHR ''~'' \<and> (prev = None \<or> prev = Some (CHR ''='') \<or> prev = Some (CHR '':'')) \<or>
      c = CHR ''#'' \<and> prev = None \<or>
      metas_loop (Some c) s)"

definition sh_contains_shell_metas :: "string \<Rightarrow> bool" where
  "sh_contains_shell_metas s = metas_loop None s"

fun sh_contains_quotes :: "string \<Rightarrow> bool" where
  "sh_contains_quotes [] = False"
| "sh_contains_quotes (c # s) = (c = CHR 0x27 \<or> c = CHR 0x22 \<or> c = CHR 0x5C \<or> sh_contains_quotes s)"

definition ansic_wshouldquote :: "locale_ops \<Rightarrow> string \<Rightarrow> bool" where
  "ansic_wshouldquote L s =
     (case lc_mbstowcs L s of None \<Rightarrow> True | Some ws \<Rightarrow> list_ex (\<lambda>w. \<not> lc_iswprint L w) ws)"

fun ansic_shouldquote :: "locale_ops \<Rightarrow> string \<Rightarrow> bool" where
  "ansic_shouldquote L [] = False"
| "ansic_shouldquote L (c # s) =
     (if \<not> is_basic c then ansic_wshouldquote L (c # s)
      else if \<not> lc_isprint L c then True
      else ansic_shouldquote L s)"

definition octal_escape :: "char \<Rightarrow> string" where
  "octal_escape c =
     (let n = of_char c :: nat in
      [CHR 0x5C, char_of (48 + n div 64 mod 8), char_of (48 + n div 8 mod 8), char_of (48 + n mod 8)])"

definition ansic_escapes :: "(char \<times> char) list" where
  "ansic_escapes =
     [(CHR 0x1B, CHR ''E''), (CHR 0x07, CHR ''a''), (CHR 0x0B, CHR ''v''), (CHR 0x08, CHR ''b''),
      (CHR 0x0C, CHR ''f''), (CHR 0x0A, CHR ''n''), (CHR 0x0D, CHR ''r''), (CHR 0x09, CHR ''t''),
      (CHR 0x5C, CHR 0x5C), (CHR 0x27, CHR 0x27)]"

text \<open>The default case of the switch: \<open>None\<close> for an octal escape, else the bytes copied.\<close>

definition ansic_plain :: "locale_ops \<Rightarrow> string \<Rightarrow> nat option" where
  "ansic_plain L s =
     (if is_basic (hd s) then if lc_isprint L (hd s) then Some 1 else None
      else let (clen, wc) = lc_mbrtowc L s in
           if clen = -1 \<or> clen = -2 \<or> \<not> lc_iswprint L wc then None else Some (nat clen))"

function ansic_loop :: "locale_ops \<Rightarrow> string \<Rightarrow> string" where
  "ansic_loop L s =
     (if s = [] then []
      else case map_of ansic_escapes (hd s) of
        Some e \<Rightarrow> CHR 0x5C # e # ansic_loop L (tl s)
      | None \<Rightarrow>
          (case ansic_plain L s of
             None \<Rightarrow> octal_escape (hd s) @ ansic_loop L (tl s)
           | Some n \<Rightarrow> if n = 0 then [] else take n s @ ansic_loop L (drop n s)))"
  by pat_completeness auto
termination by (relation "measure (\<lambda>(L, s). length s)") auto

declare ansic_loop.simps [simp del]

text \<open>
  A size the code computes in an \<open>int\<close>, from lengths that are exact: it wraps at \<open>2 ^ 31\<close>. A
  negative one is an enormous \<open>size_t\<close>, which \<open>xmalloc\<close> cannot serve: the shell ends.
\<close>

definition as_int :: "nat \<Rightarrow> int" where
  "as_int n = sint (of_nat n :: 32 word)"

definition xmalloc_int :: "int \<Rightarrow> nat option" where
  "xmalloc_int n = (if n < 0 then None else Some (nat n))"

lemma as_int_mod: "as_int n = (int n + 2 ^ 31) mod 2 ^ 32 - 2 ^ 31"
  by (simp add: as_int_def signed_of_nat signed_take_bit_eq_take_bit_shift take_bit_eq_mod)

lemma as_int_small: "n < 2 ^ 31 \<Longrightarrow> as_int n = int n"
  by (simp add: as_int_mod)

text \<open>In the second half of the range it is negative, then it starts again at 0.\<close>

lemma as_int_beyond:
  assumes "2 ^ 31 \<le> n" "n < 2 ^ 32 + 2 ^ 31"
  shows "as_int n = int n - 2 ^ 32"
proof -
  have "(int n + 2 ^ 31) mod 2 ^ 32 = (int n + 2 ^ 31 - 2 ^ 32) mod 2 ^ 32" by (rule minus_mod_self2 [symmetric])
  also have "\<dots> = int n + 2 ^ 31 - 2 ^ 32" using assms by (intro mod_pos_pos_trivial) simp_all
  finally show ?thesis by (simp add: as_int_mod)
qed

lemma xmalloc_small [simp]: "n < 2 ^ 31 \<Longrightarrow> xmalloc_int (as_int n) = Some n"
  by (simp add: xmalloc_int_def as_int_small)

lemma xmalloc_beyond:
  "2 ^ 31 \<le> n \<Longrightarrow> n < 2 ^ 32 + 2 ^ 31 \<Longrightarrow> xmalloc_int (as_int n) = (if n < 2 ^ 32 then None else Some (n - 2 ^ 32))"
  by (auto simp: xmalloc_int_def as_int_beyond)

definition ansic_text :: "locale_ops \<Rightarrow> string \<Rightarrow> string" where
  "ansic_text L s = CHR ''$'' # CHR 0x27 # ansic_loop L s @ [CHR 0x27]"

text \<open>
  The result is \<open>None\<close> where the code has none: the allocation fails, or the text with its zero byte is
  longer than \<open>rsize\<close>; else it is the string, or NULL for a string that is NULL or empty.
\<close>

definition ansic_quote :: "locale_ops \<Rightarrow> string option \<Rightarrow> string option option" where
  "ansic_quote L str =
     (case str of
        None \<Rightarrow> Some None
      | Some s \<Rightarrow>
          if s = [] then Some None
          else
            (case xmalloc_int (as_int (4 * length s + 4)) of
               None \<Rightarrow> None
             | Some rsize \<Rightarrow> if length (ansic_text L s) < rsize then Some (Some (ansic_text L s)) else None))"

section \<open>CTLESC quoting is undone\<close>

text \<open>
  What is relied on of \<open>mbrlen\<close>: a character of several bytes lies in the string, holds no
  CTLESC, and is recognised from its own bytes alone.
\<close>

definition locale_ok :: "locale_ops \<Rightarrow> bool" where
  "locale_ok L \<longleftrightarrow>
     (\<forall>s n. lc_mbrlen L s = int n \<longrightarrow> 1 < n \<longrightarrow>
        n \<le> length s \<and> CTLESC \<notin> set (take n s) \<and> (\<forall>r. lc_mbrlen L (take n s @ r) = int n))"

lemma locale_okD:
  assumes "locale_ok L" and "lc_mbrlen L s = int n" and "1 < n"
  shows "n \<le> length s" and "CTLESC \<notin> set (take n s)" and "lc_mbrlen L (take n s @ r) = int n"
  using assms unfolding locale_ok_def by blast+

text \<open>A character of several bytes is one \<open>mbrlen\<close> found.\<close>

lemma char_len_long:
  "1 < char_len L s \<longleftrightarrow>
     lc_multibyte L \<and> \<not> is_basic (hd s) \<and> \<not> (lc_utf8 L \<and> \<not> high_bit (hd s)) \<and> 1 < lc_mbrlen L s"
  by (auto simp: char_len_def Let_def)

lemma char_len_mbrlen: "1 < char_len L s \<Longrightarrow> lc_mbrlen L s = int (char_len L s)"
  by (auto simp: char_len_def Let_def split: if_splits)

lemma char_len_le:
  assumes "locale_ok L" and "s \<noteq> []"
  shows "char_len L s \<le> length s"
proof (cases "1 < char_len L s")
  case True
  from locale_okD(1) [OF assms(1) char_len_mbrlen [OF this] this] show ?thesis .
next
  case False
  with assms(2) show ?thesis by (cases s) (simp_all add: not_less)
qed

lemma quote_prefix:
  "locale_ok L \<Longrightarrow> CTLESC \<notin> set (take k (quote_loop L q s)) \<Longrightarrow> take k (quote_loop L q s) = take k s"
proof (induction L q s arbitrary: k rule: quote_loop.induct)
  case (1 L q s)
  show ?case
  proof (cases "s = [] \<or> k = 0")
    case True
    then show ?thesis by (auto simp: quote_loop.simps [of L q s])
  next
    case False
    let ?n = "char_len L s"
    let ?Q = "quote_loop L q (drop ?n s)"
    have unf: "quote_loop L q s = (if q (hd s) then [CTLESC] else []) @ take ?n s @ ?Q"
      using False by (simp add: quote_loop.simps [of L q s])
    have "\<not> q (hd s)" using "1.prems"(2) False unfolding unf by (cases k) auto
    then have unf': "quote_loop L q s = take ?n s @ ?Q" by (simp add: unf)
    have "CTLESC \<notin> set (take (k - ?n) ?Q)"
      using "1.prems"(2) char_len_le [OF "1.prems"(1), of s] False unfolding unf' by (simp add: min_absorb2)
    with "1.IH" "1.prems"(1) False have "take (k - ?n) ?Q = take (k - ?n) (drop ?n s)" by blast
    then have "take k (quote_loop L q s) = take k (take ?n s) @ take (k - ?n) (drop ?n s)"
      using char_len_le [OF "1.prems"(1), of s] False by (simp add: unf' min_absorb2)
    also have "\<dots> = take k (take ?n s @ drop ?n s)"
      using char_len_le [OF "1.prems"(1), of s] False unfolding take_append by (simp add: min_absorb2)
    finally show ?thesis by simp
  qed
qed

text \<open>A quoted string falls into the same characters, each perhaps behind a CTLESC.\<close>

lemma char_len_cong:
  "lc_mbrlen L (c # r) = lc_mbrlen L (c # r') \<Longrightarrow> char_len L (c # r) = char_len L (c # r')"
  by (simp add: char_len_def)

lemma char_len_quoted:
  assumes ok: "locale_ok L" and "s \<noteq> []"
  shows "char_len L (take (char_len L s) s @ quote_loop L q (drop (char_len L s) s)) = char_len L s"
proof -
  obtain c r where s: "s = c # r" using assms(2) by (cases s) auto
  let ?n = "char_len L s"
  let ?Q = "quote_loop L q (drop ?n s)"
  show ?thesis
  proof (cases "1 < ?n")
    case True
    note m = char_len_mbrlen [OF True]
    from locale_okD(3) [OF ok m True] have "lc_mbrlen L (take ?n s @ ?Q) = lc_mbrlen L s" using m by simp
    moreover from True have "take ?n s = c # take (?n - 1) r" by (simp add: s take_Cons')
    ultimately show ?thesis using char_len_cong [of L c "take (?n - 1) r @ ?Q" r] by (simp add: s)
  next
    case False
    with char_len_pos [of L s] have n1: "?n = 1" by linarith
    have d: "take ?n s @ ?Q = c # quote_loop L q r" unfolding n1 by (simp add: s)
    have "\<not> 1 < char_len L (c # quote_loop L q r)"
    proof
      assume long: "1 < char_len L (c # quote_loop L q r)"
      let ?k = "char_len L (c # quote_loop L q r)"
      note m = char_len_mbrlen [OF long]
      have tk: "take ?k (c # X) = c # take (?k - 1) X" for X using long by (simp add: take_Cons')
      from locale_okD(2) [OF ok m long] have "CTLESC \<notin> set (take (?k - 1) (quote_loop L q r))"
        by (simp add: tk)
      from quote_prefix [OF ok this] have "take ?k (c # quote_loop L q r) = take ?k (c # r)" by (simp add: tk)
      with locale_okD(3) [OF ok m long, of "drop ?k (c # r)"] have "lc_mbrlen L s = int ?k" by (simp add: s)
      with m have "?n = ?k" unfolding s by (intro char_len_cong) simp
      with n1 long show False by simp
    qed
    with char_len_pos [of L "c # quote_loop L q r"] have "char_len L (c # quote_loop L q r) = 1" by linarith
    with d n1 show ?thesis by simp
  qed
qed

lemma dequote_quote_loop:
  assumes ok: "locale_ok L" and q: "q CTLESC" and skip: "\<And>c r. q c \<Longrightarrow> skip (c # r)"
  shows "dequote_loop L skip (quote_loop L q s) = s"
proof (induction "length s" arbitrary: s rule: less_induct)
  case less
  show ?case
  proof (cases s)
    case Nil
    then show ?thesis by (simp add: quote_loop.simps [of L q "[]"] dequote_loop.simps [of L skip "[]"])
  next
    case (Cons c r)
    let ?n = "char_len L s"
    let ?Q = "quote_loop L q (drop ?n s)"
    let ?t = "take ?n s @ ?Q"
    have n: "0 < ?n" "?n \<le> length s" using char_len_pos char_len_le [OF ok, of s] Cons by auto
    have IH: "dequote_loop L skip ?Q = drop ?n s" by (rule less) (use n Cons in simp)
    obtain t where t: "?t = c # t" using n Cons by (cases ?t) (auto simp: take_Cons')
    have len: "char_len L ?t = ?n" by (rule char_len_quoted [OF ok]) (simp add: Cons)
    have "s \<noteq> []" "hd s = c" using Cons by simp_all
    then have unf: "quote_loop L q s = (if q c then [CTLESC] else []) @ ?t"
      by (subst quote_loop.simps) simp
    have "dequote_loop L skip (quote_loop L q s) = take ?n ?t @ dequote_loop L skip (drop ?n ?t)"
    proof (cases "q c")
      case True
      have "quote_loop L q s = CTLESC # c # t" unfolding unf t using True by simp
      then show ?thesis
        using skip [OF True] len unfolding t by (subst dequote_loop.simps) (simp add: Let_def)
    next
      case False
      with q have "c \<noteq> CTLESC" by auto
      have "quote_loop L q s = c # t" unfolding unf t using False by simp
      then show ?thesis
        using \<open>c \<noteq> CTLESC\<close> len unfolding t by (subst dequote_loop.simps) (simp add: Let_def)
    qed
    also have "\<dots> = s" using n IH by simp
    finally show ?thesis .
  qed
qed

lemma length_quote_loop: "length (quote_loop L q s) \<le> 2 * length s" and
  quote_loop_longer: "length s \<le> length (quote_loop L q s)"
proof (induction L q s rule: quote_loop.induct)
  case (1 L q s)
  have "length s \<le> length (take (char_len L s) s) + length (drop (char_len L s) s)"
    "s \<noteq> [] \<Longrightarrow> 1 \<le> length (take (char_len L s) s)"
    "length (take (char_len L s) s) + length (drop (char_len L s) s) \<le> length s"
    using char_len_pos [of L s] by (simp_all add: Suc_le_eq)
  with 1 show "length (quote_loop L q s) \<le> 2 * length s" "length s \<le> length (quote_loop L q s)"
    by (subst quote_loop.simps; simp; linarith)+
qed

text \<open>Without any CTLESC in the result nothing was quoted.\<close>

lemma quote_loop_plain: "locale_ok L \<Longrightarrow> CTLESC \<notin> set (quote_loop L q s) \<Longrightarrow> quote_loop L q s = s"
  using quote_prefix [of L "length (quote_loop L q s)" q s] quote_loop_longer [of s L q] by simp

lemma dequote_quote_string:
  assumes "locale_ok L"
  shows "dequote_string L (quote_string L s) = s"
proof (cases s)
  case Nil
  then show ?thesis by (simp add: quote_string_def dequote_string_def QUOTED_NULL_def)
next
  case (Cons c r)
  have "quote_string L s = CTLESC # take (char_len L s) s @ quote_loop L (\<lambda>c. True) (drop (char_len L s) s)"
    unfolding quote_string_def using Cons by (subst quote_loop.simps) simp
  then have "quote_string L s \<noteq> [CTLNUL]" "quote_string L s \<noteq> [CTLESC]" "CTLESC \<in> set (quote_string L s)"
    using char_len_pos [of L s] Cons by (auto simp: CTLESC_def CTLNUL_def)
  then have "dequote_string L (quote_string L s) = dequote_loop L (\<lambda>r. True) (quote_string L s)"
    by (simp add: dequote_string_def QUOTED_NULL_def)
  with dequote_quote_loop [OF assms, of "\<lambda>c. True" "\<lambda>r. True" s] show ?thesis by (simp add: quote_string_def Cons)
qed

lemma dequote_quote_escapes:
  assumes "locale_ok L" and "\<not> nosplit \<Longrightarrow> CTLESC \<notin> set (case ifs of Some t \<Rightarrow> t | None \<Rightarrow> [])"
  shows "dequote_escapes L ifs (quote_escapes_internal L ifs s nosplit) = s"
proof -
  define q where "q = (\<lambda>c. \<not> (\<not> nosplit \<and> CTLESC \<in> set (case ifs of Some t \<Rightarrow> t | None \<Rightarrow> [])) \<and> c = CTLESC \<or>
     \<not> (\<not> nosplit \<and> CTLNUL \<in> set (case ifs of Some t \<Rightarrow> t | None \<Rightarrow> [])) \<and> c = CTLNUL \<or> ifs = Some [] \<and> c = CHR '' '')"
  have e: "quote_escapes_internal L ifs s nosplit = quote_loop L q s"
    by (simp add: quote_escapes_internal_def Let_def q_def)
  have "q CTLESC" using assms(2) unfolding q_def by blast
  then have "dequote_loop L (\<lambda>r. byte_at r 0 = CTLESC \<or> byte_at r 0 = CTLNUL \<or> ifs = Some [] \<and> byte_at r 0 = CHR '' '')
      (quote_loop L q s) = s"
    by (rule dequote_quote_loop [OF assms(1)]) (auto simp: q_def)
  with quote_loop_plain [OF assms(1), of q s] show ?thesis by (simp add: e dequote_escapes_def)
qed

section \<open>Shell quoting reads back\<close>

text \<open>
  How the shell reads one word of single-quoted pieces, backslash-quoted characters and characters
  that stand for themselves, \<open>None\<close> if it would take the text for anything else: an unquoted
  character that ends a word, starts an expansion or a double-quoted string, is a pattern character,
  a brace, or one of history expansion, a comment sign at the start, a tilde at the start or after a
  colon or an equals sign. Outside of quotes a backslash takes the next character as it is, and
  disappears with a newline; inside there are no escapes. \<open>prev\<close> is the character read before.
\<close>

definition unquoted_special :: string where
  "unquoted_special = [CHR 0x09, CHR 0x0A, CHR '' '', CHR 0x22, CHR ''$'', CHR 0x60, CHR ''&'', CHR ''|'', CHR '';'',
     CHR ''('', CHR '')'', CHR ''<'', CHR ''>'', CHR ''*'', CHR ''?'', CHR ''['', CHR '']'', CHR ''{'', CHR ''}'', CHR ''!'', CHR ''^'']"

fun read_word :: "bool \<Rightarrow> char option \<Rightarrow> string \<Rightarrow> string option" where
  "read_word inside prev [] = (if inside then None else Some [])"
| "read_word inside prev (c # s) =
     (if inside
      then if c = CHR 0x27 then read_word False prev s else map_option (Cons c) (read_word True (Some c) s)
      else if c = CHR 0x27 then read_word True (Some c) s
      else if c = CHR 0x5C then
        (case s of
           [] \<Rightarrow> None
         | d # s' \<Rightarrow> if d = CHR 0x0A then read_word False prev s' else map_option (Cons d) (read_word False (Some d) s'))
      else if c \<in> set unquoted_special \<or> c = CHR ''#'' \<and> prev = None \<or>
          c = CHR ''~'' \<and> (prev = None \<or> prev = Some (CHR '':'') \<or> prev = Some (CHR ''='')) then None
      else map_option (Cons c) (read_word False (Some c) s))"

lemma read_single_quote_loop:
  "read_word True prev (single_quote_loop s @ [CHR 0x27]) = Some s"
  by (induction s arbitrary: prev) simp_all

lemma single_quote_reads_back: "read_word False None (sh_single_quote s) = Some s"
  by (simp add: sh_single_quote_def read_single_quote_loop)

lemma length_single_quote: "length (sh_single_quote s) < 3 + 4 * length s"
proof -
  have "length (single_quote_loop s) \<le> 4 * length s" by (induction s) simp_all
  then show ?thesis by (simp add: sh_single_quote_def)
qed

text \<open>In UTF-8 every byte of a longer character has its high bit set.\<close>

definition utf8_ok :: "locale_ops \<Rightarrow> bool" where
  "utf8_ok L \<longleftrightarrow> lc_utf8 L \<and> (\<forall>s n. lc_mbrlen L s = int n \<longrightarrow> list_all high_bit (tl (take n s)))"

text \<open>Bytes that neither start nor end an escape pass through.\<close>

definition dq_plain :: "char \<Rightarrow> bool" where
  "dq_plain c \<longleftrightarrow> c \<noteq> CHR 0x5C"

lemma un_double_quote_plain:
  "list_all dq_plain p \<Longrightarrow> un_double_quote_loop False (p @ s) = p @ un_double_quote_loop False s"
  by (induction p) (simp_all add: dq_plain_def)

lemma high_bit_plain: "high_bit c \<Longrightarrow> dq_plain c"
  by (auto simp: high_bit_def dq_plain_def)

lemma char_bytes_plain:
  assumes "utf8_ok L" and "s \<noteq> []" and "high_bit (hd s)"
  shows "list_all dq_plain (take (char_len L s) s)"
proof -
  obtain c r where s: "s = c # r" using assms(2) by (cases s) auto
  have "list_all high_bit (tl (take (char_len L s) s))"
  proof (cases "1 < char_len L s")
    case True
    from char_len_mbrlen [OF True] assms(1) show ?thesis by (auto simp: utf8_ok_def)
  next
    case False
    with char_len_pos [of L s] have "char_len L s = 1" by linarith
    then show ?thesis by (simp add: s)
  qed
  with assms(3) have "list_all high_bit (take (char_len L s) s)" by (cases "char_len L s") (simp_all add: s)
  then show ?thesis by (auto simp: list_all_iff intro: high_bit_plain)
qed

lemma un_double_quote_loop_back:
  assumes "utf8_ok L"
  shows "un_double_quote_loop False (double_quote_loop L s) = s"
proof (induction "length s" arbitrary: s rule: less_induct)
  case less
  show ?case
  proof (cases s)
    case Nil
    then show ?thesis by (simp add: double_quote_loop.simps [of L "[]"])
  next
    case (Cons c r)
    show ?thesis
    proof (cases "high_bit c")
      case True
      let ?n = "char_len L s"
      have "\<not> is_CBSDQUOTE c" using True by (auto simp: is_CBSDQUOTE_def slashify_in_quotes_def high_bit_def)
      then have "double_quote_loop L s = take ?n s @ double_quote_loop L (drop ?n s)"
        using True Cons assms by (subst double_quote_loop.simps) (simp add: utf8_ok_def Let_def)
      moreover have "un_double_quote_loop False (double_quote_loop L (drop ?n s)) = drop ?n s"
        by (rule less) (use char_len_pos [of L s] Cons in simp)
      moreover have "list_all dq_plain (take ?n s)" by (rule char_bytes_plain [OF assms]) (use True Cons in simp_all)
      ultimately show ?thesis by (simp add: un_double_quote_plain)
    next
      case False
      have IH: "un_double_quote_loop False (double_quote_loop L r) = r" by (rule less) (simp add: Cons)
      have d: "double_quote_loop L s =
          (if is_CBSDQUOTE c \<and> c \<noteq> CHR 0x0A then [CHR 0x5C] else []) @ c # double_quote_loop L r"
        using False assms Cons by (subst double_quote_loop.simps) (simp add: utf8_ok_def Let_def)
      show ?thesis
      proof (cases "c = CHR 0x5C")
        case True
        then show ?thesis unfolding d using IH Cons by (simp add: is_CBSDQUOTE_def slashify_in_quotes_def)
      next
        case False
        then show ?thesis unfolding d using IH Cons by (simp add: is_CBSDQUOTE_def slashify_in_quotes_def)
      qed
    qed
  qed
qed

lemma length_double_quote_loop: "length (double_quote_loop L s) \<le> 2 * length s"
proof (induction "length s" arbitrary: s rule: less_induct)
  case less
  show ?case
  proof (cases s)
    case Nil
    then show ?thesis by (simp add: double_quote_loop.simps [of L "[]"])
  next
    case (Cons c r)
    let ?n = "char_len L s"
    define esc where "esc = (if is_CBSDQUOTE c \<and> c \<noteq> CHR 0x0A then [CHR 0x5C] else [])"
    have esc: "length esc \<le> 1" by (simp add: esc_def)
    have sc: "s \<noteq> []" "hd s = c" "tl s = r" using Cons by simp_all
    have step: "double_quote_loop L s = esc @ take ?n s @ double_quote_loop L (drop ?n s) \<or>
        double_quote_loop L s = esc @ c # double_quote_loop L r"
      using sc by (subst (1 2) double_quote_loop.simps) (simp add: Let_def esc_def)
    have drop: "length (take ?n s) + length (drop ?n s) = length s" by (simp add: min_def)
    have smaller: "length (drop ?n s) < length s" "length r < length s"
      using char_len_pos [of L s] Cons by simp_all
    with less have IH: "length (double_quote_loop L (drop ?n s)) \<le> 2 * length (drop ?n s)"
      "length (double_quote_loop L r) \<le> 2 * length r" by blast+
    from step show ?thesis
    proof
      assume "double_quote_loop L s = esc @ take ?n s @ double_quote_loop L (drop ?n s)"
      then have "length (double_quote_loop L s) =
          length esc + (length (take ?n s) + length (double_quote_loop L (drop ?n s)))"
        by (metis length_append)
      with IH(1) esc drop smaller(1) show ?thesis by linarith
    next
      assume "double_quote_loop L s = esc @ c # double_quote_loop L r"
      then have "length (double_quote_loop L s) = length esc + Suc (length (double_quote_loop L r))" by simp
      with IH(2) esc smaller(2) show ?thesis by linarith
    qed
  qed
qed

lemma length_ansic_loop: "length (ansic_loop L s) \<le> 4 * length s"
proof (induction "length s" arbitrary: s rule: less_induct)
  case less
  show ?case
  proof (cases s)
    case Nil
    then show ?thesis by (simp add: ansic_loop.simps [of L "[]"])
  next
    case (Cons c r)
    have sc: "s \<noteq> []" "hd s = c" "tl s = r" using Cons by simp_all
    have IH: "length (ansic_loop L r) \<le> 4 * length r" by (rule less) (simp add: Cons)
    show ?thesis
    proof (cases "map_of ansic_escapes c")
      case (Some e)
      then have "ansic_loop L s = CHR 0x5C # e # ansic_loop L r" using sc by (subst ansic_loop.simps) simp
      with IH Cons show ?thesis by simp
    next
      case None
      show ?thesis
      proof (cases "ansic_plain L s")
        case e: None
        then have "ansic_loop L s = octal_escape c @ ansic_loop L r"
          using None sc by (subst ansic_loop.simps) simp
        with IH Cons show ?thesis by (simp add: octal_escape_def Let_def)
      next
        case (Some n)
        then have d: "ansic_loop L s = (if n = 0 then [] else take n s @ ansic_loop L (drop n s))"
          using None sc by (subst ansic_loop.simps) simp
        have "0 < n \<Longrightarrow> length (ansic_loop L (drop n s)) \<le> 4 * length (drop n s)"
          by (rule less) (use Cons in simp)
        moreover have "length (take n s) + length (drop n s) = length s" by (simp add: min_def)
        ultimately show ?thesis unfolding d by (cases "n = 0") (simp_all del: length_take length_drop)
      qed
    qed
  qed
qed

section \<open>A UTF-8 locale\<close>

definition continuation :: "char \<Rightarrow> bool" where
  "continuation c \<longleftrightarrow> 0x80 \<le> (of_char c :: nat) \<and> (of_char c :: nat) < 0xC0"

definition utf8_need :: "char \<Rightarrow> nat" where
  "utf8_need c =
     (let n = of_char c :: nat in
      if n < 0x80 then 1 else if n < 0xC2 then 0 else if n < 0xE0 then 2 else if n < 0xF0 then 3
      else if n < 0xF5 then 4 else 0)"

fun utf8_mbrlen :: "string \<Rightarrow> int" where
  "utf8_mbrlen [] = 0"
| "utf8_mbrlen (c # s) =
     (let n = utf8_need c in
      if n = 0 then -1
      else if length s < n - 1 then (if list_all continuation s then -2 else -1)
      else if list_all continuation (take (n - 1) s) then int n
      else -1)"

definition utf8_locale :: locale_ops where
  "utf8_locale = \<lparr>lc_multibyte = True, lc_utf8 = True, lc_mbrlen = utf8_mbrlen,
     lc_mbrtowc = (\<lambda>s. (utf8_mbrlen s, 0x100)), lc_mbstowcs = (\<lambda>s. Some []),
     lc_iswprint = (\<lambda>w. 0x20 \<le> w), lc_isprint = (\<lambda>c. 0x20 \<le> (of_char c :: nat) \<and> (of_char c :: nat) < 0x7F)\<rparr>"

lemma utf8_mbrlen_long:
  assumes "utf8_mbrlen s = int n" and "1 < n"
  obtains c r where "s = c # r" "n = utf8_need c" "n - 1 \<le> length r" "list_all continuation (take (n - 1) r)"
proof (cases s)
  case Nil
  with assms show thesis by simp
next
  case (Cons c r)
  with assms that [OF Cons] show thesis by (auto simp: Let_def split: if_splits)
qed

lemma continuation_high: "continuation c \<Longrightarrow> high_bit c \<and> c \<noteq> CTLESC"
  by (auto simp: continuation_def high_bit_def CTLESC_def)

lemma utf8_locale_ok: "locale_ok utf8_locale"
  unfolding locale_ok_def
proof (intro allI impI)
  fix s n assume "lc_mbrlen utf8_locale s = int n" and n: "1 < n"
  then have "utf8_mbrlen s = int n" by (simp add: utf8_locale_def)
  from utf8_mbrlen_long [OF this n] obtain c r where s: "s = c # r" "n = utf8_need c" "n - 1 \<le> length r"
    and cont: "list_all continuation (take (n - 1) r)" by blast
  have tk: "take n s = c # take (n - 1) r" using n by (simp add: s(1) take_Cons')
  have "c \<noteq> CTLESC" using s(2) n by (auto simp: utf8_need_def CTLESC_def)
  with cont have "CTLESC \<notin> set (take n s)" unfolding tk
    by (metis Ball_set continuation_high set_ConsD)
  moreover have "utf8_mbrlen (take n s @ r') = int n" for r'
    unfolding tk using cont s(2,3) n by (auto simp: Let_def)
  ultimately show "n \<le> length s \<and> CTLESC \<notin> set (take n s) \<and> (\<forall>r. lc_mbrlen utf8_locale (take n s @ r) = int n)"
    using s(1,3) n by (simp add: utf8_locale_def)
qed

lemma utf8_locale_utf8: "utf8_ok utf8_locale"
  unfolding utf8_ok_def
proof (intro conjI allI impI)
  show "lc_utf8 utf8_locale" by (simp add: utf8_locale_def)
  fix s n assume a: "lc_mbrlen utf8_locale s = int n"
  show "list_all high_bit (tl (take n s))"
  proof (cases "1 < n")
    case True
    from a have "utf8_mbrlen s = int n" by (simp add: utf8_locale_def)
    from utf8_mbrlen_long [OF this True] obtain c r where "s = c # r" "list_all continuation (take (n - 1) r)" by blast
    with True show ?thesis by (auto simp: list_all_iff take_Cons' dest: continuation_high)
  next
    case False
    then have "n = 0 \<or> n = 1" by auto
    then show ?thesis by (cases s) auto
  qed
qed

section \<open>Properties\<close>

text \<open>
  C16. What the expansion quotes with CTLESC it gets back: in any locale whose multibyte characters
  stand for themselves, dequoting a quoted string gives the string, so does undoing the quoting
  of escapes of a right-hand side, and of any word when the separators hold no CTLESC; and no
  quoted string is longer than the buffer allocated for it.
\<close>

theorem ctlesc_quoting_round_trip:
  assumes "locale_ok L"
  shows "dequote_string L (quote_string L s) = s \<and>
    dequote_escapes L ifs (quote_rhs L ifs s) = s \<and>
    (CTLESC \<notin> set (case ifs of Some t \<Rightarrow> t | None \<Rightarrow> []) \<longrightarrow> dequote_escapes L ifs (quote_escapes L ifs s) = s) \<and>
    (s \<noteq> [] \<longrightarrow> length (quote_string L s) + 1 \<le> length s * 2 + 1) \<and>
    length (quote_escapes L ifs s) + 1 \<le> length s * 2 + 1"
proof -
  have "length (quote_escapes L ifs s) \<le> 2 * length s"
    unfolding quote_escapes_def quote_escapes_internal_def Let_def by (rule length_quote_loop)
  moreover have "s \<noteq> [] \<longrightarrow> length (quote_string L s) + 1 \<le> length s * 2 + 1"
    using length_quote_loop by (simp add: quote_string_def mult.commute)
  ultimately show ?thesis
    using dequote_quote_string [OF assms] dequote_quote_escapes [OF assms, of True ifs s]
      dequote_quote_escapes [OF assms, of False ifs s]
    by (simp add: quote_rhs_def quote_escapes_def)
qed

theorem ctlesc_quoting_round_trip_witness:
  "dequote_string utf8_locale (quote_string utf8_locale [CHR ''a'', CTLESC, CHR 0xC3, CHR 0xA9]) =
     [CHR ''a'', CTLESC, CHR 0xC3, CHR 0xA9] \<and>
   quote_string utf8_locale [CHR ''a'', CTLESC, CHR 0xC3, CHR 0xA9] =
     [CTLESC, CHR ''a'', CTLESC, CTLESC, CTLESC, CHR 0xC3, CHR 0xA9]"
  using ctlesc_quoting_round_trip [OF utf8_locale_ok, of "[CHR ''a'', CTLESC, CHR 0xC3, CHR 0xA9]" None]
  by (simp add: quote_string_def quote_loop.simps char_len_def utf8_locale_def high_bit_def CTLESC_def
      utf8_need_def continuation_def is_basic_def is_basic_table_def Let_def)

lemma length_ansic_text: "length (ansic_text L s) < 4 * length s + 4"
  using length_ansic_loop [of L s] by (simp add: ansic_text_def)

lemma ansic_quote_value: "4 * length s + 4 < 2 ^ 31 \<Longrightarrow> s \<noteq> [] \<Longrightarrow> ansic_quote L (Some s) = Some (Some (ansic_text L s))"
  using length_ansic_text [of L s] by (simp add: ansic_quote_def)

text \<open>
  C18. What bash quotes for re-reading reads back as the string: \<open>sh_single_quote\<close> under the shell's own
  reading of a word, which an unquoted special character would make fail, and \<open>sh_double_quote\<close>
  under \<open>sh_un_double_quote\<close>, this in a UTF-8 locale whose \<open>mbrlen\<close> finds only bytes with the high bit behind
  the first byte of a character. Both fit, with the zero byte, the \<open>size_t\<close> sizes \<open>xmalloc\<close> is asked for.
  \<open>ansic_quote\<close> computes its size in an \<open>int\<close>: its text is stored within the buffer for strings
  below 2 ^ 29 - 1 bytes, and for longer ones up to 2 ^ 30 bytes, whose text is at least as long as
  the string, the size has wrapped and the code has no result (a failed allocation or stores behind it).
\<close>

theorem shell_quoting_reads_back:
  assumes "utf8_ok L"
  shows "read_word False None (sh_single_quote s) = Some s \<and>
    sh_un_double_quote (butlast (tl (sh_double_quote L s))) = s \<and>
    length (sh_single_quote s) + 1 \<le> 3 + 4 * length s \<and>
    length (sh_double_quote L s) + 1 \<le> 3 + 2 * length s \<and>
    (s \<noteq> [] \<longrightarrow> length s < 2 ^ 29 - 1 \<longrightarrow> ansic_quote L (Some s) = Some (Some (ansic_text L s))) \<and>
    (2 ^ 29 - 1 \<le> length s \<longrightarrow> length s \<le> 2 ^ 30 \<longrightarrow> length s \<le> length (ansic_text L s) \<longrightarrow> ansic_quote L (Some s) = None)"
proof -
  have "ansic_quote L (Some s) = Some (Some (ansic_text L s))" if "s \<noteq> []" "length s < 2 ^ 29 - 1"
    using that by (intro ansic_quote_value) simp_all
  moreover have "ansic_quote L (Some s) = None" if "2 ^ 29 - 1 \<le> length s" "length s \<le> 2 ^ 30" "length s \<le> length (ansic_text L s)"
  proof -
    have "xmalloc_int (as_int (4 * length s + 4)) =
        (if 4 * length s + 4 < 2 ^ 32 then None else Some (4 * length s + 4 - 2 ^ 32))"
      using that by (intro xmalloc_beyond) simp_all
    then show ?thesis using that by (auto simp: ansic_quote_def)
  qed
  ultimately show ?thesis
    using single_quote_reads_back [of s] un_double_quote_loop_back [OF assms, of s] length_single_quote [of s]
      length_double_quote_loop [of L s]
    by (auto simp: sh_un_double_quote_def sh_double_quote_def)
qed

theorem shell_quoting_reads_back_witness:
  "read_word False None (sh_single_quote [CHR ''a'', CHR 0x27, CHR 0x5C]) = Some [CHR ''a'', CHR 0x27, CHR 0x5C] \<and>
   sh_un_double_quote (butlast (tl (sh_double_quote utf8_locale [CHR ''a'', CHR 0x27, CHR 0x5C]))) =
     [CHR ''a'', CHR 0x27, CHR 0x5C] \<and>
   ansic_quote utf8_locale (Some [CHR ''a'', CHR 0x27, CHR 0x5C]) = Some (Some (ansic_text utf8_locale [CHR ''a'', CHR 0x27, CHR 0x5C]))"
  using shell_quoting_reads_back [OF utf8_locale_utf8, of "[CHR ''a'', CHR 0x27, CHR 0x5C]"] by simp

end
