(* ===== verification/Bash_Strbuf.thy ===== *)
theory Bash_Strbuf imports Bash_Quote "HOL-Library.Monad_Syntax" begin

text \<open>
  What the printers of \<open>array.c\<close> and \<open>assoc.c\<close> share: a malloc'ed buffer that grows by
  \<open>RESIZE_MALLOCED_BUFFER\<close> (\<open>general.h\<close>) and is written behind the bytes it already holds, and
  lists of words. A store beyond the buffer, and the use of a NULL string, is \<open>None\<close>. So is a
  size or an index that leaves its type, \<open>int\<close> or \<open>size_t\<close>: the first is an overflow the language
  leaves undefined, the second is more than the memory.
\<close>

section \<open>Growing buffers\<close>

text \<open>\<open>sb_text\<close> holds the first \<open>rlen\<close> bytes, \<open>sb_size\<close> is \<open>rsize\<close>.\<close>

record strbuf =
  sb_text :: string
  sb_size :: nat

text \<open>The values of \<open>int\<close> and \<open>size_t\<close> are below these.\<close>

definition INT_LIMIT :: nat where "INT_LIMIT = 2 ^ 31"
definition SIZE_LIMIT :: nat where "SIZE_LIMIT = 2 ^ 64"

partial_function (option) resize_loop :: "nat \<Rightarrow> (nat \<Rightarrow> nat) \<Rightarrow> nat \<Rightarrow> nat \<Rightarrow> nat option" where
  "resize_loop limit sincr need csize =
     (if need \<ge> csize
      then if csize + sincr csize < limit then resize_loop limit sincr need (csize + sincr csize) else None
      else Some csize)"

text \<open>\<open>limit\<close> bounds the type of the index and the size of the caller, \<open>sincr\<close> is the growth.\<close>

definition RESIZE_MALLOCED_BUFFER :: "nat \<Rightarrow> nat \<Rightarrow> (nat \<Rightarrow> nat) \<Rightarrow> strbuf \<Rightarrow> strbuf option" where
  "RESIZE_MALLOCED_BUFFER limit room sincr b =
     (if length (sb_text b) + room < limit
      then map_option (\<lambda>n. b\<lparr>sb_size := n\<rparr>) (resize_loop limit sincr (length (sb_text b) + room) (sb_size b))
      else None)"

definition sb_putc :: "char \<Rightarrow> strbuf \<Rightarrow> strbuf option" where
  "sb_putc c b = (if length (sb_text b) < sb_size b then Some (b\<lparr>sb_text := sb_text b @ [c]\<rparr>) else None)"

definition sb_strcpy :: "string \<Rightarrow> strbuf \<Rightarrow> strbuf option" where
  "sb_strcpy s b =
     (if length (sb_text b) + length s < sb_size b then Some (b\<lparr>sb_text := sb_text b @ s\<rparr>) else None)"

definition sb_end :: "strbuf \<Rightarrow> string option" where
  "sb_end b = (if length (sb_text b) < sb_size b then Some (sb_text b) else None)"

lemma resize_loop_ends:
  assumes "\<forall>n > 0. 0 < sincr n" "\<forall>n \<le> need. n + sincr n < limit"
  shows "0 < csize \<Longrightarrow> csize < limit \<Longrightarrow> \<exists>n. resize_loop limit sincr need csize = Some n \<and> need < n \<and> n < limit"
proof (induction "Suc need - csize" arbitrary: csize rule: less_induct)
  case less
  show ?case
  proof (cases "need \<ge> csize")
    case False
    then show ?thesis using less.prems by (subst resize_loop.simps) simp
  next
    case True
    have "0 < sincr csize" "csize + sincr csize < limit" using assms less.prems True by blast+
    then show ?thesis using True less.hyps [of "csize + sincr csize"]
      by (subst resize_loop.simps) simp
  qed
qed

text \<open>After the macro there is room, and the text is the same.\<close>

lemma resize_room:
  assumes "\<forall>n > 0. 0 < sincr n" and "\<forall>n \<le> length (sb_text b) + room. n + sincr n < limit"
    and "0 < sb_size b" "sb_size b < limit"
  obtains n where "RESIZE_MALLOCED_BUFFER limit room sincr b = Some (b\<lparr>sb_size := n\<rparr>)"
    and "length (sb_text b) + room < n" and "0 < n" and "n < limit"
proof -
  from resize_loop_ends [OF assms] obtain n where
    "resize_loop limit sincr (length (sb_text b) + room) (sb_size b) = Some n" "length (sb_text b) + room < n" "n < limit" by blast
  then show thesis by (intro that [of n]) (simp_all add: RESIZE_MALLOCED_BUFFER_def)
qed

text \<open>The two growth rules in use: doubling and steps of eight.\<close>

definition doubling :: "nat \<Rightarrow> nat" where "doubling n = n"
definition by_eight :: "nat \<Rightarrow> nat" where "by_eight n = 8"

text \<open>With half of the type needed at most, doubling stays in it.\<close>

lemma resize_double:
  assumes "0 < sb_size b" "sb_size b < limit" "2 * (length (sb_text b) + room) < limit"
  obtains n where "RESIZE_MALLOCED_BUFFER limit room doubling b = Some (b\<lparr>sb_size := n\<rparr>)"
    and "length (sb_text b) + room < n" and "0 < n" and "n < limit"
  by (rule resize_room [of doubling b room limit]) (use assms that in \<open>simp_all add: doubling_def\<close>)

lemma resize_eight:
  assumes "0 < sb_size b" "sb_size b < limit" "length (sb_text b) + room + 8 < limit"
  obtains n where "RESIZE_MALLOCED_BUFFER limit room by_eight b = Some (b\<lparr>sb_size := n\<rparr>)"
    and "length (sb_text b) + room < n" and "0 < n" and "n < limit"
  by (rule resize_room [of by_eight b room limit]) (use assms that in \<open>simp_all add: by_eight_def\<close>)

text \<open>
  A printer is a fold of entries over a buffer. When each entry, given any buffer with so much of its
  \<open>int\<close> left, only appends its own text, the fold appends the texts in order. \<open>w\<close> bounds what an
  entry asks for.
\<close>

definition int_room :: "nat \<Rightarrow> strbuf \<Rightarrow> bool" where
  "int_room w b \<longleftrightarrow> 0 < sb_size b \<and> sb_size b < INT_LIMIT \<and> 2 * (length (sb_text b) + w) < INT_LIMIT"

lemma int_room_double:
  assumes "int_room w b" "room \<le> w"
  obtains n where "RESIZE_MALLOCED_BUFFER INT_LIMIT room doubling b = Some (b\<lparr>sb_size := n\<rparr>)"
    and "length (sb_text b) + room < n" and "0 < n" and "n < INT_LIMIT"
  by (rule resize_double [of b INT_LIMIT room]) (use assms that in \<open>auto simp: int_room_def\<close>)

lemma int_room_eight:
  assumes "int_room w b" "room + 8 \<le> w"
  obtains n where "RESIZE_MALLOCED_BUFFER INT_LIMIT room by_eight b = Some (b\<lparr>sb_size := n\<rparr>)"
    and "length (sb_text b) + room < n" and "0 < n" and "n < INT_LIMIT"
  by (rule resize_eight [of b INT_LIMIT room]) (use assms that in \<open>auto simp: int_room_def\<close>)

definition appends :: "('a \<Rightarrow> strbuf \<Rightarrow> strbuf option) \<Rightarrow> ('a \<Rightarrow> string) \<Rightarrow> ('a \<Rightarrow> nat) \<Rightarrow> 'a \<Rightarrow> bool" where
  "appends put t w x \<longleftrightarrow> length (t x) \<le> w x \<and>
     (\<forall>b. int_room (w x) b \<longrightarrow> (\<exists>n. 0 < n \<and> n < INT_LIMIT \<and> put x b = Some \<lparr>sb_text = sb_text b @ t x, sb_size = n\<rparr>))"

lemma appendsI:
  assumes "length (t x) \<le> w x"
    and "\<And>b. int_room (w x) b \<Longrightarrow> \<exists>n. 0 < n \<and> n < INT_LIMIT \<and> put x b = Some \<lparr>sb_text = sb_text b @ t x, sb_size = n\<rparr>"
  shows "appends put t w x"
  using assms by (simp add: appends_def)

lemma fold_appends:
  assumes "\<And>x. x \<in> set xs \<Longrightarrow> appends put t w x"
  shows "int_room (sum_list (map w xs) + k) b \<Longrightarrow> \<exists>n. int_room k \<lparr>sb_text = sb_text b @ concat (map t xs), sb_size = n\<rparr> \<and>
    fold_option put xs b = Some \<lparr>sb_text = sb_text b @ concat (map t xs), sb_size = n\<rparr>"
  using assms
proof (induction xs arbitrary: b)
  case Nil
  then show ?case by (intro exI [of _ "sb_size b"]) (simp add: int_room_def)
next
  case (Cons x xs)
  then have x: "appends put t w x" by simp
  have "int_room (w x) b" using Cons.prems(1) by (simp add: int_room_def)
  with x obtain n where n: "0 < n" "n < INT_LIMIT" "put x b = Some \<lparr>sb_text = sb_text b @ t x, sb_size = n\<rparr>"
    unfolding appends_def by blast
  moreover have "length (t x) \<le> w x" using x by (simp add: appends_def)
  ultimately have "int_room (sum_list (map w xs) + k) \<lparr>sb_text = sb_text b @ t x, sb_size = n\<rparr>"
    using Cons.prems(1) by (simp add: int_room_def)
  from Cons.IH [OF this] Cons.prems(2) n(3) show ?case by simp
qed

section \<open>Lists of words\<close>

text \<open>
  The conversions push one word after the other onto a list and reverse it. \<open>make_bare_word\<close>
  reads its argument, so a NULL string faults.
\<close>

definition push_words :: "('e \<Rightarrow> string option list) \<Rightarrow> 'e \<Rightarrow> string list \<Rightarrow> string list option" where
  "push_words ws e l =
     fold_option (\<lambda>w l. case w of None \<Rightarrow> None | Some s \<Rightarrow> Some (s # l)) (ws e) l"

definition word_list_of :: "('e \<Rightarrow> string option list) \<Rightarrow> 'e list \<Rightarrow> string list option" where
  "word_list_of ws es = map_option rev (fold_option (push_words ws) es [])"

lemma push_words_those:
  "fold_option (\<lambda>w l. case w of None \<Rightarrow> None | Some s \<Rightarrow> Some (s # l)) ws l =
   map_option (\<lambda>xs. rev xs @ l) (those ws)"
  by (induction ws arbitrary: l) (auto simp: option.map_comp comp_def split: option.splits)

lemma those_append: "those (xs @ ys) = (case those xs of None \<Rightarrow> None | Some a \<Rightarrow> map_option (append a) (those ys))"
  by (induction xs) (auto simp: map_option_case split: option.splits)

lemma fold_push_words:
  "fold_option (push_words ws) es l = map_option (\<lambda>xs. rev xs @ l) (those (concat (map ws es)))"
  by (induction es arbitrary: l)
    (auto simp: push_words_def push_words_those those_append option.map_comp comp_def split: option.splits)

lemma word_list_of_those: "word_list_of ws es = those (concat (map ws es))"
  by (simp add: word_list_of_def fold_push_words option.map_comp comp_def option.map_ident)

lemma those_Some: "those (map (\<lambda>x. Some (f x)) xs) = Some (map f xs)"
  by (induction xs) simp_all

text \<open>\<open>string_list_internal\<close> of \<open>subst.c\<close>: the words with the separator between them.\<close>

fun join_words :: "string \<Rightarrow> string list \<Rightarrow> string" where
  "join_words sep [] = []"
| "join_words sep (w # ws) = sep @ w @ join_words sep ws"

definition string_list_internal :: "string list \<Rightarrow> string \<Rightarrow> string option" where
  "string_list_internal ws sep = (case ws of [] \<Rightarrow> None | w # rest \<Rightarrow> Some (w @ join_words sep rest))"

text \<open>The flags of \<open>subst.c\<close>'s pattern operations, and what they select for the joined result.\<close>

definition MATCH_QUOTED :: u32 where "MATCH_QUOTED = 0x020"
definition MATCH_ASSIGNRHS :: u32 where "MATCH_ASSIGNRHS = 0x040"
definition MATCH_STARSUB :: u32 where "MATCH_STARSUB = 0x080"
definition Q_DOUBLE_QUOTES :: u32 where "Q_DOUBLE_QUOTES = 0x001"
definition PF_ASSIGNRHS :: u32 where "PF_ASSIGNRHS = 0x08"

type_synonym pos_params = "char \<Rightarrow> string list \<Rightarrow> u32 \<Rightarrow> u32 \<Rightarrow> string option"

text \<open>The common body of the pattern substitutions and case changes of both kinds of array.\<close>

definition join_changed :: "pos_params \<Rightarrow> (string \<Rightarrow> string) \<Rightarrow> u32 \<Rightarrow> string list \<Rightarrow> string option" where
  "join_changed string_list_pos_params change mflags ws =
     (case ws of
        [] \<Rightarrow> None
      | _ \<Rightarrow>
          let pchar = (if and mflags MATCH_STARSUB = MATCH_STARSUB then CHR ''*'' else CHR ''@'');
              qflags = (if and mflags MATCH_QUOTED = MATCH_QUOTED then Q_DOUBLE_QUOTES else 0);
              pflags = (if and mflags MATCH_ASSIGNRHS = MATCH_ASSIGNRHS then PF_ASSIGNRHS else 0)
          in string_list_pos_params pchar (map change ws) qflags pflags)"

section \<open>Values of elements\<close>

text \<open>Quoting a value that is NULL faults.\<close>

definition deref :: "(string \<Rightarrow> string) \<Rightarrow> string option \<Rightarrow> string option option" where
  "deref f v = map_option (\<lambda>s. Some (f s)) v"

definition value_text :: "locale_ops \<Rightarrow> string option \<Rightarrow> string option option" where
  "value_text L data =
     (case data of
        None \<Rightarrow> Some None
      | Some v \<Rightarrow> if ansic_shouldquote L v then ansic_quote L (Some v) else Some (Some (sh_double_quote L v)))"

text \<open>What it is for values below 2 ^ 29 - 1 bytes.\<close>

definition value_string :: "locale_ops \<Rightarrow> string option \<Rightarrow> string option" where
  "value_string L data = map_option (\<lambda>v. if ansic_shouldquote L v then ansic_text L v else sh_double_quote L v) data"

definition value_size :: "string option \<Rightarrow> nat" where
  "value_size data = (case data of None \<Rightarrow> 0 | Some v \<Rightarrow> 4 * length v)"

lemma value_text_string:
  assumes "value_size data + 4 < INT_LIMIT"
  shows "value_text L data = Some (value_string L data)"
proof (cases data)
  case (Some v)
  then have "4 * length v + 4 < 2 ^ 31" using assms by (simp add: value_size_def INT_LIMIT_def)
  moreover have "ansic_shouldquote L v \<Longrightarrow> v \<noteq> []" by (cases v) simp_all
  ultimately show ?thesis using Some ansic_quote_value [of v L] by (simp add: value_text_def value_string_def)
qed (simp add: value_text_def value_string_def)

definition STRLEN :: "string option \<Rightarrow> nat" where
  "STRLEN s = (case s of None \<Rightarrow> 0 | Some t \<Rightarrow> length t)"

definition dquotes :: string where "dquotes = [CHR 0x22, CHR 0x22]"

lemma value_string_length: "STRLEN (value_string L data) \<le> value_size data + 3"
proof (cases data)
  case (Some v)
  then show ?thesis using length_ansic_text [of L v] length_double_quote_loop [of L v]
    by (simp add: STRLEN_def value_string_def value_size_def sh_double_quote_def)
qed (simp add: STRLEN_def value_string_def)

lemma fold_option_concat: "fold_option (fold_option f) xss s = fold_option f (concat xss) s"
  by (induction xss arbitrary: s) (simp_all add: fold_option_append split: option.splits)

end
