(* ===== verification/Bash_Assoc.thy ===== *)
theory Bash_Assoc imports Bash_Hash Bash_Strbuf begin

text \<open>
  \<open>src/khsl/bash/bash-5.2/assoc.c\<close>: associative arrays, hash tables whose data are strings.
  A table pointer is an \<open>option\<close>, \<open>None\<close> is NULL. An operation that may use a NULL string or
  write beyond a buffer has one more \<open>option\<close> around its result, \<open>None\<close> for the fault. The
  pattern operations and the joining of positional parameters of \<open>subst.c\<close> are arguments.
\<close>

type_synonym assoc = "string hash_table"

section \<open>Elements\<close>

definition assoc_flush :: "assoc option \<Rightarrow> assoc option" where
  "assoc_flush h = hash_flush h"

definition assoc_insert :: "string \<Rightarrow> string option \<Rightarrow> assoc option \<Rightarrow> int \<times> assoc option" where
  "assoc_insert key value h =
     (case hash_search key h HASH_CREATE of
        (Some p, Some t) \<Rightarrow> (0, Some (upd_item p (\<lambda>b. b\<lparr>bc_data := value\<rparr>) t))
      | (_, t) \<Rightarrow> (-1, t))"

definition assoc_replace :: "string \<Rightarrow> string option \<Rightarrow> assoc option \<Rightarrow> string option \<times> assoc option" where
  "assoc_replace key value h =
     (case hash_search key h HASH_CREATE of
        (Some p, Some t) \<Rightarrow> (bc_data (item_at p t), Some (upd_item p (\<lambda>b. b\<lparr>bc_data := value\<rparr>) t))
      | (_, t) \<Rightarrow> (None, t))"

definition assoc_remove :: "string \<Rightarrow> assoc option \<Rightarrow> assoc option" where
  "assoc_remove s h = snd (hash_remove s h)"

definition assoc_reference :: "string \<Rightarrow> assoc option \<Rightarrow> string option \<times> assoc option" where
  "assoc_reference s h =
     (if h = None then (None, None)
      else case hash_search s h 0 of
        (Some p, Some t) \<Rightarrow> (bc_data (item_at p t), Some t)
      | (_, t) \<Rightarrow> (None, t))"

section \<open>Operations on every element\<close>

fun quote_chain ::
  "(string option \<Rightarrow> string option option) \<Rightarrow> string bucket_contents list \<Rightarrow> string bucket_contents list option" where
  "quote_chain f [] = Some []"
| "quote_chain f (b # bs) =
     (case f (bc_data b) of
        None \<Rightarrow> None
      | Some v \<Rightarrow> map_option (Cons (b\<lparr>bc_data := v\<rparr>)) (quote_chain f bs))"

fun quote_chains ::
  "(string option \<Rightarrow> string option option) \<Rightarrow> string bucket_contents list list \<Rightarrow> string bucket_contents list list option" where
  "quote_chains f [] = Some []"
| "quote_chains f (c # cs) =
     (case quote_chain f c of None \<Rightarrow> None | Some c' \<Rightarrow> map_option (Cons c') (quote_chains f cs))"

text \<open>The loop the five operations share; its result is the pointer they return.\<close>

definition for_each_data :: "(string option \<Rightarrow> string option option) \<Rightarrow> assoc option \<Rightarrow> assoc option option" where
  "for_each_data f h =
     (case h of
        None \<Rightarrow> Some None
      | Some t \<Rightarrow>
          if nentries t = 0 then Some None
          else map_option (\<lambda>cs. Some (t\<lparr>bucket_array := cs\<rparr>)) (quote_chains f (bucket_array t)))"

definition assoc_quote :: "locale_ops \<Rightarrow> assoc option \<Rightarrow> assoc option option" where
  "assoc_quote L h = for_each_data (deref (quote_string L)) h"

definition assoc_quote_escapes :: "locale_ops \<Rightarrow> string option \<Rightarrow> assoc option \<Rightarrow> assoc option option" where
  "assoc_quote_escapes L ifs h = for_each_data (deref (quote_escapes L ifs)) h"

definition assoc_dequote :: "locale_ops \<Rightarrow> assoc option \<Rightarrow> assoc option option" where
  "assoc_dequote L h = for_each_data (deref (dequote_string L)) h"

definition assoc_dequote_escapes :: "locale_ops \<Rightarrow> string option \<Rightarrow> assoc option \<Rightarrow> assoc option option" where
  "assoc_dequote_escapes L ifs h = for_each_data (\<lambda>v. Some (map_option (dequote_escapes L ifs) v)) h"

definition assoc_remove_quoted_nulls :: "locale_ops \<Rightarrow> assoc option \<Rightarrow> assoc option option" where
  "assoc_remove_quoted_nulls L h = for_each_data (deref (remove_quoted_nulls L)) h"

section \<open>Word lists\<close>

definition assoc_to_word_list_internal :: "assoc option \<Rightarrow> bool \<Rightarrow> string list option" where
  "assoc_to_word_list_internal h keys =
     (case h of
        None \<Rightarrow> Some []
      | Some t \<Rightarrow>
          if nentries t = 0 then Some []
          else word_list_of (\<lambda>b. [if keys then Some (bc_key b) else bc_data b]) (concat (bucket_array t)))"

definition assoc_to_word_list :: "assoc option \<Rightarrow> string list option" where
  "assoc_to_word_list h = assoc_to_word_list_internal h False"

definition assoc_keys_to_word_list :: "assoc option \<Rightarrow> string list option" where
  "assoc_keys_to_word_list h = assoc_to_word_list_internal h True"

definition assoc_to_kvpair_list :: "assoc option \<Rightarrow> string list option" where
  "assoc_to_kvpair_list h =
     (case h of
        None \<Rightarrow> Some []
      | Some t \<Rightarrow>
          if nentries t = 0 then Some []
          else word_list_of (\<lambda>b. [Some (bc_key b), bc_data b]) (concat (bucket_array t)))"

text \<open>\<open>for (i = 1; l && i < start; i++)\<close>\<close>

fun skip_words :: "int \<Rightarrow> int \<Rightarrow> string list \<Rightarrow> string list" where
  "skip_words i start [] = []"
| "skip_words i start (w # ws) = (if i < start then skip_words (i + 1) start ws else w # ws)"

text \<open>The words from the front up to the one \<open>t\<close> stops at; with no rounds that is the first.\<close>

fun span_words :: "int \<Rightarrow> int \<Rightarrow> string list \<Rightarrow> string list" where
  "span_words j nelem [] = []"
| "span_words j nelem (w # ws) = (if j < nelem then w # span_words (j + 1) nelem ws else [])"

definition assoc_subrange ::
  "pos_params \<Rightarrow> assoc \<Rightarrow> int \<Rightarrow> int \<Rightarrow> bool \<Rightarrow> u32 \<Rightarrow> u32 \<Rightarrow> string option option" where
  "assoc_subrange string_list_pos_params h start nelem starsub quoted pflags =
     (if nentries h = 0 then Some None
      else do {
        ws \<leftarrow> assoc_to_word_list (Some h);
        (case skip_words 1 start ws of
           [] \<Rightarrow> Some None
         | l # ls \<Rightarrow>
             (let sel = (if 0 < nelem then span_words 0 nelem (l # ls) else [l])
              in Some (string_list_pos_params (if starsub then CHR ''*'' else CHR ''@'') sel quoted pflags)))
      })"

definition assoc_patsub ::
  "pos_params \<Rightarrow> (string \<Rightarrow> string \<Rightarrow> string \<Rightarrow> u32 \<Rightarrow> string) \<Rightarrow> assoc option \<Rightarrow> string \<Rightarrow> string \<Rightarrow> u32 \<Rightarrow>
   string option option" where
  "assoc_patsub string_list_pos_params pat_subst h pat rep mflags =
     (if (case h of None \<Rightarrow> True | Some t \<Rightarrow> nentries t = 0) then Some None
      else map_option (join_changed string_list_pos_params (\<lambda>w. pat_subst w pat rep mflags) mflags) (assoc_to_word_list h))"

definition assoc_modcase ::
  "pos_params \<Rightarrow> (string \<Rightarrow> string \<Rightarrow> int \<Rightarrow> string) \<Rightarrow> assoc option \<Rightarrow> string \<Rightarrow> int \<Rightarrow> u32 \<Rightarrow> string option option" where
  "assoc_modcase string_list_pos_params sh_modcase h pat modop mflags =
     (if (case h of None \<Rightarrow> True | Some t \<Rightarrow> nentries t = 0) then Some None
      else map_option (join_changed string_list_pos_params (\<lambda>w. sh_modcase w pat modop) mflags) (assoc_to_word_list h))"

section \<open>Strings\<close>

definition all_element_sub :: "string \<Rightarrow> bool" where
  "all_element_sub k \<longleftrightarrow> k = ''@'' \<or> k = ''*''"

definition assoc_istr :: "locale_ops \<Rightarrow> string \<Rightarrow> string option option" where
  "assoc_istr L key =
     (if ansic_shouldquote L key then ansic_quote L (Some key)
      else if sh_contains_shell_metas key then Some (Some (sh_double_quote L key))
      else if all_element_sub key then Some (Some (sh_double_quote L key))
      else Some (Some key))"

text \<open>A NULL text of a key, which \<open>strcpy\<close> would read, is a fault.\<close>

definition put_kvpair :: "locale_ops \<Rightarrow> string bucket_contents \<Rightarrow> strbuf \<Rightarrow> strbuf option" where
  "put_kvpair L e b = do {
     istr \<leftarrow> Option.bind (assoc_istr L (bc_key e)) (\<lambda>istr. istr);
     vstr \<leftarrow> value_text L (bc_data e);
     let elen = length istr + 4 + STRLEN vstr;
     b \<leftarrow> RESIZE_MALLOCED_BUFFER INT_LIMIT (elen + 1) doubling b;
     b \<leftarrow> sb_strcpy istr b;
     b \<leftarrow> sb_putc (CHR '' '') b;
     b \<leftarrow> sb_strcpy (case vstr of Some v \<Rightarrow> v | None \<Rightarrow> dquotes) b;
     sb_putc (CHR '' '') b }"

definition put_assign :: "locale_ops \<Rightarrow> string bucket_contents \<Rightarrow> strbuf \<Rightarrow> strbuf option" where
  "put_assign L e b = do {
     istr \<leftarrow> Option.bind (assoc_istr L (bc_key e)) (\<lambda>istr. istr);
     vstr \<leftarrow> value_text L (bc_data e);
     let elen = length istr + 8 + STRLEN vstr;
     b \<leftarrow> RESIZE_MALLOCED_BUFFER INT_LIMIT (elen + 1) doubling b;
     b \<leftarrow> sb_putc (CHR ''['') b;
     b \<leftarrow> sb_strcpy istr b;
     b \<leftarrow> sb_putc (CHR '']'') b;
     b \<leftarrow> sb_putc (CHR ''='') b;
     b \<leftarrow> (case vstr of Some v \<Rightarrow> sb_strcpy v b | None \<Rightarrow> Some b);
     sb_putc (CHR '' '') b }"

definition assoc_to_kvpair :: "locale_ops \<Rightarrow> assoc option \<Rightarrow> bool \<Rightarrow> string option option" where
  "assoc_to_kvpair L h quoted =
     (case h of
        None \<Rightarrow> Some None
      | Some t \<Rightarrow>
          if nentries t = 0 then Some None
          else do {
            b \<leftarrow> fold_option (fold_option (put_kvpair L)) (bucket_array t) \<lparr>sb_text = [], sb_size = 128\<rparr>;
            b \<leftarrow> RESIZE_MALLOCED_BUFFER INT_LIMIT 1 by_eight b;
            ret \<leftarrow> sb_end b;
            Some (Some (if quoted then sh_single_quote ret else ret)) })"

definition assoc_to_assign :: "locale_ops \<Rightarrow> assoc option \<Rightarrow> bool \<Rightarrow> string option option" where
  "assoc_to_assign L h quoted =
     (case h of
        None \<Rightarrow> Some None
      | Some t \<Rightarrow>
          if nentries t = 0 then Some None
          else do {
            b \<leftarrow> sb_putc (CHR ''('') \<lparr>sb_text = [], sb_size = 128\<rparr>;
            b \<leftarrow> fold_option (fold_option (put_assign L)) (bucket_array t) b;
            b \<leftarrow> RESIZE_MALLOCED_BUFFER INT_LIMIT 1 by_eight b;
            b \<leftarrow> sb_putc (CHR '')'') b;
            ret \<leftarrow> sb_end b;
            Some (Some (if quoted then sh_single_quote ret else ret)) })"

definition assoc_to_string :: "locale_ops \<Rightarrow> assoc option \<Rightarrow> string \<Rightarrow> bool \<Rightarrow> string option" where
  "assoc_to_string L h sep quoted =
     (case h of
        None \<Rightarrow> None
      | Some t \<Rightarrow>
          if nentries t = 0 then Some []
          else let ws = map (\<lambda>w. if quoted then quote_string L w else w)
                          (List.map_filter bc_data (concat (bucket_array t)))
               in if ws = [] then Some [] else string_list_internal ws sep)"

section \<open>An associative array is a map\<close>

definition assoc_ok :: "assoc option \<Rightarrow> bool" where
  "assoc_ok h \<longleftrightarrow> (\<exists>t. h = Some t \<and> ht_ok t)"

definition assoc_map :: "assoc option \<Rightarrow> string \<Rightarrow> string option" where
  "assoc_map h k = (case h of None \<Rightarrow> None | Some t \<Rightarrow> (case ht_map t k of Some d \<Rightarrow> d | None \<Rightarrow> None))"

text \<open>What \<open>hash_search\<close> with HASH_CREATE hands to the operations that store.\<close>

lemma hash_search_create:
  assumes "ht_ok t"
  obtains p t' where "hash_search key (Some t) HASH_CREATE = (Some p, Some t')" and "ht_ok t'"
    and "fst p < length (bucket_array t')" and "snd p < length (bucket_array t' ! fst p)"
    and "bc_key (item_at p t') = key"
    and "ht_map t' = (if ht_map t key = None then (ht_map t)(key \<mapsto> None) else ht_map t)"
    and "bc_data (item_at p t') = assoc_map (Some t) key"
proof -
  have c: "and HASH_CREATE HASH_CREATE \<noteq> 0" by (simp add: HASH_CREATE_def)
  obtain r t' where r: "hash_search key (Some t) HASH_CREATE = (r, Some t')" "ht_ok t'"
    using hash_search_ok [OF assms, of key HASH_CREATE] by (metis prod.collapse)
  with hash_search_ok [OF assms, of key HASH_CREATE] c obtain p where "r = Some p"
    by (cases r) auto
  with r hash_search_ok [OF assms, of key HASH_CREATE] show thesis
    by (intro that [of p t']) (auto simp: assoc_map_def split: if_splits)
qed

lemma store_ok:
  assumes "ht_ok t" and "fst p < length (bucket_array t)" "snd p < length (bucket_array t ! fst p)"
  shows "ht_ok (upd_item p (\<lambda>b. b\<lparr>bc_data := v\<rparr>) t) \<and>
    ht_map (upd_item p (\<lambda>b. b\<lparr>bc_data := v\<rparr>) t) = (ht_map t)(bc_key (item_at p t) \<mapsto> v)"
  using upd_item_ok [OF assms, of "\<lambda>b. b\<lparr>bc_data := v\<rparr>"] by simp

lemma assoc_insert_ok:
  assumes "assoc_ok h"
  shows "fst (assoc_insert key v h) = 0 \<and> assoc_ok (snd (assoc_insert key v h)) \<and>
    assoc_map (snd (assoc_insert key v h)) = (assoc_map h)(key := v)"
proof -
  from assms obtain t where t: "h = Some t" "ht_ok t" by (auto simp: assoc_ok_def)
  from hash_search_create [OF t(2), of key] obtain p t' where
    s: "hash_search key (Some t) HASH_CREATE = (Some p, Some t')" "ht_ok t'"
      "fst p < length (bucket_array t')" "snd p < length (bucket_array t' ! fst p)" "bc_key (item_at p t') = key"
      "ht_map t' = (if ht_map t key = None then (ht_map t)(key \<mapsto> None) else ht_map t)" by metis
  from store_ok [OF s(2-4), of v] s(5,6) show ?thesis
    by (auto simp: assoc_insert_def t(1) s(1) assoc_ok_def assoc_map_def fun_eq_iff)
qed

lemma assoc_replace_insert:
  assumes "assoc_ok h"
  shows "snd (assoc_replace key v h) = snd (assoc_insert key v h) \<and> fst (assoc_replace key v h) = assoc_map h key"
proof -
  from assms obtain t where t: "h = Some t" "ht_ok t" by (auto simp: assoc_ok_def)
  from hash_search_create [OF t(2), of key] obtain p t' where
    s: "hash_search key (Some t) HASH_CREATE = (Some p, Some t')" "bc_data (item_at p t') = assoc_map (Some t) key"
    by metis
  then show ?thesis by (simp add: assoc_insert_def assoc_replace_def t(1))
qed

lemma assoc_remove_ok:
  assumes "assoc_ok h"
  shows "assoc_ok (assoc_remove key h) \<and> assoc_map (assoc_remove key h) = (assoc_map h)(key := None)"
proof -
  from assms obtain t where t: "h = Some t" "ht_ok t" by (auto simp: assoc_ok_def)
  from hash_remove_ok [OF t(2), of key] show ?thesis
    by (auto simp: assoc_remove_def t(1) assoc_ok_def assoc_map_def)
qed

lemma assoc_reference_ok:
  assumes "assoc_ok h"
  shows "fst (assoc_reference key h) = assoc_map h key \<and> assoc_ok (snd (assoc_reference key h)) \<and>
    assoc_map (snd (assoc_reference key h)) = assoc_map h"
proof -
  from assms obtain t where t: "h = Some t" "ht_ok t" by (auto simp: assoc_ok_def)
  obtain r t' where r: "hash_search key (Some t) 0 = (r, Some t')"
    using hash_search_ok [OF t(2), of key 0] by (metis prod.collapse)
  have z: "and (0 :: u32) HASH_CREATE = 0" by simp
  show ?thesis
  proof (cases r)
    case None
    with r hash_search_ok [OF t(2), of key 0] have "ht_ok t'" "ht_map t key = None" "ht_map t' = ht_map t" by auto
    with r None show ?thesis by (simp add: assoc_reference_def t(1) assoc_ok_def assoc_map_def fun_eq_iff)
  next
    case (Some p)
    with r hash_search_ok [OF t(2), of key 0] z
    have "ht_ok t'" "ht_map t' key = Some (bc_data (item_at p t'))" "ht_map t key \<noteq> None" "ht_map t' = ht_map t" by auto
    with r Some show ?thesis by (simp add: assoc_reference_def t(1) assoc_ok_def assoc_map_def fun_eq_iff)
  qed
qed

definition assoc_put :: "string \<Rightarrow> string \<Rightarrow> assoc option \<Rightarrow> assoc option" where
  "assoc_put k v h = snd (assoc_insert k (Some v) h)"

interpretation assoc_dict: dict assoc_ok "\<lambda>k. True" assoc_map assoc_put assoc_remove assoc_reference
  by unfold_locales (simp_all add: assoc_put_def assoc_insert_ok assoc_remove_ok assoc_reference_ok)

section \<open>The printers write what they mean, inside their buffers\<close>

text \<open>The text of one element.\<close>

definition istr_text :: "locale_ops \<Rightarrow> string \<Rightarrow> string" where
  "istr_text L key =
     (if ansic_shouldquote L key then ansic_text L key
      else if sh_contains_shell_metas key \<or> all_element_sub key then sh_double_quote L key
      else key)"

definition kvpair_text :: "locale_ops \<Rightarrow> string bucket_contents \<Rightarrow> string" where
  "kvpair_text L e =
     istr_text L (bc_key e) @ '' '' @ (case value_string L (bc_data e) of Some v \<Rightarrow> v | None \<Rightarrow> dquotes) @ '' ''"

definition assign_text :: "locale_ops \<Rightarrow> string bucket_contents \<Rightarrow> string" where
  "assign_text L e =
     ''['' @ istr_text L (bc_key e) @ '']='' @ (case value_string L (bc_data e) of Some v \<Rightarrow> v | None \<Rightarrow> []) @ '' ''"

text \<open>A bound on what an element asks the buffer for: four times the key and the value.\<close>

definition pair_size :: "string bucket_contents \<Rightarrow> nat" where
  "pair_size e = 4 * length (bc_key e) + value_size (bc_data e) + 16"

lemma istr_length: "length (istr_text L k) \<le> 4 * length k + 3"
  using length_ansic_text [of L k] length_double_quote_loop [of L k] by (simp add: istr_text_def sh_double_quote_def)

lemma pair_texts:
  assumes "int_room (pair_size e) b"
  shows "assoc_istr L (bc_key e) = Some (Some (istr_text L (bc_key e)))"
    and "value_text L (bc_data e) = Some (value_string L (bc_data e))"
proof -
  have "4 * length (bc_key e) + 4 < 2 ^ 31" using assms by (simp add: int_room_def pair_size_def INT_LIMIT_def)
  moreover have "ansic_shouldquote L (bc_key e) \<Longrightarrow> bc_key e \<noteq> []" by (cases "bc_key e") simp_all
  ultimately show "assoc_istr L (bc_key e) = Some (Some (istr_text L (bc_key e)))"
    using ansic_quote_value [of "bc_key e" L] by (simp add: assoc_istr_def istr_text_def)
  show "value_text L (bc_data e) = Some (value_string L (bc_data e))"
    using assms by (intro value_text_string) (simp add: int_room_def pair_size_def)
qed

lemma put_kvpair_appends: "appends (put_kvpair L) (kvpair_text L) pair_size e"
proof (rule appendsI)
  let ?k = "istr_text L (bc_key e)" and ?v = "value_string L (bc_data e)"
  have s: "length ?k + 4 + STRLEN ?v + 1 \<le> pair_size e"
    using istr_length [of L "bc_key e"] value_string_length [of L "bc_data e"] by (simp add: pair_size_def)
  then show "length (kvpair_text L e) \<le> pair_size e" by (cases ?v) (simp_all add: kvpair_text_def STRLEN_def dquotes_def)
  fix b :: strbuf assume b: "int_room (pair_size e) b"
  obtain n where n: "RESIZE_MALLOCED_BUFFER INT_LIMIT (length ?k + 4 + STRLEN ?v + 1) doubling b = Some (b\<lparr>sb_size := n\<rparr>)"
    "length (sb_text b) + (length ?k + 4 + STRLEN ?v + 1) < n" "0 < n" "n < INT_LIMIT"
    using b s by (rule int_room_double)
  then show "\<exists>n. 0 < n \<and> n < INT_LIMIT \<and> put_kvpair L e b = Some \<lparr>sb_text = sb_text b @ kvpair_text L e, sb_size = n\<rparr>"
    by (intro exI [of _ n])
      (cases ?v; simp add: put_kvpair_def pair_texts [OF b] Let_def sb_strcpy_def sb_putc_def kvpair_text_def STRLEN_def dquotes_def)
qed

lemma put_assign_appends: "appends (put_assign L) (assign_text L) pair_size e"
proof (rule appendsI)
  let ?k = "istr_text L (bc_key e)" and ?v = "value_string L (bc_data e)"
  have s: "length ?k + 8 + STRLEN ?v + 1 \<le> pair_size e"
    using istr_length [of L "bc_key e"] value_string_length [of L "bc_data e"] by (simp add: pair_size_def)
  then show "length (assign_text L e) \<le> pair_size e" by (cases ?v) (simp_all add: assign_text_def STRLEN_def)
  fix b :: strbuf assume b: "int_room (pair_size e) b"
  obtain n where n: "RESIZE_MALLOCED_BUFFER INT_LIMIT (length ?k + 8 + STRLEN ?v + 1) doubling b = Some (b\<lparr>sb_size := n\<rparr>)"
    "length (sb_text b) + (length ?k + 8 + STRLEN ?v + 1) < n" "0 < n" "n < INT_LIMIT"
    using b s by (rule int_room_double)
  then show "\<exists>n. 0 < n \<and> n < INT_LIMIT \<and> put_assign L e b = Some \<lparr>sb_text = sb_text b @ assign_text L e, sb_size = n\<rparr>"
    by (intro exI [of _ n])
      (cases ?v; simp add: put_assign_def pair_texts [OF b] Let_def sb_strcpy_def sb_putc_def assign_text_def STRLEN_def)
qed

definition table_size :: "assoc \<Rightarrow> nat" where
  "table_size t = (\<Sum>e\<leftarrow>items t. pair_size e) + 16"

lemma table_room: "2 * table_size t < INT_LIMIT \<Longrightarrow> length u < 2 \<Longrightarrow>
    int_room ((\<Sum>e\<leftarrow>items t. pair_size e) + 10) \<lparr>sb_text = u, sb_size = 128\<rparr>"
  by (simp add: table_size_def int_room_def) (simp add: INT_LIMIT_def)

lemma assoc_to_kvpair_exact:
  assumes "2 * table_size t < INT_LIMIT"
  shows "assoc_to_kvpair L (Some t) quoted =
     Some (if nentries t = 0 then None
           else Some ((if quoted then sh_single_quote else id) (concat (map (kvpair_text L) (items t)))))"
proof (cases "nentries t = 0")
  case False
  let ?t = "concat (map (kvpair_text L) (items t))"
  obtain n where n: "int_room 10 \<lparr>sb_text = ?t, sb_size = n\<rparr>"
    "fold_option (put_kvpair L) (items t) \<lparr>sb_text = [], sb_size = 128\<rparr> = Some \<lparr>sb_text = ?t, sb_size = n\<rparr>"
    using fold_appends [of "items t", OF put_kvpair_appends table_room [OF assms, of "[]"]] by auto
  obtain m where "RESIZE_MALLOCED_BUFFER INT_LIMIT 1 by_eight \<lparr>sb_text = ?t, sb_size = n\<rparr> = Some \<lparr>sb_text = ?t, sb_size = m\<rparr>"
    "length ?t + 1 < m"
    by (rule int_room_eight [OF n(1), of 1]) auto
  with n False show ?thesis
    by (simp add: assoc_to_kvpair_def fold_option_concat items_def sb_end_def)
qed (simp add: assoc_to_kvpair_def)

lemma assoc_to_assign_exact:
  assumes "2 * table_size t < INT_LIMIT"
  shows "assoc_to_assign L (Some t) quoted =
     Some (if nentries t = 0 then None
           else Some ((if quoted then sh_single_quote else id) (''('' @ concat (map (assign_text L) (items t)) @ '')'')))"
proof (cases "nentries t = 0")
  case False
  let ?t = "''('' @ concat (map (assign_text L) (items t))"
  obtain n where n: "int_room 10 \<lparr>sb_text = ?t, sb_size = n\<rparr>"
    "fold_option (put_assign L) (items t) \<lparr>sb_text = ''('', sb_size = 128\<rparr> = Some \<lparr>sb_text = ?t, sb_size = n\<rparr>"
    using fold_appends [of "items t", OF put_assign_appends table_room [OF assms, of "''(''"]] by auto
  obtain m where "RESIZE_MALLOCED_BUFFER INT_LIMIT 1 by_eight \<lparr>sb_text = ?t, sb_size = n\<rparr> = Some \<lparr>sb_text = ?t, sb_size = m\<rparr>"
    "length ?t + 1 < m"
    by (rule int_room_eight [OF n(1), of 1]) auto
  with n False show ?thesis
    by (simp add: assoc_to_assign_def fold_option_concat items_def sb_end_def sb_putc_def)
qed (simp add: assoc_to_assign_def)

section \<open>Properties\<close>

fun assoc_step ::
  "(string, string) dict_op \<Rightarrow> assoc option \<times> string option list \<Rightarrow> assoc option \<times> string option list" where
  "assoc_step (Ins k v) (h, outs) = (snd (assoc_insert k (Some v) h), outs)"
| "assoc_step (Del k) (h, outs) = (assoc_remove k h, outs)"
| "assoc_step (Get k) (h, outs) = (let (v, h') = assoc_reference k h in (h', outs @ [v]))"

lemma assoc_step_dict: "assoc_step = assoc_dict.step"
proof (intro ext)
  fix p s
  show "assoc_step p s = assoc_dict.step p s" by (cases s; cases p) (simp_all add: assoc_put_def)
qed

text \<open>
  C15. An associative array is a map: any sequence of assignments, unsets and references, however
  the hash table grows and whatever its counters do, answers every reference with the value
  last assigned to that key and not unset since, and leaves a table of the right map.
\<close>

theorem assoc_answers_like_map:
  assumes "assoc_ok h"
  shows "assoc_ok (fst (fold assoc_step ps (h, []))) \<and>
    (assoc_map (fst (fold assoc_step ps (h, []))), snd (fold assoc_step ps (h, []))) =
      fold map_step ps (assoc_map h, [])"
  using assoc_dict.run_refines [of "(h, [])" ps] assms by (simp add: assoc_step_dict)

lemma fresh_assoc: "assoc_ok (Some (hash_create 1024)) \<and> assoc_map (Some (hash_create 1024)) = Map.empty"
  using hash_create_ok [of 1024, where 'a = string and 'b = string] by (auto simp: assoc_ok_def assoc_map_def fun_eq_iff)

theorem assoc_answers_like_map_witness:
  "snd (fold assoc_step [Ins ''k'' ''1'', Ins ''j'' ''2'', Ins ''k'' ''3'', Get ''k'', Del ''k'', Get ''k'', Get ''j'']
     (Some (hash_create 1024), [])) = [Some ''3'', None, Some ''2'']"
  using assoc_answers_like_map [of "Some (hash_create 1024)"
      "[Ins ''k'' ''1'', Ins ''j'' ''2'', Ins ''k'' ''3'', Get ''k'', Del ''k'', Get ''k'', Get ''j'']"] fresh_assoc
  by (simp add: prod_eq_iff del: fold_simps assoc_step.simps)

text \<open>
  The two printed forms of an associative array are complete when what they print is surely below
  1 GiB: no \<open>int\<close> of the code overflows, no store leaves the growing buffer, and the result holds
  every element in bucket order, in parentheses for the assignment form, single-quoted on
  request.
\<close>

lemma assoc_printers_exact:
  assumes "2 * table_size t < INT_LIMIT"
  shows "assoc_to_kvpair L (Some t) quoted =
     Some (if nentries t = 0 then None
           else Some ((if quoted then sh_single_quote else id) (concat (map (kvpair_text L) (items t))))) \<and>
   assoc_to_assign L (Some t) quoted =
     Some (if nentries t = 0 then None
           else Some ((if quoted then sh_single_quote else id) (''('' @ concat (map (assign_text L) (items t)) @ '')'')))"
  using assoc_to_kvpair_exact [OF assms] assoc_to_assign_exact [OF assms] by blast

end
