(* ===== verification/Bash_Array.thy ===== *)
theory Bash_Array imports Bash_Strbuf Bash_Dict begin

text \<open>
  \<open>src/khsl/bash/bash-5.2/array.c\<close>: bash's sparse indexed arrays, a circular doubly-linked list
  of elements around a dummy head, with a roving pointer \<open>lastref\<close>. An element is known by its
  place in the list; the head is the place behind the last one. Indices are \<open>arrayind_t\<close>, 64-bit
  signed, and stand for their values: only renumbering past \<open>2 ^ 63\<close> would differ. A pointer to
  an array is an \<open>option\<close>; the word lists are those of \<open>Bash_Strbuf\<close>.
\<close>

section \<open>Data\<close>

record array_element =
  ind :: int
  elt_value :: "string option"

record array =
  max_index :: int
  num_elements :: int
  elts :: "array_element list"
  lastref :: "nat option"

definition array_create_element :: "int \<Rightarrow> string option \<Rightarrow> array_element" where
  "array_create_element indx v = \<lparr>ind = indx, elt_value = v\<rparr>"

definition array_empty :: "array \<Rightarrow> bool" where
  "array_empty a \<longleftrightarrow> num_elements a = 0"

definition array_head :: "array \<Rightarrow> nat" where
  "array_head a = length (elts a)"

definition element_index :: "array \<Rightarrow> nat \<Rightarrow> int" where
  "element_index a p = (if p < length (elts a) then ind (elts a ! p) else -1)"

definition element_forw :: "array \<Rightarrow> nat \<Rightarrow> nat" where
  "element_forw a p = (if p < array_head a then Suc p else 0)"

definition element_back :: "array \<Rightarrow> nat \<Rightarrow> nat" where
  "element_back a p = (if p = 0 then array_head a else p - 1)"

definition array_first_index :: "array \<Rightarrow> int" where
  "array_first_index a = element_index a (element_forw a (array_head a))"

definition LASTREF :: "array \<Rightarrow> nat" where
  "LASTREF a = (case lastref a of Some p \<Rightarrow> p | None \<Rightarrow> element_forw a (array_head a))"

section \<open>Arrays as a whole\<close>

definition array_create :: array where
  "array_create = \<lparr>max_index = -1, num_elements = 0, elts = [], lastref = None\<rparr>"

definition array_flush :: "array \<Rightarrow> array" where
  "array_flush a = a\<lparr>elts := [], max_index := -1, num_elements := 0, lastref := None\<rparr>"

definition array_copy :: "array option \<Rightarrow> array option" where
  "array_copy a =
     map_option (\<lambda>a.
       array_create\<lparr>max_index := max_index a, num_elements := num_elements a,
         elts := map (\<lambda>ae. array_create_element (ind ae) (elt_value ae)) (elts a),
         lastref := (if LASTREF a < array_head a then Some (LASTREF a) else None)\<rparr>) a"

text \<open>The places from \<open>s\<close> up to, not including, \<open>e\<close> along the circle.\<close>

definition places :: "array \<Rightarrow> nat \<Rightarrow> nat \<Rightarrow> nat list" where
  "places a s e = (if s \<le> e then [s..<e] else [s..<Suc (array_head a)] @ [0..<e])"

definition element_at :: "array \<Rightarrow> nat \<Rightarrow> array_element" where
  "element_at a p = (if p < length (elts a) then elts a ! p else array_create_element (-1) None)"

definition array_slice :: "array \<Rightarrow> nat \<Rightarrow> nat \<Rightarrow> array" where
  "array_slice a s e =
     (let es = map (\<lambda>p. array_create_element (ind (element_at a p)) (elt_value (element_at a p))) (places a s e)
      in array_create\<lparr>elts := es, num_elements := int (length es),
           max_index := (if es = [] then 0 else ind (last es))\<rparr>)"

fun walk_elements :: "(array_element \<Rightarrow> 's \<Rightarrow> int \<times> 's) \<Rightarrow> array_element list \<Rightarrow> 's \<Rightarrow> 's" where
  "walk_elements f [] s = s"
| "walk_elements f (ae # aes) s = (let (r, s1) = f ae s in if r < 0 then s1 else walk_elements f aes s1)"

definition array_walk :: "array option \<Rightarrow> (array_element \<Rightarrow> 's \<Rightarrow> int \<times> 's) \<Rightarrow> 's \<Rightarrow> 's" where
  "array_walk a f s =
     (case a of None \<Rightarrow> s | Some a \<Rightarrow> if array_empty a then s else walk_elements f (elts a) s)"

text \<open>The shifted-out chain, empty when it is disposed of, and the array.\<close>

definition AS_DISPOSE :: u32 where "AS_DISPOSE = 0x01"

definition array_shift :: "array option \<Rightarrow> int \<Rightarrow> u32 \<Rightarrow> array_element list \<times> array option" where
  "array_shift a n flags =
     (case a of
        None \<Rightarrow> ([], None)
      | Some a \<Rightarrow>
          if array_empty a \<or> n \<le> 0 then ([], Some a)
          else let a0 = a\<lparr>lastref := None\<rparr> in
          if length (elts a) \<le> nat n
          then if and flags AS_DISPOSE \<noteq> 0 then ([], Some (array_flush a0))
               else (elts a, Some (a0\<lparr>elts := [], max_index := -1, num_elements := 0\<rparr>))
          else let es = map (\<lambda>ae. ae\<lparr>ind := ind ae - n\<rparr>) (drop (nat n) (elts a));
                   a1 = a0\<lparr>elts := es, num_elements := num_elements a - n, max_index := ind (last es)\<rparr>
               in (if and flags AS_DISPOSE \<noteq> 0 then [] else take (nat n) (elts a), Some a1))"

definition array_rshift :: "array option \<Rightarrow> int \<Rightarrow> string option \<Rightarrow> int \<times> array option" where
  "array_rshift a n s =
     (case a of
        None \<Rightarrow> (0, None)
      | Some a \<Rightarrow>
          if array_empty a \<and> s = None then (0, Some a)
          else if n \<le> 0 then (num_elements a, Some a)
          else
            let num1 = (if s \<noteq> None then num_elements a + 1 else num_elements a);
                new = (if s \<noteq> None then [array_create_element 0 s] else [])
            in if s \<noteq> None \<and> num1 = 1
               then (1, Some (a\<lparr>elts := new @ elts a, num_elements := num1, max_index := 0\<rparr>))
               else let es = new @ map (\<lambda>ae. ae\<lparr>ind := ind ae + n\<rparr>) (elts a)
                    in (num1, Some (a\<lparr>elts := es, num_elements := num1, max_index := ind (last es), lastref := None\<rparr>)))"

definition array_unshift_element :: "array option \<Rightarrow> array_element list \<times> array option" where
  "array_unshift_element a = array_shift a 1 0"

definition array_shift_element :: "array option \<Rightarrow> string option \<Rightarrow> int \<times> array option" where
  "array_shift_element a v = array_rshift a 1 v"

section \<open>Operations on every element\<close>

fun quote_elements ::
  "(string option \<Rightarrow> string option option) \<Rightarrow> array_element list \<Rightarrow> array_element list option" where
  "quote_elements f [] = Some []"
| "quote_elements f (ae # aes) =
     (case f (elt_value ae) of
        None \<Rightarrow> None
      | Some v \<Rightarrow> map_option (Cons (ae\<lparr>elt_value := v\<rparr>)) (quote_elements f aes))"

definition for_each_value :: "(string option \<Rightarrow> string option option) \<Rightarrow> array option \<Rightarrow> array option option" where
  "for_each_value f a =
     (case a of
        None \<Rightarrow> Some None
      | Some a \<Rightarrow>
          if array_empty a then Some None
          else map_option (\<lambda>es. Some (a\<lparr>elts := es\<rparr>)) (quote_elements f (elts a)))"

definition array_quote :: "locale_ops \<Rightarrow> array option \<Rightarrow> array option option" where
  "array_quote L a = for_each_value (deref (quote_string L)) a"

definition array_quote_escapes :: "locale_ops \<Rightarrow> string option \<Rightarrow> array option \<Rightarrow> array option option" where
  "array_quote_escapes L ifs a = for_each_value (deref (quote_escapes L ifs)) a"

definition array_dequote :: "locale_ops \<Rightarrow> array option \<Rightarrow> array option option" where
  "array_dequote L a = for_each_value (deref (dequote_string L)) a"

definition array_dequote_escapes :: "locale_ops \<Rightarrow> string option \<Rightarrow> array option \<Rightarrow> array option option" where
  "array_dequote_escapes L ifs a = for_each_value (\<lambda>v. Some (map_option (dequote_escapes L ifs) v)) a"

definition array_remove_quoted_nulls :: "locale_ops \<Rightarrow> array option \<Rightarrow> array option option" where
  "array_remove_quoted_nulls L a = for_each_value (deref (remove_quoted_nulls L)) a"

section \<open>Single elements\<close>

text \<open>Where the searches start and in which direction they go; \<open>True\<close> is forward.\<close>

definition search_start :: "array \<Rightarrow> int \<Rightarrow> nat \<times> bool" where
  "search_start a i =
     (let start = LASTREF a; startind = element_index a start
      in if i < startind sdiv 2 then (element_forw a (array_head a), True)
         else if i \<ge> startind then (start, True)
         else (start, False))"

definition search_step :: "array \<Rightarrow> bool \<Rightarrow> nat \<Rightarrow> nat" where
  "search_step a direction p = (if direction then element_forw a p else element_back a p)"

definition search_measure :: "array \<Rightarrow> bool \<Rightarrow> nat \<Rightarrow> nat" where
  "search_measure a direction p =
     (if array_head a \<le> p then 0 else if direction then Suc (array_head a - p) else Suc (Suc p))"

lemma search_measure_step:
  "p < array_head a \<Longrightarrow> search_measure a direction (search_step a direction p) < search_measure a direction p"
  by (auto simp: search_measure_def search_step_def element_forw_def element_back_def)

datatype insert_place = Replace nat | Before nat | After nat | Nowhere

function insert_loop :: "array \<Rightarrow> int \<Rightarrow> bool \<Rightarrow> nat \<Rightarrow> insert_place" where
  "insert_loop a i direction ae =
     (if ae < array_head a
      then if element_index a ae = i then Replace ae
           else if direction \<and> element_index a ae > i then Before ae
           else if \<not> direction \<and> element_index a ae < i then After ae
           else insert_loop a i direction (search_step a direction ae)
      else Nowhere)"
  by pat_completeness auto
termination by (relation "measure (\<lambda>(a, i, d, p). search_measure a d p)") (auto simp: search_measure_step)

declare insert_loop.simps [simp del]

definition array_insert :: "array option \<Rightarrow> int \<Rightarrow> string option \<Rightarrow> int \<times> array option" where
  "array_insert a i v =
     (case a of
        None \<Rightarrow> (-1, None)
      | Some a \<Rightarrow>
          let new = array_create_element i v; es = elts a; n = num_elements a in
          if i > max_index a
          then (0, Some (a\<lparr>elts := es @ [new], max_index := i, num_elements := n + 1, lastref := Some (length es)\<rparr>))
          else if i < array_first_index a
          then (0, Some (a\<lparr>elts := new # es, num_elements := n + 1, lastref := Some 0\<rparr>))
          else let (start, direction) = search_start a i in
          case insert_loop a i direction start of
            Replace p \<Rightarrow> (0, Some (a\<lparr>elts := es[p := (es ! p)\<lparr>elt_value := v\<rparr>], lastref := Some p\<rparr>))
          | Before p \<Rightarrow>
              (0, Some (a\<lparr>elts := take p es @ new # drop p es, num_elements := n + 1, lastref := Some p\<rparr>))
          | After p \<Rightarrow>
              (0, Some (a\<lparr>elts := take (Suc p) es @ new # drop (Suc p) es, num_elements := n + 1, lastref := Some (Suc p)\<rparr>))
          | Nowhere \<Rightarrow> (-1, Some (a\<lparr>lastref := None\<rparr>)))"

text \<open>The search of \<open>array_remove\<close> and \<open>array_reference\<close>; \<open>Closest\<close> is where it broke off.\<close>

datatype find_place = Found nat | Closest nat | Missing

function find_loop :: "array \<Rightarrow> int \<Rightarrow> bool \<Rightarrow> nat \<Rightarrow> find_place" where
  "find_loop a i direction ae =
     (if ae < array_head a
      then if element_index a ae = i then Found ae
           else let next = search_step a direction ae in
           if direction \<and> element_index a next > i then Closest next
           else if \<not> direction \<and> element_index a next < i then Closest next
           else find_loop a i direction next
      else Missing)"
  by pat_completeness auto
termination by (relation "measure (\<lambda>(a, i, d, p). search_measure a d p)") (auto simp: search_measure_step)

declare find_loop.simps [simp del]

definition array_remove :: "array option \<Rightarrow> int \<Rightarrow> array_element option \<times> array option" where
  "array_remove a i =
     (case a of
        None \<Rightarrow> (None, None)
      | Some a \<Rightarrow>
          if array_empty a then (None, Some a)
          else if i > max_index a \<or> i < array_first_index a then (None, Some a)
          else let (start, direction) = search_start a i in
          case find_loop a i direction start of
            Found p \<Rightarrow>
              let es = take p (elts a) @ drop (Suc p) (elts a) in
              (Some (elts a ! p),
               Some (a\<lparr>elts := es, num_elements := num_elements a - 1,
                 max_index := (if i = max_index a then element_index a (element_back a p) else max_index a),
                 lastref := (if element_forw a p \<noteq> array_head a then Some p
                             else if element_back a p \<noteq> array_head a then Some (p - 1)
                             else None)\<rparr>))
          | _ \<Rightarrow> (None, Some a))"

definition array_reference :: "array option \<Rightarrow> int \<Rightarrow> string option \<times> array option" where
  "array_reference a i =
     (case a of
        None \<Rightarrow> (None, None)
      | Some a \<Rightarrow>
          if array_empty a then (None, Some a)
          else if i > max_index a \<or> i < array_first_index a then (None, Some a)
          else let (start, direction) = search_start a i in
          case find_loop a i direction start of
            Found p \<Rightarrow> (elt_value (elts a ! p), Some (a\<lparr>lastref := Some p\<rparr>))
          | Closest p \<Rightarrow> (None, Some (a\<lparr>lastref := Some p\<rparr>))
          | Missing \<Rightarrow> (None, Some (a\<lparr>lastref := Some start\<rparr>)))"

section \<open>Words and vectors\<close>

definition array_to_word_list :: "array option \<Rightarrow> string list option" where
  "array_to_word_list a =
     (case a of
        None \<Rightarrow> Some []
      | Some a \<Rightarrow> if array_empty a then Some [] else word_list_of (\<lambda>ae. [elt_value ae]) (elts a))"

definition array_keys_to_word_list :: "array option \<Rightarrow> string list option" where
  "array_keys_to_word_list a =
     (case a of
        None \<Rightarrow> Some []
      | Some a \<Rightarrow> if array_empty a then Some [] else word_list_of (\<lambda>ae. [Some (dec_of_int (ind ae))]) (elts a))"

definition array_to_kvpair_list :: "array option \<Rightarrow> string list option" where
  "array_to_kvpair_list a =
     (case a of
        None \<Rightarrow> Some []
      | Some a \<Rightarrow>
          if array_empty a then Some []
          else word_list_of (\<lambda>ae. [Some (dec_of_int (ind ae)), elt_value ae]) (elts a))"

text \<open>The loops that insert a list of values from an index on.\<close>

fun insert_from :: "int \<Rightarrow> string option list \<Rightarrow> array option \<Rightarrow> array option" where
  "insert_from i [] a = a"
| "insert_from i (v # vs) a = insert_from (i + 1) vs (snd (array_insert a i v))"

definition array_assign_list :: "array option \<Rightarrow> string list \<Rightarrow> array option" where
  "array_assign_list a ws = insert_from 0 (map Some ws) a"

definition array_from_word_list :: "string list \<Rightarrow> array option" where
  "array_from_word_list ws = (if ws = [] then None else array_assign_list (Some array_create) ws)"

definition array_to_argv :: "array option \<Rightarrow> string list option \<times> int" where
  "array_to_argv a =
     (case a of
        None \<Rightarrow> (None, 0)
      | Some a \<Rightarrow>
          if array_empty a then (None, 0)
          else let ret = List.map_filter elt_value (elts a) in (Some ret, int (length ret)))"

text \<open>\<open>t0\<close> is the value of the variable \<open>t\<close>, which nothing sets before its first use.\<close>

definition array_from_argv :: "string option \<Rightarrow> array option \<Rightarrow> string option list \<Rightarrow> array option" where
  "array_from_argv t0 a vec =
     (case a of
        None \<Rightarrow> insert_from 0 (map (\<lambda>_. t0) vec) None
      | Some ar \<Rightarrow>
          if num_elements ar = 0 then insert_from 0 (map (\<lambda>_. t0) vec) a
          else if num_elements ar = int (length vec) \<and> length vec = 1
          then Some (ar\<lparr>elts := (elts ar)[0 := (elts ar ! 0)\<lparr>elt_value := vec ! 0\<rparr>]\<rparr>)
          else if num_elements ar \<le> int (length vec)
          then insert_from (num_elements ar) (drop (nat (num_elements ar)) vec)
                 (Some (ar\<lparr>elts := map (\<lambda>ae. ae\<lparr>elt_value := vec ! 0\<rparr>) (elts ar)\<rparr>))
          else insert_from 0 vec (Some (array_flush ar)))"

section \<open>Ranges, patterns and strings\<close>

fun find_start :: "int \<Rightarrow> nat \<Rightarrow> array_element list \<Rightarrow> nat" where
  "find_start start p [] = p"
| "find_start start p (ae # aes) = (if start > ind ae then find_start start (Suc p) aes else p)"

definition array_subrange ::
  "pos_params \<Rightarrow> array option \<Rightarrow> int \<Rightarrow> int \<Rightarrow> bool \<Rightarrow> u32 \<Rightarrow> u32 \<Rightarrow> string option option" where
  "array_subrange string_list_pos_params a start nelem starsub quoted pflags =
     (case a of
        None \<Rightarrow> Some None
      | Some ar \<Rightarrow>
          if array_empty ar \<or> start > max_index ar then Some None
          else let h = find_start start 0 (elts ar) in
          if h = array_head ar then Some None
          else let p = min (array_head ar) (h + nat nelem) in do {
            wl \<leftarrow> array_to_word_list (Some (array_slice ar h p));
            Some (if wl = [] then None
                  else string_list_pos_params (if starsub then CHR ''*'' else CHR ''@'') wl quoted pflags) })"

definition array_patsub ::
  "pos_params \<Rightarrow> (string \<Rightarrow> string \<Rightarrow> string \<Rightarrow> u32 \<Rightarrow> string) \<Rightarrow> array option \<Rightarrow> string \<Rightarrow> string \<Rightarrow> u32 \<Rightarrow>
   string option option" where
  "array_patsub string_list_pos_params pat_subst a pat rep mflags =
     (if (case a of None \<Rightarrow> True | Some ar \<Rightarrow> array_empty ar) then Some None
      else map_option (join_changed string_list_pos_params (\<lambda>w. pat_subst w pat rep mflags) mflags) (array_to_word_list a))"

definition array_modcase ::
  "pos_params \<Rightarrow> (string \<Rightarrow> string \<Rightarrow> int \<Rightarrow> string) \<Rightarrow> array option \<Rightarrow> string \<Rightarrow> int \<Rightarrow> u32 \<Rightarrow> string option option" where
  "array_modcase string_list_pos_params sh_modcase a pat modop mflags =
     (if (case a of None \<Rightarrow> True | Some ar \<Rightarrow> array_empty ar) then Some None
      else map_option (join_changed string_list_pos_params (\<lambda>w. sh_modcase w pat modop) mflags) (array_to_word_list a))"

text \<open>The printers put something between elements, so they look whether one follows.\<close>

fun string_loop :: "locale_ops \<Rightarrow> string \<Rightarrow> bool \<Rightarrow> array_element list \<Rightarrow> strbuf \<Rightarrow> strbuf option" where
  "string_loop L sep quoted [] b = Some b"
| "string_loop L sep quoted (ae # aes) b =
     (case elt_value ae of
        None \<Rightarrow> string_loop L sep quoted aes b
      | Some v \<Rightarrow> do {
          let t = (if quoted then quote_string L v else v);
          b \<leftarrow> RESIZE_MALLOCED_BUFFER INT_LIMIT (length t + length sep + 2) doubling b;
          b \<leftarrow> sb_strcpy t b;
          b \<leftarrow> (if aes \<noteq> [] then sb_strcpy sep b else Some b);
          string_loop L sep quoted aes b })"

definition array_to_string_internal ::
  "locale_ops \<Rightarrow> array \<Rightarrow> nat \<Rightarrow> nat \<Rightarrow> string \<Rightarrow> bool \<Rightarrow> string option option" where
  "array_to_string_internal L a start stop sep quoted =
     (if start = stop then Some None
      else do {
        b \<leftarrow> string_loop L sep quoted (map (element_at a) (places a start stop)) \<lparr>sb_text = [], sb_size = 64\<rparr>;
        s \<leftarrow> sb_end b;
        Some (Some s) })"

definition array_to_string :: "locale_ops \<Rightarrow> array option \<Rightarrow> string \<Rightarrow> bool \<Rightarrow> string option option" where
  "array_to_string L a sep quoted =
     (case a of
        None \<Rightarrow> Some None
      | Some ar \<Rightarrow>
          if array_empty ar then Some (Some [])
          else array_to_string_internal L ar (element_forw ar (array_head ar)) (array_head ar) sep quoted)"

fun kvpair_loop :: "locale_ops \<Rightarrow> array_element list \<Rightarrow> strbuf \<Rightarrow> strbuf option" where
  "kvpair_loop L [] b = Some b"
| "kvpair_loop L (ae # aes) b = do {
     let istr = dec_of_int (ind ae);
     valstr \<leftarrow> value_text L (elt_value ae);
     b \<leftarrow> RESIZE_MALLOCED_BUFFER INT_LIMIT (length istr + 8 + STRLEN valstr + 1) doubling b;
     b \<leftarrow> sb_strcpy istr b;
     b \<leftarrow> sb_putc (CHR '' '') b;
     b \<leftarrow> sb_strcpy (case valstr of Some v \<Rightarrow> v | None \<Rightarrow> dquotes) b;
     b \<leftarrow> (if aes \<noteq> [] then sb_putc (CHR '' '') b else Some b);
     kvpair_loop L aes b }"

definition array_to_kvpair :: "locale_ops \<Rightarrow> array option \<Rightarrow> bool \<Rightarrow> string option option" where
  "array_to_kvpair L a quoted =
     (case a of
        None \<Rightarrow> Some None
      | Some ar \<Rightarrow>
          if array_empty ar then Some None
          else do {
            b \<leftarrow> kvpair_loop L (elts ar) \<lparr>sb_text = [], sb_size = 128\<rparr>;
            b \<leftarrow> RESIZE_MALLOCED_BUFFER INT_LIMIT 1 by_eight b;
            result \<leftarrow> sb_end b;
            Some (Some (if quoted then sh_single_quote result else result)) })"

fun assign_loop :: "locale_ops \<Rightarrow> array_element list \<Rightarrow> strbuf \<Rightarrow> strbuf option" where
  "assign_loop L [] b = Some b"
| "assign_loop L (ae # aes) b = do {
     let istr = dec_of_int (ind ae);
     valstr \<leftarrow> value_text L (elt_value ae);
     b \<leftarrow> RESIZE_MALLOCED_BUFFER INT_LIMIT (length istr + 8 + STRLEN valstr + 1) doubling b;
     b \<leftarrow> sb_putc (CHR ''['') b;
     b \<leftarrow> sb_strcpy istr b;
     b \<leftarrow> sb_putc (CHR '']'') b;
     b \<leftarrow> sb_putc (CHR ''='') b;
     b \<leftarrow> (case valstr of Some v \<Rightarrow> sb_strcpy v b | None \<Rightarrow> Some b);
     b \<leftarrow> (if aes \<noteq> [] then sb_putc (CHR '' '') b else Some b);
     assign_loop L aes b }"

definition array_to_assign :: "locale_ops \<Rightarrow> array option \<Rightarrow> bool \<Rightarrow> string option option" where
  "array_to_assign L a quoted =
     (case a of
        None \<Rightarrow> Some None
      | Some ar \<Rightarrow>
          if array_empty ar then Some None
          else do {
            b \<leftarrow> sb_putc (CHR ''('') \<lparr>sb_text = [], sb_size = 128\<rparr>;
            b \<leftarrow> assign_loop L (elts ar) b;
            b \<leftarrow> RESIZE_MALLOCED_BUFFER INT_LIMIT 1 by_eight b;
            b \<leftarrow> sb_putc (CHR '')'') b;
            result \<leftarrow> sb_end b;
            Some (Some (if quoted then sh_single_quote result else result)) })"

section \<open>The invariant and the map of an array\<close>

definition keys :: "array_element list \<Rightarrow> int list" where
  "keys es = map ind es"

definition arr_ok :: "array \<Rightarrow> bool" where
  "arr_ok a \<longleftrightarrow>
     sorted_wrt (<) (keys (elts a)) \<and> (\<forall>i \<in> set (keys (elts a)). 0 \<le> i) \<and>
     num_elements a = int (length (elts a)) \<and>
     max_index a = (if elts a = [] then -1 else ind (last (elts a))) \<and>
     (\<forall>p. lastref a = Some p \<longrightarrow> p < length (elts a))"

definition elt_pair :: "array_element \<Rightarrow> int \<times> string option" where
  "elt_pair ae = (ind ae, elt_value ae)"

definition elts_map :: "array_element list \<Rightarrow> int \<Rightarrow> string option option" where
  "elts_map es = map_of (map elt_pair es)"

lemma keys_simps [simp]: "keys [] = []" "keys (e # es) = ind e # keys es" "keys (es @ fs) = keys es @ keys fs"
  "length (keys es) = length es"
  by (simp_all add: keys_def)

lemma keys_nth: "p < length es \<Longrightarrow> keys es ! p = ind (es ! p)"
  by (simp add: keys_def)

lemma arr_okD:
  assumes "arr_ok a"
  shows "sorted_wrt (<) (keys (elts a))" "\<And>i. i \<in> set (keys (elts a)) \<Longrightarrow> 0 \<le> i"
    "num_elements a = int (length (elts a))" "max_index a = (if elts a = [] then -1 else ind (last (elts a)))"
    "\<And>p. lastref a = Some p \<Longrightarrow> p < length (elts a)"
  using assms by (auto simp: arr_ok_def)

lemma sorted_keys_nth:
  "sorted_wrt (<) (keys es) \<Longrightarrow> p < q \<Longrightarrow> q < length es \<Longrightarrow> ind (es ! p) < ind (es ! q)"
  using sorted_wrt_nth_less [of "(<)" "keys es" p q] by (simp add: keys_nth)

lemma arr_ok_bounds:
  assumes "arr_ok a" and "p < length (elts a)"
  shows "array_first_index a \<le> ind (elts a ! p)" and "ind (elts a ! p) \<le> max_index a"
proof -
  note s = arr_okD(1) [OF assms(1)]
  from assms(2) have ne: "elts a \<noteq> []" by auto
  then have f: "array_first_index a = ind (elts a ! 0)"
    by (simp add: array_first_index_def element_index_def element_forw_def array_head_def)
  have l: "max_index a = ind (elts a ! (length (elts a) - 1))" using arr_okD(4) [OF assms(1)] ne by (simp add: last_conv_nth)
  show "array_first_index a \<le> ind (elts a ! p)"
    using sorted_keys_nth [OF s, of 0 p] assms(2) f by (cases "p = 0") auto
  show "ind (elts a ! p) \<le> max_index a"
    using sorted_keys_nth [OF s, of p "length (elts a) - 1"] assms(2) l
    by (cases "p = length (elts a) - 1") (auto intro!: less_imp_le)
qed

lemma in_keys: "i \<in> set (keys es) \<longleftrightarrow> (\<exists>p < length es. ind (es ! p) = i)"
  unfolding keys_def set_map by (metis image_iff in_set_conv_nth nth_mem)

lemma elts_map_None: "elts_map es i = None \<longleftrightarrow> i \<notin> set (keys es)"
  by (simp add: elts_map_def map_of_eq_None_iff keys_def elt_pair_def comp_def image_image)

lemma elts_map_mid:
  assumes "i \<notin> set (keys es)"
  shows "elts_map (es @ array_create_element i v # fs) = (elts_map (es @ fs))(i \<mapsto> v)"
proof
  fix j
  show "elts_map (es @ array_create_element i v # fs) j = ((elts_map (es @ fs))(i \<mapsto> v)) j"
    using assms elts_map_None [of es i]
    by (auto simp: elts_map_def elt_pair_def array_create_element_def map_add_def split: option.splits)
qed

lemma elts_map_cut:
  assumes "i \<notin> set (keys es)" and "i \<notin> set (keys fs)" and "ind e = i"
  shows "elts_map (es @ fs) = (elts_map (es @ e # fs))(i := None)"
proof
  fix j
  show "elts_map (es @ fs) j = ((elts_map (es @ e # fs))(i := None)) j"
    using assms elts_map_None [of es i] elts_map_None [of fs i]
    by (auto simp: elts_map_def elt_pair_def map_add_def split: option.splits)
qed

text \<open>A new key between smaller and greater ones.\<close>

lemma arr_ok_mid:
  assumes ok: "arr_ok a" and es: "elts a = es @ fs"
    and lo: "\<And>j. j \<in> set (keys es) \<Longrightarrow> j < i" and hi: "\<And>j. j \<in> set (keys fs) \<Longrightarrow> i < j" and "0 \<le> i"
    and b: "elts b = es @ array_create_element i v # fs" "num_elements b = num_elements a + 1"
      "max_index b = max i (max_index a)" "lastref b = Some (length es)"
  shows "arr_ok b \<and> elts_map (elts b) = (elts_map (elts a))(i \<mapsto> v)"
proof
  have m: "max_index b = ind (last (elts b))"
  proof (cases "fs = []")
    case True
    have "max_index a \<le> i" using lo arr_okD(4) [OF ok] \<open>0 \<le> i\<close> es True
      by (cases "es = []") (auto simp: keys_def intro!: less_imp_le)
    with True b show ?thesis by (simp add: array_create_element_def)
  next
    case False
    then have "max_index a = ind (last fs)" using arr_okD(4) [OF ok] es by simp
    moreover have "i < ind (last fs)" using hi False by (simp add: keys_def)
    ultimately show ?thesis using b False by simp
  qed
  show "arr_ok b"
    using arr_okD(1-3) [OF ok] es lo hi b m \<open>0 \<le> i\<close>
    by (auto simp: arr_ok_def sorted_wrt_append array_create_element_def)
  show "elts_map (elts b) = (elts_map (elts a))(i \<mapsto> v)"
    unfolding b(1) es by (rule elts_map_mid) (use lo in blast)
qed

section \<open>Searching\<close>

text \<open>What a search has behind it: all smaller going forward, all greater going back.\<close>

definition search_inv :: "array \<Rightarrow> int \<Rightarrow> bool \<Rightarrow> nat \<Rightarrow> bool" where
  "search_inv a i direction p \<longleftrightarrow>
     p \<le> length (elts a) \<and>
     (if direction then \<forall>j < p. ind (elts a ! j) < i
      else \<forall>j < length (elts a). p < j \<or> p = length (elts a) \<longrightarrow> i < ind (elts a ! j))"

lemma search_inv_step:
  assumes "search_inv a i direction p" and "p < length (elts a)"
    and "if direction then ind (elts a ! p) < i else i < ind (elts a ! p)"
  shows "search_inv a i direction (search_step a direction p)"
  using assms
  by (auto simp: search_inv_def search_step_def element_forw_def element_back_def array_head_def less_Suc_eq
      split: if_splits) (metis Suc_pred less_Suc_eq_le nat_less_le not_less_eq neq0_conv)+

lemma search_inv_end:
  assumes "arr_ok a" and "elts a \<noteq> []" and "array_first_index a \<le> i" "i \<le> max_index a"
  shows "\<not> search_inv a i direction (length (elts a))"
proof -
  from assms(2) have f: "array_first_index a = ind (elts a ! 0)"
    by (simp add: array_first_index_def element_index_def element_forw_def array_head_def)
  have l: "max_index a = ind (elts a ! (length (elts a) - 1))"
    using arr_okD(4) [OF assms(1)] assms(2) by (simp add: last_conv_nth)
  have "0 < length (elts a)" "length (elts a) - 1 < length (elts a)" using assms(2) by simp_all
  with f l assms(3,4) show ?thesis unfolding search_inv_def by (metis not_less)
qed

lemma search_start_ok:
  assumes ok: "arr_ok a" and ne: "elts a \<noteq> []" and lo: "array_first_index a \<le> i"
  obtains s d where "search_start a i = (s, d)" and "s < length (elts a)" and "search_inv a i d s"
    and "if d then ind (elts a ! s) \<le> i else i < ind (elts a ! s)"
proof -
  obtain s d where sd: "search_start a i = (s, d)" by fastforce
  have n: "0 < length (elts a)" using ne by simp
  have first: "element_forw a (array_head a) = 0" by (simp add: element_forw_def)
  have L: "LASTREF a < length (elts a)"
    using arr_okD(5) [OF ok] n first by (simp add: LASTREF_def split: option.splits)
  have fi: "array_first_index a = ind (elts a ! 0)" using n by (simp add: array_first_index_def first element_index_def)
  have s: "s < length (elts a)" using sd L n first by (auto simp: search_start_def Let_def split: if_splits)
  have b: "if d then ind (elts a ! s) \<le> i else i < ind (elts a ! s)"
    using sd L n first lo fi by (auto simp: search_start_def Let_def element_index_def split: if_splits)
  have "search_inv a i d s"
    using b s sorted_keys_nth [OF arr_okD(1) [OF ok]] by (fastforce simp: search_inv_def split: if_splits)
  with that sd s b show thesis by blast
qed

lemma insert_loop_ok:
  assumes ok: "arr_ok a" and ne: "elts a \<noteq> []" and lo: "array_first_index a \<le> i" and hi: "i \<le> max_index a"
  shows "search_inv a i d p \<Longrightarrow>
    (case insert_loop a i d p of
       Replace q \<Rightarrow> q < length (elts a) \<and> ind (elts a ! q) = i
     | Before q \<Rightarrow> q < length (elts a) \<and> i < ind (elts a ! q) \<and> (\<forall>j < q. ind (elts a ! j) < i)
     | After q \<Rightarrow> q < length (elts a) \<and> ind (elts a ! q) < i \<and> (\<forall>j < length (elts a). q < j \<longrightarrow> i < ind (elts a ! j))
     | Nowhere \<Rightarrow> False)"
proof (induction "search_measure a d p" arbitrary: p rule: less_induct)
  case less
  show ?case
  proof (cases "p < length (elts a)")
    case False
    with less.prems have "search_inv a i d (length (elts a))" by (simp add: search_inv_def)
    with search_inv_end [OF ok ne lo hi] show ?thesis by blast
  next
    case True
    then have ix: "element_index a p = ind (elts a ! p)" by (simp add: element_index_def)
    show ?thesis
    proof (cases "ind (elts a ! p) = i \<or> (if d then i < ind (elts a ! p) else ind (elts a ! p) < i)")
      case stop: True
      with True less.prems show ?thesis
        by (subst insert_loop.simps) (auto simp: ix array_head_def search_inv_def split: if_splits)
    next
      case False
      then have "search_inv a i d (search_step a d p)"
        by (intro search_inv_step [OF less.prems True]) (auto split: if_splits)
      from less.hyps [OF _ this] True have "case insert_loop a i d (search_step a d p) of
         Replace q \<Rightarrow> q < length (elts a) \<and> ind (elts a ! q) = i
       | Before q \<Rightarrow> q < length (elts a) \<and> i < ind (elts a ! q) \<and> (\<forall>j < q. ind (elts a ! j) < i)
       | After q \<Rightarrow> q < length (elts a) \<and> ind (elts a ! q) < i \<and> (\<forall>j < length (elts a). q < j \<longrightarrow> i < ind (elts a ! j))
       | Nowhere \<Rightarrow> False" by (simp add: search_measure_step array_head_def)
      with True False show ?thesis by (subst insert_loop.simps) (simp add: ix array_head_def split: if_splits)
    qed
  qed
qed

lemma find_loop_ok:
  assumes ok: "arr_ok a" and ne: "elts a \<noteq> []" and lo: "array_first_index a \<le> i" and hi: "i \<le> max_index a"
  shows "search_inv a i d p \<Longrightarrow> p < length (elts a) \<Longrightarrow> (if d then ind (elts a ! p) \<le> i else i \<le> ind (elts a ! p)) \<Longrightarrow>
    (case find_loop a i d p of
       Found q \<Rightarrow> q < length (elts a) \<and> ind (elts a ! q) = i
     | Closest q \<Rightarrow> q < length (elts a) \<and> i \<notin> set (keys (elts a))
     | Missing \<Rightarrow> False)"
proof (induction "search_measure a d p" arbitrary: p rule: less_induct)
  case less
  note inv = less.prems(1) and p = less.prems(2) and le = less.prems(3)
  have ix: "element_index a p = ind (elts a ! p)" using p by (simp add: element_index_def)
  show ?case
  proof (cases "ind (elts a ! p) = i")
    case True
    then show ?thesis using p by (subst find_loop.simps) (simp add: ix array_head_def)
  next
    case False
    let ?q = "search_step a d p"
    have strict: "if d then ind (elts a ! p) < i else i < ind (elts a ! p)" using le False by (auto split: if_splits)
    note inv' = search_inv_step [OF inv p strict]
    have "?q \<noteq> length (elts a)" using inv' search_inv_end [OF ok ne lo hi] by auto
    moreover have "?q \<le> length (elts a)" using inv' by (simp add: search_inv_def)
    ultimately have q: "?q < length (elts a)" by simp
    then have iq: "element_index a ?q = ind (elts a ! ?q)" by (simp add: element_index_def)
    show ?thesis
    proof (cases "if d then i < ind (elts a ! ?q) else ind (elts a ! ?q) < i")
      case stop: True
      have "find_loop a i d p = Closest ?q"
        using p False stop by (subst find_loop.simps) (auto simp: ix iq array_head_def Let_def split: if_splits)
      moreover have "i \<noteq> ind (elts a ! j)" if "j < length (elts a)" for j
      proof (cases d)
        case True
        then have qs: "?q = Suc p" using p by (simp add: search_step_def element_forw_def array_head_def)
        show ?thesis
          using inv' stop that True sorted_keys_nth [OF arr_okD(1) [OF ok], of ?q j]
          by (cases "j < ?q"; cases "j = ?q") (auto simp: search_inv_def)
      next
        case bwd: False
        then have "p \<noteq> 0" using \<open>?q \<noteq> length (elts a)\<close>
          by (intro notI) (simp add: search_step_def element_back_def array_head_def)
        show ?thesis
          using inv' stop that bwd q sorted_keys_nth [OF arr_okD(1) [OF ok], of j ?q]
          by (cases "?q < j"; cases "j = ?q") (auto simp: search_inv_def)
      qed
      ultimately show ?thesis using q by (auto simp: in_keys)
    next
      case go: False
      then have "if d then ind (elts a ! ?q) \<le> i else i \<le> ind (elts a ! ?q)" by (auto split: if_splits)
      note IH = less.hyps [OF _ inv' q this]
      have "find_loop a i d p = find_loop a i d ?q"
        using p False go by (subst find_loop.simps) (auto simp: ix iq array_head_def Let_def split: if_splits)
      with IH p show ?thesis by (simp add: search_measure_step array_head_def)
    qed
  qed
qed

section \<open>The operations on the map\<close>

definition array_ok :: "array option \<Rightarrow> bool" where
  "array_ok a \<longleftrightarrow> (\<exists>ar. a = Some ar \<and> arr_ok ar)"

definition array_map :: "array option \<Rightarrow> int \<Rightarrow> string option" where
  "array_map a i = (case a of None \<Rightarrow> None | Some ar \<Rightarrow> (case elts_map (elts ar) i of Some v \<Rightarrow> v | None \<Rightarrow> None))"

lemma arr_ok_lastref:
  assumes "arr_ok a" and "p < length (elts a)"
  shows "arr_ok (a\<lparr>lastref := Some p\<rparr>)"
  using assms by (simp add: arr_ok_def)

lemma keys_take: "j \<in> set (keys (take q es)) \<Longrightarrow> \<exists>p < q. p < length es \<and> j = ind (es ! p)"
  by (auto simp: in_keys)

lemma keys_drop: "j \<in> set (keys (drop q es)) \<Longrightarrow> \<exists>p < length es. q \<le> p \<and> j = ind (es ! p)"
  unfolding in_keys
proof (elim exE conjE)
  fix p assume p: "p < length (drop q es)" "ind (drop q es ! p) = j"
  then show "\<exists>p < length es. q \<le> p \<and> j = ind (es ! p)" by (intro exI [of _ "q + p"]) simp
qed

text \<open>Replacing a value in place.\<close>

lemma arr_ok_replace:
  assumes ok: "arr_ok a" and q: "q < length (elts a)" "ind (elts a ! q) = i"
  shows "arr_ok (a\<lparr>elts := (elts a)[q := (elts a ! q)\<lparr>elt_value := v\<rparr>], lastref := Some q\<rparr>) \<and>
    elts_map ((elts a)[q := (elts a ! q)\<lparr>elt_value := v\<rparr>]) = (elts_map (elts a))(i \<mapsto> v)"
proof
  let ?es = "(elts a)[q := (elts a ! q)\<lparr>elt_value := v\<rparr>]"
  have "keys ?es = (keys (elts a))[q := keys (elts a) ! q]" using q by (simp add: keys_def map_update)
  then have k: "keys ?es = keys (elts a)" by simp
  have l: "elts a \<noteq> [] \<Longrightarrow> ind (last ?es) = ind (last (elts a))"
    using k by (metis keys_def last_map list_update_nonempty)
  have "?es \<noteq> []" "elts a \<noteq> []" using q by auto
  with k l arr_okD [OF ok] q show "arr_ok (a\<lparr>elts := ?es, lastref := Some q\<rparr>)" by (auto simp: arr_ok_def)
  have "elts a = take q (elts a) @ elts a ! q # drop (Suc q) (elts a)" using q by (simp add: id_take_nth_drop)
  moreover have "elts a ! q = array_create_element i (elt_value (elts a ! q))"
    using q by (simp add: array_create_element_def)
  moreover have "(elts a ! q)\<lparr>elt_value := v\<rparr> = array_create_element i v" using q by (simp add: array_create_element_def)
  then have "?es = take q (elts a) @ array_create_element i v # drop (Suc q) (elts a)"
    using q by (simp add: upd_conv_take_nth_drop)
  moreover have "i \<notin> set (keys (take q (elts a)))"
    using sorted_keys_nth [OF arr_okD(1) [OF ok], of _ q] q by (fastforce dest!: keys_take)
  ultimately show "elts_map ?es = (elts_map (elts a))(i \<mapsto> v)" by (metis elts_map_mid fun_upd_upd)
qed

lemma array_insert_arr:
  assumes ok: "arr_ok a" and i: "0 \<le> i"
  shows "fst (array_insert (Some a) i v) = 0 \<and>
    (\<exists>b. snd (array_insert (Some a) i v) = Some b \<and> arr_ok b \<and> elts_map (elts b) = (elts_map (elts a))(i \<mapsto> v))"
proof (cases "i > max_index a")
  case True
  have "j < i" if "j \<in> set (keys (elts a))" for j
  proof -
    from that obtain p where "p < length (elts a)" "j = ind (elts a ! p)" by (auto simp: in_keys)
    with arr_ok_bounds(2) [OF ok] True show ?thesis by fastforce
  qed
  with arr_ok_mid [OF ok, of "elts a" "[]" i "a\<lparr>elts := elts a @ [array_create_element i v], max_index := i,
      num_elements := num_elements a + 1, lastref := Some (length (elts a))\<rparr>" v] True i
  show ?thesis by (simp add: array_insert_def Let_def)
next
  case notlast: False
  have ne: "elts a \<noteq> []" using notlast i arr_okD(4) [OF ok] by (auto split: if_splits)
  show ?thesis
  proof (cases "i < array_first_index a")
    case True
    have "i < j" if "j \<in> set (keys (elts a))" for j
    proof -
      from that obtain p where "p < length (elts a)" "j = ind (elts a ! p)" by (auto simp: in_keys)
      with arr_ok_bounds(1) [OF ok] True show ?thesis by fastforce
    qed
    with arr_ok_mid [OF ok, of "[]" "elts a" i "a\<lparr>elts := array_create_element i v # elts a,
        num_elements := num_elements a + 1, lastref := Some 0\<rparr>" v] notlast True i
    show ?thesis by (simp add: array_insert_def Let_def max_def)
  next
    case False
    then have lo: "array_first_index a \<le> i" and hi: "i \<le> max_index a" using notlast by simp_all
    obtain s d where sd: "search_start a i = (s, d)" "search_inv a i d s" by (rule search_start_ok [OF ok ne lo])
    note loop = insert_loop_ok [OF ok ne lo hi sd(2)]
    have mid: "\<exists>b. Some (a\<lparr>elts := take k (elts a) @ array_create_element i v # drop k (elts a),
          num_elements := num_elements a + 1, lastref := Some k\<rparr>) = Some b \<and> arr_ok b \<and>
          elts_map (elts b) = (elts_map (elts a))(i \<mapsto> v)"
      if k: "k \<le> length (elts a)" "\<forall>j < k. ind (elts a ! j) < i" "\<forall>j < length (elts a). k \<le> j \<longrightarrow> i < ind (elts a ! j)" for k
    proof -
      let ?b = "a\<lparr>elts := take k (elts a) @ array_create_element i v # drop k (elts a),
          num_elements := num_elements a + 1, lastref := Some k\<rparr>"
      have "arr_ok ?b \<and> elts_map (elts ?b) = (elts_map (elts a))(i \<mapsto> v)"
        by (rule arr_ok_mid [OF ok, of "take k (elts a)" "drop k (elts a)" i])
          (use k hi i in \<open>auto simp: max_def min_def dest!: keys_take keys_drop\<close>)
      then show ?thesis by blast
    qed
    show ?thesis
    proof (cases "insert_loop a i d s")
      case (Replace q)
      with loop arr_ok_replace [OF ok, of q i v] sd notlast False show ?thesis by (simp add: array_insert_def Let_def)
    next
      case (Before q)
      with loop have q: "q < length (elts a)" "i < ind (elts a ! q)" "\<forall>j < q. ind (elts a ! j) < i" by simp_all
      have "\<forall>j < length (elts a). q \<le> j \<longrightarrow> i < ind (elts a ! j)"
        using q sorted_keys_nth [OF arr_okD(1) [OF ok], of q] by (metis le_neq_implies_less less_trans)
      with mid [of q] q Before sd notlast False show ?thesis by (simp add: array_insert_def Let_def)
    next
      case (After q)
      with loop have q: "q < length (elts a)" "ind (elts a ! q) < i" "\<forall>j < length (elts a). q < j \<longrightarrow> i < ind (elts a ! j)"
        by simp_all
      have "\<forall>j < Suc q. ind (elts a ! j) < i"
        using q sorted_keys_nth [OF arr_okD(1) [OF ok], of _ q] by (metis less_SucE less_trans)
      with mid [of "Suc q"] q After sd notlast False show ?thesis by (simp add: array_insert_def Let_def Suc_le_eq)
    next
      case Nowhere
      with loop show ?thesis by simp
    qed
  qed
qed

lemma array_insert_ok:
  assumes "array_ok a" and "0 \<le> i"
  shows "fst (array_insert a i v) = 0 \<and> array_ok (snd (array_insert a i v)) \<and>
    array_map (snd (array_insert a i v)) = (array_map a)(i := v)"
proof -
  from assms(1) obtain ar where ar: "a = Some ar" "arr_ok ar" by (auto simp: array_ok_def)
  from array_insert_arr [OF ar(2) assms(2), of v] obtain b where
    "fst (array_insert a i v) = 0" "snd (array_insert a i v) = Some b" "arr_ok b"
    "elts_map (elts b) = (elts_map (elts ar))(i \<mapsto> v)" unfolding ar(1) by blast
  then show ?thesis by (simp add: array_ok_def array_map_def ar(1) fun_eq_iff)
qed

lemma out_of_range:
  assumes "arr_ok a" and "i > max_index a \<or> i < array_first_index a"
  shows "elts_map (elts a) i = None"
proof -
  have "ind (elts a ! p) \<noteq> i" if "p < length (elts a)" for p
    using arr_ok_bounds [OF assms(1) that] assms(2) by auto
  then show ?thesis by (auto simp: elts_map_None in_keys)
qed

lemma elts_map_nth:
  assumes "arr_ok a" and "q < length (elts a)"
  shows "elts_map (elts a) (ind (elts a ! q)) = Some (elt_value (elts a ! q))"
proof -
  have "distinct (keys (elts a))" using arr_okD(1) [OF assms(1)] by (simp add: strict_sorted_iff)
  then show ?thesis
    unfolding elts_map_def using assms(2)
    by (intro map_of_is_SomeI) (auto simp: keys_def elt_pair_def comp_def image_iff intro!: bexI [of _ "elts a ! q"])
qed

lemma array_reference_ok:
  assumes "array_ok a"
  shows "fst (array_reference a i) = array_map a i \<and> array_ok (snd (array_reference a i)) \<and>
    array_map (snd (array_reference a i)) = array_map a"
proof -
  from assms obtain ar where ar: "a = Some ar" "arr_ok ar" by (auto simp: array_ok_def)
  show ?thesis
  proof (cases "array_empty ar")
    case True
    then have "elts ar = []" using arr_okD(3) [OF ar(2)] by (simp add: array_empty_def)
    with True ar show ?thesis by (simp add: array_reference_def array_ok_def array_map_def elts_map_def)
  next
    case nonempty: False
    then have ne: "elts ar \<noteq> []" using arr_okD(3) [OF ar(2)] by (auto simp: array_empty_def)
    show ?thesis
    proof (cases "i > max_index ar \<or> i < array_first_index ar")
      case True
      with out_of_range [OF ar(2) True] nonempty ar show ?thesis
        by (simp add: array_reference_def array_ok_def array_map_def)
    next
      case False
      then have lo: "array_first_index ar \<le> i" and hi: "i \<le> max_index ar" by simp_all
      obtain s d where sd: "search_start ar i = (s, d)" "s < length (elts ar)" "search_inv ar i d s"
        "if d then ind (elts ar ! s) \<le> i else i < ind (elts ar ! s)" by (rule search_start_ok [OF ar(2) ne lo])
      have le: "if d then ind (elts ar ! s) \<le> i else i \<le> ind (elts ar ! s)" using sd(4) by (auto split: if_splits)
      note loop = find_loop_ok [OF ar(2) ne lo hi sd(3,2) le]
      show ?thesis
      proof (cases "find_loop ar i d s")
        case (Found q)
        with loop arr_ok_lastref [OF ar(2), of q] elts_map_nth [OF ar(2), of q] sd(1) nonempty False show ?thesis
          by (auto simp: array_reference_def array_ok_def array_map_def ar(1))
      next
        case (Closest q)
        with loop arr_ok_lastref [OF ar(2), of q] elts_map_None [of "elts ar" i] sd(1) nonempty False show ?thesis
          by (auto simp: array_reference_def array_ok_def array_map_def ar(1))
      next
        case Missing
        with loop show ?thesis by simp
      qed
    qed
  qed
qed

lemma arr_ok_removed:
  assumes ok: "arr_ok a" and q: "q < length (elts a)" "ind (elts a ! q) = i"
  defines "b \<equiv> a\<lparr>elts := take q (elts a) @ drop (Suc q) (elts a), num_elements := num_elements a - 1,
      max_index := (if i = max_index a then element_index a (element_back a q) else max_index a),
      lastref := (if element_forw a q \<noteq> array_head a then Some q
                  else if element_back a q \<noteq> array_head a then Some (q - 1) else None)\<rparr>"
  shows "arr_ok b \<and> elts_map (elts b) = (elts_map (elts a))(i := None)"
proof
  let ?es = "take q (elts a) @ drop (Suc q) (elts a)"
  have split: "elts a = take q (elts a) @ elts a ! q # drop (Suc q) (elts a)" using q by (simp add: id_take_nth_drop)
  note s = sorted_keys_nth [OF arr_okD(1) [OF ok]]
  have eb: "elts b = ?es" by (simp add: b_def)
  have srt: "sorted_wrt (<) (keys ?es)"
    using arr_okD(1) [OF ok] by (subst (asm) split) (simp add: sorted_wrt_append del: append_take_drop_id)
  have pos: "\<forall>j \<in> set (keys ?es). 0 \<le> j"
    using arr_okD(2) [OF ok] by (auto simp: keys_def dest: in_set_takeD in_set_dropD)
  have num: "num_elements b = int (length ?es)" using arr_okD(3) [OF ok] q by (simp add: b_def)
  have ref: "\<forall>p. lastref b = Some p \<longrightarrow> p < length ?es"
    using q by (auto simp: b_def element_forw_def element_back_def array_head_def split: if_splits)
  have mx: "max_index a = ind (elts a ! (length (elts a) - 1))"
    using arr_okD(4) [OF ok] q by (auto simp: last_conv_nth)
  have max: "max_index b = (if ?es = [] then -1 else ind (last ?es))"
  proof (cases "Suc q = length (elts a)")
    case True
    then have im: "i = max_index a" using mx q by (metis diff_Suc_1)
    have es: "?es = take q (elts a)" using True by simp
    show ?thesis
    proof (cases "q = 0")
      case True
      with im es show ?thesis by (simp add: b_def element_index_def element_back_def array_head_def)
    next
      case False
      then have "take q (elts a) \<noteq> []" using q by auto
      then have "last (take q (elts a)) = elts a ! (q - 1)" using q by (simp add: last_conv_nth min_def)
      with False im es q show ?thesis by (auto simp: b_def element_index_def element_back_def)
    qed
  next
    case False
    then have "q < length (elts a) - 1" "length (elts a) - 1 < length (elts a)" using q by auto
    with s [of q "length (elts a) - 1"] q mx have "i \<noteq> max_index a" by auto
    moreover have "drop (Suc q) (elts a) \<noteq> []" using False q by simp
    moreover have "elts a \<noteq> []" using q by auto
    then have "last (drop (Suc q) (elts a)) = elts a ! (length (elts a) - 1)"
      using False q by (simp add: last_drop last_conv_nth [of "elts a"])
    ultimately show ?thesis using mx by (simp add: b_def)
  qed
  show "arr_ok b" unfolding arr_ok_def eb using srt pos num ref max by simp
  have "i \<notin> set (keys (take q (elts a)))"
  proof
    assume "i \<in> set (keys (take q (elts a)))"
    then obtain p where "p < q" "i = ind (elts a ! p)" using keys_take by blast
    with s [of p q] q show False by simp
  qed
  moreover have "i \<notin> set (keys (drop (Suc q) (elts a)))"
  proof
    assume "i \<in> set (keys (drop (Suc q) (elts a)))"
    then obtain p where "p < length (elts a)" "Suc q \<le> p" "i = ind (elts a ! p)" using keys_drop by blast
    with s [of q p] q show False by simp
  qed
  ultimately have "elts_map ?es = (elts_map (take q (elts a) @ elts a ! q # drop (Suc q) (elts a)))(i := None)"
    by (rule elts_map_cut) (rule q(2))
  then show "elts_map (elts b) = (elts_map (elts a))(i := None)"
    unfolding eb split [symmetric] .
qed

lemma array_remove_ok:
  assumes "array_ok a"
  shows "array_ok (snd (array_remove a i)) \<and> array_map (snd (array_remove a i)) = (array_map a)(i := None) \<and>
    (case fst (array_remove a i) of None \<Rightarrow> array_map a i = None | Some ae \<Rightarrow> ind ae = i \<and> elt_value ae = array_map a i)"
proof -
  from assms obtain ar where ar: "a = Some ar" "arr_ok ar" by (auto simp: array_ok_def)
  have same: "array_map a = (array_map a)(i := None)" "array_map a i = None" if "elts_map (elts ar) i = None"
    using that by (auto simp: array_map_def ar(1) fun_eq_iff)
  show ?thesis
  proof (cases "array_empty ar")
    case True
    then have "elts ar = []" using arr_okD(3) [OF ar(2)] by (simp add: array_empty_def)
    then have "elts_map (elts ar) i = None" by (simp add: elts_map_def)
    from same [OF this] True ar show ?thesis by (simp add: array_remove_def array_ok_def)
  next
    case nonempty: False
    then have ne: "elts ar \<noteq> []" using arr_okD(3) [OF ar(2)] by (auto simp: array_empty_def)
    show ?thesis
    proof (cases "i > max_index ar \<or> i < array_first_index ar")
      case True
      from same [OF out_of_range [OF ar(2) True]] nonempty True ar show ?thesis
        by (auto simp: array_remove_def array_ok_def)
    next
      case False
      then have lo: "array_first_index ar \<le> i" and hi: "i \<le> max_index ar" by simp_all
      obtain s d where sd: "search_start ar i = (s, d)" "s < length (elts ar)" "search_inv ar i d s"
        "if d then ind (elts ar ! s) \<le> i else i < ind (elts ar ! s)" by (rule search_start_ok [OF ar(2) ne lo])
      have le: "if d then ind (elts ar ! s) \<le> i else i \<le> ind (elts ar ! s)" using sd(4) by (auto split: if_splits)
      note loop = find_loop_ok [OF ar(2) ne lo hi sd(3,2) le]
      show ?thesis
      proof (cases "find_loop ar i d s")
        case (Found q)
        with loop have q: "q < length (elts ar)" "ind (elts ar ! q) = i" by simp_all
        from arr_ok_removed [OF ar(2) q] elts_map_nth [OF ar(2) q(1)] q(2) sd(1) nonempty False Found show ?thesis
          by (auto simp: array_remove_def array_ok_def array_map_def ar(1) Let_def fun_eq_iff)
      next
        case (Closest q)
        with loop have "elts_map (elts ar) i = None" by (simp add: elts_map_None)
        from same [OF this] Closest sd(1) nonempty False ar show ?thesis
          by (auto simp: array_remove_def array_ok_def)
      next
        case Missing
        with loop show ?thesis by simp
      qed
    qed
  qed
qed

definition array_put :: "int \<Rightarrow> string \<Rightarrow> array option \<Rightarrow> array option" where
  "array_put i v a = snd (array_insert a i (Some v))"

definition array_unset :: "int \<Rightarrow> array option \<Rightarrow> array option" where
  "array_unset i a = snd (array_remove a i)"

definition array_get :: "int \<Rightarrow> array option \<Rightarrow> string option \<times> array option" where
  "array_get i a = array_reference a i"

interpretation array_dict: dict array_ok "\<lambda>i. 0 \<le> i" array_map array_put array_unset array_get
  by unfold_locales
    (simp_all add: array_put_def array_unset_def array_get_def array_insert_ok array_remove_ok array_reference_ok)

section \<open>Inserting a list of values\<close>

text \<open>The map after \<open>insert_from\<close>: the values from the first index on, the rest as before.\<close>

definition values_from :: "int \<Rightarrow> string option list \<Rightarrow> (int \<Rightarrow> string option) \<Rightarrow> int \<Rightarrow> string option" where
  "values_from i vs m = (\<lambda>k. if i \<le> k \<and> k < i + int (length vs) then vs ! nat (k - i) else m k)"

lemma insert_from_ok:
  "array_ok a \<Longrightarrow> 0 \<le> i \<Longrightarrow>
   array_ok (insert_from i vs a) \<and> array_map (insert_from i vs a) = values_from i vs (array_map a)"
proof (induction vs arbitrary: i a)
  case Nil
  then show ?case by (auto simp: values_from_def fun_eq_iff)
next
  case (Cons v vs)
  note ins = array_insert_ok [OF Cons.prems, of v]
  have "values_from (i + 1) vs ((array_map a)(i := v)) = values_from i (v # vs) (array_map a)"
  proof (rule ext)
    fix k
    have "nat (k - i) - 1 = nat (k - (i + 1))" by simp
    then show "values_from (i + 1) vs ((array_map a)(i := v)) k = values_from i (v # vs) (array_map a) k"
      by (auto simp: values_from_def nth_Cons' simp del: One_nat_def)
  qed
  with Cons.IH [of "snd (array_insert a i v)" "i + 1"] ins Cons.prems(2) show ?case by (simp add: fun_upd_def)
qed

lemma array_ok_create: "array_ok (Some array_create) \<and> array_map (Some array_create) = Map.empty"
  by (auto simp: array_ok_def arr_ok_def array_create_def array_map_def elts_map_def)

text \<open>From the empty array the elements are the values in order.\<close>

definition elts_from :: "int \<Rightarrow> string option list \<Rightarrow> array_element list" where
  "elts_from i vs = map (\<lambda>(k, v). array_create_element (i + int k) v) (enumerate 0 vs)"

lemma enumerate_snoc: "enumerate n (xs @ [x]) = enumerate n xs @ [(n + length xs, x)]"
  by (simp add: enumerate_eq_zip)

lemma insert_from_append: "insert_from i (vs @ ws) a = insert_from (i + int (length vs)) ws (insert_from i vs a)"
  by (induction vs arbitrary: i a) (simp_all add: algebra_simps)

lemma insert_from_elts:
  "\<exists>b. insert_from 0 vs (Some array_create) = Some b \<and> elts b = elts_from 0 vs \<and>
     num_elements b = int (length vs) \<and> max_index b = int (length vs) - 1"
proof (induction vs rule: rev_induct)
  case Nil
  then show ?case by (simp add: array_create_def elts_from_def)
next
  case (snoc v vs)
  then obtain b where b: "insert_from 0 vs (Some array_create) = Some b" "elts b = elts_from 0 vs"
    "num_elements b = int (length vs)" "max_index b = int (length vs) - 1" by blast
  then show ?case
    by (simp add: insert_from_append array_insert_def Let_def elts_from_def enumerate_snoc)
qed

lemma map_snd_enumerate: "map (f \<circ> snd) (enumerate n xs) = map f xs"
  by (metis map_map map_snd_enumerate)

section \<open>Shifting\<close>

text \<open>Strictly increasing indices from zero on are at least their places.\<close>

lemma key_at_least_place:
  assumes "arr_ok a"
  shows "p < length (elts a) \<Longrightarrow> int p \<le> ind (elts a ! p)"
proof (induction p)
  case 0
  then show ?case using arr_okD(2) [OF assms, of "ind (elts a ! 0)"] by (auto simp: in_keys)
next
  case (Suc p)
  then show ?case using sorted_keys_nth [OF arr_okD(1) [OF assms], of p "Suc p"] by simp
qed

lemma renumbered:
  assumes "sorted_wrt (<) (keys es)"
  shows "sorted_wrt (<) (keys (map (\<lambda>ae. ae\<lparr>ind := ind ae + n\<rparr>) es))"
  using assms by (simp add: keys_def sorted_wrt_map)

lemma shifted_ok:
  assumes ok: "arr_ok a" and n: "0 < n" "nat n < length (elts a)"
  shows "arr_ok (a\<lparr>lastref := None, elts := map (\<lambda>ae. ae\<lparr>ind := ind ae - n\<rparr>) (drop (nat n) (elts a)),
    num_elements := num_elements a - n, max_index := ind (last (map (\<lambda>ae. ae\<lparr>ind := ind ae - n\<rparr>) (drop (nat n) (elts a))))\<rparr>)"
proof -
  let ?es = "map (\<lambda>ae. ae\<lparr>ind := ind ae - n\<rparr>) (drop (nat n) (elts a))"
  have "sorted_wrt (<) (keys (drop (nat n) (elts a)))"
    using arr_okD(1) [OF ok] by (simp add: keys_def sorted_wrt_drop flip: drop_map)
  from renumbered [OF this, of "- n"] have "sorted_wrt (<) (keys ?es)" by simp
  moreover have "0 \<le> j" if "j \<in> set (keys ?es)" for j
  proof -
    from that obtain e where e: "e \<in> set (drop (nat n) (elts a))" "j = ind e - n" by (auto simp: keys_def)
    then have "ind e \<in> set (keys (drop (nat n) (elts a)))" by (simp add: keys_def)
    then obtain p where p: "p < length (elts a)" "nat n \<le> p" "ind e = ind (elts a ! p)" using keys_drop by blast
    with key_at_least_place [OF ok p(1)] e show ?thesis by simp
  qed
  moreover have "?es \<noteq> []" using n by simp
  ultimately show ?thesis using arr_okD(3) [OF ok] n by (simp add: arr_ok_def)
qed

lemma array_shift_ok:
  assumes "arr_ok a"
  shows "array_ok (snd (array_shift (Some a) n flags))"
proof (cases "array_empty a \<or> n \<le> 0")
  case True
  with assms show ?thesis by (simp add: array_shift_def array_ok_def)
next
  case False
  show ?thesis
  proof (cases "length (elts a) \<le> nat n")
    case True
    with False show ?thesis by (auto simp: array_shift_def array_ok_def Let_def arr_ok_def array_flush_def)
  next
    case go: False
    with False have "0 < n" "nat n < length (elts a)" by simp_all
    from shifted_ok [OF assms this] go False show ?thesis by (simp add: array_shift_def array_ok_def Let_def)
  qed
qed

lemma array_rshift_ok:
  assumes ok: "arr_ok a"
  shows "array_ok (snd (array_rshift (Some a) n s))"
proof (cases "(array_empty a \<and> s = None) \<or> n \<le> 0")
  case True
  with ok show ?thesis by (auto simp: array_rshift_def array_ok_def)
next
  case False
  let ?es = "map (\<lambda>ae. ae\<lparr>ind := ind ae + n\<rparr>) (elts a)"
  note srt = renumbered [OF arr_okD(1) [OF ok], of n]
  have pos: "n \<le> j" if "j \<in> set (keys ?es)" for j
  proof -
    from that obtain e where "e \<in> set (elts a)" "j = ind e + n" by (auto simp: keys_def)
    with arr_okD(2) [OF ok, of "ind e"] show ?thesis by (simp add: keys_def)
  qed
  have emp: "elts a = [] \<longleftrightarrow> num_elements a = 0" using arr_okD(3) [OF ok] by auto
  show ?thesis
  proof (cases s)
    case None
    with False emp have "?es \<noteq> []" by (auto simp: array_empty_def)
    with None False srt pos arr_okD(3) [OF ok] show ?thesis
      by (auto simp: array_rshift_def array_ok_def Let_def arr_ok_def dest!: pos)
  next
    case (Some v)
    show ?thesis
    proof (cases "num_elements a = 0")
      case True
      with emp have "elts a = []" by simp
      with True Some False arr_okD(5) [OF ok] show ?thesis
        by (auto simp: array_rshift_def array_ok_def Let_def arr_ok_def array_create_element_def)
    next
      case nz: False
      with emp have "?es \<noteq> []" by simp
      with Some False nz srt arr_okD(3) [OF ok] show ?thesis
        by (auto simp: array_rshift_def array_ok_def Let_def arr_ok_def array_create_element_def dest!: pos)
    qed
  qed
qed

lemma push_pop:
  assumes ok: "arr_ok a"
  shows "array_shift (snd (array_rshift (Some a) 1 (Some v))) 1 0 =
    ([array_create_element 0 (Some v)], Some (a\<lparr>lastref := None\<rparr>))"
proof (cases "num_elements a = 0")
  case True
  with arr_okD(3,4) [OF ok] show ?thesis
    by (simp add: array_rshift_def array_shift_def Let_def array_empty_def array_head_def)
next
  case False
  with arr_okD(3) [OF ok] have ne: "elts a \<noteq> []" "num_elements a \<noteq> - 1" by auto
  have "map ((\<lambda>ae. ae\<lparr>ind := ind ae - 1\<rparr>) \<circ> (\<lambda>ae. ae\<lparr>ind := ind ae + 1\<rparr>)) (elts a) = elts a"
    by (rule map_idI) simp
  then show ?thesis
    using False ne arr_okD(4) [OF ok]
    by (simp add: array_rshift_def array_shift_def Let_def array_empty_def last_map)
qed

section \<open>The printers\<close>

text \<open>What they print, with something after every element but the last.\<close>

fun string_text :: "locale_ops \<Rightarrow> string \<Rightarrow> bool \<Rightarrow> array_element list \<Rightarrow> string" where
  "string_text L sep quoted [] = []"
| "string_text L sep quoted (ae # aes) =
     (case elt_value ae of
        None \<Rightarrow> []
      | Some v \<Rightarrow> (if quoted then quote_string L v else v) @ (if aes \<noteq> [] then sep else [])) @
     string_text L sep quoted aes"

fun spaced :: "(array_element \<Rightarrow> string) \<Rightarrow> array_element list \<Rightarrow> string" where
  "spaced t [] = []"
| "spaced t (ae # aes) = t ae @ (if aes \<noteq> [] then '' '' else []) @ spaced t aes"

definition elt_kvpair_text :: "locale_ops \<Rightarrow> array_element \<Rightarrow> string" where
  "elt_kvpair_text L ae =
     dec_of_int (ind ae) @ '' '' @ (case value_string L (elt_value ae) of Some v \<Rightarrow> v | None \<Rightarrow> dquotes)"

definition elt_assign_text :: "locale_ops \<Rightarrow> array_element \<Rightarrow> string" where
  "elt_assign_text L ae =
     ''['' @ dec_of_int (ind ae) @ '']='' @ (case value_string L (elt_value ae) of Some v \<Rightarrow> v | None \<Rightarrow> [])"

text \<open>A bound on what the printers ask the buffer for: the decimal index, four times the value, the separator.\<close>

definition elt_size :: "string \<Rightarrow> array_element \<Rightarrow> nat" where
  "elt_size sep ae = length (dec_of_int (ind ae)) + value_size (elt_value ae) + length sep + 16"

definition print_size :: "string \<Rightarrow> array_element list \<Rightarrow> nat" where
  "print_size sep aes = (\<Sum>ae\<leftarrow>aes. elt_size sep ae) + 16"

lemma quote_string_length: "length (quote_string L s) \<le> 2 * length s + 1"
  using length_quote_loop by (auto simp: quote_string_def intro: le_SucI)

lemma int_room_value: "int_room (elt_size sep ae + k) b \<Longrightarrow> value_text L (elt_value ae) = Some (value_string L (elt_value ae))"
  by (rule value_text_string) (simp add: int_room_def elt_size_def)

text \<open>A loop over a buffer with room left appends its text and leaves room.\<close>

lemma string_loop_exact:
  "int_room (\<Sum>ae\<leftarrow>aes. elt_size sep ae) b \<Longrightarrow> length (sb_text b) < sb_size b \<Longrightarrow>
   \<exists>n. string_loop L sep quoted aes b = Some \<lparr>sb_text = sb_text b @ string_text L sep quoted aes, sb_size = n\<rparr> \<and>
     length (sb_text b @ string_text L sep quoted aes) < n"
proof (induction aes arbitrary: b)
  case Nil
  then show ?case by (intro exI [of _ "sb_size b"]) simp
next
  case (Cons ae aes)
  show ?case
  proof (cases "elt_value ae")
    case None
    moreover have "int_room (\<Sum>ae\<leftarrow>aes. elt_size sep ae) b" using Cons.prems(1) by (simp add: int_room_def)
    ultimately show ?thesis using Cons.IH Cons.prems(2) by simp
  next
    case (Some v)
    define w where "w = (if quoted then quote_string L v else v)"
    have "length w \<le> 2 * length v + 1" using quote_string_length [of L v] by (auto simp: w_def)
    then have room: "length w + length sep + 2 \<le> elt_size sep ae" by (simp add: elt_size_def value_size_def Some)
    have "int_room (elt_size sep ae) b" using Cons.prems(1) by (simp add: int_room_def)
    then obtain m where m: "RESIZE_MALLOCED_BUFFER INT_LIMIT (length w + length sep + 2) doubling b = Some (b\<lparr>sb_size := m\<rparr>)"
      "length (sb_text b) + (length w + length sep + 2) < m" "0 < m" "m < INT_LIMIT"
      using room by (rule int_room_double)
    let ?b = "\<lparr>sb_text = sb_text b @ w @ (if aes \<noteq> [] then sep else []), sb_size = m\<rparr>"
    have step: "string_loop L sep quoted (ae # aes) b = string_loop L sep quoted aes ?b"
      using m by (cases b; cases quoted; cases "aes = []") (simp_all add: Some sb_strcpy_def w_def Let_def)
    have "int_room (\<Sum>ae\<leftarrow>aes. elt_size sep ae) ?b" "length (sb_text ?b) < sb_size ?b"
      using m(2-4) room Cons.prems(1) by (simp_all add: int_room_def)
    from Cons.IH [OF this] show ?thesis unfolding step by (simp add: Some w_def)
  qed
qed

lemma kvpair_loop_exact:
  "int_room ((\<Sum>ae\<leftarrow>aes. elt_size [] ae) + k) b \<Longrightarrow>
   \<exists>n. int_room k \<lparr>sb_text = sb_text b @ spaced (elt_kvpair_text L) aes, sb_size = n\<rparr> \<and>
     kvpair_loop L aes b = Some \<lparr>sb_text = sb_text b @ spaced (elt_kvpair_text L) aes, sb_size = n\<rparr>"
proof (induction aes arbitrary: b)
  case Nil
  then show ?case by (intro exI [of _ "sb_size b"]) (simp add: int_room_def)
next
  case (Cons ae aes)
  let ?i = "dec_of_int (ind ae)" and ?v = "value_string L (elt_value ae)"
  have v: "value_text L (elt_value ae) = Some ?v"
    by (rule int_room_value [of "[]" ae "(\<Sum>ae\<leftarrow>aes. elt_size [] ae) + k"]) (use Cons.prems in \<open>simp add: add.assoc\<close>)
  have room: "length ?i + 8 + STRLEN ?v + 1 \<le> elt_size [] ae"
    using value_string_length [of L "elt_value ae"] by (simp add: elt_size_def)
  have "int_room (elt_size [] ae) b" using Cons.prems by (simp add: int_room_def)
  then obtain m where m: "RESIZE_MALLOCED_BUFFER INT_LIMIT (length ?i + 8 + STRLEN ?v + 1) doubling b = Some (b\<lparr>sb_size := m\<rparr>)"
    "length (sb_text b) + (length ?i + 8 + STRLEN ?v + 1) < m" "0 < m" "m < INT_LIMIT"
    using room by (rule int_room_double)
  let ?b = "\<lparr>sb_text = sb_text b @ elt_kvpair_text L ae @ (if aes \<noteq> [] then '' '' else []), sb_size = m\<rparr>"
  have "kvpair_loop L (ae # aes) b = kvpair_loop L aes ?b"
    using m(1,2) v by (cases b; cases ?v) (simp_all add: sb_strcpy_def sb_putc_def Let_def STRLEN_def elt_kvpair_text_def dquotes_def)
  moreover have "int_room ((\<Sum>ae\<leftarrow>aes. elt_size [] ae) + k) ?b"
    using m(2-4) room Cons.prems by (cases ?v) (simp_all add: int_room_def elt_kvpair_text_def dquotes_def STRLEN_def)
  ultimately show ?case using Cons.IH [of ?b] by simp
qed

lemma assign_loop_exact:
  "int_room ((\<Sum>ae\<leftarrow>aes. elt_size [] ae) + k) b \<Longrightarrow>
   \<exists>n. int_room k \<lparr>sb_text = sb_text b @ spaced (elt_assign_text L) aes, sb_size = n\<rparr> \<and>
     assign_loop L aes b = Some \<lparr>sb_text = sb_text b @ spaced (elt_assign_text L) aes, sb_size = n\<rparr>"
proof (induction aes arbitrary: b)
  case Nil
  then show ?case by (intro exI [of _ "sb_size b"]) (simp add: int_room_def)
next
  case (Cons ae aes)
  let ?i = "dec_of_int (ind ae)" and ?v = "value_string L (elt_value ae)"
  have v: "value_text L (elt_value ae) = Some ?v"
    by (rule int_room_value [of "[]" ae "(\<Sum>ae\<leftarrow>aes. elt_size [] ae) + k"]) (use Cons.prems in \<open>simp add: add.assoc\<close>)
  have room: "length ?i + 8 + STRLEN ?v + 1 \<le> elt_size [] ae"
    using value_string_length [of L "elt_value ae"] by (simp add: elt_size_def)
  have "int_room (elt_size [] ae) b" using Cons.prems by (simp add: int_room_def)
  then obtain m where m: "RESIZE_MALLOCED_BUFFER INT_LIMIT (length ?i + 8 + STRLEN ?v + 1) doubling b = Some (b\<lparr>sb_size := m\<rparr>)"
    "length (sb_text b) + (length ?i + 8 + STRLEN ?v + 1) < m" "0 < m" "m < INT_LIMIT"
    using room by (rule int_room_double)
  let ?b = "\<lparr>sb_text = sb_text b @ elt_assign_text L ae @ (if aes \<noteq> [] then '' '' else []), sb_size = m\<rparr>"
  have "assign_loop L (ae # aes) b = assign_loop L aes ?b"
    using m(1,2) v by (cases b; cases ?v) (simp_all add: sb_strcpy_def sb_putc_def Let_def STRLEN_def elt_assign_text_def)
  moreover have "int_room ((\<Sum>ae\<leftarrow>aes. elt_size [] ae) + k) ?b"
    using m(2-4) room Cons.prems by (cases ?v) (simp_all add: int_room_def elt_assign_text_def STRLEN_def)
  ultimately show ?case using Cons.IH [of ?b] by simp
qed

lemma whole_places: "map (element_at a) (places a 0 (length (elts a))) = elts a"
  by (rule nth_equalityI) (simp_all add: places_def element_at_def)

lemma print_room: "2 * print_size sep (elts a) < INT_LIMIT \<Longrightarrow> n \<le> 128 \<Longrightarrow> length u < 2 \<Longrightarrow> 0 < n \<Longrightarrow>
    int_room ((\<Sum>ae\<leftarrow>elts a. elt_size sep ae) + 10) \<lparr>sb_text = u, sb_size = n\<rparr>"
  by (simp add: print_size_def int_room_def) (simp add: INT_LIMIT_def)

lemma print_size_sep: "2 * print_size sep aes < INT_LIMIT \<Longrightarrow> 2 * print_size [] aes < INT_LIMIT"
proof -
  have "(\<Sum>ae\<leftarrow>aes. elt_size [] ae) \<le> (\<Sum>ae\<leftarrow>aes. elt_size sep ae)"
    by (rule sum_list_mono) (simp add: elt_size_def)
  then show "2 * print_size sep aes < INT_LIMIT \<Longrightarrow> ?thesis" by (simp add: print_size_def)
qed

lemma array_to_string_exact:
  assumes "arr_ok a" "2 * print_size sep (elts a) < INT_LIMIT"
  shows "array_to_string L (Some a) sep quoted = Some (Some (string_text L sep quoted (elts a)))"
proof (cases "elts a = []")
  case True
  with arr_okD(3) [OF assms(1)] show ?thesis by (simp add: array_to_string_def array_empty_def)
next
  case False
  with arr_okD(3) [OF assms(1)] have ne: "\<not> array_empty a" by (simp add: array_empty_def)
  have first: "element_forw a (array_head a) = 0" by (simp add: element_forw_def)
  have "int_room (\<Sum>ae\<leftarrow>elts a. elt_size sep ae) \<lparr>sb_text = [], sb_size = 64\<rparr>"
    using print_room [OF assms(2), of 64 "[]"] by (simp add: int_room_def)
  then obtain n where "string_loop L sep quoted (elts a) \<lparr>sb_text = [], sb_size = 64\<rparr> =
      Some \<lparr>sb_text = string_text L sep quoted (elts a), sb_size = n\<rparr>"
    "length (string_text L sep quoted (elts a)) < n"
    using string_loop_exact [of sep "elts a" "\<lparr>sb_text = [], sb_size = 64\<rparr>" L quoted] by auto
  with ne False first show ?thesis
    by (simp add: array_to_string_def array_to_string_internal_def array_head_def whole_places sb_end_def)
qed

lemma array_to_kvpair_exact:
  assumes "2 * print_size [] (elts a) < INT_LIMIT"
  shows "array_to_kvpair L (Some a) quoted =
     Some (if array_empty a then None
           else Some ((if quoted then sh_single_quote else id) (spaced (elt_kvpair_text L) (elts a))))"
proof (cases "array_empty a")
  case False
  let ?t = "spaced (elt_kvpair_text L) (elts a)"
  obtain n where n: "int_room 10 \<lparr>sb_text = ?t, sb_size = n\<rparr>"
    "kvpair_loop L (elts a) \<lparr>sb_text = [], sb_size = 128\<rparr> = Some \<lparr>sb_text = ?t, sb_size = n\<rparr>"
    using kvpair_loop_exact [OF print_room [OF assms, of 128 "[]"], of L] by auto
  obtain m where "RESIZE_MALLOCED_BUFFER INT_LIMIT 1 by_eight \<lparr>sb_text = ?t, sb_size = n\<rparr> = Some \<lparr>sb_text = ?t, sb_size = m\<rparr>"
    "length ?t + 1 < m"
    by (rule int_room_eight [OF n(1), of 1]) auto
  with n False show ?thesis by (simp add: array_to_kvpair_def sb_end_def)
qed (simp add: array_to_kvpair_def)

lemma array_to_assign_exact:
  assumes "2 * print_size [] (elts a) < INT_LIMIT"
  shows "array_to_assign L (Some a) quoted =
     Some (if array_empty a then None
           else Some ((if quoted then sh_single_quote else id) (''('' @ spaced (elt_assign_text L) (elts a) @ '')'')))"
proof (cases "array_empty a")
  case False
  let ?t = "''('' @ spaced (elt_assign_text L) (elts a)"
  obtain n where n: "int_room 10 \<lparr>sb_text = ?t, sb_size = n\<rparr>"
    "assign_loop L (elts a) \<lparr>sb_text = ''('', sb_size = 128\<rparr> = Some \<lparr>sb_text = ?t, sb_size = n\<rparr>"
    using assign_loop_exact [OF print_room [OF assms, of 128 "''(''"], of L] by auto
  obtain m where "RESIZE_MALLOCED_BUFFER INT_LIMIT 1 by_eight \<lparr>sb_text = ?t, sb_size = n\<rparr> = Some \<lparr>sb_text = ?t, sb_size = m\<rparr>"
    "length ?t + 1 < m"
    by (rule int_room_eight [OF n(1), of 1]) auto
  with n False show ?thesis by (simp add: array_to_assign_def sb_end_def sb_putc_def)
qed (simp add: array_to_assign_def)

section \<open>Properties\<close>

fun array_step :: "(int, string) dict_op \<Rightarrow> array option \<times> string option list \<Rightarrow> array option \<times> string option list" where
  "array_step (Ins i v) (a, outs) = (snd (array_insert a i (Some v)), outs)"
| "array_step (Del i) (a, outs) = (snd (array_remove a i), outs)"
| "array_step (Get i) (a, outs) = (let (v, a') = array_reference a i in (a', outs @ [v]))"

lemma array_step_dict: "array_step = array_dict.step"
proof (intro ext)
  fix p s
  show "array_step p s = array_dict.step p s"
    by (cases s; cases p) (simp_all add: array_put_def array_unset_def array_get_def)
qed

text \<open>
  C14. An indexed array is a map, wherever its roving pointer stands: any sequence of assignments,
  unsets and references at indices from zero on answers every reference with the value last
  assigned to that index and not unset since, and leaves a well-formed array, sorted, with its
  counters right, of the right map.
\<close>

theorem array_answers_like_map:
  assumes "array_ok a" and "\<forall>p \<in> set ps. 0 \<le> op_key p"
  shows "array_ok (fst (fold array_step ps (a, []))) \<and>
    (array_map (fst (fold array_step ps (a, []))), snd (fold array_step ps (a, []))) =
      fold map_step ps (array_map a, [])"
  using array_dict.run_refines [of "(a, [])" ps] assms by (simp add: array_step_dict)

theorem array_answers_like_map_witness:
  "snd (fold array_step [Ins 5 ''f'', Ins 9 ''j'', Ins 2 ''c'', Get 9, Ins 7 ''h'', Get 5, Del 5, Get 5, Get 7]
     (Some array_create, [])) = [Some ''j'', Some ''f'', None, Some ''h'']"
  using array_answers_like_map [of "Some array_create"
      "[Ins 5 ''f'', Ins 9 ''j'', Ins 2 ''c'', Get 9, Ins 7 ''h'', Get 5, Del 5, Get 5, Get 7]"] array_ok_create
  by (simp add: prod_eq_iff del: fold_simps array_step.simps)

text \<open>
  A list of words survives the conversion to an array and back: the array made of it holds
  the words at the indices from zero on, and its words are the list again.
\<close>

theorem array_word_list_round_trip:
  assumes "ws \<noteq> []"
  shows "array_to_word_list (array_from_word_list ws) = Some ws \<and> array_ok (array_from_word_list ws) \<and>
    (\<forall>i. array_map (array_from_word_list ws) i =
       (if 0 \<le> i \<and> i < int (length ws) then Some (ws ! nat i) else None))"
proof -
  obtain b where b: "insert_from 0 (map Some ws) (Some array_create) = Some b" "elts b = elts_from 0 (map Some ws)"
    "num_elements b = int (length ws)" using insert_from_elts [of "map Some ws"] by auto
  have "concat (map (\<lambda>ae. [elt_value ae]) (elts b)) = map Some ws"
    by (simp add: b(2) elts_from_def array_create_element_def concat_map_singleton split_beta comp_def)
  with b assms have "array_to_word_list (Some b) = Some ws"
    by (simp add: array_to_word_list_def array_empty_def word_list_of_those those_Some [of "\<lambda>x. x", simplified])
  moreover have "array_from_word_list ws = Some b"
    using assms b(1) by (simp add: array_from_word_list_def array_assign_list_def)
  moreover note insert_from_ok [of "Some array_create" 0 "map Some ws"] array_ok_create
  ultimately show ?thesis using b(1) by (auto simp: values_from_def)
qed

theorem array_word_list_round_trip_witness:
  "array_to_word_list (array_from_word_list [''a'', ''b'']) = Some [''a'', ''b'']"
  using array_word_list_round_trip [of "[''a'', ''b'']"] by simp

text \<open>
  Shifting keeps arrays well formed, in both directions and by any amount, with and without
  a new first element, and popping after a push hands back the pushed element and the array
  as it was, with only the roving pointer forgotten.
\<close>

theorem array_shift_push_pop:
  assumes "arr_ok a"
  shows "array_ok (snd (array_shift (Some a) n flags)) \<and> array_ok (snd (array_rshift (Some a) n s)) \<and>
    array_shift (snd (array_rshift (Some a) 1 (Some v))) 1 0 =
      ([array_create_element 0 (Some v)], Some (a\<lparr>lastref := None\<rparr>))"
  using array_shift_ok [OF assms] array_rshift_ok [OF assms] push_pop [OF assms] by blast

definition three_elts :: array where
  "three_elts = \<lparr>max_index = 8, num_elements = 3,
     elts = [array_create_element 0 (Some ''a''), array_create_element 3 None, array_create_element 8 (Some ''c'')],
     lastref = Some 1\<rparr>"

lemma three_elts_ok: "arr_ok three_elts"
  by (simp add: three_elts_def arr_ok_def array_create_element_def)

theorem array_shift_push_pop_witness:
  "fst (array_shift (snd (array_rshift (Some three_elts) 1 (Some ''x''))) 1 0) = [array_create_element 0 (Some ''x'')]"
  using array_shift_push_pop [OF three_elts_ok, of 2 0 None "''x''"] by simp

text \<open>
  C34. The printers of an indexed array are complete when what they print is surely below 1 GiB: if four
  times the lengths of the values, the decimal indices, the separators, 16 bytes for each element and
  16 more are together less than 2 ^ 30, no \<open>int\<close> of the code overflows, no store leaves the growing
  buffer, and the string, the key-value pairs and the assignment hold every element in order, with a
  separator after every element but the last.
\<close>

theorem array_printers_exact:
  assumes "arr_ok a" and "2 * print_size sep (elts a) < INT_LIMIT"
  shows "array_to_string L (Some a) sep quoted = Some (Some (string_text L sep quoted (elts a))) \<and>
    array_to_kvpair L (Some a) single =
      Some (if array_empty a then None
            else Some ((if single then sh_single_quote else id) (spaced (elt_kvpair_text L) (elts a)))) \<and>
    array_to_assign L (Some a) single =
      Some (if array_empty a then None
            else Some ((if single then sh_single_quote else id) (''('' @ spaced (elt_assign_text L) (elts a) @ '')'')))"
  using array_to_string_exact [OF assms] array_to_kvpair_exact [OF print_size_sep [OF assms(2)]]
    array_to_assign_exact [OF print_size_sep [OF assms(2)]] by blast

theorem array_printers_exact_witness:
  "array_to_string utf8_locale (Some three_elts) '','' False = Some (Some ''a,c'')"
proof -
  have "print_size '','' (elts three_elts) = 78"
    by (simp add: print_size_def elt_size_def value_size_def three_elts_def array_create_element_def dec_of_int_def dec_of_nat_def digits.simps)
  then have "2 * print_size '','' (elts three_elts) < INT_LIMIT" by (simp add: INT_LIMIT_def)
  from array_printers_exact [OF three_elts_ok this, of utf8_locale False True] show ?thesis
    by (simp add: three_elts_def array_create_element_def)
qed

text \<open>
  \<open>array_from_argv\<close> does not copy its vector into a non-empty array: when the array has at
  least two elements and the vector as many, every old element whose index is below their
  number gets the first string, whatever the others are.
\<close>

theorem array_from_argv_repeats_first:
  assumes "arr_ok a" and "2 \<le> num_elements a" and "num_elements a \<le> int (length vec)"
    and "i \<in> set (keys (elts a))" and "i < num_elements a"
  shows "array_map (array_from_argv t0 (Some a) vec) i = vec ! 0"
proof -
  let ?b = "a\<lparr>elts := map (\<lambda>ae. ae\<lparr>elt_value := vec ! 0\<rparr>) (elts a)\<rparr>"
  have k: "keys (elts ?b) = keys (elts a)" by (simp add: keys_def)
  have l: "elts a \<noteq> [] \<Longrightarrow> ind (last (elts ?b)) = ind (last (elts a))" by (simp add: last_map)
  have ok: "arr_ok ?b" using arr_okD [OF assms(1)] k l by (auto simp: arr_ok_def)
  obtain p where p: "p < length (elts a)" "ind (elts a ! p) = i" using assms(4) by (auto simp: in_keys)
  then have "elts_map (elts ?b) i = Some (vec ! 0)" using elts_map_nth [OF ok, of p] by simp
  then have m: "array_map (Some ?b) i = vec ! 0" by (simp add: array_map_def)
  have "array_from_argv t0 (Some a) vec = insert_from (num_elements a) (drop (nat (num_elements a)) vec) (Some ?b)"
    using assms(2,3) by (auto simp: array_from_argv_def)
  with insert_from_ok [of "Some ?b" "num_elements a" "drop (nat (num_elements a)) vec"] ok assms(2,5) m
  show ?thesis by (simp add: array_ok_def values_from_def)
qed

definition two_elts :: array where
  "two_elts = \<lparr>max_index = 1, num_elements = 2,
     elts = [array_create_element 0 (Some ''x''), array_create_element 1 (Some ''y'')], lastref = None\<rparr>"

theorem array_from_argv_repeats_first_witness:
  "array_map (array_from_argv None (Some two_elts) [Some ''a'', Some ''b'']) 1 = Some ''a''"
  using array_from_argv_repeats_first [of two_elts "[Some ''a'', Some ''b'']" 1 None]
  by (simp add: two_elts_def arr_ok_def array_create_element_def)

end
