(* ===== verification/Bash_Arith.thy ===== *)
theory Bash_Arith imports Bash_Strbuf begin

text \<open>
  The numbers of bash's arithmetic (\<open>src/khsl/bash/bash-5.2\<close>): constants in any base
  (\<open>strlong\<close> of \<open>expr.c\<close>), printed numbers (\<open>lib/sh/fmtulong.c\<close>, \<open>lib/sh/itos.c\<close>), the
  operators on \<open>intmax_t\<close>. An \<open>intmax_t\<close> is a \<open>64 word\<close> read by \<open>sint\<close>: signed overflow
  wraps and a shift counts modulo 64, as on the target (AArch64). Letters and digits are those of
  ASCII, as in the C and UTF-8 locales.
\<close>

unbundle bit_operations_syntax

type_synonym intmax = u64

definition INTMAX_MIN :: intmax where "INTMAX_MIN = 0x8000000000000000"

section \<open>Characters\<close>

abbreviation ord :: "char \<Rightarrow> nat" where "ord c \<equiv> of_char c"

definition DIGIT :: "char \<Rightarrow> bool" where "DIGIT c \<longleftrightarrow> 48 \<le> ord c \<and> ord c \<le> 57"
definition is_lower :: "char \<Rightarrow> bool" where "is_lower c \<longleftrightarrow> 97 \<le> ord c \<and> ord c \<le> 122"
definition is_upper :: "char \<Rightarrow> bool" where "is_upper c \<longleftrightarrow> 65 \<le> ord c \<and> ord c \<le> 90"
definition ISALPHA :: "char \<Rightarrow> bool" where "ISALPHA c \<longleftrightarrow> is_lower c \<or> is_upper c"
definition ISALNUM :: "char \<Rightarrow> bool" where "ISALNUM c \<longleftrightarrow> ISALPHA c \<or> DIGIT c"

definition legal_variable_starter :: "char \<Rightarrow> bool" where
  "legal_variable_starter c \<longleftrightarrow> ISALPHA c \<or> c = CHR ''_''"

definition legal_variable_char :: "char \<Rightarrow> bool" where
  "legal_variable_char c \<longleftrightarrow> ISALNUM c \<or> c = CHR ''_''"

definition whitespace :: "char \<Rightarrow> bool" where "whitespace c \<longleftrightarrow> c = CHR '' '' \<or> c = CHR 0x09"
definition cr_whitespace :: "char \<Rightarrow> bool" where "cr_whitespace c \<longleftrightarrow> whitespace c \<or> c = CHR 0x0A"

definition VALID_NUMCHAR :: "char \<Rightarrow> bool" where
  "VALID_NUMCHAR c \<longleftrightarrow> ISALNUM c \<or> c = CHR ''_'' \<or> c = CHR ''@''"

lemmas ctype_defs =
  DIGIT_def is_lower_def is_upper_def ISALPHA_def ISALNUM_def legal_variable_starter_def
  legal_variable_char_def whitespace_def cr_whitespace_def VALID_NUMCHAR_def

section \<open>Reading numbers\<close>

text \<open>The body of the loop of \<open>strlong\<close> for a digit: its value, \<open>c\<close> after the conversions.\<close>

definition num_value :: "int \<Rightarrow> char \<Rightarrow> int" where
  "num_value base c =
     (if DIGIT c then int (ord c) - 48
      else if is_lower c then int (ord c) - 97 + 10
      else if is_upper c then int (ord c) - 65 + (if base \<le> 36 then 10 else 36)
      else if c = CHR ''@'' then 62
      else if c = CHR ''_'' then 63
      else int (ord c))"

fun strlong_loop :: "int \<Rightarrow> bool \<Rightarrow> intmax \<Rightarrow> string \<Rightarrow> string + intmax" where
  "strlong_loop base foundbase val [] = Inr val"
| "strlong_loop base foundbase val (c # s) =
     (if c = CHR ''#'' then
        (if foundbase then Inl ''invalid number''
         else if sint val < 2 \<or> 64 < sint val then Inl ''invalid arithmetic base''
         else if \<not> VALID_NUMCHAR (byte_at s 0) then Inl ''invalid integer constant''
         else strlong_loop (sint val) True 0 s)
      else if VALID_NUMCHAR c then
        (if base \<le> num_value base c then Inl ''value too great for base''
         else strlong_loop base foundbase (val * word_of_int base + word_of_int (num_value base c)) s)
      else Inr val)"

text \<open>An error message, or the value.\<close>

definition strlong :: "string \<Rightarrow> string + intmax" where
  "strlong num =
     (if byte_at num 0 = CHR ''0'' then
        (let s = tl num in
         if s = [] then Inr 0
         else if hd s = CHR ''x'' \<or> hd s = CHR ''X'' then strlong_loop 16 True 0 (tl s)
         else strlong_loop 8 True 0 s)
      else strlong_loop 10 False 0 num)"

section \<open>Printing numbers\<close>

definition FL_PREFIX :: u32 where "FL_PREFIX = 0x01"
definition FL_ADDBASE :: u32 where "FL_ADDBASE = 0x02"
definition FL_HEXUPPER :: u32 where "FL_HEXUPPER = 0x04"
definition FL_UNSIGNED :: u32 where "FL_UNSIGNED = 0x08"

lemmas FL_defs = FL_PREFIX_def FL_ADDBASE_def FL_HEXUPPER_def FL_UNSIGNED_def

definition TOCHAR :: "u64 \<Rightarrow> char" where "TOCHAR x = char_of (unat x + 48)"

definition x_digs :: string where "x_digs = ''0123456789abcdef''"
definition X_digs :: string where "X_digs = ''0123456789ABCDEF''"

definition FMTCHAR :: "u64 \<Rightarrow> char" where
  "FMTCHAR x =
     (if x < 10 then char_of (unat x + 48)
      else if x < 36 then char_of (unat x - 10 + 97)
      else if x < 62 then char_of (unat x - 36 + 65)
      else if x = 62 then CHR ''@'' else CHR ''_'')"

text \<open>
  The loops \<open>do *p-- = \<dots>; while (ui /= base)\<close> and \<open>while (ui >>= shift)\<close>; \<open>t\<close> is what is
  stored already, behind \<open>p\<close>. The base is at least 2 and the shift at least 1 in every call.
\<close>

lemma word_div_less: "\<not> (base < 2 \<or> ui div base = 0) \<Longrightarrow> unat (ui div base) < unat ui"
  for ui base :: u64
proof -
  assume h: "\<not> (base < 2 \<or> ui div base = 0)"
  then have "unat (ui div base) \<noteq> 0" and base: "\<not> base < 2" by (auto simp: unat_eq_zero)
  have "2 \<le> unat base" using base by (simp add: word_less_nat_alt)
  moreover have "unat ui \<noteq> 0" using h by (auto simp: unat_eq_zero)
  ultimately have "unat ui div unat base < unat ui" by (intro div_less_dividend) auto
  then show ?thesis by (simp add: unat_div)
qed

lemma word_shift_less: "\<not> (shift = 0 \<or> drop_bit shift ui = 0) \<Longrightarrow> unat (drop_bit shift ui) < unat ui"
  for ui :: u64
proof -
  assume h: "\<not> (shift = 0 \<or> drop_bit shift ui = 0)"
  then have "unat ui \<noteq> 0" by (auto simp: unat_eq_zero)
  moreover have "1 < (2 :: nat) ^ shift" by (rule one_less_power) (use h in auto)
  ultimately have "unat ui div 2 ^ shift < unat ui" by (intro div_less_dividend) auto
  then show ?thesis by (metis unat_drop_bit_eq drop_bit_nat_eq drop_bit_eq_div)
qed

function fmt_digits :: "(u64 \<Rightarrow> char) \<Rightarrow> u64 \<Rightarrow> u64 \<Rightarrow> string \<Rightarrow> string" where
  "fmt_digits ch base ui t =
     (let t1 = ch (ui mod base) # t
      in if base < 2 \<or> ui div base = 0 then t1 else fmt_digits ch base (ui div base) t1)"
  by pat_completeness auto
termination by (relation "measure (\<lambda>(ch, base, ui, t). unat ui)") (simp, simp only: in_measure case_prod_conv, rule word_div_less)

function fmt_bits :: "(u64 \<Rightarrow> char) \<Rightarrow> nat \<Rightarrow> u64 \<Rightarrow> string \<Rightarrow> string" where
  "fmt_bits ch shift ui t =
     (let t1 = ch (ui AND mask shift) # t
      in if shift = 0 \<or> drop_bit shift ui = 0 then t1 else fmt_bits ch shift (drop_bit shift ui) t1)"
  by pat_completeness auto
termination by (relation "measure (\<lambda>(ch, shift, ui, t). unat ui)") (simp, simp only: in_measure case_prod_conv, rule word_shift_less)

declare fmt_digits.simps [simp del] fmt_bits.simps [simp del]

definition fmt_base10 :: "u64 \<Rightarrow> string" where
  "fmt_base10 ui =
     (if ui < 10 then [TOCHAR ui]
      else if sint ui < 0 then fmt_digits TOCHAR 10 (ui div 10) [TOCHAR (ui mod 10)]
      else fmt_digits TOCHAR 10 ui [])"

definition fmt_magnitude :: "u64 \<Rightarrow> int \<Rightarrow> u32 \<Rightarrow> string" where
  "fmt_magnitude ui base flags =
     (if base = 10 then fmt_base10 ui
      else if base = 8 then fmt_bits TOCHAR 3 ui []
      else if base = 16 then
        fmt_bits (\<lambda>x. (if flags AND FL_HEXUPPER \<noteq> 0 then X_digs else x_digs) ! unat x) 4 ui []
      else if base = 2 then fmt_bits TOCHAR 1 ui []
      else fmt_digits FMTCHAR (word_of_int base) ui [])"

definition fmt_prefix :: "int \<Rightarrow> u32 \<Rightarrow> string \<Rightarrow> string" where
  "fmt_prefix base flags t =
     (if flags AND FL_PREFIX \<noteq> 0 \<and> (base = 8 \<or> base = 16) then
        (if base = 16 then CHR ''0'' # (if flags AND FL_HEXUPPER \<noteq> 0 then CHR ''X'' else CHR ''x'') # t
         else if byte_at t 0 \<noteq> CHR ''0'' then CHR ''0'' # t else t)
      else if flags AND FL_ADDBASE \<noteq> 0 \<and> base \<noteq> 10 then
        (if 10 < base then [TOCHAR (word_of_int (base div 10))] else []) @
        [TOCHAR (word_of_int (base mod 10)), CHR ''#''] @ t
      else t)"

text \<open>
  The text is stored from the end of the buffer of \<open>len\<close> bytes; one that does not fit runs
  out of it at the front, \<open>None\<close>.
\<close>

definition fmtulong :: "u64 \<Rightarrow> int \<Rightarrow> nat \<Rightarrow> u32 \<Rightarrow> string option" where
  "fmtulong ui base0 len flags =
     (let base = (if base0 = 0 then 10 else base0) in
      if base < 2 \<or> 64 < base then Some (take (len - 1) ''invalid base'')
      else
        let negative = (flags AND FL_UNSIGNED = 0 \<and> sint ui < 0);
            t = fmt_prefix base flags (fmt_magnitude (if negative then - ui else ui) base flags);
            t' = (if negative then CHR ''-'' # t else t)
        in if length t' < len then Some t' else None)"

text \<open>\<open>INT_STRLEN_BOUND (intmax_t) + 1\<close> bytes\<close>

definition INT_STRLEN_BOUND :: nat where "INT_STRLEN_BOUND = (64 - 1) * 302 div 1000 + 1 + 1"

definition itos :: "intmax \<Rightarrow> string option" where
  "itos i = fmtulong i 10 (INT_STRLEN_BOUND + 1) 0"

section \<open>Powers\<close>

partial_function (option) ipow_loop :: "intmax \<Rightarrow> intmax \<Rightarrow> intmax \<Rightarrow> intmax option" where
  "ipow_loop result base exp =
     (if exp = 0 then Some result
      else ipow_loop (if exp AND 1 \<noteq> 0 then result * base else result) (base * base) (signed_drop_bit 1 exp))"

definition ipow :: "intmax \<Rightarrow> intmax \<Rightarrow> intmax option" where
  "ipow base exp = ipow_loop 1 base exp"

lemma uint_nonneg: "0 \<le> sint w \<Longrightarrow> uint w = sint w" for w :: u64
proof -
  assume "0 \<le> sint w"
  moreover have "sint w < 2 ^ 63" using sint_less [of w] by simp
  ultimately show ?thesis by (simp add: uint_sint [of w] take_bit_int_eq_self)
qed

lemma odd_unat: "odd (unat w) \<longleftrightarrow> odd w" for w :: u64
  using bit_unsigned_iff [of w 0, where 'a = nat] by (simp add: bit_0)

lemma unat_halve:
  fixes e :: u64
  assumes "0 \<le> sint e"
  shows "0 \<le> sint (signed_drop_bit 1 e)" and "unat (signed_drop_bit 1 e) = unat e div 2"
proof -
  have s: "sint (signed_drop_bit 1 e) = sint e div 2"
    by (simp add: sint_signed_drop_bit_eq drop_bit_eq_div)
  with assms show p: "0 \<le> sint (signed_drop_bit 1 e)" by simp
  have "int (unat (signed_drop_bit 1 e)) = int (unat e div 2)"
    using uint_nonneg [OF p] uint_nonneg [OF assms] s by (simp add: zdiv_int)
  then show "unat (signed_drop_bit 1 e) = unat e div 2" by (simp only: of_nat_eq_iff)
qed

lemma ipow_loop_power: "0 \<le> sint e \<Longrightarrow> ipow_loop r b e = Some (r * b ^ unat e)"
proof (induction "unat e" arbitrary: r b e rule: less_induct)
  case less
  show ?case
  proof (cases "e = 0")
    case True then show ?thesis by (simp add: ipow_loop.simps)
  next
    case False
    then have "unat e \<noteq> 0" by (auto simp: unat_eq_zero)
    then have "unat e div 2 < unat e" by linarith
    then have IH: "ipow_loop r' (b * b) (signed_drop_bit 1 e) = Some (r' * (b * b) ^ (unat e div 2))" for r'
      using less.hyps unat_halve [OF less.prems] by simp
    have pow: "b ^ n = (if odd n then b else 1) * (b * b) ^ (n div 2)" for n
      by (cases "even n") (auto elim!: evenE oddE simp: power_mult power2_eq_square)
    show ?thesis using False
      by (simp add: ipow_loop.simps [of r b e] IH [unfolded One_nat_def] and_one_eq odd_iff_mod_2_eq_one [symmetric] pow [of "unat e"] odd_unat mult_ac)
  qed
qed


lemma ipow_loop_negative:
  assumes "ipow_loop r b e = Some y" shows "0 \<le> sint e"
proof (rule ipow_loop.raw_induct [of "\<lambda>r b e y. 0 \<le> sint e", OF _ assms])
  fix f r b and e :: intmax and y
  assume IH: "\<And>r b e y. f r b e = Some y \<Longrightarrow> 0 \<le> sint e"
    and step: "(if e = 0 then Some r
      else f (if e AND 1 \<noteq> 0 then r * b else r) (b * b) (signed_drop_bit 1 e)) = Some y"
  show "0 \<le> sint e"
  proof (cases "e = 0")
    case False
    with step IH have "0 \<le> sint (signed_drop_bit 1 e)" by (metis (no_types, lifting))
    then show ?thesis by (simp add: sint_signed_drop_bit_eq)
  qed simp
qed

text \<open>
  Square and multiply ends for every exponent that is not negative, with the power modulo
  \<open>2 ^ 64\<close>; with a negative exponent, which its caller refuses, the loop does not end.
\<close>

theorem ipow_is_power: "ipow base exp = (if 0 \<le> sint exp then Some (base ^ unat exp) else None)"
  using ipow_loop_power [of exp 1 base] ipow_loop_negative [of 1 base exp]
  by (cases "ipow_loop 1 base exp") (auto simp: ipow_def)

lemma char_eq_ord: "c = d \<longleftrightarrow> ord c = ord d" by simp

lemma FMTCHAR_ok:
  assumes "unat d < base" "base \<le> 64"
  shows "VALID_NUMCHAR (FMTCHAR d) \<and> FMTCHAR d \<noteq> CHR ''#'' \<and> num_value (int base) (FMTCHAR d) = uint d \<and> (FMTCHAR d = CHR ''0'' \<longrightarrow> unat d = 0)"
proof -
  consider "unat d < 10" | "10 \<le> unat d" "unat d < 36" | "36 \<le> unat d" "unat d < 62" | "unat d = 62" | "unat d = 63"
    using assms by linarith
  then show ?thesis
  proof cases
    case 1
    then have "d < 10" by (simp add: word_less_nat_alt)
    then have "ord (FMTCHAR d) = unat d + 48" using 1 by (simp add: FMTCHAR_def of_char_of)
    with 1 show ?thesis by (auto simp: ctype_defs num_value_def char_eq_ord)
  next
    case 2
    then have "\<not> d < 10" "d < 36" by (simp_all add: word_less_nat_alt)
    then have "ord (FMTCHAR d) = unat d - 10 + 97" using 2 by (simp add: FMTCHAR_def of_char_of)
    with 2 show ?thesis by (auto simp: ctype_defs num_value_def char_eq_ord)
  next
    case 3
    then have "\<not> d < 10" "\<not> d < 36" "d < 62" by (simp_all add: word_less_nat_alt)
    then have "ord (FMTCHAR d) = unat d - 36 + 65" using 3 by (simp add: FMTCHAR_def of_char_of)
    with 3 assms show ?thesis by (auto simp: ctype_defs num_value_def char_eq_ord)
  next
    case 4
    then have "d = 62" by (simp add: word_unat_eq_iff)
    then show ?thesis by (simp add: FMTCHAR_def ctype_defs num_value_def)
  next
    case 5
    then have "d = 63" by (simp add: word_unat_eq_iff)
    then show ?thesis by (simp add: FMTCHAR_def ctype_defs num_value_def)
  qed
qed


text \<open>The characters of the digits below \<open>base\<close>, as \<open>strlong\<close> reads them.\<close>

definition digit_chars :: "nat \<Rightarrow> (u64 \<Rightarrow> char) \<Rightarrow> bool" where
  "digit_chars base ch \<longleftrightarrow>
     (\<forall>d. unat d < base \<longrightarrow> VALID_NUMCHAR (ch d) \<and> ch d \<noteq> CHR ''#'' \<and>
        num_value (int base) (ch d) = uint d \<and> (ch d = CHR ''0'' \<longrightarrow> unat d = 0))"

lemma digit_chars_FMTCHAR: "base \<le> 64 \<Longrightarrow> digit_chars base FMTCHAR"
  unfolding digit_chars_def using FMTCHAR_ok [of _ base] by blast

lemma digit_chars_cong:
  "digit_chars base ch \<Longrightarrow> (\<And>d. unat d < base \<Longrightarrow> ch' d = ch d) \<Longrightarrow> digit_chars base ch'"
  by (simp add: digit_chars_def)

lemma digit_chars_TOCHAR: "base \<le> 10 \<Longrightarrow> digit_chars base TOCHAR"
  by (rule digit_chars_cong [OF digit_chars_FMTCHAR]) (auto simp: TOCHAR_def FMTCHAR_def word_less_nat_alt)

lemma less_16: "n < 16 \<Longrightarrow> n \<in> {0, 1, 2, 3, 4, 5, 6, 7, 8, 9, 10, 11, 12, 13, 14, 15}" for n :: nat
  by (simp, presburger)

lemma digit_chars_hex:
  "digit_chars 16 (\<lambda>x. (if upper then X_digs else x_digs) ! unat x)"
proof -
  have *: "VALID_NUMCHAR c \<and> c \<noteq> CHR ''#'' \<and> num_value 16 c = int n \<and> (c = CHR ''0'' \<longrightarrow> n = 0)"
    if "n < 16" and "c = (if upper then X_digs else x_digs) ! n" for n c
    using less_16 [OF that(1)] unfolding that(2)
    by (elim insertE; cases upper; simp add: X_digs_def x_digs_def ctype_defs num_value_def)
  show ?thesis unfolding digit_chars_def
    by (intro allI impI) (use * [OF _ refl] in fastforce)
qed

lemma strlong_digits:
  assumes "digit_chars (unat b) ch" and "2 \<le> unat b"
  shows "strlong_loop (uint b) fb 0 (fmt_digits ch b ui t) = strlong_loop (uint b) fb ui t"
  using assms
proof (induction ch b ui t rule: fmt_digits.induct)
  case (1 ch b ui t)
  have b: "\<not> b < 2" using "1.prems"(2) by (simp add: word_less_nat_alt)
  have "unat (ui mod b) < unat b" using "1.prems"(2) by (simp add: unat_mod)
  then have d: "VALID_NUMCHAR (ch (ui mod b))" "ch (ui mod b) \<noteq> CHR ''#''"
    "num_value (uint b) (ch (ui mod b)) = uint (ui mod b)" "uint (ui mod b) < uint b"
    using "1.prems"(1) by (auto simp: digit_chars_def word_less_nat_alt [symmetric] word_less_def [symmetric])
  have step: "strlong_loop (uint b) fb v (ch (ui mod b) # t) = strlong_loop (uint b) fb (v * b + ui mod b) t" for v
    using d by simp
  show ?case
  proof (cases "ui div b = 0")
    case True
    then have "ui mod b = ui" by (metis add_0 mult_zero_left div_mult_mod_eq)
    with True step [of 0] show ?thesis by (simp add: fmt_digits.simps [of ch b ui])
  next
    case False
    with b 1 have "strlong_loop (uint b) fb 0 (fmt_digits ch b ui t) = strlong_loop (uint b) fb (ui div b) (ch (ui mod b) # t)"
      by (simp add: fmt_digits.simps [of ch b ui] Let_def)
    also have "\<dots> = strlong_loop (uint b) fb ui t" unfolding step by (simp add: div_mult_mod_eq)
    finally show ?thesis .
  qed
qed

text \<open>The first character: a digit, and not 0 unless the number is.\<close>

lemma fmt_digits_first:
  assumes "digit_chars (unat b) ch" and "2 \<le> unat b"
  shows "\<exists>c r. fmt_digits ch b ui t = c # r \<and> VALID_NUMCHAR c \<and> c \<noteq> CHR ''#'' \<and> (c = CHR ''0'' \<longrightarrow> ui = 0)"
  using assms
proof (induction ch b ui t rule: fmt_digits.induct)
  case (1 ch b ui t)
  have b: "\<not> b < 2" using "1.prems"(2) by (simp add: word_less_nat_alt)
  show ?case
  proof (cases "ui div b = 0")
    case True
    then have m: "ui mod b = ui" by (metis add_0 mult_zero_left div_mult_mod_eq)
    have "unat (ui mod b) < unat b" using "1.prems"(2) by (simp add: unat_mod)
    with True m "1.prems" show ?thesis
      by (simp add: fmt_digits.simps [of ch b ui] Let_def digit_chars_def unat_eq_zero)
  next
    case False
    then have "ui \<noteq> 0" by auto
    with False b 1 show ?thesis
      by (simp add: fmt_digits.simps [of ch b ui] Let_def)
  qed
qed

lemma fmt_digits_length:
  "2 \<le> unat b \<Longrightarrow> unat ui < unat b ^ k \<Longrightarrow> 0 < k \<Longrightarrow> length (fmt_digits ch b ui t) \<le> k + length t"
proof (induction ch b ui t arbitrary: k rule: fmt_digits.induct)
  case (1 ch b ui t)
  have b: "\<not> b < 2" using "1.prems"(1) by (simp add: word_less_nat_alt)
  show ?case
  proof (cases "ui div b = 0")
    case True with "1.prems" show ?thesis by (simp add: fmt_digits.simps [of ch b ui] Let_def)
  next
    case False
    have "k \<noteq> 1"
    proof
      assume "k = 1"
      with "1.prems" have "unat (ui div b) = 0" by (simp add: unat_div)
      with False show False by (simp add: unat_eq_zero)
    qed
    then obtain k' where k: "k = Suc k'" "0 < k'" using "1.prems"(3) by (cases k) auto
    with "1.prems" have "unat (ui div b) < unat b ^ k'" by (simp add: unat_div less_mult_imp_div_less mult.commute)
    with False b 1 k have "length (fmt_digits ch b (ui div b) (ch (ui mod b) # t)) \<le> k' + length (ch (ui mod b) # t)" by simp
    with False b k show ?thesis by (simp add: fmt_digits.simps [of ch b ui] Let_def)
  qed
qed

lemma fmt_bits_digits:
  "0 < shift \<Longrightarrow> shift < 6 \<Longrightarrow> fmt_bits ch shift ui t = fmt_digits ch (2 ^ shift) ui t"
proof (induction ch shift ui t rule: fmt_bits.induct)
  case (1 ch shift ui t)
  have "shift \<in> {1, 2, 3, 4, 5}" using "1.prems" by auto
  then have two: "\<not> (2 ^ shift :: u64) < 2" by auto
  have d: "drop_bit shift ui = ui div 2 ^ shift" by (rule drop_bit_eq_div)
  have m: "ui AND mask shift = ui mod 2 ^ shift" by (simp add: take_bit_eq_mask [symmetric] take_bit_eq_mod)
  show ?case
    using 1 two unfolding fmt_bits.simps [of ch shift ui t] fmt_digits.simps [of ch _ ui t] Let_def d m
    by simp
qed

lemma unat_lt: "unat ui < 2 ^ 64" for ui :: u64
  using unsigned_less [of ui] by simp

lemma fmt_base10_digits: "fmt_base10 ui = fmt_digits TOCHAR 10 ui []"
proof (cases "ui < 10")
  case True
  then have "ui div 10 = 0 \<and> ui mod 10 = ui" by (simp add: word_less_nat_alt unat_div word_unat_eq_iff unat_mod)
  with True show ?thesis by (simp add: fmt_base10_def fmt_digits.simps [of _ _ ui])
next
  case False
  then have "ui div 10 \<noteq> 0" by (auto simp: word_less_nat_alt unat_div word_unat_eq_iff)
  with False show ?thesis by (simp add: fmt_base10_def fmt_digits.simps [of _ _ ui])
qed

text \<open>What the switch of \<open>fmtulong\<close> stores is \<open>fmt_digits\<close> for the base's characters.\<close>

lemma fmt_magnitude_digits:
  assumes "2 \<le> base" "base \<le> 64"
  shows "\<exists>ch. digit_chars (nat base) ch \<and> fmt_magnitude ui base flags = fmt_digits ch (word_of_int base) ui []"
proof -
  consider "base = 10" | "base = 8" | "base = 16" | "base = 2" | "base \<notin> {2, 8, 10, 16}" by blast
  then show ?thesis
  proof cases
    case 1
    then show ?thesis using digit_chars_TOCHAR [of 10] by (auto simp: fmt_magnitude_def fmt_base10_digits)
  next
    case 2
    then show ?thesis using digit_chars_TOCHAR [of 8] by (auto simp: fmt_magnitude_def fmt_bits_digits)
  next
    case 3
    then show ?thesis using digit_chars_hex [of "flags AND FL_HEXUPPER \<noteq> 0"] by (auto simp: fmt_magnitude_def fmt_bits_digits)
  next
    case 4
    then show ?thesis using digit_chars_TOCHAR [of 2] by (auto simp: fmt_magnitude_def fmt_bits_digits)
  next
    case 5
    moreover have "digit_chars (nat base) FMTCHAR" by (rule digit_chars_FMTCHAR) (use assms in linarith)
    ultimately show ?thesis by (auto simp: fmt_magnitude_def)
  qed
qed

lemma fmt_magnitude_facts:
  assumes "2 \<le> base" "base \<le> 64"
  shows "length (fmt_magnitude ui base flags) \<le> 64"
    and "strlong_loop base fb 0 (fmt_magnitude ui base flags) = Inr ui"
    and "VALID_NUMCHAR (byte_at (fmt_magnitude ui base flags) 0)"
    and "byte_at (fmt_magnitude ui base flags) 0 = CHR ''0'' \<Longrightarrow> ui = 0"
proof -
  define b :: u64 where "b = word_of_int base"
  have ub: "uint b = base" using assms by (simp add: b_def unsigned_of_int take_bit_int_eq_self)
  then have nb: "unat b = nat base" by (metis nat_uint_eq)
  with assms have two: "2 \<le> unat b" by linarith
  obtain ch where ch: "digit_chars (unat b) ch" "fmt_magnitude ui base flags = fmt_digits ch b ui []"
    using fmt_magnitude_digits [OF assms] nb b_def by metis
  have "(2 :: nat) ^ 64 \<le> unat b ^ 64" using two by (rule power_mono) simp
  with unat_lt [of ui] have "unat ui < unat b ^ 64" by (rule less_le_trans)
  with fmt_digits_length [OF two, of ui 64 ch "[]"] show "length (fmt_magnitude ui base flags) \<le> 64" by (simp add: ch)
  show "strlong_loop base fb 0 (fmt_magnitude ui base flags) = Inr ui"
    using strlong_digits [OF ch(1) two, of fb ui "[]"] by (simp add: ch ub)
  from fmt_digits_first [OF ch(1) two, of ui "[]"] show "VALID_NUMCHAR (byte_at (fmt_magnitude ui base flags) 0)"
    and "byte_at (fmt_magnitude ui base flags) 0 = CHR ''0'' \<Longrightarrow> ui = 0"
    by (auto simp: ch)
qed

lemma fmt_zero: "base \<in> {8, 10, 16} \<Longrightarrow> fmt_magnitude 0 base flags = ''0''"
  by (auto simp: fmt_magnitude_def fmt_base10_def fmt_bits.simps TOCHAR_def x_digs_def X_digs_def char_eq_ord of_char_of simp del: of_char_eq_iff)

text \<open>A number without a base in front of it is decimal.\<close>

lemma strlong_base10: "strlong (fmt_magnitude ui 10 flags) = Inr ui"
proof (cases "byte_at (fmt_magnitude ui 10 flags) 0 = CHR ''0''")
  case True
  then have "ui = 0" using fmt_magnitude_facts(4) [of 10 ui flags] by simp
  then show ?thesis by (simp add: fmt_zero strlong_def)
next
  case False
  then show ?thesis by (simp add: strlong_def fmt_magnitude_facts(2))
qed

lemma TOCHAR_digit:
  assumes "0 \<le> d" "d < 10"
  shows "ord (TOCHAR (word_of_int d)) = nat d + 48"
proof -
  have "unat (word_of_int d :: u64) = nat d"
    using assms by (simp add: unat_eq_nat_uint unsigned_of_int take_bit_int_eq_self)
  then show ?thesis using assms by (simp add: TOCHAR_def of_char_of)
qed

lemma strlong_loop_digit:
  "0 \<le> d \<Longrightarrow> d < 10 \<Longrightarrow> strlong_loop 10 fb v (TOCHAR (word_of_int d) # t) = strlong_loop 10 fb (v * 10 + word_of_int d) t"
  using TOCHAR_digit [of d] by (auto simp: ctype_defs num_value_def char_eq_ord simp del: of_char_eq_iff)

lemma strlong_base_prefix:
  assumes "2 \<le> base" "base \<le> 64" "base \<noteq> 10"
  shows "strlong ((if 10 < base then [TOCHAR (word_of_int (base div 10))] else []) @
      [TOCHAR (word_of_int (base mod 10)), CHR ''#''] @ t) =
      (if VALID_NUMCHAR (byte_at t 0) then strlong_loop base True 0 t else Inl ''invalid integer constant'')"
proof -
  have s: "sint (word_of_int base :: u64) = base"
    using assms by (simp add: signed_of_int signed_take_bit_int_eq_self)
  have hash: "strlong_loop 10 False (word_of_int base) (CHR ''#'' # t) =
      (if VALID_NUMCHAR (byte_at t 0) then strlong_loop base True 0 t else Inl ''invalid integer constant'')"
    using assms by (simp add: s)
  have nz: "TOCHAR (word_of_int d) \<noteq> CHR ''0''" if "0 < d" "d < 10" for d
    using TOCHAR_digit [of d] that by (simp add: char_eq_ord del: of_char_eq_iff)
  show ?thesis
  proof (cases "10 < base")
    case True
    have w: "word_of_int (base div 10) * 10 + word_of_int (base mod 10) = (word_of_int base :: u64)"
      by (metis (mono_tags) div_mult_mod_eq of_int_add of_int_mult of_int_numeral)
    show ?thesis using True assms nz [of "base div 10"] hash
      by (simp add: strlong_def strlong_loop_digit w del: strlong_loop.simps)
  next
    case False
    then show ?thesis using assms nz [of base] hash
      by (simp add: strlong_def strlong_loop_digit del: strlong_loop.simps)
  qed
qed

lemma fmt_prefix_length: "length (fmt_prefix base flags t) \<le> length t + 3"
  by (simp add: fmt_prefix_def)

text \<open>
  A number printed in any base that the text shows, by \<open>base#\<close> or by the prefix of C, is read
  back as it was; a buffer of 68 bytes is enough.
\<close>

theorem fmtulong_reads_back:
  assumes "2 \<le> base" "base \<le> 64" "68 \<le> len" and "flags AND FL_UNSIGNED \<noteq> 0"
    and "base = 10 \<or> flags AND FL_ADDBASE \<noteq> 0 \<or> (flags AND FL_PREFIX \<noteq> 0 \<and> base \<in> {8, 16})"
  shows "\<exists>t. fmtulong ui base len flags = Some t \<and> strlong t = Inr ui"
proof -
  let ?m = "fmt_magnitude ui base flags"
  note m = fmt_magnitude_facts [OF assms(1,2), where ui = ui and flags = flags]
  have "length (fmt_prefix base flags ?m) < len"
    using m(1) assms(3) fmt_prefix_length [of base flags ?m] by linarith
  then have f: "fmtulong ui base len flags = Some (fmt_prefix base flags ?m)"
    using assms by (simp add: fmtulong_def Let_def)
  have "strlong (fmt_prefix base flags ?m) = Inr ui"
  proof (cases "flags AND FL_PREFIX \<noteq> 0 \<and> (base = 8 \<or> base = 16)")
    case True
    have ne: "?m \<noteq> []" "\<not> (hd ?m = CHR ''x'' \<or> hd ?m = CHR ''X'')" if "base = 8"
    proof -
      have "?m \<noteq> []" using m(3) by (auto simp: ctype_defs)
      moreover have "\<not> (hd ?m = CHR ''x'' \<or> hd ?m = CHR ''X'')"
        using m(2) [where fb = True] that \<open>?m \<noteq> []\<close> by (cases ?m) (auto simp: ctype_defs num_value_def)
      ultimately show "?m \<noteq> []" "\<not> (hd ?m = CHR ''x'' \<or> hd ?m = CHR ''X'')" by simp_all
    qed
    from True show ?thesis
    proof (elim conjE disjE)
      assume 16: "base = 16"
      then show ?thesis using True m(2) [where fb = True] by (simp add: fmt_prefix_def strlong_def)
    next
      assume 8: "base = 8"
      show ?thesis
      proof (cases "byte_at ?m 0 = CHR ''0''")
        case z: True
        then have "ui = 0" by (rule m(4))
        with 8 True show ?thesis by (simp add: fmt_prefix_def fmt_zero strlong_def)
      next
        case False
        with 8 True show ?thesis using m(2) [where fb = True] ne by (simp add: fmt_prefix_def strlong_def)
      qed
    qed
  next
    case False
    then show ?thesis
      using assms strlong_base10 strlong_base_prefix [of base ?m] m
      by (auto simp: fmt_prefix_def)
  qed
  with f show ?thesis by simp
qed

theorem fmtulong_reads_back_witness:
  "\<exists>t. fmtulong 48879 36 68 (FL_ADDBASE OR FL_UNSIGNED) = Some t \<and> strlong t = Inr 48879"
  by (rule fmtulong_reads_back) (simp_all add: FL_defs)

section \<open>Decimal numbers\<close>

lemma fmt_digits_set:
  "2 \<le> unat b \<Longrightarrow> set (fmt_digits ch b ui t) \<subseteq> ch ` {d. unat d < unat b} \<union> set t"
proof (induction ch b ui t rule: fmt_digits.induct)
  case (1 ch b ui t)
  have b: "\<not> b < 2" using "1.prems"(1) by (simp add: word_less_nat_alt)
  have "unat (ui mod b) < unat b" using "1.prems" by (simp add: unat_mod)
  then have m: "ch (ui mod b) \<in> ch ` {d. unat d < unat b}" by blast
  show ?case
  proof (cases "ui div b = 0")
    case True with m show ?thesis by (simp add: fmt_digits.simps [of ch b ui] Let_def)
  next
    case False
    with b 1 have "set (fmt_digits ch b (ui div b) (ch (ui mod b) # t)) \<subseteq> ch ` {d. unat d < unat b} \<union> set (ch (ui mod b) # t)"
      by blast
    with m have "set (fmt_digits ch b (ui div b) (ch (ui mod b) # t)) \<subseteq> ch ` {d. unat d < unat b} \<union> set t"
      by (auto simp del: of_char_eq_iff)
    with False b show ?thesis by (simp add: fmt_digits.simps [of ch b ui] Let_def)
  qed
qed

lemma fmt_base10_DIGIT: "c \<in> set (fmt_base10 ui) \<Longrightarrow> DIGIT c"
proof -
  assume "c \<in> set (fmt_base10 ui)"
  then obtain d where "c = TOCHAR d" "unat d < 10"
    using fmt_digits_set [of 10 TOCHAR ui "[]"] by (auto simp: fmt_base10_digits)
  then show "DIGIT c" by (simp add: TOCHAR_def DIGIT_def of_char_of)
qed

lemma fmt_magnitude_10: "fmt_magnitude ui 10 flags = fmt_base10 ui"
  by (simp add: fmt_magnitude_def)

lemma fmt_base10_nonempty: "fmt_base10 ui \<noteq> []"
  using fmt_magnitude_facts(3) [of 10 ui 0] by (auto simp: fmt_magnitude_10 ctype_defs)

lemma strlong_decimal: "strlong (fmt_base10 ui) = Inr ui"
  using strlong_base10 [of ui 0] by (simp add: fmt_magnitude_10)

definition decimal :: "intmax \<Rightarrow> string" where
  "decimal i = (if sint i < 0 then CHR ''-'' # fmt_base10 (- i) else fmt_base10 i)"

text \<open>The buffer of \<open>itos\<close> is large enough for every number.\<close>

theorem itos_decimal: "itos i = Some (decimal i)"
proof -
  have len: "length (fmt_base10 ui) \<le> 20" for ui
    using fmt_digits_length [of 10 ui 20 TOCHAR "[]"] unat_lt [of ui] by (simp add: fmt_base10_digits)
  have "(10 :: nat) ^ 20 > 2 ^ 64" by simp
  then show ?thesis
    using len [of i] len [of "- i"]
    by (simp add: itos_def fmtulong_def fmt_magnitude_10 fmt_prefix_def decimal_def INT_STRLEN_BOUND_def)
qed

end
