(* ===== verification/Bash_Expr.thy ===== *)
theory Bash_Expr imports Bash_Arith begin

text \<open>
  \<open>src/khsl/bash/bash-5.2/expr.c\<close>: the evaluator of \<open>$((...))\<close>, a recursive descent over the
  text of the expression that evaluates while it reads, with one token of look-ahead kept in
  static variables. The statics are the record \<open>expr_state\<close>; a pointer into the expression is a
  position, \<open>tokstr\<close> a block number with its text (the code compares the pointers), the stack
  of saved contexts a list with its top first. An evaluation that ends in \<open>longjmp\<close> is a
  \<open>Leaves\<close> whose state says why (\<open>failure\<close>).

  The shell's variables (\<open>variables.c\<close>, \<open>arrayfunc.c\<close>, \<open>skipsubscript\<close> of \<open>subst.c\<close>) are the
  record \<open>shell_ops\<close> over a state \<open>'s\<close>. An array reference may evaluate its subscript with
  \<open>evalexp\<close> again: that call saves and restores the statics, so the result of \<open>sh_value\<close> says
  what is left of it, the flag \<open>already_expanded\<close>, or that it failed.

  The parsing functions call each other in a cycle through \<open>EXP_LOWEST\<close>. They are defined from
  the operands up, each with its token reader \<open>rd\<close>, the function \<open>low\<close> for a nested expression and
  a bound \<open>n\<close> on its loops and self calls as arguments; running out of the bound is the failure
  \<open>X_stuck\<close>. The bounds taken from the length of the text and the recursion limit always suffice.
\<close>

section \<open>Tokens\<close>

definition EQEQ :: int where "EQEQ = 1"
definition NEQ :: int where "NEQ = 2"
definition LEQ :: int where "LEQ = 3"
definition GEQ :: int where "GEQ = 4"
definition STR_TOK :: int where "STR_TOK = 5"
definition NUM :: int where "NUM = 6"
definition LAND :: int where "LAND = 7"
definition LOR :: int where "LOR = 8"
definition LSH :: int where "LSH = 9"
definition RSH :: int where "RSH = 10"
definition OP_ASSIGN :: int where "OP_ASSIGN = 11"
definition COND :: int where "COND = 12"
definition POWER :: int where "POWER = 13"
definition PREINC :: int where "PREINC = 14"
definition PREDEC :: int where "PREDEC = 15"
definition POSTINC :: int where "POSTINC = 16"
definition POSTDEC :: int where "POSTDEC = 17"
definition EQ :: int where "EQ = 61"
definition GT :: int where "GT = 62"
definition LT :: int where "LT = 60"
definition PLUS :: int where "PLUS = 43"
definition MINUS :: int where "MINUS = 45"
definition MUL :: int where "MUL = 42"
definition DIV :: int where "DIV = 47"
definition MOD :: int where "MOD = 37"
definition NOT_TOK :: int where "NOT_TOK = 33"
definition LPAR :: int where "LPAR = 40"
definition RPAR :: int where "RPAR = 41"
definition BAND :: int where "BAND = 38"
definition BOR :: int where "BOR = 124"
definition BXOR :: int where "BXOR = 94"
definition BNOT :: int where "BNOT = 126"
definition QUES :: int where "QUES = 63"
definition COL :: int where "COL = 58"
definition COMMA :: int where "COMMA = 44"

lemmas tok_defs =
  EQEQ_def NEQ_def LEQ_def GEQ_def STR_TOK_def NUM_def LAND_def LOR_def LSH_def RSH_def OP_ASSIGN_def
  COND_def POWER_def PREINC_def PREDEC_def POSTINC_def POSTDEC_def EQ_def GT_def LT_def PLUS_def
  MINUS_def MUL_def DIV_def MOD_def NOT_TOK_def LPAR_def RPAR_def BAND_def BOR_def BXOR_def BNOT_def
  QUES_def COL_def COMMA_def

definition is_multiop :: "int \<Rightarrow> bool" where
  "is_multiop c \<longleftrightarrow> c \<in> {EQEQ, NEQ, LEQ, GEQ, LAND, LOR, LSH, RSH, OP_ASSIGN, COND, POWER,
     PREINC, PREDEC, POSTINC, POSTDEC}"

definition is_arithop :: "int \<Rightarrow> bool" where
  "is_arithop c \<longleftrightarrow> c \<in> {EQ, GT, LT, PLUS, MINUS, MUL, DIV, MOD, NOT_TOK, LPAR, RPAR, BAND, BOR, BXOR,
     BNOT, QUES, COL, COMMA}"

section \<open>State\<close>

definition MAX_EXPR_RECURSION_LEVEL :: nat where "MAX_EXPR_RECURSION_LEVEL = 1024"

record lvalue =
  lv_tokstr :: "(nat \<times> string) option"
  lv_tokval :: intmax
  lv_ind :: intmax

definition init_lvalue :: lvalue where
  "init_lvalue = \<lparr>lv_tokstr = None, lv_tokval = - 1, lv_ind = - 1\<rparr>"

record expr_context =
  c_curtok :: int
  c_lasttok :: int
  c_expression :: string
  c_tp :: nat
  c_lasttp :: nat
  c_tokval :: intmax
  c_tokstr :: "(nat \<times> string) option"
  c_noeval :: int
  c_lval :: lvalue

text \<open>
  Why an evaluation ended early: an error (the expression, the message, the text from the last
  token on), an assignment that was refused, an unbound variable, a jump to the top level of the
  shell from a nested expansion, a nested evaluation that failed and threw the contexts away: in
  an interactive shell told not to jump that is an error too (\<open>X_unwound\<close>), in any other shell
  \<open>expr.c:1224\<close> returns 0 and the evaluation goes on with freed statics, where the model stops
  (\<open>X_dangling\<close>). \<open>X_stuck\<close> is a bound of the model that was met, which never happens.
\<close>

datatype expr_failure =
  X_evalerror string string string
| X_assignment
| X_unbound string
| X_unbound_toplevel string
| X_toplevel
| X_unwound
| X_dangling
| X_stuck

record 's expr_state =
  curtok :: int
  lasttok :: int
  assigntok :: int
  expression :: string
  tp :: nat
  lasttp :: nat
  tokval :: intmax
  tokstr :: "(nat \<times> string) option"
  noeval :: int
  curlval :: lvalue
  lastlval :: lvalue
  already_expanded :: bool
  expr_stack :: "expr_context list"
  next_block :: nat
  shell :: 's
  failure :: "expr_failure option"

text \<open>What the code asks of the shell. The first argument of \<open>sh_find\<close> and \<open>sh_value\<close>: an array reference.\<close>

datatype element = Element "string option" intmax bool | Unwound | Jumped

record 's shell_ops =
  sh_skipsubscript :: "bool \<Rightarrow> string \<Rightarrow> nat \<Rightarrow> nat \<Rightarrow> 's \<Rightarrow> nat"
  sh_find :: "bool \<Rightarrow> bool \<Rightarrow> string \<Rightarrow> 's \<Rightarrow> bool \<times> 's"
  sh_value :: "bool \<Rightarrow> bool \<Rightarrow> string \<Rightarrow> 's \<Rightarrow> element \<times> 's"
  sh_variable_name :: "string \<Rightarrow> string"
  sh_bind :: "bool \<Rightarrow> string \<Rightarrow> string \<Rightarrow> 's \<Rightarrow> bool \<times> 's"
  sh_special :: "string \<Rightarrow> 's \<Rightarrow> 's"
  sh_unbound_is_error :: "'s \<Rightarrow> bool"
  sh_no_longjmp :: "'s \<Rightarrow> bool"
  sh_interactive :: "'s \<Rightarrow> bool"

type_synonym ('v, 's) evaluation = "('v, 's expr_state) outcome"

definition leave :: "expr_failure \<Rightarrow> 's expr_state \<Rightarrow> ('v, 's) evaluation" where
  "leave x s = Leaves (s\<lparr>failure := Some x\<rparr>)"

definition evalerror :: "string \<Rightarrow> 's expr_state \<Rightarrow> ('v, 's) evaluation" where
  "evalerror msg s =
     leave (X_evalerror (dropWhile whitespace (expression s)) msg (drop (lasttp s) (expression s))) s"

definition SAVETOK :: "'s expr_state \<Rightarrow> expr_context" where
  "SAVETOK s =
     \<lparr>c_curtok = curtok s, c_lasttok = lasttok s, c_expression = expression s, c_tp = tp s,
      c_lasttp = lasttp s, c_tokval = tokval s, c_tokstr = tokstr s, c_noeval = noeval s,
      c_lval = curlval s\<rparr>"

definition RESTORETOK :: "expr_context \<Rightarrow> 's expr_state \<Rightarrow> 's expr_state" where
  "RESTORETOK x s =
     s\<lparr>curtok := c_curtok x, lasttok := c_lasttok x, tp := c_tp x, lasttp := c_lasttp x,
       tokval := c_tokval x, tokstr := c_tokstr x, noeval := c_noeval x, curlval := c_lval x\<rparr>"

definition pushexp :: "'s expr_state \<Rightarrow> (unit, 's) evaluation" where
  "pushexp s =
     (if MAX_EXPR_RECURSION_LEVEL \<le> length (expr_stack s) then
        evalerror ''expression recursion level exceeded'' s
      else Returns () (s\<lparr>expr_stack := SAVETOK s # expr_stack s\<rparr>))"

definition popexp :: "'s expr_state \<Rightarrow> (unit, 's) evaluation" where
  "popexp s =
     (case expr_stack s of
        [] \<Rightarrow> evalerror ''recursion stack underflow'' (s\<lparr>expression := [], lasttp := 0\<rparr>)
      | x # xs \<Rightarrow> Returns () (RESTORETOK x (s\<lparr>expr_stack := xs, expression := c_expression x\<rparr>)))"

definition expr_unwind :: "'s expr_state \<Rightarrow> 's expr_state" where
  "expr_unwind s = s\<lparr>expr_stack := [], noeval := 0\<rparr>"

section \<open>Variables\<close>

definition itos_text :: "intmax \<Rightarrow> string" where
  "itos_text i = (case itos i of Some t \<Rightarrow> t | None \<Rightarrow> [])"

lemma itos_text_decimal [simp]: "itos_text i = decimal i"
  by (simp add: itos_text_def itos_decimal)

definition expr_bind_variable ::
  "'s shell_ops \<Rightarrow> string \<Rightarrow> string \<Rightarrow> 's expr_state \<Rightarrow> (unit, 's) evaluation" where
  "expr_bind_variable E lhs rhs s =
     (if lhs = [] then Returns () s
      else
        (case sh_bind E (already_expanded s) lhs rhs (shell s) of
           (True, sh) \<Rightarrow> leave X_assignment (s\<lparr>shell := sh\<rparr>)
         | (False, sh) \<Rightarrow> Returns () (s\<lparr>shell := sh_special E lhs sh\<rparr>)))"

definition expr_bind_array_element ::
  "'s shell_ops \<Rightarrow> string \<Rightarrow> intmax \<Rightarrow> string \<Rightarrow> 's expr_state \<Rightarrow> (unit, 's) evaluation" where
  "expr_bind_array_element E tok ind rhs s =
     expr_bind_variable E (sh_variable_name E tok @ ''['' @ itos_text ind @ '']'') rhs s"

definition block_text :: "(nat \<times> string) option \<Rightarrow> string" where
  "block_text p = (case p of Some (_, t) \<Rightarrow> t | None \<Rightarrow> [])"

text \<open>
  \<open>e = ']'\<close> is \<open>isref\<close>. A variable that is not set counts as empty. The model ends in \<open>X_dangling\<close> where
  the code returns 0 with \<open>expression\<close> and \<open>tokstr\<close> freed: what it reads from then on is undefined.
\<close>

definition expr_streval ::
  "'s shell_ops \<Rightarrow> (string \<Rightarrow> 's expr_state \<Rightarrow> (intmax, 's) evaluation) \<Rightarrow> bool \<Rightarrow>
   's expr_state \<Rightarrow> (intmax, 's) evaluation" where
  "expr_streval E sub isref s =
     (if noeval s \<noteq> 0 then Returns 0 s
      else
        let tok = block_text (tokstr s);
            (found, sh) = sh_find E isref (already_expanded s) tok (shell s);
            s1 = s\<lparr>shell := sh\<rparr>
        in if \<not> found \<and> sh_unbound_is_error E sh then
             (let name = (if isref then sh_variable_name E tok else tok) in
              if sh_no_longjmp E sh \<and> sh_interactive E sh then leave (X_unbound name) s1
              else if sh_interactive E sh then leave (X_unbound_toplevel name) (expr_unwind s1)
              else leave (X_unbound_toplevel name) s1)
           else
             (case sh_value E isref (already_expanded s) tok sh of
                (Jumped, sh) \<Rightarrow> leave X_toplevel (s1\<lparr>shell := sh\<rparr>)
              | (Unwound, sh) \<Rightarrow>
                  leave (if sh_no_longjmp E sh \<and> sh_interactive E sh then X_unwound else X_dangling)
                    (expr_unwind (s1\<lparr>shell := sh\<rparr>))
              | (Element value ind exp, sh) \<Rightarrow>
                  then_do
                    (case value of
                       None \<Rightarrow> Returns 0 (s1\<lparr>shell := sh, already_expanded := exp\<rparr>)
                     | Some v \<Rightarrow>
                         (if v = [] then Returns 0 (s1\<lparr>shell := sh, already_expanded := exp\<rparr>)
                          else sub v (s1\<lparr>shell := sh, already_expanded := exp\<rparr>)))
                    (\<lambda>tval s. Returns tval
                       (s\<lparr>curlval := \<lparr>lv_tokstr = tokstr s, lv_tokval = tval, lv_ind = ind\<rparr>\<rparr>))))"


section \<open>Reading tokens\<close>

text \<open>
  The branch of \<open>readtok\<close> for operators, on the text from the operator on: the token, what it
  stores in \<open>assigntok\<close>, its length; or the message of an error. \<open>cur\<close> and \<open>prev\<close> are the
  current token and the one before.
\<close>

datatype operator = Operator int "int option" nat | Bad_operator string

definition lex_operator :: "int \<Rightarrow> int \<Rightarrow> string \<Rightarrow> operator" where
  "lex_operator cur prev t =
     (let c = byte_at t 0; c1 = byte_at t 1; c2 = byte_at t 2; code = (\<lambda>x. int (ord x));
          twice = ((c = CHR ''-'' \<or> c = CHR ''+'') \<and> c1 = c)
      in if c = CHR ''='' \<and> c1 = CHR ''='' then Operator EQEQ None 2
         else if c = CHR ''!'' \<and> c1 = CHR ''='' then Operator NEQ None 2
         else if c = CHR ''>'' \<and> c1 = CHR ''='' then Operator GEQ None 2
         else if c = CHR ''<'' \<and> c1 = CHR ''='' then Operator LEQ None 2
         else if c = CHR ''<'' \<and> c1 = CHR ''<'' then
           (if c2 = CHR ''='' then Operator OP_ASSIGN (Some LSH) 3 else Operator LSH None 2)
         else if c = CHR ''>'' \<and> c1 = CHR ''>'' then
           (if c2 = CHR ''='' then Operator OP_ASSIGN (Some RSH) 3 else Operator RSH None 2)
         else if c = CHR ''&'' \<and> c1 = CHR ''&'' then Operator LAND None 2
         else if c = CHR ''|'' \<and> c1 = CHR ''|'' then Operator LOR None 2
         else if c = CHR ''*'' \<and> c1 = CHR ''*'' then Operator POWER None 2
         else if twice \<and> cur = STR_TOK then Operator (if c = CHR ''-'' then POSTDEC else POSTINC) None 2
         else if twice \<and> cur = NUM \<and> (prev = PREINC \<or> prev = PREDEC) then
           Bad_operator (if c = CHR ''-'' then ''--: assignment requires lvalue'' else ''++: assignment requires lvalue'')
         else if twice then
           (if legal_variable_starter (byte_at (dropWhile cr_whitespace (drop 2 t)) 0)
            then Operator (if c = CHR ''-'' then PREDEC else PREINC) None 2
            else Operator (code c) None 1)
         else if c1 = CHR ''='' \<and> c \<in> set ''*/%+-&^|'' then Operator OP_ASSIGN (Some (code c)) 2
         else if \<not> is_arithop (code c) then
           Bad_operator
             (if cur = 0 \<or> is_arithop cur \<or> is_multiop cur then ''syntax error: operand expected''
              else ''syntax error: invalid arithmetic operator'')
         else Operator (code c) None 1)"

definition read_operator :: "'s expr_state \<Rightarrow> (unit, 's) evaluation" where
  "read_operator s =
     (case lex_operator (curtok s) (lasttok s) (drop (tp s) (expression s)) of
        Bad_operator msg \<Rightarrow> evalerror msg s
      | Operator t assign n \<Rightarrow>
          Returns () (s\<lparr>assigntok := (case assign of Some a \<Rightarrow> a | None \<Rightarrow> assigntok s),
                        lasttok := curtok s, curtok := t, tp := tp s + n\<rparr>))"

definition number_char :: "char \<Rightarrow> bool" where
  "number_char c \<longleftrightarrow> ISALNUM c \<or> c = CHR ''#'' \<or> c = CHR ''@'' \<or> c = CHR ''_''"

text \<open>While \<open>strlong\<close> reads the number the expression ends behind it, also in a message.\<close>

definition read_number :: "'s expr_state \<Rightarrow> (unit, 's) evaluation" where
  "read_number s =
     (let num = takeWhile number_char (drop (tp s) (expression s)); cp = tp s + length num in
      case strlong num of
        Inl msg \<Rightarrow> evalerror msg (s\<lparr>expression := take cp (expression s)\<rparr>)
      | Inr v \<Rightarrow> Returns () (s\<lparr>tokval := v, lasttok := curtok s, curtok := NUM, tp := cp\<rparr>))"

text \<open>The length of a name with its subscript, and whether it has one; \<open>None\<close> is a bad subscript.\<close>

definition name_end :: "'s shell_ops \<Rightarrow> 's expr_state \<Rightarrow> (nat \<times> bool) option" where
  "name_end E s =
     (let t = drop (tp s) (expression s); n = length (takeWhile legal_variable_char t) in
      if byte_at t n = CHR ''['' then
        (let e = sh_skipsubscript E (already_expanded s) (expression s) (tp s) (tp s + n) (shell s) in
         if byte_at t (n + e) = CHR '']'' then Some (n + e + 1, True) else None)
      else Some (n, False))"

text \<open>A \<open>curlval\<close> that points at the token about to be freed is reset.\<close>

definition reset_curlval :: "'s expr_state \<Rightarrow> 's expr_state" where
  "reset_curlval s =
     (if lv_tokstr (curlval s) \<noteq> None \<and> map_option fst (lv_tokstr (curlval s)) = map_option fst (tokstr s)
      then s\<lparr>curlval := init_lvalue\<rparr> else s)"

definition set_name :: "nat \<Rightarrow> 's expr_state \<Rightarrow> 's expr_state" where
  "set_name n s =
     (reset_curlval s)\<lparr>tokstr := Some (next_block s, take n (drop (tp s) (expression s))),
       next_block := next_block s + 1\<rparr>"

text \<open>After the look-ahead \<open>peektok\<close>: the value of the variable, unless it is assigned to.\<close>

definition read_name_value ::
  "'s shell_ops \<Rightarrow> (string \<Rightarrow> 's expr_state \<Rightarrow> (intmax, 's) evaluation) \<Rightarrow> nat \<Rightarrow> bool \<Rightarrow> int \<Rightarrow>
   's expr_state \<Rightarrow> (unit, 's) evaluation" where
  "read_name_value E sub cp isref peektok s =
     then_do
       (if lasttok s = PREINC \<or> lasttok s = PREDEC \<or> peektok \<noteq> EQ
        then expr_streval E sub isref (s\<lparr>lastlval := curlval s\<rparr>) else Returns 0 s)
       (\<lambda>v s. Returns () (s\<lparr>tokval := v, lasttok := curtok s, curtok := STR_TOK, tp := cp\<rparr>))"

definition skip_space :: "'s expr_state \<Rightarrow> nat" where
  "skip_space s = tp s + length (takeWhile cr_whitespace (drop (tp s) (expression s)))"

lemma skip_space_ge: "tp s \<le> skip_space s"
  by (simp add: skip_space_def)

lemma name_end_pos:
  assumes "name_end E s = Some (n, r)" and "legal_variable_starter (byte_at (expression s) (tp s))"
  shows "0 < n"
proof -
  from assms(2) have "tp s < length (expression s)" by (auto simp: byte_at_def ctype_defs split: if_splits)
  then obtain c u where t: "drop (tp s) (expression s) = c # u" "byte_at (expression s) (tp s) = c"
    by (auto simp: Cons_nth_drop_Suc [symmetric] byte_at_def)
  with assms(2) have "legal_variable_char c" by (auto simp: ctype_defs)
  with t assms(1) show ?thesis by (auto simp: name_end_def Let_def split: if_splits)
qed

lemma expression_set_name [simp]: "expression (set_name n s) = expression s"
  by (simp add: set_name_def reset_curlval_def)

lemma name_advance:
  assumes "\<not> length (expression s) \<le> skip_space s"
    and "legal_variable_starter (byte_at (expression s) (skip_space s))"
    and "name_end E (s\<lparr>tp := skip_space s, lasttp := skip_space s\<rparr>) = Some x" and "(n, r) = x"
  shows "length (expression s) - (skip_space s + n) < length (expression s) - tp s"
  proof -
  have "0 < n" using name_end_pos [of E "s\<lparr>tp := skip_space s, lasttp := skip_space s\<rparr>" n r] assms by simp
  with assms(1) skip_space_ge [of s] show ?thesis by linarith
qed

function readtok ::
  "'s shell_ops \<Rightarrow> (string \<Rightarrow> 's expr_state \<Rightarrow> (intmax, 's) evaluation) \<Rightarrow>
   's expr_state \<Rightarrow> (unit, 's) evaluation" where
  "readtok E sub s =
     (let cp = skip_space s; c = byte_at (expression s) cp in
      if length (expression s) \<le> cp then
        Returns () (s\<lparr>lasttok := curtok s, curtok := 0, tp := cp\<rparr>)
      else
        let s1 = s\<lparr>tp := cp, lasttp := cp\<rparr> in
        if legal_variable_starter c then
          (case name_end E s1 of
             None \<Rightarrow> evalerror ''bad array subscript'' s1
           | Some (n, isref) \<Rightarrow>
               let s2 = set_name n s1; ec = SAVETOK s2
               in then_do (readtok E sub (s2\<lparr>tokstr := None, tp := cp + n, noeval := 1, curtok := STR_TOK\<rparr>))
                   (\<lambda>_ s3. read_name_value E sub (cp + n) isref (curtok s3) (RESTORETOK ec s3)))
        else if DIGIT c then read_number s1
        else read_operator s1)"
  by pat_completeness auto

termination
  by (relation "measure (\<lambda>(E, sub, s). length (expression s) - tp s)", simp, simp only: in_measure case_prod_conv)
     (simp, rule name_advance, assumption+)

declare readtok.simps [simp del]


section \<open>Operators on numbers\<close>

definition shift_count :: "intmax \<Rightarrow> nat" where "shift_count v = unat (v mod 64)"

definition arith_lsh :: "intmax \<Rightarrow> intmax \<Rightarrow> intmax" where "arith_lsh a b = push_bit (shift_count b) a"
definition arith_rsh :: "intmax \<Rightarrow> intmax \<Rightarrow> intmax" where "arith_rsh a b = signed_drop_bit (shift_count b) a"

text \<open>\<open>imaxdiv\<close>; the processor's answer for \<open>INTMAX_MIN / -1\<close> is never asked for.\<close>

definition imaxdiv :: "intmax \<Rightarrow> intmax \<Rightarrow> intmax \<times> intmax" where
  "imaxdiv a b = (word_of_int (sint a sdiv sint b), word_of_int (sint a smod sint b))"

definition truth :: "bool \<Rightarrow> intmax" where "truth b = (if b then 1 else 0)"

section \<open>The parsing functions\<close>

text \<open>The loops \<open>while (curtok == \<dots>) { \<dots> }\<close> over a running value.\<close>

fun op_loop ::
  "(int \<Rightarrow> bool) \<Rightarrow> (int \<Rightarrow> intmax \<Rightarrow> 's expr_state \<Rightarrow> (intmax, 's) evaluation) \<Rightarrow> nat \<Rightarrow> intmax \<Rightarrow>
   's expr_state \<Rightarrow> (intmax, 's) evaluation" where
  "op_loop is_op body 0 v s = (if is_op (curtok s) then leave X_stuck s else Returns v s)"
| "op_loop is_op body (Suc n) v s =
     (if is_op (curtok s) then then_do (body (curtok s) v s) (op_loop is_op body n) else Returns v s)"

type_synonym 's reader = "'s expr_state \<Rightarrow> (unit, 's) evaluation"
type_synonym 's parser = "'s expr_state \<Rightarrow> (intmax, 's) evaluation"

text \<open>The body most of the loops share: read on, the right operand, combine.\<close>

definition bin_body ::
  "'s reader \<Rightarrow> 's parser \<Rightarrow> (int \<Rightarrow> intmax \<Rightarrow> intmax \<Rightarrow> intmax) \<Rightarrow> int \<Rightarrow> intmax \<Rightarrow>
   's expr_state \<Rightarrow> (intmax, 's) evaluation" where
  "bin_body rd operand f op val1 s =
     then_do (rd s) (\<lambda>_ s.
     then_do (operand s) (\<lambda>val2 s.
     Returns (f op val1 val2) (s\<lparr>lasttok := NUM\<rparr>)))"

definition store_lvalue ::
  "'s shell_ops \<Rightarrow> string \<Rightarrow> intmax \<Rightarrow> intmax \<Rightarrow> 's expr_state \<Rightarrow> (unit, 's) evaluation" where
  "store_lvalue E lhs lind v s =
     (if noeval s = 0 then
        (if lind \<noteq> - 1 then expr_bind_array_element E lhs lind (itos_text v) s
         else expr_bind_variable E lhs (itos_text v) s)
      else Returns () s)"

definition bind_lvalue ::
  "'s shell_ops \<Rightarrow> lvalue \<Rightarrow> (nat \<times> string) option \<Rightarrow> intmax \<Rightarrow> 's expr_state \<Rightarrow> (unit, 's) evaluation" where
  "bind_lvalue E lv tok v s =
     store_lvalue E (block_text (if lv_ind lv \<noteq> - 1 then lv_tokstr lv else tok)) (lv_ind lv) v s"

definition exp0 :: "'s shell_ops \<Rightarrow> 's reader \<Rightarrow> 's parser \<Rightarrow> 's parser" where
  "exp0 E rd low s =
     (if curtok s = PREINC \<or> curtok s = PREDEC then
        let stok = curtok s in
        then_do (rd (s\<lparr>lasttok := stok\<rparr>)) (\<lambda>_ s.
        if curtok s \<noteq> STR_TOK then evalerror ''identifier expected after pre-increment or pre-decrement'' s
        else
          let v2 = tokval s + (if stok = PREINC then 1 else - 1) in
          then_do (bind_lvalue E (curlval s) (tokstr s) v2 s) (\<lambda>_ s.
          then_do (rd (s\<lparr>curtok := NUM\<rparr>)) (\<lambda>_ s. Returns v2 s)))
      else if curtok s = LPAR then
        then_do (rd s) (\<lambda>_ s.
        then_do (low s) (\<lambda>val s.
        if curtok s \<noteq> RPAR then evalerror (''missing `)'' @ [CHR 0x27]) s
        else then_do (rd s) (\<lambda>_ s. Returns val s)))
      else if curtok s = NUM then
        (let val = tokval s in then_do (rd s) (\<lambda>_ s. Returns val s))
      else if curtok s = STR_TOK then
        (let val = tokval s; ec = SAVETOK s in
         then_do (rd (s\<lparr>tokstr := None, noeval := 1\<rparr>)) (\<lambda>_ s.
         let stok = curtok s in
         then_do
           (if stok = POSTINC \<or> stok = POSTDEC then
              let s = s\<lparr>tokstr := c_tokstr ec, noeval := c_noeval ec, curlval := c_lval ec, lasttok := STR_TOK\<rparr>;
                  v2 = val + (if stok = POSTINC then 1 else - 1)
              in then_do (bind_lvalue E (curlval s) (tokstr s) v2 s) (\<lambda>_ s. Returns () (s\<lparr>curtok := NUM\<rparr>))
            else Returns () (RESTORETOK ec s))
           (\<lambda>_ s. then_do (rd s) (\<lambda>_ s. Returns val s))))
      else evalerror ''syntax error: operand expected'' s)"

fun exp1 :: "'s shell_ops \<Rightarrow> 's reader \<Rightarrow> 's parser \<Rightarrow> nat \<Rightarrow> 's parser" where
  "exp1 E rd low 0 s = leave X_stuck s"
| "exp1 E rd low (Suc n) s =
     (if curtok s = NOT_TOK then
        then_do (rd s) (\<lambda>_ s. then_do (exp1 E rd low n s) (\<lambda>v s. Returns (truth (v = 0)) (s\<lparr>lasttok := NUM\<rparr>)))
      else if curtok s = BNOT then
        then_do (rd s) (\<lambda>_ s. then_do (exp1 E rd low n s) (\<lambda>v s. Returns (not v) (s\<lparr>lasttok := NUM\<rparr>)))
      else if curtok s = MINUS then
        then_do (rd s) (\<lambda>_ s. then_do (exp1 E rd low n s) (\<lambda>v s. Returns (- v) (s\<lparr>lasttok := NUM\<rparr>)))
      else if curtok s = PLUS then
        then_do (rd s) (\<lambda>_ s. then_do (exp1 E rd low n s) (\<lambda>v s. Returns v (s\<lparr>lasttok := NUM\<rparr>)))
      else exp0 E rd low s)"

text \<open>The loop of \<open>exppower\<close> goes round once at most, but for a zero or negative exponent, where it leaves.\<close>

fun exppower :: "'s shell_ops \<Rightarrow> 's reader \<Rightarrow> 's parser \<Rightarrow> nat \<Rightarrow> 's parser"
  and exppower_loop :: "'s shell_ops \<Rightarrow> 's reader \<Rightarrow> 's parser \<Rightarrow> nat \<Rightarrow> intmax \<Rightarrow> 's parser" where
  "exppower E rd low 0 s = leave X_stuck s"
| "exppower E rd low (Suc n) s = then_do (exp1 E rd low (Suc n) s) (exppower_loop E rd low (Suc n))"
| "exppower_loop E rd low 0 val1 s = (if curtok s = POWER then leave X_stuck s else Returns val1 s)"
| "exppower_loop E rd low (Suc n) val1 s =
     (if curtok s = POWER then
        then_do (rd s) (\<lambda>_ s.
        then_do (exppower E rd low n s) (\<lambda>val2 s0.
        let s = s0\<lparr>lasttok := NUM\<rparr> in
        if val2 = 0 then Returns 1 s
        else if sint val2 < 0 then evalerror ''exponent less than 0'' s
        else (case ipow val1 val2 of None \<Rightarrow> leave X_stuck s | Some v \<Rightarrow> exppower_loop E rd low n v s)))
      else Returns val1 s)"

text \<open>The error of a division points behind the operator: \<open>stp\<close> with white space skipped.\<close>

definition muldiv_body ::
  "'s reader \<Rightarrow> 's parser \<Rightarrow> int \<Rightarrow> intmax \<Rightarrow> 's expr_state \<Rightarrow> (intmax, 's) evaluation" where
  "muldiv_body rd operand op val1 s =
     (let stp = tp s in
      then_do (rd s) (\<lambda>_ s.
      then_do (operand s) (\<lambda>val2 s.
      if (op = DIV \<or> op = MOD) \<and> val2 = 0 \<and> noeval s = 0 then
        evalerror ''division by 0''
          (s\<lparr>lasttp := stp + length (takeWhile whitespace (drop stp (expression s)))\<rparr>)
      else if op = MOD \<and> val1 = INTMAX_MIN \<and> val2 = - 1 then Returns 0 s
      else
        let val2 = (if (op = DIV \<or> op = MOD) \<and> val2 = 0 then 1
                    else if op = DIV \<and> val1 = INTMAX_MIN \<and> val2 = - 1 then 1 else val2);
            v = (if op = MUL then val1 * val2
                 else if op = DIV then fst (imaxdiv val1 val2)
                 else snd (imaxdiv val1 val2))
        in Returns v (s\<lparr>lasttok := NUM\<rparr>))))"

definition expmuldiv :: "'s shell_ops \<Rightarrow> 's reader \<Rightarrow> 's parser \<Rightarrow> nat \<Rightarrow> 's parser" where
  "expmuldiv E rd low n s =
     then_do (exppower E rd low n s)
       (op_loop (\<lambda>t. t = MUL \<or> t = DIV \<or> t = MOD) (muldiv_body rd (exppower E rd low n)) n)"

definition exp3 :: "'s shell_ops \<Rightarrow> 's reader \<Rightarrow> 's parser \<Rightarrow> nat \<Rightarrow> 's parser" where
  "exp3 E rd low n s =
     then_do (expmuldiv E rd low n s)
       (op_loop (\<lambda>t. t = PLUS \<or> t = MINUS)
          (bin_body rd (expmuldiv E rd low n) (\<lambda>op a b. if op = PLUS then a + b else a - b)) n)"

definition expshift :: "'s shell_ops \<Rightarrow> 's reader \<Rightarrow> 's parser \<Rightarrow> nat \<Rightarrow> 's parser" where
  "expshift E rd low n s =
     then_do (exp3 E rd low n s)
       (op_loop (\<lambda>t. t = LSH \<or> t = RSH)
          (bin_body rd (exp3 E rd low n) (\<lambda>op a b. if op = LSH then arith_lsh a b else arith_rsh a b)) n)"

definition compare :: "int \<Rightarrow> intmax \<Rightarrow> intmax \<Rightarrow> intmax" where
  "compare op a b =
     truth (if op = LEQ then sint a \<le> sint b
            else if op = GEQ then sint b \<le> sint a
            else if op = LT then sint a < sint b
            else sint b < sint a)"

definition exp4 :: "'s shell_ops \<Rightarrow> 's reader \<Rightarrow> 's parser \<Rightarrow> nat \<Rightarrow> 's parser" where
  "exp4 E rd low n s =
     then_do (expshift E rd low n s)
       (op_loop (\<lambda>t. t = LEQ \<or> t = GEQ \<or> t = LT \<or> t = GT) (bin_body rd (expshift E rd low n) compare) n)"

definition exp5 :: "'s shell_ops \<Rightarrow> 's reader \<Rightarrow> 's parser \<Rightarrow> nat \<Rightarrow> 's parser" where
  "exp5 E rd low n s =
     then_do (exp4 E rd low n s)
       (op_loop (\<lambda>t. t = EQEQ \<or> t = NEQ)
          (bin_body rd (exp4 E rd low n) (\<lambda>op a b. truth (if op = EQEQ then a = b else a \<noteq> b))) n)"

definition expband :: "'s shell_ops \<Rightarrow> 's reader \<Rightarrow> 's parser \<Rightarrow> nat \<Rightarrow> 's parser" where
  "expband E rd low n s =
     then_do (exp5 E rd low n s)
       (op_loop (\<lambda>t. t = BAND) (bin_body rd (exp5 E rd low n) (\<lambda>_ a b. and a b)) n)"

definition expbxor :: "'s shell_ops \<Rightarrow> 's reader \<Rightarrow> 's parser \<Rightarrow> nat \<Rightarrow> 's parser" where
  "expbxor E rd low n s =
     then_do (expband E rd low n s)
       (op_loop (\<lambda>t. t = BXOR) (bin_body rd (expband E rd low n) (\<lambda>_ a b. xor a b)) n)"

definition expbor :: "'s shell_ops \<Rightarrow> 's reader \<Rightarrow> 's parser \<Rightarrow> nat \<Rightarrow> 's parser" where
  "expbor E rd low n s =
     then_do (expbxor E rd low n s)
       (op_loop (\<lambda>t. t = BOR) (bin_body rd (expbxor E rd low n) (\<lambda>_ a b. or a b)) n)"


text \<open>\<open>noeval++\<close> and \<open>noeval--\<close> under \<open>set_noeval\<close>.\<close>

definition raise_noeval :: "bool \<Rightarrow> 's expr_state \<Rightarrow> 's expr_state" where
  "raise_noeval set_noeval s = (if set_noeval then s\<lparr>noeval := noeval s + 1\<rparr> else s)"

definition lower_noeval :: "bool \<Rightarrow> 's expr_state \<Rightarrow> 's expr_state" where
  "lower_noeval set_noeval s = (if set_noeval then s\<lparr>noeval := noeval s - 1\<rparr> else s)"

text \<open>The body of \<open>&&\<close> and \<open>||\<close>: the right operand is read without effects when \<open>skip\<close>.\<close>

definition logic_body ::
  "'s reader \<Rightarrow> 's parser \<Rightarrow> (intmax \<Rightarrow> bool) \<Rightarrow> (bool \<Rightarrow> bool \<Rightarrow> bool) \<Rightarrow> int \<Rightarrow> intmax \<Rightarrow>
   's expr_state \<Rightarrow> (intmax, 's) evaluation" where
  "logic_body rd operand skip f op val1 s =
     then_do (rd (raise_noeval (skip val1) s)) (\<lambda>_ s.
     then_do (operand s) (\<lambda>val2 s0.
     let s = lower_noeval (skip val1) s0 in
     Returns (truth (f (val1 \<noteq> 0) (val2 \<noteq> 0))) (s\<lparr>lasttok := op\<rparr>)))"

definition expland :: "'s shell_ops \<Rightarrow> 's reader \<Rightarrow> 's parser \<Rightarrow> nat \<Rightarrow> 's parser" where
  "expland E rd low n s =
     then_do (expbor E rd low n s)
       (op_loop (\<lambda>t. t = LAND) (logic_body rd (expbor E rd low n) (\<lambda>v. v = 0) (\<and>)) n)"

definition explor :: "'s shell_ops \<Rightarrow> 's reader \<Rightarrow> 's parser \<Rightarrow> nat \<Rightarrow> 's parser" where
  "explor E rd low n s =
     then_do (expland E rd low n s)
       (op_loop (\<lambda>t. t = LOR) (logic_body rd (expland E rd low n) (\<lambda>v. v \<noteq> 0) (\<or>)) n)"

fun expcond :: "'s shell_ops \<Rightarrow> 's reader \<Rightarrow> 's parser \<Rightarrow> nat \<Rightarrow> 's parser" where
  "expcond E rd low 0 s = leave X_stuck s"
| "expcond E rd low (Suc n) s =
     then_do (explor E rd low (Suc n) s) (\<lambda>cval s.
     if curtok s \<noteq> QUES then Returns cval s
     else
       then_do (rd (raise_noeval (cval = 0) s)) (\<lambda>_ s.
       if curtok s = 0 \<or> curtok s = COL then evalerror ''expression expected'' s
       else
         then_do (low s) (\<lambda>val1 s0.
         let s = lower_noeval (cval = 0) s0 in
         if curtok s \<noteq> COL then evalerror ([CHR 0x60, CHR '':'', CHR 0x27] @ '' expected for conditional expression'') s
         else
           then_do (rd (raise_noeval (cval \<noteq> 0) s)) (\<lambda>_ s.
           if curtok s = 0 then evalerror ''expression expected'' s
           else
             then_do (expcond E rd low n s) (\<lambda>val2 s0.
             let s = lower_noeval (cval \<noteq> 0) s0 in
             Returns (if cval \<noteq> 0 then val1 else val2) (s\<lparr>lasttok := COND\<rparr>))))))"

text \<open>\<open>a OP= b\<close>; \<open>None\<close> for an operator that cannot be there.\<close>

definition assign_op :: "int \<Rightarrow> intmax \<Rightarrow> intmax \<Rightarrow> intmax option" where
  "assign_op op lvalue value =
     (if op = MUL then Some (lvalue * value)
      else if op = DIV \<or> op = MOD then
        (if lvalue = INTMAX_MIN \<and> value = - 1 then Some (if op = DIV then INTMAX_MIN else 0)
         else Some (if op = DIV then fst (imaxdiv lvalue value) else snd (imaxdiv lvalue value)))
      else if op = PLUS then Some (lvalue + value)
      else if op = MINUS then Some (lvalue - value)
      else if op = LSH then Some (arith_lsh lvalue value)
      else if op = RSH then Some (arith_rsh lvalue value)
      else if op = BAND then Some (and lvalue value)
      else if op = BOR then Some (or lvalue value)
      else if op = BXOR then Some (xor lvalue value)
      else None)"

fun expassign :: "'s shell_ops \<Rightarrow> 's reader \<Rightarrow> 's parser \<Rightarrow> nat \<Rightarrow> 's parser" where
  "expassign E rd low 0 s = leave X_stuck s"
| "expassign E rd low (Suc n) s =
     then_do (expcond E rd low (Suc n) s) (\<lambda>lvalue s.
     if curtok s \<noteq> EQ \<and> curtok s \<noteq> OP_ASSIGN then Returns lvalue s
     else if lasttok s \<noteq> STR_TOK then evalerror ''attempted assignment to non-variable'' s
     else
       (case tokstr s of
          None \<Rightarrow> evalerror ''syntax error in variable assignment'' s
        | Some (_, lhs) \<Rightarrow>
            let special = (curtok s = OP_ASSIGN); op = assigntok s; lind = lv_ind (curlval s) in
            then_do (rd s) (\<lambda>_ s.
            then_do (expassign E rd low n s) (\<lambda>value s.
            if special \<and> (op = DIV \<or> op = MOD) \<and> value = 0 \<and> noeval s = 0 then evalerror ''division by 0'' s
            else
              let value = (if special \<and> (op = DIV \<or> op = MOD) \<and> value = 0 then 1 else value) in
              (case (if special then assign_op op lvalue value else Some value) of
                 None \<Rightarrow> evalerror ''bug: bad expassign token'' s
               | Some v \<Rightarrow>
                   then_do (store_lvalue E lhs lind v s) (\<lambda>_ s.
                   Returns v ((reset_curlval s)\<lparr>tokstr := None\<rparr>)))))))"

definition expcomma :: "'s shell_ops \<Rightarrow> 's reader \<Rightarrow> 's parser \<Rightarrow> nat \<Rightarrow> 's parser" where
  "expcomma E rd low n s =
     then_do (expassign E rd low n s)
       (op_loop (\<lambda>t. t = COMMA) (\<lambda>_ _ s. then_do (rd s) (\<lambda>_ s. expassign E rd low n s)) n)"

text \<open>The knot: nested expressions with a smaller bound.\<close>

fun EXP_LOWEST :: "'s shell_ops \<Rightarrow> 's reader \<Rightarrow> nat \<Rightarrow> 's parser" where
  "EXP_LOWEST E rd 0 s = leave X_stuck s"
| "EXP_LOWEST E rd (Suc k) s = expcomma E rd (EXP_LOWEST E rd k) (Suc k) s"

section \<open>Expressions\<close>

text \<open>\<open>d\<close> bounds the nesting of evaluations, which \<open>pushexp\<close> limits.\<close>

fun subexpr :: "'s shell_ops \<Rightarrow> nat \<Rightarrow> string \<Rightarrow> 's parser" where
  "subexpr E 0 expr s = leave X_stuck s"
| "subexpr E (Suc d) expr s =
     (if dropWhile cr_whitespace expr = [] then Returns 0 s
      else
        then_do (pushexp s) (\<lambda>_ s.
        let rd = readtok E (subexpr E d) in
        then_do
          (rd (s\<lparr>expression := expr, tp := 0, curtok := 0, lasttok := 0, tokstr := None, tokval := 0,
                 curlval := init_lvalue, lastlval := init_lvalue\<rparr>)) (\<lambda>_ s.
        then_do (EXP_LOWEST E rd (length expr + 2) s) (\<lambda>val s.
        if curtok s \<noteq> 0 then evalerror ''syntax error in expression'' s
        else then_do (popexp s) (\<lambda>_ s. Returns val s)))))"

text \<open>Where \<open>longjmp (evalbuf)\<close> leads to: the value 0 and \<open>*validp = 0\<close>.\<close>

definition caught :: "expr_failure option \<Rightarrow> bool" where
  "caught x = (case x of
       Some (X_evalerror _ _ _) \<Rightarrow> True | Some X_assignment \<Rightarrow> True | Some (X_unbound _) \<Rightarrow> True
     | Some X_unwound \<Rightarrow> True | _ \<Rightarrow> False)"

definition evalexp ::
  "'s shell_ops \<Rightarrow> string \<Rightarrow> bool \<Rightarrow> 's expr_state \<Rightarrow> (intmax \<times> bool, 's expr_state) outcome" where
  "evalexp E expr flags s =
     (case subexpr E (Suc MAX_EXPR_RECURSION_LEVEL) expr (s\<lparr>noeval := 0, already_expanded := flags\<rparr>) of
        Returns val s \<Rightarrow> Returns (val, True) s
      | Leaves s \<Rightarrow>
          if caught (failure s) then
            Returns (0, False) (expr_unwind (s\<lparr>tokstr := None, expression := []\<rparr>))
          else Leaves s)"

end
