(* ===== verification/Bash_ExprRun.thy ===== *)
theory Bash_ExprRun imports Bash_Expr begin

text \<open>
  What every parsing function of \<open>Bash_Expr\<close> keeps: it ends, it leaves the expression and the
  stack of contexts alone, it restores \<open>noeval\<close>, it moves on in the text, and while \<open>noeval\<close> is
  set it does not touch the shell. The theorems about \<open>subexpr\<close> and \<open>evalexp\<close> follow.
\<close>

section \<open>The contract of a step\<close>

text \<open>What is left to read: nothing after the end of the text was met.\<close>

definition rem :: "'s expr_state \<Rightarrow> nat" where
  "rem s = (if curtok s = 0 then 0 else Suc (length (expression s) - tp s))"

definition quiet :: "'s expr_state \<Rightarrow> 's expr_state \<Rightarrow> bool" where
  "quiet s s' \<longleftrightarrow> (0 < noeval s \<longrightarrow> shell s' = shell s)"

definition frame :: "'s expr_state \<Rightarrow> 's expr_state \<Rightarrow> bool" where
  "frame s s' \<longleftrightarrow> expression s' = expression s \<and> expr_stack s' = expr_stack s \<and>
     noeval s' = noeval s \<and> quiet s s'"

text \<open>
  How an evaluation may end early, given the shell at that moment. \<open>X_toplevel\<close> is a jump out of a
  nested expansion; an unbound variable is an error caught by \<open>evalexp\<close> only in an interactive shell
  that was told not to jump; \<open>X_dangling\<close>, going on after a nested evaluation that failed has thrown
  the contexts away, happens only in a shell that is not both.
\<close>

definition proper_end :: "'s shell_ops \<Rightarrow> 's expr_state \<Rightarrow> bool" where
  "proper_end E s \<longleftrightarrow>
     (let jumps_back = sh_no_longjmp E (shell s) \<and> sh_interactive E (shell s)
      in case failure s of
           None \<Rightarrow> False
         | Some (X_evalerror _ _ _) \<Rightarrow> True
         | Some X_assignment \<Rightarrow> True
         | Some (X_unbound _) \<Rightarrow> jumps_back \<and> sh_unbound_is_error E (shell s)
         | Some (X_unbound_toplevel _) \<Rightarrow> \<not> jumps_back \<and> sh_unbound_is_error E (shell s)
         | Some X_toplevel \<Rightarrow> True
         | Some X_unwound \<Rightarrow> jumps_back
         | Some X_dangling \<Rightarrow> \<not> jumps_back \<and> expr_stack s = [] \<and> noeval s = 0
         | Some X_stuck \<Rightarrow> False)"

lemma proper_end_simps [simp]:
  "proper_end E (s\<lparr>failure := Some (X_evalerror a b c)\<rparr>)" "proper_end E (s\<lparr>failure := Some X_assignment\<rparr>)"
  "proper_end E (s\<lparr>failure := Some X_toplevel\<rparr>)"
  by (simp_all add: proper_end_def)

definition ends :: "'s shell_ops \<Rightarrow> 's expr_state \<Rightarrow> nat \<Rightarrow> ('v, 's) evaluation \<Rightarrow> bool" where
  "ends E s r m \<longleftrightarrow>
     (case m of Returns v s' \<Rightarrow> frame s s' \<and> rem s' \<le> r
      | Leaves s' \<Rightarrow> proper_end E s' \<and> quiet s s')"

text \<open>\<open>good k\<close>: an evaluation is under way at depth \<open>k\<close>.\<close>

definition good :: "nat \<Rightarrow> 's expr_state \<Rightarrow> bool" where
  "good k s \<longleftrightarrow> 0 \<le> noeval s \<and> length (expr_stack s) = k"

definition reads :: "'s shell_ops \<Rightarrow> nat \<Rightarrow> 's reader \<Rightarrow> bool" where
  "reads E k rd \<longleftrightarrow> (\<forall>s. good k s \<longrightarrow> ends E s (length (expression s) - tp s) (rd s))"

definition parses :: "'s shell_ops \<Rightarrow> nat \<Rightarrow> nat \<Rightarrow> 's parser \<Rightarrow> bool" where
  "parses E k n f \<longleftrightarrow> (\<forall>s. good k s \<and> rem s < n \<longrightarrow> ends E s (rem s) (f s))"

lemma quiet_trans: "frame s s1 \<Longrightarrow> quiet s1 s' \<Longrightarrow> quiet s s'"
  by (simp add: quiet_def frame_def)

lemma frame_refl [simp]: "frame s s" "quiet s s"
  by (simp_all add: frame_def quiet_def)

lemma frame_quiet: "frame s s' \<Longrightarrow> quiet s s'"
  by (simp add: frame_def)

lemma frame_trans [trans]: "frame s s1 \<Longrightarrow> frame s1 s' \<Longrightarrow> frame s s'"
  by (simp add: frame_def quiet_def)

lemma frame_good: "frame s s' \<Longrightarrow> good k s \<Longrightarrow> good k s'"
  by (simp add: frame_def good_def)

lemma ends_Returns [simp]: "ends E s r (Returns v s') \<longleftrightarrow> frame s s' \<and> rem s' \<le> r"
  by (simp add: ends_def)

lemma ends_Leaves [simp]: "ends E s r (Leaves s') \<longleftrightarrow> proper_end E s' \<and> quiet s s'"
  by (simp add: ends_def)

lemma ends_leave [simp]:
  "ends E s r (leave x s') \<longleftrightarrow> proper_end E (s'\<lparr>failure := Some x\<rparr>) \<and> quiet s s'"
  by (simp add: leave_def quiet_def)

lemma ends_evalerror [simp]: "ends E s r (evalerror msg s') \<longleftrightarrow> quiet s s'"
  by (simp add: evalerror_def)

lemma ends_bind:
  assumes "ends E s r m" and "\<And>v s'. frame s s' \<Longrightarrow> rem s' \<le> r \<Longrightarrow> ends E s r' (f v s')"
  shows "ends E s r' (then_do m f)"
  using assms by (cases m) auto

text \<open>From a state reached to the state started in.\<close>

lemma ends_from:
  assumes "frame s s1" and "ends E s1 r m" and "r \<le> r'"
  shows "ends E s r' m"
  using assms by (cases m) (auto intro: frame_trans quiet_trans)

lemma ends_read:
  assumes "reads E k rd" "good k s" "frame s s1" "curtok s1 \<noteq> 0"
    and "\<And>v s'. frame s s' \<Longrightarrow> good k s' \<Longrightarrow> rem s' < rem s1 \<Longrightarrow> ends E s r (f v s')"
  shows "ends E s r (then_do (rd s1) f)"
proof (rule ends_bind)
  have "good k s1" using assms(2,3) by (rule frame_good [rotated])
  with assms(1) have "ends E s1 (length (expression s1) - tp s1) (rd s1)" by (simp add: reads_def)
  then show "ends E s (length (expression s1) - tp s1) (rd s1)" by (rule ends_from [OF assms(3)]) simp
  fix v :: unit and s'
  assume "frame s s'" "rem s' \<le> length (expression s1) - tp s1"
  with assms(4) show "ends E s r (f v s')"
    by (intro assms(5) frame_good [OF _ assms(2)]) (auto simp: rem_def)
qed

lemma ends_parse:
  assumes "parses E k n p" "good k s" "frame s s1" "rem s1 < n"
    and "\<And>v s'. frame s s' \<Longrightarrow> good k s' \<Longrightarrow> rem s' \<le> rem s1 \<Longrightarrow> ends E s r' (f v s')"
  shows "ends E s r' (then_do (p s1) f)"
proof (rule ends_bind)
  have g: "good k s1" using assms(2,3) by (rule frame_good [rotated])
  with assms(1,4) have "ends E s1 (rem s1) (p s1)" by (simp add: parses_def)
  then show "ends E s (rem s1) (p s1)" by (rule ends_from [OF assms(3)]) simp
  fix v s'
  assume "frame s s'" "rem s' \<le> rem s1"
  then show "ends E s r' (f v s')" by (intro assms(5) frame_good [OF _ assms(2)])
qed

text \<open>Updates of the fields no contract speaks of.\<close>

lemma frame_simps [simp]:
  "frame s (s'\<lparr>lasttok := a\<rparr>) = frame s s'" "frame s (s'\<lparr>curtok := a\<rparr>) = frame s s'"
  "frame s (s'\<lparr>tokstr := t\<rparr>) = frame s s'" "frame s (s'\<lparr>curlval := l\<rparr>) = frame s s'"
  "frame s (s'\<lparr>lastlval := l\<rparr>) = frame s s'" "frame s (s'\<lparr>tokval := v\<rparr>) = frame s s'"
  "frame s (s'\<lparr>tp := p\<rparr>) = frame s s'" "frame s (s'\<lparr>lasttp := p\<rparr>) = frame s s'"
  "frame s (s'\<lparr>assigntok := a\<rparr>) = frame s s'" "frame s (s'\<lparr>next_block := b\<rparr>) = frame s s'"
  "frame s (s'\<lparr>already_expanded := e\<rparr>) = frame s s'"
  by (simp_all add: frame_def quiet_def)

lemma rem_simps [simp]:
  "rem (s\<lparr>lasttok := a\<rparr>) = rem s" "rem (s\<lparr>tokstr := t\<rparr>) = rem s" "rem (s\<lparr>curlval := l\<rparr>) = rem s"
  "rem (s\<lparr>noeval := n\<rparr>) = rem s" "rem (s\<lparr>lasttp := p\<rparr>) = rem s" "rem (s\<lparr>shell := sh\<rparr>) = rem s"
  by (simp_all add: rem_def)

section \<open>The token reader\<close>

text \<open>What the reader relies on where it evaluates the value of a variable.\<close>

definition same_context :: "'s expr_state \<Rightarrow> 's expr_state \<Rightarrow> bool" where
  "same_context s s' \<longleftrightarrow> SAVETOK s' = SAVETOK s \<and> expr_stack s' = expr_stack s"

definition evaluates :: "'s shell_ops \<Rightarrow> nat \<Rightarrow> (string \<Rightarrow> 's parser) \<Rightarrow> bool" where
  "evaluates E k sub \<longleftrightarrow>
     (\<forall>v s. length (expr_stack s) = k \<and> noeval s = 0 \<longrightarrow>
        (case sub v s of Returns x s' \<Rightarrow> same_context s s' | Leaves s' \<Rightarrow> proper_end E s'))"

lemma evaluates_at:
  assumes "evaluates E k sub" "good k s" "noeval s = 0" and "expr_stack s1 = expr_stack s" "SAVETOK s1 = SAVETOK s"
  shows "case sub v s1 of
      Returns x s' \<Rightarrow> frame s s' \<and> curtok s' = curtok s \<and> tp s' = tp s
    | Leaves s' \<Rightarrow> proper_end E s'"
proof -
  have "noeval s1 = 0" using assms(3,5) by (simp add: SAVETOK_def)
  then have *: "case sub v s1 of Returns x s' \<Rightarrow> same_context s1 s' | Leaves s' \<Rightarrow> proper_end E s'"
    using assms(1,2,4) by (simp add: evaluates_def good_def)
  show ?thesis
  proof (cases "sub v s1")
    case (Returns x s')
    with * assms show ?thesis by (simp add: same_context_def SAVETOK_def frame_def quiet_def)
  next
    case (Leaves s')
    with * show ?thesis by simp
  qed
qed

lemma streval_ends:
  assumes "evaluates E k sub" "good k s"
  shows "case expr_streval E sub isref s of
      Returns v s' \<Rightarrow> frame s s' \<and> curtok s' = curtok s \<and> tp s' = tp s
    | Leaves s' \<Rightarrow> proper_end E s' \<and> quiet s s'"
proof (cases "noeval s = 0")
  case False
  then show ?thesis by (simp add: expr_streval_def)
next
  case True
  then have q: "quiet s s'" for s' by (simp add: quiet_def)
  have f: "frame s (s\<lparr>shell := sh\<rparr>)" for sh using True by (simp add: frame_def quiet_def)
  obtain found sh where fnd: "sh_find E isref (already_expanded s) (block_text (tokstr s)) (shell s) = (found, sh)"
    by fastforce
  show ?thesis
  proof (cases "\<not> found \<and> sh_unbound_is_error E sh")
    case err: True
    then show ?thesis using True fnd q by (auto simp: expr_streval_def Let_def leave_def proper_end_def expr_unwind_def)
  next
    case False
    obtain el sh2 where val: "sh_value E isref (already_expanded s) (block_text (tokstr s)) sh = (el, sh2)" by fastforce
    show ?thesis
    proof (cases el)
      case (Element x ind exp)
      let ?s = "s\<lparr>shell := sh2, already_expanded := exp\<rparr>"
      define m where "m = (case x of None \<Rightarrow> Returns 0 ?s | Some v \<Rightarrow> if v = [] then Returns 0 ?s else sub v ?s)"
      have "frame s ?s" using f [of sh2] by simp
      moreover have "SAVETOK ?s = SAVETOK s" by (simp add: SAVETOK_def)
      ultimately have "case m of
          Returns y s' \<Rightarrow> frame s s' \<and> curtok s' = curtok s \<and> tp s' = tp s
        | Leaves s' \<Rightarrow> proper_end E s'"
        using evaluates_at [OF assms True, of ?s] unfolding m_def by (simp split: option.split)
      moreover have "expr_streval E sub isref s = then_do m (\<lambda>tval s. Returns tval
          (s\<lparr>curlval := \<lparr>lv_tokstr = tokstr s, lv_tokval = tval, lv_ind = ind\<rparr>\<rparr>))"
        using True fnd val False Element by (cases x) (auto simp: expr_streval_def Let_def m_def)
      ultimately show ?thesis using q by (cases m) simp_all
    next
      case Unwound
      with True fnd val False q show ?thesis by (auto simp: expr_streval_def Let_def leave_def proper_end_def expr_unwind_def)
    next
      case Jumped
      with True fnd val False q show ?thesis by (auto simp: expr_streval_def Let_def leave_def proper_end_def expr_unwind_def)
    qed
  qed
qed


lemma lex_operator_pos: "lex_operator cur prev t = Operator tok a n \<Longrightarrow> 0 < n"
  by (auto simp: lex_operator_def Let_def split: if_splits)

lemma minus_step: "p < m \<Longrightarrow> 0 < n \<Longrightarrow> t \<le> p \<Longrightarrow> Suc (m - (p + n)) \<le> m - t" for m :: nat
  by linarith

lemma read_operator_ends:
  assumes "tp s < length (expression s)" "t0 \<le> tp s"
  shows "ends E s (length (expression s) - t0) (read_operator s)"
proof (cases "lex_operator (curtok s) (lasttok s) (drop (tp s) (expression s))")
  case (Operator tok a n)
  with lex_operator_pos [OF this] assms show ?thesis
    by (simp add: read_operator_def rem_def minus_step)
qed (simp add: read_operator_def)

lemma read_number_ends:
  assumes "tp s < length (expression s)" "t0 \<le> tp s" "DIGIT (byte_at (expression s) (tp s))"
  shows "ends E s (length (expression s) - t0) (read_number s)"
proof -
  obtain c u where d: "drop (tp s) (expression s) = c # u" "byte_at (expression s) (tp s) = c"
    using assms(1) by (auto simp: Cons_nth_drop_Suc [symmetric] byte_at_def)
  with assms(3) have "number_char c" by (simp add: number_char_def ISALNUM_def)
  with d have n: "0 < length (takeWhile number_char (drop (tp s) (expression s)))" by simp
  show ?thesis
  proof (cases "strlong (takeWhile number_char (drop (tp s) (expression s)))")
    case (Inr v)
    with minus_step [OF assms(1) n assms(2)] show ?thesis by (simp add: read_number_def Let_def rem_def)
  next
    case (Inl msg)
    then show ?thesis by (simp add: read_number_def Let_def quiet_def)
  qed
qed

lemma set_name_frame [simp]:
  "frame s (set_name n s') = frame s s'" "noeval (set_name n s) = noeval s" "expr_stack (set_name n s) = expr_stack s"
  "shell (set_name n s) = shell s"
  by (auto simp: set_name_def reset_curlval_def)

lemma readtok_ends: "evaluates E k sub \<Longrightarrow> good k s \<Longrightarrow> ends E s (length (expression s) - tp s) (readtok E sub s)"
proof (induction E sub s rule: readtok.induct)
  case (1 E sub s)
  define cp where "cp = skip_space s"
  have cp: "tp s \<le> cp" by (simp add: cp_def skip_space_ge)
  let ?s1 = "s\<lparr>tp := cp, lasttp := cp\<rparr>"
  show ?case
  proof (cases "length (expression s) \<le> cp")
    case True
    then show ?thesis by (simp add: readtok.simps [of E sub s] cp_def [symmetric] rem_def)
  next
    case inside: False
    show ?thesis
    proof (cases "legal_variable_starter (byte_at (expression s) cp)")
      case False
      then have "readtok E sub s = (if DIGIT (byte_at (expression s) cp) then read_number ?s1 else read_operator ?s1)"
        using inside by (simp add: readtok.simps [of E sub s] cp_def [symmetric] Let_def)
      then show ?thesis
        using read_operator_ends [of ?s1 "tp s" E] read_number_ends [of ?s1 "tp s" E] inside cp
        by (auto intro: ends_from [of s ?s1])
    next
      case name: True
      show ?thesis
      proof (cases "name_end E ?s1")
        case None
        then show ?thesis using inside name by (simp add: readtok.simps [of E sub s] cp_def [symmetric] Let_def quiet_def)
      next
        case (Some x)
        obtain n isref where x: "x = (n, isref)" by (cases x)
        define s2 where "s2 = set_name n ?s1"
        define sp where "sp = s2\<lparr>tokstr := None, tp := cp + n, noeval := 1, curtok := STR_TOK\<rparr>"
        have eq: "readtok E sub s = then_do (readtok E sub sp)
            (\<lambda>_ s3. read_name_value E sub (cp + n) isref (curtok s3) (RESTORETOK (SAVETOK s2) s3))"
          using inside name Some x
          by (simp add: readtok.simps [of E sub s] cp_def [symmetric] s2_def sp_def Let_def)
        have "good k sp" using "1.prems"(2) by (simp add: good_def sp_def s2_def)
        then have IH: "ends E sp (length (expression sp) - tp sp) (readtok E sub sp)"
          using inside name Some x "1.prems"
          by (intro "1.IH" [of cp "byte_at (expression s) cp" ?s1 x n isref s2 "SAVETOK s2", folded sp_def])
             (simp_all add: cp_def s2_def)
        have adv: "length (expression s) - (cp + n) < length (expression s) - tp s"
          using inside name Some x [symmetric] unfolding cp_def by (rule name_advance)
        show ?thesis
        proof (cases "readtok E sub sp")
          case (Leaves s3)
          with IH eq show ?thesis by (simp add: quiet_def sp_def s2_def)
        next
          case (Returns u s3)
          define sr where "sr = RESTORETOK (SAVETOK s2) s3"
          have fr: "frame s sr"
            using IH Returns by (simp add: frame_def quiet_def sr_def sp_def s2_def RESTORETOK_def SAVETOK_def)
          then have g: "good k sr" by (rule frame_good) (rule "1.prems"(2))
          have e: "expression sr = expression s" using fr by (simp add: frame_def)
          define m where "m = (if lasttok sr = PREINC \<or> lasttok sr = PREDEC \<or> curtok s3 \<noteq> EQ
            then expr_streval E sub isref (sr\<lparr>lastlval := curlval sr\<rparr>) else Returns 0 sr)"
          have "good k (sr\<lparr>lastlval := curlval sr\<rparr>)" using g by (simp add: good_def)
          note st = streval_ends [OF "1.prems"(1) this, of isref]
          have m: "case m of Returns v s' \<Rightarrow> frame sr s' | Leaves s' \<Rightarrow> proper_end E s' \<and> quiet sr s'"
          proof (cases "expr_streval E sub isref (sr\<lparr>lastlval := curlval sr\<rparr>)")
            case (Returns v s')
            with st show ?thesis by (simp add: m_def frame_def quiet_def)
          next
            case (Leaves s')
            with st show ?thesis by (simp add: m_def quiet_def)
          qed
          have eq': "readtok E sub s = then_do m (\<lambda>v s. Returns () (s\<lparr>tokval := v, lasttok := curtok s, curtok := STR_TOK, tp := cp + n\<rparr>))"
            using eq Returns by (simp add: read_name_value_def sr_def [symmetric] m_def)
          then show ?thesis
          proof (cases m)
            case (Leaves s')
            with m eq' fr show ?thesis by (auto intro: quiet_trans)
          next
            case (Returns v s')
            with m have "frame s s'" using fr by (auto intro: frame_trans)
            moreover from this have "expression s' = expression s" by (simp add: frame_def)
            ultimately show ?thesis using Returns eq' adv by (simp add: rem_def)
          qed
        qed
      qed
    qed
  qed
qed

lemma readtok_reads: "evaluates E k sub \<Longrightarrow> reads E k (readtok E sub)"
  by (simp add: reads_def readtok_ends)


section \<open>The parsing functions\<close>

lemma store_lvalue_cases:
  obtains sh where "store_lvalue E lhs ind v s = Returns () (s\<lparr>shell := sh\<rparr>)" "noeval s \<noteq> 0 \<Longrightarrow> sh = shell s"
  | sh where "store_lvalue E lhs ind v s = leave X_assignment (s\<lparr>shell := sh\<rparr>)" "noeval s = 0"
proof (cases "noeval s = 0")
  case False
  then show thesis using that(1) [of "shell s"] by (simp add: store_lvalue_def)
next
  case True
  have "(\<exists>sh. expr_bind_variable E l r s = Returns () (s\<lparr>shell := sh\<rparr>)) \<or>
      (\<exists>sh. expr_bind_variable E l r s = leave X_assignment (s\<lparr>shell := sh\<rparr>))" for l r
  proof (cases "l = []")
    case True
    then have "expr_bind_variable E l r s = Returns () (s\<lparr>shell := shell s\<rparr>)" by (simp add: expr_bind_variable_def)
    then show ?thesis by blast
  next
    case False
    obtain b sh where "sh_bind E (already_expanded s) l r (shell s) = (b, sh)" by fastforce
    with False show ?thesis by (cases b) (auto simp: expr_bind_variable_def)
  qed
  then show thesis using True that unfolding store_lvalue_def expr_bind_array_element_def by (simp only: if_True refl) metis
qed

lemma ends_store:
  assumes "frame s s1" and "\<And>sh. frame s (s1\<lparr>shell := sh\<rparr>) \<Longrightarrow> ends E s r (f () (s1\<lparr>shell := sh\<rparr>))"
  shows "ends E s r (then_do (store_lvalue E lhs ind v s1) f)"
proof (cases rule: store_lvalue_cases [of E lhs ind v s1])
  case (1 sh)
  have "frame s (s1\<lparr>shell := sh\<rparr>)" using assms(1) 1(2) by (cases "noeval s1 = 0") (auto simp: frame_def quiet_def)
  with 1(1) assms(2) show ?thesis by simp
next
  case (2 sh)
  with assms(1) show ?thesis by (simp add: leave_def frame_def quiet_def)
qed

lemma rem_nonzero: "rem s' < rem s \<Longrightarrow> curtok s \<noteq> 0"
  by (auto simp: rem_def)

lemma rem_curtok: "curtok s \<noteq> 0 \<Longrightarrow> t \<noteq> 0 \<Longrightarrow> rem (s\<lparr>curtok := t\<rparr>) = rem s"
  by (simp add: rem_def)

lemma tok_nonzero [simp]:
  "NUM \<noteq> 0" "STR_TOK \<noteq> 0" "PREINC \<noteq> 0" "PREDEC \<noteq> 0" "POSTINC \<noteq> 0" "POSTDEC \<noteq> 0" "LPAR \<noteq> 0" "RPAR \<noteq> 0"
  "NOT_TOK \<noteq> 0" "BNOT \<noteq> 0" "MINUS \<noteq> 0" "PLUS \<noteq> 0" "POWER \<noteq> 0" "MUL \<noteq> 0" "DIV \<noteq> 0" "MOD \<noteq> 0"
  "LSH \<noteq> 0" "RSH \<noteq> 0" "LEQ \<noteq> 0" "GEQ \<noteq> 0" "LT \<noteq> 0" "GT \<noteq> 0" "EQEQ \<noteq> 0" "NEQ \<noteq> 0" "BAND \<noteq> 0" "BXOR \<noteq> 0"
  "BOR \<noteq> 0" "LAND \<noteq> 0" "LOR \<noteq> 0" "QUES \<noteq> 0" "COL \<noteq> 0" "EQ \<noteq> 0" "OP_ASSIGN \<noteq> 0" "COMMA \<noteq> 0" "COND \<noteq> 0"
  by (simp_all add: tok_defs)

text \<open>Reading ahead without effects.\<close>

lemma ends_peek:
  assumes "reads E k rd" "good k s" "curtok s \<noteq> 0"
    and "\<And>v s'. expression s' = expression s \<Longrightarrow> expr_stack s' = expr_stack s \<Longrightarrow> shell s' = shell s \<Longrightarrow>
           rem s' < rem s \<Longrightarrow> ends E s r (f v s')"
  shows "ends E s r (then_do (rd (s\<lparr>tokstr := None, noeval := 1\<rparr>)) f)"
proof -
  let ?s = "s\<lparr>tokstr := None, noeval := 1\<rparr>"
  have "good k ?s" using assms(2) by (simp add: good_def)
  with assms(1) have e: "ends E ?s (length (expression ?s) - tp ?s) (rd ?s)" unfolding reads_def by blast
  show ?thesis
  proof (cases "rd ?s")
    case (Leaves s')
    with e show ?thesis by (simp add: quiet_def)
  next
    case (Returns v s')
    with e assms(3) show ?thesis by (auto simp: frame_def quiet_def rem_def intro!: assms(4) split: if_splits)
  qed
qed

lemma str_tok [simp]: "STR_TOK \<noteq> PREINC" "STR_TOK \<noteq> PREDEC" "STR_TOK \<noteq> LPAR" "STR_TOK \<noteq> NUM"
  by (simp_all add: tok_defs)

lemma curtok_RESTORETOK [simp]: "curtok (RESTORETOK (SAVETOK s) s') = curtok s"
  by (simp add: RESTORETOK_def SAVETOK_def)

lemma exp0_parses:
  assumes rd: "reads E k rd" and low: "parses E k n low"
  shows "parses E k (Suc n) (exp0 E rd low)"
  unfolding parses_def
proof (intro allI impI, elim conjE)
  fix s :: "'a expr_state"
  assume g: "good k s" and n: "rem s < Suc n"
  consider "curtok s = PREINC \<or> curtok s = PREDEC" | "curtok s = LPAR" | "curtok s = NUM" | "curtok s = STR_TOK"
    | "curtok s \<notin> {PREINC, PREDEC, LPAR, NUM, STR_TOK}" by blast
  then show "ends E s (rem s) (exp0 E rd low s)"
  proof cases
    case 1
    then show ?thesis unfolding exp0_def Let_def bind_lvalue_def
      by (auto intro!: ends_read [OF rd g] ends_store simp: rem_curtok frame_quiet)
  next
    case 2
    then show ?thesis unfolding exp0_def Let_def using n
      by (auto intro!: ends_read [OF rd g] ends_parse [OF low g] simp: frame_quiet tok_defs)
  next
    case 3
    then show ?thesis unfolding exp0_def Let_def
      by (auto intro!: ends_read [OF rd g] simp: tok_defs)
  next
    case 4
    then have c: "curtok s \<noteq> 0" by simp
    have fr: "frame s (RESTORETOK (SAVETOK s) s')" "rem (RESTORETOK (SAVETOK s) s') = rem s"
      if "expression s' = expression s" "expr_stack s' = expr_stack s" "shell s' = shell s" for s'
      using that by (simp_all add: RESTORETOK_def SAVETOK_def frame_def quiet_def rem_def)
    have fp: "frame s (s'\<lparr>tokstr := c_tokstr (SAVETOK s), noeval := c_noeval (SAVETOK s), curlval := l, lasttok := STR_TOK\<rparr>)"
      if "expression s' = expression s" "expr_stack s' = expr_stack s" "shell s' = shell s" for s' l
      using that by (simp add: SAVETOK_def frame_def quiet_def)
    from 4 show ?thesis unfolding exp0_def Let_def bind_lvalue_def
      by (simp, intro ends_peek [OF rd g c])
        (auto intro!: ends_store ends_read [OF rd g] fr fp simp: then_do_assoc fr rem_curtok)
  next
    case 5
    then show ?thesis by (auto simp: exp0_def)
  qed
qed


text \<open>The loops.\<close>

definition steps :: "'s shell_ops \<Rightarrow> nat \<Rightarrow> nat \<Rightarrow> (int \<Rightarrow> bool) \<Rightarrow> (int \<Rightarrow> intmax \<Rightarrow> 's parser) \<Rightarrow> bool" where
  "steps E k n is_op body \<longleftrightarrow> \<not> is_op 0 \<and>
     (\<forall>v s. good k s \<and> rem s < n \<and> is_op (curtok s) \<longrightarrow> ends E s (rem s - 1) (body (curtok s) v s))"

lemma op_loop_ends:
  assumes st: "steps E k n is_op body"
  shows "good k s \<Longrightarrow> rem s < m \<Longrightarrow> m \<le> n \<Longrightarrow> ends E s (rem s) (op_loop is_op body m v s)"
proof (induction m arbitrary: v s)
  case (Suc m)
  show ?case
  proof (cases "is_op (curtok s)")
    case True
    with st have "0 < rem s" by (cases "curtok s = 0") (auto simp: steps_def rem_def)
    from st Suc.prems True have "ends E s (rem s - 1) (body (curtok s) v s)" by (simp add: steps_def)
    then have "ends E s (rem s) (then_do (body (curtok s) v s) (op_loop is_op body m))"
    proof (rule ends_bind)
      fix v' s'
      assume s': "frame s s'" "rem s' \<le> rem s - 1"
      with Suc.prems \<open>0 < rem s\<close> have "ends E s' (rem s') (op_loop is_op body m v' s')"
        by (intro Suc.IH) (auto intro: frame_good)
      then show "ends E s (rem s) (op_loop is_op body m v' s')" by (rule ends_from [OF s'(1)]) (use s' in simp)
    qed
    with True show ?thesis by simp
  qed simp
qed simp

lemma level_parses:
  assumes "parses E k n p" "steps E k n is_op body"
  shows "parses E k n (\<lambda>s. then_do (p s) (op_loop is_op body n))"
  unfolding parses_def
proof (intro allI impI, elim conjE)
  fix s :: "'a expr_state"
  assume s: "good k s" "rem s < n"
  with assms(1) have "ends E s (rem s) (p s)" by (simp add: parses_def)
  then show "ends E s (rem s) (then_do (p s) (op_loop is_op body n))"
  proof (rule ends_bind)
    fix v s'
    assume s': "frame s s'" "rem s' \<le> rem s"
    with s have "ends E s' (rem s') (op_loop is_op body n v s')"
      by (intro op_loop_ends [OF assms(2)]) (auto intro: frame_good)
    then show "ends E s (rem s) (op_loop is_op body n v s')" by (rule ends_from [OF s'(1)]) (rule s'(2))
  qed
qed

lemma bin_body_steps:
  assumes "reads E k rd" "parses E k n p" "\<not> is_op 0"
  shows "steps E k n is_op (bin_body rd p f)"
  unfolding steps_def
proof (intro conjI allI impI, rule assms(3), elim conjE)
  fix v and s :: "'a expr_state"
  assume s: "good k s" "rem s < n" "is_op (curtok s)"
  then have "curtok s \<noteq> 0" using assms(3) by auto
  with s show "ends E s (rem s - 1) (bin_body rd p f (curtok s) v s)"
    unfolding bin_body_def
    by (auto intro!: ends_read [OF assms(1) s(1)] ends_parse [OF assms(2) s(1)])
qed

lemma bin_level_parses:
  assumes "reads E k rd" "parses E k n p" "\<not> is_op 0"
  shows "parses E k n (\<lambda>s. then_do (p s) (op_loop is_op (bin_body rd p f) n))"
  by (intro level_parses bin_body_steps assms)

lemma muldiv_body_steps:
  assumes "reads E k rd" "parses E k n p" "\<not> is_op 0"
  shows "steps E k n is_op (muldiv_body rd p)"
  unfolding steps_def
proof (intro conjI allI impI, rule assms(3), elim conjE)
  fix v and s :: "'a expr_state"
  assume s: "good k s" "rem s < n" "is_op (curtok s)"
  then have "curtok s \<noteq> 0" using assms(3) by auto
  with s show "ends E s (rem s - 1) (muldiv_body rd p (curtok s) v s)"
    unfolding muldiv_body_def Let_def
    by (intro ends_read [OF assms(1) s(1)] ends_parse [OF assms(2) s(1)]) (auto simp: frame_quiet quiet_def frame_def)
qed

text \<open>Reading an operand with \<open>noeval\<close> raised, and lowering it again.\<close>

lemma then_do_leave [simp]: "then_do (leave x s) f = leave x s"
  by (simp add: leave_def)

lemma then_do_evalerror [simp]: "then_do (evalerror m s) f = evalerror m s"
  by (simp add: evalerror_def)

lemma then_do_if_error:
  "then_do (if c then evalerror e s else m) f = (if c then evalerror e s else then_do m f)"
  by simp

lemma lower_simps [simp]: "rem (lower_noeval b s) = rem s" "curtok (lower_noeval b s) = curtok s"
  by (simp_all add: lower_noeval_def)

lemma ends_raised:
  assumes "ends E (raise_noeval b s1) r m" "good k s" "frame s s1"
    and "\<And>v s'. frame s (lower_noeval b s') \<Longrightarrow> rem s' \<le> r \<Longrightarrow> ends E s r' (f v s')"
  shows "ends E s r' (then_do m f)"
proof (cases m)
  case (Returns v s')
  with assms(1) have "frame (raise_noeval b s1) s'" "rem s' \<le> r" by auto
  with assms(2,3) have "frame s (lower_noeval b s')"
    by (auto simp: frame_def quiet_def raise_noeval_def lower_noeval_def good_def)
  with assms(4) Returns \<open>rem s' \<le> r\<close> show ?thesis by simp
next
  case (Leaves s')
  with assms(1-3) show ?thesis by (auto simp: frame_def quiet_def raise_noeval_def good_def split: if_splits)
qed

lemma ends_guarded:
  assumes rd: "reads E k rd" and p: "parses E k n p" and g: "good k s" "frame s s1" "curtok s1 \<noteq> 0" "rem s1 \<le> n"
    and f: "\<And>v s'. frame s s' \<Longrightarrow> good k s' \<Longrightarrow> rem s' < rem s1 \<Longrightarrow> ends E s r (f v s')"
  shows "ends E s r (then_do (rd (raise_noeval b s1)) (\<lambda>_ s.
     if c s then evalerror e s else then_do (p s) (\<lambda>v s0. let s = lower_noeval b s0 in f v s)))"
proof -
  have g1: "good k (raise_noeval b s1)"
    using frame_good [OF g(2,1)] by (auto simp: raise_noeval_def good_def)
  have "0 < rem s1" using g(3) by (simp add: rem_def)
  have "ends E (raise_noeval b s1) (rem s1 - 1) (then_do (rd (raise_noeval b s1))
      (\<lambda>_ s. if c s then evalerror e s else p s))"
  proof (rule ends_read [OF rd g1])
    show "curtok (raise_noeval b s1) \<noteq> 0" using g(3) by (simp add: raise_noeval_def)
    fix v :: unit and s'
    assume s': "frame (raise_noeval b s1) s'" "good k s'" "rem s' < rem (raise_noeval b s1)"
    then have less: "rem s' < rem s1" by (simp add: raise_noeval_def split: if_splits)
    with p g(4) s'(2) have "ends E s' (rem s') (p s')" by (simp add: parses_def)
    then have "ends E (raise_noeval b s1) (rem s1 - 1) (p s')" by (rule ends_from [OF s'(1)]) (use less in simp)
    then show "ends E (raise_noeval b s1) (rem s1 - 1) (if c s' then evalerror e s' else p s')"
      using s'(1) by (simp add: frame_quiet)
  qed simp
  then have "ends E s r (then_do (then_do (rd (raise_noeval b s1)) (\<lambda>_ s. if c s then evalerror e s else p s))
      (\<lambda>v s0. let s = lower_noeval b s0 in f v s))"
    by (rule ends_raised [OF _ g(1,2)])
      (use f \<open>0 < rem s1\<close> frame_good [OF _ g(1)] in \<open>simp add: Let_def\<close>)
  then show ?thesis by (simp only: then_do_assoc then_do_if_error)
qed

lemma logic_body_steps:
  assumes "reads E k rd" "parses E k n p" "\<not> is_op 0"
  shows "steps E k n is_op (logic_body rd p skip f)"
  unfolding steps_def
proof (intro conjI allI impI, rule assms(3), elim conjE)
  fix v and s :: "'a expr_state"
  assume s: "good k s" "rem s < n" "is_op (curtok s)"
  then have "curtok s \<noteq> 0" using assms(3) by auto
  then have "ends E s (rem s - 1) (then_do (rd (raise_noeval (skip v) s)) (\<lambda>_ s1.
     if False then evalerror [] s1 else then_do (p s1) (\<lambda>val2 s0. let s1 = lower_noeval (skip v) s0 in
     Returns (truth (f (v \<noteq> 0) (val2 \<noteq> 0))) (s1\<lparr>lasttok := curtok s\<rparr>))))"
    using s by (intro ends_guarded [OF assms(1,2) s(1)]) auto
  then show "ends E s (rem s - 1) (logic_body rd p skip f (curtok s) v s)"
    unfolding logic_body_def by simp
qed

text \<open>The functions that call themselves.\<close>

lemma parses_0 [simp]: "parses E k 0 f"
  by (simp add: parses_def)

lemma parses_mono: "parses E k n f \<Longrightarrow> m \<le> n \<Longrightarrow> parses E k m f"
  by (simp add: parses_def)

lemma parsesI: "(\<And>s. good k s \<Longrightarrow> rem s < n \<Longrightarrow> ends E s (rem s) (f s)) \<Longrightarrow> parses E k n f"
  by (simp add: parses_def)

lemma parsesD: "parses E k n f \<Longrightarrow> good k s \<Longrightarrow> rem s < n \<Longrightarrow> ends E s (rem s) (f s)"
  by (simp add: parses_def)

lemma good_lasttok [simp]: "good k (s\<lparr>lasttok := t\<rparr>) = good k s"
  by (simp add: good_def)

lemma exp1_parses:
  assumes rd: "reads E k rd" and low: "parses E k n low"
  shows "m \<le> Suc n \<Longrightarrow> parses E k m (exp1 E rd low m)"
proof (induction m)
  case (Suc m)
  then have IH: "parses E k m (exp1 E rd low m)" by simp
  show ?case
  proof (rule parsesI)
    fix s :: "'a expr_state"
    assume s: "good k s" "rem s < Suc m"
    have 0: "parses E k (Suc m) (exp0 E rd low)" using exp0_parses [OF rd low] Suc.prems by (rule parses_mono)
    show "ends E s (rem s) (exp1 E rd low (Suc m) s)"
    proof (cases "curtok s \<in> {NOT_TOK, BNOT, MINUS, PLUS}")
      case True
      with s show ?thesis
        by (auto intro!: ends_read [OF rd s(1)] ends_parse [OF IH s(1)])
    next
      case False
      with 0 s show ?thesis by (simp add: parses_def)
    qed
  qed
qed simp

lemma exppower_parses:
  assumes rd: "reads E k rd" and low: "parses E k n low"
  shows "m \<le> Suc n \<Longrightarrow> parses E k m (exppower E rd low m) \<and> (\<forall>v. parses E k m (exppower_loop E rd low m v))"
proof (induction m)
  case (Suc m)
  then have IH: "parses E k m (exppower E rd low m)" "\<And>v. parses E k m (exppower_loop E rd low m v)" by simp_all
  have loop: "parses E k (Suc m) (exppower_loop E rd low (Suc m) v)" for v
  proof (rule parsesI)
    fix s :: "'a expr_state"
    assume s: "good k s" "rem s < Suc m"
    show "ends E s (rem s) (exppower_loop E rd low (Suc m) v s)"
    proof (cases "curtok s = POWER")
      case True
      then have c: "curtok s \<noteq> 0" by simp
      have "ends E s (rem s) (then_do (rd s) (\<lambda>_ s.
        then_do (exppower E rd low m s) (\<lambda>val2 s0.
        let s = s0\<lparr>lasttok := NUM\<rparr> in
        if val2 = 0 then Returns 1 s
        else if sint val2 < 0 then evalerror ''exponent less than 0'' s
        else (case ipow v val2 of None \<Rightarrow> leave X_stuck s | Some v \<Rightarrow> exppower_loop E rd low m v s))))"
      proof (rule ends_read [OF rd s(1) frame_refl(1) c], rule ends_parse [OF IH(1) s(1)], assumption)
        fix s1 :: "'a expr_state"
        assume s1: "rem s1 < rem s"
        with s(2) show "rem s1 < m" by simp
        fix val2 and s2 :: "'a expr_state"
        assume s2: "frame s s2" "good k s2" "rem s2 \<le> rem s1"
        let ?s = "s2\<lparr>lasttok := NUM\<rparr>"
        have "ends E ?s (rem ?s) (exppower_loop E rd low m v' ?s)" for v'
          using s1 s2 s(2) by (intro parsesD [OF IH(2)]) (simp_all add: good_def)
        then have "ends E s (rem s) (exppower_loop E rd low m v' ?s)" for v'
          by (rule ends_from [rotated]) (use s1 s2 in auto)
        then show "ends E s (rem s) (let s = s2\<lparr>lasttok := NUM\<rparr> in
            if val2 = 0 then Returns 1 s
            else if sint val2 < 0 then evalerror ''exponent less than 0'' s
            else (case ipow v val2 of None \<Rightarrow> leave X_stuck s | Some v \<Rightarrow> exppower_loop E rd low m v s))"
          using s1 s2 by (auto simp: ipow_is_power Let_def frame_quiet)
      qed
      with True show ?thesis by simp
    qed simp
  qed
  have "parses E k (Suc m) (exppower E rd low (Suc m))"
  proof (rule parsesI)
    fix s :: "'a expr_state"
    assume s: "good k s" "rem s < Suc m"
    have p: "parses E k (Suc m) (exp1 E rd low (Suc m))" by (rule exp1_parses [OF rd low Suc.prems])
    show "ends E s (rem s) (exppower E rd low (Suc m) s)"
      unfolding exppower.simps
    proof (rule ends_parse [OF p s(1) frame_refl(1) s(2)])
      fix v s'
      assume s': "frame s s'" "good k s'" "rem s' \<le> rem s"
      with loop [of v] s(2) have "ends E s' (rem s') (exppower_loop E rd low (Suc m) v s')" by (simp add: parses_def)
      then show "ends E s (rem s) (exppower_loop E rd low (Suc m) v s')" by (rule ends_from [OF s'(1)]) (rule s'(3))
    qed
  qed
  with loop show ?case by blast
qed simp


text \<open>The levels between, for a bound \<open>m\<close> up to one more than that of \<open>low\<close>.\<close>

lemma expbor_parses:
  assumes rd: "reads E k rd" and low: "parses E k n low" and m: "m \<le> Suc n"
  shows "parses E k m (expbor E rd low m)"
proof -
  have power: "parses E k m (exppower E rd low m)" using exppower_parses [OF rd low m] by blast
  have muldiv: "parses E k m (expmuldiv E rd low m)" unfolding expmuldiv_def
    by (intro level_parses muldiv_body_steps power rd) simp
  have "parses E k m (exp3 E rd low m)" unfolding exp3_def by (intro bin_level_parses muldiv rd) simp
  then have "parses E k m (expshift E rd low m)" unfolding expshift_def by (intro bin_level_parses rd) simp_all
  then have "parses E k m (exp4 E rd low m)" unfolding exp4_def by (intro bin_level_parses rd) simp_all
  then have "parses E k m (exp5 E rd low m)" unfolding exp5_def by (intro bin_level_parses rd) simp_all
  then have "parses E k m (expband E rd low m)" unfolding expband_def by (intro bin_level_parses rd) simp_all
  then have "parses E k m (expbxor E rd low m)" unfolding expbxor_def by (intro bin_level_parses rd) simp_all
  then show ?thesis unfolding expbor_def by (intro bin_level_parses rd) simp_all
qed

lemma expland_parses:
  assumes rd: "reads E k rd" and low: "parses E k n low" and m: "m \<le> Suc n"
  shows "parses E k m (expland E rd low m)"
  unfolding expland_def by (intro level_parses logic_body_steps rd expbor_parses [OF rd low m]) simp_all

lemma explor_parses:
  assumes rd: "reads E k rd" and low: "parses E k n low" and m: "m \<le> Suc n"
  shows "parses E k m (explor E rd low m)"
  unfolding explor_def by (intro level_parses logic_body_steps rd expland_parses [OF rd low m]) simp_all


lemma expcond_parses:
  assumes rd: "reads E k rd" and low: "parses E k n low"
  shows "m \<le> Suc n \<Longrightarrow> parses E k m (expcond E rd low m)"
proof (induction m)
  case (Suc m)
  then have IH: "parses E k m (expcond E rd low m)" by simp
  show ?case
  proof (rule parsesI)
    fix s :: "'a expr_state"
    assume s: "good k s" "rem s < Suc m"
    show "ends E s (rem s) (expcond E rd low (Suc m) s)"
      unfolding expcond.simps
    proof (rule ends_parse [OF explor_parses [OF rd low Suc.prems] s(1) frame_refl(1) s(2)])
      fix cval and s1 :: "'a expr_state"
      assume s1: "frame s s1" "good k s1" "rem s1 \<le> rem s"
      show "ends E s (rem s) (if curtok s1 \<noteq> QUES then Returns cval s1
        else then_do (rd (raise_noeval (cval = 0) s1)) (\<lambda>_ s.
          if curtok s = 0 \<or> curtok s = COL then evalerror ''expression expected'' s
          else then_do (low s) (\<lambda>val1 s0. let s = lower_noeval (cval = 0) s0 in
            if curtok s \<noteq> COL then evalerror ([CHR 0x60, CHR '':'', CHR 0x27] @ '' expected for conditional expression'') s
            else then_do (rd (raise_noeval (cval \<noteq> 0) s)) (\<lambda>_ s.
              if curtok s = 0 then evalerror ''expression expected'' s
              else then_do (expcond E rd low m s) (\<lambda>val2 s0. let s = lower_noeval (cval \<noteq> 0) s0 in
                Returns (if cval \<noteq> 0 then val1 else val2) (s\<lparr>lasttok := COND\<rparr>))))))"
      proof (cases "curtok s1 = QUES")
        case True
        then have c: "curtok s1 \<noteq> 0" by simp
        have r: "rem s1 \<le> n" using s1(3) s(2) Suc.prems by simp
        show ?thesis
        proof (simp only: True simp_thms if_False, rule ends_guarded [OF rd low s(1) s1(1) c r])
          fix val1 and s2 :: "'a expr_state"
          assume s2: "frame s s2" "good k s2" "rem s2 < rem s1"
          show "ends E s (rem s) (if curtok s2 \<noteq> COL
            then evalerror ([CHR 0x60, CHR '':'', CHR 0x27] @ '' expected for conditional expression'') s2
            else then_do (rd (raise_noeval (cval \<noteq> 0) s2)) (\<lambda>_ s.
              if curtok s = 0 then evalerror ''expression expected'' s
              else then_do (expcond E rd low m s) (\<lambda>val2 s0. let s = lower_noeval (cval \<noteq> 0) s0 in
                Returns (if cval \<noteq> 0 then val1 else val2) (s\<lparr>lasttok := COND\<rparr>))))"
          proof (cases "curtok s2 = COL")
            case True
            then have c2: "curtok s2 \<noteq> 0" by simp
            have r2: "rem s2 \<le> m" using s1(3) s(2) s2(3) by simp
            show ?thesis
              by (simp only: True simp_thms if_False, rule ends_guarded [OF rd IH s(1) s2(1) c2 r2])
                (use s2 s1 in simp)
          next
            case False
            with s2(1) show ?thesis by (simp add: frame_quiet)
          qed
        qed
      next
        case False
        with s1 show ?thesis by simp
      qed
    qed
  qed
qed simp

lemma frame_reset [simp]: "frame s (reset_curlval s') = frame s s'" "rem (reset_curlval s') = rem s'"
  by (simp_all add: reset_curlval_def)

lemma expassign_parses:
  assumes rd: "reads E k rd" and low: "parses E k n low"
  shows "m \<le> Suc n \<Longrightarrow> parses E k m (expassign E rd low m)"
proof (induction m)
  case (Suc m)
  then have IH: "parses E k m (expassign E rd low m)" by simp
  show ?case
  proof (rule parsesI)
    fix s :: "'a expr_state"
    assume s: "good k s" "rem s < Suc m"
    show "ends E s (rem s) (expassign E rd low (Suc m) s)"
      unfolding expassign.simps
    proof (rule ends_parse [OF expcond_parses [OF rd low Suc.prems] s(1) frame_refl(1) s(2)])
      fix lvalue and s1 :: "'a expr_state"
      assume s1: "frame s s1" "good k s1" "rem s1 \<le> rem s"
      let ?goal = "\<lambda>m. ends E s (rem s) m"
      show "ends E s (rem s) (if curtok s1 \<noteq> EQ \<and> curtok s1 \<noteq> OP_ASSIGN then Returns lvalue s1
        else if lasttok s1 \<noteq> STR_TOK then evalerror ''attempted assignment to non-variable'' s1
        else (case tokstr s1 of None \<Rightarrow> evalerror ''syntax error in variable assignment'' s1
          | Some (_, lhs) \<Rightarrow>
            let special = (curtok s1 = OP_ASSIGN); op = assigntok s1; lind = lv_ind (curlval s1) in
            then_do (rd s1) (\<lambda>_ s.
            then_do (expassign E rd low m s) (\<lambda>value s.
            if special \<and> (op = DIV \<or> op = MOD) \<and> value = 0 \<and> noeval s = 0 then evalerror ''division by 0'' s
            else
              let value = (if special \<and> (op = DIV \<or> op = MOD) \<and> value = 0 then 1 else value) in
              (case (if special then assign_op op lvalue value else Some value) of
                 None \<Rightarrow> evalerror ''bug: bad expassign token'' s
               | Some v \<Rightarrow>
                   then_do (store_lvalue E lhs lind v s) (\<lambda>_ s.
                   Returns v ((reset_curlval s)\<lparr>tokstr := None\<rparr>)))))))"
      proof (cases "(curtok s1 = EQ \<or> curtok s1 = OP_ASSIGN) \<and> lasttok s1 = STR_TOK \<and> tokstr s1 \<noteq> None")
        case True
        then have c: "curtok s1 \<noteq> 0" by auto
        from True obtain p where p: "tokstr s1 = Some p" by auto
        obtain b lhs where "p = (b, lhs)" by (cases p)
        with True p s s1 c show ?thesis
          by (auto simp: Let_def frame_quiet split: option.split
              intro!: ends_read [OF rd s(1)] ends_parse [OF IH s(1)] ends_store)
      next
        case False
        with s1 show ?thesis by (auto simp: frame_quiet split: option.split)
      qed
    qed
  qed
qed simp

lemma expcomma_parses:
  assumes rd: "reads E k rd" and low: "parses E k n low"
  shows "parses E k (Suc n) (expcomma E rd low (Suc n))"
  unfolding expcomma_def
proof (rule level_parses)
  show p: "parses E k (Suc n) (expassign E rd low (Suc n))" by (rule expassign_parses [OF rd low]) simp
  show "steps E k (Suc n) (\<lambda>t. t = COMMA) (\<lambda>_ _ s. then_do (rd s) (\<lambda>_ s. expassign E rd low (Suc n) s))"
    unfolding steps_def
  proof (intro conjI allI impI; (elim conjE)?)
    fix v :: intmax and s :: "'a expr_state"
    assume s: "good k s" "rem s < Suc n" "curtok s = COMMA"
    then have c: "curtok s \<noteq> 0" by simp
    have "rem s' < rem s \<Longrightarrow> ends E s' (rem s') (expassign E rd low (Suc n) s')" if "good k s'" for s'
      using s(2) that by (intro parsesD [OF p]) (simp_all del: expassign.simps)
    then show "ends E s (rem s - 1) (then_do (rd s) (\<lambda>_ s. expassign E rd low (Suc n) s))"
      by (intro ends_read [OF rd s(1) frame_refl(1) c]) (rule ends_from, assumption, blast, linarith)
  qed simp
qed


lemma EXP_LOWEST_parses: "reads E k rd \<Longrightarrow> parses E k n (EXP_LOWEST E rd n)"
proof (induction n)
  case (Suc n)
  from expcomma_parses [OF Suc.prems Suc.IH [OF Suc.prems]] show ?case
    by (simp add: parses_def)
qed simp

section \<open>Whole expressions\<close>

text \<open>
  An evaluation ends; when it returns, the context it was started in is as before, and while it
  runs in the unevaluated branch of another one it has no effect on the shell.
\<close>

lemma popexp_restores:
  assumes "expr_stack s' = SAVETOK s # expr_stack s"
  shows "\<exists>s1. popexp s' = Returns () s1 \<and> same_context s s1 \<and> shell s1 = shell s'"
  using assms by (simp add: popexp_def same_context_def SAVETOK_def RESTORETOK_def)

definition start_expression :: "string \<Rightarrow> 's expr_state \<Rightarrow> 's expr_state" where
  "start_expression e s =
     s\<lparr>expr_stack := SAVETOK s # expr_stack s, expression := e, tp := 0, curtok := 0, lasttok := 0,
       tokstr := None, tokval := 0, curlval := init_lvalue, lastlval := init_lvalue\<rparr>"

lemma subexpr_unfold:
  assumes "dropWhile cr_whitespace e \<noteq> []" "length (expr_stack s) < MAX_EXPR_RECURSION_LEVEL"
  shows "subexpr E (Suc d) e s =
    then_do (readtok E (subexpr E d) (start_expression e s)) (\<lambda>_ s.
    then_do (EXP_LOWEST E (readtok E (subexpr E d)) (length e + 2) s) (\<lambda>val s.
    if curtok s \<noteq> 0 then evalerror ''syntax error in expression'' s
    else then_do (popexp s) (\<lambda>_ s. Returns val s)))"
  using assms by (auto simp: pushexp_def start_expression_def Let_def not_le simp del: EXP_LOWEST.simps)

lemma subexpr_blank: "dropWhile cr_whitespace e = [] \<Longrightarrow> subexpr E (Suc d) e s = Returns 0 s"
  by simp

lemma subexpr_too_deep:
  assumes "dropWhile cr_whitespace e \<noteq> []" "length (expr_stack s) = MAX_EXPR_RECURSION_LEVEL"
  shows "subexpr E (Suc d) e s = evalerror ''expression recursion level exceeded'' s"
  using assms by (auto simp: pushexp_def)

declare subexpr.simps [simp del] EXP_LOWEST.simps [simp del]

lemma subexpr_evaluates:
  "k \<le> MAX_EXPR_RECURSION_LEVEL \<Longrightarrow> MAX_EXPR_RECURSION_LEVEL < k + d \<Longrightarrow> evaluates E k (subexpr E d)"
proof (induction d arbitrary: k)
  case 0
  then show ?case by simp
next
  case (Suc d)
  show ?case unfolding evaluates_def
  proof (intro allI impI, elim conjE)
    fix e and s :: "'a expr_state"
    assume s: "length (expr_stack s) = k" "noeval s = 0"
    consider "dropWhile cr_whitespace e = []" | "dropWhile cr_whitespace e \<noteq> []" "k = MAX_EXPR_RECURSION_LEVEL"
      | "dropWhile cr_whitespace e \<noteq> []" "k < MAX_EXPR_RECURSION_LEVEL" using Suc.prems(1) by linarith
    then show "case subexpr E (Suc d) e s of Returns v s' \<Rightarrow> same_context s s' | Leaves s' \<Rightarrow> proper_end E s'"
    proof cases
      case 1
      then show ?thesis by (simp add: subexpr_blank same_context_def)
    next
      case 2
      then have "subexpr E (Suc d) e s = evalerror ''expression recursion level exceeded'' s"
        using s(1) by (intro subexpr_too_deep) simp_all
      then show ?thesis by (simp add: evalerror_def leave_def)
    next
      case 3
      let ?s0 = "start_expression e s" and ?rd = "readtok E (subexpr E d)"
      have rd: "reads E (Suc k) ?rd" using Suc 3 by (intro readtok_reads Suc.IH) simp_all
      have g: "good (Suc k) ?s0" using s by (simp add: good_def start_expression_def)
      define m where "m = then_do (?rd ?s0) (\<lambda>_ s. EXP_LOWEST E ?rd (length e + 2) s)"
      have "ends E ?s0 (length (expression ?s0) - tp ?s0) (?rd ?s0)" using rd g unfolding reads_def by blast
      then have m: "ends E ?s0 (length e) m" unfolding m_def
      proof (rule ends_bind)
        fix v and s1 :: "'a expr_state"
        assume s1: "frame ?s0 s1" "rem s1 \<le> length (expression ?s0) - tp ?s0"
        then have r: "rem s1 \<le> length e" by (simp add: start_expression_def)
        then have "ends E s1 (rem s1) (EXP_LOWEST E ?rd (length e + 2) s1)"
          by (intro parsesD [OF EXP_LOWEST_parses [OF rd]] frame_good [OF s1(1) g]) simp
        then show "ends E ?s0 (length e) (EXP_LOWEST E ?rd (length e + 2) s1)" by (rule ends_from [OF s1(1)]) (rule r)
      qed
      have eq: "subexpr E (Suc d) e s = then_do m (\<lambda>val s.
          if curtok s \<noteq> 0 then evalerror ''syntax error in expression'' s
          else then_do (popexp s) (\<lambda>_ s. Returns val s))"
        unfolding m_def using subexpr_unfold [OF 3(1), of s E d] 3(2) s(1) by (simp only: then_do_assoc)
      show ?thesis
      proof (cases m)
        case (Leaves s')
        with m show ?thesis by (simp add: eq)
      next
        case (Returns v s')
        with m have "expr_stack s' = SAVETOK s # expr_stack s" by (simp add: frame_def start_expression_def)
        from popexp_restores [OF this] show ?thesis
          by (auto simp: eq Returns evalerror_def leave_def)
      qed
    qed
  qed
qed


section \<open>A shell that keeps numbers\<close>

text \<open>An instance of the interface to the shell, to evaluate concrete expressions with.\<close>

definition number_of :: "string \<Rightarrow> intmax" where
  "number_of t =
     (let read = (\<lambda>u. case strlong u of Inr v \<Rightarrow> v | Inl _ \<Rightarrow> 0)
      in if take 1 t = ''-'' then - read (drop 1 t) else read t)"

definition number_shell :: "(string \<Rightarrow> intmax) shell_ops" where
  "number_shell =
     \<lparr>sh_skipsubscript = \<lambda>_ _ _ _ _. 0, sh_find = \<lambda>_ _ _ sh. (True, sh),
      sh_value = \<lambda>_ ae x sh. (Element (Some (decimal (sh x))) (- 1) ae, sh), sh_variable_name = \<lambda>x. x,
      sh_bind = \<lambda>_ x t sh. (False, sh(x := number_of t)), sh_special = \<lambda>_ sh. sh,
      sh_unbound_is_error = \<lambda>_. False, sh_no_longjmp = \<lambda>_. False, sh_interactive = \<lambda>_. False\<rparr>"

definition idle :: "'s \<Rightarrow> 's expr_state" where
  "idle sh =
     \<lparr>curtok = 0, lasttok = 0, assigntok = 0, expression = [], tp = 0, lasttp = 0, tokval = 0, tokstr = None,
      noeval = 0, curlval = init_lvalue, lastlval = init_lvalue, already_expanded = False, expr_stack = [],
      next_block = 0, shell = sh, failure = None\<rparr>"

lemma idle_simps [simp]:
  "expr_stack (idle sh) = []" "noeval (idle sh) = 0" "shell (idle sh) = sh" "tp (idle sh) = 0" "curtok (idle sh) = 0"
  by (simp_all add: idle_def)

section \<open>The theorems\<close>

lemma subexpr_context:
  assumes "length (expr_stack s) \<le> MAX_EXPR_RECURSION_LEVEL" "noeval s = 0"
  shows "case subexpr E (Suc MAX_EXPR_RECURSION_LEVEL) e s of
      Returns v s' \<Rightarrow> SAVETOK s' = SAVETOK s \<and> expr_stack s' = expr_stack s
    | Leaves s' \<Rightarrow> proper_end E s'"
proof -
  have "evaluates E (length (expr_stack s)) (subexpr E (Suc MAX_EXPR_RECURSION_LEVEL))"
    by (rule subexpr_evaluates) (use assms in simp_all)
  then show ?thesis using assms(2) unfolding evaluates_def same_context_def by blast
qed

lemma evalexp_stack:
  assumes "expr_stack s = []" "evalexp E e flags s = Returns (v, valid) s'"
  shows "expr_stack s' = []"
proof (cases "subexpr E (Suc MAX_EXPR_RECURSION_LEVEL) e (s\<lparr>noeval := 0, already_expanded := flags\<rparr>)")
  case (Returns w s'')
  then show ?thesis using assms subexpr_context [of "s\<lparr>noeval := 0, already_expanded := flags\<rparr>" E e]
    by (simp add: evalexp_def)
qed (use assms in \<open>auto simp: evalexp_def expr_unwind_def split: if_splits\<close>)

text \<open>
  C3. \<open>evalexp\<close> always comes to an end, whatever the text, the flags and the shell, when no other
  evaluation is under way; and it ends in one of these ways. (a) It returns a value with the flag
  true; then \<open>curtok\<close>, \<open>lasttok\<close>, \<open>expression\<close>, \<open>tp\<close>, \<open>lasttp\<close>, \<open>tokval\<close>, \<open>tokstr\<close> and \<open>curlval\<close> are
  as before the call, \<open>noeval\<close> is 0 and the stack of contexts empty. (b) It returns 0 with the flag
  false, after an error of the expression, a refused assignment, or (only in an interactive shell
  with \<open>no_longjmp_on_fatal_error\<close> set) an unbound variable that is an error or a failed evaluation
  inside a subscript; then \<open>expression\<close> and \<open>tokstr\<close> are NULL, \<open>noeval\<close> is 0 and the stack empty for the
  next call. (c) It jumps to the shell's top level because a nested expansion did, or, in a shell
  that is not both interactive and told not to jump, because of an unbound variable that is an error. (d) In
  such a shell, an evaluation inside a subscript failed and threw the contexts away, and
  \<open>expr_streval\<close> at \<open>expr.c:1224\<close> returns 0 to code whose \<open>expression\<close> and \<open>tokstr\<close> are freed: the model
  stops there (\<open>X_dangling\<close>) and says nothing of what follows. The bounds of the model are never met.
\<close>

theorem evalexp_outcome:
  assumes "expr_stack s = []"
  shows "case evalexp E e flags s of
      Returns (v, valid) s' \<Rightarrow>
        (if valid then SAVETOK s' = SAVETOK (s\<lparr>noeval := 0\<rparr>) \<and> expr_stack s' = []
         else v = 0 \<and> expression s' = [] \<and> tokstr s' = None \<and> noeval s' = 0 \<and> expr_stack s' = [] \<and>
           (case failure s' of
              Some (X_evalerror _ _ _) \<Rightarrow> True
            | Some X_assignment \<Rightarrow> True
            | Some (X_unbound _) \<Rightarrow> sh_no_longjmp E (shell s') \<and> sh_interactive E (shell s') \<and>
                sh_unbound_is_error E (shell s')
            | Some X_unwound \<Rightarrow> sh_no_longjmp E (shell s') \<and> sh_interactive E (shell s')
            | _ \<Rightarrow> False))
    | Leaves s' \<Rightarrow>
        (case failure s' of
           Some X_toplevel \<Rightarrow> True
         | Some (X_unbound_toplevel _) \<Rightarrow> sh_unbound_is_error E (shell s') \<and>
             \<not> (sh_no_longjmp E (shell s') \<and> sh_interactive E (shell s'))
         | Some X_dangling \<Rightarrow> expr_stack s' = [] \<and> noeval s' = 0 \<and>
             \<not> (sh_no_longjmp E (shell s') \<and> sh_interactive E (shell s'))
         | _ \<Rightarrow> False)"
proof -
  let ?s = "s\<lparr>noeval := 0, already_expanded := flags\<rparr>"
  have *: "case subexpr E (Suc MAX_EXPR_RECURSION_LEVEL) e ?s of
      Returns v s' \<Rightarrow> SAVETOK s' = SAVETOK ?s \<and> expr_stack s' = expr_stack ?s
    | Leaves s' \<Rightarrow> proper_end E s'"
    by (rule subexpr_context) (use assms in simp_all)
  show ?thesis
  proof (cases "subexpr E (Suc MAX_EXPR_RECURSION_LEVEL) e ?s")
    case (Returns v s')
    with * assms show ?thesis by (simp add: evalexp_def SAVETOK_def)
  next
    case (Leaves s')
    with * have "proper_end E s'" by simp
    with Leaves show ?thesis
      by (simp add: evalexp_def expr_unwind_def proper_end_def caught_def Let_def
            split: option.splits expr_failure.splits)
  qed
qed

theorem evalexp_outcome_witness:
  "case evalexp number_shell ''7 / (x - 3)'' False (idle (\<lambda>x :: string. 3 :: intmax)) of
      Returns (v, valid) s' \<Rightarrow> expr_stack s' = [] \<and> (valid \<or> v = 0 \<and> noeval s' = 0)
    | Leaves s' \<Rightarrow> failure s' \<noteq> Some X_stuck \<and> \<not> caught (failure s')"
  using evalexp_outcome [of "idle (\<lambda>x :: string. 3 :: intmax)" number_shell "''7 / (x - 3)''" False]
  by (auto simp: caught_def split: outcome.splits prod.splits option.splits expr_failure.splits if_splits)

text \<open>
  C4. The operand that \<open>&&\<close>, \<open>||\<close> and \<open>?:\<close> skip has no effect: read with \<open>noeval\<close> set by any of
  the functions that read it, any text whatever leaves the shell as it was, also when it ends in
  an error.
\<close>

theorem skipped_operand_has_no_effect:
  assumes "0 < noeval s" "length (expr_stack s) \<le> MAX_EXPR_RECURSION_LEVEL" "rem s \<le> n"
    and "rd = readtok E (subexpr E (Suc MAX_EXPR_RECURSION_LEVEL))" "low = EXP_LOWEST E rd n"
    and "f \<in> {expbor E rd low (Suc n), expland E rd low (Suc n), expcond E rd low (Suc n), EXP_LOWEST E rd (Suc n)}"
  shows "case f s of
      Returns v s' \<Rightarrow> shell s' = shell s \<and> noeval s' = noeval s \<and> expr_stack s' = expr_stack s
    | Leaves s' \<Rightarrow> shell s' = shell s"
proof -
  let ?k = "length (expr_stack s)"
  have sub: "evaluates E k (subexpr E (Suc MAX_EXPR_RECURSION_LEVEL))" if "k \<le> MAX_EXPR_RECURSION_LEVEL" for k
    using that by (intro subexpr_evaluates) simp_all
  have rd: "reads E ?k rd" unfolding assms(4) by (intro readtok_reads sub assms(2))
  have low: "parses E ?k n low" unfolding assms(5) by (rule EXP_LOWEST_parses [OF rd])
  have "parses E ?k (Suc n) f"
    using assms(6) expbor_parses [OF rd low] expland_parses [OF rd low] expcond_parses [OF rd low]
      EXP_LOWEST_parses [OF rd] by auto
  moreover have "good ?k s" "rem s < Suc n" using assms(1,3) by (simp_all add: good_def)
  ultimately have "ends E s (rem s) (f s)" unfolding parses_def by blast
  with assms(1) show ?thesis by (cases "f s") (simp_all add: frame_def quiet_def)
qed

theorem skipped_operand_has_no_effect_witness:
  "\<exists>f. f = EXP_LOWEST number_shell (readtok number_shell (subexpr number_shell (Suc MAX_EXPR_RECURSION_LEVEL))) 9 \<and>
     (case f ((idle (\<lambda>x :: string. 3 :: intmax))\<lparr>expression := ''x = 5'', noeval := 1, curtok := NUM\<rparr>) of
        Returns v s' \<Rightarrow> shell s' = (\<lambda>x :: string. 3 :: intmax) \<and> noeval s' = 1 \<and> expr_stack s' = []
      | Leaves s' \<Rightarrow> shell s' = (\<lambda>x :: string. 3 :: intmax))"
proof -
  let ?rd = "readtok number_shell (subexpr number_shell (Suc MAX_EXPR_RECURSION_LEVEL))"
  let ?s = "(idle (\<lambda>x :: string. 3 :: intmax))\<lparr>expression := ''x = 5'', noeval := 1, curtok := NUM\<rparr>"
  have "case EXP_LOWEST number_shell ?rd (Suc 8) ?s of
      Returns v s' \<Rightarrow> shell s' = shell ?s \<and> noeval s' = noeval ?s \<and> expr_stack s' = expr_stack ?s
    | Leaves s' \<Rightarrow> shell s' = shell ?s"
    by (rule skipped_operand_has_no_effect [where n = 8 and E = number_shell, OF _ _ _ refl refl]) (simp_all add: rem_def MAX_EXPR_RECURSION_LEVEL_def)
  then show ?thesis by (intro exI conjI) (rule refl, simp split: outcome.splits)
qed

end
