(* ===== verification/Bash_ExprLex.thy ===== *)
theory Bash_ExprLex imports Bash_ExprRun begin

text \<open>
  The parts of the theorem of \<open>Bash_ExprSem\<close> that do not speak of the meaning of expressions: the
  levels of the grammar as one table, a token list and its text, and what \<open>readtok\<close> does on
  that text, operator by operator, number and name.
\<close>

section \<open>Levels of the grammar\<close>

text \<open>The parsing functions from the lowest to the highest precedence.\<close>

definition lev :: "'s shell_ops \<Rightarrow> 's reader \<Rightarrow> 's parser \<Rightarrow> nat \<Rightarrow> nat \<Rightarrow> 's parser" where
  "lev E rd low p n =
     [expcomma E rd low n, expassign E rd low n, expcond E rd low n, explor E rd low n,
      expland E rd low n, expbor E rd low n, expbxor E rd low n, expband E rd low n,
      exp5 E rd low n, exp4 E rd low n, expshift E rd low n, exp3 E rd low n,
      expmuldiv E rd low n, exppower E rd low n, exp1 E rd low n, exp0 E rd low] ! p"

text \<open>The tokens that make level \<open>p\<close> go on behind an operand.\<close>

definition ops :: "nat \<Rightarrow> int set" where
  "ops p =
     [{COMMA}, {EQ, OP_ASSIGN}, {QUES}, {LOR}, {LAND}, {BOR}, {BXOR}, {BAND}, {EQEQ, NEQ},
      {LEQ, GEQ, LT, GT}, {LSH, RSH}, {PLUS, MINUS}, {MUL, DIV, MOD}, {POWER}, {}, {}] ! p"

definition stops :: "nat \<Rightarrow> int \<Rightarrow> bool" where
  "stops p c \<longleftrightarrow> (\<forall>q \<in> {p..<16}. c \<notin> ops q)"

lemmas lev_simps =
  lev_def [of _ _ _ 0, simplified] lev_def [of _ _ _ 1, simplified] lev_def [of _ _ _ 2, simplified]
  lev_def [of _ _ _ 3, simplified] lev_def [of _ _ _ 4, simplified] lev_def [of _ _ _ 5, simplified]
  lev_def [of _ _ _ 6, simplified] lev_def [of _ _ _ 7, simplified] lev_def [of _ _ _ 8, simplified]
  lev_def [of _ _ _ 9, simplified] lev_def [of _ _ _ 10, simplified] lev_def [of _ _ _ 11, simplified]
  lev_def [of _ _ _ 12, simplified] lev_def [of _ _ _ 13, simplified] lev_def [of _ _ _ 14, simplified]
  lev_def [of _ _ _ 15, simplified]

declare exp1.simps [simp del] exppower.simps [simp del] exppower_loop.simps [simp del]
  expcond.simps [simp del] expassign.simps [simp del]

definition unary_tok :: "int \<Rightarrow> bool" where
  "unary_tok c \<longleftrightarrow> c \<in> {NOT_TOK, BNOT, MINUS, PLUS}"

text \<open>What each level does behind its first operand.\<close>

definition cond_tail :: "'s shell_ops \<Rightarrow> 's reader \<Rightarrow> 's parser \<Rightarrow> nat \<Rightarrow> intmax \<Rightarrow> 's parser" where
  "cond_tail E rd low n cval s =
     (if curtok s \<noteq> QUES then Returns cval s
     else
       then_do (rd (raise_noeval (cval = 0) s)) (\<lambda>_ s.
       if curtok s = 0 \<or> curtok s = COL then evalerror ''expression expected'' s
       else
         then_do (low s) (\<lambda>val1 s0.
         let s = lower_noeval (cval = 0) s0 in
         if curtok s \<noteq> COL then evalerror ([CHR 0x60, CHR '':'', CHR 0x27] @ '' expected for conditional expression'') s
         else
           then_do (rd (raise_noeval (cval \<noteq> 0) s)) (\<lambda>_ s.
           if curtok s = 0 then evalerror ''expression expected'' s
           else
             then_do (expcond E rd low n s) (\<lambda>val2 s0.
             let s = lower_noeval (cval \<noteq> 0) s0 in
             Returns (if cval \<noteq> 0 then val1 else val2) (s\<lparr>lasttok := COND\<rparr>))))))"

definition assign_tail :: "'s shell_ops \<Rightarrow> 's reader \<Rightarrow> 's parser \<Rightarrow> nat \<Rightarrow> intmax \<Rightarrow> 's parser" where
  "assign_tail E rd low n lvalue s =
     (if curtok s \<noteq> EQ \<and> curtok s \<noteq> OP_ASSIGN then Returns lvalue s
     else if lasttok s \<noteq> STR_TOK then evalerror ''attempted assignment to non-variable'' s
     else
       (case tokstr s of
          None \<Rightarrow> evalerror ''syntax error in variable assignment'' s
        | Some (_, lhs) \<Rightarrow>
            let special = (curtok s = OP_ASSIGN); op = assigntok s; lind = lv_ind (curlval s) in
            then_do (rd s) (\<lambda>_ s.
            then_do (expassign E rd low n s) (\<lambda>value s.
            if special \<and> (op = DIV \<or> op = MOD) \<and> value = 0 \<and> noeval s = 0 then evalerror ''division by 0'' s
            else
              let value = (if special \<and> (op = DIV \<or> op = MOD) \<and> value = 0 then 1 else value) in
              (case (if special then assign_op op lvalue value else Some value) of
                 None \<Rightarrow> evalerror ''bug: bad expassign token'' s
               | Some v \<Rightarrow>
                   then_do (store_lvalue E lhs lind v s) (\<lambda>_ s.
                   Returns v ((reset_curlval s)\<lparr>tokstr := None\<rparr>)))))))"

text \<open>\<open>N\<close> bounds the calls of the level above, \<open>n\<close> the rounds still to come.\<close>

definition tail :: "'s shell_ops \<Rightarrow> 's reader \<Rightarrow> 's parser \<Rightarrow> nat \<Rightarrow> nat \<Rightarrow> nat \<Rightarrow> intmax \<Rightarrow> 's parser" where
  "tail E rd low N p n =
     [op_loop (\<lambda>t. t = COMMA) (\<lambda>_ _ s. then_do (rd s) (\<lambda>_ s. expassign E rd low N s)) n,
      assign_tail E rd low (n - 1), cond_tail E rd low (n - 1),
      op_loop (\<lambda>t. t = LOR) (logic_body rd (expland E rd low N) (\<lambda>v. v \<noteq> 0) (\<or>)) n,
      op_loop (\<lambda>t. t = LAND) (logic_body rd (expbor E rd low N) (\<lambda>v. v = 0) (\<and>)) n,
      op_loop (\<lambda>t. t = BOR) (bin_body rd (expbxor E rd low N) (\<lambda>_ a b. or a b)) n,
      op_loop (\<lambda>t. t = BXOR) (bin_body rd (expband E rd low N) (\<lambda>_ a b. xor a b)) n,
      op_loop (\<lambda>t. t = BAND) (bin_body rd (exp5 E rd low N) (\<lambda>_ a b. and a b)) n,
      op_loop (\<lambda>t. t = EQEQ \<or> t = NEQ)
        (bin_body rd (exp4 E rd low N) (\<lambda>op a b. truth (if op = EQEQ then a = b else a \<noteq> b))) n,
      op_loop (\<lambda>t. t = LEQ \<or> t = GEQ \<or> t = LT \<or> t = GT) (bin_body rd (expshift E rd low N) compare) n,
      op_loop (\<lambda>t. t = LSH \<or> t = RSH)
        (bin_body rd (exp3 E rd low N) (\<lambda>op a b. if op = LSH then arith_lsh a b else arith_rsh a b)) n,
      op_loop (\<lambda>t. t = PLUS \<or> t = MINUS)
        (bin_body rd (expmuldiv E rd low N) (\<lambda>op a b. if op = PLUS then a + b else a - b)) n,
      op_loop (\<lambda>t. t = MUL \<or> t = DIV \<or> t = MOD) (muldiv_body rd (exppower E rd low N)) n,
      exppower_loop E rd low n, Returns, Returns] ! p"

lemmas level_eqs =
  expcomma_def explor_def expland_def expbor_def expbxor_def expband_def exp5_def exp4_def expshift_def exp3_def expmuldiv_def
  exppower.simps(2)

lemma lev_tail:
  assumes "p < 14" "0 < n"
  shows "lev E rd low p n s = then_do (lev E rd low (Suc p) n s) (tail E rd low n p n)"
proof -
  obtain m where n: "n = Suc m" using assms(2) by (cases n) auto
  have "p \<in> {0,1,2,3,4,5,6,7,8,9,10,11,12,13} \<Longrightarrow> ?thesis"
    by (elim insertE; simp add: lev_def tail_def n;
        (rule level_eqs | simp add: expassign.simps expcond.simps cond_tail_def [abs_def] assign_tail_def [abs_def]))
  with less_16 [of p] assms(1) show ?thesis by auto
qed

lemma tail_stop: "p < 16 \<Longrightarrow> curtok s \<notin> ops p \<Longrightarrow> tail E rd low N p n v s = Returns v s"
proof -
  assume "p < 16" and c: "curtok s \<notin> ops p"
  then have "p \<in> {0,1,2,3,4,5,6,7,8,9,10,11,12,13,14,15}" by (intro less_16)
  then show ?thesis using c
    by (elim insertE; cases n; simp add: tail_def ops_def cond_tail_def assign_tail_def exppower_loop.simps)
qed


section \<open>Tokens and their text\<close>

datatype token = TNum intmax | TName string | TOp int | TAssign int

definition op_texts :: "(int \<times> string) list" where
  "op_texts =
    [(EQEQ, ''==''), (NEQ, ''!=''), (LEQ, ''<=''), (GEQ, ''>=''), (LAND, ''&&''), (LOR, ''||''),
     (LSH, ''<<''), (RSH, ''>>''), (POWER, ''**''), (EQ, ''=''), (GT, ''>''), (LT, ''<''), (PLUS, ''+''),
     (MINUS, ''-''), (MUL, ''*''), (DIV, ''/''), (MOD, ''%''), (NOT_TOK, ''!''), (LPAR, ''(''), (RPAR, '')''),
     (BAND, ''&''), (BOR, ''|''), (BXOR, ''^''), (BNOT, ''~''), (QUES, ''?''), (COL, '':''), (COMMA, '',''),
     (PREINC, ''++''), (PREDEC, ''--''), (POSTINC, ''++''), (POSTDEC, ''--'')]"

definition op_text :: "int \<Rightarrow> string" where
  "op_text c = (case map_of op_texts c of Some t \<Rightarrow> t | None \<Rightarrow> [])"

fun tok_text :: "token \<Rightarrow> string" where
  "tok_text (TNum v) = fmt_base10 v"
| "tok_text (TName x) = x"
| "tok_text (TOp c) = op_text c"
| "tok_text (TAssign c) = op_text c @ ''=''"

definition text_of :: "token list \<Rightarrow> string" where
  "text_of ts = concat (map (\<lambda>t. tok_text t @ '' '') ts)"

definition legal_name :: "string \<Rightarrow> bool" where
  "legal_name x \<longleftrightarrow> x \<noteq> [] \<and> legal_variable_starter (hd x) \<and> list_all legal_variable_char x"

definition assign_ops :: "int set" where
  "assign_ops = {MUL, DIV, MOD, PLUS, MINUS, LSH, RSH, BAND, BOR, BXOR}"

definition plain_ops :: "int set" where
  "plain_ops = {EQEQ, NEQ, LEQ, GEQ, LAND, LOR, LSH, RSH, POWER, EQ, GT, LT, PLUS, MINUS, MUL, DIV, MOD,
     NOT_TOK, LPAR, RPAR, BAND, BOR, BXOR, BNOT, QUES, COL, COMMA}"

fun wf_tok :: "token \<Rightarrow> bool" where
  "wf_tok (TNum v) = True"
| "wf_tok (TName x) = legal_name x"
| "wf_tok (TOp c) = (c \<in> plain_ops \<union> {PREINC, PREDEC, POSTINC, POSTDEC})"
| "wf_tok (TAssign c) = (c \<in> assign_ops)"

lemma op_text_simps [simp]:
  "op_text EQEQ = ''==''"
  "op_text NEQ = ''!=''"
  "op_text LEQ = ''<=''"
  "op_text GEQ = ''>=''"
  "op_text LAND = ''&&''"
  "op_text LOR = ''||''"
  "op_text LSH = ''<<''"
  "op_text RSH = ''>>''"
  "op_text POWER = ''**''"
  "op_text EQ = ''=''"
  "op_text GT = ''>''"
  "op_text LT = ''<''"
  "op_text PLUS = ''+''"
  "op_text MINUS = ''-''"
  "op_text MUL = ''*''"
  "op_text DIV = ''/''"
  "op_text MOD = ''%''"
  "op_text NOT_TOK = ''!''"
  "op_text LPAR = ''(''"
  "op_text RPAR = '')''"
  "op_text BAND = ''&''"
  "op_text BOR = ''|''"
  "op_text BXOR = ''^''"
  "op_text BNOT = ''~''"
  "op_text QUES = ''?''"
  "op_text COL = '':''"
  "op_text COMMA = '',''"
  "op_text PREINC = ''++''"
  "op_text PREDEC = ''--''"
  "op_text POSTINC = ''++''"
  "op_text POSTDEC = ''--''"
  by (simp_all add: op_text_def op_texts_def tok_defs)

lemma text_Nil [simp]: "text_of [] = []" and text_Cons: "text_of (t # ts) = tok_text t @ CHR '' '' # text_of ts"
  by (simp_all add: text_of_def)

lemma op_first: "c \<in> plain_ops \<union> {PREINC, PREDEC, POSTINC, POSTDEC} \<Longrightarrow>
    op_text c \<noteq> [] \<and> \<not> cr_whitespace (hd (op_text c)) \<and> \<not> legal_variable_starter (hd (op_text c)) \<and> \<not> DIGIT (hd (op_text c))"
  unfolding plain_ops_def Un_iff insert_iff empty_iff
  by (elim disjE; simp add: ctype_defs)

lemma byte_at_2 [simp]: "byte_at (a # b # c # r) 2 = c"
  by (simp add: numeral_2_eq_2)

text \<open>The branches of the lexer by the first two characters.\<close>

lemma lex_plain:
  "c \<in> plain_ops \<Longrightarrow> lex_operator cur prev (op_text c @ CHR '' '' # r) = Operator c None (length (op_text c))"
  unfolding plain_ops_def insert_iff empty_iff
  by (elim disjE; simp add: lex_operator_def Let_def; (simp add: is_arithop_def tok_defs)?)

lemma lex_assign:
  "c \<in> assign_ops \<Longrightarrow>
    lex_operator cur prev (op_text c @ CHR ''='' # CHR '' '' # r) = Operator OP_ASSIGN (Some c) (Suc (length (op_text c)))"
  unfolding assign_ops_def insert_iff empty_iff
  by (elim disjE; simp add: lex_operator_def Let_def; (simp add: is_arithop_def tok_defs)?)

lemma lex_post:
  "c \<in> {POSTINC, POSTDEC} \<Longrightarrow> lex_operator STR_TOK prev (op_text c @ r) = Operator c None (length (op_text c))"
  by (elim insertE emptyE; simp add: lex_operator_def Let_def)

lemma lex_pre:
  assumes "c \<in> {PREINC, PREDEC}" "cur \<noteq> STR_TOK" "cur \<noteq> NUM" "legal_name x"
  shows "lex_operator cur prev (op_text c @ CHR '' '' # x @ r) = Operator c None (length (op_text c))"
proof -
  obtain a y where x: "x = a # y" "legal_variable_starter a"
    using assms(4) by (cases x) (auto simp: legal_name_def)
  then have "\<not> cr_whitespace a" by (auto simp: ctype_defs)
  with x assms(1-3) show ?thesis
    by (elim insertE emptyE; simp add: lex_operator_def Let_def cr_whitespace_def whitespace_def)
qed

section \<open>Reading the text of a token list\<close>

text \<open>\<open>ts\<close> is what is left to read, perhaps behind a space.\<close>

definition before :: "'s expr_state \<Rightarrow> token list \<Rightarrow> bool" where
  "before s ts \<longleftrightarrow> dropWhile cr_whitespace (drop (tp s) (expression s)) = text_of ts \<and> list_all wf_tok ts"

lemma tok_first:
  assumes "wf_tok t"
  shows "tok_text t \<noteq> []" "\<not> cr_whitespace (hd (tok_text t))"
proof -
  have n: "fmt_base10 v \<noteq> [] \<and> \<not> cr_whitespace (hd (fmt_base10 v))" for v
    using fmt_base10_nonempty [of v] fmt_base10_DIGIT [of "hd (fmt_base10 v)" v]
    by (auto simp: ctype_defs)
  have a: "assign_ops \<subseteq> plain_ops" by (auto simp: assign_ops_def plain_ops_def)
  have x: "legal_variable_starter c \<Longrightarrow> \<not> cr_whitespace c" for c by (auto simp: ctype_defs)
  from assms n a op_first x show "tok_text t \<noteq> []" "\<not> cr_whitespace (hd (tok_text t))"
    by (cases t; fastforce simp: legal_name_def)+
qed

lemma drop_skip: "drop (skip_space s) (expression s) = dropWhile cr_whitespace (drop (tp s) (expression s))"
  by (simp add: skip_space_def dropWhile_eq_drop add.commute)

lemma before_Cons:
  assumes "before s (t # ts)"
  shows "drop (skip_space s) (expression s) = tok_text t @ CHR '' '' # text_of ts" (is ?a)
    and "skip_space s < length (expression s)" (is ?b)
    and "byte_at (expression s) (skip_space s) = hd (tok_text t)" (is ?c)
proof -
  have t: "tok_text t \<noteq> []" using assms tok_first by (simp add: before_def)
  show ?a using assms unfolding drop_skip by (simp add: before_def text_Cons)
  then have "drop (skip_space s) (expression s) \<noteq> []" by simp
  then show ?b by simp
  then have "drop (skip_space s) (expression s) = expression s ! skip_space s # drop (Suc (skip_space s)) (expression s)"
    by (simp add: Cons_nth_drop_Suc)
  with \<open>?a\<close> t have "expression s ! skip_space s = hd (tok_text t)" by (metis hd_append2 list.sel(1))
  with \<open>?b\<close> show ?c by (simp add: byte_at_def)
qed

lemma text_of_dropWhile: "list_all wf_tok ts \<Longrightarrow> dropWhile cr_whitespace (CHR '' '' # text_of ts) = text_of ts"
proof (cases ts)
  case (Cons t r)
  assume "list_all wf_tok ts"
  with Cons tok_first [of t] obtain a u where "tok_text t = a # u" "\<not> cr_whitespace a"
    by (cases "tok_text t") auto
  with Cons show ?thesis by (simp add: text_Cons ctype_defs)
qed (simp add: ctype_defs)

lemma before_after:
  assumes "before s (t # ts)" "expression s' = expression s" "tp s' = skip_space s + length (tok_text t)"
  shows "before s' ts"
proof -
  have "drop (tp s') (expression s') = drop (length (tok_text t)) (drop (skip_space s) (expression s))"
    by (simp add: assms(2,3) add.commute)
  also have "\<dots> = CHR '' '' # text_of ts" by (simp add: before_Cons(1) [OF assms(1)])
  finally show ?thesis using assms(1) text_of_dropWhile by (simp add: before_def)
qed

definition tok_code :: "token \<Rightarrow> int" where
  "tok_code t = (case t of TNum _ \<Rightarrow> NUM | TName _ \<Rightarrow> STR_TOK | TOp c \<Rightarrow> c | TAssign _ \<Rightarrow> OP_ASSIGN)"

text \<open>The statics after an operator or the end of the text is read.\<close>

definition moved :: "token list \<Rightarrow> 's expr_state \<Rightarrow> 's expr_state" where
  "moved ts s =
     (case ts of
        [] \<Rightarrow> s\<lparr>lasttok := curtok s, curtok := 0, tp := skip_space s\<rparr>
      | t # _ \<Rightarrow> s\<lparr>tp := skip_space s + length (tok_text t), lasttp := skip_space s, lasttok := curtok s,
                  curtok := tok_code t, assigntok := (case t of TAssign c \<Rightarrow> c | _ \<Rightarrow> assigntok s)\<rparr>)"

text \<open>The tokens that may stand behind an operand or in front of one.\<close>

definition fits :: "int \<Rightarrow> token list \<Rightarrow> bool" where
  "fits cur ts \<longleftrightarrow>
     (case ts of
        [] \<Rightarrow> True
      | TOp c # r \<Rightarrow> c \<in> plain_ops \<or> c \<in> {POSTINC, POSTDEC} \<and> cur = STR_TOK \<or>
          c \<in> {PREINC, PREDEC} \<and> cur \<noteq> STR_TOK \<and> cur \<noteq> NUM \<and> (case r of TName _ # _ \<Rightarrow> True | _ \<Rightarrow> False)
      | TAssign c # r \<Rightarrow> True
      | _ \<Rightarrow> False)"

lemma readtok_op:
  assumes "before s ts" "fits (curtok s) ts"
  shows "readtok E sub s = Returns () (moved ts s)"
proof (cases ts)
  case Nil
  then have "drop (skip_space s) (expression s) = []" using assms(1) unfolding drop_skip by (simp add: before_def)
  then have "length (expression s) \<le> skip_space s" by simp
  with Nil show ?thesis by (simp add: readtok.simps [of E sub s] Let_def moved_def)
next
  case (Cons t r)
  note b = before_Cons [OF assms(1) [unfolded Cons]]
  obtain a n where lex: "lex_operator (curtok s) (lasttok s) (drop (skip_space s) (expression s)) = Operator (tok_code t) a n"
      "n = length (tok_text t)" "(case a of Some x \<Rightarrow> x | None \<Rightarrow> assigntok s) = (case t of TAssign c \<Rightarrow> c | _ \<Rightarrow> assigntok s)"
    and first: "\<not> legal_variable_starter (hd (tok_text t))" "\<not> DIGIT (hd (tok_text t))"
  proof (cases t)
    case (TOp c)
    have c: "c \<in> plain_ops \<union> {PREINC, PREDEC, POSTINC, POSTDEC}"
      using assms(1) Cons TOp by (simp add: before_def)
    have lex: "lex_operator (curtok s) (lasttok s) (op_text c @ CHR '' '' # text_of r) = Operator c None (length (op_text c))"
    proof (cases "c \<in> {PREINC, PREDEC}")
      case True
      have "c \<notin> plain_ops \<and> c \<notin> {POSTINC, POSTDEC}" using True by (auto simp: plain_ops_def tok_defs)
      then obtain x u where "r = TName x # u" "curtok s \<noteq> STR_TOK" "curtok s \<noteq> NUM"
        using assms(2) Cons TOp by (auto simp: fits_def split: list.splits token.splits)
      moreover from this have "legal_name x" using assms(1) Cons by (simp add: before_def)
      ultimately show ?thesis using lex_pre [OF True, of "curtok s" x] by (simp add: text_Cons)
    next
      case False
      with c consider "c \<in> plain_ops" | "c \<in> {POSTINC, POSTDEC}" "c \<notin> plain_ops" by blast
      then show ?thesis
      proof cases
        case 1 then show ?thesis by (rule lex_plain)
      next
        case 2
        with False assms(2) Cons TOp have "curtok s = STR_TOK" by (simp add: fits_def split: list.splits token.splits)
        then show ?thesis using lex_post [OF 2(1)] by simp
      qed
    qed
    note f = op_first [OF c]
    have d: "drop (skip_space s) (expression s) = op_text c @ CHR '' '' # text_of r" using b(1) TOp by simp
    show thesis
      by (rule that [of None "length (op_text c)"]) (simp_all only: d lex f TOp tok_code_def token.case tok_text.simps option.case simp_thms)
  next
    case (TAssign c)
    then have c: "c \<in> assign_ops" using assms(1) Cons by (simp add: before_def)
    then have "c \<in> plain_ops" by (auto simp: assign_ops_def plain_ops_def)
    then have f: "op_text c \<noteq> []" "\<not> legal_variable_starter (hd (op_text c))" "\<not> DIGIT (hd (op_text c))"
      using op_first [of c] by simp_all
    have d: "drop (skip_space s) (expression s) = op_text c @ CHR ''='' # CHR '' '' # text_of r" using b(1) TAssign by simp
    have h: "hd (op_text c @ ''='') = hd (op_text c)" using f(1) by simp
    show thesis
      by (rule that [of "Some c" "Suc (length (op_text c))"])
        (simp_all only: d lex_assign [OF c] f h TAssign tok_code_def token.case tok_text.simps option.case simp_thms
          length_append list.size add_0_right add_Suc_right)
  qed (use assms(2) Cons in \<open>simp_all add: fits_def\<close>)
  with b show ?thesis using Cons
    by (cases a; simp add: readtok.simps [of E sub s] Let_def moved_def read_operator_def)
qed


lemma moved_next: "before s (t # ts) \<Longrightarrow> before (moved (t # ts) s) ts"
  by (rule before_after) (simp_all add: moved_def)

lemma readtok_number:
  assumes "before s (TNum v # ts)"
  shows "readtok E sub s = Returns () (s\<lparr>tp := skip_space s + length (fmt_base10 v), lasttp := skip_space s,
      tokval := v, lasttok := curtok s, curtok := NUM\<rparr>)"
proof -
  note b = before_Cons [OF assms, simplified]
  have d: "DIGIT (hd (fmt_base10 v))" using fmt_base10_DIGIT [of "hd (fmt_base10 v)" v] fmt_base10_nonempty by simp
  then have "\<not> legal_variable_starter (hd (fmt_base10 v))" by (auto simp: ctype_defs)
  moreover have "takeWhile number_char (fmt_base10 v @ CHR '' '' # text_of ts) = fmt_base10 v"
    using fmt_base10_DIGIT by (subst takeWhile_append2) (auto simp: number_char_def ctype_defs)
  ultimately show ?thesis using b d
    by (simp add: readtok.simps [of E sub s] Let_def read_number_def strlong_decimal)
qed


section \<open>Variables that hold integers\<close>

text \<open>
  What the theorem assumes of the shell: a variable is unset, empty or holds a decimal number,
  \<open>iv\<close> reads it, \<open>upd\<close> is the effect of assigning a number. Neither is refused.
\<close>

definition integer_text :: "string option \<Rightarrow> intmax \<Rightarrow> bool" where
  "integer_text t v \<longleftrightarrow> (t = None \<or> t = Some []) \<and> v = 0 \<or> t = Some (decimal v)"

definition integer_shell ::
  "'s shell_ops \<Rightarrow> ('s \<Rightarrow> string \<Rightarrow> intmax) \<Rightarrow> ('s \<Rightarrow> string \<Rightarrow> intmax \<Rightarrow> 's) \<Rightarrow> bool" where
  "integer_shell E iv upd \<longleftrightarrow>
     (\<forall>sh x ae. legal_name x \<longrightarrow>
        (\<exists>found. sh_find E False ae x sh = (found, sh) \<and> (found \<or> \<not> sh_unbound_is_error E sh)) \<and>
        (\<exists>t. sh_value E False ae x sh = (Element t (- 1) ae, sh) \<and> integer_text t (iv sh x)) \<and>
        (\<forall>v. \<exists>sh'. sh_bind E ae x (decimal v) sh = (False, sh') \<and> sh_special E x sh' = upd sh x v))"

text \<open>The evaluator of variable values on decimal numbers.\<close>

definition reads_decimals :: "nat \<Rightarrow> (string \<Rightarrow> 's parser) \<Rightarrow> bool" where
  "reads_decimals k sub \<longleftrightarrow>
     (\<forall>v s. length (expr_stack s) = k \<and> noeval s = 0 \<longrightarrow>
        (\<exists>s'. sub (decimal v) s = Returns v s' \<and> same_context s s' \<and> shell s' = shell s \<and>
           already_expanded s' = already_expanded s))"

definition ctx :: "string \<Rightarrow> expr_context list \<Rightarrow> int \<Rightarrow> bool \<Rightarrow> 's expr_state \<Rightarrow> bool" where
  "ctx e stk ne ae s \<longleftrightarrow> expression s = e \<and> expr_stack s = stk \<and> noeval s = ne \<and> 0 \<le> ne \<and>
     already_expanded s = ae \<and> lv_ind (curlval s) = - 1"

lemma integer_textD: "integer_text t v \<Longrightarrow> t = None \<and> v = 0 \<or> t = Some [] \<and> v = 0 \<or> t = Some (decimal v)"
  by (auto simp: integer_text_def)

lemma decimal_nonempty [simp]: "decimal v \<noteq> []"
  by (simp add: decimal_def fmt_base10_nonempty)

lemma streval_integer:
  assumes E: "integer_shell E iv upd" and sub: "reads_decimals k sub"
    and s: "length (expr_stack s) = k" "noeval s = 0" "block_text (tokstr s) = x" "legal_name x"
  shows "\<exists>s'. expr_streval E sub False s = Returns (iv (shell s) x) s' \<and>
     curtok s' = curtok s \<and> lasttok s' = lasttok s \<and> tp s' = tp s \<and> tokstr s' = tokstr s \<and>
     expression s' = expression s \<and> expr_stack s' = expr_stack s \<and> noeval s' = noeval s \<and>
     shell s' = shell s \<and> already_expanded s' = already_expanded s \<and> lv_ind (curlval s') = - 1"
proof -
  let ?sh = "shell s" and ?ae = "already_expanded s"
  obtain found where f: "sh_find E False ?ae x ?sh = (found, ?sh)" "found \<or> \<not> sh_unbound_is_error E ?sh"
    using E s(4) unfolding integer_shell_def by blast
  obtain t where v: "sh_value E False ?ae x ?sh = (Element t (- 1) ?ae, ?sh)" and t: "integer_text t (iv ?sh x)"
    using E s(4) unfolding integer_shell_def by blast
  define m where "m = (case t of None \<Rightarrow> Returns 0 s | Some v \<Rightarrow> if v = [] then Returns 0 s else sub v s)"
  have eq: "expr_streval E sub False s = then_do m (\<lambda>tval s. Returns tval
      (s\<lparr>curlval := \<lparr>lv_tokstr = tokstr s, lv_tokval = tval, lv_ind = - 1\<rparr>\<rparr>))"
    using f v s by (cases t; simp add: expr_streval_def Let_def m_def; auto)
  obtain s1 where s1: "sub (decimal (iv ?sh x)) s = Returns (iv ?sh x) s1" "same_context s s1"
      "shell s1 = ?sh" "already_expanded s1 = ?ae"
    using sub s unfolding reads_decimals_def by blast
  have "(m = Returns (iv ?sh x) s) \<or> (m = Returns (iv ?sh x) s1)"
    using integer_textD [OF t] s1(1) by (auto simp: m_def)
  with s1 show ?thesis unfolding eq
    by (elim disjE) (simp_all add: same_context_def SAVETOK_def)
qed

lemma store_integer:
  assumes "integer_shell E iv upd" "noeval s = 0" "legal_name x"
  shows "store_lvalue E x (- 1) v s = Returns () (s\<lparr>shell := upd (shell s) x v\<rparr>)"
proof -
  obtain sh where sh: "sh_bind E (already_expanded s) x (decimal v) (shell s) = (False, sh)" "sh_special E x sh = upd (shell s) x v"
    using assms(1,3) unfolding integer_shell_def by blast
  moreover have "x \<noteq> []" using assms(3) by (auto simp: legal_name_def)
  ultimately show ?thesis using assms(2) by (simp add: store_lvalue_def expr_bind_variable_def)
qed

definition first_code :: "token list \<Rightarrow> int" where
  "first_code ts = (case ts of [] \<Rightarrow> 0 | t # _ \<Rightarrow> tok_code t)"

lemma moved_simps [simp]:
  "curtok (moved ts s) = first_code ts" "lasttok (moved ts s) = curtok s" "expression (moved ts s) = expression s"
  "expr_stack (moved ts s) = expr_stack s" "noeval (moved ts s) = noeval s" "shell (moved ts s) = shell s"
  "already_expanded (moved ts s) = already_expanded s" "curlval (moved ts s) = curlval s"
  "tokstr (moved ts s) = tokstr s"
  by (cases ts; simp add: moved_def first_code_def)+

lemma legal_nameD:
  assumes "legal_name x"
  shows "takeWhile legal_variable_char (x @ CHR '' '' # r) = x" "legal_variable_starter (hd x)"
proof -
  have "\<forall>c \<in> set x. legal_variable_char c" using assms by (simp add: legal_name_def list_all_iff)
  then show "takeWhile legal_variable_char (x @ CHR '' '' # r) = x"
    by (subst takeWhile_append2) (auto simp: ctype_defs)
  show "legal_variable_starter (hd x)" using assms by (simp add: legal_name_def)
qed

lemma readtok_name:
  assumes E: "integer_shell E iv upd" and sub: "reads_decimals (length stk) sub"
    and s: "ctx e stk ne ae s" "before s (TName x # ts)" "fits STR_TOK ts"
  shows "\<exists>s'. readtok E sub s = Returns () s' \<and> ctx e stk ne ae s' \<and> shell s' = shell s \<and> before s' ts \<and>
     curtok s' = STR_TOK \<and> lasttok s' = curtok s \<and> (\<exists>b. tokstr s' = Some (b, x)) \<and>
     tokval s' = (if ne \<noteq> 0 \<or> first_code ts = EQ \<and> lasttok s \<noteq> PREINC \<and> lasttok s \<noteq> PREDEC then 0
                  else iv (shell s) x)"
proof -
  note b = before_Cons [OF s(2), simplified]
  have x: "legal_name x" using s(2) by (simp add: before_def)
  define cp where "cp = skip_space s"
  define s1 where "s1 = s\<lparr>tp := cp, lasttp := cp\<rparr>"
  define s2 where "s2 = set_name (length x) s1"
  define sp where "sp = s2\<lparr>tokstr := None, tp := cp + length x, noeval := 1, curtok := STR_TOK\<rparr>"
  have ne: "name_end E s1 = Some (length x, False)"
    using b(1) legal_nameD(1) [OF x] by (simp add: name_end_def s1_def cp_def Let_def byte_at_def nth_append)
  have eq: "readtok E sub s = then_do (readtok E sub sp)
      (\<lambda>_ s3. read_name_value E sub (cp + length x) False (curtok s3) (RESTORETOK (SAVETOK s2) s3))"
    using b ne legal_nameD(2) [OF x]
    by (simp add: readtok.simps [of E sub s] Let_def cp_def [symmetric] s1_def [symmetric] s2_def sp_def)
  have nm: "take (length x) (drop cp (expression s)) = x" using b(1) by (simp add: cp_def)
  have "before sp ts"
    by (rule before_after [OF s(2)]) (simp_all add: sp_def s2_def s1_def cp_def)
  then have peek: "readtok E sub sp = Returns () (moved ts sp)"
    using s(3) by (intro readtok_op) (simp_all add: sp_def)
  define sr where "sr = RESTORETOK (SAVETOK s2) (moved ts sp)"
  have sr: "curtok sr = curtok s" "lasttok sr = lasttok s" "expression sr = e" "expr_stack sr = stk"
      "noeval sr = ne" "shell sr = shell s" "already_expanded sr = ae" "lv_ind (curlval sr) = - 1"
      "tokstr sr = Some (next_block s, x)"
    using s(1) nm by (simp_all add: sr_def sp_def s2_def s1_def RESTORETOK_def SAVETOK_def set_name_def
        reset_curlval_def ctx_def init_lvalue_def)
  define go where "go \<longleftrightarrow> lasttok s = PREINC \<or> lasttok s = PREDEC \<or> first_code ts \<noteq> EQ"
  have eq2: "readtok E sub s = then_do (if go then expr_streval E sub False (sr\<lparr>lastlval := curlval sr\<rparr>) else Returns 0 sr)
      (\<lambda>v s. Returns () (s\<lparr>tokval := v, lasttok := curtok s, curtok := STR_TOK, tp := cp + length x\<rparr>))"
    unfolding eq peek by (simp add: read_name_value_def sr_def [symmetric] sr go_def)
  have "\<exists>v s3. (if go then expr_streval E sub False (sr\<lparr>lastlval := curlval sr\<rparr>) else Returns 0 sr) = Returns v s3 \<and>
      v = (if ne \<noteq> 0 \<or> \<not> go then 0 else iv (shell s) x) \<and> ctx e stk ne ae s3 \<and> shell s3 = shell s \<and>
      curtok s3 = curtok s \<and> tokstr s3 = Some (next_block s, x)"
  proof (cases "go \<and> ne = 0")
    case True
    then show ?thesis
      using streval_integer [OF E sub, of "sr\<lparr>lastlval := curlval sr\<rparr>" x] sr s(1) x
      by (auto simp: block_text_def ctx_def)
  next
    case False
    then show ?thesis using sr s(1) by (auto simp: expr_streval_def ctx_def)
  qed
  then obtain v s3 where s3: "(if go then expr_streval E sub False (sr\<lparr>lastlval := curlval sr\<rparr>) else Returns 0 sr) = Returns v s3"
      "v = (if ne \<noteq> 0 \<or> \<not> go then 0 else iv (shell s) x)" "ctx e stk ne ae s3" "shell s3 = shell s"
      "curtok s3 = curtok s" "tokstr s3 = Some (next_block s, x)" by blast
  let ?s' = "s3\<lparr>tokval := v, lasttok := curtok s3, curtok := STR_TOK, tp := cp + length x\<rparr>"
  have "before ?s' ts"
    by (rule before_after [OF s(2)]) (use s3(3) s(1) in \<open>simp_all add: ctx_def cp_def\<close>)
  moreover have "readtok E sub s = Returns () ?s'" unfolding eq2 s3(1) by simp
  ultimately show ?thesis using s3 by (intro exI [of _ ?s']) (auto simp: ctx_def go_def)
qed

end
