(* ===== verification/Bash_ExprSem.thy ===== *)
theory Bash_ExprSem imports Bash_ExprLex begin

text \<open>
  The evaluator of \<open>Bash_Expr\<close> computes what C says: abstract syntax, its meaning, its text with
  as few parentheses as the precedences allow, and the theorem that the text evaluates to the
  meaning, errors and assignments included.
\<close>

section \<open>Expressions and their meaning\<close>

text \<open>Operators are the token codes of \<open>Bash_Expr\<close>; \<open>True\<close> is \<open>++\<close>, \<open>False\<close> is \<open>--\<close>.\<close>

datatype aexp =
  Num intmax
| Var string
| Pre bool string
| Post bool string
| Unary int aexp
| Binary int aexp aexp
| And aexp aexp
| Or aexp aexp
| Cond aexp aexp aexp
| Assign string aexp
| AssignOp int string aexp
| Comma aexp aexp

definition unary_op :: "int \<Rightarrow> intmax \<Rightarrow> intmax" where
  "unary_op c v =
     (if c = NOT_TOK then truth (v = 0) else if c = BNOT then not v else if c = MINUS then - v else v)"

text \<open>C's binary operators on 64 bits; division by 0 is an error where it is evaluated.\<close>

definition c_div :: "intmax \<Rightarrow> intmax \<Rightarrow> intmax" where
  "c_div a b = word_of_int (sint a sdiv sint b)"

definition c_mod :: "intmax \<Rightarrow> intmax \<Rightarrow> intmax" where
  "c_mod a b = word_of_int (sint a smod sint b)"

definition binary_op :: "bool \<Rightarrow> int \<Rightarrow> intmax \<Rightarrow> intmax \<Rightarrow> intmax option" where
  "binary_op skipped c a b =
     (if c = MUL then Some (a * b)
      else if c = DIV then (if b = 0 then (if skipped then Some a else None) else Some (c_div a b))
      else if c = MOD then (if b = 0 then (if skipped then Some 0 else None) else Some (c_mod a b))
      else if c = PLUS then Some (a + b)
      else if c = MINUS then Some (a - b)
      else if c = LSH then Some (arith_lsh a b)
      else if c = RSH then Some (arith_rsh a b)
      else if c = BAND then Some (and a b)
      else if c = BXOR then Some (xor a b)
      else if c = BOR then Some (or a b)
      else if c = POWER then (if sint b < 0 then None else Some (a ^ unat b))
      else if c = EQEQ then Some (truth (a = b))
      else if c = NEQ then Some (truth (a \<noteq> b))
      else if c = LEQ then Some (truth (sint a \<le> sint b))
      else if c = GEQ then Some (truth (sint b \<le> sint a))
      else if c = LT then Some (truth (sint a < sint b))
      else Some (truth (sint b < sint a)))"

text \<open>
  The meaning: the value or an error, and the shell afterwards. \<open>skipped\<close> is for an operand that
  is not evaluated: it reads variables as 0 and assigns nothing, but a negative exponent in it is
  still an error.
\<close>

fun sem ::
  "('s \<Rightarrow> string \<Rightarrow> intmax) \<Rightarrow> ('s \<Rightarrow> string \<Rightarrow> intmax \<Rightarrow> 's) \<Rightarrow> bool \<Rightarrow> aexp \<Rightarrow> 's \<Rightarrow> intmax option \<times> 's" where
  "sem iv upd skipped (Num v) sh = (Some v, sh)"
| "sem iv upd skipped (Var x) sh = (Some (if skipped then 0 else iv sh x), sh)"
| "sem iv upd skipped (Pre inc x) sh =
     (let v = (if skipped then 0 else iv sh x) + (if inc then 1 else - 1)
      in (Some v, if skipped then sh else upd sh x v))"
| "sem iv upd skipped (Post inc x) sh =
     (let v = (if skipped then 0 else iv sh x)
      in (Some v, if skipped then sh else upd sh x (v + (if inc then 1 else - 1))))"
| "sem iv upd skipped (Unary c e) sh =
     (case sem iv upd skipped e sh of (None, sh) \<Rightarrow> (None, sh) | (Some v, sh) \<Rightarrow> (Some (unary_op c v), sh))"
| "sem iv upd skipped (Binary c a b) sh =
     (case sem iv upd skipped a sh of (None, sh) \<Rightarrow> (None, sh) | (Some va, sh) \<Rightarrow>
        (case sem iv upd skipped b sh of (None, sh) \<Rightarrow> (None, sh) | (Some vb, sh) \<Rightarrow> (binary_op skipped c va vb, sh)))"
| "sem iv upd skipped (And a b) sh =
     (case sem iv upd skipped a sh of (None, sh) \<Rightarrow> (None, sh) | (Some va, sh) \<Rightarrow>
        (case sem iv upd (skipped \<or> va = 0) b sh of (None, sh) \<Rightarrow> (None, sh)
         | (Some vb, sh) \<Rightarrow> (Some (truth (va \<noteq> 0 \<and> vb \<noteq> 0)), sh)))"
| "sem iv upd skipped (Or a b) sh =
     (case sem iv upd skipped a sh of (None, sh) \<Rightarrow> (None, sh) | (Some va, sh) \<Rightarrow>
        (case sem iv upd (skipped \<or> va \<noteq> 0) b sh of (None, sh) \<Rightarrow> (None, sh)
         | (Some vb, sh) \<Rightarrow> (Some (truth (va \<noteq> 0 \<or> vb \<noteq> 0)), sh)))"
| "sem iv upd skipped (Cond c a b) sh =
     (case sem iv upd skipped c sh of (None, sh) \<Rightarrow> (None, sh) | (Some vc, sh) \<Rightarrow>
        (case sem iv upd (skipped \<or> vc = 0) a sh of (None, sh) \<Rightarrow> (None, sh) | (Some va, sh) \<Rightarrow>
           (case sem iv upd (skipped \<or> vc \<noteq> 0) b sh of (None, sh) \<Rightarrow> (None, sh)
            | (Some vb, sh) \<Rightarrow> (Some (if vc \<noteq> 0 then va else vb), sh))))"
| "sem iv upd skipped (Assign x e) sh =
     (case sem iv upd skipped e sh of (None, sh) \<Rightarrow> (None, sh)
      | (Some v, sh) \<Rightarrow> (Some v, if skipped then sh else upd sh x v))"
| "sem iv upd skipped (AssignOp c x e) sh =
     (let old = (if skipped then 0 else iv sh x) in
      case sem iv upd skipped e sh of (None, sh) \<Rightarrow> (None, sh) | (Some v, sh) \<Rightarrow>
        (case binary_op skipped c old v of None \<Rightarrow> (None, sh)
         | Some v \<Rightarrow> (Some v, if skipped then sh else upd sh x v)))"
| "sem iv upd skipped (Comma a b) sh =
     (case sem iv upd skipped a sh of (None, sh) \<Rightarrow> (None, sh) | (Some va, sh) \<Rightarrow> sem iv upd skipped b sh)"

text \<open>The level of an expression, and its tokens where a level of at least \<open>p\<close> is wanted.\<close>

definition op_level :: "int \<Rightarrow> nat" where
  "op_level c =
     (if c \<in> {MUL, DIV, MOD} then 12 else if c \<in> {PLUS, MINUS} then 11 else if c \<in> {LSH, RSH} then 10
      else if c \<in> {LEQ, GEQ, LT, GT} then 9 else if c \<in> {EQEQ, NEQ} then 8 else if c = BAND then 7
      else if c = BXOR then 6 else if c = BOR then 5 else 13)"

fun level :: "aexp \<Rightarrow> nat" where
  "level (Num v) = 15" | "level (Var x) = 15" | "level (Pre i x) = 15" | "level (Post i x) = 15"
| "level (Unary c e) = 14" | "level (Binary c a b) = op_level c" | "level (And a b) = 4" | "level (Or a b) = 3"
| "level (Cond c a b) = 2" | "level (Assign x e) = 1" | "level (AssignOp c x e) = 1" | "level (Comma a b) = 0"

fun tokens :: "nat \<Rightarrow> aexp \<Rightarrow> token list" and bare :: "aexp \<Rightarrow> token list" where
  "tokens p e = (if level e < p then TOp LPAR # bare e @ [TOp RPAR] else bare e)"
| "bare (Num v) = [TNum v]"
| "bare (Var x) = [TName x]"
| "bare (Pre inc x) = [TOp (if inc then PREINC else PREDEC), TName x]"
| "bare (Post inc x) = [TName x, TOp (if inc then POSTINC else POSTDEC)]"
| "bare (Unary c e) = TOp c # tokens 14 e"
| "bare (Binary c a b) =
     (if c = POWER then tokens 14 a @ TOp c # tokens 13 b
      else tokens (op_level c) a @ TOp c # tokens (Suc (op_level c)) b)"
| "bare (And a b) = tokens 4 a @ TOp LAND # tokens 5 b"
| "bare (Or a b) = tokens 3 a @ TOp LOR # tokens 4 b"
| "bare (Cond c a b) = tokens 3 c @ TOp QUES # tokens 0 a @ TOp COL # tokens 2 b"
| "bare (Assign x e) = TName x # TOp EQ # tokens 1 e"
| "bare (AssignOp c x e) = TName x # TAssign c # tokens 1 e"
| "bare (Comma a b) = tokens 0 a @ TOp COMMA # tokens 1 b"

fun wf_aexp :: "aexp \<Rightarrow> bool" where
  "wf_aexp (Num v) \<longleftrightarrow> True"
| "wf_aexp (Var x) \<longleftrightarrow> legal_name x"
| "wf_aexp (Pre i x) \<longleftrightarrow> legal_name x"
| "wf_aexp (Post i x) \<longleftrightarrow> legal_name x"
| "wf_aexp (Unary c e) \<longleftrightarrow> unary_tok c \<and> wf_aexp e"
| "wf_aexp (Binary c a b) \<longleftrightarrow>
     c \<in> {MUL, DIV, MOD, PLUS, MINUS, LSH, RSH, LEQ, GEQ, LT, GT, EQEQ, NEQ, BAND, BXOR, BOR, POWER} \<and>
     wf_aexp a \<and> wf_aexp b"
| "wf_aexp (And a b) \<longleftrightarrow> wf_aexp a \<and> wf_aexp b"
| "wf_aexp (Or a b) \<longleftrightarrow> wf_aexp a \<and> wf_aexp b"
| "wf_aexp (Cond c a b) \<longleftrightarrow> wf_aexp c \<and> wf_aexp a \<and> wf_aexp b"
| "wf_aexp (Assign x e) \<longleftrightarrow> legal_name x \<and> wf_aexp e"
| "wf_aexp (AssignOp c x e) \<longleftrightarrow> c \<in> assign_ops \<and> legal_name x \<and> wf_aexp e"
| "wf_aexp (Comma a b) \<longleftrightarrow> wf_aexp a \<and> wf_aexp b"


section \<open>What a level makes of the tokens of an expression\<close>

definition plain_next :: "token list \<Rightarrow> bool" where
  "plain_next ts \<longleftrightarrow> (case ts of [] \<Rightarrow> True | TOp c # _ \<Rightarrow> c \<in> plain_ops \<and> c \<noteq> EQ | _ \<Rightarrow> False)"

text \<open>What may stand behind an expression of level \<open>p\<close>: levels 1, 2 and 13 associate to the right.\<close>

definition follows :: "nat \<Rightarrow> token list \<Rightarrow> bool" where
  "follows p ts \<longleftrightarrow> plain_next ts \<and> stops (if p \<in> {1, 2, 13} then p else Suc p) (first_code ts)"

text \<open>The first token of \<open>ts\<close> is the current token.\<close>

definition looking :: "token list \<Rightarrow> 's expr_state \<Rightarrow> bool" where
  "looking ts s \<longleftrightarrow> curtok s = first_code ts \<and> lasttok s \<notin> {PREINC, PREDEC} \<and> (ts \<noteq> [] \<longrightarrow> before s (tl ts))"

definition failed :: "'s \<Rightarrow> ('v, 's) evaluation \<Rightarrow> bool" where
  "failed sh m \<longleftrightarrow> (\<exists>s. m = Leaves s \<and> shell s = sh \<and> caught (failure s))"

text \<open>In front of an operand.\<close>

definition ready :: "token list \<Rightarrow> 's expr_state \<Rightarrow> bool" where
  "ready ts s \<longleftrightarrow> before s ts \<and> curtok s \<notin> {STR_TOK, NUM, PREINC, PREDEC} \<and> lasttok s \<notin> {PREINC, PREDEC}"

definition delivers ::
  "'s shell_ops \<Rightarrow> ('s \<Rightarrow> string \<Rightarrow> intmax) \<Rightarrow> ('s \<Rightarrow> string \<Rightarrow> intmax \<Rightarrow> 's) \<Rightarrow> 's reader \<Rightarrow>
   nat \<Rightarrow> aexp \<Rightarrow> ('s expr_state \<Rightarrow> bool) \<Rightarrow> bool \<Rightarrow> token list \<Rightarrow> 's expr_state \<Rightarrow> nat \<Rightarrow> nat \<Rightarrow> bool" where
  "delivers E iv upd rd p e C skipped ts s n k \<longleftrightarrow>
     (\<exists>sr. rd s = Returns () sr \<and> curtok sr \<notin> {0, COL} \<and> (p = 15 \<longrightarrow> \<not> unary_tok (curtok sr)) \<and>
        (\<forall>v sh. sem iv upd skipped e (shell s) = (Some v, sh) \<longrightarrow>
           (\<exists>s1 n'. lev E rd (EXP_LOWEST E rd k) p n sr = tail E rd (EXP_LOWEST E rd k) n p n' v s1 \<and>
              C s1 \<and> shell s1 = sh \<and> looking ts s1 \<and> length ts < n' \<and> n' \<le> n)) \<and>
        (\<forall>sh. sem iv upd skipped e (shell s) = (None, sh) \<longrightarrow> failed sh (lev E rd (EXP_LOWEST E rd k) p n sr)))"

definition means ::
  "'s shell_ops \<Rightarrow> ('s \<Rightarrow> string \<Rightarrow> intmax) \<Rightarrow> ('s \<Rightarrow> string \<Rightarrow> intmax \<Rightarrow> 's) \<Rightarrow> 's reader \<Rightarrow>
   expr_context list \<Rightarrow> nat \<Rightarrow> aexp \<Rightarrow> bool" where
  "means E iv upd rd stk p e \<longleftrightarrow>
     (\<forall>ex ne ae ts s n k.
        ctx ex stk ne ae s \<and> ready (tokens p e @ ts) s \<and> follows p ts \<and>
        length (tokens p e @ ts) < n \<and> length (tokens p e @ ts) \<le> k \<longrightarrow>
        delivers E iv upd rd p e (ctx ex stk ne ae) (ne \<noteq> 0) ts s n k)"

lemma stops_mono: "stops p c \<Longrightarrow> p \<le> q \<Longrightarrow> stops q c"
  by (auto simp: stops_def)

lemma follows_Suc:
  assumes "follows p ts"
  shows "follows (Suc p) ts" "stops (Suc p) (first_code ts)"
proof -
  have "stops (Suc p) (first_code ts)"
    using assms stops_mono [of p "first_code ts" "Suc p"] by (auto simp: follows_def split: if_splits)
  then show "stops (Suc p) (first_code ts)" "follows (Suc p) ts"
    using assms stops_mono [of "Suc p" "first_code ts" "Suc (Suc p)"] by (auto simp: follows_def)
qed

lemma follows_fits: "follows p ts \<Longrightarrow> fits cur ts"
  by (auto simp: follows_def plain_next_def fits_def split: list.splits token.splits)

lemma tail_stops:
  "stops p (curtok s) \<Longrightarrow> p < 16 \<Longrightarrow> tail E rd low N p n v s = Returns v s"
  by (rule tail_stop) (auto simp: stops_def)

lemma failed_bind: "failed sh m \<Longrightarrow> failed sh (then_do m f)"
  by (auto simp: failed_def)

text \<open>Using it: reading an operand of level \<open>p\<close> in front of what that level leaves alone.\<close>

lemma means_run:
  assumes "means E iv upd rd stk p e" "ctx ex stk ne ae s" "ready (tokens p e @ ts) s"
    and "follows p ts" "stops p (first_code ts)" "p < 16"
    and "length (tokens p e @ ts) < n" "length (tokens p e @ ts) \<le> k"
  obtains sr where "rd s = Returns () sr" "curtok sr \<notin> {0, COL}" "p = 15 \<longrightarrow> \<not> unary_tok (curtok sr)"
    and "\<And>v sh. sem iv upd (ne \<noteq> 0) e (shell s) = (Some v, sh) \<Longrightarrow>
      \<exists>s1. lev E rd (EXP_LOWEST E rd k) p n sr = Returns v s1 \<and> ctx ex stk ne ae s1 \<and> shell s1 = sh \<and> looking ts s1"
    and "\<And>sh. sem iv upd (ne \<noteq> 0) e (shell s) = (None, sh) \<Longrightarrow> failed sh (lev E rd (EXP_LOWEST E rd k) p n sr)"
proof -
  have "delivers E iv upd rd p e (ctx ex stk ne ae) (ne \<noteq> 0) ts s n k"
    using assms(1-4,7,8) unfolding means_def by blast
  then obtain sr where sr: "rd s = Returns () sr" "curtok sr \<notin> {0, COL}" "p = 15 \<longrightarrow> \<not> unary_tok (curtok sr)"
    and some: "\<And>v sh. sem iv upd (ne \<noteq> 0) e (shell s) = (Some v, sh) \<Longrightarrow>
       \<exists>s1 n'. lev E rd (EXP_LOWEST E rd k) p n sr = tail E rd (EXP_LOWEST E rd k) n p n' v s1 \<and>
         ctx ex stk ne ae s1 \<and> shell s1 = sh \<and> looking ts s1 \<and> length ts < n' \<and> n' \<le> n"
    and none: "\<And>sh. sem iv upd (ne \<noteq> 0) e (shell s) = (None, sh) \<Longrightarrow> failed sh (lev E rd (EXP_LOWEST E rd k) p n sr)"
    unfolding delivers_def by blast
  show thesis
  proof (rule that [OF sr])
    fix v sh
    assume "sem iv upd (ne \<noteq> 0) e (shell s) = (Some v, sh)"
    with some obtain s1 n' where s1: "lev E rd (EXP_LOWEST E rd k) p n sr = tail E rd (EXP_LOWEST E rd k) n p n' v s1"
      "ctx ex stk ne ae s1" "shell s1 = sh" "looking ts s1" by blast
    moreover have "tail E rd (EXP_LOWEST E rd k) n p n' v s1 = Returns v s1"
      using assms(5,6) s1(4) by (intro tail_stops) (simp_all add: looking_def)
    ultimately show "\<exists>s1. lev E rd (EXP_LOWEST E rd k) p n sr = Returns v s1 \<and> ctx ex stk ne ae s1 \<and> shell s1 = sh \<and> looking ts s1"
      by auto
  next
    fix sh
    assume "sem iv upd (ne \<noteq> 0) e (shell s) = (None, sh)"
    then show "failed sh (lev E rd (EXP_LOWEST E rd k) p n sr)" by (rule none)
  qed
qed

lemma meansI:
  assumes "\<And>ex ne ae ts s n k. ctx ex stk ne ae s \<Longrightarrow> ready (tokens p e @ ts) s \<Longrightarrow> follows p ts \<Longrightarrow>
      length (tokens p e @ ts) < n \<Longrightarrow> length (tokens p e @ ts) \<le> k \<Longrightarrow>
      delivers E iv upd rd p e (ctx ex stk ne ae) (ne \<noteq> 0) ts s n k"
  shows "means E iv upd rd stk p e"
  unfolding means_def using assms by blast

lemma deliversI:
  assumes "rd s = Returns () sr" "curtok sr \<notin> {0, COL}" "p = 15 \<Longrightarrow> \<not> unary_tok (curtok sr)"
    and "\<And>v sh. sem iv upd skipped e (shell s) = (Some v, sh) \<Longrightarrow>
       \<exists>s1 n'. lev E rd (EXP_LOWEST E rd k) p n sr = tail E rd (EXP_LOWEST E rd k) n p n' v s1 \<and>
         C s1 \<and> shell s1 = sh \<and> looking ts s1 \<and> length ts < n' \<and> n' \<le> n"
    and "\<And>sh. sem iv upd skipped e (shell s) = (None, sh) \<Longrightarrow> failed sh (lev E rd (EXP_LOWEST E rd k) p n sr)"
  shows "delivers E iv upd rd p e C skipped ts s n k"
  unfolding delivers_def using assms by blast

text \<open>From a level to the one below it.\<close>

lemma means_down:
  assumes m: "means E iv upd rd stk (Suc p) e" and p: "p < 15" and t: "tokens p e = tokens (Suc p) e"
  shows "means E iv upd rd stk p e"
proof (rule meansI)
  fix ex ne ae ts n k and s :: "'a expr_state"
  assume h: "ctx ex stk ne ae s" "ready (tokens p e @ ts) s" "follows p ts"
      "length (tokens p e @ ts) < n" "length (tokens p e @ ts) \<le> k"
  let ?low = "EXP_LOWEST E rd k"
  note f = follows_Suc [OF h(3)]
  obtain sr where sr: "rd s = Returns () sr" "curtok sr \<notin> {0, COL}" "Suc p = 15 \<longrightarrow> \<not> unary_tok (curtok sr)"
    and some: "\<And>v sh. sem iv upd (ne \<noteq> 0) e (shell s) = (Some v, sh) \<Longrightarrow>
      \<exists>s1. lev E rd ?low (Suc p) n sr = Returns v s1 \<and> ctx ex stk ne ae s1 \<and> shell s1 = sh \<and> looking ts s1"
    and none: "\<And>sh. sem iv upd (ne \<noteq> 0) e (shell s) = (None, sh) \<Longrightarrow> failed sh (lev E rd ?low (Suc p) n sr)"
    using means_run [OF m h(1) _ f, of n k] h(2,4,5) t p by (auto simp del: tokens.simps)
  obtain m where n: "n = Suc m" using h(4) by (cases n) auto
  have lev: "lev E rd ?low p n sr = then_do (lev E rd ?low (Suc p) n sr) (tail E rd ?low n p n)"
  proof (cases "p = 14")
    case True
    with sr(3) n show ?thesis by (simp add: lev_def tail_def exp1.simps unary_tok_def)
  next
    case False
    with p n show ?thesis by (intro lev_tail) simp_all
  qed
  show "delivers E iv upd rd p e (ctx ex stk ne ae) (ne \<noteq> 0) ts s n k"
  proof (rule deliversI [where sr = sr])
    fix v sh
    assume "sem iv upd (ne \<noteq> 0) e (shell s) = (Some v, sh)"
    with some [of v sh] h(4) show "\<exists>s1 n'. lev E rd ?low p n sr = tail E rd ?low n p n' v s1 \<and>
        ctx ex stk ne ae s1 \<and> shell s1 = sh \<and> looking ts s1 \<and> length ts < n' \<and> n' \<le> n"
      unfolding lev by (auto intro!: exI [of _ n])
  next
    fix sh
    assume "sem iv upd (ne \<noteq> 0) e (shell s) = (None, sh)"
    then show "failed sh (lev E rd ?low p n sr)" unfolding lev by (intro failed_bind none)
  qed (use sr p in simp_all)
qed


declare tokens.simps [simp del]

text \<open>An expression in parentheses is an operand.\<close>

lemma readtok_moved:
  "before s ts \<Longrightarrow> fits (curtok s) ts \<Longrightarrow> rd = readtok E sub \<Longrightarrow> rd s = Returns () (moved ts s)"
  by (simp add: readtok_op)

lemma ctx_moved [simp]: "ctx ex stk ne ae (moved ts s) = ctx ex stk ne ae s"
  by (simp add: ctx_def)

lemma looking_moved: "before s ts \<Longrightarrow> curtok s \<notin> {PREINC, PREDEC} \<Longrightarrow> looking ts (moved ts s)"
  by (cases ts) (auto simp: looking_def intro: moved_next)

lemma ops_member:
  assumes "c \<in> ops q" "q < 16"
  shows "c \<in> {COMMA, EQ, OP_ASSIGN, QUES, LOR, LAND, BOR, BXOR, BAND, EQEQ, NEQ, LEQ, GEQ, LT, GT, LSH, RSH,
     PLUS, MINUS, MUL, DIV, MOD, POWER}"
proof -
  have "q \<in> {0, 1, 2, 3, 4, 5, 6, 7, 8, 9, 10, 11, 12, 13, 14, 15} \<Longrightarrow> ?thesis"
    using assms(1) unfolding ops_def by (elim insertE; auto)
  with less_16 [OF assms(2)] show ?thesis by blast
qed

lemma follows_closing:
  assumes "c \<in> {RPAR, COL}"
  shows "follows p (TOp c # ts)" "stops p c"
proof -
  have "c \<notin> {COMMA, EQ, OP_ASSIGN, QUES, LOR, LAND, BOR, BXOR, BAND, EQEQ, NEQ, LEQ, GEQ, LT, GT, LSH, RSH,
     PLUS, MINUS, MUL, DIV, MOD, POWER}" using assms by (auto simp: tok_defs)
  then have "stops q c" for q unfolding stops_def using ops_member by (meson atLeastLessThan_iff)
  moreover have "c \<in> plain_ops \<and> c \<noteq> EQ" using assms by (auto simp: plain_ops_def tok_defs)
  ultimately show "follows p (TOp c # ts)" "stops p c"
    by (auto simp: follows_def plain_next_def first_code_def tok_code_def)
qed

lemma means_paren:
  assumes m: "means E iv upd rd stk 0 e" and rd: "rd = readtok E sub" and lv: "level e < 15"
  shows "means E iv upd rd stk 15 e"
proof (rule meansI)
  fix ex ne ae ts n k and s :: "'a expr_state"
  assume h: "ctx ex stk ne ae s" "ready (tokens 15 e @ ts) s" "follows 15 ts"
      "length (tokens 15 e @ ts) < n" "length (tokens 15 e @ ts) \<le> k"
  have tk: "tokens 15 e @ ts = TOp LPAR # tokens 0 e @ TOp RPAR # ts" using lv by (simp add: tokens.simps)
  obtain k' where k: "k = Suc k'" using h(5) unfolding tk by (cases k) auto
  define sr where "sr = moved (tokens 15 e @ ts) s"
  have b: "before s (tokens 15 e @ ts)" using h(2) by (simp add: ready_def)
  have "rd s = Returns () sr"
    unfolding sr_def by (rule readtok_moved [OF b _ rd]) (simp add: tk fits_def plain_ops_def)
  have sr: "curtok sr = LPAR" "shell sr = shell s" "ctx ex stk ne ae sr"
    using h(1) by (simp_all add: sr_def tk first_code_def tok_code_def)
  have "before sr (tokens 0 e @ TOp RPAR # ts)" using b unfolding sr_def tk by (rule moved_next)
  then have ready: "ready (tokens 0 e @ TOp RPAR # ts) sr"
    using h(2) sr(1) by (simp add: ready_def sr_def tok_defs)
  have fuel: "length (tokens 0 e @ TOp RPAR # ts) < k" "length (tokens 0 e @ TOp RPAR # ts) \<le> k'"
    using h(5) k unfolding tk by simp_all
  obtain s1 where s1: "rd sr = Returns () s1"
    and some: "\<And>v sh. sem iv upd (ne \<noteq> 0) e (shell sr) = (Some v, sh) \<Longrightarrow>
      \<exists>s2. lev E rd (EXP_LOWEST E rd k') 0 k s1 = Returns v s2 \<and> ctx ex stk ne ae s2 \<and> shell s2 = sh \<and>
        looking (TOp RPAR # ts) s2"
    and none: "\<And>sh. sem iv upd (ne \<noteq> 0) e (shell sr) = (None, sh) \<Longrightarrow> failed sh (lev E rd (EXP_LOWEST E rd k') 0 k s1)"
    by (rule means_run [OF m sr(3) ready follows_closing(1) _ _ fuel])
      (auto simp: first_code_def tok_code_def follows_closing)
  have low: "EXP_LOWEST E rd k s1 = lev E rd (EXP_LOWEST E rd k') 0 k s1"
    by (simp add: k EXP_LOWEST.simps lev_def)
  have exp0: "lev E rd (EXP_LOWEST E rd k) 15 n sr = then_do (EXP_LOWEST E rd k s1) (\<lambda>val s.
      if curtok s \<noteq> RPAR then evalerror (''missing `)'' @ [CHR 0x27]) s else then_do (rd s) (\<lambda>_ s. Returns val s))"
    using sr(1) s1 by (simp add: lev_def exp0_def tok_defs)
  show "delivers E iv upd rd 15 e (ctx ex stk ne ae) (ne \<noteq> 0) ts s n k"
  proof (rule deliversI [where sr = sr])
    fix v sh
    assume "sem iv upd (ne \<noteq> 0) e (shell s) = (Some v, sh)"
    with some sr(2) obtain s2 where s2: "lev E rd (EXP_LOWEST E rd k') 0 k s1 = Returns v s2" "ctx ex stk ne ae s2"
        "shell s2 = sh" "looking (TOp RPAR # ts) s2" by auto
    have b2: "before s2 ts" "curtok s2 = RPAR" using s2(4) by (simp_all add: looking_def first_code_def tok_code_def)
    have "rd s2 = Returns () (moved ts s2)"
      by (rule readtok_moved [OF b2(1) follows_fits [OF h(3)] rd])
    then have "lev E rd (EXP_LOWEST E rd k) 15 n sr = Returns v (moved ts s2)"
      unfolding exp0 low s2(1) using b2(2) by simp
    moreover have "looking ts (moved ts s2)" by (rule looking_moved [OF b2(1)]) (simp add: b2(2) tok_defs)
    ultimately show "\<exists>s1 n'. lev E rd (EXP_LOWEST E rd k) 15 n sr = tail E rd (EXP_LOWEST E rd k) n 15 n' v s1 \<and>
        ctx ex stk ne ae s1 \<and> shell s1 = sh \<and> looking ts s1 \<and> length ts < n' \<and> n' \<le> n"
      using s2(2,3) h(4) by (intro exI [of _ "moved ts s2"] exI [of _ n]) (simp add: tail_def)
  next
    fix sh
    assume "sem iv upd (ne \<noteq> 0) e (shell s) = (None, sh)"
    then show "failed sh (lev E rd (EXP_LOWEST E rd k) 15 n sr)"
      unfolding exp0 low using sr(2) by (intro failed_bind none) simp
  next
    show "rd s = Returns () sr" by fact
  qed (simp_all add: sr(1) unary_tok_def tok_defs)
qed

text \<open>An expression understood at its own level is understood at every level.\<close>

lemma means_all:
  assumes "means E iv upd rd stk (level e) e" and rd: "rd = readtok E sub" and "level e \<le> 15"
  shows "p \<le> 15 \<Longrightarrow> means E iv upd rd stk p e"
proof -
  have down: "means E iv upd rd stk p e" if "p \<le> q" "q \<le> 15" "means E iv upd rd stk q e"
    "q \<le> level e \<or> level e < p" for p q
    using that
  proof (induction "q - p" arbitrary: p)
    case (Suc m)
    show ?case
    proof (rule means_down)
      show "means E iv upd rd stk (Suc p) e" by (rule Suc.hyps(1)) (use Suc in auto)
      show "tokens p e = tokens (Suc p) e" using Suc by (auto simp: tokens.simps)
    qed (use Suc in auto)
  qed simp
  assume "p \<le> 15"
  show "means E iv upd rd stk p e"
  proof (cases "p \<le> level e")
    case True
    with assms show ?thesis by (intro down [of p "level e"]) auto
  next
    case False
    have "means E iv upd rd stk 0 e" using assms by (intro down [of 0 "level e"]) auto
    then have "means E iv upd rd stk 15 e" by (rule means_paren [OF _ rd]) (use False \<open>p \<le> 15\<close> in simp)
    then show ?thesis using False \<open>p \<le> 15\<close> by (intro down [of p 15]) auto
  qed
qed


section \<open>Operands\<close>

lemma before_irrelevant [simp]:
  "before (s\<lparr>tokstr := a\<rparr>) ts = before s ts" "before (s\<lparr>noeval := b\<rparr>) ts = before s ts"
  "before (s\<lparr>assigntok := c\<rparr>) ts = before s ts" "before (s\<lparr>curtok := d\<rparr>) ts = before s ts"
  "before (s\<lparr>lasttok := d\<rparr>) ts = before s ts" "before (s\<lparr>shell := sh\<rparr>) ts = before s ts"
  "before (s\<lparr>curlval := l\<rparr>) ts = before s ts"
  by (simp_all add: before_def)

lemma ctx_irrelevant [simp]:
  "ctx ex stk ne ae (s\<lparr>tokstr := a\<rparr>) = ctx ex stk ne ae s" "ctx ex stk ne ae (s\<lparr>assigntok := c\<rparr>) = ctx ex stk ne ae s"
  "ctx ex stk ne ae (s\<lparr>curtok := d\<rparr>) = ctx ex stk ne ae s" "ctx ex stk ne ae (s\<lparr>lasttok := d\<rparr>) = ctx ex stk ne ae s"
  "ctx ex stk ne ae (s\<lparr>shell := sh\<rparr>) = ctx ex stk ne ae s"
  by (simp_all add: ctx_def)

lemma restored_after_peek:
  "\<exists>a. RESTORETOK (SAVETOK s) (moved ts (s\<lparr>tokstr := None, noeval := 1\<rparr>)) = s\<lparr>assigntok := a\<rparr>"
proof -
  have "RESTORETOK (SAVETOK s) (moved ts (s\<lparr>tokstr := None, noeval := 1\<rparr>)) =
      s\<lparr>assigntok := assigntok (moved ts (s\<lparr>tokstr := None, noeval := 1\<rparr>))\<rparr>"
    by (cases ts) (simp_all add: moved_def RESTORETOK_def SAVETOK_def)
  then show ?thesis by blast
qed

text \<open>A name is the operand: the value read with it, and the token behind it.\<close>

lemma name_operand:
  assumes rd: "rd = readtok E sub" and s: "curtok s = STR_TOK" "before s ts" "fits STR_TOK ts"
    and "first_code ts \<notin> {POSTINC, POSTDEC}"
  shows "\<exists>a. exp0 E rd low s = Returns (tokval s) (moved ts (s\<lparr>assigntok := a\<rparr>))"
proof -
  let ?sp = "s\<lparr>tokstr := None, noeval := 1\<rparr>"
  have "rd ?sp = Returns () (moved ts ?sp)" by (rule readtok_moved [OF _ _ rd]) (use s in simp_all)
  moreover obtain a where a: "RESTORETOK (SAVETOK s) (moved ts ?sp) = s\<lparr>assigntok := a\<rparr>"
    using restored_after_peek by blast
  moreover have "rd (s\<lparr>assigntok := a\<rparr>) = Returns () (moved ts (s\<lparr>assigntok := a\<rparr>))"
    by (rule readtok_moved [OF _ _ rd]) (use s in simp_all)
  ultimately have "exp0 E rd low s = Returns (tokval s) (moved ts (s\<lparr>assigntok := a\<rparr>))"
    using assms by (simp add: exp0_def Let_def)
  then show ?thesis by blast
qed

text \<open>Giving back an operand of level 15.\<close>

lemma delivers_operand:
  assumes "rd s = Returns () sr" "curtok sr \<notin> {0, COL}" "\<not> unary_tok (curtok sr)"
    and "sem iv upd skipped e (shell s) = (Some v, sh)"
    and "exp0 E rd (EXP_LOWEST E rd k) sr = Returns v s1" "C s1" "shell s1 = sh" "looking ts s1" "length ts < n"
  shows "delivers E iv upd rd 15 e C skipped ts s n k"
proof (rule deliversI [where sr = sr])
  fix w sh'
  assume "sem iv upd skipped e (shell s) = (Some w, sh')"
  with assms show "\<exists>s1 n'. lev E rd (EXP_LOWEST E rd k) 15 n sr = tail E rd (EXP_LOWEST E rd k) n 15 n' w s1 \<and>
      C s1 \<and> shell s1 = sh' \<and> looking ts s1 \<and> length ts < n' \<and> n' \<le> n"
    by (intro exI [of _ s1] exI [of _ n]) (simp add: lev_def tail_def)
qed (use assms in simp_all)

lemma follows_first:
  assumes "follows p ts"
  shows "first_code ts \<notin> {EQ, POSTINC, POSTDEC, OP_ASSIGN}"
  using assms by (auto simp: follows_def plain_next_def first_code_def tok_code_def plain_ops_def tok_defs
      split: list.splits token.splits)

lemma means_Num:
  assumes rd: "rd = readtok E sub"
  shows "means E iv upd rd stk 15 (Num v)"
proof (rule meansI)
  fix ex ne ae ts n k and s :: "'a expr_state"
  assume h: "ctx ex stk ne ae s" "ready (tokens 15 (Num v) @ ts) s" "follows 15 ts"
      "length (tokens 15 (Num v) @ ts) < n" "length (tokens 15 (Num v) @ ts) \<le> k"
  define sr where "sr = s\<lparr>tp := skip_space s + length (fmt_base10 v), lasttp := skip_space s,
      tokval := v, lasttok := curtok s, curtok := NUM\<rparr>"
  have b: "before s (TNum v # ts)" using h(2) by (simp add: ready_def tokens.simps)
  have rs: "rd s = Returns () sr" unfolding rd sr_def by (rule readtok_number [OF b])
  have br: "before sr ts" by (rule before_after [OF b]) (simp_all add: sr_def)
  have "rd sr = Returns () (moved ts sr)" by (rule readtok_moved [OF br follows_fits [OF h(3)] rd])
  then have e: "exp0 E rd (EXP_LOWEST E rd k) sr = Returns v (moved ts sr)"
    by (simp add: exp0_def sr_def tok_defs)
  show "delivers E iv upd rd 15 (Num v) (ctx ex stk ne ae) (ne \<noteq> 0) ts s n k"
    by (rule delivers_operand [OF rs _ _ _ e _ _ looking_moved [OF br]])
      (use h in \<open>simp_all add: sr_def ctx_def unary_tok_def tok_defs tokens.simps\<close>)
qed

lemma means_Var:
  assumes rd: "rd = readtok E sub" and E: "integer_shell E iv upd" and sub: "reads_decimals (length stk) sub"
  shows "means E iv upd rd stk 15 (Var x)"
proof (rule meansI)
  fix ex ne ae ts n k and s :: "'a expr_state"
  assume h: "ctx ex stk ne ae s" "ready (tokens 15 (Var x) @ ts) s" "follows 15 ts"
      "length (tokens 15 (Var x) @ ts) < n" "length (tokens 15 (Var x) @ ts) \<le> k"
  have b: "before s (TName x # ts)" using h(2) by (simp add: ready_def tokens.simps)
  obtain sr where sr: "readtok E sub s = Returns () sr" "ctx ex stk ne ae sr" "shell sr = shell s" "before sr ts"
      "curtok sr = STR_TOK" "tokval sr = (if ne \<noteq> 0 then 0 else iv (shell s) x)"
    using readtok_name [OF E sub h(1) b follows_fits [OF h(3)]] follows_first [OF h(3)] by auto
  obtain a where e: "exp0 E rd (EXP_LOWEST E rd k) sr = Returns (tokval sr) (moved ts (sr\<lparr>assigntok := a\<rparr>))"
    using name_operand [OF rd sr(5,4) follows_fits [OF h(3)]] follows_first [OF h(3)] by auto
  show "delivers E iv upd rd 15 (Var x) (ctx ex stk ne ae) (ne \<noteq> 0) ts s n k"
    by (rule delivers_operand [OF _ _ _ _ e _ _ looking_moved])
      (use h sr in \<open>simp_all add: unary_tok_def tok_defs rd tokens.simps\<close>)
qed


text \<open>The store of \<open>++\<close>, \<open>--\<close> and the assignments.\<close>

definition stored :: "('s \<Rightarrow> string \<Rightarrow> intmax \<Rightarrow> 's) \<Rightarrow> bool \<Rightarrow> string \<Rightarrow> intmax \<Rightarrow> 's \<Rightarrow> 's" where
  "stored upd skipped x v sh = (if skipped then sh else upd sh x v)"

lemma store_lvalue_integer:
  assumes "integer_shell E iv upd" "ctx ex stk ne ae s" "legal_name x"
  shows "store_lvalue E x (- 1) v s = Returns () (s\<lparr>shell := stored upd (ne \<noteq> 0) x v (shell s)\<rparr>)"
proof (cases "ne = 0")
  case True
  with assms(2) have "noeval s = 0" by (simp add: ctx_def)
  from store_integer [OF assms(1) this assms(3)] True show ?thesis by (simp add: stored_def)
next
  case False
  with assms(2) show ?thesis by (simp add: store_lvalue_def ctx_def stored_def)
qed

lemma bind_lvalue_integer:
  assumes "integer_shell E iv upd" "ctx ex stk ne ae s" "legal_name x" and "lv_ind l = - 1" "tok = Some (b, x)"
  shows "bind_lvalue E l tok v s = Returns () (s\<lparr>shell := stored upd (ne \<noteq> 0) x v (shell s)\<rparr>)"
  using store_lvalue_integer [OF assms(1-3)] assms(4,5) by (simp add: bind_lvalue_def block_text_def)

lemma means_Pre:
  assumes rd: "rd = readtok E sub" and E: "integer_shell E iv upd" and sub: "reads_decimals (length stk) sub"
  shows "means E iv upd rd stk 15 (Pre inc x)"
proof (rule meansI)
  fix ex ne ae ts n k and s :: "'a expr_state"
  define c where "c = (if inc then PREINC else PREDEC)"
  assume h: "ctx ex stk ne ae s" "ready (tokens 15 (Pre inc x) @ ts) s" "follows 15 ts"
      "length (tokens 15 (Pre inc x) @ ts) < n" "length (tokens 15 (Pre inc x) @ ts) \<le> k"
  have tk: "tokens 15 (Pre inc x) @ ts = TOp c # TName x # ts" by (simp add: tokens.simps c_def)
  have b: "before s (TOp c # TName x # ts)" using h(2) unfolding tk by (simp add: ready_def)
  have x: "legal_name x" using b by (simp add: before_def)
  define sr where "sr = moved (TOp c # TName x # ts) s"
  have rs: "rd s = Returns () sr" unfolding sr_def
    by (rule readtok_moved [OF b _ rd]) (use h(2) in \<open>auto simp: fits_def c_def ready_def\<close>)
  let ?s1 = "sr\<lparr>lasttok := c\<rparr>"
  have c1: "curtok sr = c" "shell sr = shell s" "ctx ex stk ne ae ?s1" using h(1) by (simp_all add: sr_def first_code_def tok_code_def)
  have pre: "c = PREINC \<or> c = PREDEC" by (simp add: c_def)
  have b1: "before ?s1 (TName x # ts)" using moved_next [OF b] by (simp add: sr_def)
  obtain s2 b2 where s2: "readtok E sub ?s1 = Returns () s2" "ctx ex stk ne ae s2" "shell s2 = shell s" "before s2 ts"
      "curtok s2 = STR_TOK" "tokval s2 = (if ne \<noteq> 0 then 0 else iv (shell s) x)" "tokstr s2 = Some (b2, x)"
    using readtok_name [OF E sub c1(3) b1 follows_fits [OF h(3)]] c1 pre by auto
  define v where "v = tokval s2 + (if inc then 1 else - 1)"
  define s3 where "s3 = s2\<lparr>shell := stored upd (ne \<noteq> 0) x v (shell s), curtok := NUM\<rparr>"
  have ind: "lv_ind (curlval s2) = - 1" using s2(2) by (simp add: ctx_def)
  have bind: "bind_lvalue E (curlval s2) (tokstr s2) v s2 = Returns () (s2\<lparr>shell := stored upd (ne \<noteq> 0) x v (shell s)\<rparr>)"
    using bind_lvalue_integer [OF E s2(2) x ind s2(7), of v] s2(3) by simp
  have r3: "rd s3 = Returns () (moved ts s3)"
    by (rule readtok_moved [OF _ follows_fits [OF h(3)] rd]) (simp add: s3_def s2(4))
  have "c = PREINC \<longleftrightarrow> inc" by (simp add: c_def tok_defs)
  then have e: "exp0 E rd (EXP_LOWEST E rd k) sr = Returns v (moved ts s3)"
    using c1(1) s2(1,5) bind r3 unfolding exp0_def rd v_def s3_def by (simp add: c_def Let_def)
  show "delivers E iv upd rd 15 (Pre inc x) (ctx ex stk ne ae) (ne \<noteq> 0) ts s n k"
    by (rule delivers_operand [OF rs _ _ _ e _ _ looking_moved])
      (use h s2 c1 in \<open>simp_all add: unary_tok_def c_def tok_defs tokens.simps s3_def v_def stored_def Let_def\<close>)
qed

lemma means_Post:
  assumes rd: "rd = readtok E sub" and E: "integer_shell E iv upd" and sub: "reads_decimals (length stk) sub"
  shows "means E iv upd rd stk 15 (Post inc x)"
proof (rule meansI)
  fix ex ne ae ts n k and s :: "'a expr_state"
  define c where "c = (if inc then POSTINC else POSTDEC)"
  assume h: "ctx ex stk ne ae s" "ready (tokens 15 (Post inc x) @ ts) s" "follows 15 ts"
      "length (tokens 15 (Post inc x) @ ts) < n" "length (tokens 15 (Post inc x) @ ts) \<le> k"
  have tk: "tokens 15 (Post inc x) @ ts = TName x # TOp c # ts" by (simp add: tokens.simps c_def)
  have b: "before s (TName x # TOp c # ts)" using h(2) unfolding tk by (simp add: ready_def)
  have x: "legal_name x" using b by (simp add: before_def)
  have fc: "fits STR_TOK (TOp c # ts)" "first_code (TOp c # ts) = c" "c \<noteq> EQ"
    by (auto simp: fits_def c_def first_code_def tok_code_def tok_defs)
  obtain sr b2 where sr: "readtok E sub s = Returns () sr" "ctx ex stk ne ae sr" "shell sr = shell s"
      "before sr (TOp c # ts)" "curtok sr = STR_TOK" "tokval sr = (if ne \<noteq> 0 then 0 else iv (shell s) x)"
      "tokstr sr = Some (b2, x)"
    using readtok_name [OF E sub h(1) b fc(1)] fc(2,3) by auto
  let ?sp = "sr\<lparr>tokstr := None, noeval := 1\<rparr>"
  let ?s1 = "moved (TOp c # ts) ?sp"
  define s2 where "s2 = ?s1\<lparr>tokstr := tokstr sr, noeval := noeval sr, curlval := curlval sr, lasttok := STR_TOK\<rparr>"
  have r1: "rd ?sp = Returns () ?s1" by (rule readtok_moved [OF _ _ rd]) (use sr(4,5) fc(1) in simp_all)
  have "before ?s1 ts" using sr(4) by (intro moved_next) simp
  then have b2: "before s2 ts" by (simp add: s2_def)
  have c2: "ctx ex stk ne ae s2" "shell s2 = shell s" "curlval s2 = curlval sr" "tokstr s2 = tokstr sr"
    using sr(2,3) by (simp_all add: s2_def ctx_def)
  define v where "v = tokval sr + (if inc then 1 else - 1)"
  define s3 where "s3 = s2\<lparr>shell := stored upd (ne \<noteq> 0) x v (shell s), curtok := NUM\<rparr>"
  have ind: "lv_ind (curlval sr) = - 1" using sr(2) by (simp add: ctx_def)
  have bind: "bind_lvalue E (curlval sr) (tokstr sr) v s2 = Returns () (s2\<lparr>shell := stored upd (ne \<noteq> 0) x v (shell s)\<rparr>)"
    using bind_lvalue_integer [OF E c2(1) x ind sr(7), of v] c2(2) by simp
  have r3: "rd s3 = Returns () (moved ts s3)"
    by (rule readtok_moved [OF _ follows_fits [OF h(3)] rd]) (simp add: s3_def b2)
  have "c = POSTINC \<longleftrightarrow> inc" "c = POSTINC \<or> c = POSTDEC" by (simp_all add: c_def tok_defs)
  moreover have "s2 = ?s1\<lparr>tokstr := c_tokstr (SAVETOK sr), noeval := c_noeval (SAVETOK sr), curlval := c_lval (SAVETOK sr),
      lasttok := STR_TOK\<rparr>" by (simp add: s2_def SAVETOK_def)
  ultimately have e: "exp0 E rd (EXP_LOWEST E rd k) sr = Returns (tokval sr) (moved ts s3)"
    using sr(5) r1 bind r3 fc(2) c2(3,4) unfolding exp0_def v_def s3_def
    by (simp add: Let_def then_do_assoc)
  show "delivers E iv upd rd 15 (Post inc x) (ctx ex stk ne ae) (ne \<noteq> 0) ts s n k"
    by (rule delivers_operand [OF _ _ _ _ e _ _ looking_moved])
      (use h sr c2 b2 in \<open>simp_all add: unary_tok_def tok_defs tokens.simps s3_def v_def stored_def Let_def rd\<close>)
qed


section \<open>Operators\<close>

lemma stops_14 [simp]: "stops 14 c" "stops 15 c" "stops 16 c"
  by (auto simp: stops_def ops_def less_Suc_eq numeral_eq_Suc)

lemma ready_after:
  assumes "ready (TOp c # ts) s" "c \<notin> {STR_TOK, NUM, PREINC, PREDEC}"
  shows "ready ts (moved (TOp c # ts) s)"
  using assms moved_next [of s "TOp c" ts]
  by (auto simp: ready_def first_code_def tok_code_def)

lemma means_Unary:
  assumes m: "means E iv upd rd stk 14 e" and rd: "rd = readtok E sub" and c: "unary_tok c"
  shows "means E iv upd rd stk 14 (Unary c e)"
proof (rule meansI)
  fix ex ne ae ts n k and s :: "'a expr_state"
  assume h: "ctx ex stk ne ae s" "ready (tokens 14 (Unary c e) @ ts) s" "follows 14 ts"
      "length (tokens 14 (Unary c e) @ ts) < n" "length (tokens 14 (Unary c e) @ ts) \<le> k"
  let ?low = "EXP_LOWEST E rd k"
  have tk: "tokens 14 (Unary c e) @ ts = TOp c # tokens 14 e @ ts" by (simp add: tokens.simps [of 14 "Unary c e"])
  have cp: "c \<in> plain_ops" "c \<notin> {STR_TOK, NUM, PREINC, PREDEC}" "c \<notin> {0, COL}"
    using c by (auto simp: unary_tok_def plain_ops_def tok_defs)
  define sr where "sr = moved (TOp c # tokens 14 e @ ts) s"
  have rs: "rd s = Returns () sr" unfolding sr_def
    by (rule readtok_moved [OF _ _ rd]) (use h(2) cp(1) in \<open>simp_all add: tk ready_def fits_def\<close>)
  have ready: "ready (tokens 14 e @ ts) sr" using h(2) cp(2) unfolding tk sr_def by (rule ready_after)
  have sr: "ctx ex stk ne ae sr" "shell sr = shell s" "curtok sr = c"
    using h(1) by (simp_all add: sr_def first_code_def tok_code_def)
  obtain m' where n: "n = Suc m'" using h(4) by (cases n) auto
  have fuel: "length (tokens 14 e @ ts) < m'" "length (tokens 14 e @ ts) \<le> k" using h(4,5) n unfolding tk by simp_all
  obtain s1 where s1: "rd sr = Returns () s1"
    and some: "\<And>v sh. sem iv upd (ne \<noteq> 0) e (shell sr) = (Some v, sh) \<Longrightarrow>
      \<exists>s2. lev E rd ?low 14 m' s1 = Returns v s2 \<and> ctx ex stk ne ae s2 \<and> shell s2 = sh \<and> looking ts s2"
    and none: "\<And>sh. sem iv upd (ne \<noteq> 0) e (shell sr) = (None, sh) \<Longrightarrow> failed sh (lev E rd ?low 14 m' s1)"
    by (rule means_run [OF m sr(1) ready h(3) _ _ fuel]) auto
  have lev: "lev E rd ?low 14 n sr = then_do (lev E rd ?low 14 m' s1) (\<lambda>v s. Returns (unary_op c v) (s\<lparr>lasttok := NUM\<rparr>))"
    using c sr(3) s1 by (auto simp: lev_def n exp1.simps unary_op_def unary_tok_def tok_defs)
  show "delivers E iv upd rd 14 (Unary c e) (ctx ex stk ne ae) (ne \<noteq> 0) ts s n k"
  proof (rule deliversI [where sr = sr])
    fix v sh
    assume "sem iv upd (ne \<noteq> 0) (Unary c e) (shell s) = (Some v, sh)"
    then obtain w where w: "sem iv upd (ne \<noteq> 0) e (shell sr) = (Some w, sh)" "v = unary_op c w"
      using sr(2) by (auto split: prod.splits option.splits)
    with some [OF w(1)] obtain s2 where s2: "lev E rd ?low 14 m' s1 = Returns w s2" "ctx ex stk ne ae s2" "shell s2 = sh"
        "looking ts s2" by blast
    then show "\<exists>s1 n'. lev E rd ?low 14 n sr = tail E rd ?low n 14 n' v s1 \<and>
        ctx ex stk ne ae s1 \<and> shell s1 = sh \<and> looking ts s1 \<and> length ts < n' \<and> n' \<le> n"
      using h(4) unfolding lev w(2)
      by (intro exI [of _ "s2\<lparr>lasttok := NUM\<rparr>"] exI [of _ n]) (simp add: tail_def looking_def tok_defs)
  next
    fix sh
    assume "sem iv upd (ne \<noteq> 0) (Unary c e) (shell s) = (None, sh)"
    then have "sem iv upd (ne \<noteq> 0) e (shell sr) = (None, sh)"
      using sr(2) by (auto split: prod.splits option.splits)
    then show "failed sh (lev E rd ?low 14 n sr)" unfolding lev by (intro failed_bind none)
  qed (use rs sr cp in simp_all)
qed

text \<open>Every operator belongs to one level.\<close>

definition level_of :: "int \<Rightarrow> nat" where
  "level_of c =
     (if c = COMMA then 0 else if c = EQ \<or> c = OP_ASSIGN then 1 else if c = QUES then 2 else if c = LOR then 3
      else if c = LAND then 4 else op_level c)"

lemma level_of_ops:
  assumes "c \<in> ops q" "q < 16"
  shows "level_of c = q"
proof -
  have cases: "q \<in> {0, 1, 2, 3, 4, 5, 6, 7, 8, 9, 10, 11, 12, 13, 14, 15} \<Longrightarrow> level_of c = q"
    using assms(1) unfolding ops_def by (elim insertE; auto simp: level_of_def op_level_def tok_defs)
  show ?thesis by (rule cases [OF less_16 [OF assms(2)]])
qed

lemma stops_op: "c \<in> ops p \<Longrightarrow> p < 16 \<Longrightarrow> stops (Suc p) c"
  unfolding stops_def using level_of_ops by (metis Suc_n_not_le_n atLeastLessThan_iff)

lemma ops_plain: "c \<in> ops p \<Longrightarrow> p < 16 \<Longrightarrow> p \<noteq> 1 \<Longrightarrow> c \<in> plain_ops \<and> c \<notin> {EQ, 0, COL, STR_TOK, NUM, PREINC, PREDEC}"
proof -
  assume c: "c \<in> ops p" "p < 16" "p \<noteq> 1"
  then have "level_of c \<noteq> 1" using level_of_ops by blast
  with ops_member [OF c(1,2)] show ?thesis
    by (auto simp: plain_ops_def level_of_def op_level_def tok_defs)
qed

lemma follows_op: "c \<in> ops p \<Longrightarrow> p < 16 \<Longrightarrow> p \<notin> {1, 2, 13} \<Longrightarrow> follows p (TOp c # ts)"
  using stops_op [of c p] ops_plain [of c p] by (simp add: follows_def plain_next_def first_code_def tok_code_def)


lemma raise_ctx:
  assumes "ctx ex stk ne ae s"
  shows "ctx ex stk (if b then ne + 1 else ne) ae (raise_noeval b s)"
  using assms by (simp add: ctx_def raise_noeval_def)

lemma lower_ctx:
  assumes "ctx ex stk (if b then ne + 1 else ne) ae s" "0 \<le> ne"
  shows "ctx ex stk ne ae (lower_noeval b s)"
  using assms by (auto simp: ctx_def lower_noeval_def split: if_splits)

lemma noeval_simps [simp]:
  "before (raise_noeval b s) ts = before s ts" "before (lower_noeval b s) ts = before s ts"
  "curtok (raise_noeval b s) = curtok s" "lasttok (raise_noeval b s) = lasttok s" "shell (raise_noeval b s) = shell s"
  "lasttok (lower_noeval b s) = lasttok s" "shell (lower_noeval b s) = shell s"
  "looking ts (lower_noeval b s) = looking ts s"
  by (simp_all add: raise_noeval_def lower_noeval_def looking_def)

text \<open>
  The operators that associate to the left, loops in the code: \<open>r\<close> says from the left value
  whether the right operand is skipped, \<open>g\<close> is the operation, \<open>fin\<close> the end of the loop's body.
\<close>

lemma means_left:
  assumes a: "means E iv upd rd stk p a" and b: "means E iv upd rd stk (Suc p) b"
    and p: "p < 13" "p \<noteq> 1" "p \<noteq> 2" and c: "c \<in> ops p"
    and e: "level e = p" "bare e = tokens p a @ TOp c # tokens (Suc p) b"
    and body: "\<And>N k m v s. curtok s = c \<Longrightarrow> tail E rd (EXP_LOWEST E rd k) N p (Suc m) v s =
      then_do (then_do (rd (raise_noeval (r v) s)) (\<lambda>_ s1. then_do (lev E rd (EXP_LOWEST E rd k) (Suc p) N s1)
          (\<lambda>v2 s2. fin s v v2 (lower_noeval (r v) s2))))
        (tail E rd (EXP_LOWEST E rd k) N p m)"
    and fin: "\<And>s v v2 s' w. g (noeval s' \<noteq> 0) v v2 = Some w \<Longrightarrow>
      \<exists>l. fin s v v2 s' = Returns w (s'\<lparr>lasttok := l\<rparr>) \<and> (l = lasttok s' \<or> l \<notin> {PREINC, PREDEC})"
    and err: "\<And>s v v2 s'. g (noeval s' \<noteq> 0) v v2 = None \<Longrightarrow> failed (shell s') (fin s v v2 s')"
    and sem: "\<And>skipped sh. sem iv upd skipped e sh =
      (case sem iv upd skipped a sh of (None, sh) \<Rightarrow> (None, sh) | (Some va, sh) \<Rightarrow>
         (case sem iv upd (skipped \<or> r va) b sh of (None, sh) \<Rightarrow> (None, sh)
          | (Some vb, sh) \<Rightarrow> (g skipped va vb, sh)))"
  shows "means E iv upd rd stk p e"
proof (rule meansI)
  fix ex ne ae ts n k and s :: "'a expr_state"
  assume h: "ctx ex stk ne ae s" "ready (tokens p e @ ts) s" "follows p ts"
      "length (tokens p e @ ts) < n" "length (tokens p e @ ts) \<le> k"
  let ?low = "EXP_LOWEST E rd k" and ?ts = "TOp c # tokens (Suc p) b @ ts"
  have tk: "tokens p e @ ts = tokens p a @ ?ts" using e by (simp add: tokens.simps [of p e])
  have "p < 16" using p(1) by simp
  note cp = ops_plain [OF c this p(2)]
  have fo: "follows p ?ts" using p by (intro follows_op [OF c]) auto
  have d: "delivers E iv upd rd p a (ctx ex stk ne ae) (ne \<noteq> 0) ?ts s n k"
    using a h(1,2,4,5) fo unfolding means_def tk by blast
  then obtain sr where sr: "rd s = Returns () sr" "curtok sr \<notin> {0, COL}"
    and some: "\<And>v sh. sem iv upd (ne \<noteq> 0) a (shell s) = (Some v, sh) \<Longrightarrow>
       \<exists>s1 n'. lev E rd ?low p n sr = tail E rd ?low n p n' v s1 \<and>
         ctx ex stk ne ae s1 \<and> shell s1 = sh \<and> looking ?ts s1 \<and> length ?ts < n' \<and> n' \<le> n"
    and none: "\<And>sh. sem iv upd (ne \<noteq> 0) a (shell s) = (None, sh) \<Longrightarrow> failed sh (lev E rd ?low p n sr)"
    unfolding delivers_def by blast
  have ne: "0 \<le> ne" using h(1) by (simp add: ctx_def)
  have fs: "stops (Suc p) (first_code ts)" "follows (Suc p) ts" using follows_Suc [OF h(3)] by simp_all
  have right_operand: "\<exists>sr1. rd (raise_noeval (r va) s1) = Returns () sr1 \<and>
      (\<forall>vb sh'. sem iv upd (ne \<noteq> 0 \<or> r va) b (shell s1) = (Some vb, sh') \<longrightarrow>
         (\<exists>s2. lev E rd ?low (Suc p) n sr1 = Returns vb s2 \<and> ctx ex stk ne ae (lower_noeval (r va) s2) \<and>
           shell s2 = sh' \<and> looking ts s2)) \<and>
      (\<forall>sh'. sem iv upd (ne \<noteq> 0 \<or> r va) b (shell s1) = (None, sh') \<longrightarrow> failed sh' (lev E rd ?low (Suc p) n sr1))"
    if s1: "ctx ex stk ne ae s1" "looking ?ts s1" for va s1
  proof -
    let ?ne = "if r va then ne + 1 else ne"
    have ready: "ready (tokens (Suc p) b @ ts) (raise_noeval (r va) s1)"
      using s1(2) cp by (simp add: ready_def looking_def first_code_def tok_code_def)
    have fuel: "length (tokens (Suc p) b @ ts) < n" "length (tokens (Suc p) b @ ts) \<le> k"
      using h(4,5) unfolding tk by simp_all
    have sk: "(?ne \<noteq> 0) = (ne \<noteq> 0 \<or> r va)" using ne by simp
    obtain sr1 where "rd (raise_noeval (r va) s1) = Returns () sr1"
      and "\<And>v sh. sem iv upd (?ne \<noteq> 0) b (shell (raise_noeval (r va) s1)) = (Some v, sh) \<Longrightarrow>
        \<exists>s2. lev E rd ?low (Suc p) n sr1 = Returns v s2 \<and> ctx ex stk ?ne ae s2 \<and> shell s2 = sh \<and> looking ts s2"
      and "\<And>sh. sem iv upd (?ne \<noteq> 0) b (shell (raise_noeval (r va) s1)) = (None, sh) \<Longrightarrow>
        failed sh (lev E rd ?low (Suc p) n sr1)"
      by (rule means_run [OF b raise_ctx [OF s1(1), of "r va"] ready fs(2,1) _ fuel]) (use p in auto)
    then show ?thesis unfolding sk using lower_ctx [OF _ ne, where b = "r va"] by fastforce
  qed
  show "delivers E iv upd rd p e (ctx ex stk ne ae) (ne \<noteq> 0) ts s n k"
  proof (rule deliversI [where sr = sr])
    fix w sh2
    assume "sem iv upd (ne \<noteq> 0) e (shell s) = (Some w, sh2)"
    then obtain va sh1 vb where v: "sem iv upd (ne \<noteq> 0) a (shell s) = (Some va, sh1)"
        "sem iv upd (ne \<noteq> 0 \<or> r va) b sh1 = (Some vb, sh2)" "g (ne \<noteq> 0) va vb = Some w"
      unfolding sem by (auto split: prod.splits option.splits)
    from some [OF v(1)] obtain s1 n1 where s1: "lev E rd ?low p n sr = tail E rd ?low n p n1 va s1" "ctx ex stk ne ae s1"
        "shell s1 = sh1" "looking ?ts s1" "length ?ts < n1" "n1 \<le> n" by blast
    then obtain m where m: "n1 = Suc m" by (cases n1) auto
    from right_operand [OF s1(2,4), of va] v(2) s1(3) obtain sr1 s2 where s2: "rd (raise_noeval (r va) s1) = Returns () sr1"
        "lev E rd ?low (Suc p) n sr1 = Returns vb s2" "ctx ex stk ne ae (lower_noeval (r va) s2)" "shell s2 = sh2"
        "looking ts s2" by blast
    let ?s3 = "lower_noeval (r va) s2"
    have "noeval ?s3 = ne" using s2(3) by (simp add: ctx_def)
    with fin [of ?s3 va vb w s1] v(3) obtain l where l: "fin s1 va vb ?s3 = Returns w (?s3\<lparr>lasttok := l\<rparr>)"
        "l = lasttok ?s3 \<or> l \<notin> {PREINC, PREDEC}" by auto
    have "curtok s1 = c" using s1(4) by (simp add: looking_def first_code_def tok_code_def)
    then have "lev E rd ?low p n sr = tail E rd ?low n p m w (?s3\<lparr>lasttok := l\<rparr>)"
      unfolding s1(1) m using s2(1,2) l(1) by (simp add: body)
    moreover have "looking ts (?s3\<lparr>lasttok := l\<rparr>)" using s2(5) l(2) by (auto simp: looking_def)
    ultimately show "\<exists>s1 n'. lev E rd ?low p n sr = tail E rd ?low n p n' w s1 \<and>
        ctx ex stk ne ae s1 \<and> shell s1 = sh2 \<and> looking ts s1 \<and> length ts < n' \<and> n' \<le> n"
      using s2(3,4) s1(5,6) m by (intro exI [of _ "?s3\<lparr>lasttok := l\<rparr>"] exI [of _ m]) simp
  next
    fix sh2
    assume "sem iv upd (ne \<noteq> 0) e (shell s) = (None, sh2)"
    then consider (left) "sem iv upd (ne \<noteq> 0) a (shell s) = (None, sh2)"
      | (right) va sh1 where "sem iv upd (ne \<noteq> 0) a (shell s) = (Some va, sh1)" "sem iv upd (ne \<noteq> 0 \<or> r va) b sh1 = (None, sh2)"
      | (op) va sh1 vb where "sem iv upd (ne \<noteq> 0) a (shell s) = (Some va, sh1)"
          "sem iv upd (ne \<noteq> 0 \<or> r va) b sh1 = (Some vb, sh2)" "g (ne \<noteq> 0) va vb = None"
      unfolding sem by (auto split: prod.splits option.splits)
    then show "failed sh2 (lev E rd ?low p n sr)"
    proof cases
      case left then show ?thesis by (rule none)
    next
      case (right va sh1)
      from some [OF right(1)] obtain s1 n1 where s1: "lev E rd ?low p n sr = tail E rd ?low n p n1 va s1" "ctx ex stk ne ae s1"
          "shell s1 = sh1" "looking ?ts s1" "length ?ts < n1" by blast
      then obtain m where m: "n1 = Suc m" by (cases n1) auto
      have "curtok s1 = c" using s1(4) by (simp add: looking_def first_code_def tok_code_def)
      moreover from right_operand [OF s1(2,4), of va] right(2) s1(3) obtain sr1 where
          "rd (raise_noeval (r va) s1) = Returns () sr1" "failed sh2 (lev E rd ?low (Suc p) n sr1)" by blast
      ultimately show ?thesis unfolding s1(1) m by (simp add: body failed_bind)
    next
      case (op va sh1 vb)
      from some [OF op(1)] obtain s1 n1 where s1: "lev E rd ?low p n sr = tail E rd ?low n p n1 va s1" "ctx ex stk ne ae s1"
          "shell s1 = sh1" "looking ?ts s1" "length ?ts < n1" by blast
      then obtain m where m: "n1 = Suc m" by (cases n1) auto
      have cc: "curtok s1 = c" using s1(4) by (simp add: looking_def first_code_def tok_code_def)
      from right_operand [OF s1(2,4), of va] op(2) s1(3) obtain sr1 s2 where s2: "rd (raise_noeval (r va) s1) = Returns () sr1"
          "lev E rd ?low (Suc p) n sr1 = Returns vb s2" "ctx ex stk ne ae (lower_noeval (r va) s2)" "shell s2 = sh2" by blast
      have "noeval (lower_noeval (r va) s2) = ne" using s2(3) by (simp add: ctx_def)
      with err [of "lower_noeval (r va) s2" va vb s1] op(3) s2(4) have "failed sh2 (fin s1 va vb (lower_noeval (r va) s2))" by simp
      with cc s2(1,2) show ?thesis unfolding s1(1) m by (simp add: body failed_bind)
    qed
  qed (use sr p in simp_all)
qed


lemma noeval_False [simp]: "raise_noeval False s = s" "lower_noeval False s = s"
  by (simp_all add: raise_noeval_def lower_noeval_def)

lemma same_lasttok: "\<exists>l. s = s\<lparr>lasttok := l\<rparr> \<and> (l = lasttok s \<or> Q l)"
  by (rule exI [of _ "lasttok s"]) simp

lemma means_And:
  assumes "means E iv upd rd stk 4 a" "means E iv upd rd stk 5 b"
  shows "means E iv upd rd stk 4 (And a b)"
  by (rule means_left [where c = LAND and r = "\<lambda>v. v = 0" and g = "\<lambda>_ va vb. Some (truth (va \<noteq> 0 \<and> vb \<noteq> 0))"
      and fin = "\<lambda>_ va vb s. Returns (truth (va \<noteq> 0 \<and> vb \<noteq> 0)) (s\<lparr>lasttok := LAND\<rparr>)" and a = a and b = b])
    (use assms in \<open>simp_all add: ops_def tail_def lev_def logic_body_def Let_def\<close>, auto simp: tok_defs)

lemma means_Or:
  assumes "means E iv upd rd stk 3 a" "means E iv upd rd stk 4 b"
  shows "means E iv upd rd stk 3 (Or a b)"
  by (rule means_left [where c = LOR and r = "\<lambda>v. v \<noteq> 0" and g = "\<lambda>_ va vb. Some (truth (va \<noteq> 0 \<or> vb \<noteq> 0))"
      and fin = "\<lambda>_ va vb s. Returns (truth (va \<noteq> 0 \<or> vb \<noteq> 0)) (s\<lparr>lasttok := LOR\<rparr>)" and a = a and b = b])
    (use assms in \<open>simp_all add: ops_def tail_def lev_def logic_body_def Let_def\<close>, auto simp: tok_defs)

lemma means_Comma:
  assumes "means E iv upd rd stk 0 a" "means E iv upd rd stk 1 b"
  shows "means E iv upd rd stk 0 (Comma a b)"
  by (rule means_left [where c = COMMA and r = "\<lambda>v. False" and g = "\<lambda>_ va vb. Some vb"
      and fin = "\<lambda>_ va vb s. Returns vb s" and a = a and b = b])
    (use assms in \<open>simp_all add: ops_def tail_def lev_def\<close>, auto intro: same_lasttok split: prod.splits option.splits)

text \<open>Division without the trap of the processor.\<close>

lemma sint_minus_one: "sint (- 1 :: intmax) = - 1" by simp

lemma c_div_1: "c_div a 1 = a" "c_mod a 1 = 0"
  by (simp_all add: c_div_def c_mod_def signed_modulo_int_def)

lemma c_div_min: "c_div INTMAX_MIN (- 1) = INTMAX_MIN" "c_mod INTMAX_MIN (- 1) = 0"
  by (simp_all add: c_div_def c_mod_def INTMAX_MIN_def signed_modulo_int_def)


definition bin_ops :: "int set" where
  "bin_ops = {PLUS, MINUS, LSH, RSH, LEQ, GEQ, LT, GT, EQEQ, NEQ, BAND, BXOR, BOR}"

definition mul_ops :: "int set" where "mul_ops = {MUL, DIV, MOD}"

lemma binary_op_total: "c \<in> bin_ops \<Longrightarrow> binary_op skipped c a b = binary_op False c a b \<and> binary_op False c a b \<noteq> None"
  by (auto simp: bin_ops_def binary_op_def tok_defs)

lemma op_level_bin: "c \<in> bin_ops \<union> mul_ops \<Longrightarrow> op_level c < 13 \<and> 2 < op_level c \<and> c \<in> ops (op_level c) \<and> c \<noteq> POWER"
  unfolding bin_ops_def mul_ops_def Un_iff insert_iff empty_iff
  by (elim disjE; simp add: op_level_def ops_def tok_defs)

lemma tail_bin:
  assumes "c \<in> bin_ops" "curtok s = c"
  shows "tail E rd low N (op_level c) (Suc m) v s =
    then_do (then_do (rd s) (\<lambda>_ s1. then_do (lev E rd low (Suc (op_level c)) N s1)
        (\<lambda>v2 s2. Returns (the (binary_op False c v v2)) (s2\<lparr>lasttok := NUM\<rparr>))))
      (tail E rd low N (op_level c) m)"
  using assms unfolding bin_ops_def insert_iff empty_iff
  by (elim disjE; simp add: tail_def lev_def bin_body_def binary_op_def op_level_def compare_def tok_defs)

lemma means_bin:
  assumes c: "c \<in> bin_ops" and "means E iv upd rd stk (op_level c) a" "means E iv upd rd stk (Suc (op_level c)) b"
  shows "means E iv upd rd stk (op_level c) (Binary c a b)"
proof (rule means_left [where c = c and r = "\<lambda>v. False" and g = "\<lambda>skipped. binary_op skipped c" and a = a and b = b
      and fin = "\<lambda>_ va vb s. Returns (the (binary_op False c va vb)) (s\<lparr>lasttok := NUM\<rparr>)"])
  fix s :: "'a expr_state" and s' :: "'a expr_state" and v v2 w
  assume "binary_op (noeval s' \<noteq> 0) c v v2 = Some w"
  with binary_op_total [OF c, of "noeval s' \<noteq> 0" v v2] have "binary_op False c v v2 = Some w" by simp
  then show "\<exists>l. Returns (the (binary_op False c v v2)) (s'\<lparr>lasttok := NUM\<rparr>) = Returns w (s'\<lparr>lasttok := l\<rparr>) \<and>
      (l = lasttok s' \<or> l \<notin> {PREINC, PREDEC})"
    by (intro exI [of _ NUM]) (simp add: tok_defs)
next
  fix s :: "'a expr_state" and s' :: "'a expr_state" and v v2
  assume "binary_op (noeval s' \<noteq> 0) c v v2 = None"
  with binary_op_total [OF c, of "noeval s' \<noteq> 0" v v2] have False by auto
  then show "failed (shell s') (Returns (the (binary_op False c v v2)) (s'\<lparr>lasttok := NUM\<rparr>))" ..
qed (use assms op_level_bin [of c] in \<open>auto simp: tail_bin split: prod.splits option.splits\<close>)


lemma tail_mul:
  assumes "c \<in> mul_ops" "curtok s = c"
  shows "tail E rd low N 12 (Suc m) v s =
    then_do (muldiv_body rd (exppower E rd low N) c v s) (tail E rd low N 12 m)"
  using assms unfolding mul_ops_def by (auto simp: tail_def)

text \<open>The end of the body of \<open>expmuldiv\<close>, in the state \<open>s1\<close> behind the right operand.\<close>

definition mul_fin :: "int \<Rightarrow> 's expr_state \<Rightarrow> intmax \<Rightarrow> intmax \<Rightarrow> 's expr_state \<Rightarrow> (intmax, 's) evaluation" where
  "mul_fin op s val1 val2 s1 =
     (if (op = DIV \<or> op = MOD) \<and> val2 = 0 \<and> noeval s1 = 0 then
        evalerror ''division by 0''
          (s1\<lparr>lasttp := tp s + length (takeWhile whitespace (drop (tp s) (expression s1)))\<rparr>)
      else if op = MOD \<and> val1 = INTMAX_MIN \<and> val2 = - 1 then Returns 0 s1
      else
        let val2 = (if (op = DIV \<or> op = MOD) \<and> val2 = 0 then 1
                    else if op = DIV \<and> val1 = INTMAX_MIN \<and> val2 = - 1 then 1 else val2);
            v = (if op = MUL then val1 * val2
                 else if op = DIV then fst (imaxdiv val1 val2)
                 else snd (imaxdiv val1 val2))
        in Returns v (s1\<lparr>lasttok := NUM\<rparr>))"

lemma muldiv_body_fin:
  "muldiv_body rd operand op val1 s =
     then_do (rd s) (\<lambda>_ s1. then_do (operand s1) (\<lambda>val2 s2. mul_fin op s val1 val2 s2))"
  unfolding muldiv_body_def mul_fin_def Let_def by (rule refl)

lemma imaxdiv_eq [simp]: "imaxdiv a b = (c_div a b, c_mod a b)"
  by (simp add: imaxdiv_def c_div_def c_mod_def)

lemma mul_fin_Some:
  assumes c: "c \<in> mul_ops" and g: "binary_op (noeval s1 \<noteq> 0) c v v2 = Some w"
  shows "\<exists>l. mul_fin c s v v2 s1 = Returns w (s1\<lparr>lasttok := l\<rparr>) \<and> (l = lasttok s1 \<or> l \<notin> {PREINC, PREDEC})"
proof (cases "c = MOD \<and> v = INTMAX_MIN \<and> v2 = - 1")
  case True
  then have "mul_fin c s v v2 s1 = Returns 0 s1" by (simp add: mul_fin_def)
  moreover have "w = 0" using True g by (simp add: binary_op_def c_div_min tok_defs)
  ultimately show ?thesis by (auto intro: same_lasttok)
next
  case False
  with c g have "mul_fin c s v v2 s1 = Returns w (s1\<lparr>lasttok := NUM\<rparr>)"
    by (auto simp: mul_fin_def mul_ops_def binary_op_def c_div_1 c_div_min tok_defs split: if_splits)
  then show ?thesis by (intro exI [of _ NUM]) (simp add: tok_defs)
qed

lemma mul_fin_None:
  assumes "c \<in> mul_ops" "binary_op (noeval s1 \<noteq> 0) c v v2 = None"
  shows "failed (shell s1) (mul_fin c s v v2 s1)"
proof -
  have "(c = DIV \<or> c = MOD) \<and> v2 = 0 \<and> noeval s1 = 0"
    using assms by (auto simp: mul_ops_def binary_op_def tok_defs split: if_splits)
  then show ?thesis by (simp add: mul_fin_def failed_def evalerror_def leave_def caught_def)
qed

lemma means_mul:
  assumes c: "c \<in> mul_ops" and "means E iv upd rd stk 12 a" "means E iv upd rd stk 13 b"
  shows "means E iv upd rd stk 12 (Binary c a b)"
proof -
  have lv: "op_level c = 12" "c \<noteq> POWER" "c \<in> ops 12" using c by (auto simp: mul_ops_def op_level_def ops_def tok_defs)
  show ?thesis
    by (rule means_left [where c = c and r = "\<lambda>v. False" and g = "\<lambda>skipped. binary_op skipped c" and a = a and b = b
        and fin = "mul_fin c"])
      (use assms(2,3) lv mul_fin_Some [OF c] mul_fin_None [OF c] in
        \<open>simp_all add: tail_mul [OF c] muldiv_body_fin lev_def split: prod.splits option.splits\<close>)
qed


section \<open>The levels that associate to the right\<close>

lemma tokens_pos: "0 < length (tokens p e)"
  by (cases e) (auto simp: tokens.simps)

lemma deliversR:
  assumes "rd s = Returns () sr" "curtok sr \<notin> {0, COL}" and p: "p \<in> {1, 2, 13}" "follows p ts" "length ts < n"
    and "\<And>v sh. sem iv upd skipped e (shell s) = (Some v, sh) \<Longrightarrow>
       \<exists>s1. lev E rd (EXP_LOWEST E rd k) p n sr = Returns v s1 \<and> C s1 \<and> shell s1 = sh \<and> looking ts s1"
    and "\<And>sh. sem iv upd skipped e (shell s) = (None, sh) \<Longrightarrow> failed sh (lev E rd (EXP_LOWEST E rd k) p n sr)"
  shows "delivers E iv upd rd p e C skipped ts s n k"
proof (rule deliversI [where sr = sr])
  fix v sh
  assume "sem iv upd skipped e (shell s) = (Some v, sh)"
  with assms(6) obtain s1 where s1: "lev E rd (EXP_LOWEST E rd k) p n sr = Returns v s1" "C s1" "shell s1 = sh" "looking ts s1"
    by blast
  have "stops p (curtok s1)" using p(1,2) s1(4) by (auto simp: follows_def looking_def)
  then have "tail E rd (EXP_LOWEST E rd k) n p n v s1 = Returns v s1" using p(1) by (intro tail_stops) auto
  with s1 p(3) show "\<exists>s1 n'. lev E rd (EXP_LOWEST E rd k) p n sr = tail E rd (EXP_LOWEST E rd k) n p n' v s1 \<and>
      C s1 \<and> shell s1 = sh \<and> looking ts s1 \<and> length ts < n' \<and> n' \<le> n"
    by (intro exI [of _ s1] exI [of _ n]) simp
qed (use assms in auto)

lemma ready_looking:
  assumes "looking (TOp c # ts) s" "c \<notin> {STR_TOK, NUM, PREINC, PREDEC}"
  shows "ready ts s"
  using assms by (simp add: looking_def ready_def first_code_def tok_code_def)

lemma follows_right: "p \<in> {1, 2, 13} \<Longrightarrow> follows p ts \<Longrightarrow> stops p (first_code ts)"
  by (auto simp: follows_def)

end
