(* ===== verification/Bash_ExprMeaning.thy ===== *)
theory Bash_ExprMeaning imports Bash_ExprSem begin

text \<open>
  The levels of \<open>Bash_Expr\<close> that associate to the right, and the theorem that the text of an
  expression evaluates to its meaning.
\<close>

section \<open>A run against a meaning\<close>

definition gives ::
  "intmax option \<times> 's \<Rightarrow> ('s expr_state \<Rightarrow> bool) \<Rightarrow> (intmax, 's) evaluation \<Rightarrow> bool" where
  "gives r C m \<longleftrightarrow>
     (case r of (Some v, sh) \<Rightarrow> \<exists>s. m = Returns v s \<and> C s \<and> shell s = sh | (None, sh) \<Rightarrow> failed sh m)"

lemma gives_Returns [simp]: "gives (Some v, sh) C (Returns w s) \<longleftrightarrow> v = w \<and> C s \<and> shell s = sh"
  by (auto simp: gives_def)

lemma gives_evalerror: "shell s = sh \<Longrightarrow> gives (None, sh) C (evalerror msg s)"
  by (simp add: gives_def failed_def evalerror_def leave_def caught_def)

lemma gives_bind:
  assumes "gives r C m" and "\<And>v s. C s \<Longrightarrow> r = (Some v, shell s) \<Longrightarrow> gives (g v (shell s)) D (f v s)"
  shows "gives (case r of (None, sh) \<Rightarrow> (None, sh) | (Some v, sh) \<Rightarrow> g v sh) D (then_do m f)"
proof (cases r)
  case (Pair ov sh)
  show ?thesis
  proof (cases ov)
    case None
    with assms(1) Pair show ?thesis by (simp add: gives_def failed_bind)
  next
    case (Some v)
    with assms(1) Pair obtain s where s: "m = Returns v s" "C s" "shell s = sh" by (auto simp: gives_def)
    with assms(2) [of s v] Pair Some show ?thesis by simp
  qed
qed

text \<open>Reading an operand of level \<open>p\<close> in front of what that level leaves alone.\<close>

lemma means_gives:
  assumes m: "means E iv upd rd stk p e" and s: "ctx ex stk ne ae s" "ready (tokens p e @ ts) s"
    and f: "follows p ts" "stops p (first_code ts)" "p < 16"
    and fuel: "length (tokens p e @ ts) < n" "length (tokens p e @ ts) \<le> k"
  shows "\<exists>sr. rd s = Returns () sr \<and> curtok sr \<notin> {0, COL} \<and>
     gives (sem iv upd (ne \<noteq> 0) e (shell s)) (\<lambda>s1. ctx ex stk ne ae s1 \<and> looking ts s1)
       (lev E rd (EXP_LOWEST E rd k) p n sr)"
proof -
  let ?r = "sem iv upd (ne \<noteq> 0) e (shell s)" and ?m = "\<lambda>sr. lev E rd (EXP_LOWEST E rd k) p n sr"
  obtain sr where sr: "rd s = Returns () sr" "curtok sr \<notin> {0, COL}"
    and some: "\<And>v sh. ?r = (Some v, sh) \<Longrightarrow>
      \<exists>s1. ?m sr = Returns v s1 \<and> ctx ex stk ne ae s1 \<and> shell s1 = sh \<and> looking ts s1"
    and none: "\<And>sh. ?r = (None, sh) \<Longrightarrow> failed sh (?m sr)"
    by (rule means_run [OF m s f fuel]) auto
  have "gives ?r (\<lambda>s1. ctx ex stk ne ae s1 \<and> looking ts s1) (?m sr)"
  proof (cases ?r)
    case (Pair ov sh)
    with some [of _ sh] none [of sh] show ?thesis by (cases ov) (auto simp: gives_def)
  qed
  with sr show ?thesis by blast
qed

text \<open>An expression of a level that associates to the right.\<close>

lemma delivers_gives:
  assumes "rd s = Returns () sr" "curtok sr \<notin> {0, COL}" "p \<in> {1, 2, 13}" "follows p ts" "length ts < n"
    and g: "gives (sem iv upd skipped e (shell s)) (\<lambda>s1. C s1 \<and> looking ts s1) (lev E rd (EXP_LOWEST E rd k) p n sr)"
  shows "delivers E iv upd rd p e C skipped ts s n k"
  by (rule deliversR [where sr = sr]) (use assms in \<open>auto simp: gives_def\<close>)

lemma gives_mono: "gives r C m \<Longrightarrow> (\<And>s. C s \<Longrightarrow> D s) \<Longrightarrow> gives r D m"
  by (auto simp: gives_def split: prod.splits option.splits)

lemma looking_first: "looking (TOp c # ts) s \<Longrightarrow> curtok s = c"
  by (simp add: looking_def first_code_def tok_code_def)

lemma looking_lasttok: "looking ts s \<Longrightarrow> l \<notin> {PREINC, PREDEC} \<Longrightarrow> looking ts (s\<lparr>lasttok := l\<rparr>)"
  by (simp add: looking_def)


section \<open>Powers\<close>

lemma power_value:
  assumes "vb \<noteq> 0" "\<not> sint vb < 0"
  shows "ipow va vb = Some (va ^ unat vb)"
  using assms by (simp add: ipow_is_power)

text \<open>The loop of \<open>exppower\<close> behind the exponent.\<close>

definition power_fin :: "intmax \<Rightarrow> intmax \<Rightarrow> 's expr_state \<Rightarrow> (intmax, 's) evaluation" where
  "power_fin va vb s0 =
     (let s = s0\<lparr>lasttok := NUM\<rparr> in
      if vb = 0 then Returns 1 s
      else if sint vb < 0 then evalerror ''exponent less than 0'' s
      else Returns (va ^ unat vb) s)"

lemma exppower_loop_fin:
  assumes "curtok s0 \<noteq> POWER"
  shows "(let s = s0\<lparr>lasttok := NUM\<rparr> in
      if vb = 0 then Returns 1 s
      else if sint vb < 0 then evalerror ''exponent less than 0'' s
      else (case ipow va vb of None \<Rightarrow> leave X_stuck s | Some v \<Rightarrow> exppower_loop E rd low n v s)) = power_fin va vb s0"
  using assms by (cases n) (simp_all add: power_fin_def Let_def power_value exppower_loop.simps)

lemma power_fin_gives:
  assumes "ctx ex stk ne ae s" "looking ts s"
  shows "gives (binary_op skipped POWER va vb, shell s) (\<lambda>s1. ctx ex stk ne ae s1 \<and> looking ts s1) (power_fin va vb s)"
  using assms by (auto simp: power_fin_def binary_op_def Let_def gives_evalerror looking_lasttok tok_defs)

lemma means_Power:
  assumes a: "means E iv upd rd stk 14 a" and b: "means E iv upd rd stk 13 b"
  shows "means E iv upd rd stk 13 (Binary POWER a b)"
proof (rule meansI)
  fix ex ne ae ts n k and s :: "'a expr_state"
  let ?e = "Binary POWER a b" and ?low = "EXP_LOWEST E rd k" and ?ts = "TOp POWER # tokens 13 b @ ts"
  assume h: "ctx ex stk ne ae s" "ready (tokens 13 ?e @ ts) s" "follows 13 ts"
      "length (tokens 13 ?e @ ts) < n" "length (tokens 13 ?e @ ts) \<le> k"
  have "level ?e = 13" by (simp add: op_level_def tok_defs)
  then have tk: "tokens 13 ?e @ ts = tokens 14 a @ ?ts" by (simp add: tokens.simps [of 13 ?e])
  have fo: "follows 14 ?ts" by (simp add: follows_def plain_next_def plain_ops_def tok_defs)
  obtain m where n: "n = Suc m" using h(4) by (cases n) auto
  have fuel: "length (tokens 14 a @ ?ts) < n" "length (tokens 14 a @ ?ts) \<le> k"
      "length (tokens 13 b @ ts) < m" "length (tokens 13 b @ ts) \<le> k"
    using h(4,5) n tokens_pos [of 14 a] unfolding tk by simp_all
  obtain sr where sr: "rd s = Returns () sr" "curtok sr \<notin> {0, COL}"
    and g: "gives (sem iv upd (ne \<noteq> 0) a (shell s)) (\<lambda>s1. ctx ex stk ne ae s1 \<and> looking ?ts s1) (lev E rd ?low 14 n sr)"
    using means_gives [OF a h(1) h(2) [unfolded tk] fo _ _ fuel(1,2)] by auto
  have lev: "lev E rd ?low 13 n sr = then_do (lev E rd ?low 14 n sr) (exppower_loop E rd ?low (Suc m))"
    using lev_tail [of 13 n] n by (simp add: tail_def)
  show "delivers E iv upd rd 13 ?e (ctx ex stk ne ae) (ne \<noteq> 0) ts s n k"
  proof (rule delivers_gives [where sr = sr])
    show "gives (sem iv upd (ne \<noteq> 0) ?e (shell s)) (\<lambda>s1. ctx ex stk ne ae s1 \<and> looking ts s1) (lev E rd ?low 13 n sr)"
      unfolding lev sem.simps
    proof (rule gives_bind [OF g])
      fix va and s1 :: "'a expr_state"
      assume s1: "ctx ex stk ne ae s1 \<and> looking ?ts s1"
      then have r: "ready (tokens 13 b @ ts) s1" by (intro ready_looking) (auto simp: tok_defs)
      obtain sr1 where sr1: "rd s1 = Returns () sr1"
        and gb: "gives (sem iv upd (ne \<noteq> 0) b (shell s1)) (\<lambda>s. ctx ex stk ne ae s \<and> looking ts s) (lev E rd ?low 13 m sr1)"
        using means_gives [OF b conjunct1 [OF s1] r h(3) follows_right [OF _ h(3)] _ fuel(3,4)] by auto
      have ex: "lev E rd ?low 13 m sr1 = exppower E rd ?low m sr1" by (simp add: lev_def)
      have "exppower_loop E rd ?low (Suc m) va s1 = then_do (lev E rd ?low 13 m sr1) (\<lambda>val2 s0.
          let s = s0\<lparr>lasttok := NUM\<rparr> in
          if val2 = 0 then Returns 1 s
          else if sint val2 < 0 then evalerror ''exponent less than 0'' s
          else (case ipow va val2 of None \<Rightarrow> leave X_stuck s | Some v \<Rightarrow> exppower_loop E rd ?low m v s))"
        using sr1 looking_first [OF conjunct2 [OF s1]] unfolding ex by (simp add: exppower_loop.simps)
      moreover have "gives (case sem iv upd (ne \<noteq> 0) b (shell s1) of (None, sh) \<Rightarrow> (None, sh)
            | (Some vb, sh) \<Rightarrow> (binary_op (ne \<noteq> 0) POWER va vb, sh)) (\<lambda>s. ctx ex stk ne ae s \<and> looking ts s) \<dots>"
      proof (rule gives_bind [OF gb])
        fix vb and s2 :: "'a expr_state"
        assume s2: "ctx ex stk ne ae s2 \<and> looking ts s2"
        have "stops 13 (curtok s2)" using h(3) s2 by (simp add: follows_def looking_def)
        then have "curtok s2 \<noteq> POWER" by (auto simp: stops_def ops_def dest: bspec [of _ _ 13])
        from exppower_loop_fin [OF this] power_fin_gives s2
        show "gives (binary_op (ne \<noteq> 0) POWER va vb, shell s2) (\<lambda>s. ctx ex stk ne ae s \<and> looking ts s)
            (let s = s2\<lparr>lasttok := NUM\<rparr> in
             if vb = 0 then Returns 1 s
             else if sint vb < 0 then evalerror ''exponent less than 0'' s
             else (case ipow va vb of None \<Rightarrow> leave X_stuck s | Some v \<Rightarrow> exppower_loop E rd ?low m v s))" by metis
      qed
      ultimately show "gives (case sem iv upd (ne \<noteq> 0) b (shell s1) of (None, sh) \<Rightarrow> (None, sh)
            | (Some vb, sh) \<Rightarrow> (binary_op (ne \<noteq> 0) POWER va vb, sh)) (\<lambda>s. ctx ex stk ne ae s \<and> looking ts s)
          (exppower_loop E rd ?low (Suc m) va s1)" by simp
    qed
  qed (use sr h(3,4) in auto)
qed


section \<open>The conditional operator\<close>

lemma ready_noeval [simp]: "ready ts (raise_noeval b s) = ready ts s"
  by (simp add: ready_def)

lemma EXP_LOWEST_lev: "EXP_LOWEST E rd (Suc k) = lev E rd (EXP_LOWEST E rd k) 0 (Suc k)"
  by (rule ext) (simp add: lev_def EXP_LOWEST.simps)

lemma means_Cond:
  assumes c: "means E iv upd rd stk 3 c" and a: "means E iv upd rd stk 0 a" and b: "means E iv upd rd stk 2 b"
  shows "means E iv upd rd stk 2 (Cond c a b)"
proof (rule meansI)
  fix ex ne ae ts n k and s :: "'a expr_state"
  let ?e = "Cond c a b" and ?low = "EXP_LOWEST E rd k"
  let ?ts1 = "TOp COL # tokens 2 b @ ts"
  let ?ts0 = "TOp QUES # tokens 0 a @ ?ts1"
  assume h: "ctx ex stk ne ae s" "ready (tokens 2 ?e @ ts) s" "follows 2 ts"
      "length (tokens 2 ?e @ ts) < n" "length (tokens 2 ?e @ ts) \<le> k"
  have tk: "tokens 2 ?e @ ts = tokens 3 c @ ?ts0" by (simp add: tokens.simps [of 2 ?e])
  have "stops 3 QUES" "QUES \<noteq> EQ" using stops_op [of QUES 2] by (simp_all add: ops_def tok_defs)
  then have f0: "follows 3 ?ts0" "stops 3 (first_code ?ts0)"
    using stops_mono [of 3 QUES 4] by (simp_all add: follows_def plain_next_def plain_ops_def first_code_def tok_code_def)
  obtain m where n: "n = Suc m" using h(4) by (cases n) auto
  obtain k' where k: "k = Suc k'" using h(5) unfolding tk by (cases k) auto
  have fuel: "length (tokens 3 c @ ?ts0) < n" "length (tokens 3 c @ ?ts0) \<le> k"
      "length (tokens 0 a @ ?ts1) < k" "length (tokens 0 a @ ?ts1) \<le> k'"
      "length (tokens 2 b @ ts) < m" "length (tokens 2 b @ ts) \<le> k"
    using h(4,5) n k tokens_pos [of 3 c] unfolding tk by simp_all
  have ne: "0 \<le> ne" using h(1) by (simp add: ctx_def)
  have sk: "((if q then ne + 1 else ne) \<noteq> 0) = (ne \<noteq> 0 \<or> q)" for q using ne by simp
  obtain sr where sr: "rd s = Returns () sr" "curtok sr \<notin> {0, COL}"
    and gc: "gives (sem iv upd (ne \<noteq> 0) c (shell s)) (\<lambda>s1. ctx ex stk ne ae s1 \<and> looking ?ts0 s1) (lev E rd ?low 3 n sr)"
    using means_gives [OF c h(1) h(2) [unfolded tk] f0 _ fuel(1,2)] by auto
  have lev: "lev E rd ?low 2 n sr = then_do (lev E rd ?low 3 n sr) (cond_tail E rd ?low m)"
    using lev_tail [of 2 n] n by (simp add: tail_def)
  have ga: "\<exists>sr1. rd (raise_noeval q s1) = Returns () sr1 \<and> curtok sr1 \<notin> {0, COL} \<and>
      gives (sem iv upd (ne \<noteq> 0 \<or> q) a (shell s1))
        (\<lambda>s2. ctx ex stk (if q then ne + 1 else ne) ae s2 \<and> looking ?ts1 s2) (?low sr1)"
    if "ctx ex stk ne ae s1 \<and> looking ?ts0 s1" for q s1
  proof -
    have "ready (tokens 0 a @ ?ts1) (raise_noeval q s1)"
      using that ready_looking [of QUES "tokens 0 a @ ?ts1" s1] by (simp add: tok_defs)
    from means_gives [OF a raise_ctx [OF conjunct1 [OF that]] this follows_closing(1) _ _ fuel(3,4)]
    show ?thesis unfolding sk k EXP_LOWEST_lev by (simp add: first_code_def tok_code_def follows_closing)
  qed
  have gb: "\<exists>sr1. rd (raise_noeval q s1) = Returns () sr1 \<and> curtok sr1 \<notin> {0, COL} \<and>
      gives (sem iv upd (ne \<noteq> 0 \<or> q) b (shell s1))
        (\<lambda>s2. ctx ex stk (if q then ne + 1 else ne) ae s2 \<and> looking ts s2) (lev E rd ?low 2 m sr1)"
    if "ctx ex stk ne ae s1" "looking ?ts1 s1" for q s1
  proof -
    have "ready (tokens 2 b @ ts) (raise_noeval q s1)"
      using that(2) ready_looking [of COL "tokens 2 b @ ts" s1] by (simp add: tok_defs)
    from means_gives [OF b raise_ctx [OF that(1)] this h(3) follows_right [OF _ h(3)] _ fuel(5,6)]
    show ?thesis unfolding sk by simp
  qed
  have ex: "expcond E rd ?low m = lev E rd ?low 2 m" by (rule ext) (simp add: lev_def)
  show "delivers E iv upd rd 2 ?e (ctx ex stk ne ae) (ne \<noteq> 0) ts s n k"
  proof (rule delivers_gives [where sr = sr])
    show "gives (sem iv upd (ne \<noteq> 0) ?e (shell s)) (\<lambda>s1. ctx ex stk ne ae s1 \<and> looking ts s1) (lev E rd ?low 2 n sr)"
      unfolding lev sem.simps
    proof (rule gives_bind [OF gc])
      fix vc :: intmax and s1 :: "'a expr_state"
      assume s1: "ctx ex stk ne ae s1 \<and> looking ?ts0 s1"
      obtain sr1 where r1: "rd (raise_noeval (vc = 0) s1) = Returns () sr1" "curtok sr1 \<notin> {0, COL}"
          "gives (sem iv upd (ne \<noteq> 0 \<or> vc = 0) a (shell s1))
             (\<lambda>s2. ctx ex stk (if vc = 0 then ne + 1 else ne) ae s2 \<and> looking ?ts1 s2) (?low sr1)"
        using ga [OF s1] by blast
      have 1: "cond_tail E rd ?low m vc s1 = then_do (?low sr1) (\<lambda>val1 s0.
         let s = lower_noeval (vc = 0) s0 in
         if curtok s \<noteq> COL then evalerror ([CHR 0x60, CHR '':'', CHR 0x27] @ '' expected for conditional expression'') s
         else
           then_do (rd (raise_noeval (vc \<noteq> 0) s)) (\<lambda>_ s.
           if curtok s = 0 then evalerror ''expression expected'' s
           else
             then_do (lev E rd ?low 2 m s) (\<lambda>val2 s0.
             let s = lower_noeval (vc \<noteq> 0) s0 in
             Returns (if vc \<noteq> 0 then val1 else val2) (s\<lparr>lasttok := COND\<rparr>))))"
        using r1(1,2) looking_first [OF conjunct2 [OF s1]] unfolding ex [symmetric] by (simp add: cond_tail_def)
      show "gives (case sem iv upd (ne \<noteq> 0 \<or> vc = 0) a (shell s1) of (None, sh) \<Rightarrow> (None, sh) | (Some va, sh) \<Rightarrow>
           (case sem iv upd (ne \<noteq> 0 \<or> vc \<noteq> 0) b sh of (None, sh) \<Rightarrow> (None, sh)
            | (Some vb, sh) \<Rightarrow> (Some (if vc \<noteq> 0 then va else vb), sh)))
          (\<lambda>s1. ctx ex stk ne ae s1 \<and> looking ts s1) (cond_tail E rd ?low m vc s1)"
        unfolding 1
      proof (rule gives_bind [OF r1(3)])
        fix va :: intmax and s2 :: "'a expr_state"
        let ?s2 = "lower_noeval (vc = 0) s2"
        assume s2: "ctx ex stk (if vc = 0 then ne + 1 else ne) ae s2 \<and> looking ?ts1 s2"
        then have c2: "ctx ex stk ne ae ?s2" "looking ?ts1 ?s2" using lower_ctx ne by auto
        obtain sr2 where r2: "rd (raise_noeval (vc \<noteq> 0) ?s2) = Returns () sr2" "curtok sr2 \<notin> {0, COL}"
            "gives (sem iv upd (ne \<noteq> 0 \<or> vc \<noteq> 0) b (shell ?s2))
               (\<lambda>s3. ctx ex stk (if vc \<noteq> 0 then ne + 1 else ne) ae s3 \<and> looking ts s3) (lev E rd ?low 2 m sr2)"
          using gb [OF c2] by blast
        have "gives (case sem iv upd (ne \<noteq> 0 \<or> vc \<noteq> 0) b (shell ?s2) of (None, sh) \<Rightarrow> (None, sh)
              | (Some vb, sh) \<Rightarrow> (Some (if vc \<noteq> 0 then va else vb), sh))
            (\<lambda>s1. ctx ex stk ne ae s1 \<and> looking ts s1)
            (then_do (lev E rd ?low 2 m sr2) (\<lambda>val2 s0. let s = lower_noeval (vc \<noteq> 0) s0 in
              Returns (if vc \<noteq> 0 then va else val2) (s\<lparr>lasttok := COND\<rparr>)))"
        proof (rule gives_bind [OF r2(3)])
          fix vb :: intmax and s3 :: "'a expr_state"
          assume s3: "ctx ex stk (if vc \<noteq> 0 then ne + 1 else ne) ae s3 \<and> looking ts s3"
          then have "ctx ex stk ne ae (lower_noeval (vc \<noteq> 0) s3)" using lower_ctx ne by blast
          with s3 show "gives (Some (if vc \<noteq> 0 then va else vb), shell s3) (\<lambda>s1. ctx ex stk ne ae s1 \<and> looking ts s1)
              (let s = lower_noeval (vc \<noteq> 0) s3 in Returns (if vc \<noteq> 0 then va else vb) (s\<lparr>lasttok := COND\<rparr>))"
            by (simp add: Let_def looking_lasttok tok_defs)
        qed
        then show "gives (case sem iv upd (ne \<noteq> 0 \<or> vc \<noteq> 0) b (shell s2) of (None, sh) \<Rightarrow> (None, sh)
              | (Some vb, sh) \<Rightarrow> (Some (if vc \<noteq> 0 then va else vb), sh))
            (\<lambda>s1. ctx ex stk ne ae s1 \<and> looking ts s1)
            (let s = ?s2 in
             if curtok s \<noteq> COL then evalerror ([CHR 0x60, CHR '':'', CHR 0x27] @ '' expected for conditional expression'') s
             else then_do (rd (raise_noeval (vc \<noteq> 0) s)) (\<lambda>_ s.
               if curtok s = 0 then evalerror ''expression expected'' s
               else then_do (lev E rd ?low 2 m s) (\<lambda>val2 s0. let s = lower_noeval (vc \<noteq> 0) s0 in
                 Returns (if vc \<noteq> 0 then va else val2) (s\<lparr>lasttok := COND\<rparr>))))"
          using r2(1,2) looking_first [OF c2(2)] by (simp add: Let_def)
      qed
    qed
  qed (use sr h(3,4) in simp_all)
qed

section \<open>Assignment\<close>

text \<open>A value of level \<open>q\<close> that no operator of level \<open>p\<close> or more follows is itself of level \<open>p\<close>.\<close>

lemma lev_down:
  assumes "lev E rd low q n sr = Returns v s1" "q \<le> 14" "stops p (curtok s1)" "p \<le> q" "0 < n"
  shows "lev E rd low p n sr = Returns v s1"
  using assms(3,4)
proof (induction "q - p" arbitrary: p)
  case 0
  with assms(1) show ?case by simp
next
  case (Suc d)
  have st: "stops (Suc p) (curtok s1)" using Suc.prems(1) by (rule stops_mono) simp
  have up: "lev E rd low (Suc p) n sr = Returns v s1" by (rule Suc.hyps(1)) (use Suc st in auto)
  have p: "p < 14" using Suc assms(2) by simp
  have "tail E rd low n p n v s1 = Returns v s1" using Suc.prems(1) p by (intro tail_stops) simp_all
  with up p assms(5) show ?case by (simp add: lev_tail)
qed

lemma lev_operand:
  assumes "exp0 E rd low sr = Returns v s1" "\<not> unary_tok (curtok sr)" "stops p (curtok s1)" "p \<le> 14" "0 < n"
  shows "lev E rd low p n sr = Returns v s1"
proof (rule lev_down [OF _ order_refl assms(3-5)])
  obtain m where "n = Suc m" using assms(5) by (cases n) auto
  with assms(1,2) show "lev E rd low 14 n sr = Returns v s1" by (simp add: lev_def exp1.simps unary_tok_def)
qed

lemma stops_assign: "stops 2 EQ" "stops 2 OP_ASSIGN"
  using stops_op [of EQ 1] stops_op [of OP_ASSIGN 1] by (simp_all add: ops_def numeral_2_eq_2)

text \<open>The name on the left, and the state in front of the right-hand side.\<close>

lemma name_assigned:
  assumes rd: "rd = readtok E sub" and E: "integer_shell E iv upd" and sub: "reads_decimals (length stk) sub"
    and s: "ctx ex stk ne ae s" "ready (TName x # t # us) s" and t: "t = TOp EQ \<or> (\<exists>c. t = TAssign c)" and n: "0 < n"
  obtains sr s1 b where "rd s = Returns () sr" "curtok sr = STR_TOK"
    and "lev E rd low 2 n sr = Returns (tokval sr) s1"
    and "tokval sr = (if ne \<noteq> 0 \<or> t = TOp EQ then 0 else iv (shell s) x)"
    and "ctx ex stk ne ae s1" "shell s1 = shell s" "ready us s1" "curtok s1 = tok_code t" "lasttok s1 = STR_TOK"
    and "tokstr s1 = Some (b, x)" "\<And>c. t = TAssign c \<Longrightarrow> assigntok s1 = c"
proof -
  have b: "before s (TName x # t # us)" and l: "lasttok s \<notin> {PREINC, PREDEC}" using s(2) by (simp_all add: ready_def)
  have fits: "fits STR_TOK (t # us)" using t by (auto simp: fits_def plain_ops_def)
  have fc: "first_code (t # us) = tok_code t" "tok_code t \<in> {EQ, OP_ASSIGN}" "tok_code t = EQ \<longleftrightarrow> t = TOp EQ"
    using t by (auto simp: first_code_def tok_code_def tok_defs)
  obtain sr b where sr: "readtok E sub s = Returns () sr" "ctx ex stk ne ae sr" "shell sr = shell s"
      "before sr (t # us)" "curtok sr = STR_TOK" "tokstr sr = Some (b, x)"
      "tokval sr = (if ne \<noteq> 0 \<or> t = TOp EQ then 0 else iv (shell s) x)"
    using readtok_name [OF E sub s(1) b fits] l fc by auto
  have np: "first_code (t # us) \<notin> {POSTINC, POSTDEC}" using fc(1,2) by (auto simp: tok_defs)
  obtain a where a: "exp0 E rd low sr = Returns (tokval sr) (moved (t # us) (sr\<lparr>assigntok := a\<rparr>))"
    using name_operand [OF rd sr(5,4) fits np] by blast
  let ?s1 = "moved (t # us) (sr\<lparr>assigntok := a\<rparr>)"
  have lev: "lev E rd low 2 n sr = Returns (tokval sr) ?s1" 
    by (rule lev_operand [OF a]) (use n sr(5) fc stops_assign in \<open>auto simp: unary_tok_def tok_defs\<close>)
  have "before ?s1 us" by (rule moved_next) (use sr(4) in simp)
  then have ready: "ready us ?s1" using sr(5) fc by (auto simp: ready_def tok_defs)
  have asg: "assigntok ?s1 = c" if "t = TAssign c" for c using that by (simp add: moved_def)
  show thesis
    by (rule that [of sr ?s1 b]) (use sr lev ready asg fc(1) rd in simp_all)
qed

text \<open>What the end of \<open>expassign\<close> makes of the right-hand side.\<close>

lemma assign_binary:
  assumes "c \<in> assign_ops"
  shows "binary_op skipped c old v =
    (if (c = DIV \<or> c = MOD) \<and> v = 0 then (if skipped then assign_op c old 1 else None) else assign_op c old v)"
    "\<exists>w. assign_op c old v = Some w"
  using assms unfolding assign_ops_def insert_iff empty_iff
  by (elim disjE; simp add: binary_op_def assign_op_def c_div_1 c_div_min tok_defs)+

definition assign_fin ::
  "'s shell_ops \<Rightarrow> bool \<Rightarrow> int \<Rightarrow> string \<Rightarrow> intmax \<Rightarrow> intmax \<Rightarrow> intmax \<Rightarrow> 's expr_state \<Rightarrow> (intmax, 's) evaluation" where
  "assign_fin E special op lhs lind lvalue value s =
     (if special \<and> (op = DIV \<or> op = MOD) \<and> value = 0 \<and> noeval s = 0 then evalerror ''division by 0'' s
      else
        let value = (if special \<and> (op = DIV \<or> op = MOD) \<and> value = 0 then 1 else value) in
        (case (if special then assign_op op lvalue value else Some value) of
           None \<Rightarrow> evalerror ''bug: bad expassign token'' s
         | Some v \<Rightarrow>
             then_do (store_lvalue E lhs lind v s) (\<lambda>_ s. Returns v ((reset_curlval s)\<lparr>tokstr := None\<rparr>))))"

lemma assign_tail_fin:
  assumes "curtok s = EQ \<or> curtok s = OP_ASSIGN" "lasttok s = STR_TOK" "tokstr s = Some (b, lhs)"
  shows "assign_tail E rd low n lvalue s =
    then_do (rd s) (\<lambda>_ s1. then_do (expassign E rd low n s1)
      (\<lambda>v s2. assign_fin E (curtok s = OP_ASSIGN) (assigntok s) lhs (lv_ind (curlval s)) lvalue v s2))"
  using assms by (elim disjE) (simp_all add: assign_tail_def assign_fin_def Let_def tok_defs)

lemma stored_simps:
  "looking ts (s\<lparr>shell := sh\<rparr>) = looking ts s" "looking ts (s\<lparr>tokstr := tk\<rparr>) = looking ts s"
  "looking ts (reset_curlval s) = looking ts s" "shell (reset_curlval s) = shell s"
  "ctx ex stk ne ae s \<Longrightarrow> ctx ex stk ne ae (reset_curlval (s\<lparr>shell := sh\<rparr>))"
  "ctx ex stk ne ae s \<Longrightarrow> ctx ex stk ne ae (reset_curlval s)"
  by (simp_all add: looking_def reset_curlval_def ctx_def init_lvalue_def)

lemma store_gives:
  assumes "integer_shell E iv upd" "legal_name x" "ctx ex stk ne ae s" "looking ts s"
  shows "gives (Some v, if ne \<noteq> 0 then shell s else upd (shell s) x v) (\<lambda>s. ctx ex stk ne ae s \<and> looking ts s)
    (then_do (store_lvalue E x (- 1) v s) (\<lambda>_ s. Returns v ((reset_curlval s)\<lparr>tokstr := None\<rparr>)))"
  unfolding store_lvalue_integer [OF assms(1,3,2)]
  using assms(3,4) by (auto simp: stored_simps stored_def)

lemma assign_gives:
  assumes "integer_shell E iv upd" "legal_name x" "ctx ex stk ne ae s" "looking ts s"
  shows "gives (Some v, if ne \<noteq> 0 then shell s else upd (shell s) x v) (\<lambda>s. ctx ex stk ne ae s \<and> looking ts s)
      (assign_fin E False op x (- 1) l v s)"
    and "op \<in> assign_ops \<Longrightarrow>
      gives (case binary_op (ne \<noteq> 0) op l v of None \<Rightarrow> (None, shell s)
          | Some v \<Rightarrow> (Some v, if ne \<noteq> 0 then shell s else upd (shell s) x v))
        (\<lambda>s. ctx ex stk ne ae s \<and> looking ts s) (assign_fin E True op x (- 1) l v s)"
proof -
  note st = store_gives [OF assms]
  show "gives (Some v, if ne \<noteq> 0 then shell s else upd (shell s) x v) (\<lambda>s. ctx ex stk ne ae s \<and> looking ts s)
      (assign_fin E False op x (- 1) l v s)"
    using st [of v] by (simp add: assign_fin_def)
  assume op: "op \<in> assign_ops"
  have ne: "noeval s = ne" using assms(3) by (simp add: ctx_def)
  show "gives (case binary_op (ne \<noteq> 0) op l v of None \<Rightarrow> (None, shell s)
          | Some v \<Rightarrow> (Some v, if ne \<noteq> 0 then shell s else upd (shell s) x v))
        (\<lambda>s. ctx ex stk ne ae s \<and> looking ts s) (assign_fin E True op x (- 1) l v s)"
  proof (cases "(op = DIV \<or> op = MOD) \<and> v = 0")
    case True
    obtain w where w: "assign_op op l 1 = Some w" using assign_binary(2) [OF op] by blast
    show ?thesis
    proof (cases "ne = 0")
      case z: True
      with True ne show ?thesis
        unfolding assign_fin_def by (simp add: assign_binary(1) [OF op] gives_evalerror)
    next
      case z: False
      with True ne w st [of w] show ?thesis
        unfolding assign_fin_def by (simp add: assign_binary(1) [OF op])
    qed
  next
    case False
    obtain w where w: "assign_op op l v = Some w" using assign_binary(2) [OF op] by blast
    have b: "binary_op (ne \<noteq> 0) op l v = Some w" using False w by (simp only: assign_binary(1) [OF op] if_False)
    have "assign_fin E True op x (- 1) l v s =
        then_do (store_lvalue E x (- 1) w s) (\<lambda>_ s. Returns w ((reset_curlval s)\<lparr>tokstr := None\<rparr>))"
      unfolding assign_fin_def using False w by auto
    with st [of w] b show ?thesis by simp
  qed
qed

text \<open>\<open>=\<close> and the operators \<open>OP=\<close> in one.\<close>

lemma means_assignment:
  assumes rd: "rd = readtok E sub" and E: "integer_shell E iv upd" and sub: "reads_decimals (length stk) sub"
    and b: "means E iv upd rd stk 1 b" and x: "legal_name x"
    and tk: "tokens 1 e = TName x # t # tokens 1 b" and t: "t = TOp EQ \<or> (\<exists>c \<in> assign_ops. t = TAssign c)"
    and sem: "\<And>skipped sh. sem iv upd skipped e sh =
      (case sem iv upd skipped b sh of (None, sh1) \<Rightarrow> (None, sh1) | (Some v, sh1) \<Rightarrow>
        (case (case t of TAssign c \<Rightarrow> binary_op skipped c (if skipped then 0 else iv sh x) v | _ \<Rightarrow> Some v) of
           None \<Rightarrow> (None, sh1) | Some v \<Rightarrow> (Some v, if skipped then sh1 else upd sh1 x v)))"
  shows "means E iv upd rd stk 1 e"
proof (rule meansI)
  fix ex ne ae ts n k and s :: "'a expr_state"
  let ?low = "EXP_LOWEST E rd k"
  assume h: "ctx ex stk ne ae s" "ready (tokens 1 e @ ts) s" "follows 1 ts"
      "length (tokens 1 e @ ts) < n" "length (tokens 1 e @ ts) \<le> k"
  have tks: "tokens 1 e @ ts = TName x # t # tokens 1 b @ ts" using tk by simp
  obtain m where n: "n = Suc m" using h(4) by (cases n) auto
  have t': "t = TOp EQ \<or> (\<exists>c. t = TAssign c)" using t by blast
  have n0: "0 < n" using n by simp
  obtain sr s1 bl where sr: "rd s = Returns () sr" "curtok sr = STR_TOK" "lev E rd ?low 2 n sr = Returns (tokval sr) s1"
      "tokval sr = (if ne \<noteq> 0 \<or> t = TOp EQ then 0 else iv (shell s) x)" "ctx ex stk ne ae s1" "shell s1 = shell s"
      "ready (tokens 1 b @ ts) s1" "curtok s1 = tok_code t" "lasttok s1 = STR_TOK" "tokstr s1 = Some (bl, x)"
      "\<And>c. t = TAssign c \<Longrightarrow> assigntok s1 = c"
    by (rule name_assigned [OF rd E sub h(1) h(2) [unfolded tks] t' n0]) blast
  have fuel: "length (tokens 1 b @ ts) < m" "length (tokens 1 b @ ts) \<le> k" using h(4,5) n unfolding tks by simp_all
  obtain s2 where s2: "rd s1 = Returns () s2"
    and g: "gives (sem iv upd (ne \<noteq> 0) b (shell s)) (\<lambda>s. ctx ex stk ne ae s \<and> looking ts s) (lev E rd ?low 1 m s2)"
    using means_gives [OF b sr(5,7) h(3) follows_right [OF _ h(3)] _ fuel] sr(6) by auto
  have lev: "lev E rd ?low 1 n sr = then_do (lev E rd ?low 2 n sr) (assign_tail E rd ?low m)"
    using lev_tail [of 1 n] n by (simp add: tail_def numeral_2_eq_2)
  have ex: "expassign E rd ?low m = lev E rd ?low 1 m" by (rule ext) (simp add: lev_def)
  have cur: "curtok s1 = EQ \<or> curtok s1 = OP_ASSIGN" "lv_ind (curlval s1) = - 1"
    using sr(5,8) t by (auto simp: tok_code_def ctx_def)
  have run: "lev E rd ?low 1 n sr = then_do (lev E rd ?low 1 m s2)
      (\<lambda>v s. assign_fin E (curtok s1 = OP_ASSIGN) (assigntok s1) x (- 1) (tokval sr) v s)"
    unfolding lev sr(3) then_do.simps assign_tail_fin [OF cur(1) sr(9,10)] s2 ex cur(2) by (rule refl)
  show "delivers E iv upd rd 1 e (ctx ex stk ne ae) (ne \<noteq> 0) ts s n k"
  proof (rule delivers_gives [where sr = sr])
    show "gives (sem iv upd (ne \<noteq> 0) e (shell s)) (\<lambda>s1. ctx ex stk ne ae s1 \<and> looking ts s1) (lev E rd ?low 1 n sr)"
      unfolding run sem
    proof (rule gives_bind [OF g])
      fix v :: intmax and s3 :: "'a expr_state"
      assume "ctx ex stk ne ae s3 \<and> looking ts s3"
      then have s3: "ctx ex stk ne ae s3" "looking ts s3" by simp_all
      note fin = assign_gives [OF E x s3]
      show "gives (case (case t of TAssign c \<Rightarrow> binary_op (ne \<noteq> 0) c (if ne \<noteq> 0 then 0 else iv (shell s) x) v | _ \<Rightarrow> Some v) of
             None \<Rightarrow> (None, shell s3) | Some v \<Rightarrow> (Some v, if ne \<noteq> 0 then shell s3 else upd (shell s3) x v))
          (\<lambda>s1. ctx ex stk ne ae s1 \<and> looking ts s1)
          (assign_fin E (curtok s1 = OP_ASSIGN) (assigntok s1) x (- 1) (tokval sr) v s3)"
      proof (cases t)
        case (TOp c)
        with t sr(8) have "t = TOp EQ" "curtok s1 \<noteq> OP_ASSIGN" by (auto simp: tok_code_def tok_defs)
        with fin(1) show ?thesis by simp
      next
        case (TAssign c)
        with t have "c \<in> assign_ops" by auto
        with fin(2) [of c "tokval sr" v] TAssign sr(4,8,11) show ?thesis by (simp add: tok_code_def)
      qed (use t in auto)
    qed
  qed (use sr h(3,4) in \<open>auto simp: tok_defs\<close>)
qed

lemma means_Assign:
  assumes "rd = readtok E sub" "integer_shell E iv upd" "reads_decimals (length stk) sub"
    and "means E iv upd rd stk 1 e" "legal_name x"
  shows "means E iv upd rd stk 1 (Assign x e)"
  by (rule means_assignment [OF assms, where t = "TOp EQ"]) (auto simp: tokens.simps [of "Suc 0" "Assign x e"] split: option.splits prod.splits)

lemma means_AssignOp:
  assumes "rd = readtok E sub" "integer_shell E iv upd" "reads_decimals (length stk) sub"
    and "means E iv upd rd stk 1 e" "legal_name x" "c \<in> assign_ops"
  shows "means E iv upd rd stk 1 (AssignOp c x e)"
  by (rule means_assignment [OF assms(1-5), where t = "TAssign c"])
    (use assms(6) in \<open>auto simp: tokens.simps [of "Suc 0" "AssignOp c x e"] Let_def split: option.splits prod.splits\<close>)

section \<open>All expressions\<close>

lemma level_le: "level e \<le> 15"
  by (cases e) (simp_all add: op_level_def)

lemma means_level:
  assumes rd: "rd = readtok E sub" and E: "integer_shell E iv upd" and sub: "reads_decimals (length stk) sub"
  shows "wf_aexp e \<Longrightarrow> means E iv upd rd stk (level e) e"
proof (induction e)
  case (Binary c a b)
  have a: "means E iv upd rd stk p a" and b: "means E iv upd rd stk p b" if "p \<le> 15" for p
    using Binary means_all [OF _ rd level_le that] by simp_all
  have "c \<in> bin_ops \<or> c \<in> mul_ops \<or> c = POWER" using Binary.prems by (auto simp: bin_ops_def mul_ops_def)
  then show ?case
  proof (elim disjE)
    assume c: "c \<in> bin_ops"
    with op_level_bin [of c] have "op_level c < 13" by simp
    with c show ?thesis by (simp add: means_bin a b)
  next
    assume c: "c \<in> mul_ops"
    then have "op_level c = 12" by (auto simp: mul_ops_def op_level_def tok_defs)
    with c show ?thesis by (simp add: means_mul a b)
  next
    assume c: "c = POWER"
    have "op_level POWER = 13" by (simp add: op_level_def tok_defs)
    with c show ?thesis by (simp add: means_Power a b)
  qed
next
  case (Cond c a b)
  with means_all [OF _ rd level_le] show ?case by (simp add: means_Cond)
next
  case (Assign x e)
  with means_all [OF _ rd level_le, where p = 1] show ?case by (simp add: means_Assign [OF rd E sub, unfolded One_nat_def])
next
  case (AssignOp c x e)
  with means_all [OF _ rd level_le, where p = 1] show ?case by (simp add: means_AssignOp [OF rd E sub, unfolded One_nat_def])
qed (use means_all [OF _ rd level_le] in
  \<open>simp_all add: means_Num [OF rd] means_Var [OF rd E sub] means_Pre [OF rd E sub] means_Post [OF rd E sub]
     means_Unary [OF _ rd] means_And means_Or means_Comma\<close>)

lemma wf_bare: "wf_aexp e \<Longrightarrow> list_all wf_tok (bare e)" and wf_tokens: "wf_aexp e \<Longrightarrow> list_all wf_tok (tokens p e)"
proof -
  have up: "list_all wf_tok (bare e) \<Longrightarrow> list_all wf_tok (tokens p e)" for p e
    by (simp add: tokens.simps plain_ops_def)
  show "wf_aexp e \<Longrightarrow> list_all wf_tok (bare e)"
    by (induction e) (auto simp: up unary_tok_def plain_ops_def)
  then show "wf_aexp e \<Longrightarrow> list_all wf_tok (tokens p e)" by (rule up)
qed

section \<open>Decimal numbers as the values of variables\<close>

lemma digits_no_start: "\<not> legal_variable_starter (hd (fmt_base10 v))" "DIGIT (hd (fmt_base10 v))"
proof -
  show d: "DIGIT (hd (fmt_base10 v))" using fmt_base10_DIGIT [of "hd (fmt_base10 v)" v] fmt_base10_nonempty by simp
  then show "\<not> legal_variable_starter (hd (fmt_base10 v))" by (auto simp: ctype_defs)
qed

lemma readtok_digits:
  assumes "drop (skip_space s) (expression s) = fmt_base10 v"
  shows "readtok E sub s = Returns () (s\<lparr>tp := length (expression s), lasttp := skip_space s,
      tokval := v, lasttok := curtok s, curtok := NUM\<rparr>)"
proof -
  have n: "skip_space s < length (expression s)" using assms fmt_base10_nonempty [of v] by (metis drop_eq_Nil not_le)
  then have c: "byte_at (expression s) (skip_space s) = hd (fmt_base10 v)"
    by (simp add: byte_at_def hd_drop_conv_nth flip: assms)
  have tw: "takeWhile number_char (fmt_base10 v) = fmt_base10 v"
    using fmt_base10_DIGIT by (auto simp: takeWhile_eq_all_conv number_char_def ctype_defs)
  then have st: "strlong (takeWhile number_char (fmt_base10 v)) = Inr v"
      "length (takeWhile number_char (fmt_base10 v)) = length (fmt_base10 v)" by (simp_all only: strlong_decimal)
  have "skip_space s + length (fmt_base10 v) = length (expression s)" using n by (simp flip: assms)
  with n c st digits_no_start [of v] assms show ?thesis
    by (simp add: readtok.simps [of E sub s] Let_def read_number_def not_le)
qed

lemma readtok_end:
  assumes "length (expression s) \<le> tp s"
  shows "readtok E sub s = Returns () (s\<lparr>lasttok := curtok s, curtok := 0\<rparr>)"
  using assms by (simp add: readtok.simps [of E sub s] Let_def skip_space_def)

lemma readtok_minus:
  assumes "expression s = CHR ''-'' # fmt_base10 v" "tp s = 0"
  shows "readtok E sub s = Returns () (s\<lparr>tp := 1, lasttp := 0, lasttok := curtok s, curtok := MINUS\<rparr>)"
proof -
  obtain a u where a: "fmt_base10 v = a # u" using fmt_base10_nonempty [of v] by (cases "fmt_base10 v") auto
  then have "a \<noteq> CHR ''-''" "a \<noteq> CHR ''=''" using digits_no_start(2) [of v] by (auto simp: ctype_defs)
  then have "lex_operator c p (CHR ''-'' # a # u) = Operator MINUS None 1" for c p
    by (simp add: lex_operator_def byte_at_def is_arithop_def tok_defs)
  with assms show ?thesis
    by (simp add: readtok.simps [of E sub s] Let_def skip_space_def byte_at_def a read_operator_def ctype_defs)
qed

lemma stops_end: "stops p 0"
  using ops_member [of 0] by (auto simp: stops_def tok_defs)

lemma digits_operand:
  assumes "curtok s = NUM" "length (expression s) \<le> tp s" "0 < n"
  shows "lev E (readtok E sub) low 14 n s = Returns (tokval s) (s\<lparr>lasttok := NUM, curtok := 0\<rparr>)"
proof (rule lev_operand)
  show "exp0 E (readtok E sub) low s = Returns (tokval s) (s\<lparr>lasttok := NUM, curtok := 0\<rparr>)"
    using assms by (simp add: exp0_def readtok_end tok_defs)
qed (use assms in \<open>simp_all add: unary_tok_def tok_defs\<close>)

lemma start_simps [simp]:
  "expression (start_expression e s) = e" "tp (start_expression e s) = 0" "curtok (start_expression e s) = 0"
  "lasttok (start_expression e s) = 0" "shell (start_expression e s) = shell s"
  "already_expanded (start_expression e s) = already_expanded s" "noeval (start_expression e s) = noeval s"
  "expr_stack (start_expression e s) = SAVETOK s # expr_stack s" "curlval (start_expression e s) = init_lvalue"
  by (simp_all add: start_expression_def)

lemma decimal_run:
  "\<exists>s1 s2. readtok E sub (start_expression (decimal v) s) = Returns () s1 \<and>
     lev E (readtok E sub) low 0 (Suc (Suc n)) s1 = Returns v s2 \<and> curtok s2 = 0 \<and>
     expr_stack s2 = SAVETOK s # expr_stack s \<and> shell s2 = shell s \<and> already_expanded s2 = already_expanded s"
proof (cases "sint v < 0")
  case False
  let ?s = "start_expression (decimal v) s"
  let ?s1 = "?s\<lparr>tp := length (decimal v), lasttp := 0, tokval := v, lasttok := 0, curtok := NUM\<rparr>"
  have d: "decimal v = fmt_base10 v" using False by (simp add: decimal_def)
  have ws: "takeWhile cr_whitespace (fmt_base10 v) = []"
    using digits_no_start(2) [of v] by (cases "fmt_base10 v") (auto simp: ctype_defs)
  have "readtok E sub ?s = Returns () ?s1"
    by (subst readtok_digits [where v = v]) (simp_all add: d skip_space_def ws)
  moreover have "lev E (readtok E sub) low 14 (Suc (Suc n)) ?s1 = Returns v (?s1\<lparr>lasttok := NUM, curtok := 0\<rparr>)"
    by (subst digits_operand) simp_all
  then have "lev E (readtok E sub) low 0 (Suc (Suc n)) ?s1 = Returns v (?s1\<lparr>lasttok := NUM, curtok := 0\<rparr>)"
    by (rule lev_down) (simp_all add: stops_end)
  ultimately show ?thesis by (intro exI conjI) (assumption | simp)+
next
  case True
  let ?s = "start_expression (decimal v) s"
  let ?s1 = "?s\<lparr>tp := 1, lasttp := 0, lasttok := 0, curtok := MINUS\<rparr>"
  let ?s2 = "?s1\<lparr>tp := length (decimal v), lasttp := 1, tokval := - v, lasttok := MINUS, curtok := NUM\<rparr>"
  have d: "decimal v = CHR ''-'' # fmt_base10 (- v)" using True by (simp add: decimal_def)
  have ws: "takeWhile cr_whitespace (fmt_base10 (- v)) = []"
    using digits_no_start(2) [of "- v"] by (cases "fmt_base10 (- v)") (auto simp: ctype_defs)
  have 1: "readtok E sub ?s = Returns () ?s1"
    by (subst readtok_minus [where v = "- v"]) (simp_all add: d)
  have 2: "readtok E sub ?s1 = Returns () ?s2"
    by (subst readtok_digits [where v = "- v"]) (simp_all add: d skip_space_def ws)
  have "lev E (readtok E sub) low 14 (Suc n) ?s2 = Returns (- v) (?s2\<lparr>lasttok := NUM, curtok := 0\<rparr>)"
    by (subst digits_operand) simp_all
  then have "lev E (readtok E sub) low 14 (Suc (Suc n)) ?s1 = Returns v (?s2\<lparr>lasttok := NUM, curtok := 0\<rparr>)"
    using 2 by (simp add: lev_def exp1.simps(2) [of _ _ _ "Suc n"] tok_defs)
  then have "lev E (readtok E sub) low 0 (Suc (Suc n)) ?s1 = Returns v (?s2\<lparr>lasttok := NUM, curtok := 0\<rparr>)"
    by (rule lev_down) (simp_all add: stops_end)
  with 1 show ?thesis by (intro exI conjI) (assumption | simp)+
qed

lemma decimal_not_blank: "dropWhile cr_whitespace (decimal v) \<noteq> []"
proof -
  have "\<exists>c \<in> set (decimal v). \<not> cr_whitespace c"
    using digits_no_start(2) [of v] fmt_base10_nonempty [of v] by (auto simp: decimal_def ctype_defs intro!: bexI [of _ "hd (fmt_base10 v)"])
  then show ?thesis by simp
qed

lemma subexpr_decimal:
  assumes "k < MAX_EXPR_RECURSION_LEVEL"
  shows "reads_decimals k (subexpr E (Suc d))"
  unfolding reads_decimals_def
proof (intro allI impI, elim conjE)
  fix v and s :: "'a expr_state"
  assume s: "length (expr_stack s) = k" "noeval s = 0"
  let ?rd = "readtok E (subexpr E d)"
  obtain s1 s2 where s1: "?rd (start_expression (decimal v) s) = Returns () s1"
      "lev E ?rd (EXP_LOWEST E ?rd (length (decimal v) + 1)) 0 (length (decimal v) + 2) s1 = Returns v s2" "curtok s2 = 0"
      "expr_stack s2 = SAVETOK s # expr_stack s" "shell s2 = shell s" "already_expanded s2 = already_expanded s"
    using decimal_run [of E "subexpr E d" v s "EXP_LOWEST E ?rd (length (decimal v) + 1)" "length (decimal v)"] by auto
  have low: "EXP_LOWEST E ?rd (length (decimal v) + 2) s1 = Returns v s2"
    using s1(2) EXP_LOWEST_lev [of E ?rd "length (decimal v) + 1"] by simp
  obtain s3 where s3: "popexp s2 = Returns () s3" "same_context s s3" "shell s3 = shell s2"
    using popexp_restores [OF s1(4)] by blast
  then have "already_expanded s3 = already_expanded s" using s1(4,6) by (auto simp: popexp_def RESTORETOK_def)
  moreover have "subexpr E (Suc d) (decimal v) s = Returns v s3"
    using subexpr_unfold [OF decimal_not_blank, of s E d v] s(1) assms s1(1,3) low s3(1) by simp
  ultimately show "\<exists>s'. subexpr E (Suc d) (decimal v) s = Returns v s' \<and> same_context s s' \<and> shell s' = shell s \<and>
      already_expanded s' = already_expanded s" using s3(2,3) s1(5) by auto
qed

section \<open>The theorem\<close>

lemma text_length: "list_all wf_tok ts \<Longrightarrow> length ts \<le> length (text_of ts)"
  by (induction ts) (simp_all add: text_Cons)

lemma subexpr_means:
  assumes E: "integer_shell E iv upd" and e: "wf_aexp e"
    and s: "expr_stack s = []" "noeval s = 0"
  shows "\<exists>C. gives (sem iv upd False e (shell s)) C (subexpr E (Suc MAX_EXPR_RECURSION_LEVEL) (text_of (tokens 0 e)) s)"
proof -
  let ?t = "text_of (tokens 0 e)" and ?M = "MAX_EXPR_RECURSION_LEVEL"
  let ?rd = "readtok E (subexpr E ?M)" and ?s = "start_expression ?t s" and ?stk = "[SAVETOK s]"
  have wf: "list_all wf_tok (tokens 0 e)" using e by (rule wf_tokens)
  have sub: "reads_decimals (length ?stk) (subexpr E ?M)"
    using subexpr_decimal [of 1 E "?M - 1"] by (simp add: MAX_EXPR_RECURSION_LEVEL_def)
  have m: "means E iv upd ?rd ?stk 0 e" by (rule means_all [OF means_level [OF refl E sub e] refl level_le]) simp
  have c: "ctx ?t ?stk 0 (already_expanded s) ?s" using s by (simp add: ctx_def init_lvalue_def)
  have "dropWhile cr_whitespace ?t = ?t" using text_of_dropWhile [OF wf] by (simp add: ctype_defs)
  then have r: "ready (tokens 0 e @ []) ?s" using wf by (simp add: ready_def before_def tok_defs)
  have f: "follows 0 []" "stops 0 (first_code [])"
    by (simp_all add: follows_def plain_next_def stops_end first_code_def)
  have fuel: "length (tokens 0 e @ []) < length ?t + 2" "length (tokens 0 e @ []) \<le> length ?t + 1"
    using text_length [OF wf] by simp_all
  obtain s1 where s1: "?rd ?s = Returns () s1"
    and g: "gives (sem iv upd False e (shell s)) (\<lambda>s1. ctx ?t ?stk 0 (already_expanded s) s1 \<and> looking [] s1)
      (EXP_LOWEST E ?rd (length ?t + 2) s1)"
    using means_gives [OF m c r f _ fuel] EXP_LOWEST_lev [of E ?rd "length ?t + 1"] by auto
  have "dropWhile cr_whitespace ?t \<noteq> []"
    using \<open>dropWhile cr_whitespace ?t = ?t\<close> tokens_pos [of 0 e] text_length [OF wf] by auto
  then have run: "subexpr E (Suc ?M) ?t s = then_do (EXP_LOWEST E ?rd (length ?t + 2) s1) (\<lambda>val s.
      if curtok s \<noteq> 0 then evalerror ''syntax error in expression'' s else then_do (popexp s) (\<lambda>_ s. Returns val s))"
    using s s1 by (subst subexpr_unfold) (simp_all add: MAX_EXPR_RECURSION_LEVEL_def)
  have "gives (case sem iv upd False e (shell s) of (None, sh) \<Rightarrow> (None, sh) | (Some v, sh) \<Rightarrow> (Some v, sh))
      (\<lambda>_. True) (subexpr E (Suc ?M) ?t s)"
    unfolding run
  proof (rule gives_bind [OF g])
    fix v and s2 :: "'a expr_state"
    assume s2: "ctx ?t ?stk 0 (already_expanded s) s2 \<and> looking [] s2"
    then have "curtok s2 = 0" "expr_stack s2 = SAVETOK s # expr_stack s"
      using s by (simp_all add: looking_def first_code_def ctx_def)
    with popexp_restores [of s2 s] show "gives (Some v, shell s2) (\<lambda>_. True)
        (if curtok s2 \<noteq> 0 then evalerror ''syntax error in expression'' s2 else then_do (popexp s2) (\<lambda>_ s. Returns v s))"
      by auto
  qed
  moreover have "(case r of (None, sh) \<Rightarrow> (None, sh) | (Some v, sh) \<Rightarrow> (Some v, sh)) = r" for r :: "intmax option \<times> 'a"
    by (cases r) (simp split: option.split)
  ultimately show ?thesis by auto
qed

lemma evalexp_gives:
  assumes "integer_shell E iv upd" "wf_aexp e" "expr_stack s = []"
  shows "\<exists>C. gives (sem iv upd False e (shell s)) C
    (subexpr E (Suc MAX_EXPR_RECURSION_LEVEL) (text_of (tokens 0 e)) (s\<lparr>noeval := 0, already_expanded := flags\<rparr>))"
  using subexpr_means [OF assms(1,2), of "s\<lparr>noeval := 0, already_expanded := flags\<rparr>"] assms(3) by simp

lemma evalexp_value:
  assumes "integer_shell E iv upd" "wf_aexp e" "expr_stack s = []" "sem iv upd False e (shell s) = (Some v, sh)"
  shows "\<exists>s'. evalexp E (text_of (tokens 0 e)) flags s = Returns (v, True) s' \<and> shell s' = sh"
  using evalexp_gives [OF assms(1-3), of flags] assms(4) by (auto simp: gives_def evalexp_def)

lemma evalexp_error:
  assumes "integer_shell E iv upd" "wf_aexp e" "expr_stack s = []" "sem iv upd False e (shell s) = (None, sh)"
  shows "\<exists>s'. evalexp E (text_of (tokens 0 e)) flags s = Returns (0, False) s' \<and> shell s' = sh"
  using evalexp_gives [OF assms(1-3), of flags] assms(4)
  by (auto simp: gives_def failed_def evalexp_def expr_unwind_def)

text \<open>
  C2. The evaluator computes what C says. The text of any expression of the grammar, with only the
  parentheses that the precedences and associativities make necessary, evaluates in any shell
  whose variables are unset, empty or decimal to the meaning of the expression: the same value,
  wrapped to 64 bits, and the same assignments in the same order; or, exactly when the meaning is
  an error (division by 0 where it is evaluated, a negative exponent anywhere), to 0 with the flag
  false, after the assignments made before the error.
\<close>

theorem evalexp_computes_C:
  assumes "integer_shell E iv upd" "wf_aexp e" "expr_stack s = []"
  shows "case sem iv upd False e (shell s) of
      (Some v, sh) \<Rightarrow> (\<exists>s'. evalexp E (text_of (tokens 0 e)) flags s = Returns (v, True) s' \<and> shell s' = sh)
    | (None, sh) \<Rightarrow> (\<exists>s'. evalexp E (text_of (tokens 0 e)) flags s = Returns (0, False) s' \<and> shell s' = sh)"
proof -
  show ?thesis using evalexp_value [OF assms] evalexp_error [OF assms] by (auto split: prod.splits option.splits)
qed

text \<open>The shell that keeps numbers is one the theorem applies to.\<close>

lemma number_of_decimal: "number_of (decimal v) = v"
proof -
  have "take 1 (fmt_base10 v) \<noteq> ''-''" using digits_no_start(2) [of v] by (cases "fmt_base10 v") (auto simp: ctype_defs)
  then show ?thesis by (auto simp: number_of_def decimal_def strlong_decimal)
qed

lemma number_shell_integer: "integer_shell number_shell (\<lambda>sh. sh) (\<lambda>sh x v. sh(x := v))"
  by (auto simp: integer_shell_def number_shell_def integer_text_def number_of_decimal)

theorem evalexp_computes_C_witness:
  "\<exists>s. evalexp number_shell ''x < 5 ? y += 2 ** x : y -- '' False (idle (\<lambda>x. 3)) = Returns (11, True) s \<and>
     shell s = (\<lambda>x. 3) (''y'' := 11)"
proof -
  let ?e = "Cond (Binary LT (Var ''x'') (Num 5)) (AssignOp PLUS ''y'' (Binary POWER (Num 2) (Var ''x''))) (Post False ''y'')"
  have wf: "wf_aexp ?e" by (simp add: unary_tok_def assign_ops_def legal_name_def ctype_defs tok_defs)
  have t: "text_of (tokens 0 ?e) = ''x < 5 ? y += 2 ** x : y -- ''" by code_simp
  have v: "sem (\<lambda>sh. sh) (\<lambda>sh x v. sh(x := v)) False ?e (\<lambda>x. 3) = (Some 11, (\<lambda>x. 3) (''y'' := 11))"
    by (simp add: binary_op_def truth_def tok_defs)
  have "case sem (\<lambda>sh. sh) (\<lambda>sh x v. sh(x := v)) False ?e (shell (idle (\<lambda>x. 3))) of
      (Some v, sh) \<Rightarrow> (\<exists>s'. evalexp number_shell (text_of (tokens 0 ?e)) False (idle (\<lambda>x. 3)) = Returns (v, True) s' \<and> shell s' = sh)
    | (None, sh) \<Rightarrow> (\<exists>s'. evalexp number_shell (text_of (tokens 0 ?e)) False (idle (\<lambda>x. 3)) = Returns (0, False) s' \<and> shell s' = sh)"
    by (rule evalexp_computes_C [OF number_shell_integer wf]) (simp add: idle_def)
  moreover have "shell (idle sh) = sh" for sh :: "string \<Rightarrow> intmax" by (simp add: idle_def)
  ultimately show ?thesis unfolding t by (simp only: v prod.case option.case)
qed

text \<open>
  An operand that is skipped can still fail: a negative exponent is refused wherever it stands,
  while a division by 0 is not.
\<close>

lemma skipped_exponent_fails:
  assumes "integer_shell E iv upd" "expr_stack s = []"
  shows "\<exists>s'. evalexp E ''0 && 2 ** - 1 '' flags s = Returns (0, False) s'"
    and "\<exists>s'. evalexp E ''0 && 1 / 0 '' flags s = Returns (0, True) s'"
proof -
  let ?e = "And (Num 0) (Binary POWER (Num 2) (Unary MINUS (Num 1)))" and ?d = "And (Num 0) (Binary DIV (Num 1) (Num 0))"
  have e: "wf_aexp ?e" "text_of (tokens 0 ?e) = ''0 && 2 ** - 1 ''" "sem iv upd False ?e (shell s) = (None, shell s)"
    by (simp add: unary_tok_def, code_simp, simp add: binary_op_def unary_op_def tok_defs)
  show "\<exists>s'. evalexp E ''0 && 2 ** - 1 '' flags s = Returns (0, False) s'"
    using subst [OF e(2), of "\<lambda>t. \<exists>s'. evalexp E t flags s = Returns (0, False) s'"]
      evalexp_error [OF assms(1) e(1) assms(2) e(3)] by blast
  have d: "wf_aexp ?d" "text_of (tokens 0 ?d) = ''0 && 1 / 0 ''" "sem iv upd False ?d (shell s) = (Some 0, shell s)"
    by (simp, code_simp, simp add: binary_op_def truth_def tok_defs)
  show "\<exists>s'. evalexp E ''0 && 1 / 0 '' flags s = Returns (0, True) s'"
    using subst [OF d(2), of "\<lambda>t. \<exists>s'. evalexp E t flags s = Returns (0, True) s'"]
      evalexp_value [OF assms(1) d(1) assms(2) d(3)] by blast
qed

end
