(* ===== verification/Bash_Glob.thy ===== *)
theory Bash_Glob imports Bash_Arith begin

text \<open>
  Pattern matching of bash (\<open>src/khsl/bash/bash-5.2/lib/glob\<close>): the matcher of \<open>sm_loop.c\<close> in the
  single-byte version that \<open>smatch.c\<close> compiles, and the questions of \<open>gm_loop.c\<close>, \<open>gmisc.c\<close> and
  \<open>glob_loop.c\<close> about a pattern.

  A pointer is an index into the pattern or the string it points into; nested matches work on the
  same two buffers with other bounds, as in the code. A byte behind the terminating zero byte is
  read as zero: after \<open>[[=\<close> at the end of a pattern \<open>BRACKMATCH\<close> looks one byte too far. What the C
  library knows of the locale, and the byte in front of the string, which \<open>GMATCH\<close> reads as
  \<open>n[-1]\<close>, are the record \<open>match_env\<close>. Signals that interrupt a match are not modelled.
\<close>

section \<open>Characters and flags\<close>

datatype char_class =
  CC_NO_CLASS | CC_ASCII | CC_ALNUM | CC_ALPHA | CC_BLANK | CC_CNTRL | CC_DIGIT | CC_GRAPH
| CC_LOWER | CC_PRINT | CC_PUNCT | CC_SPACE | CC_UPPER | CC_WORD | CC_XDIGIT

text \<open>
  \<open>env_isclass\<close> are the \<open>is\<dots>\<close> functions of \<open>ctype.h\<close>, \<open>env_strcoll\<close> is \<open>strcoll\<close>,
  \<open>env_equiv_fallback\<close> the optional question to \<open>fnmatch\<close>.
\<close>

record match_env =
  env_isclass :: "char_class \<Rightarrow> char \<Rightarrow> bool"
  env_tolower :: "char \<Rightarrow> char"
  env_strcoll :: "string \<Rightarrow> string \<Rightarrow> int"
  env_equiv_fallback :: "char \<Rightarrow> char \<Rightarrow> bool"
  env_asciirange :: bool
  env_before :: char

definition FNM_PATHNAME :: u32 where "FNM_PATHNAME = push_bit 0 1"
definition FNM_NOESCAPE :: u32 where "FNM_NOESCAPE = push_bit 1 1"
definition FNM_PERIOD :: u32 where "FNM_PERIOD = push_bit 2 1"
definition FNM_LEADING_DIR :: u32 where "FNM_LEADING_DIR = push_bit 3 1"
definition FNM_CASEFOLD :: u32 where "FNM_CASEFOLD = push_bit 4 1"
definition FNM_EXTMATCH :: u32 where "FNM_EXTMATCH = push_bit 5 1"
definition FNM_DOTDOT :: u32 where "FNM_DOTDOT = push_bit 7 1"

lemmas FNM_defs = FNM_PATHNAME_def FNM_NOESCAPE_def FNM_PERIOD_def FNM_LEADING_DIR_def FNM_CASEFOLD_def
  FNM_EXTMATCH_def FNM_DOTDOT_def

definition has :: "u32 \<Rightarrow> u32 \<Rightarrow> bool" where "has flags f \<longleftrightarrow> flags AND f \<noteq> 0"

text \<open>The flags behind the first character of the string.\<close>

definition inner :: "u32 \<Rightarrow> u32" where "inner flags = flags AND NOT (FNM_PERIOD OR FNM_DOTDOT)"

text \<open>No locale has the zero byte as an upper-case letter.\<close>

definition TOLOWER :: "match_env \<Rightarrow> char \<Rightarrow> char" where
  "TOLOWER E c = (if c \<noteq> CHR 0x00 \<and> env_isclass E CC_UPPER c then env_tolower E c else c)"

definition FOLD :: "match_env \<Rightarrow> u32 \<Rightarrow> char \<Rightarrow> char" where
  "FOLD E flags c = (if has flags FNM_CASEFOLD then TOLOWER E c else c)"

definition charcmp :: "match_env \<Rightarrow> char \<Rightarrow> char \<Rightarrow> bool \<Rightarrow> int" where
  "charcmp E c1 c2 forcecoll =
     (if c1 = c2 then 0
      else if \<not> forcecoll \<and> env_asciirange E then int (ord c1) - int (ord c2)
      else env_strcoll E [c1] [c2])"

definition rangecmp :: "match_env \<Rightarrow> char \<Rightarrow> char \<Rightarrow> bool \<Rightarrow> int" where
  "rangecmp E c1 c2 forcecoll =
     (let r = charcmp E c1 c2 forcecoll in if r \<noteq> 0 then r else int (ord c1) - int (ord c2))"

definition collequiv :: "match_env \<Rightarrow> char \<Rightarrow> char \<Rightarrow> bool" where
  "collequiv E c c2 \<longleftrightarrow> charcmp E c c2 True = 0 \<or> env_equiv_fallback E c c2"

definition posix_collsyms :: "(string \<times> nat) list" where
  "posix_collsyms =
    [(''NUL'', 0), (''SOH'', 1), (''STX'', 2), (''ETX'', 3), (''EOT'', 4), (''ENQ'', 5), (''ACK'', 6), (''alert'', 7),
     (''BS'', 8), (''backspace'', 8), (''HT'', 9), (''tab'', 9), (''LF'', 10), (''newline'', 10), (''VT'', 11),
     (''vertical-tab'', 11), (''FF'', 12), (''form-feed'', 12), (''CR'', 13), (''carriage-return'', 13), (''SO'', 14),
     (''SI'', 15), (''DLE'', 16), (''DC1'', 17), (''DC2'', 18), (''DC3'', 19), (''DC4'', 20), (''NAK'', 21),
     (''SYN'', 22), (''ETB'', 23), (''CAN'', 24), (''EM'', 25), (''SUB'', 26), (''ESC'', 27), (''IS4'', 28),
     (''FS'', 28), (''IS3'', 29), (''GS'', 29), (''IS2'', 30), (''RS'', 30), (''IS1'', 31), (''US'', 31),
     (''space'', 32), (''exclamation-mark'', 33), (''quotation-mark'', 34), (''number-sign'', 35),
     (''dollar-sign'', 36), (''percent-sign'', 37), (''ampersand'', 38), (''apostrophe'', 39),
     (''left-parenthesis'', 40), (''right-parenthesis'', 41), (''asterisk'', 42), (''plus-sign'', 43), (''comma'', 44),
     (''hyphen'', 45), (''hyphen-minus'', 45), (''minus'', 45), (''dash'', 45), (''period'', 46), (''full-stop'', 46),
     (''slash'', 47), (''solidus'', 47), (''zero'', 48), (''one'', 49), (''two'', 50), (''three'', 51), (''four'', 52),
     (''five'', 53), (''six'', 54), (''seven'', 55), (''eight'', 56), (''nine'', 57), (''colon'', 58),
     (''semicolon'', 59), (''less-than-sign'', 60), (''equals-sign'', 61), (''greater-than-sign'', 62),
     (''question-mark'', 63), (''commercial-at'', 64), (''left-square-bracket'', 91), (''backslash'', 92),
     (''reverse-solidus'', 92), (''right-square-bracket'', 93), (''circumflex'', 94), (''circumflex-accent'', 94),
     (''underscore'', 95), (''grave-accent'', 96), (''left-brace'', 123), (''left-curly-bracket'', 123),
     (''vertical-line'', 124), (''right-brace'', 125), (''right-curly-bracket'', 125), (''tilde'', 126), (''DEL'', 127)]"

text \<open>\<open>collsym (s, len)\<close> on the \<open>len\<close> bytes \<open>s\<close>; \<open>None\<close> is \<open>INVALID\<close>.\<close>

definition collsym :: "string \<Rightarrow> char option" where
  "collsym s =
     (case map_of posix_collsyms s of
        Some code \<Rightarrow> Some (char_of code)
      | None \<Rightarrow> if length s = 1 then Some (hd s) else None)"

definition cclass_name :: "(string \<times> char_class) list" where
  "cclass_name =
    [(''ascii'', CC_ASCII), (''alnum'', CC_ALNUM), (''alpha'', CC_ALPHA), (''blank'', CC_BLANK), (''cntrl'', CC_CNTRL),
     (''digit'', CC_DIGIT), (''graph'', CC_GRAPH), (''lower'', CC_LOWER), (''print'', CC_PRINT), (''punct'', CC_PUNCT),
     (''space'', CC_SPACE), (''upper'', CC_UPPER), (''word'', CC_WORD), (''xdigit'', CC_XDIGIT)]"

definition is_valid_cclass :: "string \<Rightarrow> char_class" where
  "is_valid_cclass name = (case map_of cclass_name name of Some c \<Rightarrow> c | None \<Rightarrow> CC_NO_CLASS)"

definition cclass_test :: "match_env \<Rightarrow> char \<Rightarrow> char_class \<Rightarrow> bool" where
  "cclass_test E c k =
     (case k of
        CC_ASCII \<Rightarrow> ord c \<le> 127
      | CC_WORD \<Rightarrow> env_isclass E CC_ALNUM c \<or> c = CHR ''_''
      | k \<Rightarrow> env_isclass E k c)"

text \<open>\<open>None\<close> is -1, not a class of characters.\<close>

definition is_cclass :: "match_env \<Rightarrow> char \<Rightarrow> string \<Rightarrow> bool option" where
  "is_cclass E c name =
     (let k = is_valid_cclass name in if k = CC_NO_CLASS then None else Some (cclass_test E c k))"

fun udequote_pathname :: "string \<Rightarrow> string" where
  "udequote_pathname [] = []"
| "udequote_pathname (c # t) =
     (if c = CHR 0x5C then (case t of [] \<Rightarrow> [] | d # u \<Rightarrow> d # udequote_pathname u)
      else c # udequote_pathname t)"


section \<open>Bracket expressions\<close>

definition PARSE_COLLSYM :: "string \<Rightarrow> nat \<Rightarrow> char option \<times> nat" where
  "PARSE_COLLSYM P p0 =
     (let p = p0 + 1;
          pc = length (takeWhile (\<lambda>i. \<not> (byte_at P i = CHR ''.'' \<and> byte_at P (i + 1) = CHR '']'')) [p..<length P])
      in if length P \<le> p + pc then (None, p + pc)
         else (collsym (take pc (drop p P)), p + pc + 2))"

text \<open>Where \<open>:]\<close> closes the name of a class that begins behind \<open>p\<close>; \<open>length P\<close> if it does not.\<close>

definition class_close :: "string \<Rightarrow> nat \<Rightarrow> nat" where
  "class_close P p =
     p + 1 + length (takeWhile (\<lambda>i. \<not> (byte_at P i = CHR '':'' \<and> byte_at P (i + 1) = CHR '']'')) [p + 1..<length P])"

text \<open>The label \<open>matched\<close>: to the end of the expression. The result is what \<open>BRACKMATCH\<close> returns.\<close>

definition unclosed :: "char \<Rightarrow> nat \<Rightarrow> nat option" where
  "unclosed test savep = (if test = CHR ''['' then Some savep else None)"

lemma byte_at_inside: "byte_at P p = c \<Longrightarrow> c \<noteq> CHR 0x00 \<Longrightarrow> p < length P"
  by (auto simp: byte_at_def split: if_splits)

function brack_end ::
  "string \<Rightarrow> bool \<Rightarrow> char \<Rightarrow> nat \<Rightarrow> bool \<Rightarrow> nat \<Rightarrow> char option \<Rightarrow> char \<Rightarrow> nat \<Rightarrow> nat option" where
  "brack_end P escape test savep neg brcnt brchr c p =
     (if c = CHR 0x00 then unclosed test savep
      else
        let oc = c; c = byte_at P p; p = p + 1 in
        if c = CHR ''['' \<and> (byte_at P p = CHR ''='' \<or> byte_at P p = CHR '':'' \<or> byte_at P p = CHR ''.'') then
          (if byte_at P (p + 1) = CHR 0x00 then unclosed test savep
           else brack_end P escape test savep neg (brcnt + 1) (Some (byte_at P p)) (byte_at P (p + 1)) (p + 1))
        else if c = CHR '']'' \<and> 1 < brcnt \<and> brchr = Some oc then
          brack_end P escape test savep neg (brcnt - 1) None c p
        else if c = CHR '']'' \<and> brchr \<noteq> Some (CHR ''.'') \<and> 1 \<le> brcnt then (if neg then None else Some p)
        else if escape \<and> c = CHR 0x5C then
          (if byte_at P p = CHR 0x00 then None
           else brack_end P escape test savep neg brcnt brchr c (p + 1))
        else brack_end P escape test savep neg brcnt brchr c p)"
  by pat_completeness auto

termination
  by (relation "measure (\<lambda>(P, escape, test, savep, neg, brcnt, brchr, c, p). if c = CHR 0x00 then 0 else Suc (length P - p))")
    (auto simp: byte_at_def split: if_splits)

declare brack_end.simps [simp del]

text \<open>
  The loop of \<open>BRACKMATCH\<close> with the character \<open>c\<close> of the expression before \<open>p\<close>. It ends at the
  label \<open>matched\<close>, without a match at the closing bracket, or with a return.
\<close>

definition brack_matched :: "string \<Rightarrow> u32 \<Rightarrow> char \<Rightarrow> nat \<Rightarrow> bool \<Rightarrow> nat \<Rightarrow> nat option" where
  "brack_matched P flags test savep neg p =
     brack_end P (\<not> has flags FNM_NOESCAPE) test savep neg 1 None (byte_at P (p - 1)) (p - 1)"

definition next_char :: "char \<Rightarrow> char" where "next_char c = char_of ((ord c + 1) mod 256)"
definition prev_char :: "char \<Rightarrow> char" where "prev_char c = char_of ((ord c + 255) mod 256)"

text \<open>
  \<open>brack_range\<close> is the part for a character that is not the start of a class: the first point of
  a range is \<open>cstart\<close>. Its result is \<open>Inl r\<close> for \<open>return r\<close>, \<open>Inr (c, p)\<close> to go round once more.
\<close>

definition brack_range ::
  "match_env \<Rightarrow> string \<Rightarrow> u32 \<Rightarrow> char \<Rightarrow> nat \<Rightarrow> bool \<Rightarrow> bool \<Rightarrow> char \<Rightarrow> char \<Rightarrow> nat \<Rightarrow> nat option + (char \<times> nat)" where
  "brack_range E P flags test savep neg forcecoll cstart0 c0 p0 =
     (let cstart = FOLD E flags cstart0 in
      if c0 = CHR 0x00 then Inl (unclosed test savep)
      else
        let c = FOLD E flags (byte_at P p0); p = p0 + 1 in
        if c = CHR 0x00 then Inl (unclosed test savep)
        else if has flags FNM_PATHNAME \<and> c = CHR ''/'' then Inl None
        else if c = CHR ''-'' \<and> byte_at P p \<noteq> CHR '']'' then
          (let escaped = (\<not> has flags FNM_NOESCAPE \<and> byte_at P p = CHR 0x5C);
               cend1 = (if escaped then byte_at P (p + 1) else byte_at P p);
               p1 = (if escaped then p + 2 else p + 1) in
           if cend1 = CHR 0x00 then Inl None
           else
             let sym = (cend1 = CHR ''['' \<and> byte_at P p1 = CHR ''.'');
                 (pc, p2) = (if sym then PARSE_COLLSYM P p1 else (None, p1));
                 cend = FOLD E flags (if sym then (case pc of None \<Rightarrow> prev_char test | Some v \<Rightarrow> v) else cend1);
                 force = (forcecoll \<or> sym);
                 c2 = byte_at P p2; p3 = p2 + 1 in
             if 0 < rangecmp E cstart cend force then
               (if c2 = CHR '']'' then Inl (if neg then Some p3 else None) else Inr (FOLD E flags c2, p3))
             else if 0 \<le> rangecmp E test cstart force \<and> rangecmp E test cend force \<le> 0 then
               Inl (brack_matched P flags test savep neg p3)
             else if c2 = CHR '']'' then Inl (if neg then Some p3 else None)
             else Inr (c2, p3))
        else if test = cstart then Inl (brack_matched P flags test savep neg p)
        else if c = CHR '']'' then Inl (if neg then Some p else None)
        else Inr (c, p))"

definition brack_step ::
  "match_env \<Rightarrow> string \<Rightarrow> u32 \<Rightarrow> char \<Rightarrow> nat \<Rightarrow> bool \<Rightarrow> char \<Rightarrow> nat \<Rightarrow> nat option + (char \<times> nat)" where
  "brack_step E P flags orig_test savep neg c p =
     (let test = FOLD E flags orig_test in
      if c = CHR ''['' \<and> byte_at P p = CHR ''='' \<and> byte_at P (p + 2) = CHR ''='' \<and> byte_at P (p + 3) = CHR '']'' then
        (if collequiv E test (FOLD E flags (byte_at P (p + 1))) then Inl (brack_matched P flags test savep neg (p + 5))
         else if byte_at P (p + 4) = CHR 0x00 then Inl (unclosed test savep)
         else Inr (FOLD E flags (byte_at P (p + 4)), p + 5))
      else if c = CHR ''['' \<and> byte_at P p = CHR '':'' then
        (let close = class_close P p;
             found = (close < length P);
             ccname = udequote_pathname (take (close - p - 1) (drop (p + 1) P));
             p1 = (if found then close + 2 else p) in
         if found \<and> is_cclass E orig_test ccname = Some True then Inl (brack_matched P flags test savep neg (p1 + 1))
         else if byte_at P p1 = CHR 0x00 then Inl (unclosed test savep)
         else if byte_at P p1 = CHR '']'' then Inl (if neg then Some (p1 + 1) else None)
         else Inr (FOLD E flags (byte_at P p1), p1 + 1))
      else if c = CHR ''['' \<and> byte_at P p = CHR ''.'' then
        (let (pc, p1) = PARSE_COLLSYM P p in
         brack_range E P flags test savep neg True (case pc of None \<Rightarrow> next_char test | Some v \<Rightarrow> v) c p1)
      else if \<not> has flags FNM_NOESCAPE \<and> c = CHR 0x5C then
        (if byte_at P p = CHR 0x00 then Inl None
         else brack_range E P flags test savep neg False (byte_at P p) c (p + 1))
      else brack_range E P flags test savep neg False c c p)"


text \<open>Every further round starts behind the one before.\<close>

lemma PARSE_COLLSYM_ge: "p < snd (PARSE_COLLSYM P p)"
  by (simp add: PARSE_COLLSYM_def Let_def)

lemma FOLD_zero [simp]: "FOLD E flags (CHR 0x00) = CHR 0x00"
  by (simp add: FOLD_def TOLOWER_def)

lemma brack_range_moves:
  assumes "brack_range E P flags test savep neg force cs c0 p0 = Inr (c, p)"
  shows "p0 < p" "p0 < length P"
proof -
  have "FOLD E flags (byte_at P p0) \<noteq> CHR 0x00" using assms by (auto simp: brack_range_def Let_def split: if_splits)
  then show "p0 < length P" by (auto simp: byte_at_def split: if_splits)
  show "p0 < p" using assms PARSE_COLLSYM_ge [of "p0 + 2" P] PARSE_COLLSYM_ge [of "p0 + 3" P]
    by (auto simp: brack_range_def Let_def numeral_eq_Suc split: if_splits prod.splits)
qed

lemma brack_step_moves:
  assumes "brack_step E P flags test savep neg c p = Inr (c', p')"
  shows "p < p'" "p < length P"
proof -
  have "p < p' \<and> p < length P"
  proof (cases "c = CHR ''['' \<and> byte_at P p \<in> {CHR ''='', CHR '':'', CHR ''.''}")
    case True
    then have "p < length P" by (auto intro: byte_at_inside)
    moreover have "p < p'"
      using assms True brack_range_moves PARSE_COLLSYM_ge [of p P]
      by (auto simp: brack_step_def Let_def class_close_def split: if_splits prod.splits) (meson less_trans snd_conv)+
    ultimately show ?thesis by simp
  next
    case False
    then show ?thesis
      using assms brack_range_moves by (fastforce simp: brack_step_def Let_def split: if_splits prod.splits)
  qed
  then show "p < p'" "p < length P" by simp_all
qed

function brack_loop ::
  "match_env \<Rightarrow> string \<Rightarrow> u32 \<Rightarrow> char \<Rightarrow> nat \<Rightarrow> bool \<Rightarrow> char \<Rightarrow> nat \<Rightarrow> nat option" where
  "brack_loop E P flags orig_test savep neg c p =
     (case brack_step E P flags orig_test savep neg c p of
        Inl r \<Rightarrow> r
      | Inr (c, p) \<Rightarrow> brack_loop E P flags orig_test savep neg c p)"
  by pat_completeness auto
termination
  by (relation "measure (\<lambda>(E, P, flags, orig_test, savep, neg, c, p). length P - p)", simp, simp only: in_measure case_prod_conv)
    (auto intro!: diff_less_mono2 dest: brack_step_moves)

declare brack_loop.simps [simp del]

definition BRACKMATCH :: "match_env \<Rightarrow> string \<Rightarrow> nat \<Rightarrow> char \<Rightarrow> u32 \<Rightarrow> nat option" where
  "BRACKMATCH E P p test flags =
     (let neg = (byte_at P p = CHR ''!'' \<or> byte_at P p = CHR ''^'');
          p1 = (if neg then p + 1 else p)
      in brack_loop E P flags test p neg (byte_at P p1) (p1 + 1))"


section \<open>Scanning a pattern list\<close>

text \<open>
  \<open>PATSCAN\<close>, in the version \<open>glob_patscan\<close>; \<open>delim\<close> is a character or the zero byte. \<open>bfirst\<close> is
  where the contents of a bracket expression begin.
\<close>

type_synonym scan_state = "int \<times> nat \<times> bool \<times> char \<times> nat option"

definition patscan_step :: "string \<Rightarrow> nat \<Rightarrow> char \<Rightarrow> nat \<Rightarrow> scan_state \<Rightarrow> nat option + scan_state" where
  "patscan_step P end delim s st =
     (case st of (pnest, bnest, skip, cchar, bfirst) \<Rightarrow>
      let c = byte_at P s in
      if c = CHR 0x00 then Inl None
      else if end \<le> s then Inl (Some s)
      else if skip then Inr (pnest, bnest, False, cchar, bfirst)
      else if c = CHR 0x5C then Inr (pnest, bnest, True, cchar, bfirst)
      else if c = CHR ''['' then
        (if bnest = 0 then
           Inr (pnest, 1, False, cchar, Some (if byte_at P (s + 1) \<in> {CHR ''!'', CHR ''^''} then s + 2 else s + 1))
         else if byte_at P (s + 1) \<in> {CHR '':'', CHR ''.'', CHR ''=''} then
           Inr (pnest, bnest, False, byte_at P (s + 1), bfirst)
         else Inr (pnest, bnest, False, cchar, bfirst))
      else if c = CHR '']'' then
        (if 0 < bnest then
           (if cchar \<noteq> CHR 0x00 \<and> byte_at P (s - 1) = cchar then Inr (pnest, bnest, False, CHR 0x00, bfirst)
            else if bfirst \<noteq> Some s then Inr (pnest, bnest - 1, False, cchar, None)
            else Inr (pnest, bnest, False, cchar, bfirst))
         else Inr (pnest, bnest, False, cchar, bfirst))
      else if c = CHR ''('' then Inr (if bnest = 0 then pnest + 1 else pnest, bnest, False, cchar, bfirst)
      else if c = CHR '')'' then
        (if bnest = 0 then (if pnest \<le> 0 then Inl (Some (s + 1)) else Inr (pnest - 1, bnest, False, cchar, bfirst))
         else Inr (pnest, bnest, False, cchar, bfirst))
      else if c = CHR ''|'' \<and> bnest = 0 \<and> pnest = 0 \<and> delim = CHR ''|'' then Inl (Some (s + 1))
      else Inr (pnest, bnest, False, cchar, bfirst))"

lemma patscan_step_inside: "patscan_step P end delim s st = Inr st' \<Longrightarrow> s < length P"
  by (cases st) (auto simp: patscan_step_def Let_def byte_at_def split: if_splits)

function patscan_loop :: "string \<Rightarrow> nat \<Rightarrow> char \<Rightarrow> nat \<Rightarrow> scan_state \<Rightarrow> nat option" where
  "patscan_loop P end delim s st =
     (case patscan_step P end delim s st of Inl r \<Rightarrow> r | Inr st' \<Rightarrow> patscan_loop P end delim (s + 1) st')"
  by pat_completeness auto
termination
  by (relation "measure (\<lambda>(P, end, delim, s, st). length P - s)") (auto dest: patscan_step_inside)

declare patscan_loop.simps [simp del]

definition PATSCAN :: "string \<Rightarrow> nat \<Rightarrow> nat \<Rightarrow> char \<Rightarrow> nat option" where
  "PATSCAN P string end delim =
     (if string = end then None else patscan_loop P end delim string (0, 0, False, CHR 0x00, None))"

lemma patscan_loop_range: "patscan_loop P end delim s st = Some r \<Longrightarrow> s \<le> r \<and> r \<le> length P"
proof (induction P "end" delim s st rule: patscan_loop.induct)
  case (1 P "end" delim s st)
  show ?case
  proof (cases "patscan_step P end delim s st")
    case (Inl x)
    with 1(2) have "patscan_step P end delim s st = Inl (Some r)" by (simp add: patscan_loop.simps)
    then show ?thesis by (cases st) (auto simp: patscan_step_def Let_def byte_at_def split: if_splits)
  next
    case (Inr st')
    with 1 have "Suc s \<le> r \<and> r \<le> length P" by (simp add: patscan_loop.simps [of P "end" delim s st])
    then show ?thesis by simp
  qed
qed

lemma PATSCAN_range: "PATSCAN P s pe delim = Some r \<Longrightarrow> s \<le> r \<and> r \<le> length P"
  by (auto simp: PATSCAN_def dest: patscan_loop_range split: if_splits)

text \<open>\<open>strcoll\<close> of two parts of the buffers, without the quick answer for unequal lengths.\<close>

definition STRCOMPARE :: "match_env \<Rightarrow> string \<Rightarrow> nat \<Rightarrow> nat \<Rightarrow> string \<Rightarrow> nat \<Rightarrow> nat \<Rightarrow> bool" where
  "STRCOMPARE E P p pe S s se \<longleftrightarrow>
     pe - p = se - s \<and> env_strcoll E (take (pe - p) (drop p P)) (take (se - s) (drop s S)) = 0"

text \<open>
  The parts of a pattern list from \<open>psub\<close> on, as the loops \<open>for (psub = p + 1; ; psub = pnext)\<close>
  meet them, each with its end, and how the loop ends: \<open>Some True\<close> behind the list, \<open>Some False\<close>
  by a NULL \<open>pnext\<close>, whose predecessor is no pointer; \<open>None\<close> would be a loop without end.
\<close>

function subpatterns :: "string \<Rightarrow> nat \<Rightarrow> nat \<Rightarrow> nat \<Rightarrow> (nat \<times> nat) list \<times> bool option" where
  "subpatterns P psub pe prest =
     (case PATSCAN P psub pe (CHR ''|'') of
        None \<Rightarrow> ([], Some False)
      | Some pnext \<Rightarrow>
          if pnext = prest then ([(psub, pnext - 1)], Some True)
          else if pnext \<le> psub \<or> length P < pnext then ([(psub, pnext - 1)], None)
          else (case subpatterns P pnext pe prest of (l, e) \<Rightarrow> ((psub, pnext - 1) # l, e)))"
  by pat_completeness auto
termination
  by (relation "measure (\<lambda>(P, psub, pe, prest). length P - psub)") auto

declare subpatterns.simps [simp del]


section \<open>Matching\<close>

text \<open>
  What a match comes to: a match, none, a \<open>*\<close> of the pattern reached at a place of the string
  (\<open>return 0\<close> with \<open>ends\<close> set), an access outside the objects, or a spent bound.
\<close>

datatype match_result = Match | NoMatch | Ends nat nat | Fault | Stuck

text \<open>The first of some attempts that does not fail.\<close>

fun first_match :: "('a \<Rightarrow> match_result) \<Rightarrow> 'a list \<Rightarrow> match_result" where
  "first_match f [] = NoMatch"
| "first_match f (x # xs) = (case f x of NoMatch \<Rightarrow> first_match f xs | r \<Rightarrow> r)"

fun and_match :: "match_result \<Rightarrow> match_result \<Rightarrow> match_result" where
  "and_match Match r = r" | "and_match m r = m"

fun or_match :: "match_result \<Rightarrow> match_result \<Rightarrow> match_result" where
  "or_match NoMatch r = r" | "or_match m r = m"

fun not_match :: "match_result \<Rightarrow> match_result" where
  "not_match Match = NoMatch" | "not_match NoMatch = Match" | "not_match m = m"

definition end_of_list :: "bool option \<Rightarrow> match_result" where
  "end_of_list e = (case e of None \<Rightarrow> Stuck | Some True \<Rightarrow> NoMatch | Some False \<Rightarrow> Fault)"

definition PATHSEP :: "char \<Rightarrow> bool" where "PATHSEP c \<longleftrightarrow> c = CHR ''/'' \<or> c = CHR 0x00"

definition PDOT_OR_DOTDOT :: "string \<Rightarrow> nat \<Rightarrow> bool" where
  "PDOT_OR_DOTDOT S n \<longleftrightarrow> byte_at S n = CHR ''.'' \<and>
     (PATHSEP (byte_at S (n + 1)) \<or> byte_at S (n + 1) = CHR ''.'' \<and> PATHSEP (byte_at S (n + 2)))"

definition SDOT_OR_DOTDOT :: "string \<Rightarrow> nat \<Rightarrow> bool" where
  "SDOT_OR_DOTDOT S n \<longleftrightarrow> byte_at S n = CHR ''.'' \<and>
     (byte_at S (n + 1) = CHR 0x00 \<or> byte_at S (n + 1) = CHR ''.'' \<and> byte_at S (n + 2) = CHR 0x00)"

definition byte_before :: "match_env \<Rightarrow> string \<Rightarrow> nat \<Rightarrow> char" where
  "byte_before E S n = (if n = 0 then env_before E else byte_at S (n - 1))"

text \<open>The tests that keep a wildcard from matching a leading period; \<open>str\<close> is \<open>string\<close>.\<close>

definition dot_hidden :: "match_env \<Rightarrow> string \<Rightarrow> u32 \<Rightarrow> nat \<Rightarrow> nat \<Rightarrow> char \<Rightarrow> bool" where
  "dot_hidden E S flags str n sc \<longleftrightarrow>
     has flags FNM_PERIOD \<and> sc = CHR ''.'' \<and> (n = str \<or> has flags FNM_PATHNAME \<and> byte_before E S n = CHR ''/'') \<or>
     has flags FNM_DOTDOT \<and>
       (n = str \<and> SDOT_OR_DOTDOT S n \<or>
        has flags FNM_PATHNAME \<and> byte_before E S n = CHR ''/'' \<and> PDOT_OR_DOTDOT S n)"

definition ext_char :: "char \<Rightarrow> bool" where "ext_char c \<longleftrightarrow> c \<in> set ''?*+@!''"

text \<open>The first \<open>/\<close> from \<open>n\<close> on, or \<open>se\<close>.\<close>

definition find_slash :: "string \<Rightarrow> nat \<Rightarrow> nat \<Rightarrow> nat" where
  "find_slash S n se = n + length (takeWhile (\<lambda>i. byte_at S i \<noteq> CHR ''/'') [n..<se])"

text \<open>The test of the first character, for the places a recursive match is not even tried at.\<close>

definition first_differs :: "match_env \<Rightarrow> string \<Rightarrow> string \<Rightarrow> u32 \<Rightarrow> char \<Rightarrow> nat \<Rightarrow> nat \<Rightarrow> bool" where
  "first_differs E P S flags c p n \<longleftrightarrow>
     (let c1 = FOLD E flags (if \<not> has flags FNM_NOESCAPE \<and> c = CHR 0x5C then byte_at P (p + 1) else c) in
      (if has flags FNM_EXTMATCH then byte_at P (p + 1) \<noteq> CHR ''('' \<and> \<not> ext_char (byte_at P p) else True) \<and>
      c \<noteq> CHR ''['' \<and> FOLD E flags (byte_at S n) \<noteq> c1)"

text \<open>
  The calls of the recursive functions, with the buffers fixed: \<open>Gmatch str n se p pe ends flags\<close>
  is \<open>GMATCH\<close> for a string that begins at \<open>str\<close>, its loop at \<open>n\<close> and \<open>p\<close>; \<open>Stars\<close> is the loop
  that collapses wildcards behind a \<open>*\<close> and \<open>Rest\<close> what follows it, with the pattern character \<open>c\<close>
  before \<open>p\<close>; \<open>Extmatch xc s se p pe flags\<close>. Each function below takes the one that carries out the
  calls as its argument \<open>call\<close>.
\<close>

datatype match_call =
  Gmatch nat nat nat nat nat bool u32
| Stars nat char nat nat nat nat u32
| Rest nat char nat nat nat nat u32
| Extmatch char nat nat nat nat u32

type_synonym caller = "match_call \<Rightarrow> match_result"

definition GMATCH ::
  "match_env \<Rightarrow> string \<Rightarrow> string \<Rightarrow> caller \<Rightarrow> nat \<Rightarrow> nat \<Rightarrow> nat \<Rightarrow> nat \<Rightarrow> nat \<Rightarrow> bool \<Rightarrow> u32 \<Rightarrow> match_result" where
  "GMATCH E P S call str n se p pe ends flags =
     (if pe \<le> p then
        (if n = se then Match
         else if has flags FNM_LEADING_DIR \<and> byte_at S n = CHR ''/'' then Match
         else NoMatch)
      else
        let c = FOLD E flags (byte_at P p); p1 = p + 1; sc = (if n < se then byte_at S n else CHR 0x00);
            go = (\<lambda>p. call (Gmatch str (n + 1) se p pe ends flags)) in
        if has flags FNM_EXTMATCH \<and> byte_at P p1 = CHR ''('' \<and> ext_char c then
          call (Extmatch c n se p1 pe (if n = str then flags else inner flags))
        else if c = CHR ''?'' then
          (if sc = CHR 0x00 then NoMatch
           else if has flags FNM_PATHNAME \<and> sc = CHR ''/'' then NoMatch
           else if dot_hidden E S flags str n sc then NoMatch
           else go p1)
        else if c = CHR 0x5C then
          (if p1 = pe \<and> sc = CHR 0x5C \<and> n + 1 = se then go p1
           else if p1 = pe then NoMatch
           else
             let (c, p2) = (if has flags FNM_NOESCAPE then (c, p1) else (FOLD E flags (byte_at P p1), p1 + 1)) in
             if FOLD E flags sc \<noteq> c then NoMatch else go p2)
        else if c = CHR ''*'' then
          (if ends then Ends p n
           else if dot_hidden E S flags str n sc then NoMatch
           else if p1 = pe then Match
           else call (Stars str (byte_at P p1) n se (p1 + 1) pe flags))
        else if c = CHR ''['' then
          (if sc = CHR 0x00 \<or> n = se then NoMatch
           else if dot_hidden E S flags str n sc then NoMatch
           else (case BRACKMATCH E P p1 sc flags of None \<Rightarrow> NoMatch | Some p2 \<Rightarrow> go p2))
        else if c \<noteq> FOLD E flags sc then NoMatch
        else go p1)"

definition gmatch_stars ::
  "match_env \<Rightarrow> string \<Rightarrow> string \<Rightarrow> caller \<Rightarrow> nat \<Rightarrow> char \<Rightarrow> nat \<Rightarrow> nat \<Rightarrow> nat \<Rightarrow> nat \<Rightarrow> u32 \<Rightarrow> match_result" where
  "gmatch_stars E P S call str c n se p pe flags =
     (let sc = (if n < se then byte_at S n else CHR 0x00);
          ext = (has flags FNM_EXTMATCH \<and> byte_at P p = CHR ''('');
          skip = (case PATSCAN P (p + 1) pe (CHR 0x00) of Some newn \<Rightarrow> newn | None \<Rightarrow> pe);
          go = (\<lambda>n p. if p = pe then call (Rest str c n se p pe flags)
                 else call (Stars str (byte_at P p) n se (p + 1) pe flags)) in
      if c \<noteq> CHR ''?'' \<and> c \<noteq> CHR ''*'' then call (Rest str c n se p pe flags)
      else if has flags FNM_PATHNAME \<and> sc = CHR ''/'' then NoMatch
      else if c = CHR ''?'' then
        (if ext then or_match (call (Extmatch c n se p pe flags)) (go n skip)
         else if sc = CHR 0x00 then NoMatch
         else go (n + 1) p)
      else if ext then
        or_match (first_match (\<lambda>newn. call (Extmatch c newn se p pe flags)) [n..<se]) (go n skip)
      else go n p)"

definition gmatch_rest ::
  "match_env \<Rightarrow> string \<Rightarrow> string \<Rightarrow> caller \<Rightarrow> nat \<Rightarrow> char \<Rightarrow> nat \<Rightarrow> nat \<Rightarrow> nat \<Rightarrow> nat \<Rightarrow> u32 \<Rightarrow> match_result" where
  "gmatch_rest E P S call str c n se p pe flags =
     (if c = CHR 0x00 then
        (if \<not> has flags FNM_PATHNAME \<or> has flags FNM_LEADING_DIR \<or> find_slash S n se = se then Match else NoMatch)
      else if p = pe \<and> (c = CHR ''?'' \<or> c = CHR ''*'') then Match
      else if n = se \<and> has flags FNM_EXTMATCH \<and> (c = CHR ''!'' \<or> c = CHR ''?'') \<and> byte_at P p = CHR ''('' then
        (let r = call (Extmatch c n se (p - 1) pe flags) in if c = CHR ''!'' then not_match r else r)
      else if c = CHR ''/'' \<and> has flags FNM_PATHNAME then
        (let k = find_slash S n se in
         if k < se then call (Gmatch (k + 1) (k + 1) se p pe False flags) else NoMatch)
      else
        let endp = (if has flags FNM_PATHNAME then find_slash S n se else se) in
        (case first_match (\<lambda>k. if first_differs E P S flags c (p - 1) k then NoMatch
                 else call (Gmatch k k se (p - 1) pe True (inner flags))) [n..<endp] of
           Ends p2 n2 \<Rightarrow> call (Gmatch str n2 se p2 pe False flags)
         | r \<Rightarrow> r))"

text \<open>In the branch of \<open>!\<close>, \<open>Ends\<close> stands for \<open>return FNM_NOMATCH\<close> out of the loop.\<close>

definition EXTMATCH ::
  "match_env \<Rightarrow> string \<Rightarrow> string \<Rightarrow> caller \<Rightarrow> char \<Rightarrow> nat \<Rightarrow> nat \<Rightarrow> nat \<Rightarrow> nat \<Rightarrow> u32 \<Rightarrow> match_result" where
  "EXTMATCH E P S call xc s se p pe flags =
     (case PATSCAN P (if byte_at P p = CHR ''('' then p + 1 else p) pe (CHR 0x00) of
        None \<Rightarrow> (if STRCOMPARE E P (p - 1) pe S s se then Match else NoMatch)
      | Some prest \<Rightarrow>
          let subs = fst (subpatterns P (p + 1) pe prest); e = end_of_list (snd (subpatterns P (p + 1) pe prest));
              later = (\<lambda>srest. if s < srest then inner flags else flags);
              rest = (\<lambda>srest. call (Gmatch srest srest se prest pe False (later srest)));
              part = (\<lambda>srest sub. call (Gmatch s s srest (fst sub) (snd sub) False flags))
          in if xc = CHR ''+'' \<or> xc = CHR ''*'' then
               or_match (if xc = CHR ''*'' then call (Gmatch s s se prest pe False flags) else NoMatch)
                 (or_match
                   (first_match (\<lambda>sub. first_match (\<lambda>srest.
                      and_match (part srest sub)
                        (or_match (rest srest)
                           (if s \<noteq> srest then call (Gmatch srest srest se (p - 1) pe False (later srest)) else NoMatch)))
                      [s..<se + 1]) subs)
                   e)
             else if xc = CHR ''?'' \<or> xc = CHR ''@'' then
               or_match (if xc = CHR ''?'' then call (Gmatch s s se prest pe False flags) else NoMatch)
                 (or_match
                   (first_match (\<lambda>sub. first_match (\<lambda>srest. and_match (part srest sub) (rest srest))
                      [if prest = pe then se else s..<se + 1]) subs)
                   e)
             else if xc = CHR ''!'' then
               (case first_match (\<lambda>srest.
                  case or_match (first_match (part srest) subs) e of
                    NoMatch \<Rightarrow>
                      if has flags FNM_PERIOD \<and> byte_at S s = CHR ''.'' \<or>
                         has flags FNM_DOTDOT \<and> (SDOT_OR_DOTDOT S s \<or>
                           has flags FNM_PATHNAME \<and> byte_before E S s = CHR ''/'' \<and> PDOT_OR_DOTDOT S s)
                      then Ends 0 0
                      else rest srest
                  | Match \<Rightarrow> NoMatch
                  | r \<Rightarrow> r) [s..<se + 1] of
                  Ends _ _ \<Rightarrow> NoMatch
                | r \<Rightarrow> r)
             else NoMatch)"

text \<open>The recursion, with a bound on its depth.\<close>

definition match_step :: "match_env \<Rightarrow> string \<Rightarrow> string \<Rightarrow> caller \<Rightarrow> caller" where
  "match_step E P S call c =
     (case c of
        Gmatch str n se p pe ends flags \<Rightarrow> GMATCH E P S call str n se p pe ends flags
      | Stars str c n se p pe flags \<Rightarrow> gmatch_stars E P S call str c n se p pe flags
      | Rest str c n se p pe flags \<Rightarrow> gmatch_rest E P S call str c n se p pe flags
      | Extmatch xc s se p pe flags \<Rightarrow> EXTMATCH E P S call xc s se p pe flags)"

primrec matcher :: "match_env \<Rightarrow> string \<Rightarrow> string \<Rightarrow> nat \<Rightarrow> caller" where
  "matcher E P S 0 = (\<lambda>_. Stuck)"
| "matcher E P S (Suc fuel) = match_step E P S (matcher E P S fuel)"

definition match_fuel :: "string \<Rightarrow> string \<Rightarrow> nat" where
  "match_fuel P S = 4 * (length P + length S + 3)"

definition internal_strmatch :: "match_env \<Rightarrow> string \<Rightarrow> string \<Rightarrow> u32 \<Rightarrow> match_result" where
  "internal_strmatch E P S flags =
     matcher E P S (match_fuel P S) (Gmatch 0 0 (length S) 0 (length P) False flags)"

text \<open>\<open>xstrmatch\<close> where \<open>MB_CUR_MAX\<close> is 1; a NULL argument does not match.\<close>

definition strmatch :: "match_env \<Rightarrow> string option \<Rightarrow> string option \<Rightarrow> u32 \<Rightarrow> match_result" where
  "strmatch E pattern S flags =
     (case (pattern, S) of (Some P, Some S) \<Rightarrow> internal_strmatch E P S flags | _ \<Rightarrow> NoMatch)"


section \<open>Questions about a pattern\<close>

text \<open>\<open>gm_loop.c\<close> and \<open>gmisc.c\<close>; a pointer is the rest of the pattern it points to.\<close>

definition extglob_pattern_p :: "string \<Rightarrow> bool" where
  "extglob_pattern_p pat \<longleftrightarrow> byte_at pat 0 \<in> set ''*+!@?'' \<and> byte_at pat 1 = CHR ''(''"

definition match_pattern_char :: "match_env \<Rightarrow> string \<Rightarrow> string \<Rightarrow> u32 \<Rightarrow> bool" where
  "match_pattern_char E pat S flags =
     (let c = byte_at pat 0; c1 = byte_at pat 1; d = byte_at S 0 in
      if d = CHR 0x00 then c = CHR ''*''
      else if c = CHR 0x5C then FOLD E flags d = FOLD E flags c1
      else if c = CHR ''?'' then True
      else if c = CHR ''*'' then True
      else if c \<in> set ''+!@'' then c1 = CHR ''('' \<or> FOLD E flags d = FOLD E flags c
      else if c = CHR ''['' then True
      else FOLD E flags d = FOLD E flags c)"

text \<open>
  \<open>umatchlen\<close>: inside which of the bracketed constructs a bracket expression is
  (\<open>in_cclass\<close>, \<open>in_collsym\<close>, \<open>in_equiv\<close>), which are not reset between expressions. The scan of an
  expression ends with its length as plain text (\<open>bad_bracket\<close>) or with the rest of the pattern.
\<close>

type_synonym brack_state = "bool \<times> bool \<times> bool"

text \<open>One round of the scan: the state, what is left and the new \<open>bracklen\<close>; or \<open>bad_bracket\<close>.\<close>

definition brack_len_step :: "brack_state \<Rightarrow> char \<Rightarrow> string \<Rightarrow> nat \<Rightarrow> nat + (brack_state \<times> string \<times> nat)" where
  "brack_len_step st c pat n =
     (case st of (in_cclass, in_collsym, in_equiv) \<Rightarrow>
      let d = byte_at pat 0; u = drop 1 pat;
          skip_bracket = (if byte_at u 0 = CHR '']'' then (drop 1 u, n + 2) else (u, n + 1)) in
      if c = CHR 0x00 then Inl n
      else if c = CHR 0x5C then (if length pat \<le> 1 then Inl (n + 1) else Inr (st, u, n + 1))
      else if c = CHR ''['' \<and> d = CHR '':'' then Inr ((True, in_collsym, in_equiv), u, n + 1)
      else if in_cclass \<and> c = CHR '':'' \<and> d = CHR '']'' then Inr ((False, in_collsym, in_equiv), u, n + 1)
      else if c = CHR ''['' \<and> d = CHR ''.'' then Inr ((in_cclass, True, in_equiv), skip_bracket)
      else if in_collsym \<and> c = CHR ''.'' \<and> d = CHR '']'' then Inr ((in_cclass, False, in_equiv), u, n + 1)
      else if c = CHR ''['' \<and> d = CHR ''='' then Inr ((in_cclass, in_collsym, True), skip_bracket)
      else if in_equiv \<and> c = CHR ''='' \<and> d = CHR '']'' then Inr ((in_cclass, in_collsym, False), u, n + 1)
      else Inr (st, pat, n + 1))"

lemma brack_len_step_length: "brack_len_step st c pat n = Inr (st', pat', n') \<Longrightarrow> length pat' \<le> length pat"
  by (auto simp: brack_len_step_def Let_def split: prod.splits if_splits)

function brack_len :: "brack_state \<Rightarrow> char \<Rightarrow> string \<Rightarrow> nat \<Rightarrow> nat + (brack_state \<times> string)" where
  "brack_len st c pat n =
     (case brack_len_step st c pat n of
        Inl r \<Rightarrow> Inl r
      | Inr (st, pat, n) \<Rightarrow>
          (case pat of
             [] \<Rightarrow> Inl n
           | d # u \<Rightarrow> if d = CHR '']'' then Inr (st, u) else brack_len st d u n))"
  by pat_completeness auto
termination
  by (relation "measure (\<lambda>(st, c, pat, n). length pat)") (auto dest: brack_len_step_length)

declare brack_len.simps [simp del]

lemma brack_len_shorter: "brack_len st c pat n = Inr (st', rest) \<Longrightarrow> length rest < length pat"
proof (induction st c pat n rule: brack_len.induct)
  case (1 st c pat n)
  from 1(2) obtain st1 d u n1 where s: "brack_len_step st c pat n = Inr (st1, d # u, n1)"
    and r: "(if d = CHR '']'' then Inr (st1, u) else brack_len st1 d u n1) = Inr (st', rest)"
    by (subst (asm) brack_len.simps) (auto split: sum.splits list.splits)
  note l = brack_len_step_length [OF s]
  show ?case
  proof (cases "d = CHR '']''")
    case True
    with r l show ?thesis by simp
  next
    case False
    with 1(1) [OF s] r l show ?thesis by fastforce
  qed
qed

text \<open>\<open>None\<close> is -1: the pattern can match strings of several lengths.\<close>

function matchlen_loop :: "brack_state \<Rightarrow> string \<Rightarrow> nat \<Rightarrow> nat option" where
  "matchlen_loop st [] matlen = Some matlen"
| "matchlen_loop st (c # pat) matlen =
     (if c = CHR 0x5C then
        (case pat of [] \<Rightarrow> Some (matlen + 1) | _ # u \<Rightarrow> matchlen_loop st u (matlen + 1))
      else if c = CHR ''*'' then None
      else if c \<in> set ''?+!@'' then (if byte_at pat 0 = CHR ''('' then None else matchlen_loop st pat (matlen + 1))
      else if c = CHR ''['' then
        (case brack_len st (byte_at pat 0) (drop 1 pat) 1 of
           Inl n \<Rightarrow> Some (matlen + n)
         | Inr (st, rest) \<Rightarrow> matchlen_loop st rest (matlen + 1))
      else matchlen_loop st pat (matlen + 1))"
  by pat_completeness auto
termination
  by (relation "measure (\<lambda>(st, pat, matlen). length pat)") (auto dest: brack_len_shorter)

definition umatchlen :: "string \<Rightarrow> nat option" where
  "umatchlen pat = matchlen_loop (False, False, False) pat 0"

text \<open>The last \<open>dirsep\<close> outside the extended patterns.\<close>

function dirscan_loop :: "string \<Rightarrow> char \<Rightarrow> nat \<Rightarrow> nat option \<Rightarrow> nat option" where
  "dirscan_loop pat dirsep p d =
     (if length pat \<le> p then d
      else if extglob_pattern_p (drop p pat) then
        (case PATSCAN pat (p + 2) (length pat - 1) (CHR 0x00) of
           None \<Rightarrow> dirscan_loop pat dirsep (p + 1) d
         | Some pe \<Rightarrow> if byte_at pat pe = CHR 0x00 then d else dirscan_loop pat dirsep pe d)
      else dirscan_loop pat dirsep (p + 1) (if pat ! p = dirsep then Some p else d))"
  by pat_completeness auto
termination
  by (relation "measure (\<lambda>(pat, dirsep, p, d). length pat - p)") (auto dest: PATSCAN_range)

declare dirscan_loop.simps [simp del]

definition glob_dirscan :: "string \<Rightarrow> char \<Rightarrow> nat option" where
  "glob_dirscan pat dirsep = dirscan_loop pat dirsep 0 None"

text \<open>\<open>glob_loop.c\<close>: whether a pattern has anything special in it.\<close>

fun glob_pattern_loop :: "string \<Rightarrow> nat \<Rightarrow> bool" where
  "glob_pattern_loop [] bopen = False"
| "glob_pattern_loop (c # p) bopen =
     (if c = CHR ''?'' \<or> c = CHR ''*'' then True
      else if c = CHR ''['' then glob_pattern_loop p (bopen + 1)
      else if c = CHR '']'' then (if 0 < bopen then True else glob_pattern_loop p bopen)
      else if c \<in> set ''+@!'' then (if byte_at p 0 = CHR ''('' then True else glob_pattern_loop p bopen)
      else if c = CHR 0x5C then (case p of [] \<Rightarrow> False | _ # p \<Rightarrow> glob_pattern_loop p bopen)
      else glob_pattern_loop p bopen)"

definition internal_glob_pattern_p :: "string \<Rightarrow> bool" where
  "internal_glob_pattern_p pattern = glob_pattern_loop pattern 0"

end
