(* ===== verification/Bash_GlobSem.thy ===== *)
theory Bash_GlobSem imports Bash_Glob begin

text \<open>
  What the patterns of \<open>Bash_Glob\<close> mean: abstract patterns of literal characters, \<open>?\<close>, \<open>*\<close> and
  bracket expressions, their text, a backtracking reference matcher, and the theorem that
  \<open>internal_strmatch\<close>, which never goes back behind a \<open>*\<close>, computes the same.
\<close>

section \<open>Patterns\<close>

datatype bracket_item = One char | Range char char | Class string

datatype glob_elem = Lit char | Any | Star | Brackets bool "bracket_item list"

definition item_has :: "match_env \<Rightarrow> char \<Rightarrow> bracket_item \<Rightarrow> bool" where
  "item_has E t i =
     (case i of
        One c \<Rightarrow> t = c
      | Range a b \<Rightarrow> \<not> 0 < rangecmp E a b False \<and> 0 \<le> rangecmp E t a False \<and> rangecmp E t b False \<le> 0
      | Class name \<Rightarrow> is_cclass E t name = Some True)"

text \<open>The reference matcher, on the elements of the pattern and the characters of the string.\<close>

fun glob_match :: "match_env \<Rightarrow> glob_elem list \<Rightarrow> string \<Rightarrow> bool" where
  "glob_match E [] s = (s = [])"
| "glob_match E (Lit c # es) s = (case s of [] \<Rightarrow> False | d # t \<Rightarrow> d = c \<and> glob_match E es t)"
| "glob_match E (Any # es) s = (case s of [] \<Rightarrow> False | d # t \<Rightarrow> glob_match E es t)"
| "glob_match E (Brackets neg items # es) s =
     (case s of [] \<Rightarrow> False | d # t \<Rightarrow> (list_ex (item_has E d) items \<noteq> neg) \<and> glob_match E es t)"
| "glob_match E (Star # es) s = (glob_match E es s \<or> (case s of [] \<Rightarrow> False | d # t \<Rightarrow> glob_match E (Star # es) t))"

text \<open>The text; characters special at their place are escaped.\<close>

definition quoted :: "string \<Rightarrow> char \<Rightarrow> string" where
  "quoted special c = (if c \<in> set special then [CHR 0x5C, c] else [c])"

definition lit_text :: "char \<Rightarrow> string" where "lit_text c = quoted [CHR ''?'', CHR ''*'', CHR ''['', CHR 0x5C] c"

definition point_text :: "char \<Rightarrow> string" where
  "point_text c = quoted [CHR ''['', CHR '']'', CHR ''-'', CHR ''!'', CHR ''^'', CHR ''.'', CHR 0x5C] c"

definition item_text :: "bracket_item \<Rightarrow> string" where
  "item_text i =
     (case i of
        One c \<Rightarrow> point_text c
      | Range a b \<Rightarrow> point_text a @ CHR ''-'' # point_text b
      | Class name \<Rightarrow> ''[:'' @ name @ '':]'')"

definition items_text :: "bracket_item list \<Rightarrow> string" where "items_text is = concat (map item_text is)"

definition elem_text :: "glob_elem \<Rightarrow> string" where
  "elem_text e =
     (case e of
        Lit c \<Rightarrow> lit_text c | Any \<Rightarrow> ''?'' | Star \<Rightarrow> ''*''
      | Brackets neg is \<Rightarrow> CHR ''['' # (if neg then ''!'' else []) @ items_text is @ '']'')"

definition glob_text :: "glob_elem list \<Rightarrow> string" where "glob_text es = concat (map elem_text es)"

definition wf_item :: "bracket_item \<Rightarrow> bool" where
  "wf_item i =
     (case i of
        One c \<Rightarrow> c \<noteq> CHR 0x00 | Range a b \<Rightarrow> a \<noteq> CHR 0x00 \<and> b \<noteq> CHR 0x00
      | Class name \<Rightarrow> name \<in> set (map fst cclass_name))"

definition wf_elem :: "glob_elem \<Rightarrow> bool" where
  "wf_elem e =
     (case e of Lit c \<Rightarrow> c \<noteq> CHR 0x00 | Brackets neg is \<Rightarrow> is \<noteq> [] \<and> list_all wf_item is | _ \<Rightarrow> True)"


section \<open>Bracket expressions\<close>

text \<open>The flags of the theorem: at most \<open>FNM_PERIOD\<close> and \<open>FNM_DOTDOT\<close>.\<close>

definition plain_flags :: "u32 \<Rightarrow> bool" where
  "plain_flags flags \<longleftrightarrow> \<not> has flags FNM_PATHNAME \<and> \<not> has flags FNM_NOESCAPE \<and> \<not> has flags FNM_LEADING_DIR \<and>
     \<not> has flags FNM_CASEFOLD \<and> \<not> has flags FNM_EXTMATCH"

lemma FOLD_plain: "plain_flags flags \<Longrightarrow> FOLD E flags c = c"
  by (simp add: plain_flags_def FOLD_def)

text \<open>Reading from a place on.\<close>

lemma byte_at_drop: "byte_at P (p + i) = byte_at (drop p P) i"
  by (auto simp: byte_at_def)

lemma byte_at_drop0: "byte_at P p = byte_at (drop p P) 0"
  using byte_at_drop [of P p 0] by simp

lemma drop_append_eq: "drop p P = u @ v \<Longrightarrow> drop (p + length u) P = v"
  by (metis add.commute append_eq_conv_conj drop_drop)

lemma drop_Suc_eq: "drop p P = c # v \<Longrightarrow> drop (Suc p) P = v"
  using drop_append_eq [of p P "[c]" v] by simp

definition name_chars :: "string \<Rightarrow> bool" where
  "name_chars t \<longleftrightarrow> list_all (\<lambda>c. c \<notin> {CHR ''['', CHR '']'', CHR '':'', CHR 0x5C, CHR 0x00}) t"

lemma class_names: "name \<in> set (map fst cclass_name) \<Longrightarrow> name_chars name \<and> name \<noteq> []"
  by (auto simp: cclass_name_def name_chars_def)

text \<open>Skipping the rest of an expression that has matched.\<close>

lemma brack_end_char:
  assumes "drop p P = d # r" "c \<noteq> CHR 0x00" "d \<notin> {CHR ''['', CHR '']'', CHR 0x5C}"
  shows "brack_end P True test sv neg cnt br c p = brack_end P True test sv neg cnt br d (Suc p)"
  using assms byte_at_drop0 [of P p] by (subst brack_end.simps) (simp add: Let_def)

lemma brack_end_escape:
  assumes "drop p P = CHR 0x5C # x # r" "c \<noteq> CHR 0x00" "x \<noteq> CHR 0x00"
  shows "brack_end P True test sv neg cnt br c p = brack_end P True test sv neg cnt br (CHR 0x5C) (p + 2)"
  using assms byte_at_drop [of P p 0] byte_at_drop [of P p 1]
  by (subst brack_end.simps) (simp add: Let_def byte_at_def)

lemma name_chars_Cons [simp]:
  "name_chars (d # t) \<longleftrightarrow> d \<notin> {CHR ''['', CHR '']'', CHR '':'', CHR 0x5C, CHR 0x00} \<and> name_chars t"
  by (simp add: name_chars_def)

lemma brack_end_class_close:
  assumes "drop p P = CHR '':'' # CHR '']'' # r" "c \<noteq> CHR 0x00"
  shows "brack_end P True test sv neg 2 (Some (CHR '':'')) c p = brack_end P True test sv neg 1 None (CHR '']'') (p + 2)"
proof -
  have b: "byte_at P p = CHR '':''" "byte_at P (Suc p) = CHR '']''"
    using byte_at_drop [of P p 0] byte_at_drop [of P p 1] assms by simp_all
  have "brack_end P True test sv neg 2 (Some (CHR '':'')) c p = brack_end P True test sv neg 2 (Some (CHR '':'')) (CHR '':'') (Suc p)"
    using assms by (intro brack_end_char) auto
  also have "\<dots> = brack_end P True test sv neg 1 None (CHR '']'') (p + 2)"
    by (subst brack_end.simps) (simp add: Let_def b)
  finally show ?thesis .
qed

lemma brack_end_name:
  "drop p P = name @ '':]'' @ r \<Longrightarrow> name_chars name \<Longrightarrow> c \<noteq> CHR 0x00 \<Longrightarrow>
   brack_end P True test sv neg 2 (Some (CHR '':'')) c p = brack_end P True test sv neg 1 None (CHR '']'') (p + length name + 2)"
proof (induction name arbitrary: c p)
  case Nil
  then show ?case using brack_end_class_close by simp
next
  case (Cons d t)
  have "brack_end P True test sv neg 2 (Some (CHR '':'')) c p = brack_end P True test sv neg 2 (Some (CHR '':'')) d (Suc p)"
    using Cons.prems by (intro brack_end_char) auto
  also have "\<dots> = brack_end P True test sv neg 1 None (CHR '']'') (Suc p + length t + 2)"
    using Cons.prems by (intro Cons.IH) (auto intro: drop_Suc_eq)
  finally show ?case by simp
qed

lemma brack_end_class:
  assumes d: "drop p P = ''[:'' @ name @ '':]'' @ r" and n: "name \<in> set (map fst cclass_name)" and c: "c \<noteq> CHR 0x00"
  shows "brack_end P True test sv neg 1 None c p = brack_end P True test sv neg 1 None (CHR '']'') (p + length name + 4)"
proof -
  obtain x t where name: "name = x # t" and x: "x \<noteq> CHR 0x00" and nc: "name_chars name"
    using class_names [OF n] by (cases name) auto
  have b: "byte_at P p = CHR ''[''" "byte_at P (Suc p) = CHR '':''" "byte_at P (Suc (Suc p)) = x"
    using byte_at_drop [of P p 0] byte_at_drop [of P p 1] byte_at_drop [of P p 2] d name by (simp_all add: numeral_2_eq_2)
  have "brack_end P True test sv neg 1 None c p = brack_end P True test sv neg 2 (Some (CHR '':'')) x (p + 2)"
    using c x by (subst brack_end.simps) (simp add: Let_def b numeral_2_eq_2)
  also have "\<dots> = brack_end P True test sv neg 1 None (CHR '']'') (p + 2 + length name + 2)"
    using drop_append_eq [of p P "''[:''"] d nc x by (intro brack_end_name) auto
  finally show ?thesis by (simp add: numeral_eq_Suc)
qed

lemma brack_end_point:
  assumes "drop p P = point_text x @ r" "c \<noteq> CHR 0x00" "x \<noteq> CHR 0x00"
  shows "\<exists>d. d \<noteq> CHR 0x00 \<and> brack_end P True test sv neg cnt br c p = brack_end P True test sv neg cnt br d (p + length (point_text x))"
proof (cases "x \<in> set [CHR ''['', CHR '']'', CHR ''-'', CHR ''!'', CHR ''^'', CHR ''.'', CHR 0x5C]")
  case True
  then have t: "point_text x = [CHR 0x5C, x]" by (simp add: point_text_def quoted_def)
  have "brack_end P True test sv neg cnt br c p = brack_end P True test sv neg cnt br (CHR 0x5C) (p + 2)"
    using assms t by (intro brack_end_escape [where x = x and r = r]) auto
  with t show ?thesis by (intro exI [of _ "CHR 0x5C"]) simp
next
  case False
  then have t: "point_text x = [x]" by (simp add: point_text_def quoted_def)
  have "brack_end P True test sv neg cnt br c p = brack_end P True test sv neg cnt br x (Suc p)"
    using assms t False by (intro brack_end_char) auto
  with t assms show ?thesis by (intro exI [of _ x]) simp
qed

lemma brack_end_item:
  assumes d: "drop p P = item_text i @ r" and c: "c \<noteq> CHR 0x00" and w: "wf_item i"
  shows "\<exists>d. d \<noteq> CHR 0x00 \<and> brack_end P True test sv neg 1 None c p = brack_end P True test sv neg 1 None d (p + length (item_text i))"
proof (cases i)
  case (One x)
  with assms brack_end_point [of p P x r c] show ?thesis by (simp add: item_text_def wf_item_def)
next
  case (Range a b)
  with d w have da: "drop p P = point_text a @ CHR ''-'' # point_text b @ r" and z: "a \<noteq> CHR 0x00" "b \<noteq> CHR 0x00"
    by (simp_all add: item_text_def wf_item_def)
  obtain x where x: "x \<noteq> CHR 0x00" "brack_end P True test sv neg 1 None c p = brack_end P True test sv neg 1 None x (p + length (point_text a))"
    using brack_end_point [OF da c z(1), of test sv neg 1 None] by auto
  have dm: "drop (p + length (point_text a)) P = CHR ''-'' # point_text b @ r" using drop_append_eq [OF da] .
  note m = brack_end_char [OF dm x(1), of test sv neg 1 None]
  have dn: "drop (Suc (p + length (point_text a))) P = point_text b @ r" using drop_Suc_eq [OF dm] .
  obtain y where y: "y \<noteq> CHR 0x00"
    "brack_end P True test sv neg 1 None (CHR ''-'') (Suc (p + length (point_text a))) =
     brack_end P True test sv neg 1 None y (Suc (p + length (point_text a)) + length (point_text b))"
    using brack_end_point [OF dn _ z(2), of "CHR ''-''" test sv neg 1 None] by auto
  have "p + length (item_text i) = Suc (p + length (point_text a)) + length (point_text b)"
    using Range by (simp add: item_text_def)
  with x(2) m y show ?thesis by (intro exI [of _ y]) (simp add: add.assoc)
next
  case (Class name)
  with d w brack_end_class [of p P name r c] c show ?thesis
    by (intro exI [of _ "CHR '']''"]) (simp add: item_text_def wf_item_def numeral_eq_Suc)
qed

lemma items_text_simps [simp]: "items_text [] = []" "items_text (i # is) = item_text i @ items_text is"
  by (simp_all add: items_text_def)

lemma brack_end_items:
  "drop p P = items_text is @ CHR '']'' # r \<Longrightarrow> list_all wf_item is \<Longrightarrow> c \<noteq> CHR 0x00 \<Longrightarrow>
   brack_end P True test sv neg 1 None c p = (if neg then None else Some (p + length (items_text is) + 1))"
proof (induction "is" arbitrary: c p)
  case Nil
  then have "byte_at P p = CHR '']''" using byte_at_drop0 [of P p] by simp
  with Nil show ?case by (subst brack_end.simps) (simp add: Let_def)
next
  case (Cons i "is")
  then have d: "drop p P = item_text i @ items_text is @ CHR '']'' # r" by simp
  obtain x where x: "x \<noteq> CHR 0x00" "brack_end P True test sv neg 1 None c p = brack_end P True test sv neg 1 None x (p + length (item_text i))"
    using brack_end_item [OF d Cons.prems(3), of test sv neg] Cons.prems(2) by auto
  note x(2)
  also have "brack_end P True test sv neg 1 None x (p + length (item_text i)) =
      (if neg then None else Some (p + length (item_text i) + length (items_text is) + 1))"
    using Cons.prems(2) x(1) by (intro Cons.IH drop_append_eq [OF d]) auto
  finally show ?case by (simp add: ac_simps)
qed

text \<open>One round of the loop.\<close>

definition brack_next :: "bool \<Rightarrow> char \<Rightarrow> nat \<Rightarrow> nat option + (char \<times> nat)" where
  "brack_next neg d p = (if d = CHR '']'' then Inl (if neg then Some p else None) else Inr (d, p))"

lemma brack_range_one:
  assumes f: "plain_flags flags" and d: "drop p0 P = d # r" and z: "d \<noteq> CHR 0x00" "c0 \<noteq> CHR 0x00" and m: "d \<noteq> CHR ''-''"
  shows "brack_range E P flags test sv neg False cs c0 p0 =
    (if test = cs then Inl (brack_matched P flags test sv neg (Suc p0)) else brack_next neg d (Suc p0))"
proof -
  have "byte_at P p0 = d" using byte_at_drop0 [of P p0] d by simp
  then show ?thesis using f z m by (simp add: brack_range_def brack_next_def Let_def FOLD_plain plain_flags_def)
qed

lemma brack_range_range:
  assumes f: "plain_flags flags" and d: "drop p0 P = CHR ''-'' # point_text b @ d # r"
    and z: "d \<noteq> CHR 0x00" "c0 \<noteq> CHR 0x00" "b \<noteq> CHR 0x00" and m: "d \<noteq> CHR ''.''"
  shows "brack_range E P flags test sv neg False cs c0 p0 =
    (if \<not> 0 < rangecmp E cs b False \<and> 0 \<le> rangecmp E test cs False \<and> rangecmp E test b False \<le> 0
     then Inl (brack_matched P flags test sv neg (p0 + length (point_text b) + 2))
     else brack_next neg d (p0 + length (point_text b) + 2))"
proof (cases "b \<in> set [CHR ''['', CHR '']'', CHR ''-'', CHR ''!'', CHR ''^'', CHR ''.'', CHR 0x5C]")
  case True
  then have t: "point_text b = [CHR 0x5C, b]" by (simp add: point_text_def quoted_def)
  have "byte_at P p0 = CHR ''-''" "byte_at P (Suc p0) = CHR 0x5C" "byte_at P (Suc (Suc p0)) = b"
    "byte_at P (Suc (Suc (Suc p0))) = d"
    using byte_at_drop0 [of P p0] byte_at_drop [of P p0 1] byte_at_drop [of P p0 2] byte_at_drop [of P p0 3] d t
    by (simp_all add: numeral_eq_Suc)
  with f z m t show ?thesis by (simp add: brack_range_def brack_next_def Let_def FOLD_plain plain_flags_def)
next
  case False
  then have t: "point_text b = [b]" by (simp add: point_text_def quoted_def)
  have "byte_at P p0 = CHR ''-''" "byte_at P (Suc p0) = b" "byte_at P (Suc (Suc p0)) = d"
    using byte_at_drop0 [of P p0] byte_at_drop [of P p0 1] byte_at_drop [of P p0 2] d t
    by (simp_all add: numeral_eq_Suc)
  with f z m t False show ?thesis by (simp add: brack_range_def brack_next_def Let_def FOLD_plain plain_flags_def)
qed

text \<open>A first point \<open>x\<close>, at \<open>p\<close>.\<close>

lemma brack_step_point:
  assumes f: "plain_flags flags" and d: "drop p P = point_text x @ t" and z: "x \<noteq> CHR 0x00"
  shows "\<exists>c0. c0 \<noteq> CHR 0x00 \<and> brack_step E P flags test sv neg (byte_at P p) (Suc p) =
    brack_range E P flags test sv neg False x c0 (p + length (point_text x))"
proof (cases "x \<in> set [CHR ''['', CHR '']'', CHR ''-'', CHR ''!'', CHR ''^'', CHR ''.'', CHR 0x5C]")
  case True
  then have t: "point_text x = [CHR 0x5C, x]" by (simp add: point_text_def quoted_def)
  have "byte_at P p = CHR 0x5C" "byte_at P (Suc p) = x" using byte_at_drop0 [of P p] byte_at_drop [of P p 1] d t by simp_all
  with f z t show ?thesis
    by (intro exI [of _ "CHR 0x5C"]) (simp add: brack_step_def Let_def FOLD_plain plain_flags_def)
next
  case False
  then have t: "point_text x = [x]" by (simp add: point_text_def quoted_def)
  have "byte_at P p = x" using byte_at_drop0 [of P p] d t by simp
  with f z t False show ?thesis by (intro exI [of _ x]) (simp add: brack_step_def Let_def FOLD_plain plain_flags_def)
qed

lemma takeWhile_upt:
  assumes "k < m" "\<not> Q k" "\<And>i. j \<le> i \<Longrightarrow> i < k \<Longrightarrow> Q i" "j \<le> k"
  shows "length (takeWhile Q [j..<m]) = k - j"
proof -
  have s: "[j..<m] = [j..<k] @ k # [Suc k..<m]"
    using assms(1,4) upt_add_eq_append [of j k "m - k"] upt_conv_Cons [of k m] by simp
  have "takeWhile Q [j..<m] = [j..<k]"
    unfolding s using assms by (subst takeWhile_append2) auto
  then show ?thesis by simp
qed

lemma udequote_name: "name_chars name \<Longrightarrow> udequote_pathname name = name"
  by (induction name) auto

lemma class_name_valid:
  assumes "name \<in> set (map fst cclass_name)" shows "\<exists>b. is_cclass E c name = Some b"
proof -
  from assms obtain k where "(name, k) \<in> set cclass_name" by auto
  then have "is_valid_cclass name \<noteq> CC_NO_CLASS" by (auto simp: cclass_name_def is_valid_cclass_def)
  then show ?thesis by (simp add: is_cclass_def)
qed

lemma brack_step_class:
  assumes f: "plain_flags flags" and n: "name \<in> set (map fst cclass_name)"
    and d: "drop p P = ''[:'' @ name @ '':]'' @ x # r" and z: "x \<noteq> CHR 0x00"
  shows "brack_step E P flags test sv neg (byte_at P p) (Suc p) =
    (if is_cclass E test name = Some True then Inl (brack_matched P flags test sv neg (p + length name + 5))
     else brack_next neg x (p + length name + 5))"
proof -
  have nc: "name_chars name" using class_names [OF n] by simp
  have b0: "byte_at P p = CHR ''[''" "byte_at P (Suc p) = CHR '':''"
    using byte_at_drop0 [of P p] byte_at_drop [of P p 1] d by simp_all
  have dn: "drop (Suc (Suc p)) P = name @ '':]'' @ x # r"
    using drop_append_eq [of p P "''[:''"] d by simp
  have bn: "byte_at P (Suc (Suc p) + i) = byte_at (name @ '':]'' @ x # r) i" for i
    using byte_at_drop [of P "Suc (Suc p)" i] dn by simp
  let ?k = "Suc (Suc p) + length name"
  have bk: "byte_at P ?k = CHR '':''" "byte_at P (Suc ?k) = CHR '']''" "byte_at P (Suc (Suc ?k)) = x"
    using bn [of "length name"] bn [of "Suc (length name)"] bn [of "Suc (Suc (length name))"]
    by (simp_all add: byte_at_def nth_append)
  have k: "?k < length P" using byte_at_inside [OF bk(1)] by simp
  have close: "class_close P (Suc p) = ?k"
  proof -
    have "byte_at P i \<noteq> CHR '':''" if "Suc (Suc p) \<le> i" "i < ?k" for i
    proof -
      define j where "j = i - Suc (Suc p)"
      then have "i = Suc (Suc p) + j" "j < length name" using that by auto
      then have "byte_at P i = name ! j" "j < length name" using bn [of j] by (simp_all add: byte_at_def nth_append)
      then show ?thesis using nc by (metis (no_types, lifting) insertCI list_all_length name_chars_def)
    qed
    then have "length (takeWhile (\<lambda>i. \<not> (byte_at P i = CHR '':'' \<and> byte_at P (i + 1) = CHR '']'')) [Suc (Suc p)..<length P]) = ?k - Suc (Suc p)"
      using k bk by (intro takeWhile_upt) auto
    then show ?thesis by (simp add: class_close_def)
  qed
  have nm: "udequote_pathname (take (?k - Suc p - 1) (drop (Suc p + 1) P)) = name"
    using dn udequote_name [OF nc] by simp
  obtain b where "is_cclass E test name = Some b" using class_name_valid [OF n] by blast
  then show ?thesis
    using f z b0 bk k nm close
    by (simp add: brack_step_def brack_next_def Let_def FOLD_plain numeral_eq_Suc)
qed

lemma brack_step_item:
  assumes f: "plain_flags flags" and w: "wf_item i" and d: "drop p P = item_text i @ x # r"
    and z: "x \<noteq> CHR 0x00" "x \<notin> {CHR ''-'', CHR ''.''}"
  shows "brack_step E P flags test sv neg (byte_at P p) (Suc p) =
    (if item_has E test i then Inl (brack_matched P flags test sv neg (Suc (p + length (item_text i))))
     else brack_next neg x (Suc (p + length (item_text i))))"
proof (cases i)
  case (One a)
  then have da: "drop p P = point_text a @ x # r" and a: "a \<noteq> CHR 0x00" and l: "length (item_text i) = length (point_text a)"
    using d w by (simp_all add: item_text_def wf_item_def)
  obtain c0 where "c0 \<noteq> CHR 0x00"
    "brack_step E P flags test sv neg (byte_at P p) (Suc p) = brack_range E P flags test sv neg False a c0 (p + length (point_text a))"
    using brack_step_point [OF f da a, of E test sv neg] by blast
  then show ?thesis
    using brack_range_one [OF f drop_append_eq [OF da] z(1), of c0] z(2) One l by (simp add: item_has_def)
next
  case (Range a b)
  then have da: "drop p P = point_text a @ CHR ''-'' # point_text b @ x # r" and a: "a \<noteq> CHR 0x00" "b \<noteq> CHR 0x00"
    and l: "length (item_text i) = Suc (length (point_text a) + length (point_text b))"
    using d w by (simp_all add: item_text_def wf_item_def)
  obtain c0 where "c0 \<noteq> CHR 0x00"
    "brack_step E P flags test sv neg (byte_at P p) (Suc p) = brack_range E P flags test sv neg False a c0 (p + length (point_text a))"
    using brack_step_point [OF f da a(1), of E test sv neg] by blast
  then show ?thesis
    using brack_range_range [OF f drop_append_eq [OF da] z(1), of c0] a(2) z(2) Range l
    by (simp add: item_has_def add.assoc numeral_2_eq_2)
next
  case (Class name)
  with d w have da: "drop p P = ''[:'' @ name @ '':]'' @ x # r" and n: "name \<in> set (map fst cclass_name)"
    and l: "length (item_text i) = length name + 4"
    by (simp_all add: item_text_def wf_item_def)
  from brack_step_class [OF f n da z(1), of E test sv neg] show ?thesis
    using Class l by (simp add: item_has_def numeral_eq_Suc)
qed

lemma item_text_hd:
  assumes "wf_item i"
  shows "\<exists>x r. item_text i = x # r \<and> x \<notin> {CHR 0x00, CHR '']'', CHR ''-'', CHR ''.'', CHR ''!'', CHR ''^''}"
  using assms by (cases i) (auto simp: item_text_def wf_item_def point_text_def quoted_def)

lemma brack_loop_items:
  "drop p P = items_text is @ CHR '']'' # r \<Longrightarrow> list_all wf_item is \<Longrightarrow> is \<noteq> [] \<Longrightarrow> plain_flags flags \<Longrightarrow>
   brack_loop E P flags test sv neg (byte_at P p) (Suc p) =
     (if list_ex (item_has E test) is \<noteq> neg then Some (p + length (items_text is) + 1) else None)"
proof (induction "is" arbitrary: p)
  case Nil
  then show ?case by simp
next
  case (Cons i "is")
  note f = Cons.prems(4)
  have w: "wf_item i" "list_all wf_item is" using Cons.prems by simp_all
  define t where "t = items_text is @ CHR '']'' # r"
  have d: "drop p P = item_text i @ t" using Cons.prems by (simp add: t_def)
  note dt = drop_append_eq [OF d]
  let ?q = "p + length (item_text i)"
  have "\<exists>x u. t = x # u \<and> x \<noteq> CHR 0x00 \<and> x \<notin> {CHR ''-'', CHR ''.''} \<and> (x = CHR '']'' \<longleftrightarrow> is = [])"
  proof (cases "is")
    case (Cons j js)
    then show ?thesis using item_text_hd [of j] w by (auto simp: t_def)
  qed (simp add: t_def)
  then obtain x u where t: "t = x # u" and x: "x \<noteq> CHR 0x00" "x \<notin> {CHR ''-'', CHR ''.''}" and e: "x = CHR '']'' \<longleftrightarrow> is = []"
    by blast
  have bx: "byte_at P ?q = x" using byte_at_drop0 [of P ?q] dt t by simp
  have m: "brack_matched P flags test sv neg (Suc ?q) = (if neg then None else Some (?q + length (items_text is) + 1))"
    using brack_end_items [OF dt [unfolded t_def] w(2) x(1)] f bx
    by (simp add: brack_matched_def plain_flags_def)
  have s: "brack_step E P flags test sv neg (byte_at P p) (Suc p) =
    (if item_has E test i then Inl (brack_matched P flags test sv neg (Suc ?q)) else brack_next neg x (Suc ?q))"
    using brack_step_item [OF f w(1) _ x] d t by simp
  have r: "brack_loop E P flags test sv neg x (Suc ?q) =
      (if list_ex (item_has E test) is \<noteq> neg then Some (?q + length (items_text is) + 1) else None)" if "is \<noteq> []"
    using Cons.IH [OF dt [unfolded t_def] w(2) that f] bx by simp
  show ?case
    using r e m s by (subst brack_loop.simps) (cases neg; auto simp: brack_next_def add.assoc)
qed

lemma BRACKMATCH_items:
  assumes d: "drop p P = (if neg then ''!'' else []) @ items_text is @ CHR '']'' # r"
    and w: "list_all wf_item is" "is \<noteq> []" and f: "plain_flags flags"
  shows "BRACKMATCH E P p test flags =
    (if list_ex (item_has E test) is \<noteq> neg then Some (p + (if neg then 1 else 0) + length (items_text is) + 1) else None)"
proof (cases neg)
  case True
  then have "byte_at P p = CHR ''!''" using byte_at_drop0 [of P p] d by simp
  moreover have "drop (Suc p) P = items_text is @ CHR '']'' # r" using True d drop_Suc_eq by simp
  ultimately show ?thesis
    using True brack_loop_items [OF _ w f, of "Suc p" P r E test p neg] by (simp add: BRACKMATCH_def Let_def)
next
  case False
  obtain i js x u where "is = i # js" "item_text i = x # u" "x \<notin> {CHR ''!'', CHR ''^''}"
    using w item_text_hd by (cases "is") force+
  then have "byte_at P p \<notin> {CHR ''!'', CHR ''^''}" using byte_at_drop0 [of P p] d False by simp
  then show ?thesis
    using False d brack_loop_items [OF _ w f, of p P r E test p neg] by (simp add: BRACKMATCH_def Let_def)
qed

section \<open>Matching\<close>

definition elem_has :: "match_env \<Rightarrow> glob_elem \<Rightarrow> char \<Rightarrow> bool" where
  "elem_has E e d =
     (case e of Lit c \<Rightarrow> d = c | Any \<Rightarrow> True | Star \<Rightarrow> False | Brackets neg is \<Rightarrow> list_ex (item_has E d) is \<noteq> neg)"

lemma glob_match_elem:
  "e \<noteq> Star \<Longrightarrow> glob_match E (e # es) (drop n S) \<longleftrightarrow> n < length S \<and> elem_has E e (S ! n) \<and> glob_match E es (drop (Suc n) S)"
proof (cases "n < length S")
  case True
  then have "drop n S = S ! n # drop (Suc n) S" by (simp add: Cons_nth_drop_Suc)
  then show "e \<noteq> Star \<Longrightarrow> ?thesis" using True by (cases e) (auto simp: elem_has_def)
qed (cases e; simp)

lemma glob_match_Star:
  "glob_match E (Star # es) (drop n S) \<longleftrightarrow> glob_match E es (drop n S) \<or> n < length S \<and> glob_match E (Star # es) (drop (Suc n) S)"
proof (cases "n < length S")
  case True
  then have "drop n S = S ! n # drop (Suc n) S" by (simp add: Cons_nth_drop_Suc)
  then show ?thesis using True by simp
qed simp

lemma Star_later: "glob_match E (Star # es) t \<Longrightarrow> glob_match E (Star # es) (u @ t)"
  by (induction u) simp_all

lemma Star_from: "glob_match E (Star # es) (drop b S) \<Longrightarrow> a \<le> b \<Longrightarrow> glob_match E (Star # es) (drop a S)"
  using Star_later [of E es "drop b S" "take (b - a) (drop a S)"] append_take_drop_id [of "b - a" "drop a S"] by simp

lemma Star_iff: "glob_match E (Star # es) s \<longleftrightarrow> (\<exists>k\<le>length s. glob_match E es (drop k s))"
proof (induction s)
  case (Cons d t)
  have "(\<exists>k\<le>length (d # t). glob_match E es (drop k (d # t))) \<longleftrightarrow>
      glob_match E es (d # t) \<or> (\<exists>k\<le>length t. glob_match E es (drop k t))"
    by (metis Suc_le_mono drop0 drop_Suc_Cons length_Cons not0_implies_Suc zero_le)
  with Cons show ?case by simp
qed simp

lemma Star_Star: "glob_match E (Star # Star # es) s \<longleftrightarrow> glob_match E (Star # es) s"
  by (induction s) auto

lemma Star_Any: "glob_match E (Star # Any # es) (drop n S) \<longleftrightarrow> n < length S \<and> glob_match E (Star # es) (drop (Suc n) S)"
proof (cases "n < length S")
  case True
  have "glob_match E (Star # Any # es) (d # t) \<longleftrightarrow> glob_match E (Star # es) t" for d t
    by (induction t arbitrary: d) auto
  with True show ?thesis by (simp add: Cons_nth_drop_Suc [symmetric])
qed simp

lemma Star_last: "glob_match E [Star] s"
  by (induction s) auto

text \<open>Whether a wildcard does not match the first character of the string.\<close>

definition hidden :: "match_env \<Rightarrow> string \<Rightarrow> u32 \<Rightarrow> nat \<Rightarrow> nat \<Rightarrow> bool" where
  "hidden E S flags str n \<longleftrightarrow> dot_hidden E S flags str n (byte_at S n)"

lemma hidden_inside: "plain_flags flags \<Longrightarrow> n \<noteq> str \<Longrightarrow> \<not> hidden E S flags str n"
  by (simp add: hidden_def dot_hidden_def plain_flags_def)

lemma plain_inner: "plain_flags flags \<Longrightarrow> plain_flags (inner flags)"
proof -
  have "\<not> has flags f \<Longrightarrow> \<not> has (inner flags) f" for f
    unfolding has_def inner_def by (metis (no_types, lifting) and.assoc and.commute and_zero_eq)
  then show "plain_flags flags \<Longrightarrow> plain_flags (inner flags)" by (simp add: plain_flags_def)
qed

lemma hidden_inner: "plain_flags flags \<Longrightarrow> \<not> hidden E S (inner flags) str n"
proof -
  have "\<not> has (inner flags) FNM_PERIOD" "\<not> has (inner flags) FNM_DOTDOT"
    unfolding has_def inner_def by (simp_all add: and.assoc FNM_defs)
  then show ?thesis by (simp add: hidden_def dot_hidden_def)
qed

text \<open>One round of \<open>GMATCH\<close>.\<close>

lemma glob_text_simps [simp]: "glob_text [] = []" "glob_text (e # es) = elem_text e @ glob_text es"
  by (simp_all add: glob_text_def)

definition gives :: "bool \<Rightarrow> match_result" where "gives b = (if b then Match else NoMatch)"

lemma GMATCH_end:
  "plain_flags flags \<Longrightarrow> GMATCH E P S call str n (length S) (length P) (length P) ends flags = gives (n = length S)"
  by (simp add: GMATCH_def plain_flags_def gives_def)

lemma GMATCH_elem:
  assumes d: "drop p P = elem_text e @ r" and w: "wf_elem e" "e \<noteq> Star" and f: "plain_flags flags"
    and z: "CHR 0x00 \<notin> set S" and n: "n \<le> length S"
  shows "GMATCH E P S call str n (length S) p (length P) ends flags =
    (if (\<nexists>c. e = Lit c) \<and> hidden E S flags str n then NoMatch
     else if n < length S \<and> elem_has E e (S ! n) then call (Gmatch str (Suc n) (length S) (p + length (elem_text e)) (length P) ends flags)
     else NoMatch)"
proof -
  have sz: "S ! n \<noteq> CHR 0x00" if "n < length S" using that z nth_mem by metis
  have sc: "(if n < length S then byte_at S n else CHR 0x00) = byte_at S n" by (simp add: byte_at_def)
  have lp: "length P = p + length (elem_text e) + length r" if "elem_text e \<noteq> []"
    using arg_cong [OF d, of length] that by (cases "p < length P") auto
  show ?thesis
  proof (cases e)
    case Any
    then have t: "elem_text e = ''?''" by (simp add: elem_text_def)
    have "byte_at P p = CHR ''?''" "p < length P" using byte_at_drop0 [of P p] d t lp by simp_all
    then show ?thesis using f sz n Any t
      by (auto simp: GMATCH_def Let_def FOLD_plain plain_flags_def sc hidden_def elem_has_def) (auto simp: byte_at_def)
  next
    case (Brackets neg "is")
    then have t: "elem_text e = CHR ''['' # (if neg then ''!'' else []) @ items_text is @ '']''" by (simp add: elem_text_def)
    have b: "byte_at P p = CHR ''[''" "p < length P" using byte_at_drop0 [of P p] d t lp by simp_all
    have dp: "drop (Suc p) P = (if neg then ''!'' else []) @ items_text is @ CHR '']'' # r"
      using drop_Suc_eq [of p P "CHR ''[''"] d t by simp
    have "BRACKMATCH E P (Suc p) (byte_at S n) flags =
      (if list_ex (item_has E (byte_at S n)) is \<noteq> neg then Some (p + length (elem_text e)) else None)"
      using BRACKMATCH_items [OF dp _ _ f, of E "byte_at S n"] w Brackets t by (simp add: wf_elem_def)
    then show ?thesis using b f sz n Brackets
      by (auto simp: GMATCH_def Let_def FOLD_plain plain_flags_def sc hidden_def elem_has_def) (auto simp: byte_at_def)
  next
    case (Lit c)
    then have t: "elem_text e = lit_text c" and c: "c \<noteq> CHR 0x00" using w by (simp_all add: elem_text_def wf_elem_def)
    show ?thesis
    proof (cases "c \<in> set [CHR ''?'', CHR ''*'', CHR ''['', CHR 0x5C]")
      case True
      then have t: "elem_text e = [CHR 0x5C, c]" using t by (simp add: lit_text_def quoted_def)
      have "byte_at P p = CHR 0x5C" "byte_at P (Suc p) = c" "Suc p < length P"
        using byte_at_drop0 [of P p] byte_at_drop [of P p 1] d t lp by simp_all
      then show ?thesis using f sz n Lit t c
        by (cases "n < length S"; auto simp: GMATCH_def Let_def FOLD_plain plain_flags_def elem_has_def; auto simp: byte_at_def)
    next
      case False
      then have t: "elem_text e = [c]" using t by (simp add: lit_text_def quoted_def)
      have "byte_at P p = c" "p < length P" using byte_at_drop0 [of P p] d t lp by simp_all
      then show ?thesis using f sz n Lit t c False
        by (cases "n < length S"; auto simp: GMATCH_def Let_def FOLD_plain plain_flags_def elem_has_def; auto simp: byte_at_def)
    qed
  qed (use w in simp)
qed

text \<open>
  With \<open>ends\<close> set: the elements before the first \<open>*\<close> are matched one by one, and the places of the
  \<open>*\<close> and behind what they match are reported.
\<close>

fun seg_result :: "match_env \<Rightarrow> string \<Rightarrow> glob_elem list \<Rightarrow> nat \<Rightarrow> nat \<Rightarrow> match_result" where
  "seg_result E S [] n p = gives (n = length S)"
| "seg_result E S (e # es) n p =
     (if e = Star then Ends p n
      else if n < length S \<and> elem_has E e (S ! n) then seg_result E S es (Suc n) (p + length (elem_text e))
      else NoMatch)"

lemma elem_text_pos: "wf_elem e \<Longrightarrow> 0 < length (elem_text e)"
  by (cases e) (auto simp: elem_text_def lit_text_def quoted_def)

lemma drop_elem: "drop p P = glob_text (e # es) \<Longrightarrow> drop (p + length (elem_text e)) P = glob_text es"
  by (simp add: drop_append_eq)

lemma text_end: "drop p P = [] \<Longrightarrow> p \<le> length P \<Longrightarrow> p = length P"
  by simp

lemma text_inside:
  assumes "drop p P = glob_text (e # es)" "wf_elem e"
  shows "p < length P" "p + length (elem_text e) \<le> length P"
proof -
  have "length P - p = length (elem_text e) + length (glob_text es)" using arg_cong [OF assms(1), of length] by simp
  then show "p < length P" "p + length (elem_text e) \<le> length P" using elem_text_pos [OF assms(2)] by linarith+
qed

lemma seg_matcher:
  "drop p P = glob_text es \<Longrightarrow> p \<le> length P \<Longrightarrow> list_all wf_elem es \<Longrightarrow> plain_flags flags \<Longrightarrow>
   (\<And>f str n. \<not> hidden E S flags str n) \<Longrightarrow>
   CHR 0x00 \<notin> set S \<Longrightarrow> n \<le> length S \<Longrightarrow> length es < fuel \<Longrightarrow>
   matcher E P S fuel (Gmatch str n (length S) p (length P) True flags) = seg_result E S es n p"
proof (induction es arbitrary: p n fuel)
  case Nil
  then obtain k where "fuel = Suc k" "p = length P" by (cases fuel) auto
  with Nil show ?case by (simp add: match_step_def GMATCH_end)
next
  case (Cons e es)
  from Cons.prems obtain k where k: "fuel = Suc k" "length es < k" by (cases fuel) auto
  have w: "wf_elem e" "list_all wf_elem es" using Cons.prems by simp_all
  note i = text_inside [OF Cons.prems(1) w(1)]
  show ?case
  proof (cases "e = Star")
    case True
    then have "byte_at P p = CHR ''*''" using Cons.prems byte_at_drop0 [of P p] by (simp add: elem_text_def)
    then show ?thesis using True k i Cons.prems
      by (simp add: match_step_def GMATCH_def FOLD_plain plain_flags_def Let_def)
  next
    case False
    have "GMATCH E P S (matcher E P S k) str n (length S) p (length P) True flags =
      (if n < length S \<and> elem_has E e (S ! n)
       then matcher E P S k (Gmatch str (Suc n) (length S) (p + length (elem_text e)) (length P) True flags) else NoMatch)"
      using GMATCH_elem [OF _ w(1) False, of p P "glob_text es" flags S n E "matcher E P S k" str True] Cons.prems by simp
    then show ?thesis
      using k False Cons.IH [OF drop_elem [OF Cons.prems(1)] i(2) w(2) Cons.prems(4,5,6), of "Suc n" k]
      by (simp add: match_step_def)
  qed
qed

text \<open>What the report means for the reference matcher, at this place of the string and later ones.\<close>

lemma seg_no_match: "seg_result E S es n p = NoMatch \<Longrightarrow> n \<le> length S \<Longrightarrow> \<not> glob_match E es (drop n S)"
proof (induction es arbitrary: n p)
  case (Cons e es)
  then show ?case using glob_match_elem [of e E es n S] by (auto split: if_splits)
qed (simp add: gives_def split: if_splits)

lemma seg_match: "seg_result E S es n p = Match \<Longrightarrow> glob_match E es (drop n S)"
proof (induction es arbitrary: n p)
  case (Cons e es)
  then show ?case using glob_match_elem [of e E es n S] by (auto split: if_splits)
qed (simp add: gives_def split: if_splits)

lemma seg_kind: "seg_result E S es n p \<noteq> Fault" "seg_result E S es n p \<noteq> Stuck"
  by (induction es arbitrary: n p) (auto simp: gives_def)

lemma seg_ends:
  "seg_result E S es n p = Ends p2 n2 \<Longrightarrow> drop p P = glob_text es \<Longrightarrow> p \<le> length P \<Longrightarrow> list_all wf_elem es \<Longrightarrow> n \<le> length S \<Longrightarrow>
   \<exists>post. length post < length es \<and> drop p2 P = glob_text (Star # post) \<and> p2 \<le> length P \<and> n \<le> n2 \<and> n2 \<le> length S \<and>
     list_all wf_elem post \<and> (es = Star # post \<or> n < n2) \<and>
     (glob_match E (Star # post) (drop n2 S) \<longrightarrow> glob_match E es (drop n S)) \<and>
     (\<forall>k\<ge>n. glob_match E es (drop k S) \<longrightarrow> glob_match E (Star # post) (drop n2 S))"
proof (induction es arbitrary: n p)
  case (Cons e es)
  show ?case
  proof (cases "e = Star")
    case True
    with Cons.prems show ?thesis by (intro exI [of _ es]) (auto simp del: glob_match.simps simp: glob_match_Star [of E es n] intro: Star_from)
  next
    case False
    have w: "wf_elem e" "list_all wf_elem es" using Cons.prems by simp_all
    have h: "n < length S" "elem_has E e (S ! n)"
      and s: "seg_result E S es (Suc n) (p + length (elem_text e)) = Ends p2 n2"
      using Cons.prems(1) False by (simp_all split: if_splits)
    from Cons.IH [OF s drop_elem [OF Cons.prems(2)] text_inside(2) [OF Cons.prems(2) w(1)] w(2)] h(1)
    obtain post where p: "length post < length es" "drop p2 P = glob_text (Star # post)" "p2 \<le> length P" "Suc n \<le> n2"
        "n2 \<le> length S" "list_all wf_elem post"
      and bwd: "glob_match E (Star # post) (drop n2 S) \<longrightarrow> glob_match E es (drop (Suc n) S)"
      and fwd: "\<forall>k\<ge>Suc n. glob_match E es (drop k S) \<longrightarrow> glob_match E (Star # post) (drop n2 S)" by auto
    have "\<forall>k\<ge>n. glob_match E (e # es) (drop k S) \<longrightarrow> glob_match E (Star # post) (drop n2 S)"
      using fwd glob_match_elem [OF False, of E es _ S] by (meson Suc_le_mono)
    moreover have "glob_match E (Star # post) (drop n2 S) \<longrightarrow> glob_match E (e # es) (drop n S)"
      using bwd h glob_match_elem [OF False, of E es n S] by blast
    ultimately show ?thesis using p by (intro exI [of _ post]) auto
  qed
qed (simp add: gives_def split: if_splits)

text \<open>The search behind a \<open>*\<close>: the first place at which the elements up to the next \<open>*\<close> match will do.\<close>

lemma Star_at:
  assumes "n \<le> length S"
  shows "glob_match E (Star # es) (drop n S) \<longleftrightarrow> (\<exists>k. n \<le> k \<and> k \<le> length S \<and> glob_match E es (drop k S))"
proof -
  have "\<exists>j\<le>length (drop n S). glob_match E es (drop j (drop n S))"
    if "n \<le> k" "k \<le> length S" "glob_match E es (drop k S)" for k
    using that by (intro exI [of _ "k - n"]) simp
  moreover have "\<exists>k. n \<le> k \<and> k \<le> length S \<and> glob_match E es (drop k S)"
    if "j \<le> length (drop n S)" "glob_match E es (drop j (drop n S))" for j
    using that assms by (intro exI [of _ "j + n"]) auto
  ultimately show ?thesis unfolding Star_iff by blast
qed

lemma first_match_split:
  "first_match f xs = NoMatch \<and> (\<forall>x\<in>set xs. f x = NoMatch) \<or>
   (\<exists>ys x zs. xs = ys @ x # zs \<and> (\<forall>y\<in>set ys. f y = NoMatch) \<and> first_match f xs = f x \<and> f x \<noteq> NoMatch)"
proof (induction xs)
  case (Cons a xs)
  show ?case
  proof (cases "f a = NoMatch")
    case True
    then have s: "first_match f (a # xs) = first_match f xs" by simp
    from Cons.IH show ?thesis unfolding s using True by (metis append_Cons set_ConsD)
  next
    case False
    then show ?thesis by (intro disjI2 exI [of _ "[]"] exI [of _ a] exI [of _ xs]) (auto split: match_result.splits)
  qed
qed simp

lemma first_match_cong: "(\<And>x. x \<in> set xs \<Longrightarrow> f x = g x) \<Longrightarrow> first_match f xs = first_match g xs"
  by (induction xs) (auto split: match_result.splits)

lemma upt_split: "[n..<m] = ys @ x # zs \<Longrightarrow> n \<le> x \<and> x < m \<and> set ys = {n..<x}"
proof -
  assume a: "[n..<m] = ys @ x # zs"
  have l: "length ys < m - n" using arg_cong [OF a, of length] by simp
  have x: "x = n + length ys" using arg_cong [OF a, of "\<lambda>l. l ! length ys"] l by simp
  have "ys = take (length ys) [n..<m]" using a by simp
  also have "\<dots> = [n..<x]" using l x by simp
  finally have "set ys = {n..<x}" by (metis set_upt)
  with l x show ?thesis by auto
qed

lemma search_value:
  assumes d: "drop p P = glob_text (e # es)" "p \<le> length P" and w: "list_all wf_elem (e # es)" "e \<noteq> Star" and n: "n \<le> length S"
  shows "case first_match (\<lambda>k. seg_result E S (e # es) k p) [n..<length S] of
      Match \<Rightarrow> glob_match E (Star # e # es) (drop n S)
    | NoMatch \<Rightarrow> \<not> glob_match E (Star # e # es) (drop n S)
    | Ends p2 n2 \<Rightarrow> \<exists>post. length post \<le> length es \<and> drop p2 P = glob_text (Star # post) \<and> p2 \<le> length P \<and> n < n2 \<and>
        n2 \<le> length S \<and> list_all wf_elem post \<and>
        (glob_match E (Star # post) (drop n2 S) \<longleftrightarrow> glob_match E (Star # e # es) (drop n S))
    | _ \<Rightarrow> False"
proof -
  let ?f = "\<lambda>k. seg_result E S (e # es) k p"
  from first_match_split [of ?f "[n..<length S]"] show ?thesis
  proof (elim disjE exE conjE)
    assume a: "first_match ?f [n..<length S] = NoMatch" "\<forall>x\<in>set [n..<length S]. ?f x = NoMatch"
    have "\<not> glob_match E (e # es) (drop k S)" if "n \<le> k" "k \<le> length S" for k
    proof (cases "k < length S")
      case True
      then show ?thesis using a(2) that seg_no_match [of E S "e # es" k p] by (simp del: seg_result.simps)
    next
      case False
      then show ?thesis using glob_match_elem [OF w(2), of E es k S] by simp
    qed
    then show ?thesis using a(1) Star_at [OF n, of E "e # es"] by (simp del: seg_result.simps glob_match.simps)
  next
    fix ys k zs
    assume a: "[n..<length S] = ys @ k # zs" "\<forall>y\<in>set ys. ?f y = NoMatch"
      and r: "first_match ?f [n..<length S] = ?f k" "?f k \<noteq> NoMatch"
    from upt_split [OF a(1)] have k: "n \<le> k" "k < length S" "set ys = {n..<k}" by auto
    show ?thesis
    proof (cases "?f k")
      case Match
      then show ?thesis using k r Star_at [OF n, of E "e # es"] seg_match [OF Match]
        by (auto simp del: seg_result.simps glob_match.simps)
    next
      case (Ends p2 n2)
      obtain post where q: "length post < length (e # es)" "drop p2 P = glob_text (Star # post)" "p2 \<le> length P" "k \<le> n2"
          "n2 \<le> length S" "list_all wf_elem post" "e # es = Star # post \<or> k < n2"
        and bwd: "glob_match E (Star # post) (drop n2 S) \<longrightarrow> glob_match E (e # es) (drop k S)"
        and fwd: "\<forall>j\<ge>k. glob_match E (e # es) (drop j S) \<longrightarrow> glob_match E (Star # post) (drop n2 S)"
        using seg_ends [OF Ends d w(1) less_imp_le [OF k(2)]] by (elim exE conjE) (rule that)
      then have p: "length post \<le> length es" "drop p2 P = glob_text (Star # post)" "p2 \<le> length P" "n < n2"
          "n2 \<le> length S" "list_all wf_elem post" using w(2) k(1) by auto
      have "\<not> glob_match E (e # es) (drop j S)" if "n \<le> j" "j < k" for j
        using a(2) k that seg_no_match [of E S "e # es" j p] by (simp del: seg_result.simps)
      then have "glob_match E (Star # post) (drop n2 S) \<longleftrightarrow> glob_match E (Star # e # es) (drop n S)"
        using Star_at [OF n, of E "e # es"] bwd fwd k by (meson leI less_imp_le_nat)
      then show ?thesis using p k r Ends
        by (simp del: seg_result.simps glob_match.simps glob_text_simps) (intro exI [of _ post], auto simp del: glob_match.simps)
    qed (use r seg_kind in \<open>simp_all del: seg_result.simps glob_match.simps\<close>)
  qed
qed

text \<open>The value of a match, and what the calls behind a \<open>*\<close> return if the shorter matches are right.\<close>

definition outcome :: "match_env \<Rightarrow> string \<Rightarrow> u32 \<Rightarrow> nat \<Rightarrow> nat \<Rightarrow> glob_elem list \<Rightarrow> match_result" where
  "outcome E S flags str n es =
     (if es \<noteq> [] \<and> (\<nexists>c. hd es = Lit c) \<and> hidden E S flags str n then NoMatch else gives (glob_match E es (drop n S)))"

definition matches_right :: "match_env \<Rightarrow> string \<Rightarrow> string \<Rightarrow> u32 \<Rightarrow> nat \<Rightarrow> nat \<Rightarrow> bool" where
  "matches_right E P S flags str m \<longleftrightarrow>
     (\<forall>es p n fuel. length es \<le> m \<longrightarrow> 3 * length es < fuel \<longrightarrow> drop p P = glob_text es \<longrightarrow> p \<le> length P \<longrightarrow>
        list_all wf_elem es \<longrightarrow> str \<le> n \<longrightarrow> n \<le> length S \<longrightarrow>
        matcher E P S fuel (Gmatch str n (length S) p (length P) False flags) = outcome E S flags str n es)"

lemma elem_first:
  "wf_elem e \<Longrightarrow> e \<noteq> Star \<Longrightarrow> e \<noteq> Any \<Longrightarrow> \<exists>x u. elem_text e = x # u \<and> x \<notin> {CHR 0x00, CHR ''?'', CHR ''*''}"
  by (cases e) (auto simp: elem_text_def lit_text_def quoted_def wf_elem_def)

lemma first_differs_seg:
  assumes d: "drop q P = glob_text (e # es)" and e: "e \<noteq> Star" "e \<noteq> Any" and f: "plain_flags flags"
    and h: "first_differs E P S flags (byte_at P q) q k" and k: "k < length S"
  shows "seg_result E S (e # es) k q = NoMatch"
proof (cases e)
  case (Lit c)
  have s: "byte_at S k = S ! k" using k by (simp add: byte_at_def)
  have b: "byte_at P q = byte_at (lit_text c @ glob_text es) 0" "byte_at P (Suc q) = byte_at (lit_text c @ glob_text es) 1"
    using byte_at_drop0 [of P q] byte_at_drop [of P q 1] d Lit by (simp_all add: elem_text_def)
  have "S ! k \<noteq> c"
    using h f b s by (auto simp: first_differs_def FOLD_plain plain_flags_def lit_text_def quoted_def split: if_splits)
  then show ?thesis using Lit by (simp add: elem_has_def)
next
  case (Brackets neg "is")
  then have "byte_at P q = CHR ''[''" using byte_at_drop0 [of P q] d by (simp add: elem_text_def)
  then show ?thesis using h by (simp add: first_differs_def Let_def)
qed (use e in simp_all)

lemma rest_right:
  assumes d: "drop q P = glob_text (e # es)" "q \<le> length P" and w: "list_all wf_elem (e # es)" and e: "e \<noteq> Star" "e \<noteq> Any"
    and f: "plain_flags flags" and z: "CHR 0x00 \<notin> set S" and n: "str \<le> n" "n \<le> length S"
    and r: "matches_right E P S flags str (length (e # es))" and fuel: "3 * length (e # es) < fuel"
  shows "gmatch_rest E P S (matcher E P S fuel) str (byte_at P q) n (length S) (Suc q) (length P) flags =
    gives (glob_match E (Star # e # es) (drop n S))"
proof -
  have c: "byte_at P q \<notin> {CHR 0x00, CHR ''?'', CHR ''*''}"
    using elem_first [OF _ e] w d(1) byte_at_drop0 [of P q] by fastforce
  let ?attempt = "\<lambda>k. if first_differs E P S flags (byte_at P q) q k then NoMatch
    else matcher E P S fuel (Gmatch k k (length S) q (length P) True (inner flags))"
  have s: "first_match ?attempt [n..<length S] = first_match (\<lambda>k. seg_result E S (e # es) k q) [n..<length S]"
  proof (rule first_match_cong)
    fix k assume k: "k \<in> set [n..<length S]"
    have "matcher E P S fuel (Gmatch k k (length S) q (length P) True (inner flags)) = seg_result E S (e # es) k q"
      using k fuel by (intro seg_matcher d w z plain_inner f hidden_inner) auto
    then show "?attempt k = seg_result E S (e # es) k q"
      using first_differs_seg [OF d(1) e f] k by (simp del: seg_result.simps)
  qed
  have v: "gmatch_rest E P S (matcher E P S fuel) str (byte_at P q) n (length S) (Suc q) (length P) flags =
    (case first_match (\<lambda>k. seg_result E S (e # es) k q) [n..<length S] of
       Ends p2 n2 \<Rightarrow> matcher E P S fuel (Gmatch str n2 (length S) p2 (length P) False flags)
     | r \<Rightarrow> r)"
    unfolding s [symmetric] gmatch_rest_def Let_def diff_Suc_1 using c f by (simp add: plain_flags_def)
  show ?thesis
  proof (cases "first_match (\<lambda>k. seg_result E S (e # es) k q) [n..<length S]")
    case (Ends p2 n2)
    with search_value [OF d w e(1) n(2), of E] obtain post
      where p: "length post \<le> length es" "drop p2 P = glob_text (Star # post)" "p2 \<le> length P" "n < n2"
          "n2 \<le> length S" "list_all wf_elem post"
        and m: "glob_match E (Star # post) (drop n2 S) \<longleftrightarrow> glob_match E (Star # e # es) (drop n S)"
      by (simp only: match_result.case) (elim exE conjE, rule that)
    have "matcher E P S fuel (Gmatch str n2 (length S) p2 (length P) False flags) = outcome E S flags str n2 (Star # post)"
      using r [unfolded matches_right_def, rule_format, of "Star # post" fuel p2 n2] p n fuel by (simp add: wf_elem_def)
    also have "\<dots> = gives (glob_match E (Star # post) (drop n2 S))"
      using hidden_inside [OF f, of n2 str] n p(4) by (simp add: outcome_def)
    finally show ?thesis using v Ends m by (simp del: glob_match.simps)
  qed (use search_value [OF d w e(1) n(2), of E] v in \<open>simp_all add: gives_def del: glob_match.simps seg_result.simps\<close>)
qed

lemma wild_text: "drop q P = glob_text (Any # es) \<Longrightarrow> byte_at P q = CHR ''?''" "drop q P = glob_text (Star # es) \<Longrightarrow> byte_at P q = CHR ''*''"
  using byte_at_drop0 [of P q] by (simp_all add: elem_text_def)

lemma wild_drop: "e = Any \<or> e = Star \<Longrightarrow> drop q P = glob_text (e # es) \<Longrightarrow> drop (Suc q) P = glob_text es"
  using drop_elem [of q P e es] by (auto simp: elem_text_def)

lemma text_empty: "drop p P = glob_text es \<Longrightarrow> p \<le> length P \<Longrightarrow> list_all wf_elem es \<Longrightarrow> p = length P \<longleftrightarrow> es = []"
  by (cases es) (auto dest: text_inside elem_text_pos)

text \<open>The rest of the collapsing loop behind a \<open>*\<close> or \<open>?\<close> of it.\<close>

definition stars_go :: "match_env \<Rightarrow> string \<Rightarrow> string \<Rightarrow> nat \<Rightarrow> u32 \<Rightarrow> nat \<Rightarrow> char \<Rightarrow> nat \<Rightarrow> nat \<Rightarrow> match_result" where
  "stars_go E P S fuel flags str c n p =
     (if p = length P then matcher E P S fuel (Rest str c n (length S) p (length P) flags)
      else matcher E P S fuel (Stars str (byte_at P p) n (length S) (p + 1) (length P) flags))"

lemma gmatch_stars_wild:
  assumes "plain_flags flags"
  shows "gmatch_stars E P S (matcher E P S fuel) str (CHR ''*'') n (length S) p (length P) flags = stars_go E P S fuel flags str (CHR ''*'') n p"
    and "CHR 0x00 \<notin> set S \<Longrightarrow> n \<le> length S \<Longrightarrow>
      gmatch_stars E P S (matcher E P S fuel) str (CHR ''?'') n (length S) p (length P) flags =
      (if n = length S then NoMatch else stars_go E P S fuel flags str (CHR ''?'') (Suc n) p)"
proof -
  show "gmatch_stars E P S (matcher E P S fuel) str (CHR ''*'') n (length S) p (length P) flags = stars_go E P S fuel flags str (CHR ''*'') n p"
    using assms by (simp add: gmatch_stars_def stars_go_def plain_flags_def Let_def)
  assume "CHR 0x00 \<notin> set S" "n \<le> length S"
  then have "(if n < length S then byte_at S n else CHR 0x00) = CHR 0x00 \<longleftrightarrow> n = length S"
    by (cases "n < length S") (auto simp: byte_at_def dest: nth_mem [of n S])
  then show "gmatch_stars E P S (matcher E P S fuel) str (CHR ''?'') n (length S) p (length P) flags =
      (if n = length S then NoMatch else stars_go E P S fuel flags str (CHR ''?'') (Suc n) p)"
    using assms by (simp add: gmatch_stars_def stars_go_def plain_flags_def Let_def)
qed

lemma stars_go_end:
  assumes "plain_flags flags" "c = CHR ''?'' \<or> c = CHR ''*''" "0 < fuel"
  shows "stars_go E P S fuel flags str c n (length P) = Match"
proof -
  obtain k where "fuel = Suc k" using assms(3) by (cases fuel) auto
  with assms show ?thesis by (auto simp: stars_go_def match_step_def gmatch_rest_def)
qed

lemma stars_right:
  assumes f: "plain_flags flags" and z: "CHR 0x00 \<notin> set S" and r: "matches_right E P S flags str m"
  shows "drop q P = glob_text es \<Longrightarrow> q \<le> length P \<Longrightarrow> list_all wf_elem es \<Longrightarrow> es \<noteq> [] \<Longrightarrow> length es \<le> m \<Longrightarrow>
    str \<le> n \<Longrightarrow> n \<le> length S \<Longrightarrow> 3 * length es + 2 < fuel \<Longrightarrow>
    matcher E P S fuel (Stars str (byte_at P q) n (length S) (Suc q) (length P) flags) = gives (glob_match E (Star # es) (drop n S))"
proof (induction es arbitrary: q n fuel)
  case Nil
  then show ?case by simp
next
  case (Cons e es)
  then obtain k where k: "fuel = Suc k" "3 * length (e # es) + 1 < k" by (cases fuel) auto
  have w: "wf_elem e" "list_all wf_elem es" using Cons.prems by simp_all
  have m: "matcher E P S fuel (Stars str (byte_at P q) n (length S) (Suc q) (length P) flags) =
      gmatch_stars E P S (matcher E P S k) str (byte_at P q) n (length S) (Suc q) (length P) flags"
    by (simp add: k match_step_def)
  have go: "stars_go E P S k flags str c j (Suc q) = gives (glob_match E (Star # es) (drop j S))"
    if "e = Any \<or> e = Star" "c = CHR ''?'' \<or> c = CHR ''*''" "n \<le> j" "j \<le> length S" for c j
  proof (cases "es = []")
    case True
    then have "Suc q = length P" using wild_drop [OF that(1) Cons.prems(1)] text_inside [OF Cons.prems(1) w(1)] by simp
    then show ?thesis using stars_go_end [OF f that(2), of k E P S str j] k True by (simp add: gives_def Star_last del: glob_match.simps)
  next
    case False
    have d: "drop (Suc q) P = glob_text es" "Suc q \<le> length P"
      using wild_drop [OF that(1) Cons.prems(1)] text_inside [OF Cons.prems(1) w(1)] by simp_all
    then have "Suc q \<noteq> length P" using text_empty [OF d w(2)] False by simp
    moreover have "matcher E P S k (Stars str (byte_at P (Suc q)) j (length S) (Suc (Suc q)) (length P) flags) =
        gives (glob_match E (Star # es) (drop j S))"
      using Cons.prems k that False by (intro Cons.IH d w) auto
    ultimately show ?thesis by (simp add: stars_go_def)
  qed
  consider "e = Star" | "e = Any" | "e \<noteq> Star" "e \<noteq> Any" by blast
  then show ?case
  proof cases
    case 1
    then show ?thesis using m gmatch_stars_wild(1) [OF f] wild_text(2) [of q P es] Cons.prems go [of "CHR ''*''" n] Star_Star
      by (simp del: glob_match.simps glob_text_simps)
  next
    case 2
    then show ?thesis
      using m gmatch_stars_wild(2) [OF f z] wild_text(1) [of q P es] Cons.prems go [of "CHR ''?''" "Suc n"] Star_Any [of E es n S]
      by (simp add: gives_def del: glob_match.simps glob_text_simps)
  next
    case 3
    then have c: "byte_at P q \<noteq> CHR ''?'' \<and> byte_at P q \<noteq> CHR ''*''"
      using elem_first [OF w(1)] Cons.prems(1) byte_at_drop0 [of P q] by fastforce
    obtain k' where k': "k = Suc k'" "3 * length (e # es) < k'" using k by (cases k) auto
    have r': "matches_right E P S flags str (length (e # es))"
      using r Cons.prems(5) unfolding matches_right_def by (meson order_trans)
    have "gmatch_stars E P S (matcher E P S k) str (byte_at P q) n (length S) (Suc q) (length P) flags =
        gmatch_rest E P S (matcher E P S k') str (byte_at P q) n (length S) (Suc q) (length P) flags"
      using c by (simp add: gmatch_stars_def k' match_step_def Let_def)
    also have "\<dots> = gives (glob_match E (Star # e # es) (drop n S))"
      using Cons.prems 3 by (intro rest_right f z r' k') auto
    finally show ?thesis using m by simp
  qed
qed

lemma gmatch_right: "plain_flags flags \<Longrightarrow> CHR 0x00 \<notin> set S \<Longrightarrow> matches_right E P S flags str m"
proof (induction m)
  case 0
  show ?case unfolding matches_right_def
  proof (intro allI impI)
    fix es p n fuel
    assume a: "length es \<le> 0" "3 * length es < fuel" "drop p P = glob_text es" "p \<le> length P" "n \<le> length S"
    then obtain k where "fuel = Suc k" "es = []" "p = length P" by (cases fuel) auto
    then show "matcher E P S fuel (Gmatch str n (length S) p (length P) False flags) = outcome E S flags str n es"
      using a GMATCH_end [OF 0(1)] by (auto simp: match_step_def outcome_def gives_def)
  qed
next
  case (Suc m)
  note r = Suc.IH [OF Suc.prems]
  show ?case unfolding matches_right_def
  proof (intro allI impI)
    fix es p n fuel
    assume l: "length es \<le> Suc m" and fuel: "3 * length es < fuel" and d: "drop p P = glob_text es" and p: "p \<le> length P"
      and w: "list_all wf_elem es" and n: "str \<le> n" "n \<le> length S"
    show "matcher E P S fuel (Gmatch str n (length S) p (length P) False flags) = outcome E S flags str n es"
    proof (cases es)
      case Nil
      then show ?thesis using r [unfolded matches_right_def] fuel d p w n by simp
    next
      case (Cons e es')
      have we: "wf_elem e" "list_all wf_elem es'" using w Cons by simp_all
      note dc = d [unfolded Cons]
      note i = text_inside [OF dc we(1)]
      obtain k where k: "fuel = Suc k" "3 * length es' + 2 < k" using fuel Cons by (cases fuel) auto
      show ?thesis
      proof (cases "e = Star")
        case True
        have ds: "drop (Suc p) P = glob_text es'" "Suc p \<le> length P" using wild_drop dc True i by auto
        have b: "byte_at P p = CHR ''*''" using wild_text(2) dc True by simp
        have sc: "(if n < length S then byte_at S n else CHR 0x00) = byte_at S n" by (simp add: byte_at_def)
        have v: "GMATCH E P S (matcher E P S k) str n (length S) p (length P) False flags =
          (if hidden E S flags str n then NoMatch
           else if es' = [] then Match
           else matcher E P S k (Stars str (byte_at P (Suc p)) n (length S) (Suc (Suc p)) (length P) flags))"
          using b i Suc.prems(1) text_empty [OF ds we(2)]
          by (simp add: GMATCH_def FOLD_plain plain_flags_def Let_def sc hidden_def)
        have "matcher E P S k (Stars str (byte_at P (Suc p)) n (length S) (Suc (Suc p)) (length P) flags) =
            gives (glob_match E (Star # es') (drop n S))" if "es' \<noteq> []"
          using l Cons by (intro stars_right [OF Suc.prems r] ds we that n k) simp
        then show ?thesis using v Cons True k Star_last [of E]
          by (auto simp: match_step_def outcome_def gives_def simp del: glob_match.simps)
      next
        case False
        have "matcher E P S k (Gmatch str (Suc n) (length S) (p + length (elem_text e)) (length P) False flags) =
            outcome E S flags str (Suc n) es'" if "n < length S"
          using r [unfolded matches_right_def, rule_format, of es' k "p + length (elem_text e)" "Suc n"] l k n i we drop_elem [OF dc] Cons that
          by simp
        moreover have "outcome E S flags str (Suc n) es' = gives (glob_match E es' (drop (Suc n) S))"
          using hidden_inside [OF Suc.prems(1), of "Suc n" str] n by (simp add: outcome_def)
        ultimately show ?thesis
          using GMATCH_elem [of p P e "glob_text es'" flags S n E "matcher E P S k" str False] dc we False Suc.prems n
            glob_match_elem [OF False, of E es' n S] k Cons
          by (simp add: match_step_def outcome_def gives_def)
      qed
    qed
  qed
qed

lemma glob_text_length: "list_all wf_elem es \<Longrightarrow> length es \<le> length (glob_text es)"
proof (induction es)
  case (Cons e es)
  then show ?case using elem_text_pos [of e] by (simp del: length_greater_0_conv)
qed simp

lemma strmatch_value:
  assumes "list_all wf_elem es" "plain_flags flags" "CHR 0x00 \<notin> set S"
  shows "strmatch E (Some (glob_text es)) (Some S) flags =
    (if es \<noteq> [] \<and> (\<nexists>c. hd es = Lit c) \<and> hidden E S flags 0 0 then NoMatch
     else if glob_match E es S then Match else NoMatch)"
proof -
  let ?P = "glob_text es"
  have "matcher E ?P S (match_fuel ?P S) (Gmatch 0 0 (length S) 0 (length ?P) False flags) = outcome E S flags 0 0 es"
    using gmatch_right [OF assms(2,3), of E ?P 0 "length es", unfolded matches_right_def, rule_format, of es "match_fuel ?P S" 0 0]
      assms(1) glob_text_length [of es] by (simp add: match_fuel_def)
  then show ?thesis by (simp add: strmatch_def internal_strmatch_def outcome_def gives_def)
qed

text \<open>
  C5. Property of \<open>strmatch\<close>, for single-byte patterns of the grammar of \<open>glob_elem\<close> and with none of the flags
  \<open>FNM_PATHNAME\<close>, \<open>FNM_NOESCAPE\<close>, \<open>FNM_LEADING_DIR\<close>, \<open>FNM_CASEFOLD\<close> and \<open>FNM_EXTMATCH\<close> set (\<open>plain_flags\<close>;
  \<open>FNM_PERIOD\<close> and \<open>FNM_DOTDOT\<close> may be): on the text of a pattern, the matcher, which goes back to the last
  \<open>*\<close> at most, decides what the backtracking reference matcher decides, apart from a leading period that
  a first wildcard may not match.
\<close>

theorem strmatch_decides_match:
  assumes "list_all wf_elem es" "plain_flags flags" "CHR 0x00 \<notin> set S"
  shows "strmatch E (Some (glob_text es)) (Some S) flags =
    (if es \<noteq> [] \<and> (\<nexists>c. hd es = Lit c) \<and> hidden E S flags 0 0 then NoMatch
     else if glob_match E es S then Match else NoMatch)"
  using assms by (rule strmatch_value)

text \<open>The POSIX locale, where characters collate by their codes.\<close>

definition C_isclass :: "char_class \<Rightarrow> char \<Rightarrow> bool" where
  "C_isclass k c =
     (let n = ord c; up = (65 \<le> n \<and> n \<le> 90); low = (97 \<le> n \<and> n \<le> 122); dig = (48 \<le> n \<and> n \<le> 57);
          graph = (33 \<le> n \<and> n \<le> 126) in
      case k of
        CC_NO_CLASS \<Rightarrow> False | CC_ASCII \<Rightarrow> n \<le> 127 | CC_ALNUM \<Rightarrow> up \<or> low \<or> dig | CC_ALPHA \<Rightarrow> up \<or> low
      | CC_BLANK \<Rightarrow> n = 32 \<or> n = 9 | CC_CNTRL \<Rightarrow> n < 32 \<or> n = 127 | CC_DIGIT \<Rightarrow> dig | CC_GRAPH \<Rightarrow> graph
      | CC_LOWER \<Rightarrow> low | CC_PRINT \<Rightarrow> graph \<or> n = 32 | CC_PUNCT \<Rightarrow> graph \<and> \<not> (up \<or> low \<or> dig)
      | CC_SPACE \<Rightarrow> n = 32 \<or> 9 \<le> n \<and> n \<le> 13 | CC_UPPER \<Rightarrow> up | CC_WORD \<Rightarrow> up \<or> low \<or> dig \<or> c = CHR ''_''
      | CC_XDIGIT \<Rightarrow> dig \<or> 65 \<le> n \<and> n \<le> 70 \<or> 97 \<le> n \<and> n \<le> 102)"

fun C_strcoll :: "string \<Rightarrow> string \<Rightarrow> int" where
  "C_strcoll [] [] = 0"
| "C_strcoll (c # s) [] = 1"
| "C_strcoll [] (d # t) = -1"
| "C_strcoll (c # s) (d # t) = (if c = d then C_strcoll s t else int (ord c) - int (ord d))"

definition C_locale :: match_env where
  "C_locale = \<lparr>env_isclass = C_isclass, env_tolower = (\<lambda>c. if C_isclass CC_UPPER c then char_of (ord c + 32) else c),
     env_strcoll = C_strcoll, env_equiv_fallback = (\<lambda>_ _. False), env_asciirange = False, env_before = CHR 0x00\<rparr>"

theorem strmatch_decides_match_witness:
  "strmatch C_locale (Some (''*[!a-f[:digit:]]'' @ CHR 0x5C # ''*?c'')) (Some ''.x2z*.c'') FNM_DOTDOT = Match"
proof -
  let ?es = "[Star, Brackets True [Range (CHR ''a'') (CHR ''f''), Class ''digit''], Lit (CHR ''*''), Any, Lit (CHR ''c'')]"
  have t: "glob_text ?es = ''*[!a-f[:digit:]]'' @ CHR 0x5C # ''*?c''"
    by (simp add: glob_text_def elem_text_def items_text_def item_text_def point_text_def lit_text_def quoted_def)
  have w: "list_all wf_elem ?es" by (simp add: wf_elem_def wf_item_def cclass_name_def)
  have f: "plain_flags FNM_DOTDOT" by (simp add: plain_flags_def has_def FNM_defs)
  have h: "\<not> hidden C_locale ''.x2z*.c'' FNM_DOTDOT 0 0"
    by (simp add: hidden_def dot_hidden_def SDOT_OR_DOTDOT_def has_def FNM_defs byte_at_def)
  have m: "glob_match C_locale ?es ''.x2z*.c''"
    by (simp add: item_has_def is_cclass_def is_valid_cclass_def cclass_name_def cclass_test_def C_isclass_def
        rangecmp_def charcmp_def C_locale_def Let_def)
  show ?thesis using strmatch_decides_match [OF w f, of "''.x2z*.c''" C_locale] t h m by simp
qed

end
