(* ===== verification/Bash_GlobText.thy ===== *)
theory Bash_GlobText imports Bash_GlobSem begin

text \<open>
  What the questions about a pattern say about its matches: \<open>umatchlen\<close> of \<open>gm_loop.c\<close> and
  \<open>internal_glob_pattern_p\<close> of \<open>glob_loop.c\<close>; and what becomes of a negated pattern list behind
  a \<open>*\<close> at the end of the string.
\<close>

section \<open>The length of the matches\<close>

definition bl_next :: "brack_state \<Rightarrow> string \<Rightarrow> nat \<Rightarrow> nat + (brack_state \<times> string)" where
  "bl_next st pat n =
     (case pat of [] \<Rightarrow> Inl n | d # u \<Rightarrow> if d = CHR '']'' then Inr (st, u) else brack_len st d u n)"

abbreviation outside :: brack_state where "outside \<equiv> (False, False, False)"

lemma brack_len_next:
  "brack_len_step st c pat n = Inr (st', pat', n') \<Longrightarrow> brack_len st c pat n = bl_next st' pat' n'"
  by (subst brack_len.simps) (simp add: bl_next_def)

lemma brack_len_char:
  "c \<notin> {CHR 0x00, CHR 0x5C, CHR ''[''} \<Longrightarrow> brack_len outside c pat n = bl_next outside pat (n + 1)"
  by (rule brack_len_next) (simp add: brack_len_step_def Let_def)

lemma bl_next_point:
  assumes "x \<noteq> CHR 0x00" "r \<noteq> []"
  shows "\<exists>m. bl_next outside (point_text x @ r) n = bl_next outside r m"
proof (cases "x \<in> set [CHR ''['', CHR '']'', CHR ''-'', CHR ''!'', CHR ''^'', CHR ''.'', CHR 0x5C]")
  case True
  then have t: "point_text x = [CHR 0x5C, x]" by (simp add: point_text_def quoted_def)
  have "brack_len outside (CHR 0x5C) (x # r) n = bl_next outside r (n + 1)"
    using assms by (intro brack_len_next) (cases r; simp add: brack_len_step_def Let_def)
  then show ?thesis by (simp add: t bl_next_def [of outside "CHR 0x5C # x # r"]) blast
next
  case False
  then have t: "point_text x = [x]" by (simp add: point_text_def quoted_def)
  have "brack_len outside x r n = bl_next outside r (n + 1)" using assms False by (intro brack_len_char) auto
  with False show ?thesis by (simp add: t bl_next_def [of outside "x # r"]) blast
qed

lemma bl_next_name:
  "name_chars name \<Longrightarrow> \<exists>m. bl_next (True, False, False) (name @ '':]'' @ r) n = bl_next outside r m"
proof (induction name arbitrary: n)
  case Nil
  have "brack_len (True, False, False) (CHR '':'') (CHR '']'' # r) n = bl_next outside r (n + 1)"
    by (rule brack_len_next) (simp add: brack_len_step_def Let_def)
  then show ?case by (simp add: bl_next_def [of _ "CHR '':'' # CHR '']'' # r"]) blast
next
  case (Cons d t)
  then have "brack_len (True, False, False) d (t @ '':]'' @ r) n = bl_next (True, False, False) (t @ '':]'' @ r) (n + 1)"
    by (intro brack_len_next) (simp add: brack_len_step_def Let_def)
  with Cons show ?case by (simp add: bl_next_def [of _ "d # t @ CHR '':'' # CHR '']'' # r"])
qed

lemma bl_next_item:
  assumes w: "wf_item i" and r: "r \<noteq> []"
  shows "\<exists>m. bl_next outside (item_text i @ r) n = bl_next outside r m"
proof (cases i)
  case (One x)
  with assms bl_next_point [of x r n] show ?thesis by (simp add: item_text_def wf_item_def)
next
  case (Range a b)
  with w have z: "a \<noteq> CHR 0x00" "b \<noteq> CHR 0x00" and t: "item_text i @ r = point_text a @ CHR ''-'' # point_text b @ r"
    by (simp_all add: item_text_def wf_item_def)
  obtain m where m: "bl_next outside (item_text i @ r) n = bl_next outside (CHR ''-'' # point_text b @ r) m"
    using bl_next_point [OF z(1), of "CHR ''-'' # point_text b @ r" n] t by auto
  have "bl_next outside (CHR ''-'' # point_text b @ r) m = bl_next outside (point_text b @ r) (m + 1)"
    using brack_len_char [of "CHR ''-''"] by (simp add: bl_next_def [of _ "CHR ''-'' # point_text b @ r"])
  with m bl_next_point [OF z(2) r, of "m + 1"] show ?thesis by simp
next
  case (Class name)
  with w have nc: "name_chars name" using class_names by (simp add: wf_item_def)
  have "brack_len outside (CHR ''['') (CHR '':'' # name @ '':]'' @ r) n = bl_next (True, False, False) (name @ '':]'' @ r) (n + 1)"
    by (rule brack_len_next) (simp add: brack_len_step_def Let_def)
  with bl_next_name [OF nc, of r "n + 1"] Class show ?thesis
    by (simp add: item_text_def bl_next_def [of _ "CHR ''['' # CHR '':'' # name @ CHR '':'' # CHR '']'' # r"])
qed

lemma bl_next_items: "list_all wf_item is \<Longrightarrow> bl_next outside (items_text is @ CHR '']'' # r) n = Inr (outside, r)"
proof (induction "is" arbitrary: n)
  case Nil
  then show ?case by (simp add: bl_next_def)
next
  case (Cons i "is")
  then show ?case using bl_next_item [of i "items_text is @ CHR '']'' # r" n] by auto
qed

lemma brack_len_items:
  assumes w: "list_all wf_item is" "is \<noteq> []" and t: "(if neg then ''!'' else []) @ items_text is @ CHR '']'' # r = x # u"
  shows "brack_len outside x u n = Inr (outside, r)"
proof (cases neg)
  case True
  then have "x = CHR ''!''" "u = items_text is @ CHR '']'' # r" using t by simp_all
  then show ?thesis using brack_len_char [of "CHR ''!''"] bl_next_items [OF w(1)] by simp
next
  case False
  obtain i js y v where "is = i # js" "item_text i = y # v" "y \<noteq> CHR '']''"
    using w item_text_hd by (cases "is") force+
  then have "x \<noteq> CHR '']''" using t False by simp
  then show ?thesis using bl_next_items [OF w(1), of r n] t False by (simp add: bl_next_def)
qed

lemma matchlen_elem:
  assumes w: "wf_elem e" and m: "matchlen_loop outside (elem_text e @ r) n = Some k"
  shows "e \<noteq> Star \<and> matchlen_loop outside r (n + 1) = Some k"
proof (cases e)
  case (Lit c)
  then show ?thesis using m w
    by (auto simp: elem_text_def lit_text_def quoted_def wf_elem_def split: if_splits)
next
  case (Brackets neg "is")
  define v where "v = (if neg then ''!'' else []) @ items_text is @ CHR '']'' # r"
  obtain x u where v: "v = x # u" by (cases v) (auto simp: v_def)
  have "elem_text e @ r = CHR ''['' # x # u" using Brackets v by (simp add: elem_text_def v_def)
  moreover have "brack_len outside x u 1 = Inr (outside, r)"
    using w Brackets v by (intro brack_len_items) (auto simp: wf_elem_def v_def)
  ultimately show ?thesis using m Brackets by (simp split: if_splits)
qed (use m in \<open>auto simp: elem_text_def split: if_splits\<close>)

lemma matchlen_elems:
  "list_all wf_elem es \<Longrightarrow> matchlen_loop outside (glob_text es) n = Some k \<Longrightarrow> Star \<notin> set es \<and> k = n + length es"
proof (induction es arbitrary: n)
  case (Cons e es)
  then have "e \<noteq> Star" "matchlen_loop outside (glob_text es) (n + 1) = Some k"
    using matchlen_elem [of e "glob_text es" n k] by simp_all
  with Cons show ?case by fastforce
qed simp

lemma glob_match_length: "Star \<notin> set es \<Longrightarrow> glob_match E es s \<Longrightarrow> length s = length es"
proof (induction es arbitrary: s)
  case (Cons e es)
  then obtain d t where "s = d # t" "glob_match E es t" by (cases e; cases s) auto
  with Cons show ?case by simp
qed simp

text \<open>
  Property of \<open>umatchlen\<close> and \<open>strmatch\<close>: when the length of the matches of a pattern is announced,
  every string the pattern matches has this length.
\<close>

theorem umatchlen_exact:
  assumes "list_all wf_elem es" "plain_flags flags" "CHR 0x00 \<notin> set S"
    and "umatchlen (glob_text es) = Some n" "strmatch E (Some (glob_text es)) (Some S) flags = Match"
  shows "length S = n"
proof -
  have "glob_match E es S" using assms(5) strmatch_value [OF assms(1-3), of E] by (auto split: if_splits)
  moreover have "Star \<notin> set es \<and> n = length es" using matchlen_elems [OF assms(1), of 0 n] assms(4) by (simp add: umatchlen_def)
  ultimately show ?thesis using glob_match_length by simp
qed

text \<open>An announced length, of a pattern with a bracket expression.\<close>

theorem umatchlen_exact_witness:
  "umatchlen (''x[!'' @ CHR 0x5C # '']a-c[:digit:]]?'') = Some (length ''xd.'')"
proof -
  let ?es = "[Lit (CHR ''x''), Brackets True [One (CHR '']''), Range (CHR ''a'') (CHR ''c''), Class ''digit''], Any]"
  have t: "glob_text ?es = ''x[!'' @ CHR 0x5C # '']a-c[:digit:]]?''"
    by (simp add: glob_text_def elem_text_def items_text_def item_text_def point_text_def lit_text_def quoted_def)
  have w: "list_all wf_elem ?es" by (simp add: wf_elem_def wf_item_def cclass_name_def)
  have f: "plain_flags 0" by (simp add: plain_flags_def has_def)
  have u: "umatchlen (glob_text ?es) = Some 3"
    unfolding t by (simp add: umatchlen_def brack_len.simps brack_len_step_def byte_at_def)
  have m: "strmatch C_locale (Some (glob_text ?es)) (Some ''xd.'') 0 = Match"
    using strmatch_value [OF w f, of "''xd.''" C_locale]
    by (simp add: item_has_def is_cclass_def is_valid_cclass_def cclass_name_def cclass_test_def C_isclass_def
        rangecmp_def charcmp_def C_locale_def Let_def)
  show ?thesis using umatchlen_exact [OF w f _ u m] u t by simp
qed


section \<open>Patterns without anything special\<close>

fun no_bracket :: "string \<Rightarrow> bool" where
  "no_bracket [] = True"
| "no_bracket (c # t) =
     (if c = CHR 0x5C then (case t of [] \<Rightarrow> False | _ # u \<Rightarrow> no_bracket u) else c \<noteq> CHR ''['' \<and> no_bracket t)"

lemma matcher_literal:
  assumes f: "\<not> has flags FNM_NOESCAPE" "\<not> has flags FNM_CASEFOLD" "\<not> has flags FNM_LEADING_DIR" and z: "CHR 0x00 \<notin> set S"
  shows "\<not> glob_pattern_loop R b \<Longrightarrow> no_bracket R \<Longrightarrow> drop p P = R \<Longrightarrow> p \<le> length P \<Longrightarrow> CHR 0x00 \<notin> set P \<Longrightarrow> n \<le> length S \<Longrightarrow>
    length R < fuel \<Longrightarrow>
    matcher E P S fuel (Gmatch str n (length S) p (length P) False flags) = gives (drop n S = udequote_pathname R)"
proof (induction "length R" arbitrary: R b p n fuel rule: less_induct)
  case less
  note IH = less(1) and pr = less(2-)
  obtain k where k: "fuel = Suc k" using pr(7) by (cases fuel) auto
  show ?case
  proof (cases R)
    case Nil
    with pr f k show ?thesis by (auto simp: match_step_def GMATCH_def gives_def)
  next
    case (Cons c Q)
    note pr = pr [unfolded Cons]
    have kl: "length Q < k" using pr(7) k by simp
    have p: "p < length P" using pr(3) by (cases "p < length P") simp_all
    have b0: "byte_at P p = c" and b1: "byte_at P (Suc p) = byte_at Q 0"
      using byte_at_drop [of P p 0] byte_at_drop [of P p 1] pr(3) by simp_all
    have FOLD: "FOLD E flags x = x" for x using f by (simp add: FOLD_def)
    have sd: "drop n S = S ! n # drop (Suc n) S" "S ! n \<noteq> CHR 0x00" if "n < length S"
      using that z nth_mem [OF that] by (simp add: Cons_nth_drop_Suc, metis)
    note dQ = drop_Suc_eq [OF pr(3)]
    have c: "c \<noteq> CHR 0x00" using pr(3,5) by (metis in_set_dropD list.set_intros(1))
    show ?thesis
    proof (cases "c = CHR 0x5C")
      case True
      then obtain d u where R: "Q = d # u" and h: "\<not> glob_pattern_loop u b" "no_bracket u"
        using pr(1,2) by (cases Q) auto
      have d: "d \<noteq> CHR 0x00" using pr(3,5) R by (metis in_set_dropD list.set_intros)
      have q: "drop (p + 2) P = u" using drop_append_eq [of p P "[c, d]" u] pr(3) R by simp
      have l: "p + 2 \<le> length P" using arg_cong [OF pr(3), of length] R by simp
      have "matcher E P S k (Gmatch str (Suc n) (length S) (p + 2) (length P) False flags) = gives (drop (Suc n) S = udequote_pathname u)"
        if "n < length S"
        using True R h q l that pr(5) kl Cons by (intro IH) auto
      then show ?thesis
        using True R b0 b1 d p l sd FOLD f pr(6) k Cons
        by (cases "n < length S") (auto simp: match_step_def GMATCH_def Let_def gives_def byte_at_def ext_char_def)
    next
      case False
      then have h: "\<not> glob_pattern_loop Q b" "no_bracket Q" and s: "c \<notin> {CHR ''?'', CHR ''*'', CHR ''[''}"
        and x: "\<not> (c \<in> set ''+@!'' \<and> byte_at Q 0 = CHR ''('')"
        using pr(1,2) by (auto split: if_splits)
      have "matcher E P S k (Gmatch str (Suc n) (length S) (Suc p) (length P) False flags) = gives (drop (Suc n) S = udequote_pathname Q)"
        if "n < length S"
        using False h s x dQ p that pr(5) kl Cons by (intro IH) auto
      then show ?thesis
        using False s x b0 b1 c p sd FOLD f pr(6) k Cons
        by (cases "n < length S") (auto simp: match_step_def GMATCH_def Let_def gives_def byte_at_def ext_char_def)
    qed
  qed
qed

text \<open>
  C20. Property of \<open>strmatch\<close>, \<open>internal_glob_pattern_p\<close> and \<open>udequote_pathname\<close>: a pattern in which the scan
  finds nothing special, with no bracket left open and no backslash at its end, matches just the
  string that removing its escapes yields; extended patterns may be on and wildcards restricted.
\<close>

theorem literal_pattern_matches_itself:
  assumes "\<not> internal_glob_pattern_p P" "no_bracket P" "CHR 0x00 \<notin> set P" "CHR 0x00 \<notin> set S"
    and "\<not> has flags FNM_NOESCAPE" "\<not> has flags FNM_CASEFOLD" "\<not> has flags FNM_LEADING_DIR"
  shows "strmatch E (Some P) (Some S) flags = (if S = udequote_pathname P then Match else NoMatch)"
  using matcher_literal [OF assms(5-7,4), of P 0 0 P 0 "match_fuel P S" E 0] assms(1-3)
  by (simp add: strmatch_def internal_strmatch_def internal_glob_pattern_p_def gives_def match_fuel_def)

theorem literal_pattern_matches_itself_witness:
  "strmatch C_locale (Some (''a'' @ CHR 0x5C # ''*]+b'')) (Some ''a*]+b'') (FNM_EXTMATCH OR FNM_PATHNAME) = Match"
  using literal_pattern_matches_itself [of "''a'' @ CHR 0x5C # ''*]+b''" "''a*]+b''" "FNM_EXTMATCH OR FNM_PATHNAME" C_locale]
  by (simp add: internal_glob_pattern_p_def has_def FNM_defs)


section \<open>A negated list at the end of the string\<close>

text \<open>
  Behind a \<open>*\<close>, \<open>!(list)\<close> at the end of the string is given to \<open>EXTMATCH\<close> with the pointer at the
  \<open>!\<close> instead of the parenthesis: the scan for the end of the list finds none.
\<close>

definition plain_char :: "char \<Rightarrow> bool" where
  "plain_char c \<longleftrightarrow> c \<notin> set [CHR 0x00, CHR 0x5C, CHR ''['', CHR '']'', CHR ''('', CHR '')'', CHR ''|'']"

lemma patscan_plain:
  "drop s P = u @ r \<Longrightarrow> list_all plain_char u \<Longrightarrow> s + length u \<le> pe \<Longrightarrow>
   patscan_loop P pe (CHR 0x00) s (pn, 0, False, CHR 0x00, b) = patscan_loop P pe (CHR 0x00) (s + length u) (pn, 0, False, CHR 0x00, b)"
proof (induction u arbitrary: s)
  case (Cons c u)
  have "byte_at P s = c" using Cons.prems(1) byte_at_drop0 [of P s] by simp
  then have "patscan_step P pe (CHR 0x00) s (pn, 0, False, CHR 0x00, b) = Inr (pn, 0, False, CHR 0x00, b)"
    using Cons.prems by (auto simp: patscan_step_def Let_def plain_char_def)
  then have "patscan_loop P pe (CHR 0x00) s (pn, 0, False, CHR 0x00, b) = patscan_loop P pe (CHR 0x00) (Suc s) (pn, 0, False, CHR 0x00, b)"
    by (simp add: patscan_loop.simps [of P pe "CHR 0x00" s])
  also have "\<dots> = patscan_loop P pe (CHR 0x00) (Suc s + length u) (pn, 0, False, CHR 0x00, b)"
    using Cons.prems drop_Suc_eq [of s P c "u @ r"] by (intro Cons.IH) auto
  finally show ?case by simp
qed simp

lemma PATSCAN_before_list:
  assumes u: "list_all plain_char u" and v: "list_all plain_char v" and P: "P = w @ CHR ''!'' # CHR ''('' # u @ CHR '')'' # v"
  shows "PATSCAN P (length w) (length P) (CHR 0x00) = None"
proof -
  let ?q = "length w" and ?z = "CHR 0x00"
  let ?l = "\<lambda>s pn. patscan_loop P (length P) ?z s (pn, 0, False, ?z, None)"
  have d0: "drop ?q P = CHR ''!'' # CHR ''('' # u @ CHR '')'' # v" using P by simp
  have d1: "drop (?q + 1) P = CHR ''('' # u @ CHR '')'' # v" using drop_append_eq [of ?q P "''!''"] d0 by simp
  have d2: "drop (?q + 2) P = u @ CHR '')'' # v" using drop_append_eq [of ?q P "''!(''"] d0 by simp
  note d3 = drop_append_eq [OF d2]
  have d4: "drop (?q + 3 + length u) P = v"
    using drop_append_eq [of "?q + 2 + length u" P "'')''" v] d3 by (simp add: numeral_eq_Suc)
  have s0: "?l ?q 0 = ?l (?q + 1) 0"
    using byte_at_drop0 [of P ?q] d0 P by (subst patscan_loop.simps) (simp add: patscan_step_def)
  have s1: "?l (?q + 1) 0 = ?l (?q + 2) 1"
    using byte_at_drop0 [of P "?q + 1"] d1 P by (subst patscan_loop.simps) (simp add: patscan_step_def)
  have s2: "?l (?q + 2) 1 = ?l (?q + 2 + length u) 1"
    using P by (intro patscan_plain [OF d2 u]) simp
  have s3: "?l (?q + 2 + length u) 1 = ?l (?q + 3 + length u) 0"
    using byte_at_drop0 [of P "?q + 2 + length u"] d3 P by (subst patscan_loop.simps) (simp add: patscan_step_def numeral_eq_Suc)
  have s4: "?l (?q + 3 + length u) 0 = ?l (length P) 0"
    using patscan_plain [OF _ v, of "?q + 3 + length u" P "[]" "length P" 0 None] d4 P by (simp add: numeral_eq_Suc add.assoc)
  have "?l (length P) 0 = None"
    by (subst patscan_loop.simps) (simp add: patscan_step_def byte_at_def)
  then show ?thesis using s0 s1 s2 s3 s4 P by (simp add: PATSCAN_def)
qed

text \<open>
  C21. Property of \<open>strmatch\<close>: a pattern of a \<open>*\<close>, a negated list of one plain alternative and any plain rest
  matches the empty string, whatever the rest asks for.
\<close>

theorem star_negation_matches_empty:
  assumes "list_all plain_char u" "list_all plain_char v"
  shows "strmatch E (Some (''*!('' @ u @ '')'' @ v)) (Some []) FNM_EXTMATCH = Match"
proof -
  let ?P = "''*!('' @ u @ '')'' @ v"
  have n: "PATSCAN ?P 1 (length ?P) (CHR 0x00) = None"
    using PATSCAN_before_list [OF assms(1,2), of _ "''*''"] by simp
  have f: "has FNM_EXTMATCH FNM_EXTMATCH" "\<not> has FNM_EXTMATCH FNM_CASEFOLD" "\<not> has FNM_EXTMATCH FNM_PATHNAME"
      "\<not> has FNM_EXTMATCH FNM_PERIOD" "\<not> has FNM_EXTMATCH FNM_DOTDOT"
    by (simp_all add: has_def FNM_defs)
  have c: "\<not> STRCOMPARE E ?P 0 (length ?P) [] 0 0" by (simp add: STRCOMPARE_def)
  obtain k where "match_fuel ?P [] = Suc (Suc (Suc (Suc k)))" by (simp add: match_fuel_def numeral_eq_Suc)
  then show ?thesis using n c f
    by (simp add: strmatch_def internal_strmatch_def match_step_def GMATCH_def gmatch_stars_def gmatch_rest_def EXTMATCH_def
        Let_def dot_hidden_def ext_char_def FOLD_def STRCOMPARE_def)
qed

theorem star_negation_matches_empty_witness: "strmatch C_locale (Some ''*!(x)foo'') (Some []) FNM_EXTMATCH = Match"
  using star_negation_matches_empty [of "''x''" "''foo''" C_locale] by (simp add: plain_char_def)

end
