(* ===== verification/Bash_Brace.thy ===== *)
theory Bash_Brace imports Bash_Arith begin

text \<open>
  Brace expansion of bash (\<open>src/khsl/bash/bash-5.2/braces.c\<close>): the scan for a brace that begins an
  expansion, the alternatives, the sequences of numbers and letters. A string array is a list; an
  index at the end of a text reads the zero byte. What the functions call elsewhere is the record
  \<open>brace_ops\<close>: the locale and how far \<open>extract_command_subst\<close> of \<open>subst.c\<close> reads. Interrupts
  and failing allocations are not modelled.
\<close>

section \<open>Numbers in text\<close>

definition isspace :: "char \<Rightarrow> bool" where "isspace c \<longleftrightarrow> c = CHR '' '' \<or> 9 \<le> ord c \<and> ord c \<le> 13"

text \<open>\<open>strtoimax\<close> in base 10: the value, the place where it stops and whether it was out of range.\<close>

definition strtoimax :: "string \<Rightarrow> intmax \<times> nat \<times> bool" where
  "strtoimax s =
     (let w = length (takeWhile isspace s);
          k = (if byte_at s w = CHR ''-'' \<or> byte_at s w = CHR ''+'' then w + 1 else w);
          ds = takeWhile DIGIT (drop k s);
          m = int (undigits 0 (map (\<lambda>c. ord c - 48) ds));
          v = (if byte_at s w = CHR ''-'' then - m else m)
      in if ds = [] then (0, 0, False)
         else if v < - (2 ^ 63) then (INTMAX_MIN, k + length ds, True)
         else if 2 ^ 63 \<le> v then (INTMAX_MIN - 1, k + length ds, True)
         else (word_of_int v, k + length ds, False))"

text \<open>\<open>legal_number\<close> of \<open>general.c\<close>.\<close>

definition legal_number :: "string \<Rightarrow> intmax option" where
  "legal_number s =
     (case strtoimax s of (value, ep, erange) \<Rightarrow>
        if erange \<or> ep = 0 then None
        else if s \<noteq> [] \<and> dropWhile whitespace (drop ep s) = [] then Some value else None)"

definition INTMAX_MAX :: intmax where "INTMAX_MAX = 0x7FFFFFFFFFFFFFFF"
definition INT_MAX :: intmax where "INT_MAX = 0x7FFFFFFF"

definition ADDOVERFLOW :: "intmax \<Rightarrow> intmax \<Rightarrow> intmax \<Rightarrow> intmax \<Rightarrow> bool" where
  "ADDOVERFLOW a b minv maxv \<longleftrightarrow> 0 <s a \<and> maxv - a <s b \<or> a <s 0 \<and> b <s minv - a"

definition SUBOVERFLOW :: "intmax \<Rightarrow> intmax \<Rightarrow> intmax \<Rightarrow> intmax \<Rightarrow> bool" where
  "SUBOVERFLOW a b minv maxv \<longleftrightarrow> 0 <s b \<and> a <s minv + b \<or> b <s 0 \<and> maxv + b <s a"

definition sh_imaxabs :: "intmax \<Rightarrow> intmax" where "sh_imaxabs x = (if x <s 0 then - x else x)"


section \<open>Sequences\<close>

datatype st_type = ST_BAD | ST_INT | ST_CHAR | ST_ZINT

text \<open>\<open>printf\<close> with \<open>%0*d\<close>: zeros behind the sign up to the width.\<close>

definition zero_padded :: "nat \<Rightarrow> int \<Rightarrow> string" where
  "zero_padded width i =
     (let ds = dec_of_nat (nat \<bar>i\<bar>); sign = (if i < 0 then ''-'' else []) in
      sign @ replicate (width - length sign - length ds) (CHR ''0'') @ ds)"

definition seq_text :: "st_type \<Rightarrow> nat \<Rightarrow> intmax \<Rightarrow> string" where
  "seq_text type width n =
     (case type of
        ST_INT \<Rightarrow> (case itos n of Some t \<Rightarrow> t | None \<Rightarrow> [])
      | ST_ZINT \<Rightarrow> zero_padded width (sint (ucast n :: u32))
      | _ \<Rightarrow> [char_of (unat n mod 256)])"

text \<open>
  The loop of \<open>mkseq\<close>, with the room that is left in the array, the end marker included; \<open>None\<close> is
  a store behind it.
\<close>

primrec seq_loop :: "nat \<Rightarrow> (intmax \<Rightarrow> string) \<Rightarrow> intmax \<Rightarrow> intmax \<Rightarrow> intmax \<Rightarrow> string list option" where
  "seq_loop 0 elem n end incr = None"
| "seq_loop (Suc room) elem n end incr =
     (if ADDOVERFLOW n incr INTMAX_MIN INTMAX_MAX \<or> incr <s 0 \<and> n + incr <s end \<or> 0 <s incr \<and> end <s n + incr
      then (if room = 0 then None else Some [elem n])
      else map_option (Cons (elem n)) (seq_loop room elem (n + incr) end incr))"

text \<open>\<open>NoSeq\<close> is the NULL pointer, \<open>Overrun\<close> the store outside the array.\<close>

datatype seq_result = NoSeq | Seq "string list" | Overrun

definition mkseq_incr :: "intmax \<Rightarrow> intmax \<Rightarrow> intmax \<Rightarrow> intmax option" where
  "mkseq_incr start end incr0 =
     (let incr = (if incr0 = 0 then 1 else incr0) in
      if end <s start \<and> 0 <s incr then Some (- incr)
      else if start <s end \<and> incr <s 0 then (if incr = INTMAX_MIN then None else Some (- incr))
      else Some incr)"

text \<open>
  The number of elements is an \<open>int\<close>: \<open>nelem + 1\<close> is \<open>slots\<close>. A negative one asks \<open>malloc\<close> for
  more than the address space.
\<close>

definition mkseq :: "intmax \<Rightarrow> intmax \<Rightarrow> intmax \<Rightarrow> st_type \<Rightarrow> nat \<Rightarrow> seq_result" where
  "mkseq start end incr0 type width =
     (case mkseq_incr start end incr0 of
        None \<Rightarrow> NoSeq
      | Some incr \<Rightarrow>
          if SUBOVERFLOW end start (INTMAX_MIN + 3) (INTMAX_MAX - 2) then NoSeq
          else
            let prevn = sh_imaxabs (end - start);
                steps = (word_of_int (sint prevn sdiv sint (sh_imaxabs incr)) :: intmax)
            in if ADDOVERFLOW steps 1 INTMAX_MIN INTMAX_MAX then NoSeq
               else if INT_MAX - 3 <s steps then NoSeq
               else
                 let slots = sint (ucast (steps + 1) + 1 :: u32) in
                 if slots < 0 then NoSeq
                 else (case seq_loop (nat slots) (seq_text type width) start end incr of
                         None \<Rightarrow> Overrun | Some l \<Rightarrow> Seq l))"

text \<open>The first place of \<open>BRACE_SEQ_SPECIFIER\<close>.\<close>

definition find_dots :: "string \<Rightarrow> nat option" where
  "find_dots text = find (\<lambda>i. byte_at text i = CHR ''.'' \<and> byte_at text (i + 1) = CHR ''.'') [0..<length text]"

text \<open>The right side: its type, its value, and where it ends.\<close>

definition seq_rhs :: "string \<Rightarrow> st_type \<times> intmax \<times> nat" where
  "seq_rhs rhs =
     (let c = byte_at rhs 0; c1 = byte_at rhs 1 in
      if DIGIT c \<or> (c = CHR ''+'' \<or> c = CHR ''-'') \<and> DIGIT c1 then
        (case strtoimax rhs of (tr, ep, erange) \<Rightarrow>
           (if erange \<or> byte_at rhs ep \<noteq> CHR 0x00 \<and> byte_at rhs ep \<noteq> CHR ''.'' then ST_BAD else ST_INT, tr, ep))
      else if ISALPHA c \<and> (c1 = CHR 0x00 \<or> c1 = CHR ''.'') then (ST_CHAR, 0, 1)
      else (ST_BAD, 0, 0))"

text \<open>The increment behind it: whether it is valid, its value, and where it ends.\<close>

definition seq_incr :: "string \<Rightarrow> nat \<Rightarrow> bool \<times> intmax \<times> nat" where
  "seq_incr rhs ep =
     (let (incr, ep', erange) =
        (if byte_at rhs ep = CHR ''.'' \<and> byte_at rhs (ep + 1) = CHR ''.'' \<and> byte_at rhs (ep + 2) \<noteq> CHR 0x00
         then (case strtoimax (drop (ep + 2) rhs) of (v, k, erange) \<Rightarrow> (v, ep + 2 + k, erange))
         else (1, ep, False))
      in (byte_at rhs ep' = CHR 0x00 \<and> \<not> erange, incr, ep'))"

text \<open>Whether numbers are padded with zeros, and to which width.\<close>

definition seq_width :: "string \<Rightarrow> string \<Rightarrow> nat \<Rightarrow> st_type \<times> nat" where
  "seq_width lhs rhs rhs_l =
     (let lhs_l = length lhs;
          a = (1 < lhs_l \<and> byte_at lhs 0 = CHR ''0'' \<or> 2 < lhs_l \<and> byte_at lhs 0 = CHR ''-'' \<and> byte_at lhs 1 = CHR ''0'');
          w = (if a then lhs_l else 0);
          b = (1 < rhs_l \<and> byte_at rhs 0 = CHR ''0'' \<and> w < rhs_l);
          w = (if b then rhs_l else w);
          b' = (2 < rhs_l \<and> byte_at rhs 0 = CHR ''-'' \<and> byte_at rhs 1 = CHR ''0'' \<and> w < rhs_l);
          w = (if b' then rhs_l else w)
      in if a \<or> b \<or> b' then (ST_ZINT, max w (max lhs_l rhs_l)) else (ST_INT, w))"

definition expand_seqterm :: "string \<Rightarrow> seq_result" where
  "expand_seqterm text =
     (case find_dots text of
        None \<Rightarrow> NoSeq
      | Some lhs_l \<Rightarrow>
          let lhs = take lhs_l text; rhs = drop (lhs_l + 2) text in
          if lhs = [] \<or> rhs = [] then NoSeq
          else
            let lhs_t = (case legal_number lhs of Some _ \<Rightarrow> ST_INT
                 | None \<Rightarrow> if ISALPHA (byte_at lhs 0) \<and> byte_at lhs 1 = CHR 0x00 then ST_CHAR else ST_BAD);
                (rhs_t, tr, ep) = seq_rhs rhs;
                (valid, incr, ep') = seq_incr rhs ep
            in if rhs_t = ST_BAD \<or> \<not> valid \<or> lhs_t \<noteq> rhs_t then NoSeq
               else if lhs_t = ST_CHAR then
                 mkseq (word_of_nat (ord (byte_at lhs 0))) (word_of_nat (ord (byte_at rhs 0))) incr ST_CHAR 1
               else
                 (case seq_width lhs rhs (length text - (ep' - ep) - lhs_l - 2) of (type, width) \<Rightarrow>
                    mkseq (the (legal_number lhs)) tr incr type width))"


section \<open>The scan\<close>

text \<open>
  \<open>comsub_len text i\<close>: how far the place of the closing parenthesis of a command substitution, in
  the text, is behind \<open>i\<close>. When there is none \<open>extract_command_subst\<close> jumps out of the expansion,
  which is not modelled.
\<close>

record brace_ops =
  br_locale :: locale_ops
  comsub_len :: "string \<Rightarrow> nat \<Rightarrow> nat"

definition ADVANCE_CHAR :: "brace_ops \<Rightarrow> string \<Rightarrow> nat \<Rightarrow> nat" where
  "ADVANCE_CHAR B text i = (if i < length text then i + char_len (br_locale B) (drop i text) else i + 1)"

definition brace_whitespace :: "char \<Rightarrow> bool" where
  "brace_whitespace c \<longleftrightarrow> c = CHR 0x00 \<or> c = CHR '' '' \<or> c = CHR 0x09 \<or> c = CHR 0x0A"

text \<open>
  The variables of \<open>brace_gobbler\<close>: \<open>level\<close>, \<open>quoted\<close> (a quote or the zero byte), \<open>commas\<close>,
  \<open>pass_next\<close>. A round stops with the character found or goes on at another place.
\<close>

type_synonym gobble_state = "nat \<times> char \<times> nat \<times> bool"

definition not_an_opening :: "string \<Rightarrow> char \<Rightarrow> nat \<Rightarrow> bool" where
  "not_an_opening text c i \<longleftrightarrow>
     c = CHR ''{'' \<and> (i = 0 \<or> brace_whitespace (byte_at text (i - 1))) \<and>
     (brace_whitespace (byte_at text (i + 1)) \<or> byte_at text (i + 1) = CHR ''}'')"

definition gobble_count :: "string \<Rightarrow> char \<Rightarrow> char \<Rightarrow> nat \<Rightarrow> nat \<Rightarrow> nat \<Rightarrow> nat \<times> nat" where
  "gobble_count text satisfy c i level commas =
     (if c = CHR ''{'' then (level + 1, commas)
      else if c = CHR ''}'' \<and> 0 < level then (level - 1, commas)
      else if satisfy = CHR ''}'' \<and> c = CHR '','' \<and> level = 0 then (level, commas + 1)
      else if satisfy = CHR ''}'' \<and> byte_at text i = CHR ''.'' \<and> byte_at text (i + 1) = CHR ''.'' \<and>
        byte_at text (i + 2) \<noteq> satisfy \<and> level = 0 then (level, commas + 1)
      else (level, commas))"

definition gobble_step :: "brace_ops \<Rightarrow> string \<Rightarrow> char \<Rightarrow> nat \<Rightarrow> gobble_state \<Rightarrow> char + (nat \<times> gobble_state)" where
  "gobble_step B text satisfy i st =
     (case st of (level, quoted, commas, pass_next) \<Rightarrow>
      let c = byte_at text i; d = byte_at text (i + 1); adv = ADVANCE_CHAR B text i;
          comsub = (\<lambda>quoted. Inr (i + 2 + comsub_len B text (i + 2) + 1, level, quoted, commas, False)) in
      if c = CHR 0x00 then Inl c
      else if pass_next then Inr (adv, level, quoted, commas, False)
      else if c = CHR 0x5C \<and> (quoted = CHR 0x00 \<or> quoted = CHR 0x22 \<or> quoted = CHR 0x60) then
        Inr (i + 1, level, quoted, commas, True)
      else if c = CHR ''$'' \<and> d = CHR ''{'' \<and> quoted \<noteq> CHR 0x27 then
        Inr (i + 1, if quoted = CHR 0x00 then level + 1 else level, quoted, commas, True)
      else if quoted \<noteq> CHR 0x00 then
        (let quoted = (if c = quoted then CHR 0x00 else quoted) in
         if quoted = CHR 0x22 \<and> c = CHR ''$'' \<and> d = CHR ''('' then comsub quoted
         else Inr (adv, level, quoted, commas, False))
      else if c = CHR 0x22 \<or> c = CHR 0x27 \<or> c = CHR 0x60 then Inr (i + 1, level, c, commas, False)
      else if (c = CHR ''$'' \<or> c = CHR ''<'' \<or> c = CHR ''>'') \<and> d = CHR ''('' then comsub quoted
      else if c = satisfy \<and> level = 0 \<and> 0 < commas then
        (if not_an_opening text c i then Inr (i + 1, level, quoted, commas, False) else Inl c)
      else
        (case gobble_count text satisfy c i level commas of (level, commas) \<Rightarrow>
           Inr (adv, level, quoted, commas, False)))"

lemma ADVANCE_CHAR_gt: "i < ADVANCE_CHAR B text i"
  by (simp add: ADVANCE_CHAR_def char_len_pos)

lemma inside_text: "byte_at text i \<noteq> CHR 0x00 \<Longrightarrow> i < length text"
  by (auto simp: byte_at_def split: if_splits)

lemma gobble_step_moves: "gobble_step B text satisfy i st = Inr (i', st') \<Longrightarrow> i < i' \<and> i < length text"
  using ADVANCE_CHAR_gt [of i B "text"]
  by (cases st) (auto simp: gobble_step_def Let_def intro: inside_text split: if_splits prod.splits)

function gobble_loop :: "brace_ops \<Rightarrow> string \<Rightarrow> char \<Rightarrow> nat \<Rightarrow> gobble_state \<Rightarrow> char \<times> nat" where
  "gobble_loop B text satisfy i st =
     (case gobble_step B text satisfy i st of
        Inl c \<Rightarrow> (c, i)
      | Inr (i, st) \<Rightarrow> gobble_loop B text satisfy i st)"
  by pat_completeness auto
termination
  by (relation "measure (\<lambda>(B, text, satisfy, i, st). length text - i)")
    (auto intro!: diff_less_mono2 dest: gobble_step_moves)

declare gobble_loop.simps [simp del]

definition brace_gobbler :: "brace_ops \<Rightarrow> string \<Rightarrow> nat \<Rightarrow> char \<Rightarrow> char \<times> nat" where
  "brace_gobbler B text i satisfy =
     gobble_loop B text satisfy i (0, CHR 0x00, if satisfy = CHR ''}'' then 0 else 1, False)"

lemma gobble_step_Inl: "gobble_step B text satisfy i st = Inl c \<Longrightarrow> c = byte_at text i \<and> (c = CHR 0x00 \<or> c = satisfy)"
  by (cases st) (auto simp: gobble_step_def Let_def split: if_splits prod.splits)

lemma gobble_loop_range:
  "gobble_loop B text satisfy i st = (c, k) \<Longrightarrow> i \<le> k \<and> c = byte_at text k \<and> (c = CHR 0x00 \<or> c = satisfy)"
proof (induction B "text" satisfy i st rule: gobble_loop.induct)
  case (1 B "text" satisfy i st)
  show ?case
  proof (cases "gobble_step B text satisfy i st")
    case (Inl c')
    with 1(2) have "c = c'" "k = i" by (simp_all add: gobble_loop.simps [of B "text" satisfy i])
    with gobble_step_Inl [OF Inl] show ?thesis by auto
  next
    case (Inr r)
    obtain i' st' where r: "r = (i', st')" by (cases r)
    with 1(2) Inr have "gobble_loop B text satisfy i' st' = (c, k)" by (simp add: gobble_loop.simps [of B "text" satisfy i])
    with 1(1) [OF Inr, of i' st'] r gobble_step_moves [OF Inr [unfolded r]] show ?thesis by auto
  qed
qed

lemma brace_gobbler_range:
  "brace_gobbler B text i satisfy = (c, k) \<Longrightarrow> i \<le> k \<and> c = byte_at text k \<and> (c = CHR 0x00 \<or> c = satisfy)"
  unfolding brace_gobbler_def by (rule gobble_loop_range)


section \<open>Expansion\<close>

definition array_concat :: "string list \<Rightarrow> string list \<Rightarrow> string list" where
  "array_concat arr1 arr2 =
     (if arr1 = [[]] then arr2
      else if arr2 = [[]] then arr1
      else concat (map (\<lambda>a. map (\<lambda>b. a @ b) arr2) arr1))"

text \<open>The loop that looks for the brace of an expansion: its place, or the end of the text.\<close>

function find_brace :: "brace_ops \<Rightarrow> string \<Rightarrow> nat \<Rightarrow> char \<times> nat" where
  "find_brace B text i =
     (case brace_gobbler B text i (CHR ''{'') of (c, i) \<Rightarrow>
        if c = CHR 0x00 then (c, i)
        else if fst (brace_gobbler B text (i + 1) (CHR ''}'')) = CHR 0x00 then find_brace B text (i + 1)
        else (c, i))"
  by pat_completeness auto
termination
  by (relation "measure (\<lambda>(B, text, i). length text - i)")
    (auto dest!: sym [of "(_, _)"] brace_gobbler_range inside_text)

text \<open>Whether the loop over the text between the braces stops at a separator.\<close>

function has_comma :: "brace_ops \<Rightarrow> string \<Rightarrow> nat \<Rightarrow> bool" where
  "has_comma B amble j =
     (let c = byte_at amble j in
      if c = CHR 0x00 then False
      else if c = CHR 0x5C then has_comma B amble (ADVANCE_CHAR B amble (j + 1))
      else if c = CHR '','' then True
      else has_comma B amble (ADVANCE_CHAR B amble j))"
  by pat_completeness auto
termination
  by (relation "measure (\<lambda>(B, amble, j). length amble - j)")
    (auto intro!: diff_less_mono2 ADVANCE_CHAR_gt less_trans [OF lessI ADVANCE_CHAR_gt [of "Suc _"]] dest: inside_text)

text \<open>The parts of the text that the loop of \<open>expand_amble\<close> expands.\<close>

lemma next_part:
  assumes "brace_gobbler B text i satisfy = (c, k)" "c \<noteq> CHR 0x00"
  shows "length text - ADVANCE_CHAR B text k < length text - i"
proof -
  from brace_gobbler_range [OF assms(1)] assms(2) have "i \<le> k" "k < length text" by (auto dest: inside_text)
  with ADVANCE_CHAR_gt [of k B "text"] show ?thesis by simp
qed

function amble_parts :: "brace_ops \<Rightarrow> string \<Rightarrow> nat \<Rightarrow> string list" where
  "amble_parts B text i =
     (case brace_gobbler B text i (CHR '','') of (c, k) \<Rightarrow>
        take (k - i) (drop i text) # (if c = CHR 0x00 then [] else amble_parts B text (ADVANCE_CHAR B text k)))"
  by pat_completeness auto
termination
  by (relation "measure (\<lambda>(B, text, i). length text - i)") (auto dest!: sym [of "(_, _)"] intro: next_part)

declare find_brace.simps [simp del] has_comma.simps [simp del] amble_parts.simps [simp del]

lemma amble_parts_length: "x \<in> set (amble_parts B text i) \<Longrightarrow> length x \<le> length text"
proof (induction B "text" i rule: amble_parts.induct)
  case (1 B "text" i)
  obtain c k where "brace_gobbler B text i (CHR '','') = (c, k)" by (cases "brace_gobbler B text i (CHR '','')")
  with 1 show ?case by (subst (asm) (2) amble_parts.simps) (auto split: if_splits)
qed

lemma find_brace_range:
  "find_brace B text i = (c, k) \<Longrightarrow> c \<noteq> CHR 0x00 \<Longrightarrow> i \<le> k \<and> k < length text \<and> byte_at text k = CHR ''{''"
proof (induction B "text" i rule: find_brace.induct)
  case (1 B "text" i)
  obtain c' k' where g: "brace_gobbler B text i (CHR ''{'') = (c', k')" by (cases "brace_gobbler B text i (CHR ''{'')")
  note r = brace_gobbler_range [OF g]
  have "c' \<noteq> CHR 0x00" using 1(2,3) by (auto simp: find_brace.simps [of B "text" i] g)
  with 1 g r show ?case
    by (subst (asm) (2) find_brace.simps) (fastforce dest: inside_text split: if_splits)
qed

definition expand_amble :: "(string \<Rightarrow> string list option) \<Rightarrow> brace_ops \<Rightarrow> string \<Rightarrow> string list option" where
  "expand_amble expand B text = map_option concat (those (map expand (amble_parts B text 0)))"

lemma expand_amble_cong [fundef_cong]:
  "(\<And>x. length x \<le> length text \<Longrightarrow> f x = g x) \<Longrightarrow> B = B' \<Longrightarrow> text = text' \<Longrightarrow> expand_amble f B text = expand_amble g B' text'"
proof -
  assume a: "\<And>x. length x \<le> length text \<Longrightarrow> f x = g x"
  have s: "map f (amble_parts B text 0) = map g (amble_parts B text 0)" by (rule map_cong) (auto intro: a amble_parts_length)
  assume q: "B = B'" "text = text'"
  show ?thesis unfolding expand_amble_def q [symmetric] s by (rule refl)
qed

text \<open>
  \<open>brace_expand\<close>; its result is \<open>None\<close> if a sequence is stored outside its array. \<open>tack\<close> is the
  expansion of the text between the braces; when it is none, the whole text is the result.
\<close>

definition find_tack :: "(string \<Rightarrow> string list option) \<Rightarrow> brace_ops \<Rightarrow> string \<Rightarrow> nat \<Rightarrow> nat \<Rightarrow> seq_result" where
  "find_tack expand B text i e =
     (let amble = take (e - (i + 1)) (drop (i + 1) text) in
      if has_comma B amble 0 then (case expand_amble expand B amble of None \<Rightarrow> Overrun | Some l \<Rightarrow> Seq l)
      else (case expand_seqterm amble of
              NoSeq \<Rightarrow> if byte_at text (e + 1) \<noteq> CHR 0x00 then Seq [take (e - i + 1) (drop i text)] else NoSeq
            | r \<Rightarrow> r))"

lemma find_tack_cong [fundef_cong]:
  "(\<And>x. length x \<le> length text - (i + 1) \<Longrightarrow> f x = g x) \<Longrightarrow> B = B' \<Longrightarrow> text = text' \<Longrightarrow> i = i' \<Longrightarrow> e = e' \<Longrightarrow>
   find_tack f B text i e = find_tack g B' text' i' e'"
proof -
  assume a: "\<And>x. length x \<le> length text - (i + 1) \<Longrightarrow> f x = g x"
  have s: "expand_amble f B (take (e - (i + 1)) (drop (i + 1) text)) = expand_amble g B (take (e - (i + 1)) (drop (i + 1) text))"
    by (rule expand_amble_cong) (auto intro: a)
  assume q: "B = B'" "text = text'" "i = i'" "e = e'"
  show ?thesis unfolding find_tack_def Let_def q [symmetric] s by (rule refl)
qed

function brace_expand :: "brace_ops \<Rightarrow> string \<Rightarrow> string list option" where
  "brace_expand B text =
     (case find_brace B text 0 of (c, i) \<Rightarrow>
        if c = CHR 0x00 then Some [take i text]
        else case brace_gobbler B text (i + 1) (CHR ''}'') of (c, e) \<Rightarrow>
          if c = CHR 0x00 then Some [text]
          else
            (case find_tack (brace_expand B) B text i e of
               Overrun \<Rightarrow> None
             | NoSeq \<Rightarrow> Some [text]
             | Seq tack \<Rightarrow>
                 let result = array_concat [take i text] tack; postamble = drop (e + 1) text in
                 if postamble = [] then Some result
                 else map_option (array_concat result) (brace_expand B postamble)))"
  by pat_completeness auto

termination
  by (relation "measure (\<lambda>(B, text). length text)")
    (auto dest!: sym [of "(_, _)"] find_brace_range brace_gobbler_range dest: inside_text)

declare brace_expand.simps [simp del]

end
