(* ===== verification/Bash_BraceSem.thy ===== *)
theory Bash_BraceSem imports Bash_Brace begin

text \<open>
  What brace expansion does: the elements of every sequence, and the words of a brace expression
  of literal text, alternatives and sequences, nested in any way.
\<close>

section \<open>Sequences\<close>

lemma sint_value: "- (2 ^ 63) \<le> k \<Longrightarrow> k < 2 ^ 63 \<Longrightarrow> sint (word_of_int k :: intmax) = k"
  by transfer (simp add: signed_take_bit_int_eq_self)

lemma sint_inj: "sint (a :: intmax) = sint b \<longleftrightarrow> a = b"
  by (metis signed_word_eqI)

lemma sint_sum: "- (2 ^ 63) \<le> sint a + sint b \<Longrightarrow> sint a + sint b < 2 ^ 63 \<Longrightarrow> sint (a + b :: intmax) = sint a + sint b"
  by (simp add: sint_word_ariths signed_take_bit_int_eq_self)

lemma sint_difference: "- (2 ^ 63) \<le> sint a - sint b \<Longrightarrow> sint a - sint b < 2 ^ 63 \<Longrightarrow> sint (a - b :: intmax) = sint a - sint b"
  by (simp add: sint_word_ariths signed_take_bit_int_eq_self)

lemma sint_negated: "sint a \<noteq> - (2 ^ 63) \<Longrightarrow> sint (- a :: intmax) = - sint a"
  using sint_ge [of a] sint_lt [of a] by (simp add: sint_word_ariths signed_take_bit_int_eq_self)

lemma sint_range: "- (2 ^ 63) \<le> sint (a :: intmax)" "sint (a :: intmax) < 2 ^ 63"
  using sint_ge [of a] sint_lt [of a] by simp_all

lemma sint_limits: "sint INTMAX_MIN = - (2 ^ 63)" "sint INTMAX_MAX = 2 ^ 63 - 1" "sint INT_MAX = 2 ^ 31 - 1"
    "sint (INTMAX_MIN + 3) = 3 - 2 ^ 63" "sint (INTMAX_MAX - 2) = 2 ^ 63 - 3" "sint (INT_MAX - 3) = 2 ^ 31 - 4"
  by (simp_all add: INTMAX_MIN_def INTMAX_MAX_def INT_MAX_def)

lemma add_overflow_iff:
  "ADDOVERFLOW a b INTMAX_MIN INTMAX_MAX \<longleftrightarrow> \<not> (- (2 ^ 63) \<le> sint a + sint b \<and> sint a + sint b < 2 ^ 63)"
proof -
  note r = sint_range [of a] sint_range [of b]
  have "sint (INTMAX_MAX - a) = 2 ^ 63 - 1 - sint a" if "0 < sint a"
    using that r sint_difference [of INTMAX_MAX a] by (simp add: sint_limits)
  moreover have "sint (INTMAX_MIN - a) = - (2 ^ 63) - sint a" if "sint a < 0"
    using that r sint_difference [of INTMAX_MIN a] by (simp add: sint_limits)
  ultimately show ?thesis using r by (auto simp: ADDOVERFLOW_def word_sless_alt)
qed

text \<open>The loop takes as many steps as lie between the ends.\<close>

lemma seq_loop_elements:
  assumes d: "sint incr \<noteq> 0"
  shows "m = nat (\<bar>sint end - sint n\<bar> div \<bar>sint incr\<bar>) \<Longrightarrow> (if 0 < sint incr then sint n \<le> sint end else sint end \<le> sint n) \<Longrightarrow>
    seq_loop (m + 2 + k) elem n end incr = Some (map (\<lambda>i. elem (word_of_int (sint n + sint incr * int i))) [0..<Suc m])"
proof (induction m arbitrary: n)
  case 0
  let ?d = "sint incr"
  have "\<bar>sint end - sint n\<bar> < \<bar>?d\<bar>" using 0(1) d pos_imp_zdiv_pos_iff [of "\<bar>?d\<bar>" "\<bar>sint end - sint n\<bar>"] by linarith
  then have "0 < ?d \<and> sint end < sint n + ?d \<or> ?d < 0 \<and> sint n + ?d < sint end" using 0(2) d by (auto split: if_splits)
  then show ?case
    using add_overflow_iff [of n incr] sint_sum [of n incr] by (auto simp: numeral_2_eq_2 word_sless_alt)
next
  case (Suc m)
  let ?d = "sint incr"
  have ge: "\<bar>?d\<bar> \<le> \<bar>sint end - sint n\<bar>" 
  proof (rule ccontr)
    assume "\<not> ?thesis"
    then have "\<bar>sint end - sint n\<bar> div \<bar>?d\<bar> = 0" by (simp add: div_pos_pos_trivial)
    with Suc.prems(1) show False by simp
  qed
  have between: "if 0 < ?d then sint n + ?d \<le> sint end else sint end \<le> sint n + ?d"
    using ge Suc.prems(2) d by (auto split: if_splits)
  have ok: "- (2 ^ 63) \<le> sint n + ?d" "sint n + ?d < 2 ^ 63"
    using between sint_range [of n] sint_range [of "end"] d by (auto split: if_splits)
  have s: "sint (n + incr) = sint n + ?d" using sint_sum ok by blast
  have "\<bar>sint end - (sint n + ?d)\<bar> = \<bar>sint end - sint n\<bar> - \<bar>?d\<bar>"
    using between Suc.prems(2) d by (auto split: if_splits)
  moreover have "(\<bar>sint end - sint n\<bar> - \<bar>?d\<bar>) div \<bar>?d\<bar> = \<bar>sint end - sint n\<bar> div \<bar>?d\<bar> - 1"
    using div_add_self2 [of "\<bar>?d\<bar>" "\<bar>sint end - sint n\<bar> - \<bar>?d\<bar>"] d by simp
  ultimately have "\<bar>sint end - (sint n + ?d)\<bar> div \<bar>?d\<bar> = \<bar>sint end - sint n\<bar> div \<bar>?d\<bar> - 1" by simp
  then have m: "m = nat (\<bar>sint end - sint (n + incr)\<bar> div \<bar>?d\<bar>)" using Suc.prems(1) unfolding s by linarith
  have c: "\<not> ADDOVERFLOW n incr INTMAX_MIN INTMAX_MAX" "\<not> (incr <s 0 \<and> n + incr <s end)" "\<not> (0 <s incr \<and> end <s n + incr)"
    using ok between add_overflow_iff s by (auto simp: word_sless_alt split: if_splits)
  have e: "seq_loop (Suc m + 2 + k) elem n end incr = map_option (Cons (elem n)) (seq_loop (m + 2 + k) elem (n + incr) end incr)"
    unfolding add_Suc seq_loop.simps(2) using c by (intro if_not_P) blast
  have "seq_loop (m + 2 + k) elem (n + incr) end incr =
      Some (map (\<lambda>i. elem (word_of_int (sint (n + incr) + ?d * int i))) [0..<Suc m])"
    using between by (intro Suc.IH m) (simp add: s)
  then show ?case
    unfolding e by (simp add: s map_upt_Suc [of _ "Suc m"] algebra_simps del: upt_Suc)
qed

lemma ucast_word_of_int: "(ucast (word_of_int x :: u64) :: u32) = word_of_int x"
  by transfer (simp add: take_bit_take_bit)

lemma slots_value: "0 \<le> q \<Longrightarrow> q \<le> 2 ^ 31 - 4 \<Longrightarrow> sint (ucast ((word_of_int q :: intmax) + 1) + 1 :: u32) = q + 2"
proof -
  assume q: "0 \<le> q" "q \<le> 2 ^ 31 - 4"
  have "ucast ((word_of_int q :: intmax) + 1) + 1 = (word_of_int (q + 2) :: u32)"
    using ucast_word_of_int [of "q + 1"] by simp
  moreover have "sint (word_of_int (q + 2) :: u32) = q + 2"
    using q by (transfer fixing: q) (simp add: signed_take_bit_int_eq_self)
  ultimately show ?thesis by (simp add: add.commute)
qed

text \<open>The absolute value of the increment, and the increment with its direction.\<close>

definition step_size :: "intmax \<Rightarrow> int" where "step_size incr = (if incr = 0 then 1 else \<bar>sint incr\<bar>)"

definition directed :: "intmax \<Rightarrow> intmax \<Rightarrow> intmax \<Rightarrow> int" where
  "directed start end incr = (if sint start \<le> sint end then step_size incr else - step_size incr)"

lemma sint_eq_0: "sint (a :: intmax) = 0 \<longleftrightarrow> a = 0"
  using sint_inj [of a 0] by simp

lemma step_size_pos: "0 < step_size incr"
  using sint_eq_0 [of incr] by (auto simp: step_size_def)

lemma sint_eq_min: "sint a = - (2 ^ 63) \<longleftrightarrow> a = INTMAX_MIN"
  using sint_limits(1) sint_inj [of a INTMAX_MIN] by auto

lemma mkseq_incr_value:
  "mkseq_incr start end incr =
    (if sint start < sint end \<and> incr = INTMAX_MIN then None
     else Some (if start = end then (if incr = 0 then 1 else incr) else word_of_int (directed start end incr)))"
proof -
  have eq: "sint start = sint end \<longleftrightarrow> start = end" by (rule sint_inj)
  have w: "word_of_int (sint a) = a" "word_of_int (- sint a) = - a" for a :: intmax by simp_all
  have m: "INTMAX_MIN \<noteq> 0" "INTMAX_MIN <s 0" by (simp_all add: INTMAX_MIN_def word_sless_alt)
  show ?thesis
    using eq w m sint_eq_0 [of incr] by (auto simp: mkseq_incr_def directed_def step_size_def Let_def word_sless_alt abs_if)
qed

lemma mkseq_loop_value:
  assumes s: "mkseq_incr start end incr = Some i" and q: "q = nat (\<bar>sint end - sint start\<bar> div step_size incr)"
  shows "seq_loop (q + 2) elem start end i =
    Some (map (\<lambda>j. elem (word_of_int (sint start + directed start end incr * int j))) [0..<Suc q])"
proof (cases "start = end")
  case True
  then have i: "sint i \<noteq> 0" using s sint_eq_0 [of i] by (auto simp: mkseq_incr_value split: if_splits)
  show ?thesis using seq_loop_elements [OF i, of 0 "end" start 0 elem] True q by simp
next
  case False
  have "\<not> (sint start < sint end \<and> incr = INTMAX_MIN)" and i: "i = word_of_int (directed start end incr)"
    using s False by (auto simp: mkseq_incr_value split: if_splits)
  then have d: "sint i = directed start end incr"
    unfolding i using sint_range [of incr] sint_eq_min [of incr] sint_inj [of start "end"] False
    by (intro sint_value) (auto simp: directed_def step_size_def abs_if)
  have a: "\<bar>directed start end incr\<bar> = step_size incr" "sint i \<noteq> 0"
    using d step_size_pos [of incr] by (simp_all add: directed_def split: if_splits)
  have w: "if 0 < sint i then sint start \<le> sint end else sint end \<le> sint start"
    using d step_size_pos [of incr] by (simp add: directed_def)
  have "q = nat (\<bar>sint end - sint start\<bar> div \<bar>sint i\<bar>)" unfolding d a(1) by (rule q)
  from seq_loop_elements [OF a(2) this w, of 0 elem] show ?thesis unfolding d by simp
qed

lemma incr_size: "mkseq_incr start end incr = Some i \<Longrightarrow> \<bar>sint i\<bar> = step_size incr"
proof (cases "start = end")
  case True
  then show "mkseq_incr start end incr = Some i \<Longrightarrow> ?thesis" by (auto simp: mkseq_incr_value step_size_def split: if_splits)
next
  case False
  assume a: "mkseq_incr start end incr = Some i"
  have "\<not> (sint start < sint end \<and> incr = INTMAX_MIN)" and i: "i = word_of_int (directed start end incr)"
    using a False by (auto simp: mkseq_incr_value split: if_splits)
  then have "sint i = directed start end incr"
    unfolding i using sint_range [of incr] sint_eq_min [of incr] sint_inj [of start "end"] False
    by (intro sint_value) (auto simp: directed_def step_size_def abs_if)
  then show ?thesis using step_size_pos [of incr] by (simp add: directed_def)
qed

lemma sdiv_imaxabs:
  assumes "0 \<le> k" "k < 2 ^ 63" shows "k sdiv sint (sh_imaxabs i) = k div \<bar>sint i\<bar>"
proof (cases "i = INTMAX_MIN")
  case True
  then have "sint (sh_imaxabs i) = - (2 ^ 63)" "sint i = - (2 ^ 63)" by (simp_all add: sh_imaxabs_def INTMAX_MIN_def word_sless_alt)
  then show ?thesis using assms by (simp add: signed_divide_int_def div_pos_pos_trivial)
next
  case False
  then have "sint (sh_imaxabs i) = \<bar>sint i\<bar>"
    using sint_negated [of i] sint_eq_min [of i] by (auto simp: sh_imaxabs_def word_sless_alt)
  then show ?thesis using assms by (cases "k = 0"; cases "i = 0") (simp_all add: signed_divide_int_def sgn_if)
qed

lemma distance_fits:
  fixes s e :: int
  assumes "- m \<le> s" "s < m" "- m \<le> e" "e < m" "s = 0 \<Longrightarrow> e \<noteq> - m" "\<not> (0 < s \<and> e - s < 3 - m \<or> s < 0 \<and> m - 3 < e - s)"
  shows "- m < e - s \<and> e - s < m"
  using assms by (cases s "0 :: int" rule: linorder_cases) auto

text \<open>The value of \<open>mkseq\<close>, proved by counting the steps of its loop.\<close>

lemma mkseq_value:
  assumes "start \<noteq> 0 \<or> end \<noteq> INTMAX_MIN"
  shows "mkseq start end incr type width =
    (let d = sint end - sint start; steps = \<bar>d\<bar> div step_size incr in
     if 0 < d \<and> incr = INTMAX_MIN \<or> 0 < sint start \<and> d < 3 - 2 ^ 63 \<or> sint start < 0 \<and> 2 ^ 63 - 3 < d \<or> 2 ^ 31 - 4 < steps
     then NoSeq
     else Seq (map (\<lambda>j. seq_text type width (word_of_int (sint start + directed start end incr * int j))) [0..<Suc (nat steps)]))"
proof -
  let ?d = "sint end - sint start" and ?q = "\<bar>sint end - sint start\<bar> div step_size incr"
  have sub: "SUBOVERFLOW end start (INTMAX_MIN + 3) (INTMAX_MAX - 2) \<longleftrightarrow> 0 < sint start \<and> ?d < 3 - 2 ^ 63 \<or> sint start < 0 \<and> 2 ^ 63 - 3 < ?d"
    using sint_range [of start] sint_sum [of "INTMAX_MIN + 3" start] sint_sum [of "INTMAX_MAX - 2" start]
    by (auto simp: SUBOVERFLOW_def word_sless_alt sint_limits)
  show ?thesis
  proof (cases "mkseq_incr start end incr = None \<or> SUBOVERFLOW end start (INTMAX_MIN + 3) (INTMAX_MAX - 2)")
    case True
    have n: "mkseq start end incr type width = NoSeq" using True by (auto simp: mkseq_def split: option.split)
    have "0 < ?d \<and> incr = INTMAX_MIN \<or> 0 < sint start \<and> ?d < 3 - 2 ^ 63 \<or> sint start < 0 \<and> 2 ^ 63 - 3 < ?d \<or> 2 ^ 31 - 4 < ?q"
      using True unfolding sub mkseq_incr_value by (simp split: if_splits) blast
    then show ?thesis unfolding Let_def n by (rule if_P [symmetric])
  next
    case False
    then obtain i where i: "mkseq_incr start end incr = Some i" and ns: "\<not> SUBOVERFLOW end start (INTMAX_MIN + 3) (INTMAX_MAX - 2)" by auto
    have e: "sint start = 0 \<Longrightarrow> sint end \<noteq> - (2 ^ 63)" using assms by (simp only: sint_eq_min sint_eq_0) blast
    have r: "- (2 ^ 63) < ?d \<and> ?d < 2 ^ 63"
      using distance_fits [of "2 ^ 63" "sint start" "sint end"] ns [unfolded sub] sint_range [of start] sint_range [of "end"] e by blast
    have p: "sint (sh_imaxabs (end - start)) = \<bar>?d\<bar>"
      using r sint_difference [of "end" start] sint_negated [of "end - start"] by (auto simp: sh_imaxabs_def word_sless_alt abs_if)
    have q0: "0 \<le> ?q" "?q < 2 ^ 63"
      using step_size_pos [of incr] r zdiv_mono2 [of "\<bar>?d\<bar>" 1 "step_size incr"] by (auto simp: pos_imp_zdiv_nonneg_iff)
    have st: "sint (sh_imaxabs (end - start)) sdiv sint (sh_imaxabs i) = ?q"
      unfolding p incr_size [OF i, symmetric] using r by (intro sdiv_imaxabs) auto
    have sq: "sint (word_of_int ?q :: intmax) = ?q" using q0 by (intro sint_value) auto
    show ?thesis
    proof (cases "2 ^ 31 - 4 < ?q")
      case True
      then have "mkseq start end incr type width = NoSeq"
        using ns by (simp add: mkseq_def i Let_def st word_sless_alt sq sint_limits)
      then show ?thesis using True by (simp add: Let_def)
    next
      case False
      have no: "\<not> ADDOVERFLOW (word_of_int ?q) 1 INTMAX_MIN INTMAX_MAX" "\<not> INT_MAX - 3 <s word_of_int ?q"
        using add_overflow_iff [of "word_of_int ?q" 1] False q0 by (simp_all add: sq word_sless_alt sint_limits)
      have "mkseq start end incr type width =
          (case seq_loop (nat (?q + 2)) (seq_text type width) start end i of None \<Rightarrow> Overrun | Some l \<Rightarrow> Seq l)"
        using ns no slots_value [OF q0(1)] False q0(1) by (simp add: mkseq_def i Let_def st)
      also have "nat (?q + 2) = nat ?q + 2" using q0 by simp
      also have "(case seq_loop (nat ?q + 2) (seq_text type width) start end i of None \<Rightarrow> Overrun | Some l \<Rightarrow> Seq l) =
          Seq (map (\<lambda>j. seq_text type width (word_of_int (sint start + directed start end incr * int j))) [0..<Suc (nat ?q)])"
        by (subst mkseq_loop_value [OF i refl]) simp
      finally show ?thesis using False i ns [unfolded sub] by (auto simp: Let_def mkseq_incr_value split: if_splits)
    qed
  qed
qed

text \<open>
  C22. Property of \<open>mkseq\<close>: apart from the sequences from 0 to \<open>INTMAX_MIN\<close>, the result is NULL when the
  distance, the increment or the number of elements is out of range, and else the elements from
  \<open>start\<close> on in steps towards \<open>end\<close>, as many as do not pass it, all stored inside the array.
\<close>

theorem mkseq_elements:
  assumes "start \<noteq> 0 \<or> end \<noteq> INTMAX_MIN"
  shows "mkseq start end incr type width =
    (let d = sint end - sint start; steps = \<bar>d\<bar> div step_size incr in
     if 0 < d \<and> incr = INTMAX_MIN \<or> 0 < sint start \<and> d < 3 - 2 ^ 63 \<or> sint start < 0 \<and> 2 ^ 63 - 3 < d \<or> 2 ^ 31 - 4 < steps
     then NoSeq
     else Seq (map (\<lambda>j. seq_text type width (word_of_int (sint start + directed start end incr * int j))) [0..<Suc (nat steps)]))"
  using assms by (rule mkseq_value)

text \<open>A sequence of letters, every second one.\<close>

theorem mkseq_elements_witness: "mkseq 97 101 2 ST_CHAR 1 = Seq [''a'', ''c'', ''e'']"
  using mkseq_elements [of 97 101 2 ST_CHAR 1]
  by (simp add: Let_def directed_def step_size_def seq_text_def upt_rec INTMAX_MIN_def char_of_def bit_0)

text \<open>A descent to \<open>INTMAX_MIN\<close> stores behind an array with no room for all its elements.\<close>

lemma descent_overruns:
  "0 <s k \<Longrightarrow> - (2 ^ 63) \<le> sint n - int room * sint k \<Longrightarrow> seq_loop room elem n INTMAX_MIN (- k) = None"
proof (induction room arbitrary: n)
  case (Suc room)
  have k: "0 < sint k" using Suc.prems(1) by (simp add: word_sless_alt)
  then have m: "sint (- k) = - sint k" by (intro sint_negated) simp
  have n: "- (2 ^ 63) \<le> sint n - sint k - int room * sint k" using Suc.prems(2) by (simp add: algebra_simps)
  moreover have "0 \<le> int room * sint k" using k by simp
  ultimately have le: "- (2 ^ 63) \<le> sint n - sint k" by linarith
  then have d: "sint (n + - k) = sint n - sint k"
    using k m sint_range [of n] sint_sum [of n "- k"] by simp
  have "\<not> ADDOVERFLOW n (- k) INTMAX_MIN INTMAX_MAX" 
    using add_overflow_iff [of n "- k"] le k m sint_range [of n] by auto
  then show ?case using Suc.IH [of "n + - k"] Suc.prems(1) k m n le d
    by (simp add: word_sless_alt sint_limits)
qed simp

lemma to_min_difference:
  assumes "0 < q" "q \<le> 2 ^ 63"
  shows "\<not> ADDOVERFLOW (word_of_int (- q)) 1 INTMAX_MIN INTMAX_MAX"
    and "\<not> INT_MAX - 3 <s word_of_int (- q)"
    and "ucast ((word_of_int (- q) :: intmax) + 1) + 1 = (word_of_int (2 - q) :: u32)"
proof -
  have s: "sint (word_of_int (- q) :: intmax) = - q" using assms by (intro sint_value) simp_all
  show "\<not> ADDOVERFLOW (word_of_int (- q)) 1 INTMAX_MIN INTMAX_MAX"
    using add_overflow_iff [of "word_of_int (- q)" 1] s assms by (simp del: of_int_minus)
  show "\<not> INT_MAX - 3 <s word_of_int (- q)"
  proof -
    have "sint (INT_MAX - 3) = 2 ^ 31 - 4" by (simp add: INT_MAX_def)
    then show ?thesis using s assms by (simp add: word_sless_alt del: of_int_minus)
  qed
  have "(word_of_int (- q) :: intmax) + 1 = word_of_int (1 - q)" by simp
  then show "ucast ((word_of_int (- q) :: intmax) + 1) + 1 = (word_of_int (2 - q) :: u32)"
    using ucast_word_of_int [of "1 - q"] by simp
qed

text \<open>
  C23. Property of \<open>mkseq\<close>: the sequence from 0 to \<open>INTMAX_MIN\<close> with a positive increment is never made. The check of
  the difference looks at it only if \<open>start\<close> is not 0, and the absolute value of the difference wraps, so that
  the number of steps comes out as \<open>- q\<close>, where \<open>q\<close> is the quotient of 2 ^ 63 and the increment; the size \<open>2 - q\<close> of
  the array is truncated to an \<open>int\<close>. When that is negative the allocation fails, in every other case
  (for instance with an increment of 1 or of 2 ^ 62) the loop stores behind the array.
\<close>

theorem mkseq_from_zero_overruns:
  assumes "0 <s incr"
  shows "mkseq 0 INTMAX_MIN incr type width =
    (if sint (word_of_int (2 - 2 ^ 63 div sint incr) :: u32) < 0 then NoSeq else Overrun)"
proof -
  let ?q = "2 ^ 63 div sint incr"
  have k: "0 < sint incr" "sint incr < 2 ^ 63" using assms sint_range [of incr] by (simp_all add: word_sless_alt)
  then have m: "sint (- incr) = - sint incr" by (intro sint_negated) simp
  have q: "0 < ?q" "?q \<le> 2 ^ 63" "?q * sint incr \<le> 2 ^ 63"
  proof -
    show q0: "0 < ?q" using k by (simp add: pos_imp_zdiv_pos_iff)
    show m: "?q * sint incr \<le> 2 ^ 63" using k(1) div_mult_mod_eq [of "2 ^ 63" "sint incr"] pos_mod_sign [of "sint incr" "2 ^ 63"] by linarith
    have "?q * 1 \<le> ?q * sint incr" using q0 k(1) by (intro mult_left_mono) simp_all
    then show "?q \<le> 2 ^ 63" using m by simp
  qed
  have i: "mkseq_incr 0 INTMAX_MIN incr = Some (- incr)"
    using assms by (auto simp: mkseq_incr_def word_sless_alt sint_limits)
  have a: "sh_imaxabs INTMAX_MIN = INTMAX_MIN" "sh_imaxabs (- incr) = incr"
    using m k by (simp_all add: sh_imaxabs_def word_sless_alt sint_limits) (simp add: INTMAX_MIN_def)
  have o: "\<not> SUBOVERFLOW INTMAX_MIN 0 (INTMAX_MIN + 3) (INTMAX_MAX - 2)" by (simp add: SUBOVERFLOW_def)
  have s: "sint INTMAX_MIN sdiv sint incr = - ?q" using k by (simp add: sint_limits signed_divide_int_def)
  show ?thesis
  proof (cases "sint (word_of_int (2 - ?q) :: u32) < 0")
    case True
    then show ?thesis using i a o s to_min_difference [OF q(1,2)] by (simp add: mkseq_def Let_def del: of_int_minus of_int_diff)
  next
    case False
    let ?n = "sint (word_of_int (2 - ?q) :: u32)"
    have "?n \<le> ?q"
    proof (cases "?q < 2 ^ 31")
      case True
      then have "?n = 2 - ?q"
        using q(1) by (simp add: signed_of_int signed_take_bit_int_eq_self del: of_int_diff)
      then show ?thesis using q(1) False by linarith
    next
      case False
      then show ?thesis using sint_lt [of "word_of_int (2 - ?q) :: u32"] by (simp del: of_int_diff)
    qed
    then have "?n * sint incr \<le> ?q * sint incr" using k by simp
    then have "- (2 ^ 63) \<le> sint (0 :: intmax) - int (nat ?n) * sint incr" using q(3) False by simp
    then have "seq_loop (nat ?n) elem 0 INTMAX_MIN (- incr) = None" for elem by (rule descent_overruns [OF assms])
    then show ?thesis using False i a o s to_min_difference [OF q(1,2)] by (simp add: mkseq_def Let_def del: of_int_minus of_int_diff)
  qed
qed

theorem mkseq_from_zero_overruns_witness:
  "mkseq 0 INTMAX_MIN 1 ST_INT 0 = Overrun \<and> mkseq 0 INTMAX_MIN (2 ^ 62) ST_INT 0 = Overrun \<and>
    mkseq 0 INTMAX_MIN (2 ^ 60) ST_INT 0 = NoSeq"
  using mkseq_from_zero_overruns [of 1] mkseq_from_zero_overruns [of "2 ^ 62"] mkseq_from_zero_overruns [of "2 ^ 60"]
  by (simp add: word_sless_alt)

section \<open>Brace expressions\<close>







































section \<open>The text of a sequence\<close>



























section \<open>The expansion of a word\<close>








































end
