(* ===== verification/Bash_Test.thy ===== *)
theory Bash_Test imports Bash_Brace Bash_Expr Bash_Glob Bash_Array Bash_Assoc begin

text \<open>
  The commands \<open>test\<close> and \<open>[\<close> of bash (\<open>src/khsl/bash/bash-5.2/test.c\<close>), the file tests of
  \<open>lib/sh/eaccess.c\<close> they rest on, and the evaluation of the conditional command \<open>[[ ]]\<close>
  (\<open>execute_cond_node\<close> of \<open>execute_cmd.c\<close>). The system calls, the collation of the locale, the shell
  options and the variables are the record \<open>test_ops\<close>; the arithmetic evaluator is \<open>evalexp\<close> of
  \<open>Bash_Expr\<close>, the pattern matcher \<open>strmatch\<close> of \<open>Bash_Glob\<close>. What an operand may change, the state
  of the evaluator with the shell in it, is threaded through; the static \<open>pos\<close> is an argument and a
  result, \<open>argv\<close> and \<open>argc\<close> are arguments. An operator is a C string: a place behind its end reads the
  zero byte, and comparing its first bytes and the zero byte with constants is comparing strings.
\<close>

section \<open>State\<close>

text \<open>\<open>struct stat\<close>, as far as it is used.\<close>

record file_stat =
  st_dev :: nat
  st_ino :: nat
  st_mode :: u32
  st_uid :: nat
  st_gid :: nat
  st_size :: int
  st_atim :: "int \<times> int"
  st_mtim :: "int \<times> int"

datatype test_value = TV_scalar "string option" | TV_array "array option" | TV_assoc "assoc option"

record test_var =
  tv_invisible :: bool
  tv_value :: test_value
  tv_nameref :: bool

text \<open>
  Why control left: \<open>test_exit\<close> with its status and the text that was reported, a jump of the shell
  from an arithmetic expression or an expansion, a fault of the pattern matcher, an argument that is
  not there (a NULL or wild pointer), the bound on the recursion.
\<close>

datatype test_failure = T_exit int "string option" | T_left | T_match_fault | T_wild | T_stuck

record 's test_state =
  tenv :: "'s expr_state"
  tfailure :: "test_failure option"

type_synonym ('v, 's) testing = "('v, 's test_state) outcome"

record 's test_ops =
  t_stat :: "string \<Rightarrow> file_stat option"
  t_lstat :: "string \<Rightarrow> file_stat option"
  t_faccessat :: "string \<Rightarrow> u32 \<Rightarrow> bool"
  t_isatty :: "int \<Rightarrow> bool"
  t_dev_fd_prefix :: string
  t_euid :: nat
  t_egid :: nat
  t_group_member :: "nat \<Rightarrow> bool"
  t_strcoll :: "string \<Rightarrow> string \<Rightarrow> int"
  t_match :: match_env
  t_ignore_case :: bool
  t_compat :: int
  t_expand_once :: bool
  t_option_value :: "string \<Rightarrow> int"
  t_arith :: "'s shell_ops"
  t_array_ref :: "bool \<Rightarrow> string \<Rightarrow> 's expr_state \<Rightarrow> bool"
  t_array_value :: "bool \<Rightarrow> bool \<Rightarrow> string \<Rightarrow> 's expr_state \<Rightarrow> (string option, 's expr_state) outcome"
  t_number_of_args :: "'s expr_state \<Rightarrow> int"
  t_find_variable :: "string \<Rightarrow> 's expr_state \<Rightarrow> test_var option"
  t_find_variable_noref :: "string \<Rightarrow> 's expr_state \<Rightarrow> test_var option"

definition fails :: "test_failure \<Rightarrow> 's test_state \<Rightarrow> ('v, 's) testing" where
  "fails f s = Leaves (s\<lparr>tfailure := Some f\<rparr>)"

definition TEST_ERREXIT_STATUS :: int where "TEST_ERREXIT_STATUS = 2"

definition test_syntax_error :: "string \<Rightarrow> 's test_state \<Rightarrow> ('v, 's) testing" where
  "test_syntax_error msg s = fails (T_exit TEST_ERREXIT_STATUS (Some msg)) s"

definition beyond :: "'s test_state \<Rightarrow> ('v, 's) testing" where
  "beyond s = test_syntax_error ''argument expected'' s"

definition integer_expected_error :: "string \<Rightarrow> 's test_state \<Rightarrow> ('v, 's) testing" where
  "integer_expected_error pch s = test_syntax_error (pch @ '': integer expression expected'') s"

text \<open>A step of the evaluator or of an expansion.\<close>

definition in_env :: "('s expr_state \<Rightarrow> ('v, 's expr_state) outcome) \<Rightarrow> 's test_state \<Rightarrow> ('v, 's) testing" where
  "in_env f s =
     (case f (tenv s) of
        Returns v e \<Rightarrow> Returns v (s\<lparr>tenv := e\<rparr>)
      | Leaves e \<Rightarrow> fails T_left (s\<lparr>tenv := e\<rparr>))"

section \<open>Files\<close>

definition path_is_devfd :: "string \<Rightarrow> bool" where
  "path_is_devfd path \<longleftrightarrow>
     take 8 path = ''/dev/fd/'' \<or> take 8 path = ''/dev/std'' \<and> drop 8 path \<in> {''in'', ''out'', ''err''}"

text \<open>As built where \<open>/dev/fd\<close> and \<open>/dev/stdin\<close> exist.\<close>

definition sh_stat :: "'s test_ops \<Rightarrow> string \<Rightarrow> file_stat option" where
  "sh_stat T path =
     (if path = [] then None
      else if take 8 path = ''/dev/fd/'' then t_stat T (t_dev_fd_prefix T @ drop 8 path)
      else t_stat T path)"

definition R_OK :: u32 where "R_OK = 4"
definition W_OK :: u32 where "W_OK = 2"
definition X_OK :: u32 where "X_OK = 1"

definition sh_stataccess :: "'s test_ops \<Rightarrow> string \<Rightarrow> u32 \<Rightarrow> bool" where
  "sh_stataccess T path mode =
     (case sh_stat T path of
        None \<Rightarrow> False
      | Some st \<Rightarrow>
          if t_euid T = 0 \<and> and mode X_OK = 0 then True
          else if t_euid T = 0 \<and> and (st_mode st) 0x49 \<noteq> 0 then True
          else
            let mode = (if st_uid st = t_euid T then push_bit 6 mode
                        else if t_group_member T (st_gid st) then push_bit 3 mode else mode)
            in and (st_mode st) mode \<noteq> 0)"

text \<open>As built with \<open>faccessat\<close>.\<close>

definition sh_eaccess :: "'s test_ops \<Rightarrow> string \<Rightarrow> u32 \<Rightarrow> bool" where
  "sh_eaccess T path mode = (if path_is_devfd path then sh_stataccess T path mode else t_faccessat T path mode)"

definition timespec_cmp :: "int \<times> int \<Rightarrow> int \<times> int \<Rightarrow> int" where
  "timespec_cmp a b = (if fst a < fst b then - 1 else if fst b < fst a then 1 else snd a - snd b)"

definition same_file :: "file_stat \<Rightarrow> file_stat \<Rightarrow> bool" where
  "same_file a b \<longleftrightarrow> st_dev a = st_dev b \<and> st_ino a = st_ino b"

datatype file_cmp = CMP_NT | CMP_OT | CMP_EF

text \<open>The result of \<open>stat_mtime\<close> is the time, or \<open>None\<close> for -1.\<close>

definition stat_mtime :: "'s test_ops \<Rightarrow> string \<Rightarrow> (int \<times> int) option" where
  "stat_mtime T fn = map_option st_mtim (sh_stat T fn)"

definition filecomp :: "'s test_ops \<Rightarrow> string \<Rightarrow> string \<Rightarrow> file_cmp \<Rightarrow> bool" where
  "filecomp T s t cmp =
     (case cmp of
        CMP_OT \<Rightarrow> (case (stat_mtime T s, stat_mtime T t) of
           (None, Some _) \<Rightarrow> True | (Some ts1, Some ts2) \<Rightarrow> timespec_cmp ts1 ts2 < 0 | _ \<Rightarrow> False)
      | CMP_NT \<Rightarrow> (case (stat_mtime T s, stat_mtime T t) of
           (Some _, None) \<Rightarrow> True | (Some ts1, Some ts2) \<Rightarrow> timespec_cmp ts1 ts2 > 0 | _ \<Rightarrow> False)
      | CMP_EF \<Rightarrow> (case (sh_stat T s, sh_stat T t) of (Some st1, Some st2) \<Rightarrow> same_file st1 st2 | _ \<Rightarrow> False))"

section \<open>Operators\<close>

datatype arith_cmp = CMP_EQ | CMP_NE | CMP_LT | CMP_GT | CMP_LE | CMP_GE

fun cmp_holds :: "arith_cmp \<Rightarrow> intmax \<Rightarrow> intmax \<Rightarrow> bool" where
  "cmp_holds CMP_EQ l r = (l = r)"
| "cmp_holds CMP_NE l r = (l \<noteq> r)"
| "cmp_holds CMP_LT l r = (l <s r)"
| "cmp_holds CMP_GT l r = (r <s l)"
| "cmp_holds CMP_LE l r = (l \<le>s r)"
| "cmp_holds CMP_GE l r = (r \<le>s l)"

text \<open>The flags of \<open>binary_test\<close>: for \<open>test\<close> there are none, for \<open>[[ ]]\<close> there are three.\<close>

record test_flags =
  TEST_PATMATCH :: bool
  TEST_ARITHEXP :: bool
  TEST_LOCALE :: bool

definition arithcomp :: "'s test_ops \<Rightarrow> string \<Rightarrow> string \<Rightarrow> arith_cmp \<Rightarrow> test_flags \<Rightarrow> 's test_state \<Rightarrow> (bool, 's) testing" where
  "arithcomp T s t cmp flags st =
     (if TEST_ARITHEXP flags then
        (let eflag = (t_compat T \<le> 51) in
         then_do (in_env (evalexp (t_arith T) s eflag) st) (\<lambda>(l, expok) st.
           if \<not> expok then Returns False st
           else then_do (in_env (evalexp (t_arith T) t eflag) st) (\<lambda>(r, expok) st.
             if \<not> expok then Returns False st else Returns (cmp_holds cmp l r) st)))
      else
        (case legal_number s of
           None \<Rightarrow> integer_expected_error s st
         | Some l \<Rightarrow>
             (case legal_number t of
                None \<Rightarrow> integer_expected_error t st
              | Some r \<Rightarrow> Returns (cmp_holds cmp l r) st)))"

text \<open>The flags \<open>FNMATCH_EXTFLAG|FNMATCH_IGNCASE\<close>; \<open>extglob\<close> is the shell's \<open>extended_glob\<close>.\<close>

definition patcomp :: "'s test_ops \<Rightarrow> bool \<Rightarrow> string \<Rightarrow> string \<Rightarrow> bool \<Rightarrow> 's test_state \<Rightarrow> (bool, 's) testing" where
  "patcomp T extglob str pat eq st =
     (case strmatch (t_match T) (Some pat) (Some str)
             (or (if extglob then FNM_EXTMATCH else 0) (if t_ignore_case T then FNM_CASEFOLD else 0)) of
        Match \<Rightarrow> Returns eq st
      | NoMatch \<Rightarrow> Returns (\<not> eq) st
      | _ \<Rightarrow> fails T_match_fault st)"

fun c_strcmp :: "string \<Rightarrow> string \<Rightarrow> int" where
  "c_strcmp [] [] = 0"
| "c_strcmp [] (b # t) = - 1"
| "c_strcmp (a # s) [] = 1"
| "c_strcmp (a # s) (b # t) = (if ord a < ord b then - 1 else if ord b < ord a then 1 else c_strcmp s t)"

definition binary_test :: "'s test_ops \<Rightarrow> bool \<Rightarrow> string \<Rightarrow> string \<Rightarrow> string \<Rightarrow> test_flags \<Rightarrow> 's test_state \<Rightarrow> (bool, 's) testing" where
  "binary_test T extglob op arg1 arg2 flags st =
     (let op0 = byte_at op 0; op1 = byte_at op 1; op2 = byte_at op 2 in
      if op0 = CHR ''='' \<and> (op1 = CHR 0x00 \<or> op1 = CHR ''='' \<and> op2 = CHR 0x00) then
        (if TEST_PATMATCH flags then patcomp T extglob arg1 arg2 True st else Returns (arg1 = arg2) st)
      else if (op0 = CHR ''>'' \<or> op0 = CHR ''<'') \<and> op1 = CHR 0x00 then
        (let c = (if 40 < t_compat T \<and> TEST_LOCALE flags then t_strcoll T arg1 arg2 else c_strcmp arg1 arg2) in
         Returns (if op0 = CHR ''>'' then 0 < c else c < 0) st)
      else if op0 = CHR ''!'' \<and> op1 = CHR ''='' \<and> op2 = CHR 0x00 then
        (if TEST_PATMATCH flags then patcomp T extglob arg1 arg2 False st else Returns (arg1 \<noteq> arg2) st)
      else if op2 = CHR ''t'' then
        (if op1 = CHR ''n'' then Returns (filecomp T arg1 arg2 CMP_NT) st
         else if op1 = CHR ''o'' then Returns (filecomp T arg1 arg2 CMP_OT) st
         else if op1 = CHR ''l'' then arithcomp T arg1 arg2 CMP_LT flags st
         else if op1 = CHR ''g'' then arithcomp T arg1 arg2 CMP_GT flags st
         else Returns False st)
      else if op1 = CHR ''e'' then
        (if op2 = CHR ''f'' then Returns (filecomp T arg1 arg2 CMP_EF) st
         else if op2 = CHR ''q'' then arithcomp T arg1 arg2 CMP_EQ flags st
         else Returns False st)
      else if op2 = CHR ''e'' then
        (if op1 = CHR ''n'' then arithcomp T arg1 arg2 CMP_NE flags st
         else if op1 = CHR ''g'' then arithcomp T arg1 arg2 CMP_GE flags st
         else if op1 = CHR ''l'' then arithcomp T arg1 arg2 CMP_LE flags st
         else Returns False st)
      else Returns False st)"

definition test_binop :: "string \<Rightarrow> bool" where
  "test_binop op =
     (let op0 = byte_at op 0; op1 = byte_at op 1; op2 = byte_at op 2 in
      if op0 = CHR ''='' \<and> op1 = CHR 0x00 then True
      else if (op0 = CHR ''<'' \<or> op0 = CHR ''>'') \<and> op1 = CHR 0x00 then True
      else if (op0 = CHR ''='' \<or> op0 = CHR ''!'') \<and> op1 = CHR ''='' \<and> op2 = CHR 0x00 then True
      else if op0 \<noteq> CHR ''-'' \<or> op1 = CHR 0x00 \<or> op2 = CHR 0x00 \<or> byte_at op 3 \<noteq> CHR 0x00 then False
      else if op2 = CHR ''t'' then op1 \<in> set ''nolg''
      else if op1 = CHR ''e'' then op2 \<in> set ''qf''
      else if op2 = CHR ''e'' then op1 \<in> set ''ngl''
      else False)"

definition test_unop :: "string \<Rightarrow> bool" where
  "test_unop op =
     (if byte_at op 0 \<noteq> CHR ''-'' \<or> byte_at op 1 \<noteq> CHR 0x00 \<and> byte_at op 2 \<noteq> CHR 0x00 then False
      else byte_at op 1 \<in> set ''abcdefghknoprstuvwxzGLOSNR'')"

text \<open>\<open>S_ISREG\<close> and its like: the type of a file.\<close>

definition S_IFMT :: u32 where "S_IFMT = 0xF000"

definition has_type :: "u32 \<Rightarrow> file_stat option \<Rightarrow> bool" where
  "has_type t st = (case st of None \<Rightarrow> False | Some st \<Rightarrow> and (st_mode st) S_IFMT = t)"

definition has_bit :: "u32 \<Rightarrow> file_stat option \<Rightarrow> bool" where
  "has_bit b st = (case st of None \<Rightarrow> False | Some st \<Rightarrow> and (st_mode st) b \<noteq> 0)"

definition var_isset :: "test_var \<Rightarrow> bool" where
  "var_isset v = (case tv_value v of TV_scalar x \<Rightarrow> x \<noteq> None | TV_array a \<Rightarrow> a \<noteq> None | TV_assoc h \<Rightarrow> h \<noteq> None)"

text \<open>\<open>-v\<close>: a reference to an array element, a positional parameter or a variable.\<close>

definition variable_is_set :: "'s test_ops \<Rightarrow> string \<Rightarrow> 's test_state \<Rightarrow> (bool, 's) testing" where
  "variable_is_set T arg st =
     (if t_array_ref T (t_expand_once T) arg (tenv st) then
        then_do (in_env (t_array_value T (t_expand_once T) (51 < t_compat T) arg) st) (\<lambda>t st. Returns (t \<noteq> None) st)
      else
        (case legal_number arg of
           Some r \<Rightarrow> Returns (0 \<le> sint r \<and> sint r \<le> t_number_of_args T (tenv st)) st
         | None \<Rightarrow>
             Returns (case t_find_variable T arg (tenv st) of
                None \<Rightarrow> False
              | Some v \<Rightarrow>
                  \<not> tv_invisible v \<and>
                  (case tv_value v of
                     TV_array a \<Rightarrow> fst (array_reference a 0) \<noteq> None
                   | TV_assoc h \<Rightarrow> fst (assoc_reference ''0'' h) \<noteq> None
                   | TV_scalar _ \<Rightarrow> var_isset v)) st))"

definition unary_test :: "'s test_ops \<Rightarrow> string \<Rightarrow> string \<Rightarrow> 's test_state \<Rightarrow> (bool, 's) testing" where
  "unary_test T op arg st =
     (let c = byte_at op 1; sb = sh_stat T arg in
      if c = CHR ''a'' \<or> c = CHR ''e'' then Returns (sb \<noteq> None) st
      else if c = CHR ''r'' then Returns (sh_eaccess T arg R_OK) st
      else if c = CHR ''w'' then Returns (sh_eaccess T arg W_OK) st
      else if c = CHR ''x'' then Returns (sh_eaccess T arg X_OK) st
      else if c = CHR ''O'' then Returns (case sb of None \<Rightarrow> False | Some b \<Rightarrow> t_euid T = st_uid b) st
      else if c = CHR ''G'' then Returns (case sb of None \<Rightarrow> False | Some b \<Rightarrow> t_egid T = st_gid b) st
      else if c = CHR ''N'' then
        Returns (case sb of None \<Rightarrow> False | Some b \<Rightarrow> 0 < timespec_cmp (st_mtim b) (st_atim b)) st
      else if c = CHR ''f'' then Returns (has_type 0x8000 sb \<or> has_type 0 sb) st
      else if c = CHR ''d'' then Returns (has_type 0x4000 sb) st
      else if c = CHR ''s'' then Returns (case sb of None \<Rightarrow> False | Some b \<Rightarrow> 0 < st_size b) st
      else if c = CHR ''S'' then Returns (has_type 0xC000 sb) st
      else if c = CHR ''c'' then Returns (has_type 0x2000 sb) st
      else if c = CHR ''b'' then Returns (has_type 0x6000 sb) st
      else if c = CHR ''p'' then Returns (has_type 0x1000 sb) st
      else if c = CHR ''L'' \<or> c = CHR ''h'' then Returns (arg \<noteq> [] \<and> has_type 0xA000 (t_lstat T arg)) st
      else if c = CHR ''u'' then Returns (has_bit 0x800 sb) st
      else if c = CHR ''g'' then Returns (has_bit 0x400 sb) st
      else if c = CHR ''k'' then Returns (has_bit 0x200 sb) st
      else if c = CHR ''t'' then
        Returns (case legal_number arg of None \<Rightarrow> False
                 | Some r \<Rightarrow> sint r = sint (ucast r :: u32) \<and> t_isatty T (sint r)) st
      else if c = CHR ''n'' then Returns (arg \<noteq> []) st
      else if c = CHR ''z'' then Returns (arg = []) st
      else if c = CHR ''o'' then Returns (t_option_value T arg = 1) st
      else if c = CHR ''v'' then variable_is_set T arg st
      else if c = CHR ''R'' then
        Returns (case t_find_variable_noref T arg (tenv st) of
           None \<Rightarrow> False | Some v \<Rightarrow> \<not> tv_invisible v \<and> var_isset v \<and> tv_nameref v) st
      else Returns False st)"

section \<open>The parser of \<open>test\<close>\<close>

text \<open>The word at place \<open>i\<close> of \<open>argv\<close>.\<close>

definition arg_at :: "string list \<Rightarrow> nat \<Rightarrow> 's test_state \<Rightarrow> (string, 's) testing" where
  "arg_at argv i s = (if i < length argv then Returns (argv ! i) s else fails T_wild s)"

definition advance :: "bool \<Rightarrow> nat \<Rightarrow> nat \<Rightarrow> 's test_state \<Rightarrow> (nat, 's) testing" where
  "advance f argc pos s = (if f \<and> argc \<le> pos + 1 then beyond s else Returns (pos + 1) s)"

definition unary_advance :: "nat \<Rightarrow> nat \<Rightarrow> 's test_state \<Rightarrow> (nat, 's) testing" where
  "unary_advance argc pos s = then_do (advance True argc pos s) (\<lambda>pos s. Returns (pos + 1) s)"

abbreviation no_flags :: test_flags where
  "no_flags \<equiv> \<lparr>TEST_PATMATCH = False, TEST_ARITHEXP = False, TEST_LOCALE = False\<rparr>"

definition binary_operator ::
  "'s test_ops \<Rightarrow> string list \<Rightarrow> nat \<Rightarrow> nat \<Rightarrow> 's test_state \<Rightarrow> (bool \<times> nat, 's) testing" where
  "binary_operator T argv argc pos s =
     then_do (arg_at argv (pos + 1) s) (\<lambda>w s.
     then_do (arg_at argv pos s) (\<lambda>a s.
     then_do (arg_at argv (pos + 2) s) (\<lambda>b s.
       let w0 = byte_at w 0; w1 = byte_at w 1; w2 = byte_at w 2 in
       if w0 = CHR ''='' \<and> (w1 = CHR 0x00 \<or> w1 = CHR ''='' \<and> w2 = CHR 0x00) \<or>
          (w0 = CHR ''>'' \<or> w0 = CHR ''<'') \<and> w1 = CHR 0x00 \<or> w0 = CHR ''!'' \<and> w1 = CHR ''='' \<and> w2 = CHR 0x00
       then then_do (binary_test T False w a b no_flags s) (\<lambda>v s. Returns (v, pos + 3) s)
       else if (w0 \<noteq> CHR ''-'' \<or> byte_at w 3 \<noteq> CHR 0x00) \<or> \<not> test_binop w then
         test_syntax_error (w @ '': binary operator expected'') s
       else then_do (binary_test T False w a b no_flags s) (\<lambda>v s. Returns (v, pos + 3) s))))"

definition unary_operator ::
  "'s test_ops \<Rightarrow> string list \<Rightarrow> nat \<Rightarrow> nat \<Rightarrow> 's test_state \<Rightarrow> (bool \<times> nat, 's) testing" where
  "unary_operator T argv argc pos s =
     then_do (arg_at argv pos s) (\<lambda>op s.
       if \<not> test_unop op then Returns (False, pos) s
       else if byte_at op 1 = CHR ''t'' then
         then_do (advance False argc pos s) (\<lambda>pos s.
           if pos < argc then
             then_do (arg_at argv pos s) (\<lambda>a s.
               if legal_number a \<noteq> None then
                 then_do (advance False argc pos s) (\<lambda>pos s.
                 then_do (arg_at argv (pos - 1) s) (\<lambda>a s.
                 then_do (unary_test T op a s) (\<lambda>v s. Returns (v, pos) s)))
               else Returns (False, pos) s)
           else then_do (unary_test T op ''1'' s) (\<lambda>v s. Returns (v, pos) s))
       else
         then_do (unary_advance argc pos s) (\<lambda>pos s.
         then_do (arg_at argv (pos - 1) s) (\<lambda>a s.
         then_do (unary_test T op a s) (\<lambda>v s. Returns (v, pos) s))))"

text \<open>The loop of \<open>term\<close> over leading \<open>!\<close>: the value it computes and where it ends.\<close>

function skip_nots ::
  "string list \<Rightarrow> nat \<Rightarrow> bool \<Rightarrow> nat \<Rightarrow> 's test_state \<Rightarrow> (bool \<times> nat, 's) testing" where
  "skip_nots argv argc value pos s =
     (if pos < argc then
        if pos < length argv then
          if argv ! pos = ''!'' then
            if argc \<le> pos + 1 then beyond s else skip_nots argv argc (\<not> value) (pos + 1) s
          else Returns (value, pos) s
        else fails T_wild s
      else Returns (value, pos) s)"
  by pat_completeness auto
termination
  by (relation "measure (\<lambda>(argv, argc, value, pos, s). argc - pos)") auto

declare skip_nots.simps [simp del]

text \<open>The last part of \<open>term\<close>: an operator or a string.\<close>

definition simple_term ::
  "'s test_ops \<Rightarrow> string list \<Rightarrow> nat \<Rightarrow> nat \<Rightarrow> 's test_state \<Rightarrow> (bool \<times> nat, 's) testing" where
  "simple_term T argv argc pos s =
     then_do (arg_at argv pos s) (\<lambda>a s.
     then_do (if pos + 3 \<le> argc then then_do (arg_at argv (pos + 1) s) (\<lambda>w s. Returns (test_binop w) s) else Returns False s)
       (\<lambda>dyadic s.
       if dyadic then binary_operator T argv argc pos s
       else if pos + 2 \<le> argc \<and> test_unop a then unary_operator T argv argc pos s
       else then_do (advance False argc pos s) (\<lambda>pos s. Returns (a \<noteq> [], pos) s)))"

text \<open>The parsing functions, with a bound on the calls that have moved on.\<close>

function expr_parse and or_parse and and_parse and term_parse ::
  "'s test_ops \<Rightarrow> string list \<Rightarrow> nat \<Rightarrow> nat \<Rightarrow> nat \<Rightarrow> 's test_state \<Rightarrow> (bool \<times> nat, 's) testing" where
  "expr_parse T argv argc n pos s = (if argc \<le> pos then beyond s else or_parse T argv argc n pos s)"
| "or_parse T argv argc n pos s =
     (case n of 0 \<Rightarrow> fails T_stuck s | Suc n' \<Rightarrow>
        then_do (and_parse T argv argc n pos s) (\<lambda>(value, pos) s.
          if pos < argc then
            then_do (arg_at argv pos s) (\<lambda>a s.
              if a = ''-o'' then
                then_do (advance False argc pos s) (\<lambda>pos s.
                then_do (or_parse T argv argc n' pos s) (\<lambda>(v2, pos) s. Returns (value \<or> v2, pos) s))
              else Returns (value, pos) s)
          else Returns (value, pos) s))"
| "and_parse T argv argc n pos s =
     (case n of 0 \<Rightarrow> fails T_stuck s | Suc n' \<Rightarrow>
        then_do (term_parse T argv argc n pos s) (\<lambda>(value, pos) s.
          if pos < argc then
            then_do (arg_at argv pos s) (\<lambda>a s.
              if a = ''-a'' then
                then_do (advance False argc pos s) (\<lambda>pos s.
                then_do (and_parse T argv argc n' pos s) (\<lambda>(v2, pos) s. Returns (value \<and> v2, pos) s))
              else Returns (value, pos) s)
          else Returns (value, pos) s))"
| "term_parse T argv argc n pos s =
     (case n of 0 \<Rightarrow> fails T_stuck s | Suc n' \<Rightarrow>
        if argc \<le> pos then beyond s
        else then_do (arg_at argv pos s) (\<lambda>a s.
          if a = ''!'' then
            then_do (skip_nots argv argc False pos s) (\<lambda>(value, pos) s.
            then_do (term_parse T argv argc n' pos s) (\<lambda>(v, pos) s. Returns (if value then \<not> v else v, pos) s))
          else if a = ''('' then
            then_do (advance True argc pos s) (\<lambda>pos s.
            then_do (expr_parse T argv argc n' pos s) (\<lambda>(value, pos) s.
              if pos = length argv then test_syntax_error ''`)' expected'' s
              else then_do (arg_at argv pos s) (\<lambda>b s.
                if b \<noteq> '')'' then test_syntax_error (''`)' expected, found '' @ b) s
                else then_do (advance False argc pos s) (\<lambda>pos s. Returns (value, pos) s))))
          else simple_term T argv argc pos s))"
  by pat_completeness auto
termination
  by (relation "measures [\<lambda>x. case x of Inl (Inl (T, argv, argc, n, pos, s)) \<Rightarrow> n | Inl (Inr (T, argv, argc, n, pos, s)) \<Rightarrow> n
        | Inr (Inl (T, argv, argc, n, pos, s)) \<Rightarrow> n | Inr (Inr (T, argv, argc, n, pos, s)) \<Rightarrow> n,
      \<lambda>x. case x of Inl (Inl _) \<Rightarrow> 3 | Inl (Inr _) \<Rightarrow> 2 | Inr (Inl _) \<Rightarrow> 1 | Inr (Inr _) \<Rightarrow> 0]") auto

declare expr_parse.simps [simp del] or_parse.simps [simp del] and_parse.simps [simp del] term_parse.simps [simp del]

section \<open>\<open>test\<close> and \<open>[\<close>\<close>

definition two_arguments ::
  "'s test_ops \<Rightarrow> string list \<Rightarrow> nat \<Rightarrow> nat \<Rightarrow> 's test_state \<Rightarrow> (bool \<times> nat, 's) testing" where
  "two_arguments T argv argc pos s =
     then_do (arg_at argv pos s) (\<lambda>a s.
       if a = ''!'' then then_do (arg_at argv (pos + 1) s) (\<lambda>b s. Returns (b = [], pos) s)
       else if byte_at a 0 = CHR ''-'' \<and> byte_at a 1 \<noteq> CHR 0x00 \<and> byte_at a 2 = CHR 0x00 \<and> test_unop a then
         unary_operator T argv argc pos s
       else test_syntax_error (a @ '': unary operator expected'') s)"

definition ANDOR :: "string \<Rightarrow> bool" where "ANDOR s \<longleftrightarrow> s = ''-a'' \<or> s = ''-o''"
definition ONE_ARG_TEST :: "string \<Rightarrow> bool" where "ONE_ARG_TEST s \<longleftrightarrow> s \<noteq> []"

definition three_arguments ::
  "'s test_ops \<Rightarrow> string list \<Rightarrow> nat \<Rightarrow> nat \<Rightarrow> 's test_state \<Rightarrow> (bool \<times> nat, 's) testing" where
  "three_arguments T argv argc pos s =
     then_do (arg_at argv pos s) (\<lambda>a s.
     then_do (arg_at argv (pos + 1) s) (\<lambda>b s.
     then_do (arg_at argv (pos + 2) s) (\<lambda>c s.
       if test_binop b then then_do (binary_operator T argv argc pos s) (\<lambda>(value, pos) s. Returns (value, argc) s)
       else if ANDOR b then
         Returns (if byte_at b 1 = CHR ''a'' then ONE_ARG_TEST a \<and> ONE_ARG_TEST c else ONE_ARG_TEST a \<or> ONE_ARG_TEST c, argc) s
       else if a = ''!'' then
         then_do (advance True argc pos s) (\<lambda>pos s.
         then_do (two_arguments T argv argc pos s) (\<lambda>(value, pos) s. Returns (\<not> value, argc) s))
       else if byte_at a 0 = CHR ''('' \<and> byte_at c 0 = CHR '')'' then Returns (ONE_ARG_TEST b, argc) s
       else test_syntax_error (b @ '': binary operator expected'') s)))"

text \<open>\<open>posixtest\<close>, called with \<open>pos\<close> at 1. A word is left for each nested call of \<open>expr\<close>.\<close>

definition posixtest ::
  "'s test_ops \<Rightarrow> string list \<Rightarrow> nat \<Rightarrow> nat \<Rightarrow> 's test_state \<Rightarrow> (bool \<times> nat, 's) testing" where
  "posixtest T argv argc pos s =
     (if argc - 1 = 0 then Returns (False, argc) s
      else if argc - 1 = 1 then then_do (arg_at argv 1 s) (\<lambda>a s. Returns (ONE_ARG_TEST a, argc) s)
      else if argc - 1 = 2 then
        then_do (two_arguments T argv argc pos s) (\<lambda>(value, pos) s. Returns (value, argc) s)
      else if argc - 1 = 3 then three_arguments T argv argc pos s
      else
        then_do (arg_at argv pos s) (\<lambda>a s.
        then_do (arg_at argv (argc - 1) s) (\<lambda>z s.
          if argc - 1 = 4 \<and> a = ''!'' then
            then_do (advance True argc pos s) (\<lambda>pos s.
            then_do (three_arguments T argv argc pos s) (\<lambda>(value, pos) s. Returns (\<not> value, pos) s))
          else if argc - 1 = 4 \<and> a = ''('' \<and> z = '')'' then
            then_do (advance True argc pos s) (\<lambda>pos s.
            then_do (two_arguments T argv argc pos s) (\<lambda>(value, pos) s. Returns (value, argc) s))
          else expr_parse T argv argc argc pos s)))"

definition SHELL_BOOLEAN :: "bool \<Rightarrow> int" where "SHELL_BOOLEAN value = (if value then 0 else 1)"

definition test_body :: "'s test_ops \<Rightarrow> string list \<Rightarrow> 's test_state \<Rightarrow> (int, 's) testing" where
  "test_body T margv s =
     (let bracket = (margv \<noteq> [] \<and> margv ! 0 = ''[''); argc = (if bracket then length margv - 1 else length margv) in
      if bracket \<and> margv ! argc \<noteq> '']'' then test_syntax_error (''missing `]'' @ [CHR 0x27]) s
      else if bracket \<and> argc < 2 then fails (T_exit (SHELL_BOOLEAN False) None) s
      else if argc \<le> 1 then fails (T_exit (SHELL_BOOLEAN False) None) s
      else
        then_do (posixtest T margv argc 1 s) (\<lambda>(value, pos) s.
          if pos \<noteq> argc then
            (if pos < argc then
               then_do (arg_at margv pos s) (\<lambda>a s.
                 if byte_at a 0 = CHR ''-'' then test_syntax_error (''syntax error: `'' @ a @ [CHR 0x27] @ '' unexpected'') s
                 else test_syntax_error ''too many arguments'' s)
             else test_syntax_error ''too many arguments'' s)
          else fails (T_exit (SHELL_BOOLEAN value) None) s))"

text \<open>\<open>test_exit\<close> jumps back to \<open>test_command\<close>, which returns the status.\<close>

definition test_command :: "'s test_ops \<Rightarrow> string list \<Rightarrow> 's test_state \<Rightarrow> (int, 's) testing" where
  "test_command T margv s =
     (case test_body T margv s of
        Returns v s \<Rightarrow> Returns v s
      | Leaves s \<Rightarrow> (case tfailure s of Some (T_exit status msg) \<Rightarrow> Returns status s | _ \<Rightarrow> Leaves s))"

section \<open>The conditional command\<close>

text \<open>
  \<open>COND_COM\<close>; the first argument is the flag \<open>CMD_INVERT_RETURN\<close>. The expansion of an operand
  (\<open>cond_expand_word\<close>, with its mode) and the matching of regular expressions are parameters.
\<close>

datatype cond =
  COND_EXPR bool cond
| COND_OR bool cond cond
| COND_AND bool cond cond
| COND_UNARY bool string string
| COND_BINARY bool string string string

record 's cond_ops =
  c_test :: "'s test_ops"
  c_expand :: "nat \<Rightarrow> string \<Rightarrow> 's expr_state \<Rightarrow> (string option, 's expr_state) outcome"
  c_regmatch :: "string \<Rightarrow> string \<Rightarrow> 's expr_state \<Rightarrow> (int, 's expr_state) outcome"

definition EXECUTION_SUCCESS :: int where "EXECUTION_SUCCESS = 0"
definition EXECUTION_FAILURE :: int where "EXECUTION_FAILURE = 1"

definition success_if :: "bool \<Rightarrow> int" where
  "success_if b = (if b then EXECUTION_SUCCESS else EXECUTION_FAILURE)"

definition inverted :: "bool \<Rightarrow> int \<Rightarrow> int" where
  "inverted invert result =
     (if invert then (if result = EXECUTION_SUCCESS then EXECUTION_FAILURE else EXECUTION_SUCCESS) else result)"

abbreviation cond_flags :: test_flags where
  "cond_flags \<equiv> \<lparr>TEST_PATMATCH = True, TEST_ARITHEXP = True, TEST_LOCALE = True\<rparr>"

definition cond_expand_word :: "'s cond_ops \<Rightarrow> nat \<Rightarrow> string \<Rightarrow> 's test_state \<Rightarrow> (string, 's) testing" where
  "cond_expand_word C special w s =
     then_do (in_env (c_expand C special w) s) (\<lambda>r s. Returns (case r of None \<Rightarrow> [] | Some x \<Rightarrow> x) s)"

definition cond_unary :: "'s cond_ops \<Rightarrow> string \<Rightarrow> string \<Rightarrow> 's test_state \<Rightarrow> (int, 's) testing" where
  "cond_unary C op w s =
     (let varop = (op = ''-v'') in
      then_do (cond_expand_word C (if varop then 3 else 0) w s) (\<lambda>arg1 s.
        let T = (if varop \<and> 51 < t_compat (c_test C) then (c_test C)\<lparr>t_expand_once := False\<rparr> else c_test C) in
        then_do (unary_test T op arg1 s) (\<lambda>v s. Returns (success_if v) s)))"

definition cond_binary :: "'s cond_ops \<Rightarrow> string \<Rightarrow> string \<Rightarrow> string \<Rightarrow> 's test_state \<Rightarrow> (int, 's) testing" where
  "cond_binary C op w1 w2 s =
     (let patmatch = (op = ''!='' \<or> op = ''=='' \<or> op = ''='');
          rmatch = (op = ''=~'');
          arith = (op \<in> {''-eq'', ''-ne'', ''-lt'', ''-le'', ''-gt'', ''-ge''});
          mode = (if arith then 3 else if rmatch \<and> 31 < t_compat (c_test C) then 2 else if patmatch then 1 else 0)
      in then_do (cond_expand_word C (if arith then mode else 0) w1 s) (\<lambda>arg1 s.
         then_do (cond_expand_word C mode w2 s) (\<lambda>arg2 s.
           if rmatch then in_env (c_regmatch C arg1 arg2) s
           else then_do (binary_test (c_test C) True op arg1 arg2 cond_flags s) (\<lambda>v s. Returns (success_if v) s))))"

fun execute_cond_node :: "'s cond_ops \<Rightarrow> cond \<Rightarrow> 's test_state \<Rightarrow> (int, 's) testing" where
  "execute_cond_node C (COND_EXPR neg l) s =
     then_do (execute_cond_node C l s) (\<lambda>result s. Returns (inverted neg result) s)"
| "execute_cond_node C (COND_OR neg l r) s =
     then_do (then_do (execute_cond_node C l s) (\<lambda>result s.
         if result \<noteq> EXECUTION_SUCCESS then execute_cond_node C r s else Returns result s))
       (\<lambda>result s. Returns (inverted neg result) s)"
| "execute_cond_node C (COND_AND neg l r) s =
     then_do (then_do (execute_cond_node C l s) (\<lambda>result s.
         if result = EXECUTION_SUCCESS then execute_cond_node C r s else Returns result s))
       (\<lambda>result s. Returns (inverted neg result) s)"
| "execute_cond_node C (COND_UNARY neg op w) s =
     then_do (cond_unary C op w s) (\<lambda>result s. Returns (inverted neg result) s)"
| "execute_cond_node C (COND_BINARY neg op w1 w2) s =
     then_do (cond_binary C op w1 w2 s) (\<lambda>result s. Returns (inverted neg result) s)"

end
