(* ===== verification/Bash_TestSem.thy ===== *)
theory Bash_TestSem imports Bash_Test Bash_ExprRun Bash_GlobSem begin

text \<open>
  What \<open>test\<close> means: the grammar of its expressions and their values, and that the command computes
  them.
\<close>

section \<open>Expressions of \<open>test\<close>\<close>

datatype texpr =
  TString string
| TUnary string string
| TBinary string string string
| TNot texpr
| TAnd texpr texpr
| TOr texpr texpr
| TParen texpr

fun targs :: "texpr \<Rightarrow> string list" where
  "targs (TString w) = [w]"
| "targs (TUnary op w) = [op, w]"
| "targs (TBinary a op b) = [a, op, b]"
| "targs (TNot e) = ''!'' # targs e"
| "targs (TAnd a b) = targs a @ ''-a'' # targs b"
| "targs (TOr a b) = targs a @ ''-o'' # targs b"
| "targs (TParen e) = ''('' # targs e @ ['')'']"

text \<open>
  Both operands are always evaluated, the left one first. An operand that is no number leaves with
  an error.
\<close>

fun tmeaning :: "'s test_ops \<Rightarrow> texpr \<Rightarrow> 's test_state \<Rightarrow> (bool, 's) testing" where
  "tmeaning T (TString w) s = Returns (w \<noteq> []) s"
| "tmeaning T (TUnary op w) s = unary_test T op w s"
| "tmeaning T (TBinary a op b) s = binary_test T False op a b no_flags s"
| "tmeaning T (TNot e) s = then_do (tmeaning T e s) (\<lambda>v s. Returns (\<not> v) s)"
| "tmeaning T (TAnd a b) s = then_do (tmeaning T a s) (\<lambda>v s. then_do (tmeaning T b s) (\<lambda>w s. Returns (v \<and> w) s))"
| "tmeaning T (TOr a b) s = then_do (tmeaning T a s) (\<lambda>v s. then_do (tmeaning T b s) (\<lambda>w s. Returns (v \<or> w) s))"
| "tmeaning T (TParen e) s = tmeaning T e s"

text \<open>
  The level of an expression: 0 what stands in parentheses, 1 an operand of \<open>-o\<close>, 2 an operand of
  \<open>-a\<close> and of \<open>!\<close>. Words that are read as something else where they stand are left out.
\<close>

definition plain_word :: "string \<Rightarrow> bool" where
  "plain_word w \<longleftrightarrow> w \<noteq> ''!'' \<and> w \<noteq> ''('' \<and> \<not> test_unop w \<and> \<not> test_binop w"

fun wf_test :: "nat \<Rightarrow> texpr \<Rightarrow> bool" where
  "wf_test l (TString w) \<longleftrightarrow> plain_word w"
| "wf_test l (TUnary op w) \<longleftrightarrow> test_unop op \<and> \<not> test_binop w \<and> (byte_at op 1 = CHR ''t'' \<longrightarrow> legal_number w \<noteq> None)"
| "wf_test l (TBinary a op b) \<longleftrightarrow> test_binop op \<and> a \<noteq> ''!'' \<and> a \<noteq> ''(''"
| "wf_test l (TNot e) \<longleftrightarrow> wf_test 2 e"
| "wf_test l (TAnd a b) \<longleftrightarrow> l \<le> 1 \<and> wf_test 2 a \<and> wf_test 1 b"
| "wf_test l (TOr a b) \<longleftrightarrow> l = 0 \<and> wf_test 1 a \<and> wf_test 0 b"
| "wf_test l (TParen e) \<longleftrightarrow> wf_test 0 e"

lemma targs_length: "0 < length (targs e)"
  by (cases e) auto

section \<open>The parser\<close>

lemma then_do_same: "(\<And>v s. f v s = g v s) \<Longrightarrow> then_do m f = then_do m g"
  by (cases m) simp_all

lemma test_binop_words [simp]: "\<not> test_binop ''-a''" "\<not> test_binop ''-o''" "\<not> test_binop '')''"
  by (simp_all add: test_binop_def byte_at_def)

lemma unop_first: "test_unop op \<Longrightarrow> op \<noteq> ''!'' \<and> op \<noteq> ''(''"
  by (auto simp: test_unop_def byte_at_def)

lemma test_unop_words [simp]: "\<not> test_unop ''!''" "\<not> test_unop ''(''"
  by (simp_all add: test_unop_def byte_at_def)

lemma arg_at_from: "drop i argv = a # r \<Longrightarrow> arg_at argv i s = Returns a s"
  by (cases "i < length argv") (auto simp: arg_at_def Cons_nth_drop_Suc [symmetric])

lemma drop_rest: "drop i t = u @ r \<Longrightarrow> drop (i + length u) t = r"
  using drop_drop [of "length u" i t] by (simp add: add.commute)

lemma drop_more: "drop i t = c # r \<Longrightarrow> drop (Suc i) t = r"
  using drop_rest [of i t "[c]" r] by simp

lemma binary_operator_value:
  assumes "drop pos argv = a # op # b # r" "test_binop op"
  shows "binary_operator T argv argc pos s =
    then_do (binary_test T False op a b no_flags s) (\<lambda>v s. Returns (v, pos + 3) s)"
  using assms(2)
  by (auto simp: arg_at_from [OF assms(1)] arg_at_from [OF drop_more [OF assms(1)]] arg_at_from [OF drop_more [OF drop_more [OF assms(1)]]]
      binary_operator_def Let_def test_binop_def split: if_splits)

lemma unary_operator_value:
  assumes "drop pos argv = op # w # r" "test_unop op" "byte_at op 1 = CHR ''t'' \<longrightarrow> legal_number w \<noteq> None" "pos + 2 \<le> argc"
  shows "unary_operator T argv argc pos s = then_do (unary_test T op w s) (\<lambda>v s. Returns (v, pos + 2) s)"
  using assms(2-4)
  by (auto simp: arg_at_from [OF assms(1)] arg_at_from [OF drop_more [OF assms(1)]] unary_operator_def advance_def unary_advance_def)

lemma skip_nots_flip:
  "skip_nots argv argc (\<not> value) pos s = then_do (skip_nots argv argc value pos s) (\<lambda>(w, p) s. Returns (\<not> w, p) s)"
proof (induction argv argc "value" pos s rule: skip_nots.induct)
  case (1 argv argc "value" pos s)
  then show ?case
    by (subst (1 2) skip_nots.simps) (simp add: beyond_def test_syntax_error_def fails_def)
qed

text \<open>The function that reads a level, and what may follow there.\<close>

definition parse_level ::
  "nat \<Rightarrow> 's test_ops \<Rightarrow> string list \<Rightarrow> nat \<Rightarrow> nat \<Rightarrow> nat \<Rightarrow> 's test_state \<Rightarrow> (bool \<times> nat, 's) testing" where
  "parse_level l = (if l = 0 then or_parse else if l = 1 then and_parse else term_parse)"

definition may_follow :: "nat \<Rightarrow> string \<Rightarrow> bool" where
  "may_follow l w \<longleftrightarrow> \<not> test_binop w \<and> (l \<le> 1 \<longrightarrow> w \<noteq> ''-a'') \<and> (l = 0 \<longrightarrow> w \<noteq> ''-o'')"

text \<open>\<open>e\<close> stands at \<open>pos\<close>, with \<open>r\<close> behind it, and is read at level \<open>l\<close> with the bound \<open>n\<close>.\<close>

definition stands :: "string list \<Rightarrow> nat \<Rightarrow> nat \<Rightarrow> texpr \<Rightarrow> nat \<Rightarrow> nat \<Rightarrow> string list \<Rightarrow> bool" where
  "stands argv argc l e n pos r \<longleftrightarrow>
     drop pos argv = targs e @ r \<and> pos + length (targs e) \<le> argc \<and> argc \<le> length argv \<and> argc < pos + n \<and>
     (pos + length (targs e) < argc \<longrightarrow> may_follow l (hd r))"

definition reads :: "'s test_ops \<Rightarrow> string list \<Rightarrow> nat \<Rightarrow> nat \<Rightarrow> texpr \<Rightarrow> bool" where
  "reads T argv argc l e \<longleftrightarrow>
     (\<forall>n pos r s. stands argv argc l e n pos r \<longrightarrow>
        parse_level l T argv argc n pos s = then_do (tmeaning T e s) (\<lambda>v s. Returns (v, pos + length (targs e)) s))"

lemma readsD:
  "reads T argv argc l e \<Longrightarrow> stands argv argc l e n pos r \<Longrightarrow>
   parse_level l T argv argc n pos s = then_do (tmeaning T e s) (\<lambda>v s. Returns (v, pos + length (targs e)) s)"
  by (auto simp: reads_def)

text \<open>Behind an expression, inside the arguments, stands the next word.\<close>

lemma stands_next:
  assumes "stands argv argc l e n pos r" "pos + length (targs e) < argc"
  shows "\<exists>w r'. drop (pos + length (targs e)) argv = w # r' \<and> r = w # r' \<and> may_follow l w"
proof -
  have d: "drop (pos + length (targs e)) argv = r" using assms(1) drop_rest unfolding stands_def by blast
  then have "r \<noteq> []" using assms unfolding stands_def by auto
  then obtain w r' where "r = w # r'" by (cases r) auto
  then show ?thesis using assms d unfolding stands_def by auto
qed

lemma stands_bound: "stands argv argc l e n pos r \<Longrightarrow> \<exists>m. n = Suc m"
  unfolding stands_def by (cases n) auto

lemma stands_higher: "stands argv argc l e n pos r \<Longrightarrow> l \<le> m \<Longrightarrow> stands argv argc m e n pos r"
  by (auto simp: stands_def may_follow_def)

lemma reads_and:
  assumes "reads T argv argc 2 e"
  shows "reads T argv argc 1 e"
  unfolding reads_def
proof (intro allI impI)
  fix n pos r s assume st: "stands argv argc 1 e n pos r"
  obtain m where n: "n = Suc m" using stands_bound [OF st] by blast
  have t: "term_parse T argv argc n pos s = then_do (tmeaning T e s) (\<lambda>v s. Returns (v, pos + length (targs e)) s)"
    using readsD [OF assms stands_higher [OF st]] by (simp add: parse_level_def)
  show "parse_level 1 T argv argc n pos s = then_do (tmeaning T e s) (\<lambda>v s. Returns (v, pos + length (targs e)) s)"
  proof (cases "pos + length (targs e) < argc")
    case True
    then obtain w r' where d: "drop (pos + length (targs e)) argv = w # r'" and w: "w \<noteq> ''-a''"
      using stands_next [OF st True] by (auto simp: may_follow_def)
    show ?thesis using True t n w by (simp add: arg_at_from [OF d] parse_level_def and_parse.simps [of T argv argc "Suc m"] then_do_assoc)
  qed (use t n in \<open>simp add: parse_level_def and_parse.simps [of T argv argc "Suc m"] then_do_assoc\<close>)
qed

lemma reads_or:
  assumes "reads T argv argc 1 e"
  shows "reads T argv argc 0 e"
  unfolding reads_def
proof (intro allI impI)
  fix n pos r s assume st: "stands argv argc 0 e n pos r"
  obtain m where n: "n = Suc m" using stands_bound [OF st] by blast
  have t: "and_parse T argv argc n pos s = then_do (tmeaning T e s) (\<lambda>v s. Returns (v, pos + length (targs e)) s)"
    using readsD [OF assms stands_higher [OF st]] by (simp add: parse_level_def)
  show "parse_level 0 T argv argc n pos s = then_do (tmeaning T e s) (\<lambda>v s. Returns (v, pos + length (targs e)) s)"
  proof (cases "pos + length (targs e) < argc")
    case True
    then obtain w r' where d: "drop (pos + length (targs e)) argv = w # r'" and w: "w \<noteq> ''-o''"
      using stands_next [OF st True] by (auto simp: may_follow_def)
    show ?thesis using True t n w by (simp add: arg_at_from [OF d] parse_level_def or_parse.simps [of T argv argc "Suc m"] then_do_assoc)
  qed (use t n in \<open>simp add: parse_level_def or_parse.simps [of T argv argc "Suc m"] then_do_assoc\<close>)
qed

lemma reads_and_op:
  assumes a: "reads T argv argc 2 a" and b: "reads T argv argc 1 b"
  shows "reads T argv argc 1 (TAnd a b)"
  unfolding reads_def
proof (intro allI impI)
  fix n pos r s assume st: "stands argv argc 1 (TAnd a b) n pos r"
  obtain m where n: "n = Suc m" using stands_bound [OF st] by blast
  have "stands argv argc 2 a n pos (''-a'' # targs b @ r)" using st targs_length [of b] by (auto simp: stands_def may_follow_def)
  then have t: "term_parse T argv argc n pos s = then_do (tmeaning T a s) (\<lambda>v s. Returns (v, pos + length (targs a)) s)"
    using readsD [OF a] by (simp add: parse_level_def)
  have d: "drop (pos + length (targs a)) argv = ''-a'' # targs b @ r"
    using st drop_rest [of pos argv "targs a" "''-a'' # targs b @ r"] by (simp add: stands_def)
  have "stands argv argc 1 b m (pos + length (targs a) + 1) r"
    using st drop_more [OF d] n by (auto simp: stands_def may_follow_def add.assoc)
  then have u: "and_parse T argv argc m (Suc (pos + length (targs a))) s = then_do (tmeaning T b s) (\<lambda>v s. Returns (v, pos + length (targs a) + 1 + length (targs b)) s)" for s
    using readsD [OF b] by (simp add: parse_level_def)
  have "pos + length (targs a) < argc" using st by (simp add: stands_def)
  then show "parse_level 1 T argv argc n pos s = then_do (tmeaning T (TAnd a b) s) (\<lambda>v s. Returns (v, pos + length (targs (TAnd a b))) s)"
    using t u n by (simp add: arg_at_from [OF d] parse_level_def and_parse.simps [of T argv argc "Suc m"] then_do_assoc advance_def add.assoc)
qed

lemma reads_or_op:
  assumes a: "reads T argv argc 1 a" and b: "reads T argv argc 0 b"
  shows "reads T argv argc 0 (TOr a b)"
  unfolding reads_def
proof (intro allI impI)
  fix n pos r s assume st: "stands argv argc 0 (TOr a b) n pos r"
  obtain m where n: "n = Suc m" using stands_bound [OF st] by blast
  have "stands argv argc 1 a n pos (''-o'' # targs b @ r)" using st targs_length [of b] by (auto simp: stands_def may_follow_def)
  then have t: "and_parse T argv argc n pos s = then_do (tmeaning T a s) (\<lambda>v s. Returns (v, pos + length (targs a)) s)"
    using readsD [OF a] by (simp add: parse_level_def)
  have d: "drop (pos + length (targs a)) argv = ''-o'' # targs b @ r"
    using st drop_rest [of pos argv "targs a" "''-o'' # targs b @ r"] by (simp add: stands_def)
  have "stands argv argc 0 b m (pos + length (targs a) + 1) r"
    using st drop_more [OF d] n by (auto simp: stands_def may_follow_def add.assoc)
  then have u: "or_parse T argv argc m (Suc (pos + length (targs a))) s = then_do (tmeaning T b s) (\<lambda>v s. Returns (v, pos + length (targs a) + 1 + length (targs b)) s)" for s
    using readsD [OF b] by (simp add: parse_level_def)
  have "pos + length (targs a) < argc" using st by (simp add: stands_def)
  then show "parse_level 0 T argv argc n pos s = then_do (tmeaning T (TOr a b) s) (\<lambda>v s. Returns (v, pos + length (targs (TOr a b))) s)"
    using t u n by (simp add: arg_at_from [OF d] parse_level_def or_parse.simps [of T argv argc "Suc m"] then_do_assoc advance_def add.assoc)
qed

lemma reads_paren:
  assumes e: "reads T argv argc 0 e"
  shows "reads T argv argc 2 (TParen e)"
  unfolding reads_def
proof (intro allI impI)
  fix n pos r s assume st: "stands argv argc 2 (TParen e) n pos r"
  obtain m where n: "n = Suc m" using stands_bound [OF st] by blast
  have d: "drop pos argv = ''('' # targs e @ '')'' # r" using st by (simp add: stands_def)
  note d1 = drop_more [OF d]
  have d2: "drop (Suc pos + length (targs e)) argv = '')'' # r" by (rule drop_rest [OF d1])
  have "stands argv argc 0 e m (Suc pos) ('')'' # r)" using st d1 n by (auto simp: stands_def may_follow_def)
  then have u: "or_parse T argv argc m (Suc pos) s = then_do (tmeaning T e s) (\<lambda>v s. Returns (v, Suc pos + length (targs e)) s)" for s
    using readsD [OF e] by (simp add: parse_level_def)
  have "pos + length (targs e) + 1 < argc" "argc \<le> length argv" using st by (auto simp: stands_def)
  then show "parse_level 2 T argv argc n pos s = then_do (tmeaning T (TParen e) s) (\<lambda>v s. Returns (v, pos + length (targs (TParen e))) s)"
    using u n arg_at_from [OF d2]
    by (simp add: arg_at_from [OF d] arg_at_from [OF d2, simplified] parse_level_def term_parse.simps [of T argv argc "Suc m"]
        expr_parse.simps then_do_assoc advance_def)
qed

lemma reads_not:
  assumes e: "reads T argv argc 2 e"
  shows "reads T argv argc 2 (TNot e)"
  unfolding reads_def
proof (intro allI impI)
  fix n pos r s assume st: "stands argv argc 2 (TNot e) n pos r"
  obtain m where n: "n = Suc m" using stands_bound [OF st] by blast
  have d: "drop pos argv = ''!'' # targs e @ r" using st by (simp add: stands_def)
  obtain x y where x: "targs e = x # y" using targs_length [of e] by (cases "targs e") auto
  have d1: "drop (Suc pos) argv = x # y @ r" using drop_more [OF d] x by simp
  have b: "Suc pos < argc" "argc \<le> length argv" using st x by (auto simp: stands_def)
  have h: "argv ! pos = ''!''" "argv ! Suc pos = x" using d d1 b nth_via_drop by (metis, metis)
  have s1: "stands argv argc 2 e n (Suc pos) r" "stands argv argc 2 e m (Suc pos) r"
    using st d1 x n by (auto simp: stands_def may_follow_def)
  note t = readsD [OF e s1(1), simplified parse_level_def, simplified] readsD [OF e s1(2), simplified parse_level_def, simplified]
  have sk: "skip_nots argv argc False pos s = skip_nots argv argc True (Suc pos) s" for s
    using b h by (subst skip_nots.simps) simp
  have "term_parse T argv argc n pos s = then_do (term_parse T argv argc n (Suc pos) s) (\<lambda>(v, p) s. Returns (\<not> v, p) s)"
  proof (cases "x = ''!''")
    case True
    have f: "skip_nots argv argc True (Suc pos) s = then_do (skip_nots argv argc False (Suc pos) s) (\<lambda>(w, p) s. Returns (\<not> w, p) s)" for s
      using skip_nots_flip [of argv argc False "Suc pos" s] by simp
    show ?thesis using b h n True
      by (simp add: sk f arg_at_def term_parse.simps [of T argv argc "Suc m"] then_do_assoc)
        (auto intro!: then_do_same simp: then_do_assoc)
  next
    case False
    then have f: "skip_nots argv argc True (Suc pos) s = Returns (True, Suc pos) s" for s using b h by (subst skip_nots.simps) simp
    show ?thesis using b h n t
      by (simp add: sk f arg_at_def term_parse.simps [of T argv argc "Suc m" pos] then_do_assoc case_prod_beta)
  qed
  then show "parse_level 2 T argv argc n pos s = then_do (tmeaning T (TNot e) s) (\<lambda>v s. Returns (v, pos + length (targs (TNot e))) s)"
    using t by (simp add: parse_level_def then_do_assoc)
qed

lemma reads_down: "reads T argv argc 2 e \<Longrightarrow> l \<le> 2 \<Longrightarrow> reads T argv argc l e"
  using reads_and [of T argv argc e] reads_or [of T argv argc e] by (cases "l = 0"; cases "l = 1") (auto simp: le_Suc_eq numeral_2_eq_2)

lemma simple_term_binary:
  assumes "drop pos argv = a # op # b # r" "test_binop op" "pos + 3 \<le> argc"
  shows "simple_term T argv argc pos s = then_do (binary_test T False op a b no_flags s) (\<lambda>v s. Returns (v, pos + 3) s)"
  using assms(2,3)
  by (simp add: simple_term_def arg_at_from [OF assms(1)] arg_at_from [OF drop_more [OF assms(1)]] binary_operator_value [OF assms(1,2)])

lemma simple_term_unary:
  assumes "drop pos argv = op # w # r" "test_unop op" "byte_at op 1 = CHR ''t'' \<longrightarrow> legal_number w \<noteq> None"
    "\<not> test_binop w" "pos + 2 \<le> argc"
  shows "simple_term T argv argc pos s = then_do (unary_test T op w s) (\<lambda>v s. Returns (v, pos + 2) s)"
  using assms(2,4,5)
  by (simp add: simple_term_def arg_at_from [OF assms(1)] arg_at_from [OF drop_more [OF assms(1)]] unary_operator_value [OF assms(1-3,5)])

lemma simple_term_string:
  assumes "drop pos argv = w # r" "\<not> test_unop w" "pos + 1 < argc \<longrightarrow> r \<noteq> [] \<and> \<not> test_binop (hd r)" "pos < argc"
  shows "simple_term T argv argc pos s = Returns (w \<noteq> [], pos + 1) s"
proof (cases "pos + 3 \<le> argc")
  case True
  then obtain x y where r: "r = x # y" "\<not> test_binop x" using assms(3) by (cases r) auto
  have d: "drop (pos + 1) argv = x # y" using drop_more [OF assms(1)] r by simp
  show ?thesis using True r(2) assms(2) by (simp add: simple_term_def arg_at_from [OF assms(1)] arg_at_from [OF d [simplified]] advance_def)
qed (use assms in \<open>simp add: simple_term_def arg_at_from [OF assms(1)] advance_def\<close>)

lemma reads_simple:
  assumes "wf_test 2 e" "case e of TString w \<Rightarrow> True | TUnary op w \<Rightarrow> True | TBinary a op b \<Rightarrow> True | _ \<Rightarrow> False"
  shows "reads T argv argc 2 e"
  unfolding reads_def
proof (intro allI impI)
  fix n pos r s assume st: "stands argv argc 2 e n pos r"
  obtain m where n: "n = Suc m" using stands_bound [OF st] by blast
  obtain a y where a: "targs e = a # y" "a \<noteq> ''!''" "a \<noteq> ''(''"
    using assms unop_first by (cases e) (auto simp: plain_word_def)
  have d: "drop pos argv = a # y @ r" using st a by (simp add: stands_def)
  have "pos < argc" using st a by (simp add: stands_def)
  then have t: "term_parse T argv argc n pos s = simple_term T argv argc pos s"
    using n a by (simp add: term_parse.simps [of T argv argc "Suc m"] arg_at_from [OF d])
  have "simple_term T argv argc pos s = then_do (tmeaning T e s) (\<lambda>v s. Returns (v, pos + length (targs e)) s)"
  proof (cases e)
    case (TString w)
    have "length argv - pos = Suc (length (y @ r))" using d by (metis length_drop length_Cons)
    then have "pos + 1 < argc \<longrightarrow> r \<noteq> []" using st a TString by (auto simp: stands_def)
    then show ?thesis using simple_term_string [of pos argv w r argc] st TString assms(1)
      by (auto simp: stands_def plain_word_def may_follow_def)
  next
    case (TUnary op w)
    then show ?thesis using simple_term_unary [of pos argv op w r argc T s] st assms(1) by (auto simp: stands_def)
  next
    case (TBinary x op w)
    then show ?thesis using simple_term_binary [of pos argv x op w r argc T s] st assms(1) by (auto simp: stands_def eval_nat_numeral)
  qed (use assms in auto)
  then show "parse_level 2 T argv argc n pos s = then_do (tmeaning T e s) (\<lambda>v s. Returns (v, pos + length (targs e)) s)"
    using t by (simp add: parse_level_def)
qed

lemma reads_all: "wf_test l e \<Longrightarrow> l \<le> 2 \<Longrightarrow> reads T argv argc l e"
proof (induction e arbitrary: l)
  case (TNot e)
  then show ?case using reads_down [OF reads_not [of T argv argc e]] by simp
next
  case (TAnd a b)
  then have "reads T argv argc 1 (TAnd a b)" by (intro reads_and_op) auto
  then show ?case using TAnd.prems reads_or [of T argv argc "TAnd a b"] by (cases "l = 0") (auto simp: le_Suc_eq)
next
  case (TOr a b)
  then show ?case using reads_or_op [of T argv argc a b] by simp
next
  case (TParen e)
  then show ?case using reads_down [OF reads_paren [of T argv argc e]] by simp
qed (rule reads_down [OF reads_simple]; simp)+

text \<open>The grammar, from its top.\<close>

lemma expr_parse_value:
  assumes "drop pos argv = targs e @ r" "wf_test 0 e" "argc = pos + length (targs e)" "argc \<le> length argv" "argc < pos + n"
  shows "expr_parse T argv argc n pos s = then_do (tmeaning T e s) (\<lambda>v s. Returns (v, argc) s)"
  using readsD [OF reads_all [OF assms(2)], of argv argc n pos r T s] assms targs_length [of e]
  by (simp add: stands_def parse_level_def expr_parse.simps)

section \<open>The rules for few arguments\<close>

lemma targs_1: "length (targs e) = 1 \<Longrightarrow> \<exists>w. e = TString w"
  using targs_length [of e]
proof (cases e)
  case (TNot a)
  assume "length (targs e) = 1"
  then show ?thesis using TNot targs_length [of a] by (simp del: length_greater_0_conv)
next
  case (TAnd a b)
  assume "length (targs e) = 1"
  then show ?thesis using TAnd targs_length [of a] by (simp del: length_greater_0_conv)
next
  case (TOr a b)
  assume "length (targs e) = 1"
  then show ?thesis using TOr targs_length [of a] by (simp del: length_greater_0_conv)
qed auto

lemma targs_2: "length (targs e) = 2 \<Longrightarrow> (\<exists>op w. e = TUnary op w) \<or> (\<exists>w. e = TNot (TString w))"
proof (cases e)
  case (TNot a)
  assume "length (targs e) = 2"
  then show ?thesis using TNot targs_1 [of a] by auto
next
  case (TAnd a b)
  assume "length (targs e) = 2"
  then show ?thesis using TAnd targs_length [of a] targs_length [of b] by (simp del: length_greater_0_conv)
next
  case (TOr a b)
  assume "length (targs e) = 2"
  then show ?thesis using TOr targs_length [of a] targs_length [of b] by (simp del: length_greater_0_conv)
next
  case (TParen a)
  assume "length (targs e) = 2"
  then show ?thesis using TParen targs_length [of a] by (simp del: length_greater_0_conv)
qed auto

lemma targs_3:
  assumes "length (targs e) = 3"
  shows "(\<exists>a op b. e = TBinary a op b) \<or> (\<exists>a b. e = TAnd (TString a) (TString b)) \<or> (\<exists>a b. e = TOr (TString a) (TString b)) \<or>
    (\<exists>op w. e = TNot (TUnary op w)) \<or> (\<exists>w. e = TNot (TNot (TString w))) \<or> (\<exists>w. e = TParen (TString w))"
proof (cases e)
  case (TNot a)
  then show ?thesis using assms targs_2 [of a] by auto
next
  case (TAnd a b)
  then have "length (targs a) = 1" "length (targs b) = 1"
    using assms targs_length [of a] targs_length [of b] by (simp_all del: length_greater_0_conv)
  then obtain v w where "a = TString v" "b = TString w" using targs_1 by metis
  then show ?thesis using TAnd by simp
next
  case (TOr a b)
  then have "length (targs a) = 1" "length (targs b) = 1"
    using assms targs_length [of a] targs_length [of b] by (simp_all del: length_greater_0_conv)
  then obtain v w where "a = TString v" "b = TString w" using targs_1 by metis
  then show ?thesis using TOr by simp
next
  case (TParen a)
  then show ?thesis using assms targs_1 [of a] by auto
qed (use assms in auto)

lemma then_do_ignore: "then_do m (\<lambda>v s. then_do (then_do (f v s) g) h) = then_do (then_do (then_do m f) g) h"
  by (simp add: then_do_assoc)

text \<open>Two words: only the value is used.\<close>

lemma two_arguments_value:
  assumes d: "drop pos argv = targs e @ r" and n: "length (targs e) = 2" and w: "wf_test 2 e" and b: "pos + 2 \<le> argc"
  shows "then_do (two_arguments T argv argc pos s) (\<lambda>(v, p) s. f v s) = then_do (tmeaning T e s) f"
  using targs_2 [OF n]
proof
  assume "\<exists>op w. e = TUnary op w"
  then obtain op x where e: "e = TUnary op x" by blast
  have d': "drop pos argv = op # x # r" using d e by simp
  have "test_unop op" using w e by simp
  then have "byte_at op 0 = CHR ''-''" "byte_at op 1 \<noteq> CHR 0x00" "byte_at op 2 = CHR 0x00"
    by (auto simp: test_unop_def split: if_splits)
  then show ?thesis using w e b unop_first [of op] unary_operator_value [OF d', of argc T s]
    by (simp add: two_arguments_def arg_at_from [OF d'] then_do_assoc)
next
  assume "\<exists>w. e = TNot (TString w)"
  then obtain x where e: "e = TNot (TString x)" by blast
  have d': "drop pos argv = ''!'' # x # r" using d e by simp
  show ?thesis using e by (simp add: two_arguments_def arg_at_from [OF d'] arg_at_from [OF drop_more [OF d']])
qed

text \<open>
  With three words a second word \<open>-a\<close> or \<open>-o\<close> is a connective; so is it behind a negation.
\<close>

definition connective_reading :: "texpr \<Rightarrow> bool" where
  "connective_reading e \<longleftrightarrow> (\<exists>op w. e = TNot (TUnary op w) \<and> ANDOR op)"

lemma three_arguments_value:
  assumes d: "drop pos argv = targs e @ r" and n: "length (targs e) = 3" and w: "wf_test 0 e" and b: "pos + 3 \<le> argc"
    and c: "\<not> connective_reading e"
  shows "three_arguments T argv argc pos s = then_do (tmeaning T e s) (\<lambda>v s. Returns (v, argc) s)"
proof -
  obtain x y z where t: "targs e = [x, y, z]" using n by (auto simp: length_Suc_conv eval_nat_numeral)
  have d': "drop pos argv = x # y # z # r" using d t by simp
  note a = arg_at_from [OF d'] arg_at_from [OF drop_more [OF d'], simplified] arg_at_from [OF drop_more [OF drop_more [OF d']], simplified]
  have d1: "drop (pos + 1) argv = y # z # r" using drop_more [OF d'] by simp
  have no: "test_unop op \<Longrightarrow> \<not> test_binop op" for op
    by (auto simp: test_unop_def test_binop_def split: if_splits)
  have w1: "\<not> test_binop ''!''" "\<not> ANDOR ''!''" by (simp_all add: test_binop_def ANDOR_def byte_at_def)
  have two: "y # [z] = targs u \<Longrightarrow> wf_test 2 u \<Longrightarrow>
      then_do (two_arguments T argv argc (Suc pos) s) (\<lambda>(v, p) s. f v s) = then_do (tmeaning T u s) f" for u f
  proof -
    fix u f assume u: "y # [z] = targs u" "wf_test 2 u"
    have "drop (pos + 1) argv = targs u @ r" "length (targs u) = 2" "pos + 1 + 2 \<le> argc" using d1 b by (simp_all add: u(1) [symmetric])
    then show "then_do (two_arguments T argv argc (Suc pos) s) (\<lambda>(v, p) s. f v s) = then_do (tmeaning T u s) f"
      using two_arguments_value [of "pos + 1" argv u r argc T s f] u(2) by simp
  qed
  consider "\<exists>a op b. e = TBinary a op b" | "(\<exists>a b. e = TAnd (TString a) (TString b)) \<or> (\<exists>a b. e = TOr (TString a) (TString b))"
    | "(\<exists>op w. e = TNot (TUnary op w)) \<or> (\<exists>w. e = TNot (TNot (TString w)))" | "\<exists>w. e = TParen (TString w)"
    using targs_3 [OF n] by blast
  then show ?thesis
  proof cases
    case 1
    then show ?thesis using t w binary_operator_value [OF d', of T argc s]
      by (auto simp: three_arguments_def a then_do_assoc)
  next
    case 2
    then show ?thesis using t by (auto simp: three_arguments_def a ANDOR_def ONE_ARG_TEST_def byte_at_def)
  next
    case 3
    then obtain u where u: "e = TNot u" by blast
    then have e: "y # [z] = targs u" "wf_test 2 u" "x = ''!''" using t w by simp_all
    have "\<not> test_binop y \<and> \<not> ANDOR y"
    proof (cases u)
      case (TUnary op v)
      then have "y = op" "\<not> ANDOR op" using e(1) c u by (auto simp: connective_reading_def)
      then show ?thesis using e(2) TUnary no by simp
    qed (use 3 u e(1) w1 in auto)
    then show ?thesis using u e(3) b two [OF e(1,2)]
      by (simp add: three_arguments_def a advance_def then_do_assoc)
  next
    case 4
    then show ?thesis using t w
      by (auto simp: three_arguments_def a plain_word_def ANDOR_def ONE_ARG_TEST_def byte_at_def test_unop_def)
  qed
qed

text \<open>
  The expressions that three or four words spell and that are read in another way than the grammar
  says: \<open>-a\<close> or \<open>-o\<close> behind one or two negations, and a negation in front of a connective of two
  strings.
\<close>

definition short_reading :: "texpr \<Rightarrow> bool" where
  "short_reading e \<longleftrightarrow> connective_reading e \<or> (\<exists>u. e = TNot u \<and> connective_reading u) \<or>
     (\<exists>a b. e = TAnd (TNot (TString a)) (TString b) \<or> e = TOr (TNot (TString a)) (TString b))"

lemma first_of_two:
  assumes "length (targs a) + length (targs b) = 3" "targs a = x # y" "wf_test l a" "wf_test m b"
  shows "x \<noteq> ''('' \<and> (x = ''!'' \<longrightarrow> (\<exists>v w. a = TNot (TString v) \<and> b = TString w))"
proof -
  have p: "0 < length (targs a)" "0 < length (targs b)" by (rule targs_length)+
  consider "length (targs a) = 1" | "length (targs a) = 2" "length (targs b) = 1" using assms(1) p by linarith
  then show ?thesis
  proof cases
    case 1
    then show ?thesis using targs_1 [of a] assms(2,3) by (auto simp: plain_word_def)
  next
    case 2
    then show ?thesis using targs_2 [of a] targs_1 [of b] assms(2,3) by auto
  qed
qed

lemma four_words:
  assumes "length (targs e) = 4" "targs e = x # y" "wf_test 0 e" "\<not> short_reading e"
  shows "(x = ''!'' \<longrightarrow> (\<exists>u. e = TNot u)) \<and> (x = ''('' \<longrightarrow> (\<exists>u. e = TParen u))"
proof (cases e)
  case (TAnd a b)
  obtain x' y' where a: "targs a = x' # y'" using targs_length [of a] by (cases "targs a") auto
  then have "length (targs a) + length (targs b) = 3" "x' = x" using assms(1,2) TAnd by simp_all
  then show ?thesis using first_of_two [OF _ a, of b 2 1] TAnd assms(3,4) by (auto simp: short_reading_def)
next
  case (TOr a b)
  obtain x' y' where a: "targs a = x' # y'" using targs_length [of a] by (cases "targs a") auto
  then have "length (targs a) + length (targs b) = 3" "x' = x" using assms(1,2) TOr by simp_all
  then show ?thesis using first_of_two [OF _ a, of b 1 0] TOr assms(3,4) by (auto simp: short_reading_def)
qed (use assms in auto)

lemma wf_not_paren: "wf_test l (TNot e) \<Longrightarrow> wf_test 0 e" "wf_test 0 (TParen e) \<Longrightarrow> length (targs e) = 2 \<Longrightarrow> wf_test 2 e"
proof -
  have "wf_test 2 e \<Longrightarrow> wf_test 0 e" by (cases e) auto
  then show "wf_test l (TNot e) \<Longrightarrow> wf_test 0 e" by simp
  show "wf_test 0 (TParen e) \<Longrightarrow> length (targs e) = 2 \<Longrightarrow> wf_test 2 e" using targs_2 [of e] by auto
qed

lemma posixtest_value:
  assumes d: "drop 1 argv = targs e @ r" and n: "argc = 1 + length (targs e)" and l: "argc \<le> length argv"
    and w: "wf_test 0 e" and i: "\<not> short_reading e"
  shows "posixtest T argv argc 1 s = then_do (tmeaning T e s) (\<lambda>v s. Returns (v, argc) s)"
proof -
  have p: "0 < length (targs e)" by (rule targs_length)
  obtain x y where x: "targs e = x # y" using p by (cases "targs e") auto
  have d': "drop 1 argv = x # y @ r" using d x by simp
  note a = arg_at_from [OF d', simplified]
  have g: "expr_parse T argv argc argc 1 s = then_do (tmeaning T e s) (\<lambda>v s. Returns (v, argc) s)"
    using expr_parse_value [OF d w n l, of argc] by simp
  have d2: "drop (Suc 1) argv = y @ r" by (rule drop_more [OF d'])
  have z: "arg_at argv (argc - 1) s = Returns (argv ! (argc - 1)) s" for s :: "'a test_state" using n l p by (simp add: arg_at_def)
  consider "length (targs e) = 1" | "length (targs e) = 2" | "length (targs e) = 3" | "length (targs e) = 4" | "4 < length (targs e)"
    using p by linarith
  then show ?thesis
  proof cases
    case 1
    then show ?thesis using targs_1 [of e] x n by (auto simp: posixtest_def ONE_ARG_TEST_def a)
  next
    case 2
    then have "wf_test 2 e" using targs_2 [of e] w by auto
    then show ?thesis using two_arguments_value [OF d 2, of argc T s "\<lambda>v s. Returns (v, argc) s"] n 2 by (simp add: posixtest_def)
  next
    case 3
    then show ?thesis using three_arguments_value [OF d 3 w, of argc T s] n i by (simp add: posixtest_def short_reading_def)
  next
    case 4
    note f = four_words [OF 4 x w i]
    show ?thesis
    proof (cases "x = ''!''")
      case True
      then obtain u where e: "e = TNot u" using f by blast
      have "three_arguments T argv argc (Suc 1) s = then_do (tmeaning T u s) (\<lambda>v s. Returns (v, argc) s)"
        using d2 x e 4 n w wf_not_paren(1) i by (intro three_arguments_value [of _ _ _ r]) (auto simp: short_reading_def)
      then show ?thesis using True 4 n e by (simp add: posixtest_def a z [unfolded n 4, simplified] advance_def then_do_assoc)
    next
      case False
      show ?thesis
      proof (cases "x = ''(''")
        case True
        then obtain u where e: "e = TParen u" using f by blast
        have u: "length (targs u) = 2" using 4 e by simp
        have y: "y = targs u @ ['')'']" using x e by simp
        have "drop (Suc 1 + 2) argv = '')'' # r" using drop_rest [of "Suc 1" argv "targs u" "'')'' # r"] d2 y u by simp
        then have "argv ! (Suc 1 + 2) = '')''" by (rule nth_via_drop)
        then have c: "argv ! (argc - 1) = '')''" using n 4 by (simp add: eval_nat_numeral)
        have "then_do (two_arguments T argv argc (Suc 1) s) (\<lambda>(v, p) s. Returns (v, argc) s) = then_do (tmeaning T u s) (\<lambda>v s. Returns (v, argc) s)"
          using d2 y u n 4 w e wf_not_paren(2) [of u] by (intro two_arguments_value [of _ _ _ "'')'' # r"]) auto
        then show ?thesis using True 4 n e c by (simp add: posixtest_def a z [unfolded n 4, simplified] advance_def)
      next
        assume "x \<noteq> ''(''"
        then show ?thesis using False 4 n g by (simp add: posixtest_def a z [unfolded n 4, simplified])
      qed
    qed
  next
    case 5
    then show ?thesis using n g x by (auto simp: posixtest_def a z [unfolded n, simplified, unfolded x, simplified])
  qed
qed

section \<open>The command\<close>

text \<open>The status of an evaluation: what is reported is kept in the state.\<close>

definition status_of :: "(bool, 's) testing \<Rightarrow> (int, 's) testing" where
  "status_of m =
     (case m of
        Returns v s \<Rightarrow> Returns (if v then 0 else 1) (s\<lparr>tfailure := Some (T_exit (if v then 0 else 1) None)\<rparr>)
      | Leaves s \<Rightarrow> (case tfailure s of Some (T_exit status msg) \<Rightarrow> Returns status s | _ \<Rightarrow> Leaves s))"

lemma test_command_value:
  assumes "drop 1 argv = targs e @ r" "argc = 1 + length (targs e)" "argc \<le> length argv" "wf_test 0 e" "\<not> short_reading e"
    and b: "test_body T argv s = then_do (posixtest T argv argc 1 s) (\<lambda>(value, pos) s.
          if pos \<noteq> argc then
            (if pos < argc then
               then_do (arg_at argv pos s) (\<lambda>a s.
                 if byte_at a 0 = CHR ''-'' then test_syntax_error (''syntax error: `'' @ a @ [CHR 0x27] @ '' unexpected'') s
                 else test_syntax_error ''too many arguments'' s)
             else test_syntax_error ''too many arguments'' s)
          else fails (T_exit (SHELL_BOOLEAN value) None) s)"
  shows "test_command T argv s = status_of (tmeaning T e s)"
proof -
  have "test_body T argv s = then_do (tmeaning T e s) (\<lambda>v. fails (T_exit (SHELL_BOOLEAN v) None))"
    unfolding b posixtest_value [OF assms(1-5)] by (simp add: then_do_assoc)
  then show ?thesis
    by (cases "tmeaning T e s") (auto simp: test_command_def status_of_def fails_def SHELL_BOOLEAN_def split: option.split test_failure.split)
qed

lemma test_evaluates:
  assumes "wf_test 0 e" "\<not> short_reading e" "cmd \<noteq> ''[''"
  shows "test_command T (cmd # targs e) s = status_of (tmeaning T e s)"
    and "test_command T (''['' # targs e @ ['']'']) s = status_of (tmeaning T e s)"
proof -
  show "test_command T (cmd # targs e) s = status_of (tmeaning T e s)"
    using assms targs_length [of e] by (intro test_command_value [of _ _ "[]"]) (auto simp: test_body_def)
  show "test_command T (''['' # targs e @ ['']'']) s = status_of (tmeaning T e s)"
    using assms targs_length [of e] by (intro test_command_value [of _ _ "['']'']"]) (auto simp: test_body_def nth_append)
qed

section \<open>Every argument list\<close>

text \<open>A part of the evaluation returns a value with a property, or leaves by an error or a jump.\<close>

fun ends :: "('v \<Rightarrow> bool) \<Rightarrow> ('v, 's) testing \<Rightarrow> bool" where
  "ends P (Returns v s) \<longleftrightarrow> P v"
| "ends P (Leaves s) \<longleftrightarrow> tfailure s = Some T_left \<or> (\<exists>msg. tfailure s = Some (T_exit 2 (Some msg)))"

lemma ends_then_do: "ends P m \<Longrightarrow> (\<And>v s. P v \<Longrightarrow> ends Q (f v s)) \<Longrightarrow> ends Q (then_do m f)"
  by (cases m) auto

lemma ends_mono: "ends P m \<Longrightarrow> (\<And>v. P v \<Longrightarrow> Q v) \<Longrightarrow> ends Q m"
  by (cases m) auto

lemma ends_errors [simp]: "ends P (test_syntax_error msg s)" "ends P (beyond s)" "ends P (integer_expected_error w s)"
  by (simp_all add: beyond_def integer_expected_error_def test_syntax_error_def fails_def TEST_ERREXIT_STATUS_def)

lemma ends_stop [simp]: "ends P (then_do (beyond s) f)" "ends P (then_do (test_syntax_error msg s) f)"
  by (simp_all add: beyond_def test_syntax_error_def fails_def TEST_ERREXIT_STATUS_def)

lemma ends_arg_at: "i < length argv \<Longrightarrow> ends ((=) (argv ! i)) (arg_at argv i s)"
  by (simp add: arg_at_def)

lemma ends_advance: "ends (\<lambda>p. p = pos + 1 \<and> (f \<longrightarrow> p < argc)) (advance f argc pos s)"
  by (auto simp: advance_def)

lemma ends_in_env: "ends (\<lambda>v. True) (in_env f s)"
  by (auto simp: in_env_def fails_def split: outcome.split)

lemma ends_arithcomp: "ends (\<lambda>v. True) (arithcomp T a b c no_flags s)"
  by (auto simp: arithcomp_def split: option.split)

lemma ends_binary_test: "ends (\<lambda>v. True) (binary_test T x op a b no_flags s)"
  by (simp add: binary_test_def Let_def ends_arithcomp)

lemma ends_variable: "ends (\<lambda>v. True) (variable_is_set T a s)"
proof (cases "t_array_ref T (t_expand_once T) a (tenv s)")
  case True
  then show ?thesis by (auto simp: variable_is_set_def intro: ends_then_do [OF ends_in_env])
qed (simp add: variable_is_set_def split: option.split)

lemma ends_unary_test: "ends (\<lambda>v. True) (unary_test T op a s)"
  unfolding unary_test_def Let_def by (simp add: ends_variable)

lemma ends_value: "ends (\<lambda>v. True) m \<Longrightarrow> Q p \<Longrightarrow> ends (\<lambda>(v, p). Q p) (then_do m (\<lambda>v s. Returns (g v, p) s))"
  by (cases m) auto

lemma ends_binary_operator:
  assumes "pos + 3 \<le> argc" "argc \<le> length argv"
  shows "ends (\<lambda>(v, p). pos < p \<and> p \<le> argc) (binary_operator T argv argc pos s)"
  unfolding binary_operator_def Let_def using assms
  by (intro ends_then_do [OF ends_arg_at]) (auto intro!: ends_value ends_binary_test)

lemma ends_unary_operator:
  assumes "pos + 2 \<le> argc" "argc \<le> length argv" "test_unop (argv ! pos)"
  shows "ends (\<lambda>(v, p). pos < p \<and> p \<le> argc) (unary_operator T argv argc pos s)"
proof -
  have a: "arg_at argv pos s = Returns (argv ! pos) s" "arg_at argv (Suc pos) s = Returns (argv ! Suc pos) s" for s :: "'a test_state"
    using assms by (simp_all add: arg_at_def)
  show ?thesis using assms
    by (auto simp: unary_operator_def unary_advance_def advance_def a intro!: ends_value ends_unary_test)
qed

lemma ends_skip_nots:
  "pos < argc \<Longrightarrow> argc \<le> length argv \<Longrightarrow>
   ends (\<lambda>(v, p). pos \<le> p \<and> p < argc \<and> (argv ! pos = ''!'' \<longrightarrow> pos < p)) (skip_nots argv argc v pos s)"
proof (induction argv argc v pos s rule: skip_nots.induct)
  case (1 argv argc "value" pos s)
  show ?case
  proof (cases "argv ! pos = ''!'' \<and> pos + 1 < argc")
    case True
    then have "ends (\<lambda>(v, p). pos + 1 \<le> p \<and> p < argc \<and> (argv ! (pos + 1) = ''!'' \<longrightarrow> pos + 1 < p)) (skip_nots argv argc (\<not> value) (pos + 1) s)"
      using 1 by simp
    then show ?thesis using True 1(2,3) by (subst skip_nots.simps) (auto elim!: ends_mono)
  next
    case False
    then show ?thesis using 1(2,3) by (subst skip_nots.simps) auto
  qed
qed

lemma ends_simple_term:
  assumes "pos < argc" "argc \<le> length argv"
  shows "ends (\<lambda>(v, p). pos < p \<and> p \<le> argc) (simple_term T argv argc pos s)"
proof -
  have a: "arg_at argv pos s = Returns (argv ! pos) s" for s :: "'a test_state" using assms by (simp add: arg_at_def)
  have w: "pos + 3 \<le> argc \<Longrightarrow> arg_at argv (Suc pos) s = Returns (argv ! Suc pos) s" for s :: "'a test_state" using assms by (simp add: arg_at_def)
  show ?thesis using assms ends_binary_operator [of pos argc argv T s] ends_unary_operator [of pos argc argv T s]
    by (auto simp: simple_term_def a w advance_def)
qed

text \<open>The parser moves on, stays within the arguments and never meets its bound.\<close>

definition parses :: "nat \<Rightarrow> nat \<Rightarrow> (bool \<times> nat, 's) testing \<Rightarrow> bool" where
  "parses argc pos m \<longleftrightarrow> ends (\<lambda>(v, p). pos < p \<and> p \<le> argc) m"

lemma parses_connective:
  assumes "argc \<le> length argv" "parses argc pos m"
    and "\<And>p s. pos < p \<Longrightarrow> p < argc \<Longrightarrow> parses argc (p + 1) (g (p + 1) s)"
  shows "parses argc pos (then_do m (\<lambda>(v, p) s.
     if p < argc then then_do (arg_at argv p s) (\<lambda>a s.
       if a = c then then_do (advance False argc p s) (\<lambda>p s. then_do (g p s) (\<lambda>(w, p) s. Returns (h v w, p) s))
       else Returns (v, p) s) else Returns (v, p) s))"
  unfolding parses_def
proof (rule ends_then_do [OF assms(2) [unfolded parses_def]])
  fix r s assume "case r of (v :: bool, p) \<Rightarrow> pos < p \<and> p \<le> argc"
  then obtain v p where r: "r = (v, p)" and p: "pos < p" "p \<le> argc" by (cases r) auto
  have "p < argc \<Longrightarrow> ends (\<lambda>(v, q). pos < q \<and> q \<le> argc) (then_do (g (Suc p) s) (\<lambda>(w, q) s. Returns (h v w, q) s))"
    using assms(3) [of p s] p by (intro ends_then_do [of "\<lambda>(v, q). p + 1 < q \<and> q \<le> argc"]) (auto simp: parses_def)
  then show "ends (\<lambda>(v, p). pos < p \<and> p \<le> argc) ((case r of (v, p) \<Rightarrow> \<lambda>s.
     if p < argc then then_do (arg_at argv p s) (\<lambda>a s.
       if a = c then then_do (advance False argc p s) (\<lambda>p s. then_do (g p s) (\<lambda>(w, p) s. Returns (h v w, p) s))
       else Returns (v, p) s) else Returns (v, p) s) s)"
    using p assms(1) by (auto simp: r arg_at_def advance_def)
qed

lemma parses_term:
  assumes "argc \<le> length argv" "pos < argc" "argc < pos + Suc n" and z: "argc < length argv \<Longrightarrow> argv ! argc \<noteq> '')''"
    and t: "\<And>p s. p < argc \<Longrightarrow> argc < p + n \<Longrightarrow> parses argc p (term_parse T argv argc n p s)"
    and e: "\<And>p s. p < argc \<Longrightarrow> argc < p + n \<Longrightarrow> parses argc p (expr_parse T argv argc n p s)"
  shows "parses argc pos (term_parse T argv argc (Suc n) pos s)"
proof -
  have a: "arg_at argv p s = Returns (argv ! p) s" if "p < length argv" for p and s :: "'a test_state" using that by (simp add: arg_at_def)
  consider "argv ! pos = ''!''" | "argv ! pos = ''(''" | "argv ! pos \<noteq> ''!''" "argv ! pos \<noteq> ''(''" by auto
  then show ?thesis
  proof cases
    case 1
    have "ends (\<lambda>(v, p). pos < p \<and> p \<le> argc) (then_do (skip_nots argv argc False pos s) (\<lambda>(value, pos) s.
            then_do (term_parse T argv argc n pos s) (\<lambda>(v, pos) s. Returns (if value then \<not> v else v, pos) s)))"
    proof (rule ends_then_do [OF ends_skip_nots [OF assms(2,1)]])
      fix r :: "bool \<times> nat" and s :: "'a test_state" assume "case r of (v, p) \<Rightarrow> pos \<le> p \<and> p < argc \<and> (argv ! pos = ''!'' \<longrightarrow> pos < p)"
      then obtain v p where r: "r = (v, p)" and p: "pos < p" "p < argc" using 1 by (cases r) auto
      have "ends (\<lambda>(v, q). p < q \<and> q \<le> argc) (term_parse T argv argc n p s)"
        using t [of p s] p assms(3) by (simp add: parses_def)
      then show "ends (\<lambda>(v, p). pos < p \<and> p \<le> argc) ((case r of (value, pos) \<Rightarrow> \<lambda>s.
            then_do (term_parse T argv argc n pos s) (\<lambda>(v, pos) s. Returns (if value then \<not> v else v, pos) s)) s)"
        unfolding r using p by (auto intro!: ends_then_do [of "\<lambda>(v, q). p < q \<and> q \<le> argc"])
    qed
    then show ?thesis using 1 assms(1,2) by (simp add: parses_def term_parse.simps [of T argv argc "Suc n"] a)
  next
    case 2
    show ?thesis
    proof (cases "pos + 1 < argc")
      case True
      have "ends (\<lambda>(v, q). pos + 1 < q \<and> q \<le> argc) (expr_parse T argv argc n (Suc pos) s)"
        using e [of "pos + 1" s] True assms(3) by (simp add: parses_def)
      then have "ends (\<lambda>(v, p). pos < p \<and> p \<le> argc) (then_do (expr_parse T argv argc n (Suc pos) s) (\<lambda>(value, pos) s.
              if pos = length argv then test_syntax_error ''`)' expected'' s
              else then_do (arg_at argv pos s) (\<lambda>b s.
                if b \<noteq> '')'' then test_syntax_error (''`)' expected, found '' @ b) s
                else then_do (advance False argc pos s) (\<lambda>pos s. Returns (value, pos) s))))"
        using assms(1) z by (auto elim!: ends_then_do simp: a advance_def le_less)
      then show ?thesis using 2 True assms(1,2)
        by (simp add: parses_def term_parse.simps [of T argv argc "Suc n"] a advance_def)
    next
      case False
      then show ?thesis using 2 assms(1,2) by (simp add: parses_def term_parse.simps [of T argv argc "Suc n"] a advance_def)
    qed
  next
    case 3
    then show ?thesis using assms(1,2) ends_simple_term [OF assms(2,1)]
      by (simp add: parses_def term_parse.simps [of T argv argc "Suc n"] a)
  qed
qed

lemma parses_all:
  assumes "argc \<le> length argv" "argc < length argv \<Longrightarrow> argv ! argc \<noteq> '')''"
  shows "pos \<le> argc \<Longrightarrow> argc < pos + n \<Longrightarrow>
    parses argc pos (term_parse T argv argc n pos s) \<and> parses argc pos (and_parse T argv argc n pos s) \<and>
    parses argc pos (or_parse T argv argc n pos s) \<and> parses argc pos (expr_parse T argv argc n pos s)"
proof (induction n arbitrary: pos s)
  case (Suc n)
  have n: "argc < p + 1 + n" if "pos < p" for p using that Suc.prems(2) by simp
  have t: "parses argc pos (term_parse T argv argc (Suc n) pos s)"
  proof (cases "pos < argc")
    case True
    then show ?thesis using Suc assms by (intro parses_term) auto
  qed (simp add: parses_def term_parse.simps [of T argv argc "Suc n"])
  have a: "parses argc pos (and_parse T argv argc (Suc n) pos s)"
    using Suc.IH n assms(1)
    by (simp add: and_parse.simps [of T argv argc "Suc n"]) (rule parses_connective [OF assms(1) t], simp)
  have o: "parses argc pos (or_parse T argv argc (Suc n) pos s)"
    using Suc.IH n assms(1)
    by (simp add: or_parse.simps [of T argv argc "Suc n"]) (rule parses_connective [OF assms(1) a], simp)
  then show ?case using t a by (simp add: expr_parse.simps) (simp add: parses_def)
qed simp

lemma ends_two_arguments:
  assumes "pos + 2 \<le> argc" "argc \<le> length argv"
  shows "ends (\<lambda>v. True) (two_arguments T argv argc pos s)"
proof -
  have a: "arg_at argv pos s = Returns (argv ! pos) s" "arg_at argv (Suc pos) s = Returns (argv ! Suc pos) s" for s :: "'a test_state"
    using assms by (simp_all add: arg_at_def)
  show ?thesis using ends_mono [OF ends_unary_operator [of pos argc argv T s], of "\<lambda>v. True"] assms
    by (simp add: two_arguments_def a)
qed

lemma ends_three_arguments:
  assumes "pos + 3 \<le> argc" "argc \<le> length argv"
  shows "ends (\<lambda>(v, p). p = argc) (three_arguments T argv argc pos s)"
proof -
  have a: "arg_at argv pos s = Returns (argv ! pos) s" "arg_at argv (Suc pos) s = Returns (argv ! Suc pos) s"
    "arg_at argv (Suc (Suc pos)) s = Returns (argv ! Suc (Suc pos)) s" for s :: "'a test_state"
    using assms by (simp_all add: arg_at_def)
  show ?thesis using assms ends_binary_operator [OF assms, of T s] ends_two_arguments [of "Suc pos" argc argv T s]
    by (auto simp: three_arguments_def a advance_def intro!: ends_then_do)
qed

lemma ends_any: "ends (\<lambda>v. True) m \<Longrightarrow> (\<And>v p s. ends Q (f v p s)) \<Longrightarrow> ends Q (then_do m (\<lambda>(v, p) s. f v p s))"
  by (cases m) auto

lemma ends_posixtest:
  assumes "2 \<le> argc" "argc \<le> length argv" "argc < length argv \<Longrightarrow> argv ! argc \<noteq> '')''"
  shows "ends (\<lambda>(v, p). p \<le> argc) (posixtest T argv argc 1 s)"
proof -
  have a: "arg_at argv (Suc 0) s = Returns (argv ! Suc 0) s" "arg_at argv (argc - Suc 0) s = Returns (argv ! (argc - Suc 0)) s" for s :: "'a test_state"
    using assms less_imp_diff_less [of "argc - 1" "length argv" 0] by (auto simp: arg_at_def)
  have "parses argc 1 (expr_parse T argv argc argc 1 s)" using parses_all [OF assms(2,3), of 1 argc T s] assms(1) by simp
  then have e: "ends (\<lambda>(v, p). p \<le> argc) (expr_parse T argv argc argc (Suc 0) s)" by (auto simp: parses_def elim: ends_mono)
  consider "argc - 1 = 1" | "argc - 1 = 2" | "argc - 1 = 3" | "argc - 1 = 4" | "4 < argc - 1" using assms(1) by linarith
  then show ?thesis
  proof cases
    case 2
    then show ?thesis using assms ends_two_arguments [of 1 argc argv T s] by (auto simp: posixtest_def intro!: ends_any)
  next
    case 3
    then have "1 + 3 \<le> argc" by simp
    then have "ends (\<lambda>(v, p). p \<le> argc) (three_arguments T argv argc 1 s)"
      using ends_mono [OF ends_three_arguments [of 1 argc argv T s], of "\<lambda>(v, p). p \<le> argc"] assms(2) by auto
    then show ?thesis using 3 by (simp add: posixtest_def)
  next
    case 4
    then have 5: "argc = 5" by simp
    have two: "ends (\<lambda>v. True) (two_arguments T argv 5 (Suc (Suc 0)) s)" for s
      using ends_two_arguments [of "Suc (Suc 0)" 5 argv T s] assms(2) 5 by simp
    have three: "ends (\<lambda>(v, p). p \<le> 5) (then_do (three_arguments T argv 5 (Suc (Suc 0)) s) (\<lambda>(value, pos) s. Returns (\<not> value, pos) s))" for s
      using assms(2) 5 by (intro ends_then_do [OF ends_three_arguments [of "Suc (Suc 0)" 5 argv T s]]) auto
    have "arg_at argv 4 s = Returns (argv ! 4) s" for s :: "'a test_state" using assms(2) 5 by (simp add: arg_at_def)
    then show ?thesis using e two three a(1) by (auto simp: 5 posixtest_def advance_def a(1) intro!: ends_any)
  qed (use assms e in \<open>auto simp: posixtest_def a\<close>)
qed

lemma ends_test_body:
  "case test_body T argv s of Returns v s' \<Rightarrow> False
   | Leaves s' \<Rightarrow> tfailure s' = Some T_left \<or> (\<exists>status msg. tfailure s' = Some (T_exit status msg) \<and>
       (status = 2 \<and> msg \<noteq> None \<or> (status = 0 \<or> status = 1) \<and> msg = None))"
proof -
  define bracket where "bracket = (argv \<noteq> [] \<and> argv ! 0 = ''['')"
  define argc where "argc = (if bracket then length argv - 1 else length argv)"
  have l: "argc \<le> length argv" by (simp add: argc_def)
  have err: "case test_syntax_error msg s of Returns v s' \<Rightarrow> False
   | Leaves s' \<Rightarrow> tfailure s' = Some T_left \<or> (\<exists>status msg. tfailure s' = Some (T_exit status msg) \<and>
       (status = 2 \<and> msg \<noteq> None \<or> (status = 0 \<or> status = 1) \<and> msg = None))" for msg and s :: "'a test_state"
    by (simp add: test_syntax_error_def fails_def TEST_ERREXIT_STATUS_def)
  show ?thesis
  proof (cases "bracket \<and> argv ! argc \<noteq> '']'' \<or> argc \<le> 1")
    case True
    then show ?thesis using err unfolding test_body_def Let_def bracket_def [symmetric] argc_def [symmetric]
      by (auto simp: fails_def SHELL_BOOLEAN_def)
  next
    case False
    have z: "argc < length argv \<Longrightarrow> argv ! argc \<noteq> '')''" using False by (auto simp: argc_def split: if_splits)
    have b: "test_body T argv s = then_do (posixtest T argv argc 1 s) (\<lambda>(value, pos) s.
          if pos \<noteq> argc then
            (if pos < argc then
               then_do (arg_at argv pos s) (\<lambda>a s.
                 if byte_at a 0 = CHR ''-'' then test_syntax_error (''syntax error: `'' @ a @ [CHR 0x27] @ '' unexpected'') s
                 else test_syntax_error ''too many arguments'' s)
             else test_syntax_error ''too many arguments'' s)
          else fails (T_exit (SHELL_BOOLEAN value) None) s)"
      using False unfolding test_body_def Let_def bracket_def [symmetric] argc_def [symmetric] by auto
    have e: "ends (\<lambda>(v, p). p \<le> argc) (posixtest T argv argc 1 s)" using ends_posixtest [OF _ l z] False by simp
    show ?thesis
    proof (cases "posixtest T argv argc 1 s")
      case (Returns r s')
      obtain v p where r: "r = (v, p)" by (cases r)
      then have "p \<le> argc" using e Returns by simp
      then show ?thesis using l unfolding b Returns r then_do.simps prod.case by (auto simp: arg_at_def err fails_def SHELL_BOOLEAN_def)
    next
      case (Leaves s')
      then show ?thesis using e unfolding b by auto
    qed
  qed
qed

text \<open>
  C13. Property of \<open>test_command\<close>, for every list of words and every state of the shell: the command
  returns, with status 0, 1 or 2, and reports an error exactly if the status is 2; no word is read
  that is not there and the bound on the recursion is never met. The only other end is a jump out of
  the expansion of a subscript, which \<open>-v\<close> may start.
\<close>

theorem test_returns_status:
  "case test_command T argv s of
     Returns status s' \<Rightarrow> status \<in> {0, 1, 2} \<and> (\<exists>msg. tfailure s' = Some (T_exit status msg) \<and> (msg \<noteq> None \<longleftrightarrow> status = 2))
   | Leaves s' \<Rightarrow> tfailure s' = Some T_left"
  using ends_test_body [of T argv s] by (auto simp: test_command_def split: outcome.splits)

section \<open>The theorems\<close>

text \<open>A system with one directory and one regular file, whose shell keeps numbers.\<close>

definition small_system :: "(string \<Rightarrow> intmax) test_ops" where
  "small_system =
     \<lparr>t_stat = [''/etc'' \<mapsto> \<lparr>st_dev = 1, st_ino = 2, st_mode = 0x41ED, st_uid = 0, st_gid = 0, st_size = 4096, st_atim = (5, 0), st_mtim = (3, 7)\<rparr>,
        ''/etc/motd'' \<mapsto> \<lparr>st_dev = 1, st_ino = 3, st_mode = 0x81A4, st_uid = 0, st_gid = 0, st_size = 0, st_atim = (4, 0), st_mtim = (3, 9)\<rparr>],
      t_lstat = Map.empty, t_faccessat = \<lambda>path mode. True, t_isatty = \<lambda>fd. False, t_dev_fd_prefix = ''/proc/self/fd/'',
      t_euid = 0, t_egid = 0, t_group_member = \<lambda>g. g = 0, t_strcoll = c_strcmp, t_match = C_locale, t_ignore_case = False,
      t_compat = 52, t_expand_once = False, t_option_value = \<lambda>name. 0, t_arith = number_shell,
      t_array_ref = \<lambda>noexpand arg env. False, t_array_value = \<lambda>noexpand keys arg env. Returns None env,
      t_number_of_args = \<lambda>env. 2, t_find_variable = \<lambda>name env. None, t_find_variable_noref = \<lambda>name env. None\<rparr>"

definition fresh :: "(string \<Rightarrow> intmax) test_state" where
  "fresh = \<lparr>tenv = idle (\<lambda>x. 0), tfailure = None\<rparr>"

text \<open>
  C11. Property of \<open>test_command\<close> and \<open>posixtest\<close>: on the words of every expression of the grammar, under
  any name and in brackets, the status is that of the meaning of the expression: negation binds
  closest, \<open>-a\<close> before \<open>-o\<close>, both operands are evaluated from left to right and the first
  error decides; the rules for one to four arguments agree with the grammar, but for the readings
  of \<open>short_reading\<close>.
\<close>

theorem test_computes_meaning:
  assumes "wf_test 0 e" "\<not> short_reading e" "cmd \<noteq> ''[''"
  shows "test_command T (cmd # targs e) s = status_of (tmeaning T e s) \<and>
    test_command T (''['' # targs e @ ['']'']) s = status_of (tmeaning T e s)"
  using assms by (intro conjI test_evaluates)

text \<open>Not a regular file, and in parentheses a comparison or a string.\<close>

theorem test_computes_meaning_witness:
  "test_command small_system [''['', ''!'', ''-f'', ''/etc'', ''-a'', ''('', ''2'', ''-gt'', ''10'', ''-o'', ''x'', '')'', '']''] fresh =
     Returns 0 (fresh\<lparr>tfailure := Some (T_exit 0 None)\<rparr>)"
proof -
  let ?e = "TAnd (TNot (TUnary ''-f'' ''/etc'')) (TParen (TOr (TBinary ''2'' ''-gt'' ''10'') (TString ''x'')))"
  have w: "wf_test 0 ?e" "\<not> short_reading ?e"
    by (simp_all add: plain_word_def test_unop_def test_binop_def byte_at_def short_reading_def connective_reading_def)
  have m: "tmeaning small_system ?e fresh = Returns True fresh"
  proof -
    have "legal_number ''2'' = Some 2" "legal_number ''10'' = Some 10" by code_simp+
    then have "binary_test small_system False ''-gt'' ''2'' ''10'' no_flags fresh = Returns False fresh"
      by (simp add: binary_test_def Let_def byte_at_def arithcomp_def word_sless_alt)
    moreover have "unary_test small_system ''-f'' ''/etc'' fresh = Returns False fresh"
      by (simp add: unary_test_def Let_def byte_at_def sh_stat_def small_system_def has_type_def S_IFMT_def)
    ultimately show ?thesis by simp
  qed
  show ?thesis using test_computes_meaning [OF w, of "''test''" small_system fresh] unfolding m
    by (simp add: status_of_def)
qed

text \<open>
  C27. Property of \<open>posixtest\<close> and \<open>three_arguments\<close>: with four words a leading \<open>!\<close> negates the connective
  of two strings, although with more words it negates the first one; and three words count as
  parentheses when the first begins with \<open>(\<close> and the last with \<open>)\<close>, whatever follows.
\<close>
theorem test_short_readings:
  assumes "plain_word v" "plain_word w" "plain_word x"
  shows "test_command T [''test'', ''!'', v, ''-a'', w] s = status_of (Returns (v = [] \<or> w = []) s) \<and>
    test_command T [''test'', ''!'', v, ''-a'', w, ''-a'', x] s = status_of (Returns (v = [] \<and> w \<noteq> [] \<and> x \<noteq> []) s) \<and>
    test_command T [''test'', CHR ''('' # a, x, CHR '')'' # b] s = status_of (Returns (x \<noteq> []) s)"
proof (intro conjI)
  show "test_command T [''test'', ''!'', v, ''-a'', w] s = status_of (Returns (v = [] \<or> w = []) s)"
    by (simp add: test_command_def test_body_def posixtest_def three_arguments_def arg_at_def advance_def ANDOR_def
        ONE_ARG_TEST_def byte_at_def status_of_def fails_def SHELL_BOOLEAN_def)
  have "test_command T (''test'' # targs (TAnd (TNot (TString v)) (TAnd (TString w) (TString x)))) s =
      status_of (tmeaning T (TAnd (TNot (TString v)) (TAnd (TString w) (TString x))) s)"
    using assms by (intro test_evaluates) (auto simp: short_reading_def connective_reading_def)
  then show "test_command T [''test'', ''!'', v, ''-a'', w, ''-a'', x] s = status_of (Returns (v = [] \<and> w \<noteq> [] \<and> x \<noteq> []) s)"
    by simp
  have "\<not> ANDOR x" using assms(3) by (auto simp: plain_word_def ANDOR_def test_unop_def byte_at_def)
  then show "test_command T [''test'', CHR ''('' # a, x, CHR '')'' # b] s = status_of (Returns (x \<noteq> []) s)"
    using assms(3) by (simp add: test_command_def test_body_def posixtest_def three_arguments_def arg_at_def plain_word_def
        ONE_ARG_TEST_def byte_at_def status_of_def fails_def SHELL_BOOLEAN_def)
qed

text \<open>Empty strings make the difference; \<open>(a\<close> and \<open>)c\<close> are no parentheses.\<close>

theorem test_short_readings_witness:
  "test_command small_system [''test'', ''!'', [], ''-a'', []] fresh = status_of (Returns True fresh) \<and>
   test_command small_system [''test'', ''!'', [], ''-a'', [], ''-a'', ''x''] fresh = status_of (Returns False fresh) \<and>
   test_command small_system [''test'', ''(a'', ''x'', '')c''] fresh = status_of (Returns True fresh)"
  using test_short_readings [of "[]" "[]" "''x''" small_system fresh "''a''" "''c''"]
  by (simp add: plain_word_def test_unop_def test_binop_def byte_at_def)

end
