(* ===== verification/Bash_CondSem.thy ===== *)
theory Bash_CondSem imports Bash_TestSem Bash_ExprMeaning begin

text \<open>
  What conditions mean: the comparisons of files as an order, and the conditional command over
  arithmetic comparisons, where \<open>execute_cond_node\<close> and the arithmetic evaluator work together.
\<close>

section \<open>Files by their age\<close>

text \<open>A file that is not there is older than every other.\<close>

definition older :: "(int \<times> int) option \<Rightarrow> (int \<times> int) option \<Rightarrow> bool" where
  "older a b =
     (case (a, b) of
        (_, None) \<Rightarrow> False
      | (None, Some _) \<Rightarrow> True
      | (Some (s, n), Some (s', n')) \<Rightarrow> s < s' \<or> s = s' \<and> n < n')"

lemma timespec_cmp_less: "timespec_cmp a b < 0 \<longleftrightarrow> fst a < fst b \<or> fst a = fst b \<and> snd a < snd b"
  by (auto simp: timespec_cmp_def)

lemma timespec_cmp_greater: "timespec_cmp a b > 0 \<longleftrightarrow> fst b < fst a \<or> fst a = fst b \<and> snd b < snd a"
  by (auto simp: timespec_cmp_def)

text \<open>
  Property of \<open>filecomp\<close>: \<open>-ot\<close> compares the times of the last modification, with a missing file
  before all others, and \<open>-nt\<close> is its converse; so of two files at most one is newer, the
  comparison is transitive, and files of which neither is newer compare alike with every third.
\<close>

theorem filecomp_orders_files:
  "filecomp T a b CMP_OT = older (stat_mtime T a) (stat_mtime T b) \<and>
   filecomp T a b CMP_NT = filecomp T b a CMP_OT \<and>
   \<not> (filecomp T a b CMP_NT \<and> filecomp T a b CMP_OT) \<and>
   \<not> (filecomp T a b CMP_NT \<and> filecomp T b c CMP_NT \<and> \<not> filecomp T a c CMP_NT) \<and>
   (filecomp T a c CMP_NT = filecomp T b c CMP_NT \<or> filecomp T a b CMP_NT \<or> filecomp T b a CMP_NT)"
  by (cases "stat_mtime T a"; cases "stat_mtime T b"; cases "stat_mtime T c")
    (auto simp: filecomp_def older_def timespec_cmp_less timespec_cmp_greater)

section \<open>Conditions over numbers\<close>

datatype ncond = Compare aexp arith_cmp aexp | NNot ncond | NAnd ncond ncond | NOr ncond ncond

fun cmp_word :: "arith_cmp \<Rightarrow> string" where
  "cmp_word CMP_EQ = ''-eq''"
| "cmp_word CMP_NE = ''-ne''"
| "cmp_word CMP_LT = ''-lt''"
| "cmp_word CMP_GT = ''-gt''"
| "cmp_word CMP_LE = ''-le''"
| "cmp_word CMP_GE = ''-ge''"

fun cond_tree :: "ncond \<Rightarrow> cond" where
  "cond_tree (Compare a c b) = COND_BINARY False (cmp_word c) (text_of (tokens 0 a)) (text_of (tokens 0 b))"
| "cond_tree (NNot x) = COND_EXPR True (cond_tree x)"
| "cond_tree (NAnd x y) = COND_AND False (cond_tree x) (cond_tree y)"
| "cond_tree (NOr x y) = COND_OR False (cond_tree x) (cond_tree y)"

text \<open>A comparison with an erroneous side is false; the left side is evaluated first.\<close>

fun ncond_value :: "('s \<Rightarrow> string \<Rightarrow> intmax) \<Rightarrow> ('s \<Rightarrow> string \<Rightarrow> intmax \<Rightarrow> 's) \<Rightarrow> ncond \<Rightarrow> 's \<Rightarrow> bool \<times> 's" where
  "ncond_value iv upd (Compare a c b) sh =
     (case sem iv upd False a sh of
        (None, sh) \<Rightarrow> (False, sh)
      | (Some l, sh) \<Rightarrow>
          (case sem iv upd False b sh of
             (None, sh) \<Rightarrow> (False, sh)
           | (Some r, sh) \<Rightarrow> (cmp_holds c l r, sh)))"
| "ncond_value iv upd (NNot x) sh = (case ncond_value iv upd x sh of (v, sh) \<Rightarrow> (\<not> v, sh))"
| "ncond_value iv upd (NAnd x y) sh =
     (case ncond_value iv upd x sh of (v, sh) \<Rightarrow> if v then ncond_value iv upd y sh else (False, sh))"
| "ncond_value iv upd (NOr x y) sh =
     (case ncond_value iv upd x sh of (v, sh) \<Rightarrow> if v then (True, sh) else ncond_value iv upd y sh)"

fun wf_ncond :: "ncond \<Rightarrow> bool" where
  "wf_ncond (Compare a c b) \<longleftrightarrow> wf_aexp a \<and> wf_aexp b"
| "wf_ncond (NNot x) \<longleftrightarrow> wf_ncond x"
| "wf_ncond (NAnd x y) \<longleftrightarrow> wf_ncond x \<and> wf_ncond y"
| "wf_ncond (NOr x y) \<longleftrightarrow> wf_ncond x \<and> wf_ncond y"

lemma binary_test_arith: "binary_test T x (cmp_word c) a b flags s = arithcomp T a b c flags s"
  by (cases c) (simp_all add: binary_test_def Let_def byte_at_def)

text \<open>One side of a comparison, evaluated.\<close>

lemma side_value:
  assumes "integer_shell E iv upd" "wf_aexp e" "expr_stack (tenv s) = []" "sem iv upd False e (shell (tenv s)) = (r, sh)"
  shows "\<exists>s' v. in_env (evalexp E (text_of (tokens 0 e)) flags) s = Returns (v, r \<noteq> None) s' \<and> (\<forall>w. r = Some w \<longrightarrow> v = w) \<and>
    shell (tenv s') = sh \<and> expr_stack (tenv s') = []"
proof (cases r)
  case None
  then obtain e' where e: "evalexp E (text_of (tokens 0 e)) flags (tenv s) = Returns (0, False) e'" "shell e' = sh"
    using evalexp_error [OF assms(1-3), of sh flags] assms(4) by auto
  then show ?thesis using e evalexp_stack [OF assms(3) e(1)] None by (simp add: in_env_def)
next
  case (Some v)
  then obtain e' where e: "evalexp E (text_of (tokens 0 e)) flags (tenv s) = Returns (v, True) e'" "shell e' = sh"
    using evalexp_value [OF assms(1-3), of v sh flags] assms(4) by auto
  then show ?thesis using e evalexp_stack [OF assms(3) e(1)] Some by (simp add: in_env_def)
qed

text \<open>What the condition leaves: its status, the shell and the empty stack of the evaluator.\<close>

definition leaves_value :: "bool \<Rightarrow> 's \<Rightarrow> (int, 's) testing \<Rightarrow> bool" where
  "leaves_value v sh m \<longleftrightarrow> (\<exists>s. m = Returns (success_if v) s \<and> shell (tenv s) = sh \<and> expr_stack (tenv s) = [])"

lemma comparison_value:
  assumes E: "integer_shell (t_arith T) iv upd" and w: "wf_aexp a" "wf_aexp b" and s: "expr_stack (tenv s) = []"
    and v: "ncond_value iv upd (Compare a c b) (shell (tenv s)) = (v, sh)"
  shows "leaves_value v sh (then_do (arithcomp T (text_of (tokens 0 a)) (text_of (tokens 0 b)) c cond_flags s) (\<lambda>v. Returns (success_if v)))"
proof -
  obtain r sh1 where a: "sem iv upd False a (shell (tenv s)) = (r, sh1)" by (cases "sem iv upd False a (shell (tenv s))")
  obtain s1 l where l: "in_env (evalexp (t_arith T) (text_of (tokens 0 a)) (t_compat T \<le> 51)) s = Returns (l, r \<noteq> None) s1"
    "\<forall>w. r = Some w \<longrightarrow> l = w" "shell (tenv s1) = sh1" "expr_stack (tenv s1) = []"
    using side_value [OF E w(1) s a] by blast
  show ?thesis
  proof (cases r)
    case None
    then show ?thesis using l v a by (auto simp: arithcomp_def leaves_value_def)
  next
    case (Some x)
    obtain q sh2 where b: "sem iv upd False b (shell (tenv s1)) = (q, sh2)" by (cases "sem iv upd False b (shell (tenv s1))")
    obtain s2 m where m: "in_env (evalexp (t_arith T) (text_of (tokens 0 b)) (t_compat T \<le> 51)) s1 = Returns (m, q \<noteq> None) s2"
      "\<forall>w. q = Some w \<longrightarrow> m = w" "shell (tenv s2) = sh2" "expr_stack (tenv s2) = []"
      using side_value [OF E w(2) l(4) b] by blast
    show ?thesis using Some l m v a b by (cases q) (auto simp: arithcomp_def leaves_value_def)
  qed
qed

text \<open>Words that are expanded to themselves.\<close>

fun expands_itself :: "'s cond_ops \<Rightarrow> ncond \<Rightarrow> bool" where
  "expands_itself C (Compare a c b) \<longleftrightarrow>
     (c_expand C 3 (text_of (tokens 0 a)) = Returns (Some (text_of (tokens 0 a)))) \<and>
     (c_expand C 3 (text_of (tokens 0 b)) = Returns (Some (text_of (tokens 0 b))))"
| "expands_itself C (NNot x) \<longleftrightarrow> expands_itself C x"
| "expands_itself C (NAnd x y) \<longleftrightarrow> expands_itself C x \<and> expands_itself C y"
| "expands_itself C (NOr x y) \<longleftrightarrow> expands_itself C x \<and> expands_itself C y"

lemma cond_value:
  assumes E: "integer_shell (t_arith (c_test C)) iv upd"
  shows "wf_ncond c \<Longrightarrow> expands_itself C c \<Longrightarrow> expr_stack (tenv s) = [] \<Longrightarrow> ncond_value iv upd c (shell (tenv s)) = (v, sh) \<Longrightarrow>
    leaves_value v sh (execute_cond_node C (cond_tree c) s)"
proof (induction c arbitrary: s v sh)
  case (Compare a op b)
  have x: "cond_expand_word C 3 (text_of (tokens 0 a)) s = Returns (text_of (tokens 0 a)) s"
    "cond_expand_word C 3 (text_of (tokens 0 b)) s = Returns (text_of (tokens 0 b)) s" for s
    using Compare.prems(2) by (simp_all add: cond_expand_word_def in_env_def)
  have o: "cmp_word op \<in> {''-eq'', ''-ne'', ''-lt'', ''-le'', ''-gt'', ''-ge''}" "cmp_word op \<noteq> ''=~''" by (cases op; simp)+
  have "leaves_value v sh (then_do (arithcomp (c_test C) (text_of (tokens 0 a)) (text_of (tokens 0 b)) op cond_flags s) (\<lambda>v. Returns (success_if v)))"
    using comparison_value [OF E _ _ Compare.prems(3,4)] Compare.prems(1) by simp
  then show ?case using o by (simp add: cond_binary_def Let_def x binary_test_arith inverted_def)
next
  case (NNot x)
  obtain u sh' where u: "ncond_value iv upd x (shell (tenv s)) = (u, sh')" by (cases "ncond_value iv upd x (shell (tenv s))")
  then have "leaves_value u sh' (execute_cond_node C (cond_tree x) s)" using NNot by simp
  then show ?case using NNot.prems(4) u by (auto simp: leaves_value_def inverted_def success_if_def EXECUTION_SUCCESS_def EXECUTION_FAILURE_def)
next
  case (NAnd x y)
  obtain u sh' where u: "ncond_value iv upd x (shell (tenv s)) = (u, sh')" by (cases "ncond_value iv upd x (shell (tenv s))")
  then have "leaves_value u sh' (execute_cond_node C (cond_tree x) s)" using NAnd by simp
  then obtain s' where s': "execute_cond_node C (cond_tree x) s = Returns (success_if u) s'" "shell (tenv s') = sh'" "expr_stack (tenv s') = []"
    by (auto simp: leaves_value_def)
  show ?case
  proof (cases u)
    case True
    then have "leaves_value v sh (execute_cond_node C (cond_tree y) s')" using NAnd u s' by simp
    then show ?thesis using True s' by (auto simp: leaves_value_def inverted_def success_if_def EXECUTION_SUCCESS_def)
  next
    case False
    then show ?thesis using NAnd.prems(4) u s'
      by (auto simp: leaves_value_def inverted_def success_if_def EXECUTION_SUCCESS_def EXECUTION_FAILURE_def)
  qed
next
  case (NOr x y)
  obtain u sh' where u: "ncond_value iv upd x (shell (tenv s)) = (u, sh')" by (cases "ncond_value iv upd x (shell (tenv s))")
  then have "leaves_value u sh' (execute_cond_node C (cond_tree x) s)" using NOr by simp
  then obtain s' where s': "execute_cond_node C (cond_tree x) s = Returns (success_if u) s'" "shell (tenv s') = sh'" "expr_stack (tenv s') = []"
    by (auto simp: leaves_value_def)
  show ?case
  proof (cases u)
    case False
    then have "leaves_value v sh (execute_cond_node C (cond_tree y) s')" using NOr u s' by simp
    then show ?thesis using False s'
      by (auto simp: leaves_value_def inverted_def success_if_def EXECUTION_SUCCESS_def EXECUTION_FAILURE_def)
  next
    case True
    then show ?thesis using NOr.prems(4) u s'
      by (auto simp: leaves_value_def inverted_def success_if_def EXECUTION_SUCCESS_def EXECUTION_FAILURE_def)
  qed
qed

text \<open>
  C12. Property of \<open>execute_cond_node\<close>, \<open>binary_test\<close>, \<open>arithcomp\<close> and \<open>evalexp\<close>: a conditional command over
  arithmetic comparisons of any expressions, combined by \<open>!\<close>, \<open>&&\<close> and \<open>||\<close>, returns the truth
  value C gives it and makes the assignments of just the comparisons that decide it, in order;
  a comparison with an erroneous side is false and its right side is not evaluated when the left
  one fails. This in a shell whose variables read as integers, without being an error, and can be assigned
  (\<open>integer_shell\<close>), for operands that their expansion leaves as they are (\<open>expands_itself\<close>).
\<close>

theorem cond_computes_comparisons:
  assumes "integer_shell (t_arith (c_test C)) iv upd" "wf_ncond c" "expands_itself C c" "expr_stack (tenv s) = []"
  shows "\<exists>s'. execute_cond_node C (cond_tree c) s = Returns (if fst (ncond_value iv upd c (shell (tenv s))) then 0 else 1) s' \<and>
    shell (tenv s') = snd (ncond_value iv upd c (shell (tenv s))) \<and> expr_stack (tenv s') = []"
  using cond_value [OF assms, of "fst (ncond_value iv upd c (shell (tenv s)))" "snd (ncond_value iv upd c (shell (tenv s)))"]
  by (auto simp: leaves_value_def success_if_def EXECUTION_SUCCESS_def EXECUTION_FAILURE_def)

text \<open>\<open>[[ x++ -lt 0 || ! 1/0 -eq 0 ]]\<close> with all variables 0.\<close>

theorem cond_computes_comparisons_witness:
  "\<exists>s. execute_cond_node \<lparr>c_test = small_system, c_expand = \<lambda>m w. Returns (Some w), c_regmatch = \<lambda>a b. Returns 1\<rparr>
      (COND_OR False (COND_BINARY False ''-lt'' ''x ++ '' ''0 '') (COND_EXPR True (COND_BINARY False ''-eq'' ''1 / 0 '' ''0 ''))) fresh =
      Returns 0 s \<and> shell (tenv s) = (\<lambda>x. 0) (''x'' := 1)"
proof -
  let ?C = "\<lparr>c_test = small_system, c_expand = \<lambda>m w. Returns (Some w), c_regmatch = \<lambda>a b. Returns 1\<rparr>"
  let ?c = "NOr (Compare (Post True ''x'') CMP_LT (Num 0)) (NNot (Compare (Binary DIV (Num 1) (Num 0)) CMP_EQ (Num 0)))"
  have t: "text_of (tokens 0 (Post True ''x'')) = ''x ++ ''" "text_of (tokens 0 (Num 0)) = ''0 ''"
    "text_of (tokens 0 (Binary DIV (Num 1) (Num 0))) = ''1 / 0 ''" by code_simp+
  have w: "wf_ncond ?c" by (simp add: legal_name_def ctype_defs tok_defs)
  have e: "integer_shell (t_arith (c_test ?C)) (\<lambda>sh. sh) (\<lambda>sh x v. sh(x := v))"
    using number_shell_integer by (simp add: small_system_def)
  have v: "ncond_value (\<lambda>sh. sh) (\<lambda>sh x v. sh(x := v)) ?c (shell (tenv fresh)) = (True, (\<lambda>x. 0) (''x'' := 1))"
    by (simp add: fresh_def idle_def binary_op_def tok_defs)
  show ?thesis using cond_computes_comparisons [OF e w, of fresh] unfolding v
    by (auto simp: t fresh_def)
qed

end
