(* ===== verification/Bash_Pattern.thy ===== *)
theory Bash_Pattern imports Bash_Glob Bash_Strbuf begin

text \<open>
  Parameter expansion with patterns (\<open>src/khsl/bash/bash-5.2/subst.c\<close>): removing a matching prefix or
  suffix (\<open>${x#p}\<close>, \<open>${x%p}\<close>) and replacing matches (\<open>${x/p/r}\<close>), over the matcher of \<open>Bash_Glob\<close>, in
  the version for single bytes, which the code also takes when neither string nor pattern has a
  character of more bytes. Pointers into the string are places. \<open>None\<close> is a fault: a store behind a
  buffer, a read behind a string, or a fault of the matcher.
\<close>

section \<open>Matching\<close>

record pat_ops =
  po_env :: match_env
  po_locale :: locale_ops
  po_extglob :: bool
  po_ignore_case :: bool
  po_mb_cur_max :: nat

definition FNMATCH_EXTFLAG :: "pat_ops \<Rightarrow> u32" where
  "FNMATCH_EXTFLAG M = (if po_extglob M then FNM_EXTMATCH else 0)"

definition FNMATCH_IGNCASE :: "pat_ops \<Rightarrow> u32" where
  "FNMATCH_IGNCASE M = (if po_ignore_case M then FNM_CASEFOLD else 0)"

text \<open>Whether \<open>strmatch\<close> returns 0 or \<open>FNM_NOMATCH\<close>.\<close>

definition str_matches :: "pat_ops \<Rightarrow> string \<Rightarrow> string \<Rightarrow> u32 \<Rightarrow> bool option" where
  "str_matches M pat s flags =
     (case strmatch (po_env M) (Some pat) (Some s) flags of Match \<Rightarrow> Some True | NoMatch \<Rightarrow> Some False | _ \<Rightarrow> None)"

text \<open>The first place of a list that passes a test.\<close>

fun first_place :: "('a \<Rightarrow> bool option) \<Rightarrow> 'a list \<Rightarrow> 'a option option" where
  "first_place f [] = Some None"
| "first_place f (i # is) =
     (case f i of None \<Rightarrow> None | Some True \<Rightarrow> Some (Some i) | Some False \<Rightarrow> first_place f is)"

section \<open>Removing a prefix or a suffix\<close>

datatype removal = RP_LONG_LEFT | RP_SHORT_LEFT | RP_LONG_RIGHT | RP_SHORT_RIGHT

definition remove_upattern :: "pat_ops \<Rightarrow> string \<Rightarrow> string \<Rightarrow> removal \<Rightarrow> string option" where
  "remove_upattern M param pattern rp =
     (let places = [0..<Suc (length param)];
          before = (\<lambda>p. str_matches M pattern (take p param) (FNMATCH_EXTFLAG M));
          after = (\<lambda>p. str_matches M pattern (drop p param) (FNMATCH_EXTFLAG M));
          found = (case rp of
             RP_LONG_LEFT \<Rightarrow> first_place before (rev places)
           | RP_SHORT_LEFT \<Rightarrow> first_place before places
           | RP_LONG_RIGHT \<Rightarrow> first_place after places
           | RP_SHORT_RIGHT \<Rightarrow> first_place after (rev places))
      in map_option (\<lambda>r. case r of
             None \<Rightarrow> param
           | Some p \<Rightarrow> if rp = RP_LONG_LEFT \<or> rp = RP_SHORT_LEFT then drop p param else take p param) found)"

text \<open>A NULL \<open>param\<close> is returned as it is.\<close>

definition remove_pattern :: "pat_ops \<Rightarrow> string option \<Rightarrow> string option \<Rightarrow> removal \<Rightarrow> string option option" where
  "remove_pattern M param pattern rp =
     (case param of
        None \<Rightarrow> Some None
      | Some s \<Rightarrow>
          if s = [] \<or> pattern = None \<or> pattern = Some [] then Some (Some s)
          else map_option Some (remove_upattern M s (the pattern) rp))"

definition getpatspec :: "char \<Rightarrow> string \<Rightarrow> removal" where
  "getpatspec c v =
     (if c = CHR ''#'' then (if byte_at v 0 = CHR ''#'' then RP_LONG_LEFT else RP_SHORT_LEFT)
      else (if byte_at v 0 = CHR ''%'' then RP_LONG_RIGHT else RP_SHORT_RIGHT))"

section \<open>Finding a match\<close>

datatype match_type = MATCH_ANY | MATCH_BEG | MATCH_END

text \<open>
  The pattern of the first test, \<open>npat\<close>: a \<open>*\<close> is put before and behind the pattern, unless it
  begins and ends with one. \<open>unescaped_backslash\<close> counts the backslashes before a last \<open>*\<close>.
\<close>

definition unescaped_backslash :: "string \<Rightarrow> bool" where
  "unescaped_backslash pat = odd (length (takeWhile (\<lambda>c. c = CHR 0x5C) (rev (butlast pat))))"

definition first_test_pattern :: "pat_ops \<Rightarrow> string \<Rightarrow> match_type \<Rightarrow> string" where
  "first_test_pattern M pat mtype =
     (let star = byte_at pat 0 = CHR ''*''; list = star \<and> byte_at pat 1 = CHR ''('' \<and> po_extglob M;
          last_star = byte_at pat (length pat - 1) = CHR ''*''
      in if \<not> star \<or> list \<or> \<not> last_star then
           (if mtype \<noteq> MATCH_BEG \<and> (\<not> star \<or> list) then ''*'' else []) @ pat @
           (if mtype \<noteq> MATCH_END \<and> last_star \<and> byte_at pat (length pat - 2) = CHR 0x5C
            then (if unescaped_backslash pat then ''*'' else [])
            else if mtype \<noteq> MATCH_END \<and> \<not> last_star then ''*'' else [])
         else pat)"

text \<open>The ends tried for a match that begins at \<open>p\<close>: all, from the last on, or the one announced.\<close>

definition ends_from :: "nat option \<Rightarrow> nat \<Rightarrow> nat \<Rightarrow> nat list" where
  "ends_from mlen p e = (case mlen of None \<Rightarrow> rev [p..<Suc e] | Some m \<Rightarrow> [p + m])"

definition piece :: "nat \<Rightarrow> nat \<Rightarrow> string \<Rightarrow> string" where "piece i j s = take (j - i) (drop i s)"

fun match_any_loop :: "pat_ops \<Rightarrow> u32 \<Rightarrow> string \<Rightarrow> string \<Rightarrow> nat option \<Rightarrow> nat list \<Rightarrow> (nat \<times> nat) option option" where
  "match_any_loop M flags str pat mlen [] = Some None"
| "match_any_loop M flags str pat mlen (p # ps) =
     (if \<not> match_pattern_char (po_env M) pat (drop p str) (FNMATCH_IGNCASE M) then match_any_loop M flags str pat mlen ps
      else if (\<exists>m \<in> set_option mlen. length str < p + m) then Some None
      else
        (case first_place (\<lambda>p1. str_matches M pat (piece p p1 str) flags) (ends_from mlen p (length str)) of
           None \<Rightarrow> None
         | Some (Some p1) \<Rightarrow> Some (Some (p, p1))
         | Some None \<Rightarrow> match_any_loop M flags str pat mlen ps))"

definition match_upattern :: "pat_ops \<Rightarrow> string \<Rightarrow> string \<Rightarrow> match_type \<Rightarrow> (nat \<times> nat) option option" where
  "match_upattern M str pat mtype =
     (let flags = or (FNMATCH_EXTFLAG M) (FNMATCH_IGNCASE M); e = length str; mlen = umatchlen pat in
      case str_matches M (first_test_pattern M pat mtype) str flags of
        None \<Rightarrow> None
      | Some False \<Rightarrow> Some None
      | Some True \<Rightarrow>
          if (\<exists>m \<in> set_option mlen. e < m) then Some None
          else (case mtype of
              MATCH_ANY \<Rightarrow> match_any_loop M flags str pat mlen [0..<Suc e]
            | MATCH_BEG \<Rightarrow>
                if \<not> match_pattern_char (po_env M) pat str (FNMATCH_IGNCASE M) then Some None
                else map_option (map_option (\<lambda>p. (0, p)))
                  (first_place (\<lambda>p. str_matches M pat (take p str) flags) (ends_from mlen 0 e))
            | MATCH_END \<Rightarrow>
                map_option (map_option (\<lambda>p. (p, e)))
                  (first_place (\<lambda>p. str_matches M pat (drop p str) flags)
                     (case mlen of None \<Rightarrow> [0..<Suc e] | Some m \<Rightarrow> [e - m]))))"

definition match_pattern :: "pat_ops \<Rightarrow> string \<Rightarrow> string option \<Rightarrow> match_type \<Rightarrow> (nat \<times> nat) option option" where
  "match_pattern M str pat mtype =
     (if pat = None \<or> pat = Some [] then Some None else match_upattern M str (the pat) mtype)"

section \<open>Replacing matches\<close>

definition by_64 :: "nat \<Rightarrow> nat" where "by_64 n = 64"

text \<open>\<open>strcreplace\<close> without the flag that quotes for globbing; the buffer grows by its own size.\<close>

function strcreplace_loop :: "char \<Rightarrow> string \<Rightarrow> bool \<Rightarrow> string \<Rightarrow> strbuf \<Rightarrow> strbuf option" where
  "strcreplace_loop c txt esc p r =
     (case p of
        [] \<Rightarrow> Some r
      | d # q \<Rightarrow>
          if d = c then
            (if txt = [] then strcreplace_loop c txt esc q r
             else do { r \<leftarrow> RESIZE_MALLOCED_BUFFER SIZE_LIMIT (length txt) doubling r; r \<leftarrow> sb_strcpy txt r; strcreplace_loop c txt esc q r })
          else
            (let p = (if d = CHR 0x5C \<and> (byte_at q 0 = c \<or> esc \<and> byte_at q 0 = CHR 0x5C) then q else p) in
             case p of
               [] \<Rightarrow> None
             | d # q \<Rightarrow> do { r \<leftarrow> RESIZE_MALLOCED_BUFFER SIZE_LIMIT 2 doubling r; r \<leftarrow> sb_putc d r; strcreplace_loop c txt esc q r }))"
  by pat_completeness auto
termination
  by (relation "measure (\<lambda>(c, txt, esc, p, r). length p)") (auto split: if_splits)

declare strcreplace_loop.simps [simp del]

definition strcreplace :: "string \<Rightarrow> char \<Rightarrow> string \<Rightarrow> bool \<Rightarrow> string option" where
  "strcreplace str c txt esc =
     Option.bind (strcreplace_loop c txt esc str \<lparr>sb_text = [], sb_size = length txt + length str + 2\<rparr>) sb_end"

text \<open>
  \<open>strncpy\<close> of exactly so many bytes: no zero byte is written. The index behind them is \<open>rptr\<close>, an
  \<open>int\<close>: one that leaves its type is \<open>None\<close>.
\<close>

definition sb_strncpy :: "string \<Rightarrow> strbuf \<Rightarrow> strbuf option" where
  "sb_strncpy s b =
     (if length (sb_text b) + length s \<le> sb_size b \<and> length (sb_text b) + length s < INT_LIMIT
      then Some (b\<lparr>sb_text := sb_text b @ s\<rparr>) else None)"

text \<open>
  A pattern may be NULL, and so may a replacement. Its text with \<open>&\<close> replaced by the match, whose
  length with the zero byte is an \<open>int\<close>.
\<close>

definition replacement :: "string option \<Rightarrow> bool \<Rightarrow> string \<Rightarrow> string option" where
  "replacement rep exprep m =
     (case rep of
        None \<Rightarrow> Some []
      | Some t \<Rightarrow>
          if exprep then if length m + 1 < INT_LIMIT then strcreplace t (CHR ''&'') m True else None
          else Some t)"

text \<open>One round: what is left of the string and the buffer, with the match taken out and replaced.\<close>

definition replace_match :: "string option \<Rightarrow> bool \<Rightarrow> string \<Rightarrow> nat \<Rightarrow> nat \<Rightarrow> strbuf \<Rightarrow> strbuf option" where
  "replace_match rep exprep str s e r =
     do {
       rstr \<leftarrow> replacement rep exprep (piece s e str);
       r \<leftarrow> RESIZE_MALLOCED_BUFFER SIZE_LIMIT (s + length rstr) by_64 r;
       r \<leftarrow> sb_strncpy (take s str) r;
       if rep = None \<or> rep = Some [] then Some r else sb_strncpy rstr r
     }"

lemma piece_length: "i \<le> j \<Longrightarrow> j \<le> length s \<Longrightarrow> length (piece i j s) = j - i"
  by (simp add: piece_def)

lemma first_place_in: "first_place f xs = Some (Some x) \<Longrightarrow> x \<in> set xs"
  by (induction xs) (auto split: option.splits bool.splits)

lemma ends_from_range:
  "j \<in> set (ends_from mlen p e) \<Longrightarrow> p \<le> e \<Longrightarrow> \<not> (\<exists>m\<in>set_option mlen. e < p + m) \<Longrightarrow> p \<le> j \<and> j \<le> e"
  by (auto simp: ends_from_def split: option.splits)

lemma match_any_loop_range:
  "match_any_loop M flags str pat mlen ps = Some (Some (s, e)) \<Longrightarrow> \<forall>p \<in> set ps. p \<le> length str \<Longrightarrow> s \<le> e \<and> e \<le> length str"
proof (induction ps)
  case (Cons p ps)
  then have "match_any_loop M flags str pat mlen ps = Some (Some (s, e)) \<or>
      p = s \<and> e \<in> set (ends_from mlen p (length str)) \<and> \<not> (\<exists>m\<in>set_option mlen. length str < p + m)"
    by (auto split: if_splits option.splits dest!: first_place_in)
  then show ?case using Cons ends_from_range [of e mlen s "length str"] by auto
qed simp

lemma match_upattern_range:
  assumes "match_upattern M str pat mtype = Some (Some (s, e))"
  shows "s \<le> e \<and> e \<le> length str"
proof -
  have m: "\<not> (\<exists>m\<in>set_option (umatchlen pat). length str < m)"
    using assms by (auto simp: match_upattern_def Let_def split: option.splits bool.splits if_splits)
  show ?thesis
  proof (cases mtype)
    case MATCH_ANY
    then show ?thesis using assms match_any_loop_range [of M _ str pat "umatchlen pat" "[0..<Suc (length str)]" s e]
      by (auto simp: match_upattern_def Let_def split: option.splits bool.splits if_splits)
  next
    case MATCH_BEG
    then have "s = 0 \<and> e \<in> set (ends_from (umatchlen pat) 0 (length str))" using assms
      by (auto simp: match_upattern_def Let_def split: option.splits bool.splits if_splits dest!: first_place_in)
    then show ?thesis using ends_from_range [of e "umatchlen pat" 0 "length str"] m by auto
  next
    case MATCH_END
    then have "e = length str \<and> s \<le> length str" using assms
      by (auto simp: match_upattern_def Let_def simp del: upt_Suc split: option.splits bool.splits if_splits dest!: first_place_in)
    then show ?thesis by simp
  qed
qed

lemma match_pattern_range: "match_pattern M str pat mtype = Some (Some (s, e)) \<Longrightarrow> s \<le> e \<and> e \<le> length str"
  using match_upattern_range [of M str "the pat" mtype s e] by (auto simp: match_pattern_def split: if_splits)

function pat_subst_loop ::
  "pat_ops \<Rightarrow> string option \<Rightarrow> string option \<Rightarrow> match_type \<Rightarrow> bool \<Rightarrow> bool \<Rightarrow> string \<Rightarrow> strbuf \<Rightarrow> (string \<times> strbuf) option" where
  "pat_subst_loop M pat rep mtype globrep exprep str r =
     (if str = [] then Some ([], r)
      else
        (case match_pattern M str pat mtype of
           None \<Rightarrow> None
         | Some None \<Rightarrow> Some (str, r)
         | Some (Some (s, e)) \<Rightarrow>
             (case replace_match rep exprep str s e r of
                None \<Rightarrow> None
              | Some r \<Rightarrow>
                  let str' = drop e str in
                  if \<not> globrep \<or> mtype \<noteq> MATCH_ANY then Some (str', r)
                  else if s \<noteq> e then pat_subst_loop M pat rep mtype globrep exprep str' r
                  else if str' = [] then None
                  else
                    (case Option.bind (RESIZE_MALLOCED_BUFFER SIZE_LIMIT (po_mb_cur_max M) by_64 r) (sb_strncpy (take (char_len (po_locale M) str') str')) of
                       None \<Rightarrow> None
                     | Some r \<Rightarrow> pat_subst_loop M pat rep mtype globrep exprep (drop (char_len (po_locale M) str') str') r))))"
  by pat_completeness auto
termination
  by (relation "measure (\<lambda>(M, pat, rep, mtype, globrep, exprep, str, r). length str)")
    (auto dest!: match_pattern_range simp: char_len_pos)

declare pat_subst_loop.simps [simp del]

definition pat_subst ::
  "pat_ops \<Rightarrow> string option \<Rightarrow> string option \<Rightarrow> string option \<Rightarrow> match_type \<Rightarrow> bool \<Rightarrow> bool \<Rightarrow> string option" where
  "pat_subst M string pat rep mtype globrep exprep =
     (case string of
        None \<Rightarrow> Some []
      | Some str \<Rightarrow>
          let whole = (if exprep then Option.bind rep (\<lambda>t. strcreplace t (CHR ''&'') [] True) else rep);
              scan =
                do {
                  (str, r) \<leftarrow> pat_subst_loop M pat rep mtype globrep exprep str \<lparr>sb_text = [], sb_size = 64\<rparr>;
                  if str = [] then sb_end r
                  else do { r \<leftarrow> RESIZE_MALLOCED_BUFFER SIZE_LIMIT (length str + 1) by_64 r; r \<leftarrow> sb_strcpy str r; Some (sb_text r) }
                }
          in if (pat = None \<or> pat = Some []) \<and> mtype \<noteq> MATCH_ANY then
               (case (rep, whole) of
                  (None, _) \<Rightarrow> if exprep then None else Some str
                | (Some _, None) \<Rightarrow> None
                | (Some _, Some rstr) \<Rightarrow> Some (if mtype = MATCH_BEG then rstr @ str else str @ rstr))
             else if str = [] then
               (case match_pattern M str pat mtype of
                  None \<Rightarrow> None
                | Some None \<Rightarrow> scan
                | Some (Some _) \<Rightarrow> whole)
             else scan)"

text \<open>The flags of \<open>pat_subst\<close>, as the callers pass them; a type of 3 is passed by none.\<close>

definition MATCH_TYPEMASK :: u32 where "MATCH_TYPEMASK = 0x003"
definition MATCH_GLOBREP :: u32 where "MATCH_GLOBREP = 0x010"
definition MATCH_EXPREP :: u32 where "MATCH_EXPREP = 0x100"

definition match_type_of :: "u32 \<Rightarrow> match_type" where
  "match_type_of mflags =
     (let mtype = and mflags MATCH_TYPEMASK in if mtype = 1 then MATCH_BEG else if mtype = 2 then MATCH_END else MATCH_ANY)"

definition pat_subst_flags :: "pat_ops \<Rightarrow> string option \<Rightarrow> string option \<Rightarrow> string option \<Rightarrow> u32 \<Rightarrow> string option" where
  "pat_subst_flags M string pat rep mflags =
     pat_subst M string pat rep (match_type_of mflags) (and mflags MATCH_GLOBREP \<noteq> 0) (and mflags MATCH_EXPREP \<noteq> 0)"

text \<open>Whether \<open>parameter_brace_patsub\<close> has \<open>&\<close> replaced, and where it anchors the pattern.\<close>

function shouldexp_replacement :: "pat_ops \<Rightarrow> string \<Rightarrow> bool" where
  "shouldexp_replacement M s =
     (if s = [] then False
      else if hd s = CHR 0x5C then
        (if tl s = [] then False
         else if hd (tl s) = CHR ''&'' \<or> hd (tl s) = CHR 0x5C then True
         else shouldexp_replacement M (drop (char_len (po_locale M) (tl s)) (tl s)))
      else if hd s = CHR ''&'' then True
      else shouldexp_replacement M (drop (char_len (po_locale M) s) s))"
  by pat_completeness auto
termination
  by (relation "measure (\<lambda>(M, s). length s)") (auto simp: char_len_pos diff_less_Suc less_imp_diff_less)

declare shouldexp_replacement.simps [simp del]

definition patsub_anchor :: "bool \<Rightarrow> string option \<Rightarrow> match_type \<times> string option" where
  "patsub_anchor globrep pat =
     (case pat of
        None \<Rightarrow> (MATCH_ANY, None)
      | Some p \<Rightarrow>
          if globrep then (MATCH_ANY, Some p)
          else if byte_at p 0 = CHR ''#'' then (MATCH_BEG, Some (drop 1 p))
          else if byte_at p 0 = CHR ''%'' then (MATCH_END, Some (drop 1 p))
          else (MATCH_ANY, Some p))"

end
