(* ===== verification/Bash_PatternSem.thy ===== *)
theory Bash_PatternSem imports Bash_Pattern Bash_GlobText begin

text \<open>
  What the expansions with patterns mean, for the patterns of \<open>Bash_GlobSem\<close>: the parts they remove
  and the match they find.
\<close>

section \<open>Matches of a pattern\<close>

text \<open>Neither extended patterns nor letters of any case; characters of one byte.\<close>

definition plain_ops :: "pat_ops \<Rightarrow> bool" where
  "plain_ops M \<longleftrightarrow> \<not> po_extglob M \<and> \<not> po_ignore_case M \<and> \<not> lc_multibyte (po_locale M) \<and> po_mb_cur_max M = 1"

lemma plain_flag_values [simp]: "plain_ops M \<Longrightarrow> FNMATCH_EXTFLAG M = 0" "plain_ops M \<Longrightarrow> FNMATCH_IGNCASE M = 0"
  by (simp_all add: plain_ops_def FNMATCH_EXTFLAG_def FNMATCH_IGNCASE_def)

lemma has_0 [simp]: "\<not> has 0 f"
  by (simp add: has_def)

lemma plain_flags_0 [simp]: "plain_flags 0"
  by (simp add: plain_flags_def)

lemma str_matches_value:
  assumes "list_all wf_elem es" "CHR 0x00 \<notin> set s"
  shows "str_matches M (glob_text es) s 0 = Some (glob_match (po_env M) es s)"
proof -
  have "\<not> hidden (po_env M) s 0 0 0" by (simp add: hidden_def dot_hidden_def)
  then show ?thesis using strmatch_value [OF assms(1) plain_flags_0 assms(2), of "po_env M"] by (simp add: str_matches_def)
qed

lemma first_place_find: "(\<And>x. x \<in> set xs \<Longrightarrow> f x = Some (P x)) \<Longrightarrow> first_place f xs = Some (List.find P xs)"
  by (induction xs) (auto split: bool.splits)

lemma zero_parts [simp]:
  "CHR 0x00 \<notin> set s \<Longrightarrow> CHR 0x00 \<notin> set (piece i j s)" "CHR 0x00 \<notin> set s \<Longrightarrow> CHR 0x00 \<notin> set (take i s)"
  "CHR 0x00 \<notin> set s \<Longrightarrow> CHR 0x00 \<notin> set (drop i s)"
  by (auto simp: piece_def dest: in_set_takeD in_set_dropD)

lemma find_Some_first: "List.find P [a..<b] = Some k \<longleftrightarrow> a \<le> k \<and> k < b \<and> P k \<and> (\<forall>i. a \<le> i \<longrightarrow> i < k \<longrightarrow> \<not> P i)"
proof
  assume "List.find P [a..<b] = Some k"
  then obtain i where i: "i < length [a..<b]" "P ([a..<b] ! i)" "k = [a..<b] ! i" "\<forall>j<i. \<not> P ([a..<b] ! j)"
    by (auto simp: find_Some_iff)
  have "\<not> P x" if "a \<le> x" "x < k" for x
  proof -
    have "x - a < i" using that i(1,3) by simp
    then show ?thesis using i(1,4) that by (metis add_diff_inverse_nat leD length_upt less_trans nth_upt less_diff_conv add.commute)
  qed
  then show "a \<le> k \<and> k < b \<and> P k \<and> (\<forall>i. a \<le> i \<longrightarrow> i < k \<longrightarrow> \<not> P i)" using i by auto
next
  assume "a \<le> k \<and> k < b \<and> P k \<and> (\<forall>i. a \<le> i \<longrightarrow> i < k \<longrightarrow> \<not> P i)"
  then show "List.find P [a..<b] = Some k" unfolding find_Some_iff
    by (intro exI [of _ "k - a"]) auto
qed

lemma find_rev_upt: "List.find P (rev [a..<Suc b]) = (if a \<le> b \<and> P b then Some b else if a < b then List.find P (rev [a..<b]) else None)"
  by simp

lemma find_Some_last: "List.find P (rev [a..<b]) = Some k \<longleftrightarrow> a \<le> k \<and> k < b \<and> P k \<and> (\<forall>i. k < i \<longrightarrow> i < b \<longrightarrow> \<not> P i)"
proof (induction b)
  case (Suc b)
  show ?case
  proof (cases "a \<le> b")
    case True
    then show ?thesis using Suc by (auto simp: less_Suc_eq)
  qed auto
qed simp

lemma find_none: "List.find P xs = None \<longleftrightarrow> (\<forall>x\<in>set xs. \<not> P x)"
  by (induction xs) auto

section \<open>Removal\<close>

text \<open>
  What removal leaves: the string without its longest or shortest matching prefix or suffix, or
  the string itself when none matches.
\<close>

definition removal_result :: "removal \<Rightarrow> match_env \<Rightarrow> glob_elem list \<Rightarrow> string \<Rightarrow> string \<Rightarrow> bool" where
  "removal_result rp E es s t \<longleftrightarrow>
     (let left = (rp = RP_LONG_LEFT \<or> rp = RP_SHORT_LEFT); long = (rp = RP_LONG_LEFT \<or> rp = RP_LONG_RIGHT);
          removed = (\<lambda>k. if left then take k s else drop (length s - k) s);
          rest = (\<lambda>k. if left then drop k s else take (length s - k) s)
      in (\<exists>k\<le>length s. t = rest k \<and> glob_match E es (removed k) \<and>
            (\<forall>m\<le>length s. glob_match E es (removed m) \<longrightarrow> (if long then m \<le> k else k \<le> m))) \<or>
         t = s \<and> (\<forall>m\<le>length s. \<not> glob_match E es (removed m)))"

lemma find_places:
  "List.find P [0..<Suc n] = None \<Longrightarrow> k \<le> n \<Longrightarrow> \<not> P k"
  "List.find P (rev [0..<Suc n]) = None \<Longrightarrow> k \<le> n \<Longrightarrow> \<not> P k"
  "List.find P [0..<Suc n] = Some k \<Longrightarrow> k \<le> n \<and> P k \<and> (\<forall>i\<le>n. P i \<longrightarrow> k \<le> i)"
  "List.find P (rev [0..<Suc n]) = Some k \<Longrightarrow> k \<le> n \<and> P k \<and> (\<forall>i\<le>n. P i \<longrightarrow> i \<le> k)"
  unfolding find_none find_Some_first find_Some_last by (force simp: not_le simp flip: not_less)+

lemma remove_upattern_found:
  assumes "list_all wf_elem es" "plain_ops M" "CHR 0x00 \<notin> set s"
  shows "remove_upattern M s (glob_text es) rp =
    Some (let P = (\<lambda>p. glob_match (po_env M) es ((if rp = RP_LONG_LEFT \<or> rp = RP_SHORT_LEFT then take p else drop p) s));
              ps = [0..<Suc (length s)]
          in case List.find P (if rp = RP_LONG_LEFT \<or> rp = RP_SHORT_RIGHT then rev ps else ps) of
               None \<Rightarrow> s
             | Some p \<Rightarrow> if rp = RP_LONG_LEFT \<or> rp = RP_SHORT_LEFT then drop p s else take p s)"
proof -
  have "first_place (\<lambda>p. str_matches M (glob_text es) (take p s) 0) xs = Some (List.find (\<lambda>p. glob_match (po_env M) es (take p s)) xs)"
    "first_place (\<lambda>p. str_matches M (glob_text es) (drop p s) 0) xs = Some (List.find (\<lambda>p. glob_match (po_env M) es (drop p s)) xs)" for xs
    by (rule first_place_find; simp add: str_matches_value assms)+
  then show ?thesis
    by (cases rp) (simp_all add: remove_upattern_def Let_def plain_flag_values(1) [OF assms(2)] del: upt_Suc split: option.splits)
qed

lemma removal_left:
  assumes "rp = RP_LONG_LEFT \<or> rp = RP_SHORT_LEFT" and "ps = (if rp = RP_LONG_LEFT then rev [0..<Suc (length s)] else [0..<Suc (length s)])"
  shows "removal_result rp E es s (case List.find (\<lambda>p. glob_match E es (take p s)) ps of None \<Rightarrow> s | Some p \<Rightarrow> drop p s)"
proof (cases "List.find (\<lambda>p. glob_match E es (take p s)) ps")
  case None
  then have "\<forall>k\<le>length s. \<not> glob_match E es (take k s)" using assms find_places(1,2) by (metis (no_types, lifting))
  with None assms(1) show ?thesis by (auto simp: removal_result_def)
next
  case (Some k)
  then have "k \<le> length s \<and> glob_match E es (take k s) \<and>
      (\<forall>i\<le>length s. glob_match E es (take i s) \<longrightarrow> (if rp = RP_LONG_LEFT then i \<le> k else k \<le> i))"
    using assms find_places(3,4) [of "\<lambda>p. glob_match E es (take p s)" "length s" k] by (auto simp del: upt_Suc)
  with Some assms(1) show ?thesis by (auto simp: removal_result_def Let_def)
qed

lemma removal_right:
  assumes "rp = RP_LONG_RIGHT \<or> rp = RP_SHORT_RIGHT" and "ps = (if rp = RP_SHORT_RIGHT then rev [0..<Suc (length s)] else [0..<Suc (length s)])"
  shows "removal_result rp E es s (case List.find (\<lambda>p. glob_match E es (drop p s)) ps of None \<Rightarrow> s | Some p \<Rightarrow> take p s)"
proof (cases "List.find (\<lambda>p. glob_match E es (drop p s)) ps")
  case None
  then have "\<forall>k\<le>length s. \<not> glob_match E es (drop k s)" using assms find_places(1,2) by (metis (no_types, lifting))
  with None assms(1) show ?thesis by (auto simp: removal_result_def)
next
  case (Some k)
  then have k: "k \<le> length s" "glob_match E es (drop k s)"
      "\<forall>i\<le>length s. glob_match E es (drop i s) \<longrightarrow> (if rp = RP_SHORT_RIGHT then i \<le> k else k \<le> i)"
    using assms find_places(3,4) [of "\<lambda>p. glob_match E es (drop p s)" "length s" k] by (auto simp del: upt_Suc)
  have "if rp = RP_LONG_RIGHT then m \<le> length s - k else length s - k \<le> m"
    if "m \<le> length s" "glob_match E es (drop (length s - m) s)" for m
    using k(3) [rule_format, of "length s - m"] that assms(1) k(1) by (auto split: if_splits)
  with k have "\<exists>k'\<le>length s. take k s = take (length s - k') s \<and> glob_match E es (drop (length s - k') s) \<and>
      (\<forall>m\<le>length s. glob_match E es (drop (length s - m) s) \<longrightarrow> (if rp = RP_LONG_RIGHT then m \<le> k' else k' \<le> m))"
    by (intro exI [of _ "length s - k"]) auto
  with Some assms(1) show ?thesis by (auto simp: removal_result_def Let_def)
qed

lemma remove_upattern_value:
  assumes "list_all wf_elem es" "plain_ops M" "CHR 0x00 \<notin> set s"
  shows "\<exists>t. remove_upattern M s (glob_text es) rp = Some t \<and> removal_result rp (po_env M) es s t"
proof (cases "rp = RP_LONG_LEFT \<or> rp = RP_SHORT_LEFT")
  case True
  with removal_left [OF True refl, of "po_env M" es s] show ?thesis
    by (auto simp: remove_upattern_found [OF assms] Let_def simp del: upt_Suc cong: option.case_cong)
next
  case False
  then have rp: "rp = RP_LONG_RIGHT \<or> rp = RP_SHORT_RIGHT" by (cases rp) auto
  with removal_right [OF rp refl, of "po_env M" es s] show ?thesis
    by (auto simp: remove_upattern_found [OF assms] Let_def simp del: upt_Suc cong: option.case_cong)
qed

section \<open>The match that is found\<close>

text \<open>
  The places a match may take, in the order of preference: the first place with its longest match,
  the longest prefix, the longest suffix.
\<close>

definition spans :: "match_type \<Rightarrow> nat \<Rightarrow> (nat \<times> nat) list" where
  "spans mtype n =
     (case mtype of
        MATCH_ANY \<Rightarrow> concat (map (\<lambda>i. map (Pair i) (rev [i..<Suc n])) [0..<Suc n])
      | MATCH_BEG \<Rightarrow> map (Pair 0) (rev [0..<Suc n])
      | MATCH_END \<Rightarrow> map (\<lambda>i. (i, n)) [0..<Suc n])"

definition best_match :: "match_env \<Rightarrow> glob_elem list \<Rightarrow> string \<Rightarrow> match_type \<Rightarrow> (nat \<times> nat) option" where
  "best_match E es s mtype = List.find (\<lambda>(i, j). glob_match E es (piece i j s)) (spans mtype (length s))"

lemma glob_match_append: "glob_match E (es @ fs) s \<longleftrightarrow> (\<exists>k\<le>length s. glob_match E es (take k s) \<and> glob_match E fs (drop k s))"
proof (induction es arbitrary: s)
  case Nil
  show ?case by (auto intro: exI [of _ 0])
next
  case (Cons e es)
  show ?case
  proof (cases "e = Star")
    case True
    show ?thesis unfolding True append_Cons Star_iff [of _ _ s] Star_iff [of _ _ "take _ s"] Cons
    proof (intro iffI; elim exE conjE)
      fix k j assume a: "k \<le> length s" "j \<le> length (drop k s)" "glob_match E es (take j (drop k s))" "glob_match E fs (drop j (drop k s))"
      then show "\<exists>k\<le>length s. (\<exists>j\<le>length (take k s). glob_match E es (drop j (take k s))) \<and> glob_match E fs (drop k s)"
        by (intro exI [of _ "k + j"] conjI exI [of _ k]) (auto simp: drop_take add.commute)
    next
      fix k j assume a: "k \<le> length s" "glob_match E fs (drop k s)" "j \<le> length (take k s)" "glob_match E es (drop j (take k s))"
      then show "\<exists>k\<le>length s. \<exists>ka\<le>length (drop k s). glob_match E es (take ka (drop k s)) \<and> glob_match E fs (drop ka (drop k s))"
        by (intro exI [of _ j] conjI exI [of _ "k - j"]) (auto simp: drop_take)
    qed
  next
    case False
    show ?thesis
    proof (cases s)
      case Nil
      with False show ?thesis by (cases e) auto
    next
      case s: (Cons d t)
      have *: "(\<exists>k\<le>length s. P (take k s) (drop k s)) \<longleftrightarrow> P [] s \<or> (\<exists>k\<le>length t. P (d # take k t) (drop k t))" for P
        unfolding s by (metis (no_types, lifting) Suc_le_mono drop0 drop_Suc_Cons length_Cons not0_implies_Suc take0 take_Suc_Cons zero_le)
      have "glob_match E (e # es) (d # u) \<longleftrightarrow> elem_has E e d \<and> glob_match E es u" "\<not> glob_match E (e # es) []"
        "glob_match E (e # es @ fs) (d # u) \<longleftrightarrow> elem_has E e d \<and> glob_match E (es @ fs) u" for u
        using False by (cases e; simp add: elem_has_def; blast)+
      then show ?thesis unfolding * [of "\<lambda>u v. glob_match E (e # es) u \<and> glob_match E fs v"]
        using Cons [of t] by (auto simp: s)
    qed
  qed
qed

lemma backslashes_even: "list_all wf_elem es \<Longrightarrow> even (length (takeWhile (\<lambda>c. c = CHR 0x5C) (rev (glob_text es))))"
proof (induction es rule: rev_induct)
  case (snoc e es)
  have "glob_text (es @ [e]) = glob_text es @ elem_text e" by (simp add: glob_text_def)
  with snoc show ?case
    by (cases e) (auto simp: elem_text_def lit_text_def quoted_def)
qed simp

lemma glob_text_append: "glob_text (es @ fs) = glob_text es @ glob_text fs"
  by (simp add: glob_text_def)

lemma text_star:
  assumes "list_all wf_elem es" "es \<noteq> []"
  shows "byte_at (glob_text es) 0 = CHR ''*'' \<longleftrightarrow> hd es = Star"
    and "byte_at (glob_text es) (length (glob_text es) - 1) = CHR ''*'' \<longleftrightarrow> last es = Star \<or> last es = Lit (CHR ''*'')"
proof -
  obtain e fs where "es = e # fs" using assms(2) by (cases es) auto
  then show "byte_at (glob_text es) 0 = CHR ''*'' \<longleftrightarrow> hd es = Star"
    by (cases e) (auto simp: elem_text_def lit_text_def quoted_def byte_at_def)
  obtain fs e where "es = fs @ [e]" using assms(2) by (cases es rule: rev_cases) auto
  then show "byte_at (glob_text es) (length (glob_text es) - 1) = CHR ''*'' \<longleftrightarrow> last es = Star \<or> last es = Lit (CHR ''*'')"
    by (cases e) (auto simp: elem_text_def lit_text_def quoted_def byte_at_def glob_text_append nth_append)
qed


text \<open>
  The one pattern the first test gets wrong, unless it looks for a suffix: a \<open>*\<close> in front and, at the
  end, an escaped one.
\<close>

definition escaped_star_last :: "glob_elem list \<Rightarrow> match_type \<Rightarrow> bool" where
  "escaped_star_last es mtype \<longleftrightarrow> mtype \<noteq> MATCH_END \<and> hd es = Star \<and> last es = Lit (CHR ''*'')"

lemma text_end_star:
  assumes "list_all wf_elem es" "es \<noteq> []" "byte_at (glob_text es) (length (glob_text es) - 1) = CHR ''*''"
  shows "unescaped_backslash (glob_text es) \<longleftrightarrow> last es \<noteq> Star"
    and "2 \<le> length (glob_text es) \<Longrightarrow> byte_at (glob_text es) (length (glob_text es) - 2) \<noteq> CHR 0x5C \<Longrightarrow> last es = Star"
proof -
  obtain fs e where es: "es = fs @ [e]" using assms(2) by (cases es rule: rev_cases) auto
  have e: "e = Star \<or> e = Lit (CHR ''*'')" using text_star(2) [OF assms(1,2)] assms(3) es by simp
  have wf: "list_all wf_elem fs" using assms(1) es by simp
  have t: "glob_text es = glob_text fs @ (if e = Star then ''*'' else [CHR 0x5C, CHR ''*''])"
    using e by (auto simp: es glob_text_append elem_text_def lit_text_def quoted_def)
  have le: "last es = e" using es by simp
  show "unescaped_backslash (glob_text es) \<longleftrightarrow> last es \<noteq> Star"
    using backslashes_even [OF wf] using e by (auto simp: unescaped_backslash_def t le butlast_append)
  show "2 \<le> length (glob_text es) \<Longrightarrow> byte_at (glob_text es) (length (glob_text es) - 2) \<noteq> CHR 0x5C \<Longrightarrow> last es = Star"
    using e by (auto simp: t le byte_at_def nth_append split: if_splits)
qed

lemma first_test_text:
  assumes "list_all wf_elem es" "es \<noteq> []" "plain_ops M" "\<not> escaped_star_last es mtype"
  obtains pre post where "first_test_pattern M (glob_text es) mtype = glob_text (pre @ es @ post)"
    "pre = (if mtype \<noteq> MATCH_BEG \<and> hd es \<noteq> Star then [Star] else [])"
    "post = [] \<or> post = [Star]" "mtype = MATCH_END \<longrightarrow> post = []" "mtype \<noteq> MATCH_END \<longrightarrow> last es \<noteq> Star \<longrightarrow> post = [Star]"
proof -
  let ?t = "glob_text es"
  let ?star = "hd es = Star" and ?last = "byte_at ?t (length ?t - 1) = CHR ''*''"
  define post where "post = (if mtype \<noteq> MATCH_END \<and> last es \<noteq> Star then [Star] else [])"
  have ne: "\<not> po_extglob M" using assms(3) by (simp add: plain_ops_def)
  have l: "?last \<longleftrightarrow> last es = Star \<or> last es = Lit (CHR ''*'')" by (rule text_star(2) [OF assms(1,2)])
  have len: "2 \<le> length ?t" if "\<not> ?star" "?last"
  proof (rule ccontr)
    assume "\<not> 2 \<le> length ?t"
    then have "length ?t - 1 = 0" by simp
    with that(2) text_star(1) [OF assms(1,2)] that(1) show False by simp
  qed
  have "first_test_pattern M ?t mtype = glob_text ((if mtype \<noteq> MATCH_BEG \<and> hd es \<noteq> Star then [Star] else []) @ es @ post)"
  proof (cases ?last)
    case False
    with l have "last es \<noteq> Star" by simp
    with False ne show ?thesis
      by (auto simp: first_test_pattern_def Let_def text_star(1) [OF assms(1,2)] glob_text_append post_def elem_text_def)
  next
    case True
    note e = text_end_star [OF assms(1,2) True]
    show ?thesis
    proof (cases ?star)
      case s: True
      with True l assms(4) have "post = []" by (auto simp: post_def escaped_star_last_def)
      with True s ne show ?thesis
        by (simp add: first_test_pattern_def Let_def text_star(1) [OF assms(1,2)])
    next
      case s: False
      with True ne e len show ?thesis
        by (auto simp: first_test_pattern_def Let_def text_star(1) [OF assms(1,2)] glob_text_append post_def elem_text_def)
    qed
  qed
  with that [of _ post] show thesis by (auto simp: post_def)
qed

lemma any_text_matches: "glob_match E es (take k s) \<Longrightarrow> k \<le> length s \<Longrightarrow> glob_match E (es @ [Star]) s"
  unfolding glob_match_append using Star_last by blast

lemma first_test_passes:
  assumes "list_all wf_elem es" "es \<noteq> []" "plain_ops M" "\<not> escaped_star_last es mtype" "CHR 0x00 \<notin> set s"
    and "(i, j) \<in> set (spans mtype (length s))" "glob_match (po_env M) es (piece i j s)"
  shows "str_matches M (first_test_pattern M (glob_text es) mtype) s 0 = Some True"
proof -
  obtain pre post where f: "first_test_pattern M (glob_text es) mtype = glob_text (pre @ es @ post)"
    and pre: "pre = (if mtype \<noteq> MATCH_BEG \<and> hd es \<noteq> Star then [Star] else [])"
    and post: "post = [] \<or> post = [Star]" "mtype = MATCH_END \<longrightarrow> post = []" "mtype \<noteq> MATCH_END \<longrightarrow> last es \<noteq> Star \<longrightarrow> post = [Star]"
    by (rule first_test_text [OF assms(1-4)])
  have ij: "i \<le> j" "j \<le> length s" "mtype = MATCH_BEG \<longrightarrow> i = 0" "mtype = MATCH_END \<longrightarrow> j = length s"
    using assms(6) by (auto simp: spans_def less_Suc_eq_le simp del: upt_Suc split: match_type.splits)
  let ?E = "po_env M"
  have tail: "glob_match ?E (es @ post) (drop i s)"
  proof (cases "j = length s \<and> post = []")
    case True
    then show ?thesis using assms(7) ij by (simp add: piece_def)
  next
    case False
    have star: "glob_match ?E (es @ [Star]) (drop i s)"
      using any_text_matches [of ?E es "j - i" "drop i s"] assms(7) ij by (simp add: piece_def)
    show ?thesis
    proof (cases "post = []")
      case True
      with False post ij(4) have "last es = Star" by blast
      then obtain fs where "es = fs @ [Star]" using assms(2) by (metis append_butlast_last_id)
      then show ?thesis using star True by (simp add: glob_match_append Star_Star del: glob_match.simps)
    qed (use star post in simp)
  qed
  have "glob_match ?E (pre @ es @ post) s"
  proof (cases "mtype = MATCH_BEG")
    case True
    then show ?thesis using pre tail ij by simp
  next
    case False
    have star: "glob_match ?E (Star # es @ post) s"
      using Star_from [of ?E "es @ post" i s 0] tail ij glob_match_Star [of ?E "es @ post" i s] by simp
    show ?thesis
    proof (cases "pre = []")
      case True
      with False pre obtain fs where "es = Star # fs" using assms(2) by (cases es) (auto split: if_splits)
      then show ?thesis using star True Star_Star by simp
    qed (use star pre in \<open>auto split: if_splits\<close>)
  qed
  moreover have "list_all wf_elem (pre @ es @ post)" using pre post(1) assms(1) by (auto simp: wf_elem_def split: if_splits)
  ultimately show ?thesis using f str_matches_value assms(5) by simp
qed

lemma match_pattern_char_sound:
  assumes "glob_match E es t" "list_all wf_elem es" "es \<noteq> []" "CHR 0x00 \<notin> set (t @ u)"
  shows "match_pattern_char E (glob_text es) (t @ u) 0"
proof (cases "hd es = Star")
  case True
  then have "byte_at (glob_text es) 0 = CHR ''*''" using text_star(1) [OF assms(2,3)] by simp
  then show ?thesis by (simp add: match_pattern_char_def)
next
  case False
  obtain e fs where es: "es = e # fs" using assms(3) by (cases es) auto
  with False obtain d v where t: "t = d # v" using assms(1) by (cases e; cases t) auto
  show ?thesis
    using assms(1,4) es t False
    by (cases e) (auto simp: match_pattern_char_def Let_def byte_at_def elem_text_def lit_text_def quoted_def)
qed


lemma find_append: "List.find P (xs @ ys) = (case List.find P xs of None \<Rightarrow> List.find P ys | Some x \<Rightarrow> Some x)"
  by (induction xs) auto

lemma find_Pair: "List.find P (map (Pair i) xs) = map_option (Pair i) (List.find (\<lambda>j. P (i, j)) xs)"
  by (induction xs) auto

lemma find_ends:
  assumes "mlen = None \<or> (\<exists>m. mlen = Some m \<and> p + m \<le> n \<and> (\<forall>j. p \<le> j \<longrightarrow> j \<le> n \<longrightarrow> P j \<longrightarrow> j = p + m))"
  shows "List.find P (ends_from mlen p n) = List.find P (rev [p..<Suc n])"
proof (cases mlen)
  case (Some m)
  then have m: "p + m \<le> n" "\<forall>j. p \<le> j \<longrightarrow> j \<le> n \<longrightarrow> P j \<longrightarrow> j = p + m" using assms by auto
  show ?thesis
  proof (cases "P (p + m)")
    case True
    moreover have "\<not> P i" if "p + m < i" "i < Suc n" for i using m(2) [rule_format, of i] that by auto
    ultimately have "List.find P (rev [p..<Suc n]) = Some (p + m)" unfolding find_Some_last using m(1) by auto
    with True Some show ?thesis by (simp add: ends_from_def)
  next
    case False
    with m have "List.find P (rev [p..<Suc n]) = None" unfolding find_none by (auto simp: less_Suc_eq_le simp del: upt_Suc)
    with False Some show ?thesis by (simp add: ends_from_def)
  qed
qed (simp add: ends_from_def)

lemma announced_length:
  assumes "list_all wf_elem es" "umatchlen (glob_text es) = Some m" "glob_match E es (piece i j s)" "i \<le> j" "j \<le> length s"
  shows "j = i + m"
proof -
  have "Star \<notin> set es \<and> m = length es" using matchlen_elems [OF assms(1), of 0 m] assms(2) by (simp add: umatchlen_def)
  then show ?thesis using glob_match_length assms(3-5) by (fastforce simp: piece_length)
qed

lemma match_any_loop_value:
  assumes "list_all wf_elem es" "es \<noteq> []" "plain_ops M" "CHR 0x00 \<notin> set s" "p \<le> Suc (length s)"
  shows "match_any_loop M 0 s (glob_text es) (umatchlen (glob_text es)) [p..<Suc (length s)] =
    Some (List.find (\<lambda>(i, j). glob_match (po_env M) es (piece i j s))
      (concat (map (\<lambda>i. map (Pair i) (rev [i..<Suc (length s)])) [p..<Suc (length s)])))"
  using assms(5)
proof (induction rule: inc_induct)
  case (step p)
  let ?n = "length s" and ?m = "umatchlen (glob_text es)" and ?E = "po_env M"
  let ?G = "\<lambda>(i, j). glob_match ?E es (piece i j s)"
  let ?row = "\<lambda>i. map (Pair i) (rev [i..<Suc ?n])"
  have p: "p \<le> ?n" using step by simp
  have up: "[p..<Suc ?n] = p # [Suc p..<Suc ?n]" using step.hyps(2) by (rule upt_conv_Cons)
  have split: "concat (map ?row [p..<Suc ?n]) = ?row p @ concat (map ?row [Suc p..<Suc ?n])" by (simp only: up list.map concat.simps)
  have loop: "match_any_loop M 0 s (glob_text es) ?m [p..<Suc ?n] = match_any_loop M 0 s (glob_text es) ?m (p # [Suc p..<Suc ?n])"
    by (simp only: up)
  have row: "List.find ?G (?row i) = map_option (Pair i) (List.find (\<lambda>j. glob_match ?E es (piece i j s)) (rev [i..<Suc ?n]))" for i
    by (simp only: find_Pair prod.case)
  have fp: "first_place (\<lambda>j. str_matches M (glob_text es) (piece p j s) 0) xs = Some (List.find (\<lambda>j. glob_match ?E es (piece p j s)) xs)" for xs
    by (rule first_place_find) (simp add: str_matches_value assms)
  note flags = plain_flag_values [OF assms(3)]
  consider "\<not> match_pattern_char ?E (glob_text es) (drop p s) 0"
    | m where "match_pattern_char ?E (glob_text es) (drop p s) 0" "?m = Some m" "?n < p + m"
    | "match_pattern_char ?E (glob_text es) (drop p s) 0" "\<not> (\<exists>m\<in>set_option ?m. ?n < p + m)"
    by (cases ?m) auto
  then show ?case
  proof cases
    case 1
    have "\<not> glob_match ?E es (piece p j s)" for j
      using match_pattern_char_sound [of ?E es "piece p j s" "drop (j - p) (drop p s)"] assms(1,2,4) 1
      by (auto simp: piece_def simp del: drop_drop dest: in_set_dropD)
    then have "List.find ?G (?row p) = None" by (simp add: find_none)
    then show ?thesis using 1 step.IH unfolding split loop by (simp add: flags find_append del: upt_Suc)
  next
    case 2
    have "\<not> glob_match ?E es (piece i j s)" if "p \<le> i" "i \<le> j" "j \<le> ?n" for i j
      using announced_length [OF assms(1) 2(2) _ that(2,3), of ?E] that 2(3) by fastforce
    then have "List.find ?G (concat (map ?row [p..<Suc ?n])) = None"
      unfolding find_none by (auto simp: less_Suc_eq_le simp del: upt_Suc)
    moreover have "match_any_loop M 0 s (glob_text es) ?m [p..<Suc ?n] = Some None"
      using 2 unfolding loop by (simp add: flags del: upt_Suc)
    ultimately show ?thesis by simp
  next
    case 3
    have "List.find (\<lambda>j. glob_match ?E es (piece p j s)) (ends_from ?m p ?n) =
        List.find (\<lambda>j. glob_match ?E es (piece p j s)) (rev [p..<Suc ?n])"
      using 3(2) announced_length [OF assms(1), of _ ?E p _ s] by (intro find_ends) (cases ?m; auto)
    then show ?thesis using 3 step.IH unfolding split loop
      by (simp add: flags fp find_append row del: upt_Suc ends_from_def split: option.splits)
  qed
qed simp

lemma first_test_fails:
  assumes "list_all wf_elem es" "es \<noteq> []" "plain_ops M" "\<not> escaped_star_last es mtype" "CHR 0x00 \<notin> set s"
    and "str_matches M (first_test_pattern M (glob_text es) mtype) s 0 = Some False"
  shows "best_match (po_env M) es s mtype = None"
  using first_test_passes [OF assms(1-5)] assms(6) by (force simp: best_match_def find_none)

lemma first_test_value:
  assumes "list_all wf_elem es" "es \<noteq> []" "plain_ops M" "\<not> escaped_star_last es mtype" "CHR 0x00 \<notin> set s"
  shows "\<exists>b. str_matches M (first_test_pattern M (glob_text es) mtype) s 0 = Some b"
proof -
  obtain pre post where "first_test_pattern M (glob_text es) mtype = glob_text (pre @ es @ post)"
    "pre = (if mtype \<noteq> MATCH_BEG \<and> hd es \<noteq> Star then [Star] else [])" "post = [] \<or> post = [Star]"
    by (rule first_test_text [OF assms(1-4)])
  then show ?thesis using str_matches_value [of "pre @ es @ post" s M] assms(1,5) by (auto simp: wf_elem_def)
qed

lemma match_upattern_value:
  assumes "list_all wf_elem es" "es \<noteq> []" "plain_ops M" "\<not> escaped_star_last es mtype" "CHR 0x00 \<notin> set s"
  shows "match_upattern M s (glob_text es) mtype = Some (best_match (po_env M) es s mtype)"
proof -
  let ?n = "length s" and ?m = "umatchlen (glob_text es)" and ?E = "po_env M"
  note flags = plain_flag_values [OF assms(3)]
  obtain b where b: "str_matches M (first_test_pattern M (glob_text es) mtype) s 0 = Some b"
    using first_test_value [OF assms] by blast
  have fp: "first_place (\<lambda>j. str_matches M (glob_text es) (take j s) 0) xs = Some (List.find (\<lambda>j. glob_match ?E es (take j s)) xs)"
    "first_place (\<lambda>j. str_matches M (glob_text es) (drop j s) 0) xs = Some (List.find (\<lambda>j. glob_match ?E es (drop j s)) xs)" for xs
    by (rule first_place_find; simp add: str_matches_value assms)+
  consider "\<not> b" | m where b "?m = Some m" "?n < m" | b "\<not> (\<exists>m\<in>set_option ?m. ?n < m)" by (cases ?m) auto
  then show ?thesis
  proof cases
    case 1
    then show ?thesis using first_test_fails [OF assms] b by (simp add: match_upattern_def Let_def flags)
  next
    case 2
    have "best_match ?E es s mtype = None"
      using announced_length [OF assms(1) 2(2), of ?E _ _ s] 2(3)
      by (fastforce simp: best_match_def find_none spans_def less_Suc_eq_le simp del: upt_Suc split: match_type.splits)
    with 2 b show ?thesis by (simp add: match_upattern_def Let_def flags)
  next
    case 3
    show ?thesis
    proof (cases mtype)
      case MATCH_ANY
      then show ?thesis using 3 b match_any_loop_value [OF assms(1-3,5), of 0]
        by (simp add: match_upattern_def Let_def flags best_match_def spans_def del: upt_Suc)
    next
      case MATCH_BEG
      have "List.find (\<lambda>j. glob_match ?E es (take j s)) (ends_from ?m 0 ?n) = List.find (\<lambda>j. glob_match ?E es (take j s)) (rev [0..<Suc ?n])"
        using 3(2) announced_length [OF assms(1), of _ ?E 0 _ s] by (intro find_ends) (cases ?m; auto simp: piece_def)
      moreover have "\<not> match_pattern_char ?E (glob_text es) s 0 \<Longrightarrow> List.find (\<lambda>j. glob_match ?E es (take j s)) (rev [0..<Suc ?n]) = None"
        using match_pattern_char_sound [of ?E es "take j s" "drop j s" for j] assms by (auto simp: find_none simp del: upt_Suc)
      ultimately show ?thesis using 3 b MATCH_BEG
        by (auto simp: match_upattern_def Let_def flags best_match_def spans_def fp find_Pair piece_def simp del: upt_Suc)
    next
      case MATCH_END
      have "List.find (\<lambda>j. glob_match ?E es (drop j s)) (case ?m of None \<Rightarrow> [0..<Suc ?n] | Some m \<Rightarrow> [?n - m]) =
          List.find (\<lambda>j. glob_match ?E es (drop j s)) [0..<Suc ?n]"
      proof (cases ?m)
        case (Some m)
        then have u: "\<forall>i\<le>?n. glob_match ?E es (drop i s) \<longrightarrow> i = ?n - m" "m \<le> ?n"
          using announced_length [OF assms(1) Some, of ?E _ ?n s] 3(2) by (fastforce simp: piece_def)+
        show ?thesis
        proof (cases "glob_match ?E es (drop (?n - m) s)")
          case True
          moreover have "\<not> glob_match ?E es (drop i s)" if "i < ?n - m" for i using u(1) [rule_format, of i] that by (cases "i \<le> ?n") auto
          ultimately have "List.find (\<lambda>j. glob_match ?E es (drop j s)) [0..<Suc ?n] = Some (?n - m)"
            unfolding find_Some_first by auto
          with True Some show ?thesis by simp
        next
          case False
          then have "List.find (\<lambda>j. glob_match ?E es (drop j s)) [0..<Suc ?n] = None"
            unfolding find_none using u by (auto simp: less_Suc_eq_le simp del: upt_Suc)
          with False Some show ?thesis by simp
        qed
      qed simp
      moreover have "List.find (\<lambda>(i, j). glob_match ?E es (piece i j s)) (map (\<lambda>i. (i, ?n)) xs) =
          map_option (\<lambda>i. (i, ?n)) (List.find (\<lambda>j. glob_match ?E es (drop j s)) xs)" for xs
        by (induction xs) (auto simp: piece_def)
      ultimately show ?thesis using 3 b MATCH_END
        by (simp add: match_upattern_def Let_def flags best_match_def spans_def fp del: upt_Suc)
    qed
  qed
qed

lemma find_found: "List.find P xs = Some x \<Longrightarrow> x \<in> set xs \<and> P x"
  by (auto simp: find_Some_iff)

lemma best_match_range: "best_match E es s mtype = Some (i, j) \<Longrightarrow> i \<le> j \<and> j \<le> length s \<and> glob_match E es (piece i j s)"
  by (auto simp: best_match_def spans_def less_Suc_eq_le simp del: upt_Suc split: match_type.splits dest!: find_found)

lemma only_stars: "glob_match E es [] \<Longrightarrow> es \<noteq> [] \<Longrightarrow> glob_match E es s"
proof (induction es)
  case (Cons e es)
  then have e: "e = Star" by (cases e) auto
  with Cons have "es = [] \<or> glob_match E es s" by (cases "es = []") simp_all
  with e show ?case using Star_last [of E s] glob_match_Star [of E es 0 s] by (auto simp del: glob_match.simps)
qed simp

lemma best_match_nonempty:
  assumes "best_match E es s mtype = Some (i, j)" "es \<noteq> []" "s \<noteq> []"
  shows "i < j"
proof (rule ccontr)
  assume "\<not> i < j"
  with best_match_range [OF assms(1)] have ij: "i = j" "j \<le> length s" "glob_match E es []" by (auto simp: piece_def)
  then have m: "glob_match E es t" for t using only_stars assms(2) by blast
  have u: "[0..<Suc (length s)] = 0 # [Suc 0..<Suc (length s)]" by (rule upt_conv_Cons) simp
  have "best_match E es s mtype = Some (0, length s)"
  proof (cases mtype)
    case MATCH_ANY
    have "spans mtype (length s) = map (Pair 0) (rev [0..<Suc (length s)]) @ concat (map (\<lambda>i. map (Pair i) (rev [i..<Suc (length s)])) [Suc 0..<Suc (length s)])"
      using MATCH_ANY u by (simp only: spans_def match_type.case list.map concat.simps)
    then show ?thesis by (simp add: best_match_def m)
  next
    case MATCH_END
    then show ?thesis by (simp add: best_match_def m spans_def u del: upt_Suc)
  qed (simp add: best_match_def m spans_def)
  with assms(1,3) ij show False by auto
qed

lemma match_pattern_value:
  assumes "list_all wf_elem es" "es \<noteq> []" "plain_ops M" "\<not> escaped_star_last es mtype" "CHR 0x00 \<notin> set s"
  shows "match_pattern M s (Some (glob_text es)) mtype = Some (best_match (po_env M) es s mtype)"
proof -
  have "glob_text es \<noteq> []" using glob_text_length [OF assms(1)] assms(2) by auto
  then show ?thesis using match_upattern_value [OF assms] by (simp add: match_pattern_def)
qed

lemma best_match_Nil: "best_match E es [] mtype = (if glob_match E es [] then Some (0, 0) else None)"
  by (cases mtype) (simp_all add: best_match_def spans_def piece_def)

section \<open>Properties\<close>

text \<open>
  C25. Property of \<open>remove_pattern\<close>, in a single-byte locale with \<open>extglob\<close> and \<open>nocasematch\<close> off and for patterns of
  the grammar of \<open>glob_elem\<close>: removal takes away the longest or the shortest prefix or suffix the
  pattern matches, and leaves the string as it is when it matches none.
\<close>

theorem pattern_removal_exact:
  assumes "list_all wf_elem es" "plain_ops M" "CHR 0x00 \<notin> set s" "s \<noteq> []" "es \<noteq> []"
  shows "\<exists>t. remove_pattern M (Some s) (Some (glob_text es)) rp = Some (Some t) \<and> removal_result rp (po_env M) es s t"
proof -
  have "glob_text es \<noteq> []" using glob_text_length [OF assms(1)] assms(5) by auto
  then show ?thesis using remove_upattern_value [OF assms(1-3), of rp] assms(4) by (auto simp: remove_pattern_def)
qed

definition C_patterns :: pat_ops where
  "C_patterns = \<lparr>po_env = C_locale, po_locale = utf8_locale\<lparr>lc_multibyte := False\<rparr>, po_extglob = False,
     po_ignore_case = False, po_mb_cur_max = 1\<rparr>"

lemma C_patterns_plain: "plain_ops C_patterns"
  by (simp add: plain_ops_def C_patterns_def utf8_locale_def)

text \<open>\<open>${x##*/}\<close> and \<open>${x%.*}\<close>.\<close>

theorem pattern_removal_exact_witness:
  "(\<exists>t. remove_pattern C_patterns (Some ''a/b/c'') (Some ''*/'') RP_LONG_LEFT = Some (Some t) \<and>
      removal_result RP_LONG_LEFT C_locale [Star, Lit (CHR ''/'')] ''a/b/c'' t) \<and>
    removal_result RP_LONG_LEFT C_locale [Star, Lit (CHR ''/'')] ''a/b/c'' ''c''"
proof
  have "list_all wf_elem [Star, Lit (CHR ''/'')]" "glob_text [Star, Lit (CHR ''/'')] = ''*/''" "po_env C_patterns = C_locale"
    by (simp_all add: wf_elem_def elem_text_def lit_text_def quoted_def C_patterns_def)
  then show "\<exists>t. remove_pattern C_patterns (Some ''a/b/c'') (Some ''*/'') RP_LONG_LEFT = Some (Some t) \<and>
      removal_result RP_LONG_LEFT C_locale [Star, Lit (CHR ''/'')] ''a/b/c'' t"
    using pattern_removal_exact [of "[Star, Lit (CHR ''/'')]" C_patterns "''a/b/c''" RP_LONG_LEFT] C_patterns_plain by simp
  show "removal_result RP_LONG_LEFT C_locale [Star, Lit (CHR ''/'')] ''a/b/c'' ''c''"
  proof -
    have "\<not> glob_match C_locale [Star, Lit (CHR ''/'')] (take m ''a/b/c'')" if "m \<le> 5" "\<not> m \<le> 4" for m
    proof -
      have "m = 5" using that by simp
      then show ?thesis by simp
    qed
    moreover have len: "length ''a/b/c'' = 5" by simp
    ultimately have "\<forall>m\<le>length ''a/b/c''. glob_match C_locale [Star, Lit (CHR ''/'')] (take m ''a/b/c'') \<longrightarrow> m \<le> 4" 
      unfolding len by blast
    moreover have "glob_match C_locale [Star, Lit (CHR ''/'')] (take 4 ''a/b/c'')" by simp
    ultimately show ?thesis unfolding removal_result_def Let_def
      by (intro disjI1 exI [of _ 4]) (simp_all del: glob_match.simps)
  qed
qed

text \<open>
  C26. Property of \<open>match_pattern\<close>, in a single-byte locale with \<open>extglob\<close> and \<open>nocasematch\<close> off: with a \<open>*\<close> in
  front and an escaped \<open>*\<close> at the end, a pattern finds nothing in a string it does not match as a whole,
  because the first test takes the escaped \<open>*\<close> for a wildcard and does not add one.
\<close>

theorem escaped_star_misses_match:
  assumes "list_all wf_elem es" "plain_ops M" "CHR 0x00 \<notin> set s"
    and "hd es = Star" "last es = Lit (CHR ''*'')" "\<not> glob_match (po_env M) es s"
  shows "match_pattern M s (Some (glob_text es)) mtype = Some None"
proof -
  have es: "es \<noteq> []" using assms(4,5) by (cases es) (auto simp: hd_def last_def)
  have "first_test_pattern M (glob_text es) mtype = glob_text es"
    using text_star [OF assms(1) es] assms(2,4,5) by (simp add: first_test_pattern_def Let_def plain_ops_def)
  then show ?thesis
    using assms(6) by (simp add: match_pattern_def match_upattern_def Let_def plain_flag_values [OF assms(2)] str_matches_value [OF assms(1,3)])
qed

text \<open>\<open>${x/*\*/}\<close> with the value \<open>a*b\<close>, whose prefix \<open>a*\<close> the pattern matches.\<close>

theorem escaped_star_misses_match_witness:
  "match_pattern C_patterns ''a*b'' (Some [CHR ''*'', CHR 0x5C, CHR ''*'']) MATCH_ANY = Some None \<and>
    best_match C_locale [Star, Lit (CHR ''*'')] ''a*b'' MATCH_ANY = Some (0, 2)"
proof
  have "list_all wf_elem [Star, Lit (CHR ''*'')]" "glob_text [Star, Lit (CHR ''*'')] = [CHR ''*'', CHR 0x5C, CHR ''*'']"
    "\<not> glob_match (po_env C_patterns) [Star, Lit (CHR ''*'')] ''a*b''"
    by (simp_all add: wf_elem_def elem_text_def lit_text_def quoted_def C_patterns_def)
  then show "match_pattern C_patterns ''a*b'' (Some [CHR ''*'', CHR 0x5C, CHR ''*'']) MATCH_ANY = Some None"
    using escaped_star_misses_match [of "[Star, Lit (CHR ''*'')]" C_patterns "''a*b''" MATCH_ANY] C_patterns_plain by simp
  show "best_match C_locale [Star, Lit (CHR ''*'')] ''a*b'' MATCH_ANY = Some (0, 2)"
    by (simp add: best_match_def spans_def piece_def numeral_nat)
qed

end
