(* ===== verification/Bash_PatSubstSem.thy ===== *)
theory Bash_PatSubstSem imports Bash_PatternSem begin

text \<open>
  What \<open>${x/p/r}\<close> means: the text of a replacement, the reference replacement and the proof that
  \<open>pat_subst\<close> computes it within its buffer.
\<close>

section \<open>The replacement\<close>

text \<open>A replacement is characters and the matched text; \<open>&\<close> and the backslash are escaped.\<close>

datatype rep_elem = Plain char | Matched

definition rep_text :: "rep_elem list \<Rightarrow> string" where
  "rep_text rs = concat (map (\<lambda>r. case r of Plain c \<Rightarrow> quoted [CHR ''&'', CHR 0x5C] c | Matched \<Rightarrow> ''&'') rs)"

definition rep_value :: "string \<Rightarrow> rep_elem list \<Rightarrow> string" where
  "rep_value m rs = concat (map (\<lambda>r. case r of Plain c \<Rightarrow> [c] | Matched \<Rightarrow> m) rs)"

lemma rep_simps [simp]:
  "rep_text [] = []" "rep_text (Matched # rs) = CHR ''&'' # rep_text rs"
  "rep_text (Plain c # rs) = (if c = CHR ''&'' \<or> c = CHR 0x5C then [CHR 0x5C, c] else [c]) @ rep_text rs"
  "rep_value m [] = []" "rep_value m (Matched # rs) = m @ rep_value m rs" "rep_value m (Plain c # rs) = c # rep_value m rs"
  by (simp_all add: rep_text_def rep_value_def quoted_def)

definition sb_fits :: "strbuf \<Rightarrow> bool" where "sb_fits b \<longleftrightarrow> length (sb_text b) < sb_size b"

lemma resize_fits:
  assumes "sincr = doubling \<or> sincr = by_64" "sb_fits b" "sb_size b < SIZE_LIMIT" "length (sb_text b) + room < 2 ^ 60"
  obtains n where "RESIZE_MALLOCED_BUFFER SIZE_LIMIT room sincr b = Some (b\<lparr>sb_size := n\<rparr>)"
    "length (sb_text b) + room < n" "n < SIZE_LIMIT"
  by (rule resize_room [of sincr b room SIZE_LIMIT])
    (use assms that in \<open>auto simp: doubling_def by_64_def sb_fits_def SIZE_LIMIT_def\<close>)

lemma strcreplace_value:
  "sb_fits b \<Longrightarrow> sb_size b < SIZE_LIMIT \<Longrightarrow> length (sb_text b) + length (rep_value m rs) + 2 < 2 ^ 60 \<Longrightarrow>
    \<exists>r. strcreplace_loop (CHR ''&'') m True (rep_text rs) b = Some r \<and> sb_text r = sb_text b @ rep_value m rs \<and> sb_fits r"
proof (induction rs arbitrary: b)
  case Nil
  then show ?case by (simp add: strcreplace_loop.simps)
next
  case (Cons e rs)
  show ?case
  proof (cases e)
    case (Plain c)
    obtain n where n: "RESIZE_MALLOCED_BUFFER SIZE_LIMIT 2 doubling b = Some (b\<lparr>sb_size := n\<rparr>)" "length (sb_text b) + 2 < n" "n < SIZE_LIMIT"
      by (rule resize_fits [of doubling b 2]) (use Cons.prems in auto)
    define b' where "b' = \<lparr>sb_text = sb_text b @ [c], sb_size = n\<rparr>"
    have "sb_fits b'" "sb_size b' < SIZE_LIMIT" "length (sb_text b') + length (rep_value m rs) + 2 < 2 ^ 60"
      using n Cons.prems(3) Plain by (simp_all add: b'_def sb_fits_def)
    moreover have "strcreplace_loop (CHR ''&'') m True (rep_text (e # rs)) b = strcreplace_loop (CHR ''&'') m True (rep_text rs) b'"
      using n Plain by (subst strcreplace_loop.simps) (cases b; auto simp: sb_putc_def b'_def byte_at_def)
    ultimately show ?thesis using Cons.IH [of b'] Plain by (simp add: b'_def)
  next
    case Matched
    obtain n where n: "RESIZE_MALLOCED_BUFFER SIZE_LIMIT (length m) doubling b = Some (b\<lparr>sb_size := n\<rparr>)"
        "length (sb_text b) + length m < n" "n < SIZE_LIMIT"
      by (rule resize_fits [of doubling b "length m"]) (use Cons.prems Matched in auto)
    define b' where "b' = (if m = [] then b else \<lparr>sb_text = sb_text b @ m, sb_size = n\<rparr>)"
    have "sb_fits b'" "sb_text b' = sb_text b @ m" "sb_size b' < SIZE_LIMIT" "length (sb_text b') + length (rep_value m rs) + 2 < 2 ^ 60"
      using n Cons.prems Matched by (auto simp: b'_def sb_fits_def)
    moreover have "strcreplace_loop (CHR ''&'') m True (rep_text (e # rs)) b = strcreplace_loop (CHR ''&'') m True (rep_text rs) b'"
      using n Matched by (subst strcreplace_loop.simps) (cases b; auto simp: sb_strcpy_def b'_def)
    ultimately show ?thesis using Cons.IH [of b'] Matched by simp
  qed
qed

lemma strcreplace_text:
  assumes "length m < INT_LIMIT" "length (rep_text rs) < INT_LIMIT" "length (rep_value m rs) < INT_LIMIT"
  shows "strcreplace (rep_text rs) (CHR ''&'') m True = Some (rep_value m rs)"
proof -
  obtain r where "strcreplace_loop (CHR ''&'') m True (rep_text rs) \<lparr>sb_text = [], sb_size = length m + length (rep_text rs) + 2\<rparr> = Some r"
    "sb_text r = rep_value m rs" "sb_fits r"
    using strcreplace_value [of "\<lparr>sb_text = [], sb_size = length m + length (rep_text rs) + 2\<rparr>" m rs] assms
    by (auto simp: sb_fits_def INT_LIMIT_def SIZE_LIMIT_def)
  then show ?thesis by (simp add: strcreplace_def sb_end_def sb_fits_def)
qed

lemma shouldexp_Cons:
  "plain_ops M \<Longrightarrow> shouldexp_replacement M (c # s) \<longleftrightarrow>
    (if c = CHR 0x5C then s \<noteq> [] \<and> (hd s = CHR ''&'' \<or> hd s = CHR 0x5C \<or> shouldexp_replacement M (tl s))
     else c = CHR ''&'' \<or> shouldexp_replacement M s)"
  by (subst shouldexp_replacement.simps) (auto simp: char_len_def plain_ops_def drop_Suc)

lemma nothing_to_replace: "plain_ops M \<Longrightarrow> \<not> shouldexp_replacement M (rep_text rs) \<Longrightarrow> rep_text rs = rep_value m rs"
proof (induction rs)
  case (Cons e rs)
  then show ?case by (cases e) (auto simp: shouldexp_Cons split: if_splits)
qed simp

text \<open>The replacement, short enough for an \<open>int\<close>, and the flag \<open>MATCH_EXPREP\<close> that go with it.\<close>

definition rep_given :: "pat_ops \<Rightarrow> rep_elem list \<Rightarrow> string option \<Rightarrow> bool \<Rightarrow> bool" where
  "rep_given M rs rep exprep \<longleftrightarrow> length (rep_text rs) < INT_LIMIT \<and>
     (rep = Some (rep_text rs) \<and> exprep = shouldexp_replacement M (rep_text rs) \<or> rs = [] \<and> rep = None \<and> \<not> exprep)"

lemma replacement_value:
  "plain_ops M \<Longrightarrow> rep_given M rs rep exprep \<Longrightarrow> length m + 1 < INT_LIMIT \<Longrightarrow> length (rep_value m rs) < INT_LIMIT \<Longrightarrow>
    replacement rep exprep m = Some (rep_value m rs)"
  using nothing_to_replace [of M rs m] by (auto simp: replacement_def rep_given_def strcreplace_text)

text \<open>The buffer with so many bytes still to come.\<close>

definition sb_ready :: "strbuf \<Rightarrow> nat \<Rightarrow> bool" where
  "sb_ready b k \<longleftrightarrow> sb_fits b \<and> sb_size b < SIZE_LIMIT \<and> length (sb_text b) + k < INT_LIMIT"

lemma replace_match_value:
  assumes "plain_ops M" "rep_given M rs rep exprep" "s \<le> e" "e \<le> length str" "length str + 1 < INT_LIMIT"
    and "sb_ready b (s + length (rep_value (piece s e str) rs) + k)"
  shows "\<exists>r. replace_match rep exprep str s e b = Some r \<and> sb_text r = sb_text b @ take s str @ rep_value (piece s e str) rs \<and> sb_ready r k"
proof -
  let ?v = "rep_value (piece s e str) rs"
  have "length (piece s e str) + 1 < INT_LIMIT" using assms(3-5) by (simp add: piece_length)
  then have v: "replacement rep exprep (piece s e str) = Some ?v"
    using assms(6) by (intro replacement_value [OF assms(1,2)]) (auto simp: sb_ready_def)
  obtain n where n: "RESIZE_MALLOCED_BUFFER SIZE_LIMIT (s + length ?v) by_64 b = Some (b\<lparr>sb_size := n\<rparr>)"
      "length (sb_text b) + (s + length ?v) < n" "n < SIZE_LIMIT"
    by (rule resize_fits [of by_64 b "s + length ?v"]) (use assms(6) in \<open>auto simp: sb_ready_def INT_LIMIT_def\<close>)
  have "rep = None \<or> rep = Some [] \<Longrightarrow> ?v = []"
    using assms(2) by (cases rs; cases "hd rs") (auto simp: rep_given_def split: if_splits)
  moreover have "sb_strncpy (take s str) (b\<lparr>sb_size := n\<rparr>) = Some (b\<lparr>sb_size := n, sb_text := sb_text b @ take s str\<rparr>)"
    "sb_strncpy ?v (b\<lparr>sb_size := n, sb_text := sb_text b @ take s str\<rparr>) =
      Some (b\<lparr>sb_size := n, sb_text := sb_text b @ take s str @ ?v\<rparr>)"
    using n(2) assms(3,4,6) by (simp_all add: sb_strncpy_def sb_ready_def)
  ultimately show ?thesis using n v assms(3,4,6)
    by (auto simp: replace_match_def sb_fits_def sb_ready_def)
qed

section \<open>Replacing\<close>

text \<open>
  The matches from left to right, each the longest at the first place that has one, replaced; after
  an empty one a character is kept.
\<close>

function replace_matches :: "match_env \<Rightarrow> glob_elem list \<Rightarrow> rep_elem list \<Rightarrow> match_type \<Rightarrow> bool \<Rightarrow> string \<Rightarrow> string" where
  "replace_matches E es rs mtype all s =
     (if s = [] then []
      else
        (case best_match E es s mtype of
           None \<Rightarrow> s
         | Some (i, j) \<Rightarrow>
             take i s @ rep_value (piece i j s) rs @
             (if \<not> all \<or> mtype \<noteq> MATCH_ANY then drop j s
              else if i = j then take 1 (drop j s) @ replace_matches E es rs mtype all (drop (Suc j) s)
              else replace_matches E es rs mtype all (drop j s))))"
  by pat_completeness auto
termination
  by (relation "measure (\<lambda>(E, es, rs, mtype, all, s). length s)") (auto dest!: best_match_range)

declare replace_matches.simps [simp del]

text \<open>The empty string is replaced when the pattern matches it.\<close>

definition replaced :: "match_env \<Rightarrow> glob_elem list \<Rightarrow> rep_elem list \<Rightarrow> match_type \<Rightarrow> bool \<Rightarrow> string \<Rightarrow> string" where
  "replaced E es rs mtype all s =
     (if s = [] then (if glob_match E es [] then rep_value [] rs else []) else replace_matches E es rs mtype all s)"


lemma pat_subst_loop_value:
  assumes "list_all wf_elem es" "es \<noteq> []" "plain_ops M" "\<not> escaped_star_last es mtype" "rep_given M rs rep exprep"
  shows "CHR 0x00 \<notin> set s \<Longrightarrow> length s + 1 < INT_LIMIT \<Longrightarrow> sb_ready b (length (replace_matches (po_env M) es rs mtype all s)) \<Longrightarrow>
    \<exists>u r. pat_subst_loop M (Some (glob_text es)) rep mtype all exprep s b = Some (u, r) \<and> sb_ready r (length u) \<and>
      sb_text r @ u = sb_text b @ replace_matches (po_env M) es rs mtype all s"
proof (induction "length s" arbitrary: s b rule: less_induct)
  case less
  let ?E = "po_env M"
  show ?case
  proof (cases "s = []")
    case True
    with less.prems show ?thesis by (simp add: pat_subst_loop.simps replace_matches.simps)
  next
    case s: False
    note m = match_pattern_value [OF assms(1-4) less.prems(1)]
    show ?thesis
    proof (cases "best_match ?E es s mtype")
      case None
      with s m less.prems show ?thesis by (simp add: pat_subst_loop.simps [of M _ _ _ _ _ s] replace_matches.simps [of _ _ _ _ _ s])
    next
      case (Some ij)
      obtain i j where ij: "ij = (i, j)" by fastforce
      have lt: "i < j" "j \<le> length s"
        using best_match_nonempty [of ?E es s mtype i j] best_match_range [of ?E es s mtype i j] Some ij assms(2) s by auto
      define left where "left = (if \<not> all \<or> mtype \<noteq> MATCH_ANY then drop j s else replace_matches ?E es rs mtype all (drop j s))"
      have rm: "replace_matches ?E es rs mtype all s = take i s @ rep_value (piece i j s) rs @ left"
        using s Some ij lt by (simp add: replace_matches.simps [of _ _ _ _ _ s] left_def)
      have "sb_ready b (i + length (rep_value (piece i j s) rs) + length left)"
        using less.prems(3) lt unfolding rm by (simp add: add.assoc)
      then obtain r where r: "replace_match rep exprep s i j b = Some r" "sb_ready r (length left)"
          "sb_text r = sb_text b @ take i s @ rep_value (piece i j s) rs"
        using replace_match_value [OF assms(3,5), of i j s b "length left"] lt less.prems(2) by auto
      show ?thesis
      proof (cases "\<not> all \<or> mtype \<noteq> MATCH_ANY")
        case True
        with r s m Some ij show ?thesis unfolding rm
          by (auto simp: pat_subst_loop.simps [of M _ _ _ _ _ s] left_def)
      next
        case False
        have d: "length (drop j s) < length s" "CHR 0x00 \<notin> set (drop j s)" "length (drop j s) + 1 < INT_LIMIT"
          using lt less.prems by (auto dest: in_set_dropD)
        have "sb_ready r (length (replace_matches ?E es rs mtype all (drop j s)))" using r(2) False by (simp add: left_def)
        from less.hyps [OF d this] False r s m Some ij lt show ?thesis unfolding rm
          by (auto simp: pat_subst_loop.simps [of M _ _ _ _ _ s] left_def)
      qed
    qed
  qed
qed

lemma pat_subst_scan:
  assumes "sb_ready r (length u)"
  shows "(if u = [] then sb_end r else Option.bind (RESIZE_MALLOCED_BUFFER SIZE_LIMIT (length u + 1) by_64 r) (\<lambda>r. Option.bind (sb_strcpy u r) (\<lambda>r. Some (sb_text r)))) =
    Some (sb_text r @ u)"
proof -
  obtain n where "RESIZE_MALLOCED_BUFFER SIZE_LIMIT (length u + 1) by_64 r = Some (r\<lparr>sb_size := n\<rparr>)" "length (sb_text r) + (length u + 1) < n"
    by (rule resize_fits [of by_64 r "length u + 1"]) (use assms in \<open>auto simp: sb_ready_def INT_LIMIT_def\<close>)
  then show ?thesis using assms by (simp add: sb_end_def sb_fits_def sb_ready_def sb_strcpy_def)
qed

lemma pat_subst_value:
  assumes "list_all wf_elem es" "es \<noteq> []" "plain_ops M" "\<not> escaped_star_last es mtype" "CHR 0x00 \<notin> set s"
    and "rep_given M rs rep exprep" "rep = None \<longrightarrow> s \<noteq> []"
    and "length s + 1 < INT_LIMIT" "length (replaced (po_env M) es rs mtype all s) < INT_LIMIT"
  shows "pat_subst M (Some s) (Some (glob_text es)) rep mtype all exprep = Some (replaced (po_env M) es rs mtype all s)"
proof -
  have ne: "glob_text es \<noteq> []" using glob_text_length [OF assms(1)] assms(2) by auto
  have l0: "length (replace_matches (po_env M) es rs mtype all s) < INT_LIMIT"
    using assms(9) by (cases "s = []") (simp_all add: replaced_def replace_matches.simps [of _ _ _ _ _ "[]"] INT_LIMIT_def)
  then have "sb_ready \<lparr>sb_text = [], sb_size = 64\<rparr> (length (replace_matches (po_env M) es rs mtype all s))"
    by (simp add: sb_ready_def sb_fits_def SIZE_LIMIT_def)
  then obtain u r where l: "pat_subst_loop M (Some (glob_text es)) rep mtype all exprep s \<lparr>sb_text = [], sb_size = 64\<rparr> = Some (u, r)"
      "sb_ready r (length u)" "sb_text r @ u = replace_matches (po_env M) es rs mtype all s"
    using pat_subst_loop_value [OF assms(1-4,6,5,8), of "\<lparr>sb_text = [], sb_size = 64\<rparr>" all] by auto
  note scan = pat_subst_scan [OF l(2)]
  show ?thesis
  proof (cases "s = []")
    case False
    with l scan ne show ?thesis by (simp add: pat_subst_def replaced_def)
  next
    case True
    have r: "rep = Some (rep_text rs)" "exprep = shouldexp_replacement M (rep_text rs)" "length (rep_text rs) < INT_LIMIT"
      using assms(6,7) True by (auto simp: rep_given_def)
    show ?thesis
    proof (cases "glob_match (po_env M) es []")
      case m: True
      then have "length (rep_value [] rs) < INT_LIMIT" using assms(9) True by (simp add: replaced_def)
      then have "strcreplace (rep_text rs) (CHR ''&'') [] True = Some (rep_value [] rs)"
        using r(3) by (intro strcreplace_text) (simp_all add: INT_LIMIT_def)
      then show ?thesis using True r m ne match_pattern_value [OF assms(1-5)] nothing_to_replace [OF assms(3), of rs "[]"]
        by (auto simp: pat_subst_def replaced_def best_match_Nil)
    next
      case m: False
      then show ?thesis using True l scan ne match_pattern_value [OF assms(1-5)]
        by (simp add: pat_subst_def replaced_def best_match_Nil replace_matches.simps)
    qed
  qed
qed

section \<open>Properties\<close>

text \<open>
  C9. Property of \<open>pat_subst\<close>, with the flag \<open>shouldexp_replacement\<close> gives it: replacing in a string gives
  the reference replacement, in which the first match is the longest at the first place that has
  one, or the longest prefix or suffix, \<open>&\<close> stands for the match, and all later matches are replaced on
  request; no store leaves the buffer. This for patterns of the grammar of \<open>glob_elem\<close> (literals,
  \<open>?\<close>, \<open>*\<close> and bracket expressions) in a single-byte locale, with \<open>extglob\<close> and \<open>nocasematch\<close> off, and
  a string, a replacement and a result below 2 ^ 31 - 1 bytes (\<open>rptr\<close> and \<open>mlen\<close> are \<open>int\<close>). Excluded is a pattern that begins with an
  unescaped and ends with an escaped \<open>*\<close> when it is not anchored at the end (\<open>escaped_star_last\<close>): there the
  code misses matches, which is the subject of \<open>escaped_star_misses_match\<close>.
\<close>

theorem pat_subst_replaces_matches:
  assumes "list_all wf_elem es" "es \<noteq> []" "plain_ops M" "\<not> escaped_star_last es mtype" "CHR 0x00 \<notin> set s"
    and "length s + 1 < INT_LIMIT" "length (rep_text rs) < INT_LIMIT" "length (replaced (po_env M) es rs mtype all s) < INT_LIMIT"
  shows "pat_subst M (Some s) (Some (glob_text es)) (Some (rep_text rs)) mtype all (shouldexp_replacement M (rep_text rs)) =
    Some (replaced (po_env M) es rs mtype all s)"
  using pat_subst_value [OF assms(1-5) _ _ assms(6,8), of "Some (rep_text rs)"] assms(7) by (simp add: rep_given_def)

text \<open>\<open>${x//?b/[&]}\<close> with the value \<open>abcb\<close>.\<close>

theorem pat_subst_replaces_matches_witness:
  "pat_subst C_patterns (Some ''abcb'') (Some ''?b'') (Some ''[&]'') MATCH_ANY True True = Some ''[ab][cb]''"
proof -
  let ?es = "[Any, Lit (CHR ''b'')]" and ?rs = "[Plain (CHR ''[''), Matched, Plain (CHR '']'')]"
  have t: "list_all wf_elem ?es" "glob_text ?es = ''?b''" "po_env C_patterns = C_locale"
    by (simp_all add: wf_elem_def elem_text_def lit_text_def quoted_def C_patterns_def)
  have e: "\<not> escaped_star_last ?es MATCH_ANY" by (simp add: escaped_star_last_def)
  have x: "shouldexp_replacement C_patterns ''[&]''" by (simp add: shouldexp_Cons C_patterns_plain)
  have r: "replaced C_locale ?es ?rs MATCH_ANY True ''abcb'' = ''[ab][cb]''"
    by (simp add: replaced_def replace_matches.simps best_match_def spans_def piece_def numeral_nat)
  show ?thesis using pat_subst_replaces_matches [OF t(1) _ C_patterns_plain e, of "''abcb''" ?rs True] t(2,3) x r
    by (simp add: INT_LIMIT_def)
qed

text \<open>A NULL replacement of an empty string that the pattern matches is a fault: it is copied.\<close>

lemma null_replacement_faults:
  assumes "list_all wf_elem es" "es \<noteq> []" "plain_ops M" "\<not> escaped_star_last es mtype" "glob_match (po_env M) es []"
  shows "pat_subst M (Some []) (Some (glob_text es)) None mtype all False = None"
proof -
  have "glob_text es \<noteq> []" using glob_text_length [OF assms(1)] assms(2) by auto
  then show ?thesis using match_pattern_value [OF assms(1-4), of "[]"] assms(5) by (simp add: pat_subst_def best_match_Nil)
qed

end
