(* ===== verification/Bash_Split.thy ===== *)
theory Bash_Split imports Bash_Strbuf begin

text \<open>
  Word splitting (\<open>src/khsl/bash/bash-5.2/subst.c\<close>): the value of \<open>IFS\<close>, splitting a string into words,
  taking one word for \<open>read\<close>, and joining the positional parameters. Places in the string are what is
  left of it from there on. A string is never NULL, an empty one behaves like it; separators are
  never NULL. The locale is \<open>locale_ops\<close>, the class of white space an argument. \<open>None\<close> is a read behind
  an object.
\<close>

section \<open>The separators\<close>

definition spctabnl :: "char \<Rightarrow> bool" where
  "spctabnl c \<longleftrightarrow> c = CHR '' '' \<or> c = CHR 0x09 \<or> c = CHR 0x0A"

definition default_ifs :: string where "default_ifs = [CHR '' '', CHR 0x09, CHR 0x0A]"

text \<open>
  The static variables. \<open>ifs_var\<close> is the variable with its value cell; of \<open>ifs_firstc\<close> the first
  \<open>ifs_firstc_len\<close> bytes are kept.
\<close>

record ifs_state =
  ifs_var :: "string option option"
  ifs_value :: string
  ifs_is_set :: bool
  ifs_is_null :: bool
  ifs_cmap :: "char \<Rightarrow> bool"
  ifs_firstc :: string
  expand_no_split_dollar_star :: bool

definition setifs :: "locale_ops \<Rightarrow> string option option \<Rightarrow> ifs_state \<Rightarrow> ifs_state" where
  "setifs L v S =
     (let value = (case v of Some (Some t) \<Rightarrow> t | _ \<Rightarrow> default_ifs);
          len = (if lc_utf8 L \<and> \<not> high_bit (byte_at value 0) then (if value = [] then 0 else 1)
                 else if lc_multibyte L then (if value = [] then -1 else lc_mbrlen L value) else 1)
      in S\<lparr>ifs_var := v, ifs_value := value, ifs_is_set := v \<noteq> None, ifs_is_null := v \<noteq> None \<and> value = [],
           ifs_cmap := (\<lambda>c. c \<in> set value),
           ifs_firstc := (if len \<le> 1 then [byte_at value 0] else take (nat len) value)\<rparr>)"

definition getifs :: "ifs_state \<Rightarrow> string" where "getifs S = ifs_value S"

record split_env =
  sp_locale :: locale_ops
  sp_isspace :: "char \<Rightarrow> bool"

definition isifs :: "ifs_state \<Rightarrow> char \<Rightarrow> bool" where "isifs S c = ifs_cmap S c"

definition issep :: "ifs_state \<Rightarrow> string \<Rightarrow> char \<Rightarrow> bool" where
  "issep S separators c =
     (case separators of [] \<Rightarrow> False | [d] \<Rightarrow> c = d | _ \<Rightarrow> isifs S c)"

definition ifs_whitespace :: "split_env \<Rightarrow> char \<Rightarrow> bool" where "ifs_whitespace E c = sp_isspace E c"

definition sh_style :: "string \<Rightarrow> bool" where "sh_style separators \<longleftrightarrow> separators = default_ifs"

definition ifs_whitesep :: "split_env \<Rightarrow> string \<Rightarrow> char \<Rightarrow> bool" where
  "ifs_whitesep E separators c = (if sh_style separators then spctabnl c else ifs_whitespace E c)"

section \<open>One word\<close>

text \<open>What is left where the loop of \<open>string_extract_single_quoted\<close> stops.\<close>

function single_quoted_loop :: "locale_ops \<Rightarrow> bool \<Rightarrow> bool \<Rightarrow> string \<Rightarrow> string" where
  "single_quoted_loop L allowesc pass_next s =
     (if s = [] then []
      else if pass_next then single_quoted_loop L allowesc False (drop (char_len L s) s)
      else if allowesc \<and> hd s = CHR 0x5C then single_quoted_loop L allowesc True (drop (char_len L s) s)
      else if hd s = CHR 0x27 then s
      else single_quoted_loop L allowesc False (drop (char_len L s) s))"
  by pat_completeness auto
termination
  by (relation "measure (\<lambda>(L, a, p, s). length s)") (auto simp: char_len_pos)

declare single_quoted_loop.simps [simp del]

definition up_to :: "string \<Rightarrow> string \<Rightarrow> string" where "up_to s r = take (length s - length r) s"

definition string_extract_single_quoted :: "locale_ops \<Rightarrow> bool \<Rightarrow> string \<Rightarrow> string \<times> string" where
  "string_extract_single_quoted L allowesc s =
     (let r = single_quoted_loop L allowesc False s in (up_to s r, drop 1 r))"

text \<open>
  Whether the character a string begins with is in the list. When the list cannot be converted, only
  one element of its copy is written, and the search reads on behind it.
\<close>

definition in_charlist :: "locale_ops \<Rightarrow> string \<Rightarrow> string \<Rightarrow> bool option" where
  "in_charlist L charlist s =
     (let n = (if lc_utf8 L \<and> \<not> high_bit (hd s) then 1 else if lc_multibyte L then lc_mbrlen L s else 1);
          (m, wc) = lc_mbrtowc L s
      in if 0 \<le> n \<and> n \<le> 1 \<or> m < 0 then Some (hd s \<in> set charlist)
         else
           (case lc_mbstowcs L charlist of
              Some ws \<Rightarrow> Some (wc \<in> set ws)
            | None \<Rightarrow>
                let (k, first) = lc_mbrtowc L charlist in if 0 \<le> k \<and> first = wc then Some True else None))"

function verbatim_loop :: "locale_ops \<Rightarrow> string \<Rightarrow> bool \<Rightarrow> bool \<Rightarrow> string \<Rightarrow> string option" where
  "verbatim_loop L charlist noctlesc noescctlnul s =
     (if s = [] then Some []
      else if \<not> noctlesc \<and> hd s = CTLESC then verbatim_loop L charlist noctlesc noescctlnul (drop 2 s)
      else if \<not> noescctlnul \<and> hd s = CTLESC \<and> byte_at s 1 = CTLNUL then verbatim_loop L charlist noctlesc noescctlnul (drop 2 s)
      else
        (case in_charlist L charlist s of
           None \<Rightarrow> None
         | Some True \<Rightarrow> Some s
         | Some False \<Rightarrow> verbatim_loop L charlist noctlesc noescctlnul (drop (char_len L s) s)))"
  by pat_completeness auto
termination
  by (relation "measure (\<lambda>(L, l, a, b, s). length s)") (auto simp: char_len_pos)

declare verbatim_loop.simps [simp del]

definition string_extract_verbatim :: "locale_ops \<Rightarrow> string \<Rightarrow> bool \<Rightarrow> bool \<Rightarrow> string \<Rightarrow> (string \<times> string) option" where
  "string_extract_verbatim L charlist noctlesc noescctlnul s =
     (if noctlesc \<and> charlist = [CHR 0x27] then
        (let (t, r) = string_extract_single_quoted L False s
         in Some (t, if length t = length s then drop (length s - 1) s else CHR 0x27 # r))
      else if charlist = [] then Some (s, [])
      else map_option (\<lambda>r. (up_to s r, r)) (verbatim_loop L charlist noctlesc noescctlnul s))"

section \<open>Splitting\<close>

definition W_QUOTED :: u32 where "W_QUOTED = 2"
definition W_ARRAYREF :: u32 where "W_ARRAYREF = 0x200"
definition W_HASQUOTEDNULL :: u32 where "W_HASQUOTEDNULL = 0x40000"
definition W_SAWQUOTEDNULL :: u32 where "W_SAWQUOTEDNULL = 0x200000"
definition Q_HERE_DOCUMENT :: u32 where "Q_HERE_DOCUMENT = 0x002"
definition Q_PATQUOTE :: u32 where "Q_PATQUOTE = 0x008"

record word_desc =
  wd_word :: string
  wd_flags :: u32

definition make_quoted_char :: "char \<Rightarrow> string" where
  "make_quoted_char c = (if c = CHR 0x00 then [CTLNUL] else [CTLESC, c])"

definition quoted_null_word :: word_desc where
  "quoted_null_word = \<lparr>wd_word = make_quoted_char (CHR 0x00), wd_flags = or W_QUOTED W_HASQUOTEDNULL\<rparr>"

text \<open>The word a field becomes, if any; \<open>r\<close> is what is left behind it.\<close>

definition field_words :: "split_env \<Rightarrow> string \<Rightarrow> u32 \<Rightarrow> string \<Rightarrow> string \<Rightarrow> word_desc list" where
  "field_words E separators quoted current_word r =
     (if QUOTED_NULL current_word then [quoted_null_word]
      else if current_word \<noteq> [] then
        (let w = remove_quoted_nulls (sp_locale E) current_word in
         [\<lparr>wd_word = w,
           wd_flags = or (if and quoted (or Q_DOUBLE_QUOTES Q_HERE_DOCUMENT) \<noteq> 0 then W_QUOTED else 0)
                         (if w = [] then W_SAWQUOTEDNULL else 0)\<rparr>])
      else if \<not> sh_style separators \<and> \<not> ifs_whitespace E (byte_at r 0) then [quoted_null_word]
      else [])"

text \<open>
  Past a separator with the white space around it. \<open>sep\<close> is \<open>issep\<close>, but for the last loop, which
  asks \<open>isifs\<close> in \<open>list_string\<close>.
\<close>

definition skip_delimiter ::
  "split_env \<Rightarrow> string \<Rightarrow> (char \<Rightarrow> bool) \<Rightarrow> (char \<Rightarrow> bool) \<Rightarrow> (char \<Rightarrow> bool) \<Rightarrow> string \<Rightarrow> string" where
  "skip_delimiter E separators white sep sep2 r =
     (let whitesep = (r \<noteq> [] \<and> ifs_whitesep E separators (hd r));
          r = (if r = [] then [] else drop (char_len (sp_locale E) r) r);
          r = dropWhile (\<lambda>c. white c \<and> sep c) r
      in if r \<noteq> [] \<and> whitesep \<and> sep (hd r) \<and> \<not> ifs_whitesep E separators (hd r)
         then dropWhile (\<lambda>c. ifs_whitesep E separators c \<and> sep2 c) (tl r)
         else r)"

lemma verbatim_loop_length: "verbatim_loop L l a b s = Some r \<Longrightarrow> length r \<le> length s"
proof (induction L l a b s rule: verbatim_loop.induct)
  case (1 L l a b s)
  have "length t \<le> length s" if "length t \<le> length (drop n s)" for t :: string and n using that by simp
  moreover note 1(1-3) 1(4) [unfolded verbatim_loop.simps [of L l a b s]]
  ultimately show ?case by (force split: if_splits option.splits bool.splits)
qed

lemma single_quoted_loop_length: "length (single_quoted_loop L a p s) \<le> length s"
proof (induction L a p s rule: single_quoted_loop.induct)
  case (1 L a p s)
  have "length t \<le> length s" if "length t \<le> length (drop n s)" for t :: string and n using that by simp
  with 1 show ?case by (subst single_quoted_loop.simps) force
qed

lemma string_extract_length: "string_extract_verbatim L l a b s = Some (w, r) \<Longrightarrow> length r \<le> length s"
  using single_quoted_loop_length [of L False False s]
  by (auto simp: string_extract_verbatim_def string_extract_single_quoted_def Let_def up_to_def
      dest: verbatim_loop_length split: if_splits)

lemma skip_delimiter_length: "length (skip_delimiter E separators white sep sep2 r) \<le> length r - 1"
proof -
  have d: "length (dropWhile P t) \<le> length t" for P and t :: string by (rule length_dropWhile_le)
  obtain u where u': "u = dropWhile (\<lambda>c. white c \<and> sep c) (if r = [] then [] else drop (char_len (sp_locale E) r) r)" by simp
  have u: "length u \<le> length r - 1"
    using d [of _ "drop (char_len (sp_locale E) r) r"] char_len_pos [of "sp_locale E" r]
    by (auto simp: u' intro: order_trans [OF d])
  have "length (dropWhile P (tl u)) \<le> length r - 1" for P using d [of P "tl u"] u by simp
  with u show ?thesis unfolding skip_delimiter_def Let_def u' [symmetric] by simp
qed

function list_string_loop :: "split_env \<Rightarrow> ifs_state \<Rightarrow> string \<Rightarrow> u32 \<Rightarrow> string \<Rightarrow> word_desc list option" where
  "list_string_loop E S separators quoted s =
     (if s = [] then Some []
      else
        (case string_extract_verbatim (sp_locale E) separators (CTLESC \<in> set (ifs_value S)) (CTLNUL \<in> set (ifs_value S)) s of
           None \<Rightarrow> None
         | Some (w, r) \<Rightarrow>
             map_option (append (field_words E separators quoted w r))
               (list_string_loop E S separators quoted
                 (skip_delimiter E separators (ifs_whitesep E separators) (issep S separators) (isifs S) r))))"
  by pat_completeness auto
termination
proof (relation "measure (\<lambda>(E, S, l, q, s). length s)", goal_cases)
  case (2 E S separators quoted s x w r)
  have "length r \<le> length s" using 2 string_extract_length by metis
  with 2 skip_delimiter_length [of E separators "ifs_whitesep E separators" "issep S separators" "isifs S" r] show ?case
    by (cases s) simp_all
qed simp

declare list_string_loop.simps [simp del]

definition list_string :: "split_env \<Rightarrow> ifs_state \<Rightarrow> string \<Rightarrow> string \<Rightarrow> u32 \<Rightarrow> word_desc list option" where
  "list_string E S string separators quoted =
     list_string_loop E S separators quoted
       (if quoted = 0 \<and> separators \<noteq> [] then dropWhile (\<lambda>c. issep S separators c \<and> ifs_whitespace E c) string else string)"

text \<open>
  The word for \<open>read\<close>, the place behind it if it is set, and the place of the next field. The
  separators are the value of \<open>IFS\<close>, in a map of its own.
\<close>

definition get_word_from_string ::
  "split_env \<Rightarrow> string \<Rightarrow> string \<Rightarrow> (string option \<times> string option \<times> string) option" where
  "get_word_from_string E separators string =
     (if string = [] then Some (None, None, [])
      else
        let islocalsep = (\<lambda>c. c \<in> set separators);
            s = dropWhile (\<lambda>c. (if sh_style separators then spctabnl c else ifs_whitespace E c) \<and> islocalsep c) string
        in if s = [] then Some (None, Some [], [])
           else
             map_option (\<lambda>(w, r). (Some w, Some r, skip_delimiter E separators spctabnl islocalsep islocalsep r))
               (string_extract_verbatim (sp_locale E) separators (CTLESC \<in> set separators) (CTLNUL \<in> set separators) s))"

text \<open>\<open>k\<close> is the place of the last character that is kept.\<close>

fun strip_loop :: "ifs_state \<Rightarrow> bool \<Rightarrow> string \<Rightarrow> nat \<Rightarrow> nat" where
  "strip_loop S saw_escape s 0 = 0"
| "strip_loop S saw_escape s (Suc k) =
     (let c = byte_at s (Suc k) in
      if spctabnl c \<and> isifs S c \<or> saw_escape \<and> c = CTLESC \<and> spctabnl (byte_at s (Suc (Suc k)))
      then strip_loop S saw_escape s k else Suc k)"

definition strip_trailing_ifs_whitespace :: "ifs_state \<Rightarrow> string \<Rightarrow> bool \<Rightarrow> string" where
  "strip_trailing_ifs_whitespace S string saw_escape =
     (if string = [] then [] else take (Suc (strip_loop S saw_escape string (length string - 1))) string)"

definition word_split :: "split_env \<Rightarrow> ifs_state \<Rightarrow> word_desc option \<Rightarrow> string option \<Rightarrow> word_desc list option" where
  "word_split E S w ifs_chars =
     (case w of
        None \<Rightarrow> Some []
      | Some w \<Rightarrow>
          let q = and (wd_flags w) W_QUOTED; xifs = (if q \<noteq> 0 \<or> ifs_chars = None then [] else the ifs_chars)
          in list_string E S (wd_word w) xifs q)"

text \<open>The words for one word of the list; \<open>final\<close> says that it is the last.\<close>

definition split_one :: "split_env \<Rightarrow> ifs_state \<Rightarrow> word_desc \<Rightarrow> bool \<Rightarrow> word_desc list option" where
  "split_one E S w final =
     map_option
       (\<lambda>tresult.
          let tresult = (if tresult = [] \<and> and (wd_flags w) W_SAWQUOTEDNULL \<noteq> 0 then [\<lparr>wd_word = [], wd_flags = 0\<rparr>] else tresult)
          in if length tresult = 1 \<and> final \<and> and (wd_flags w) W_ARRAYREF \<noteq> 0 \<and> wd_word w = wd_word (hd tresult)
             then [(hd tresult)\<lparr>wd_flags := or (wd_flags (hd tresult)) W_ARRAYREF\<rparr>] else tresult)
       (word_split E S (Some w) (Some (ifs_value S)))"

fun word_list_split :: "split_env \<Rightarrow> ifs_state \<Rightarrow> word_desc list \<Rightarrow> word_desc list option" where
  "word_list_split E S [] = Some []"
| "word_list_split E S (w # ws) =
     (case split_one E S w (ws = []) of
        None \<Rightarrow> None
      | Some tresult \<Rightarrow> map_option (append tresult) (word_list_split E S ws))"

section \<open>Joining the positional parameters\<close>

text \<open>
  The lists are the words of the parameters. What the functions change in the words of their
  argument is dropped: the callers pass a copy.
\<close>

definition c_string :: "string \<Rightarrow> string" where "c_string s = takeWhile (\<lambda>c. c \<noteq> CHR 0x00) s"

definition string_list :: "string list \<Rightarrow> string option" where "string_list ws = string_list_internal ws '' ''"

definition ifs_firstchar :: "ifs_state \<Rightarrow> string \<times> nat" where
  "ifs_firstchar S = (let ret = c_string (ifs_firstc S) in (ret, if length (ifs_firstc S) = 1 then length ret else length (ifs_firstc S)))"

definition string_list_dollar_star :: "ifs_state \<Rightarrow> string list \<Rightarrow> string option" where
  "string_list_dollar_star S ws = string_list_internal ws (c_string (ifs_firstc S))"

definition quote_list :: "locale_ops \<Rightarrow> string list \<Rightarrow> string list" where "quote_list L ws = map (quote_string L) ws"

definition list_quote_escapes :: "locale_ops \<Rightarrow> ifs_state \<Rightarrow> string list \<Rightarrow> string list" where
  "list_quote_escapes L S ws = map (quote_escapes L (Some (ifs_value S))) ws"

definition word_list_remove_quoted_nulls :: "locale_ops \<Rightarrow> string list \<Rightarrow> string list" where
  "word_list_remove_quoted_nulls L ws = map (remove_quoted_nulls L) ws"

definition string_list_dollar_at :: "locale_ops \<Rightarrow> ifs_state \<Rightarrow> string list \<Rightarrow> u32 \<Rightarrow> u32 \<Rightarrow> string option" where
  "string_list_dollar_at L S ws quoted flags =
     (let ifs = Option.bind (ifs_var S) id;
          sep = (if and flags PF_ASSIGNRHS \<noteq> 0 then '' ''
                 else if ifs \<noteq> None \<and> ifs \<noteq> Some [] then c_string (ifs_firstc S) else '' '');
          tlist = (if and quoted (or (or Q_HERE_DOCUMENT Q_DOUBLE_QUOTES) Q_PATQUOTE) \<noteq> 0 then quote_list L ws
                   else list_quote_escapes L S ws)
      in string_list_internal tlist sep)"

definition string_list_pos_params :: "locale_ops \<Rightarrow> ifs_state \<Rightarrow> char \<Rightarrow> string list \<Rightarrow> u32 \<Rightarrow> u32 \<Rightarrow> string option" where
  "string_list_pos_params L S pchar ws quoted pflags =
     (let star = (pchar = CHR ''*''); at = (pchar = CHR ''@''); dquote = (and quoted Q_DOUBLE_QUOTES \<noteq> 0);
          here = (and quoted Q_HERE_DOCUMENT \<noteq> 0); assign = (and pflags PF_ASSIGNRHS \<noteq> 0)
      in if star \<and> dquote then string_list_dollar_star S (word_list_remove_quoted_nulls L (quote_list L ws))
         else if star \<and> here then string_list (word_list_remove_quoted_nulls L (quote_list L ws))
         else if star \<and> quoted = 0 \<and> (ifs_is_null S \<or> assign) then
           (if expand_no_split_dollar_star S then string_list_dollar_star S ws else string_list_dollar_at L S ws quoted 0)
         else if star then string_list_dollar_star S ws
         else if at \<and> (here \<or> dquote) then string_list_dollar_at L S ws quoted 0
         else if at \<and> quoted = 0 \<and> ifs_is_null S then string_list_dollar_at L S ws quoted 0
         else if at \<and> quoted = 0 \<and> assign then string_list_dollar_at L S ws quoted pflags
         else if at then string_list_dollar_star S ws
         else string_list (if here \<or> dquote then quote_list L ws else ws))"

end
