(* ===== verification/Bash_SplitSem.thy ===== *)
theory Bash_SplitSem imports Bash_Split begin

text \<open>
  What word splitting means: strings as fields with delimiters between them, and the proof that
  splitting returns the fields.
\<close>

section \<open>Fields and delimiters\<close>

text \<open>
  A delimiter is separators that are white space, or one other separator with white space around
  it. A field is characters that are no separators, and any characters escaped by CTLESC.
\<close>

datatype delim = Blank string | Mark string char string

definition blank :: "split_env \<Rightarrow> string \<Rightarrow> char \<Rightarrow> bool" where
  "blank E seps c \<longleftrightarrow> c \<in> set seps \<and> sp_isspace E c"

definition mark :: "split_env \<Rightarrow> string \<Rightarrow> char \<Rightarrow> bool" where
  "mark E seps c \<longleftrightarrow> c \<in> set seps \<and> \<not> sp_isspace E c"

fun delim_text :: "delim \<Rightarrow> string" where
  "delim_text (Blank u) = u"
| "delim_text (Mark u c v) = u @ c # v"

fun wf_delim :: "split_env \<Rightarrow> string \<Rightarrow> delim \<Rightarrow> bool" where
  "wf_delim E seps (Blank u) \<longleftrightarrow> u \<noteq> [] \<and> list_all (blank E seps) u"
| "wf_delim E seps (Mark u c v) \<longleftrightarrow> list_all (blank E seps) u \<and> mark E seps c \<and> list_all (blank E seps) v"

fun wf_field :: "string \<Rightarrow> string \<Rightarrow> bool" where
  "wf_field seps [] = True"
| "wf_field seps (c # f) =
     (if c = CTLESC then (case f of [] \<Rightarrow> False | _ # f \<Rightarrow> wf_field seps f) else c \<notin> set seps \<and> wf_field seps f)"

text \<open>
  Fields with the delimiters behind them. An empty field stands before a mark only, and not behind
  white space alone, which would belong to the delimiter of the mark.
\<close>

fun wf_fields :: "split_env \<Rightarrow> string \<Rightarrow> bool \<Rightarrow> (string \<times> delim) list \<Rightarrow> bool" where
  "wf_fields E seps after_blank [] = True"
| "wf_fields E seps after_blank ((f, d) # fs) =
     (wf_field seps f \<and> wf_delim E seps d \<and>
      (f = [] \<longrightarrow> \<not> after_blank \<and> (case d of Blank _ \<Rightarrow> False | Mark u _ _ \<Rightarrow> u = [])) \<and>
      wf_fields E seps (case d of Blank _ \<Rightarrow> True | Mark _ _ _ \<Rightarrow> False) fs)"

definition fields_text :: "(string \<times> delim) list \<Rightarrow> string" where
  "fields_text fs = concat (map (\<lambda>(f, d). f @ delim_text d) fs)"

text \<open>The word of a field: an empty one is the quoted null string.\<close>

definition field_word :: "split_env \<Rightarrow> u32 \<Rightarrow> string \<Rightarrow> word_desc" where
  "field_word E quoted f = (if f = [] then quoted_null_word else hd (field_words E [] quoted f []))"

text \<open>
  What splitting relies on: characters of one byte, separators that agree with the value of \<open>IFS\<close>,
  without CTLESC and CTLNUL, and the three characters of \<open>spctabnl\<close> in the class of white space.
\<close>

definition splits_by :: "split_env \<Rightarrow> ifs_state \<Rightarrow> string \<Rightarrow> bool" where
  "splits_by E S seps \<longleftrightarrow>
     \<not> lc_multibyte (sp_locale E) \<and> \<not> lc_utf8 (sp_locale E) \<and>
     seps \<noteq> [] \<and> CTLESC \<notin> set seps \<and> CTLNUL \<notin> set seps \<and> CTLESC \<notin> set (ifs_value S) \<and> CTLNUL \<notin> set (ifs_value S) \<and>
     (\<forall>c. issep S seps c \<longleftrightarrow> c \<in> set seps) \<and> ((\<exists>c. mark E seps c) \<longrightarrow> (\<forall>c. isifs S c \<longleftrightarrow> c \<in> set seps)) \<and>
     (\<forall>c. spctabnl c \<longrightarrow> sp_isspace E c) \<and> \<not> sp_isspace E (CHR 0x00)"

section \<open>Splitting returns the fields\<close>

lemma single_byte:
  assumes "splits_by E S seps"
  shows "char_len (sp_locale E) s = 1" and "s \<noteq> [] \<Longrightarrow> in_charlist (sp_locale E) l s = Some (hd s \<in> set l)"
  using assms by (simp_all add: splits_by_def char_len_def in_charlist_def Let_def split: prod.splits)

lemma wf_field_induct [consumes 1, case_names Nil Escaped Plain]:
  assumes "wf_field seps f" "P []"
    "\<And>c f. wf_field seps f \<Longrightarrow> P f \<Longrightarrow> P (CTLESC # c # f)"
    "\<And>c f. c \<noteq> CTLESC \<Longrightarrow> c \<notin> set seps \<Longrightarrow> wf_field seps f \<Longrightarrow> P f \<Longrightarrow> P (c # f)"
  shows "P f"
  using assms(1)
proof (induction f rule: length_induct)
  case (1 f)
  show ?case
  proof (cases f)
    case Nil
    then show ?thesis using assms(2) by simp
  next
    case (Cons c t)
    show ?thesis
    proof (cases "c = CTLESC")
      case True
      then obtain d u where "t = d # u" "wf_field seps u" using 1 Cons by (auto split: list.splits)
      then show ?thesis using 1 assms(3) Cons True by simp
    next
      case False
      then show ?thesis using 1 assms(4) Cons by simp
    qed
  qed
qed

lemma verbatim_field:
  assumes "splits_by E S seps" "wf_field seps f" "r = [] \<or> hd r \<in> set seps"
  shows "verbatim_loop (sp_locale E) seps False False (f @ r) = Some r"
  using assms(2)
proof (induction rule: wf_field_induct)
  case Nil
  have "CTLESC \<notin> set seps" using assms(1) by (simp add: splits_by_def)
  then show ?case using assms(3) single_byte [OF assms(1)]
    by (subst verbatim_loop.simps) (auto dest: hd_in_set)
next
  case (Escaped c f)
  then show ?case by (subst verbatim_loop.simps) simp
next
  case (Plain c f)
  then show ?case using single_byte [OF assms(1)] by (subst verbatim_loop.simps) simp
qed

lemma extract_field:
  assumes "splits_by E S seps" "wf_field seps f" "r = [] \<or> hd r \<in> set seps"
  shows "string_extract_verbatim (sp_locale E) seps (CTLESC \<in> set (ifs_value S)) (CTLNUL \<in> set (ifs_value S)) (f @ r) = Some (f, r)"
  using verbatim_field [OF assms] assms(1) by (simp add: string_extract_verbatim_def splits_by_def up_to_def)

lemma separator_kind: "c \<in> set seps \<Longrightarrow> blank E seps c \<or> mark E seps c"
  by (simp add: blank_def mark_def)

lemma whitesep_value: "splits_by E S seps \<Longrightarrow> c \<in> set seps \<Longrightarrow> ifs_whitesep E seps c \<longleftrightarrow> sp_isspace E c"
proof -
  assume "splits_by E S seps" "c \<in> set seps"
  then have "spctabnl c \<Longrightarrow> sp_isspace E c" by (simp add: splits_by_def)
  then show ?thesis using \<open>c \<in> set seps\<close>
    by (auto simp: ifs_whitesep_def ifs_whitespace_def sh_style_def default_ifs_def spctabnl_def)
qed

lemma dropWhile_stops: "list_all P u \<Longrightarrow> (t \<noteq> [] \<Longrightarrow> \<not> P (hd t)) \<Longrightarrow> dropWhile P (u @ t) = t"
  by (induction u) (auto simp: dropWhile_eq_self_iff)

lemma skip_delim:
  assumes s: "splits_by E S seps" and d: "wf_delim E seps d"
    and t: "t \<noteq> [] \<Longrightarrow> \<not> blank E seps (hd t)" "\<And>u. t \<noteq> [] \<Longrightarrow> d = Blank u \<Longrightarrow> hd t \<notin> set seps"
    and w: "\<And>c. c \<in> set seps \<Longrightarrow> white c \<longleftrightarrow> sp_isspace E c"
    and i: "\<And>c. issep' c \<longleftrightarrow> c \<in> set seps" "\<And>m c. mark E seps m \<Longrightarrow> isifs' c \<longleftrightarrow> c \<in> set seps"
  shows "skip_delimiter E seps white issep' isifs' (delim_text d @ t) = t"
proof -
  note sb = single_byte(1) [OF s]
  have b: "(\<lambda>c. white c \<and> issep' c) = blank E seps" using w i(1) by (auto simp: fun_eq_iff blank_def)
  have key: "skip_delimiter E seps white issep' isifs' r =
      (let q = dropWhile (blank E seps) (drop 1 r) in
       if q \<noteq> [] \<and> r \<noteq> [] \<and> ifs_whitesep E seps (hd r) \<and> hd q \<in> set seps \<and> \<not> ifs_whitesep E seps (hd q)
       then dropWhile (\<lambda>c. ifs_whitesep E seps c \<and> isifs' c) (tl q) else q)" for r
    by (cases r) (simp_all add: skip_delimiter_def sb b Let_def i(1) [of "hd _"])
  show ?thesis
  proof (cases d)
    case (Blank u)
    then obtain c v where u: "u = c # v" "blank E seps c" "list_all (blank E seps) v" using d by (cases u) auto
    have "dropWhile (blank E seps) (v @ t) = t" using u t(1) by (intro dropWhile_stops) auto
    then show ?thesis using Blank u t(2) by (auto simp: key)
  next
    case (Mark u c v)
    then have m: "mark E seps c" "list_all (blank E seps) u" "list_all (blank E seps) v" using d by auto
    have b2: "(\<lambda>c. ifs_whitesep E seps c \<and> isifs' c) = blank E seps"
      using whitesep_value [OF s] i(2) m(1) by (auto simp: fun_eq_iff blank_def)
    have t1: "dropWhile (blank E seps) (v @ t) = t" using m t(1) by (intro dropWhile_stops) auto
    have nb: "\<not> blank E seps c" "c \<in> set seps" "\<not> ifs_whitesep E seps c"
      using m(1) whitesep_value [OF s, of c] by (auto simp: mark_def blank_def)
    show ?thesis
    proof (cases u)
      case Nil
      then show ?thesis using Mark nb t1 by (simp add: key)
    next
      case (Cons a w)
      then have a: "ifs_whitesep E seps a" "list_all (blank E seps) w"
        using m(2) whitesep_value [OF s, of a] by (auto simp: blank_def)
      have "dropWhile (blank E seps) (w @ c # v @ t) = c # v @ t" using a nb by (intro dropWhile_stops) auto
      then show ?thesis using Mark Cons a nb t1 by (simp add: key b2)
    qed
  qed
qed

lemma text_start:
  assumes "wf_fields E seps after fs" "wf_field seps z" "CTLESC \<notin> set seps" "fields_text fs @ z \<noteq> []"
  shows "\<not> blank E seps (hd (fields_text fs @ z))" and "after \<Longrightarrow> hd (fields_text fs @ z) \<notin> set seps"
proof -
  have f: "hd (f @ r) \<notin> set seps" if "wf_field seps f" "f \<noteq> []" for f r
    using that assms(3) by (cases f) (auto split: if_splits)
  have "hd (fields_text fs @ z) \<notin> set seps \<or> \<not> after \<and> mark E seps (hd (fields_text fs @ z))"
  proof (cases fs)
    case Nil
    then show ?thesis using f [of z "[]"] assms(2,4) by (simp add: fields_text_def)
  next
    case (Cons fd gs)
    obtain g d where fd: "fd = (g, d)" by fastforce
    then have t: "fields_text fs @ z = g @ delim_text d @ fields_text gs @ z" by (simp add: Cons fields_text_def)
    have w: "wf_field seps g" "g = [] \<longrightarrow> \<not> after \<and> (case d of Blank _ \<Rightarrow> False | Mark u _ _ \<Rightarrow> u = [])" "wf_delim E seps d"
      using assms(1) Cons fd by auto
    show ?thesis
    proof (cases "g = []")
      case True
      with w(2) obtain c v where "d = Mark [] c v" "\<not> after" by (cases d) auto
      with w(3) show ?thesis unfolding t True by simp
    next
      case False
      then show ?thesis unfolding t using f [OF w(1)] by blast
    qed
  qed
  then show "\<not> blank E seps (hd (fields_text fs @ z))" "after \<Longrightarrow> hd (fields_text fs @ z) \<notin> set seps"
    by (auto simp: blank_def mark_def)
qed


lemma next_separator:
  assumes "wf_delim E seps d"
  shows "delim_text d \<noteq> []" and "hd (delim_text d @ t) \<in> set seps"
  using assms by (cases d; auto simp: blank_def mark_def hd_append list_all_iff dest!: hd_in_set)+

lemma field_words_value:
  assumes "f = [] \<Longrightarrow> \<not> sh_style seps \<and> \<not> ifs_whitespace E (byte_at r 0)"
  shows "field_words E seps quoted f r = [field_word E quoted f]"
  using assms by (auto simp: field_words_def field_word_def Let_def QUOTED_NULL_def)

lemma mark_style: "splits_by E S seps \<Longrightarrow> mark E seps c \<Longrightarrow> \<not> sh_style seps"
proof
  assume "splits_by E S seps" "mark E seps c" "sh_style seps"
  then have "spctabnl c" "\<not> sp_isspace E c" by (auto simp: mark_def sh_style_def default_ifs_def spctabnl_def)
  then show False using \<open>splits_by E S seps\<close> by (simp add: splits_by_def)
qed

lemma list_string_loop_fields:
  assumes s: "splits_by E S seps"
  shows "wf_fields E seps after fs \<Longrightarrow> wf_field seps z \<Longrightarrow>
    list_string_loop E S seps quoted (fields_text fs @ z) =
      Some (map (\<lambda>(f, d). field_word E quoted f) fs @ (if z = [] then [] else [field_word E quoted z]))"
proof (induction fs arbitrary: after)
  case Nil
  have x: "string_extract_verbatim (sp_locale E) seps (CTLESC \<in> set (ifs_value S)) (CTLNUL \<in> set (ifs_value S)) z = Some (z, [])"
    using extract_field [OF s, of z "[]"] Nil by simp
  have "skip_delimiter E seps w a b [] = []" for w a b by (simp add: skip_delimiter_def)
  moreover have "z \<noteq> [] \<Longrightarrow> field_words E seps quoted z [] = [field_word E quoted z]" by (intro field_words_value) simp
  ultimately show ?case
    by (subst list_string_loop.simps) (simp add: fields_text_def x list_string_loop.simps [of _ _ _ _ "[]"])
next
  case (Cons fd fs)
  obtain f d where fd: "fd = (f, d)" by fastforce
  let ?t = "fields_text fs @ z"
  have w: "wf_field seps f" "wf_delim E seps d" "f = [] \<longrightarrow> \<not> after \<and> (case d of Blank _ \<Rightarrow> False | Mark u _ _ \<Rightarrow> u = [])"
      "wf_fields E seps (case d of Blank _ \<Rightarrow> True | Mark _ _ _ \<Rightarrow> False) fs"
    using Cons.prems fd by auto
  have whole: "fields_text (fd # fs) @ z = f @ delim_text d @ ?t" by (simp add: fields_text_def fd)
  have ne: "CTLESC \<notin> set seps" using s by (simp add: splits_by_def)
  have x: "string_extract_verbatim (sp_locale E) seps (CTLESC \<in> set (ifs_value S)) (CTLNUL \<in> set (ifs_value S)) (f @ delim_text d @ ?t) =
      Some (f, delim_text d @ ?t)"
    using extract_field [OF s w(1), of "delim_text d @ ?t"] next_separator [OF w(2)] by blast
  have k: "skip_delimiter E seps (ifs_whitesep E seps) (issep S seps) (isifs S) (delim_text d @ ?t) = ?t"
  proof (rule skip_delim [OF s w(2)])
    show "?t \<noteq> [] \<Longrightarrow> \<not> blank E seps (hd ?t)" using text_start(1) [OF w(4) Cons.prems(2) ne] by blast
    show "?t \<noteq> [] \<Longrightarrow> d = Blank u \<Longrightarrow> hd ?t \<notin> set seps" for u using text_start(2) [OF w(4) Cons.prems(2) ne] by simp
    show "c \<in> set seps \<Longrightarrow> ifs_whitesep E seps c = sp_isspace E c" for c by (rule whitesep_value [OF s])
    show "issep S seps c = (c \<in> set seps)" for c using s by (simp add: splits_by_def)
    show "mark E seps m \<Longrightarrow> isifs S c = (c \<in> set seps)" for m c using s unfolding splits_by_def by blast
  qed
  have fw: "field_words E seps quoted f (delim_text d @ ?t) = [field_word E quoted f]"
  proof (rule field_words_value)
    assume "f = []"
    then obtain c v where "d = Mark [] c v" "mark E seps c" using w(2,3) by (cases d) auto
    then show "\<not> sh_style seps \<and> \<not> ifs_whitespace E (byte_at (delim_text d @ ?t) 0)"
      using mark_style [OF s, of c] by (simp add: mark_def ifs_whitespace_def byte_at_def)
  qed
  have "f @ delim_text d @ ?t \<noteq> []" using next_separator(1) [OF w(2)] by simp
  then show ?case using Cons.IH [OF w(4) Cons.prems(2)]
    unfolding whole by (subst list_string_loop.simps) (simp add: x k fw fd)
qed

lemma list_string_fields:
  assumes s: "splits_by E S seps" and w: "wf_fields E seps False fs" "wf_field seps z"
    and l: "list_all (blank E seps) lead" "quoted \<noteq> 0 \<longrightarrow> lead = []"
  shows "list_string E S (lead @ fields_text fs @ z) seps quoted =
      Some (map (\<lambda>(f, d). field_word E quoted f) fs @ (if z = [] then [] else [field_word E quoted z]))"
proof -
  have sep: "seps \<noteq> []" "(\<lambda>c. issep S seps c \<and> ifs_whitespace E c) = blank E seps" "CTLESC \<notin> set seps"
    using s by (auto simp: splits_by_def fun_eq_iff blank_def ifs_whitespace_def)
  have "dropWhile (blank E seps) (lead @ fields_text fs @ z) = fields_text fs @ z"
    using l(1) text_start(1) [OF w sep(3)] by (intro dropWhile_stops) auto
  then show ?thesis using list_string_loop_fields [OF s w, of quoted] l(2) sep by (auto simp: list_string_def)
qed


section \<open>Every string has fields\<close>

fun paired :: "string \<Rightarrow> bool" where
  "paired [] = True"
| "paired (c # t) = (if c = CTLESC then (case t of [] \<Rightarrow> False | _ # t \<Rightarrow> paired t) else paired t)"

lemma first_field:
  assumes "paired s" "CTLESC \<notin> set seps"
  obtains f r where "s = f @ r" "wf_field seps f" "r = [] \<or> hd r \<in> set seps" "paired r"
  using assms(1)
proof (induction s arbitrary: thesis rule: length_induct)
  case (1 s)
  show ?case
  proof (cases s)
    case Nil
    then show ?thesis using 1(2) [of "[]" "[]"] by simp
  next
    case (Cons c t)
    show ?thesis
    proof (cases "c = CTLESC")
      case True
      then obtain d u where t: "t = d # u" "paired u" using 1(3) Cons by (auto split: list.splits)
      obtain f r where "u = f @ r" "wf_field seps f" "r = [] \<or> hd r \<in> set seps" "paired r"
        using 1(1) [rule_format, of u] t Cons by auto
      then show ?thesis using 1(2) [of "c # d # f" r] Cons t True by simp
    next
      case False
      show ?thesis
      proof (cases "c \<in> set seps")
        case True
        then show ?thesis using 1(2) [of "[]" s] 1(3) Cons by simp
      next
        case s: False
        obtain f r where "t = f @ r" "wf_field seps f" "r = [] \<or> hd r \<in> set seps" "paired r"
          using 1(1) [rule_format, of t] 1(3) False Cons by auto
        then show ?thesis using 1(2) [of "c # f" r] Cons False s by simp
      qed
    qed
  qed
qed

lemma paired_tl: "paired s \<Longrightarrow> CTLESC \<notin> set seps \<Longrightarrow> s \<noteq> [] \<Longrightarrow> hd s \<in> set seps \<Longrightarrow> paired (tl s)"
  by (cases s) (auto split: if_splits)

lemma paired_blanks:
  assumes "CTLESC \<notin> set seps"
  shows "paired s \<Longrightarrow> paired (dropWhile (blank E seps) s)"
proof (induction s)
  case (Cons c s)
  then show ?case using assms by (auto simp: blank_def split: if_splits)
qed simp

lemma blanks_front: "s = takeWhile (blank E seps) s @ dropWhile (blank E seps) s" "list_all (blank E seps) (takeWhile (blank E seps) s)"
  "dropWhile (blank E seps) s \<noteq> [] \<Longrightarrow> \<not> blank E seps (hd (dropWhile (blank E seps) s))"
  by (simp_all add: list_all_iff hd_dropWhile) (auto dest: set_takeWhileD)

lemma has_fields:
  assumes "CTLESC \<notin> set seps"
  shows "paired s \<Longrightarrow> (s \<noteq> [] \<longrightarrow> \<not> blank E seps (hd s) \<and> (after \<longrightarrow> hd s \<notin> set seps)) \<Longrightarrow>
    \<exists>fs z. s = fields_text fs @ z \<and> wf_fields E seps after fs \<and> wf_field seps z"
proof (induction "length s" arbitrary: s after rule: less_induct)
  case less
  obtain f r where f: "s = f @ r" "wf_field seps f" "r = [] \<or> hd r \<in> set seps" "paired r"
    using first_field [OF less.prems(1) assms] by blast
  show ?case
  proof (cases "r = []")
    case True
    then show ?thesis using f by (intro exI [of _ "[]"] exI [of _ f]) (simp add: fields_text_def)
  next
    case r: False
    define u q where "u = takeWhile (blank E seps) r" and "q = dropWhile (blank E seps) r"
    have uq: "r = u @ q" "list_all (blank E seps) u" "q \<noteq> [] \<longrightarrow> \<not> blank E seps (hd q)" "paired q"
      using blanks_front [where s = r and E = E and seps = seps] f(4) paired_blanks [OF assms] by (auto simp: u_def q_def)
    have hr: "hd r \<in> set seps" using f(3) r by simp
    show ?thesis
    proof (cases "q \<noteq> [] \<and> mark E seps (hd q)")
      case True
      define v t where "v = takeWhile (blank E seps) (tl q)" and "t = dropWhile (blank E seps) (tl q)"
      have pq: "paired (tl q)" using paired_tl [OF uq(4) assms] True by (simp add: mark_def)
      have vt: "tl q = v @ t" "list_all (blank E seps) v" "t \<noteq> [] \<longrightarrow> \<not> blank E seps (hd t)" "paired t"
        using blanks_front [where s = "tl q" and E = E and seps = seps] pq paired_blanks [OF assms] by (auto simp: v_def t_def)
      have st: "s = f @ u @ hd q # v @ t" using f(1) uq(1) vt(1) True by (metis hd_Cons_tl)
      then have "length t < length s" by simp
      then obtain fs z where fs: "t = fields_text fs @ z" "wf_fields E seps False fs" "wf_field seps z"
        using less.hyps [of t False] vt by auto
      have "f = [] \<Longrightarrow> \<not> after \<and> u = []"
        using less.prems(2) f(1) uq hr r by (cases u) auto
      then show ?thesis using f(2) uq(2) vt(2) True fs st
        by (intro exI [of _ "(f, Mark u (hd q) v) # fs"] exI [of _ z]) (simp add: fields_text_def)
    next
      case False
      have "u \<noteq> []"
      proof
        assume "u = []"
        then have "q = r" using uq(1) by simp
        then show False using False uq(3) hr r separator_kind by blast
      qed
      then have fne: "f \<noteq> []" using less.prems(2) f(1) uq by (cases u) auto
      have qs: "q \<noteq> [] \<longrightarrow> \<not> blank E seps (hd q) \<and> hd q \<notin> set seps" using False uq(3) separator_kind by blast
      have "length q < length s" using f(1) uq(1) fne by simp
      then obtain fs z where "q = fields_text fs @ z" "wf_fields E seps True fs" "wf_field seps z"
        using less.hyps [of q True] uq(4) qs by auto
      then show ?thesis using f(1,2) uq(1,2) \<open>u \<noteq> []\<close> fne
        by (intro exI [of _ "(f, Blank u) # fs"] exI [of _ z]) (simp add: fields_text_def)
    qed
  qed
qed

lemma string_has_fields:
  assumes "CTLESC \<notin> set seps" "paired s"
  shows "\<exists>lead fs z. s = lead @ fields_text fs @ z \<and> list_all (blank E seps) lead \<and> wf_fields E seps False fs \<and> wf_field seps z"
proof -
  have "\<exists>fs z. dropWhile (blank E seps) s = fields_text fs @ z \<and> wf_fields E seps False fs \<and> wf_field seps z"
    using has_fields [OF assms(1), of "dropWhile (blank E seps) s" E False] paired_blanks [OF assms] blanks_front(3) by blast
  then show ?thesis using blanks_front(1,2) [where s = s and E = E and seps = seps] by metis
qed


section \<open>The value of \<open>IFS\<close>\<close>

definition single_byte_env :: "split_env \<Rightarrow> bool" where
  "single_byte_env E \<longleftrightarrow>
     \<not> lc_multibyte (sp_locale E) \<and> \<not> lc_utf8 (sp_locale E) \<and> (\<forall>c. spctabnl c \<longrightarrow> sp_isspace E c) \<and> \<not> sp_isspace E (CHR 0x00)"

text \<open>What the callers split by: the value of \<open>IFS\<close>, or a space if it is null.\<close>

definition split_chars :: "ifs_state \<Rightarrow> string" where
  "split_chars S = (if ifs_value S = [] then '' '' else ifs_value S)"

lemma setifs_cmap: "S = setifs L v S' \<Longrightarrow> isifs S c \<longleftrightarrow> c \<in> set (ifs_value S)"
  by (simp add: setifs_def Let_def isifs_def)

lemma setifs_splits:
  assumes "single_byte_env E" "S = setifs (sp_locale E) v S'" "CTLESC \<notin> set (ifs_value S)" "CTLNUL \<notin> set (ifs_value S)"
  shows "splits_by E S (split_chars S)"
proof -
  have i: "issep S (split_chars S) c \<longleftrightarrow> c \<in> set (split_chars S)" for c
    using setifs_cmap [OF assms(2)] by (auto simp: issep_def split_chars_def split: list.splits)
  have m: "ifs_value S = [] \<Longrightarrow> \<not> mark E (split_chars S) c" for c
    using assms(1) by (auto simp: mark_def split_chars_def single_byte_env_def spctabnl_def)
  have "mark E (split_chars S) c \<Longrightarrow> isifs S d \<longleftrightarrow> d \<in> set (split_chars S)" for c d
    using m setifs_cmap [OF assms(2)] by (cases "ifs_value S = []") (auto simp: split_chars_def)
  moreover have "split_chars S \<noteq> []" "CTLESC \<notin> set (split_chars S)" "CTLNUL \<notin> set (split_chars S)"
    using assms(3,4) by (auto simp: split_chars_def CTLESC_def CTLNUL_def)
  ultimately show ?thesis using assms(1,3,4) i unfolding splits_by_def single_byte_env_def by blast
qed

section \<open>Quoted parameters\<close>

lemma join_words_fields:
  assumes "delim_text d = sep"
  shows "ws \<noteq> [] \<Longrightarrow> string_list_internal ws sep = Some (fields_text (map (\<lambda>w. (w, d)) (butlast ws)) @ last ws)"
proof -
  have "w @ join_words sep ws = fields_text (map (\<lambda>w. (w, d)) (butlast (w # ws))) @ last (w # ws)" for w ws
    using assms by (induction ws arbitrary: w) (simp_all add: fields_text_def)
  then show "ws \<noteq> [] \<Longrightarrow> ?thesis" by (cases ws) (simp_all add: string_list_internal_def)
qed

lemma quoted_loop:
  assumes "\<not> lc_multibyte L"
  shows "wf_field seps (quote_loop L (\<lambda>c. True) w)" "remove_nulls_loop L (quote_loop L (\<lambda>c. True) w) = quote_loop L (\<lambda>c. True) w"
    "w \<noteq> [] \<Longrightarrow> 2 \<le> length (quote_loop L (\<lambda>c. True) w) \<and> CTLESC \<in> set (quote_loop L (\<lambda>c. True) w)"
    "dequote_loop L (\<lambda>r. True) (quote_loop L (\<lambda>c. True) w) = w"
proof (induction w)
  case (Cons c w)
  have q: "quote_loop L (\<lambda>c. True) (c # w) = CTLESC # c # quote_loop L (\<lambda>c. True) w"
    using assms by (subst quote_loop.simps) (simp add: char_len_def)
  { case 1 show ?case using Cons q by simp }
  { case 2 show ?case unfolding q using Cons assms by (subst remove_nulls_loop.simps) (simp add: char_len_def) }
  { case 3 show ?case unfolding q by simp }
  { case 4 show ?case unfolding q using Cons assms by (subst dequote_loop.simps) (simp add: char_len_def) }
qed (simp_all add: quote_loop.simps remove_nulls_loop.simps dequote_loop.simps)

lemma quote_string_field:
  assumes "single_byte_env E" "CTLNUL \<notin> set seps"
  shows "wf_field seps (quote_string (sp_locale E) w)" "quote_string (sp_locale E) w \<noteq> []"
    "dequote_string (sp_locale E) (wd_word (field_word E quoted (quote_string (sp_locale E) w))) = w"
proof -
  have L: "\<not> lc_multibyte (sp_locale E)" using assms(1) by (simp add: single_byte_env_def)
  note q = quoted_loop [OF L]
  show "wf_field seps (quote_string (sp_locale E) w)"
    using q(1) assms(2) by (simp add: quote_string_def CTLESC_def CTLNUL_def)
  show n: "quote_string (sp_locale E) w \<noteq> []" using q(3) [of w] by (auto simp: quote_string_def)
  show "dequote_string (sp_locale E) (wd_word (field_word E quoted (quote_string (sp_locale E) w))) = w"
  proof (cases "w = []")
    case True
    then show ?thesis
      by (simp add: quote_string_def field_word_def field_words_def QUOTED_NULL_def quoted_null_word_def make_quoted_char_def dequote_string_def)
  next
    case False
    let ?q = "quote_loop (sp_locale E) (\<lambda>c. True) w"
    have 2: "2 \<le> length ?q" "CTLESC \<in> set ?q" using q(3) [OF False] by auto
    then have "\<not> QUOTED_NULL ?q" "?q \<noteq> [CTLESC]" "?q \<noteq> []" by (auto simp: QUOTED_NULL_def)
    moreover have "remove_quoted_nulls (sp_locale E) ?q = ?q" using q(2) by (simp add: remove_quoted_nulls_def)
    ultimately show ?thesis using 2 q(4) False
      by (simp add: quote_string_def field_word_def field_words_def Let_def dequote_string_def)
  qed
qed

lemma quoted_fields:
  assumes "single_byte_env E" "CTLNUL \<notin> set seps" "wf_delim E seps d"
  shows "wf_fields E seps after (map (\<lambda>w. (quote_string (sp_locale E) w, d)) ws)"
  by (induction ws arbitrary: after) (use quote_string_field [OF assms(1,2)] assms(3) in simp_all)

lemma dollar_at_words:
  assumes "single_byte_env E" "S = setifs (sp_locale E) v S'" "ws \<noteq> []"
    and "CTLESC \<notin> set (ifs_value S)" "CTLNUL \<notin> set (ifs_value S)" "CHR 0x00 \<notin> set (ifs_value S)"
  shows "\<exists>t ds. string_list_dollar_at (sp_locale E) S ws Q_DOUBLE_QUOTES 0 = Some t \<and>
    list_string E S t (split_chars S) 1 = Some ds \<and> map (\<lambda>d. dequote_string (sp_locale E) (wd_word d)) ds = ws"
proof -
  let ?q = "quote_string (sp_locale E)"
  note s = setifs_splits [OF assms(1,2,4,5)]
  define c where "c = (if Option.bind (ifs_var S) id = None then CHR '' '' else hd (split_chars S))"
  have ifs: "ifs_var S = v" "ifs_value S = (case v of Some (Some t) \<Rightarrow> t | _ \<Rightarrow> default_ifs)" "ifs_value S \<noteq> [] \<longrightarrow> ifs_firstc S = [hd (ifs_value S)]"
    using assms(1,2) by (auto simp: setifs_def Let_def single_byte_env_def byte_at_def hd_conv_nth)
  have c: "c \<in> set (split_chars S)"
    using ifs(1,2) by (auto simp: c_def split_chars_def default_ifs_def split: option.splits)
  define d where "d = (if sp_isspace E c then Blank [c] else Mark [] c [])"
  have d: "wf_delim E (split_chars S) d" "delim_text d = [c]" using c by (auto simp: d_def blank_def mark_def)
  have hd0: "ifs_value S \<noteq> [] \<Longrightarrow> hd (ifs_value S) \<noteq> CHR 0x00" using assms(6) hd_in_set by metis
  have "string_list_dollar_at (sp_locale E) S ws Q_DOUBLE_QUOTES 0 = string_list_internal (map ?q ws) [c]"
    using ifs hd0
    by (auto simp: string_list_dollar_at_def Let_def quote_list_def Q_DOUBLE_QUOTES_def Q_HERE_DOCUMENT_def Q_PATQUOTE_def c_def
        split_chars_def c_string_def PF_ASSIGNRHS_def split: option.splits)
  then have t: "string_list_dollar_at (sp_locale E) S ws Q_DOUBLE_QUOTES 0 =
      Some (fields_text (map (\<lambda>w. (?q w, d)) (butlast ws)) @ ?q (last ws))"
    using join_words_fields [OF d(2), of "map ?q ws"] assms(3) by (simp add: map_butlast [symmetric] last_map comp_def)
  have n: "CTLNUL \<notin> set (split_chars S)" using assms(5) by (simp add: split_chars_def CTLNUL_def)
  note q = quote_string_field [OF assms(1) n]
  have "list_string E S (fields_text (map (\<lambda>w. (?q w, d)) (butlast ws)) @ ?q (last ws)) (split_chars S) 1 =
      Some (map (\<lambda>w. field_word E 1 (?q w)) (butlast ws) @ [field_word E 1 (?q (last ws))])"
    using list_string_fields [OF s quoted_fields [OF assms(1) n d(1)] q(1), of "[]" 1 "butlast ws" "last ws"] q(2)
    by (simp add: comp_def)
  with t q(3) assms(3) show ?thesis by (simp add: comp_def)
qed

text \<open>The C locale and the shell without \<open>IFS\<close>.\<close>

definition C_split :: split_env where
  "C_split = \<lparr>sp_locale = utf8_locale\<lparr>lc_multibyte := False, lc_utf8 := False\<rparr>,
     sp_isspace = (\<lambda>c. c \<in> set [CHR '' '', CHR 0x09, CHR 0x0A, CHR 0x0B, CHR 0x0C, CHR 0x0D])\<rparr>"

definition initial_ifs :: ifs_state where
  "initial_ifs = \<lparr>ifs_var = None, ifs_value = default_ifs, ifs_is_set = False, ifs_is_null = False,
     ifs_cmap = (\<lambda>c. c \<in> set default_ifs), ifs_firstc = '' '', expand_no_split_dollar_star = False\<rparr>"

definition fresh_ifs :: "string \<Rightarrow> ifs_state" where
  "fresh_ifs v = setifs (sp_locale C_split) (Some (Some v)) initial_ifs"

lemma C_split_ok: "single_byte_env C_split"
  by (auto simp: single_byte_env_def C_split_def spctabnl_def utf8_locale_def)

lemma fresh_ifs_value [simp]: "ifs_value (fresh_ifs v) = v"
  by (simp add: fresh_ifs_def setifs_def Let_def)

section \<open>Properties\<close>

text \<open>
  C7. Property of \<open>list_string\<close>, called with the value of \<open>IFS\<close>, when that is neither empty nor holds CTLESC or
  CTLNUL, in a locale of single-byte characters, not UTF-8, whose white space contains space, tab and newline: the words
  of a string are its fields, the empty ones as quoted null strings, without those white space would
  make; and every string in which CTLESC escapes a character is made of fields and delimiters.
  White space here is every \<open>ISSPACE\<close> character in \<open>IFS\<close>, as in the code (\<open>ifs_whitespace\<close>, \<open>subst.c:3115\<close>): the
  manual (\<open>doc/bash.1\<close>, Word Splitting) and the comment above \<open>list_string\<close> grant it to space, tab and newline only,
  so for a vertical tab, form feed or carriage return in \<open>IFS\<close> the code joins delimiters the documents keep apart.
\<close>

theorem list_string_splits_fields:
  assumes "single_byte_env E" "S = setifs (sp_locale E) v S'"
    and "ifs_value S \<noteq> []" "CTLESC \<notin> set (ifs_value S)" "CTLNUL \<notin> set (ifs_value S)"
    and "list_all (blank E (ifs_value S)) lead" "wf_fields E (ifs_value S) False fs" "wf_field (ifs_value S) z"
  shows "list_string E S (lead @ fields_text fs @ z) (ifs_value S) 0 =
      Some (map (\<lambda>(f, d). field_word E 0 f) fs @ (if z = [] then [] else [field_word E 0 z])) \<and>
    (\<forall>s. paired s \<longrightarrow> (\<exists>lead fs z. s = lead @ fields_text fs @ z \<and> list_all (blank E (ifs_value S)) lead \<and>
      wf_fields E (ifs_value S) False fs \<and> wf_field (ifs_value S) z))"
proof -
  have "splits_by E S (ifs_value S)" using setifs_splits [OF assms(1,2,4,5)] assms(3) by (simp add: split_chars_def)
  from list_string_fields [OF this assms(7,8,6), of 0] string_has_fields [OF assms(4)] show ?thesis by simp
qed

theorem list_string_splits_fields_witness:
  "list_string C_split (fresh_ifs '' :'') '' a  : :b '' '' :'' 0 =
    Some [\<lparr>wd_word = ''a'', wd_flags = 0\<rparr>, quoted_null_word, \<lparr>wd_word = ''b'', wd_flags = 0\<rparr>]"
proof -
  let ?fs = "[(''a'', Mark ''  '' (CHR '':'') '' ''), ('''', Mark [] (CHR '':'') []), (''b'', Blank '' '')]"
  have w: "wf_fields C_split '' :'' False ?fs" "list_all (blank C_split '' :'') '' ''"
    by (simp_all add: blank_def mark_def C_split_def CTLESC_def)
  have t: "'' '' @ fields_text ?fs @ [] = '' a  : :b ''" by (simp add: fields_text_def)
  show ?thesis
    using list_string_splits_fields [OF C_split_ok fresh_ifs_def, of "'' :''" "'' ''" ?fs "[]", unfolded t] w
    by (simp add: CTLESC_def CTLNUL_def field_word_def field_words_def QUOTED_NULL_def remove_quoted_nulls_def)
qed

text \<open>
  C8. Property of \<open>string_list_dollar_at\<close> and \<open>list_string\<close>: the positional parameters of \<open>"$@"\<close>, quoted and joined
  with the first character of \<open>IFS\<close>, come back one word each from the splitting that follows, whatever
  characters they hold, the empty ones included. This holds for every value of \<open>IFS\<close>, the empty one too, that holds none of CTLESC,
  CTLNUL and NUL, when there is at least one parameter, in a locale of single-byte characters, not UTF-8, whose
  white space contains space, tab and newline.
\<close>

theorem quoted_at_keeps_parameters:
  assumes "single_byte_env E" "S = setifs (sp_locale E) v S'" "ws \<noteq> []"
    and "CTLESC \<notin> set (ifs_value S)" "CTLNUL \<notin> set (ifs_value S)" "CHR 0x00 \<notin> set (ifs_value S)"
  shows "\<exists>t ds. string_list_dollar_at (sp_locale E) S ws Q_DOUBLE_QUOTES 0 = Some t \<and>
    list_string E S t (split_chars S) 1 = Some ds \<and> map (\<lambda>d. dequote_string (sp_locale E) (wd_word d)) ds = ws"
  using assms by (rule dollar_at_words)

text \<open>Three parameters, the second one empty, with a colon for \<open>IFS\<close>.\<close>

theorem quoted_at_keeps_parameters_witness:
  "\<exists>t ds. string_list_dollar_at (sp_locale C_split) (fresh_ifs '':'') [''a b'', '''', ''x:y''] Q_DOUBLE_QUOTES 0 = Some t \<and>
    list_string C_split (fresh_ifs '':'') t '':'' 1 = Some ds \<and>
    map (\<lambda>d. dequote_string (sp_locale C_split) (wd_word d)) ds = [''a b'', '''', ''x:y'']"
  using quoted_at_keeps_parameters [OF C_split_ok fresh_ifs_def, of "[''a b'', '''', ''x:y'']" "'':''"]
  by (simp add: split_chars_def CTLESC_def CTLNUL_def)

text \<open>
  Property of \<open>get_word_from_string\<close>, which \<open>read\<close> calls: when the white space in \<open>IFS\<close> is space, tab and
  newline it takes the first field, sets the end behind it, and leaves the other fields.
\<close>

theorem get_word_takes_field:
  assumes "single_byte_env E" "S = setifs (sp_locale E) v S'"
    and "ifs_value S \<noteq> []" "CTLESC \<notin> set (ifs_value S)" "CTLNUL \<notin> set (ifs_value S)"
    and "\<forall>c \<in> set (ifs_value S). sp_isspace E c \<longrightarrow> spctabnl c"
    and "list_all (blank E (ifs_value S)) lead" "wf_fields E (ifs_value S) False ((f, d) # fs)" "wf_field (ifs_value S) z"
  shows "get_word_from_string E (ifs_value S) (lead @ fields_text ((f, d) # fs) @ z) =
    Some (Some f, Some (delim_text d @ fields_text fs @ z), fields_text fs @ z)"
proof -
  let ?I = "ifs_value S" and ?t = "fields_text fs @ z" and ?s = "fields_text ((f, d) # fs) @ z"
  have s: "splits_by E S ?I" using setifs_splits [OF assms(1,2,4,5)] assms(3) by (simp add: split_chars_def)
  have sp: "c \<in> set ?I \<Longrightarrow> spctabnl c \<longleftrightarrow> sp_isspace E c" for c using assms(1,6) by (auto simp: single_byte_env_def)
  have b: "(\<lambda>c. (if sh_style ?I then spctabnl c else ifs_whitespace E c) \<and> c \<in> set ?I) = blank E ?I"
    using sp by (auto simp: fun_eq_iff blank_def ifs_whitespace_def)
  have w: "wf_field ?I f" "wf_delim E ?I d" "wf_fields E ?I (case d of Blank _ \<Rightarrow> True | Mark _ _ _ \<Rightarrow> False) fs" using assms(8) by auto
  have st: "?s = f @ delim_text d @ ?t" by (simp add: fields_text_def)
  obtain X Y where X: "X = lead @ ?s" and Y: "Y = ?s" by simp
  have "Y \<noteq> []" using next_separator(1) [OF w(2)] unfolding Y st by simp
  moreover have "dropWhile (blank E ?I) X = Y" "X \<noteq> []"
    using assms(7) text_start(1) [OF assms(8,9,4)] \<open>Y \<noteq> []\<close> unfolding X Y by (auto intro!: dropWhile_stops)
  moreover have "string_extract_verbatim (sp_locale E) ?I (CTLESC \<in> set ?I) (CTLNUL \<in> set ?I) Y = Some (f, delim_text d @ ?t)"
    unfolding Y st using extract_field [OF s w(1), of "delim_text d @ ?t"] next_separator(2) [OF w(2)] assms(4,5) s
    by (auto simp: splits_by_def)
  moreover have "skip_delimiter E ?I spctabnl (\<lambda>c. c \<in> set ?I) (\<lambda>c. c \<in> set ?I) (delim_text d @ ?t) = ?t"
    by (rule skip_delim [OF s w(2)]) (use text_start [OF w(3) assms(9,4)] sp in auto)
  ultimately show ?thesis unfolding X [symmetric] get_word_from_string_def Let_def b by simp
qed

theorem get_word_takes_field_witness:
  "get_word_from_string C_split '' :'' '' a  : :b '' = Some (Some ''a'', Some ''  : :b '', '':b '')"
proof -
  let ?fs = "[('''', Mark [] (CHR '':'') []), (''b'', Blank '' '')]" and ?d = "Mark ''  '' (CHR '':'') '' ''"
  have w: "wf_fields C_split '' :'' False ((''a'', ?d) # ?fs)" "list_all (blank C_split '' :'') '' ''"
    by (simp_all add: blank_def mark_def C_split_def CTLESC_def)
  have t: "'' '' @ fields_text ((''a'', ?d) # ?fs) @ [] = '' a  : :b ''" by (simp add: fields_text_def)
  have c: "\<forall>c \<in> set '' :''. sp_isspace C_split c \<longrightarrow> spctabnl c" by (simp add: C_split_def spctabnl_def)
  show ?thesis
    using get_word_takes_field [OF C_split_ok fresh_ifs_def, of "'' :''" "'' ''" "''a''" ?d ?fs "[]", unfolded t] w c
    by (simp add: CTLESC_def CTLNUL_def fields_text_def)
qed

text \<open>
  C24. Property of \<open>get_word_from_string\<close> and \<open>list_string\<close>, in a locale of single-byte characters: with other white
  space in \<open>IFS\<close>, say a vertical tab, and a mark, \<open>read\<close> takes two of them before the mark for two delimiters, where
  splitting takes one: between them \<open>read\<close> finds an empty field.
\<close>

theorem read_splits_otherwise:
  assumes "single_byte_env E" "S = setifs (sp_locale E) (Some (Some [b, m])) S'"
    and "sp_isspace E b" "\<not> spctabnl b" "\<not> sp_isspace E m" "{b, m} \<inter> {CTLESC, CTLNUL} = {}"
    and "wf_field [b, m] f" "f \<noteq> []" "wf_field [b, m] g" "g \<noteq> []"
  shows "list_string E S (f @ [b, b, m] @ g) [b, m] 0 = Some [field_word E 0 f, field_word E 0 g] \<and>
    get_word_from_string E [b, m] (f @ [b, b, m] @ g) = Some (Some f, Some ([b, b, m] @ g), [b, m] @ g) \<and>
    get_word_from_string E [b, m] ([b, m] @ g) = Some (Some [], Some (m # g), g)"
proof -
  have v: "ifs_value S = [b, m]" using assms(2) by (simp add: setifs_def Let_def)
  have s: "splits_by E S [b, m]" using setifs_splits [OF assms(1,2)] assms(6) v by (simp add: split_chars_def)
  have c: "CTLESC \<notin> set [b, m]" "CTLNUL \<notin> set [b, m]" using assms(6) by auto
  have h: "hd f \<noteq> b \<and> hd f \<noteq> m" "hd g \<noteq> b \<and> hd g \<noteq> m"
    using assms(7-10) c by (cases f; cases g; auto split: if_splits)+
  have st: "\<not> sh_style [b, m]" by (simp add: sh_style_def default_ifs_def)
  note sb = single_byte(1) [OF s]
  have ls: "list_string E S (f @ [b, b, m] @ g) [b, m] 0 = Some [field_word E 0 f, field_word E 0 g]"
    using list_string_fields [OF s, of "[(f, Mark [b, b] m [])]" g "[]" 0] assms(3,5,7-10)
    by (simp add: blank_def mark_def fields_text_def)
  have x: "string_extract_verbatim (sp_locale E) [b, m] (CTLESC \<in> set [b, m]) (CTLNUL \<in> set [b, m]) (f @ [b, b, m] @ g) = Some (f, [b, b, m] @ g)"
    "string_extract_verbatim (sp_locale E) [b, m] (CTLESC \<in> set [b, m]) (CTLNUL \<in> set [b, m]) (m # g) = Some ([], m # g)"
    using extract_field [OF s assms(7), of "[b, b, m] @ g"] extract_field [OF s, of "[]" "m # g"] c v by simp_all
  have k: "skip_delimiter E [b, m] spctabnl (\<lambda>c. c \<in> set [b, m]) (\<lambda>c. c \<in> set [b, m]) ([b, b, m] @ g) = [b, m] @ g"
    using assms(3,4) st by (simp add: skip_delimiter_def Let_def sb ifs_whitesep_def ifs_whitespace_def)
  have k2: "skip_delimiter E [b, m] spctabnl (\<lambda>c. c \<in> set [b, m]) (\<lambda>c. c \<in> set [b, m]) (m # g) = g"
    using assms(5,10) h st by (cases g) (simp_all add: skip_delimiter_def Let_def sb ifs_whitesep_def ifs_whitespace_def)
  have "dropWhile (\<lambda>c. ifs_whitespace E c \<and> c \<in> set [b, m]) (f @ [b, b, m] @ g) = f @ [b, b, m] @ g"
    "dropWhile (\<lambda>c. ifs_whitespace E c \<and> c \<in> set [b, m]) ([b, m] @ g) = m # g"
    using h(1) assms(3,5,8) by (cases f; simp add: ifs_whitespace_def)+
  moreover have "ifs_whitespace E b" "\<not> ifs_whitespace E m" using assms(3,5) by (simp_all add: ifs_whitespace_def)
  ultimately show ?thesis using ls x k k2 st by (simp add: get_word_from_string_def Let_def)
qed

theorem read_splits_otherwise_witness:
  "list_string C_split (fresh_ifs [CHR 0x0B, CHR '':'']) [CHR ''x'', CHR 0x0B, CHR 0x0B, CHR '':'', CHR ''y''] [CHR 0x0B, CHR '':''] 0 =
      Some [\<lparr>wd_word = ''x'', wd_flags = 0\<rparr>, \<lparr>wd_word = ''y'', wd_flags = 0\<rparr>] \<and>
    get_word_from_string C_split [CHR 0x0B, CHR '':''] [CHR ''x'', CHR 0x0B, CHR 0x0B, CHR '':'', CHR ''y''] =
      Some (Some ''x'', Some [CHR 0x0B, CHR 0x0B, CHR '':'', CHR ''y''], [CHR 0x0B, CHR '':'', CHR ''y'']) \<and>
    get_word_from_string C_split [CHR 0x0B, CHR '':''] [CHR 0x0B, CHR '':'', CHR ''y''] = Some (Some [], Some '':y'', ''y'')"
proof -
  have f: "wf_field [CHR 0x0B, CHR '':''] ''x''" "wf_field [CHR 0x0B, CHR '':''] ''y''" by (simp_all add: CTLESC_def)
  show ?thesis
    using read_splits_otherwise [OF C_split_ok fresh_ifs_def _ _ _ _ f(1) _ f(2)]
    by (simp add: C_split_def spctabnl_def CTLESC_def CTLNUL_def field_word_def field_words_def QUOTED_NULL_def remove_quoted_nulls_def)
qed

end
