(* ===== verification/Bash_ArrayExp.thy ===== *)
theory Bash_ArrayExp imports Bash_Array Bash_PatSubstSem Bash_SplitSem begin

text \<open>
  The expansion of a whole array with a pattern, \<open>"${a[@]/p/r}"\<close>, over its parts: \<open>array_patsub\<close> of
  \<open>Bash_Array\<close> with \<open>pat_subst\<close> of \<open>Bash_Pattern\<close> and \<open>string_list_pos_params\<close> of \<open>Bash_Split\<close> in the place
  of its parameters, and the splitting of the result.
\<close>

definition patsub_of :: "pat_ops \<Rightarrow> string \<Rightarrow> string \<Rightarrow> string \<Rightarrow> u32 \<Rightarrow> string" where
  "patsub_of M w pat rep mflags = the (pat_subst_flags M (Some w) (Some pat) (Some rep) mflags)"

lemma quoted_join:
  assumes "ws \<noteq> []" "and mflags MATCH_QUOTED = MATCH_QUOTED" "and mflags MATCH_STARSUB = 0"
  shows "join_changed (string_list_pos_params L S) f mflags ws =
    string_list_dollar_at L S (map f ws) Q_DOUBLE_QUOTES 0"
proof -
  have "and mflags MATCH_STARSUB \<noteq> MATCH_STARSUB" using assms(3) by (simp add: MATCH_STARSUB_def)
  moreover have "string_list_dollar_at L S (map f ws) Q_DOUBLE_QUOTES p = string_list_dollar_at L S (map f ws) Q_DOUBLE_QUOTES 0"
    if "p = 0" for p using that by simp
  ultimately show ?thesis using assms(1,2)
    by (cases ws) (simp_all add: join_changed_def Let_def string_list_pos_params_def Q_DOUBLE_QUOTES_def Q_HERE_DOCUMENT_def)
qed

text \<open>Short enough for the \<open>int\<close>s of \<open>pat_subst\<close>: a value and its result.\<close>

definition short_for :: "pat_ops \<Rightarrow> glob_elem list \<Rightarrow> rep_elem list \<Rightarrow> u32 \<Rightarrow> string \<Rightarrow> bool" where
  "short_for M es rs mflags w \<longleftrightarrow> length w + 1 < INT_LIMIT \<and>
     length (replaced (po_env M) es rs (match_type_of mflags) (and mflags MATCH_GLOBREP \<noteq> 0) w) < INT_LIMIT"

lemma patsub_value:
  assumes "list_all wf_elem es" "es \<noteq> []" "plain_ops M" "\<not> escaped_star_last es (match_type_of mflags)"
    and "CHR 0x00 \<notin> set w" and "and mflags MATCH_EXPREP \<noteq> 0 \<longleftrightarrow> shouldexp_replacement M (rep_text rs)"
    and "short_for M es rs mflags w" "length (rep_text rs) < INT_LIMIT"
  shows "patsub_of M w (glob_text es) (rep_text rs) mflags =
    replaced (po_env M) es rs (match_type_of mflags) (and mflags MATCH_GLOBREP \<noteq> 0) w"
  using pat_subst_value [OF assms(1-5), of rs "Some (rep_text rs)"] assms(6-8)
  by (simp add: patsub_of_def pat_subst_flags_def rep_given_def short_for_def)

section \<open>Properties\<close>

text \<open>
  C10. Property of \<open>array_patsub\<close> with \<open>pat_subst\<close>, \<open>string_list_pos_params\<close> and \<open>list_string\<close>: a quoted
  expansion \<open>"${a[@]/p/r}"\<close> of a non-empty array gives one word for each element, in the order of the
  indices, which is the element with its matches replaced, for every \<open>IFS\<close> that holds none of CTLESC,
  CTLNUL and NUL. The flags are those of that expansion: \<open>MATCH_QUOTED\<close> without \<open>MATCH_STARSUB\<close>,
  \<open>MATCH_EXPREP\<close> as \<open>shouldexp_replacement\<close> says, anchoring and \<open>MATCH_GLOBREP\<close> free. As in the property
  of \<open>pat_subst\<close>, the locale is single-byte, \<open>extglob\<close> and \<open>nocasematch\<close> are off, the pattern is of the
  grammar of \<open>glob_elem\<close> and not one of \<open>escaped_star_last\<close>, for which the code misses matches, and values,
  replacement and results are below 2 ^ 31 - 1 bytes.
\<close>

theorem array_patsub_words:
  assumes "list_all wf_elem es" "es \<noteq> []" "plain_ops M" "\<not> escaped_star_last es (match_type_of mflags)"
    and "and mflags MATCH_EXPREP \<noteq> 0 \<longleftrightarrow> shouldexp_replacement M (rep_text rs)"
    and "and mflags MATCH_QUOTED = MATCH_QUOTED" "and mflags MATCH_STARSUB = 0"
    and "array_to_word_list a = Some ws" "ws \<noteq> []" "\<forall>w \<in> set ws. CHR 0x00 \<notin> set w"
    and "single_byte_env E" "S = setifs (sp_locale E) v S'"
    and "CTLESC \<notin> set (ifs_value S)" "CTLNUL \<notin> set (ifs_value S)" "CHR 0x00 \<notin> set (ifs_value S)"
    and "\<forall>w \<in> set ws. short_for M es rs mflags w" "length (rep_text rs) < INT_LIMIT"
  shows "\<exists>t ds. array_patsub (string_list_pos_params (sp_locale E) S) (patsub_of M) a (glob_text es) (rep_text rs) mflags = Some (Some t) \<and>
    list_string E S t (split_chars S) 1 = Some ds \<and>
    map (\<lambda>d. dequote_string (sp_locale E) (wd_word d)) ds =
      map (replaced (po_env M) es rs (match_type_of mflags) (and mflags MATCH_GLOBREP \<noteq> 0)) ws"
proof -
  let ?f = "\<lambda>w. patsub_of M w (glob_text es) (rep_text rs) mflags"
  have f: "map ?f ws = map (replaced (po_env M) es rs (match_type_of mflags) (and mflags MATCH_GLOBREP \<noteq> 0)) ws"
    using patsub_value [OF assms(1-4) _ assms(5) _ assms(17)] assms(10,16) by simp
  obtain t ds where t: "string_list_dollar_at (sp_locale E) S (map ?f ws) Q_DOUBLE_QUOTES 0 = Some t"
    "list_string E S t (split_chars S) 1 = Some ds" "map (\<lambda>d. dequote_string (sp_locale E) (wd_word d)) ds = map ?f ws"
    using dollar_at_words [OF assms(11,12) _ assms(13-15), of "map ?f ws"] assms(9) by auto
  have "\<not> (case a of None \<Rightarrow> True | Some ar \<Rightarrow> array_empty ar)"
    using assms(8,9) by (auto simp: array_to_word_list_def split: option.splits if_splits)
  then have "array_patsub (string_list_pos_params (sp_locale E) S) (patsub_of M) a (glob_text es) (rep_text rs) mflags = Some (Some t)"
    using quoted_join [OF assms(9,6,7), of "sp_locale E" S ?f] t(1) assms(8) by (simp add: array_patsub_def)
  with t(2,3) f show ?thesis by auto
qed

text \<open>\<open>"${a[@]//b/[&]}"\<close> of the elements \<open>ab b\<close> and the empty string.\<close>

theorem array_patsub_words_witness:
  "\<exists>t ds. array_patsub (string_list_pos_params (sp_locale C_split) (fresh_ifs '' ''))
      (patsub_of C_patterns) (array_from_word_list [''ab b'', '''']) ''b'' ''[&]'' 0x130 = Some (Some t) \<and>
    list_string C_split (fresh_ifs '' '') t '' '' 1 = Some ds \<and>
    map (\<lambda>d. dequote_string (sp_locale C_split) (wd_word d)) ds = [''a[b] [b]'', '''']"
proof -
  let ?es = "[Lit (CHR ''b'')]" and ?rs = "[Plain (CHR ''[''), Matched, Plain (CHR '']'')]"
  have t: "list_all wf_elem ?es" "glob_text ?es = ''b''" "rep_text ?rs = ''[&]''" "po_env C_patterns = C_locale"
    by (simp_all add: wf_elem_def elem_text_def lit_text_def quoted_def C_patterns_def)
  have m: "match_type_of 0x130 = MATCH_ANY" "and (0x130 :: u32) MATCH_GLOBREP \<noteq> 0" "and (0x130 :: u32) MATCH_EXPREP \<noteq> 0"
    "and (0x130 :: u32) MATCH_QUOTED = MATCH_QUOTED" "and (0x130 :: u32) MATCH_STARSUB = 0"
    by (simp_all add: match_type_of_def MATCH_TYPEMASK_def MATCH_GLOBREP_def MATCH_EXPREP_def MATCH_QUOTED_def MATCH_STARSUB_def Let_def)
  have e: "\<not> escaped_star_last ?es (match_type_of 0x130)" by (simp add: escaped_star_last_def)
  have x: "and (0x130 :: u32) MATCH_EXPREP \<noteq> 0 \<longleftrightarrow> shouldexp_replacement C_patterns (rep_text ?rs)"
    using m(3) by (simp add: shouldexp_Cons C_patterns_plain)
  have a: "array_to_word_list (array_from_word_list [''ab b'', '''']) = Some [''ab b'', '''']" by code_simp
  have r: "map (replaced C_locale ?es ?rs MATCH_ANY True) [''ab b'', ''''] = [''a[b] [b]'', '''']"
    by (simp add: replaced_def replace_matches.simps best_match_def spans_def piece_def numeral_nat)
  have c: "split_chars (fresh_ifs '' '') = '' ''" by (simp add: split_chars_def)
  have sh: "\<forall>w \<in> set [''ab b'', '''']. short_for C_patterns ?es ?rs 0x130 w" "length (rep_text ?rs) < INT_LIMIT"
    using r m(1,2) t(4) by (simp_all add: short_for_def INT_LIMIT_def)
  show ?thesis
    using array_patsub_words [OF t(1) _ C_patterns_plain e x m(4,5) a _ _ C_split_ok fresh_ifs_def _ _ _ sh, of "'' ''"] t(2-4) m r c
    by (simp add: CTLESC_def CTLNUL_def)
qed

end
