(* ===== verification/Bash_Ansic.thy ===== *)
theory Bash_Ansic imports Bash_Strbuf begin

text \<open>
  The rest of the quoting for re-reading: the backslash and double-quoted forms of \<open>lib/sh/shquote.c\<close>
  and the reading of escapes, \<open>ansicstr\<close> of \<open>lib/sh/strtrans.c\<close> with the conversion of \<open>lib/sh/unicode.c\<close>.
  The results are written into buffers of the sizes the code asks for, computed in the type it
  computes them in; \<open>None\<close> is a store behind the buffer or an allocation that must fail. The C library's conversions are the record \<open>ansi_ops\<close>.
\<close>

section \<open>Quoting with backslashes and double quotes\<close>

definition bstab :: string where
  "bstab = [CHR 0x09, CHR 0x0A] @ '' !'' @ [CHR 0x22] @ ''$&'' @ [CHR 0x27] @ ''()*,;<>?['' @ [CHR 0x5C] @ '']^`{|}''"

text \<open>Whether a character is copied as a whole, \<open>COPY_CHAR_P\<close>.\<close>

definition wide_start :: "locale_ops \<Rightarrow> char \<Rightarrow> bool" where
  "wide_start L c \<longleftrightarrow> lc_utf8 L \<and> high_bit c \<or> \<not> lc_utf8 L \<and> lc_multibyte L \<and> \<not> is_basic c"

definition sb_puts :: "string \<Rightarrow> strbuf \<Rightarrow> strbuf option" where "sb_puts s b = fold_option sb_putc s b"

text \<open>\<open>prev\<close> is the byte before, if there is one; \<open>table\<close> the characters to quote.\<close>

function backslash_loop :: "locale_ops \<Rightarrow> (char \<Rightarrow> bool) \<Rightarrow> string \<Rightarrow> u32 \<Rightarrow> char option \<Rightarrow> string \<Rightarrow> strbuf \<Rightarrow> strbuf option" where
  "backslash_loop L blank table flags prev s r =
     (if s = [] then Some r
      else
        let c = hd s in
        if \<not> high_bit c \<and> c \<in> set table then
          do { r \<leftarrow> sb_puts [CHR 0x5C, c] r; backslash_loop L blank table flags (Some c) (tl s) r }
        else if wide_start L c then
          do { r \<leftarrow> sb_puts (take (char_len L s) s) r;
               backslash_loop L blank table flags (Some (last (take (char_len L s) s))) (drop (char_len L s) s) r }
        else
          let quote = (c \<in> set table \<or> c = CHR ''#'' \<and> prev = None \<or>
                and flags 1 \<noteq> 0 \<and> c = CHR ''~'' \<and> (prev = None \<or> prev = Some (CHR '':'') \<or> prev = Some (CHR ''='')) \<or>
                and flags 2 \<noteq> 0 \<and> blank c)
          in do { r \<leftarrow> sb_puts ((if quote then [CHR 0x5C] else []) @ [c]) r; backslash_loop L blank table flags (Some c) (tl s) r })"
  by pat_completeness auto
termination
  by (relation "measure (\<lambda>(L, b, t, f, p, s, r). length s)") (auto simp: char_len_pos)

declare backslash_loop.simps [simp del]

definition sh_backslash_quote :: "locale_ops \<Rightarrow> (char \<Rightarrow> bool) \<Rightarrow> string \<Rightarrow> string option \<Rightarrow> u32 \<Rightarrow> string option" where
  "sh_backslash_quote L blank string table flags =
     Option.bind (backslash_loop L blank (case table of None \<Rightarrow> bstab | Some t \<Rightarrow> t) flags None string
       \<lparr>sb_text = [], sb_size = 2 * length string + 1\<rparr>) sb_end"

function for_double_quotes_loop :: "locale_ops \<Rightarrow> string \<Rightarrow> strbuf \<Rightarrow> strbuf option" where
  "for_double_quotes_loop L s r =
     (if s = [] then Some r
      else
        let c = hd s;
            pre = (if is_CBSDQUOTE c \<and> c \<noteq> CHR 0x0A then [CHR 0x5C] else if c = CTLESC \<or> c = CTLNUL then [CTLESC] else []);
            n = (if wide_start L c then char_len L s else 1)
        in do { r \<leftarrow> sb_puts (pre @ take n s) r; for_double_quotes_loop L (drop n s) r })"
  by pat_completeness auto
termination
  by (relation "measure (\<lambda>(L, s, r). length s)") (auto simp: char_len_pos Let_def)

declare for_double_quotes_loop.simps [simp del]

definition sh_backslash_quote_for_double_quotes :: "locale_ops \<Rightarrow> string \<Rightarrow> string option" where
  "sh_backslash_quote_for_double_quotes L string =
     Option.bind (for_double_quotes_loop L string \<lparr>sb_text = [], sb_size = 2 * length string + 1\<rparr>) sb_end"

function mkdoublequoted_loop :: "locale_ops \<Rightarrow> bool \<Rightarrow> string \<Rightarrow> strbuf \<Rightarrow> strbuf option" where
  "mkdoublequoted_loop L flags s r =
     (if s = [] then Some r
      else
        let pre = (if flags \<and> hd s = CHR 0x22 then [CHR 0x5C] else []);
            n = (if flags \<and> wide_start L (hd s) then char_len L s else 1)
        in do { r \<leftarrow> sb_puts (pre @ take n s) r; mkdoublequoted_loop L flags (drop n s) r })"
  by pat_completeness auto
termination
  by (relation "measure (\<lambda>(L, f, s, r). length s)") (auto simp: char_len_pos Let_def)

declare mkdoublequoted_loop.simps [simp del]

text \<open>The size \<open>rlen\<close> is an \<open>int\<close>, as \<open>temp\<close> is in \<open>ansicstr\<close>.\<close>

definition sh_mkdoublequoted :: "locale_ops \<Rightarrow> string \<Rightarrow> bool \<Rightarrow> string option" where
  "sh_mkdoublequoted L s flags =
     do {
       size \<leftarrow> xmalloc_int (as_int (if \<not> flags then length s + 3 else 2 * length s + 1));
       r \<leftarrow> sb_puts [CHR 0x22] \<lparr>sb_text = [], sb_size = size\<rparr>;
       r \<leftarrow> mkdoublequoted_loop L flags s r;
       r \<leftarrow> sb_puts [CHR 0x22] r;
       sb_end r
     }"

definition sh_quote_reusable :: "locale_ops \<Rightarrow> (char \<Rightarrow> bool) \<Rightarrow> string option \<Rightarrow> bool \<Rightarrow> string option option" where
  "sh_quote_reusable L blank s flags =
     (case s of
        None \<Rightarrow> Some None
      | Some s \<Rightarrow>
          if s = [] then Some (Some [CHR 0x27, CHR 0x27])
          else if ansic_shouldquote L s then ansic_quote L (Some s)
          else if flags then map_option Some (sh_backslash_quote L blank s None 1)
          else Some (Some (sh_single_quote s)))"

section \<open>Reading escapes\<close>

text \<open>
  \<open>an_wctomb\<close> is \<open>wctomb\<close>; \<open>an_iconv\<close> is the conversion from UTF-8 to the charset of the locale, \<open>None\<close>
  when there is none, and its result \<open>None\<close> when it fails.
\<close>

record ansi_ops =
  an_locale :: locale_ops
  an_toupper :: "char \<Rightarrow> char"
  an_wctomb :: "nat \<Rightarrow> string option"
  an_iconv :: "(string \<Rightarrow> string option) option"

definition byte :: "nat \<Rightarrow> char" where "byte n = char_of (n mod 256)"

definition u32toutf8 :: "nat \<Rightarrow> string" where
  "u32toutf8 wc =
     (let tail = (\<lambda>k. byte (128 + wc div 64 ^ k mod 64)) in
      if wc < 0x80 then [byte wc]
      else if wc < 0x800 then [byte (0xC0 + wc div 64), tail 0]
      else if wc < 0x10000 then [byte (0xE0 + wc div 64 ^ 2), tail 1, tail 0]
      else if wc < 0x200000 then [byte (0xF0 + wc div 64 ^ 3), tail 2, tail 1, tail 0]
      else if wc < 0x4000000 then [byte (0xF8 + wc div 64 ^ 4), tail 3, tail 2, tail 1, tail 0]
      else if wc < 0x80000000 then [byte (0xFC + wc div 64 ^ 5), tail 4, tail 3, tail 2, tail 1, tail 0]
      else [])"

definition hex_upper :: "nat \<Rightarrow> char" where "hex_upper d = byte (if d < 10 then 48 + d else 55 + d)"

fun fixed_hex :: "nat \<Rightarrow> nat \<Rightarrow> string" where
  "fixed_hex 0 v = []"
| "fixed_hex (Suc n) v = fixed_hex n (v div 16) @ [hex_upper (v mod 16)]"

definition u32tocesc :: "nat \<Rightarrow> string" where
  "u32tocesc wc = CHR 0x5C # (if wc < 0x10000 then CHR ''u'' # fixed_hex 4 wc else CHR ''U'' # fixed_hex 8 wc)"

definition u32cconv :: "ansi_ops \<Rightarrow> nat \<Rightarrow> string" where
  "u32cconv A c =
     (case (if c \<le> 0x7FFFFFFF then an_wctomb A c else None) of
        Some t \<Rightarrow> t
      | None \<Rightarrow>
          if lc_utf8 (an_locale A) then u32toutf8 c
          else
            (case an_iconv A of
               None \<Rightarrow> u32toutf8 c
             | Some conv \<Rightarrow> (case conv (u32toutf8 c) of None \<Rightarrow> u32tocesc c | Some t \<Rightarrow> t)))"

definition ISOCTAL :: "char \<Rightarrow> bool" where "ISOCTAL c \<longleftrightarrow> c \<in> set ''01234567''"
definition ISXDIGIT :: "char \<Rightarrow> bool" where "ISXDIGIT c \<longleftrightarrow> c \<in> set ''0123456789abcdefABCDEF''"

definition HEXVALUE :: "char \<Rightarrow> nat" where
  "HEXVALUE c =
     (if c \<in> set ''abcdef'' then of_char c - 87 else if c \<in> set ''ABCDEF'' then of_char c - 55 else of_char c - 48)"

text \<open>The value of at most so many digits, and what is left.\<close>

fun digits :: "(char \<Rightarrow> bool) \<Rightarrow> nat \<Rightarrow> nat \<Rightarrow> nat \<Rightarrow> string \<Rightarrow> nat \<times> string" where
  "digits is_digit base temp v [] = (v, [])"
| "digits is_digit base temp v (c # s) =
     (if is_digit c \<and> 0 < temp then digits is_digit base (temp - 1) (v * base + HEXVALUE c) s else (v, c # s))"

definition TOCTRL :: "ansi_ops \<Rightarrow> char \<Rightarrow> char" where
  "TOCTRL A x = (if x = CHR ''?'' then CHR 0x7F else byte (of_char (an_toupper A x) mod 32))"

text \<open>
  What an escape does: \<open>Out\<close> writes a backslash or nothing, then a character, \<open>Conv\<close> the text of a
  converted character, \<open>Stop\<close> ends the string; and what is left.
\<close>

datatype escape = Out bool char string | Conv string string | Stop

definition simple_escapes :: "(char \<times> char) list" where
  "simple_escapes =
     [(CHR ''a'', CHR 0x07), (CHR ''v'', CHR 0x0B), (CHR ''b'', CHR 0x08), (CHR ''e'', CHR 0x1B), (CHR ''E'', CHR 0x1B),
      (CHR ''f'', CHR 0x0C), (CHR ''n'', CHR 0x0A), (CHR ''r'', CHR 0x0D), (CHR ''t'', CHR 0x09)]"

definition hex_escape :: "u32 \<Rightarrow> string \<Rightarrow> escape" where
  "hex_escape flags s =
     (let brace = (and flags 2 \<noteq> 0 \<and> byte_at s 0 = CHR ''{''); s = (if brace then tl s else s);
          (v, r) = digits ISXDIGIT 16 2 0 s
      in if brace then
           (let (v, r) = digits ISXDIGIT 16 (length r) v r
            in Out False (byte v) (if byte_at r 0 = CHR ''}'' then tl r else r))
         else if r = s then Out True (CHR ''x'') r
         else Out False (byte v) r)"

definition unicode_escape :: "ansi_ops \<Rightarrow> char \<Rightarrow> string \<Rightarrow> escape" where
  "unicode_escape A c s =
     (let (v, r) = digits ISXDIGIT 16 (if c = CHR ''u'' then 4 else 8) 0 s
      in if r = s then Out True c r else if v \<le> 0x7F then Out False (byte v) r else Conv (u32cconv A v) r)"

definition ansi_escape :: "ansi_ops \<Rightarrow> u32 \<Rightarrow> bool \<Rightarrow> char \<Rightarrow> string \<Rightarrow> escape" where
  "ansi_escape A flags sawc c s =
     (let echo = (and flags 1 \<noteq> 0); other = Out (and flags 4 = 0) c s in
      case map_of simple_escapes c of
        Some d \<Rightarrow> Out False d s
      | None \<Rightarrow>
          if echo \<and> c \<in> set ''1234567'' then Out True c s
          else if c \<in> set ''01234567'' then
            (let (v, r) = digits ISOCTAL 8 (2 + (if echo \<and> c = CHR ''0'' then 1 else 0)) (HEXVALUE c) s in Out False (byte v) r)
          else if c = CHR ''x'' then hex_escape flags s
          else if c = CHR ''u'' \<or> c = CHR ''U'' then unicode_escape A c s
          else if c = CHR 0x5C then Out False c s
          else if c \<in> {CHR 0x27, CHR 0x22, CHR ''?''} then Out echo c s
          else if c = CHR ''c'' then
            (if sawc then Stop
             else if \<not> echo \<and> s \<noteq> [] then
               Out False (TOCTRL A (hd s))
                 (if and flags 2 \<noteq> 0 \<and> hd s = CHR 0x5C \<and> byte_at (tl s) 0 = CHR 0x5C then tl (tl s) else tl s)
             else other)
          else other)"

text \<open>How many bytes are copied of a character that is no escape.\<close>

definition plain_len :: "locale_ops \<Rightarrow> string \<Rightarrow> nat" where
  "plain_len L s =
     (if lc_utf8 L \<and> high_bit (hd s) \<or> \<not> lc_utf8 L \<and> \<not> is_basic (hd s)
      then (let n = fst (lc_mbrtowc L s) in if n < 0 then 1 else nat n) else 1)"

lemma digits_length: "length (snd (digits p b t v s)) \<le> length s"
  by (induction p b t v s rule: digits.induct) auto

lemma digits_rest: "digits p b t v s = (w, r) \<Longrightarrow> length r \<le> length s"
  using digits_length [of p b t v s] by simp

lemma escape_length:
  "ansi_escape A flags sawc c s = Out p d r \<Longrightarrow> length r \<le> length s"
  "ansi_escape A flags sawc c s = Conv t r \<Longrightarrow> length r < length s"
proof -
  have h: "hex_escape flags s = Out p d r \<Longrightarrow> length r \<le> length s"
    by (fastforce simp: hex_escape_def Let_def split: prod.splits if_splits dest: digits_rest)
  have u: "unicode_escape A c s = Out p d r \<Longrightarrow> length r \<le> length s"
    by (auto simp: unicode_escape_def split: prod.splits if_splits dest: digits_rest)
  show "ansi_escape A flags sawc c s = Out p d r \<Longrightarrow> length r \<le> length s"
    using h u by (auto simp: ansi_escape_def Let_def split: option.splits if_splits prod.splits dest: digits_rest)
next
  have "length w < length s" if "digits p b n v s = (x, w)" "w \<noteq> s" for p b n v x w
    using that
  proof (induction p b n v s rule: digits.induct)
    case (2 p b n v c s)
    then show ?case using digits_rest by (fastforce split: if_splits)
  qed simp
  then show "ansi_escape A flags sawc c s = Conv t r \<Longrightarrow> length r < length s"
    by (auto simp: ansi_escape_def hex_escape_def unicode_escape_def Let_def split: option.splits if_splits prod.splits)
qed

text \<open>The flag of the result says that \<open>\c\<close> was seen. A length of 0 would make the copying run away.\<close>

function ansicstr_loop :: "ansi_ops \<Rightarrow> u32 \<Rightarrow> bool \<Rightarrow> string \<Rightarrow> strbuf \<Rightarrow> (strbuf \<times> bool) option" where
  "ansicstr_loop A flags sawc s r =
     (if s = [] then Some (r, False)
      else if hd s \<noteq> CHR 0x5C \<or> tl s = [] then
        (let n = plain_len (an_locale A) s in
         if n = 0 then None
         else do { r \<leftarrow> sb_puts (take n s) r; ansicstr_loop A flags sawc (drop n s) r })
      else
        (case ansi_escape A flags sawc (hd (tl s)) (tl (tl s)) of
           Stop \<Rightarrow> Some (r, True)
         | Conv t s' \<Rightarrow> (case sb_strcpy t r of None \<Rightarrow> None | Some r \<Rightarrow> ansicstr_loop A flags sawc s' r)
         | Out bs d s' \<Rightarrow>
             (case sb_puts ((if bs then [CHR 0x5C] else []) @
                            (if and flags 2 \<noteq> 0 \<and> (d = CTLESC \<or> d = CTLNUL) then [CTLESC] else []) @ [d]) r of
                None \<Rightarrow> None | Some r \<Rightarrow> ansicstr_loop A flags sawc s' r)))"
  by pat_completeness auto
termination
proof (relation "measure (\<lambda>(A, f, w, s, r). length s)", goal_cases)
  case (3 A flags sawc s r)
  then show ?case
    using escape_length [where A = A and flags = flags and sawc = sawc and c = "hd (tl s)" and s = "tl (tl s)"]
    by (cases s) (auto dest!: less_imp_le intro: le_less_trans)
next
  case (4 A flags sawc s r)
  then show ?case
    using escape_length [where A = A and flags = flags and sawc = sawc and c = "hd (tl s)" and s = "tl (tl s)"]
    by (cases s) (auto dest!: less_imp_le intro: le_less_trans)
qed auto

declare ansicstr_loop.simps [simp del]

text \<open>\<open>sawc\<close> says whether the caller looks for \<open>\c\<close>. A size below 12, also one that has wrapped, becomes 12.\<close>

definition ansicstr_size :: "nat \<Rightarrow> int" where
  "ansicstr_size len = (let temp = as_int (4 * len + 4) in if temp < 12 then 12 else temp)"

definition ansicstr :: "ansi_ops \<Rightarrow> string \<Rightarrow> u32 \<Rightarrow> bool \<Rightarrow> (string \<times> bool) option option" where
  "ansicstr A string flags sawc =
     (if string = [] then Some None
      else
        do {
          size \<leftarrow> xmalloc_int (ansicstr_size (length string));
          (r, stopped) \<leftarrow> ansicstr_loop A flags sawc string \<lparr>sb_text = [], sb_size = size\<rparr>;
          t \<leftarrow> sb_end r;
          Some (Some (t, stopped))
        })"

definition ansiexpand :: "ansi_ops \<Rightarrow> string \<Rightarrow> nat \<Rightarrow> nat \<Rightarrow> string option" where
  "ansiexpand A string start finish =
     (let temp = take (finish - start) (drop start string)
      in if temp = [] then Some [] else Option.bind (ansicstr A temp 2 False) (map_option fst))"

end
