(* ===== verification/Bash_AnsicSem.thy ===== *)
theory Bash_AnsicSem imports Bash_Ansic begin

text \<open>
  What quoting for re-reading gives is read back, and the buffers are large enough, but for one.
\<close>

section \<open>Room in the buffers\<close>

lemma sb_puts_value: "length (sb_text b) + length s \<le> sb_size b \<Longrightarrow> sb_puts s b = Some (b\<lparr>sb_text := sb_text b @ s\<rparr>)"
  unfolding sb_puts_def by (induction s arbitrary: b) (simp_all add: sb_putc_def)

lemma sb_puts_fails: "sb_size b < length (sb_text b) + length s \<Longrightarrow> length (sb_text b) \<le> sb_size b \<Longrightarrow> sb_puts s b = None"
  unfolding sb_puts_def by (induction s arbitrary: b) (auto simp: sb_putc_def)


lemma sb_puts_eq:
  "length (sb_text b) \<le> sb_size b \<Longrightarrow>
    sb_puts s b = (if length (sb_text b) + length s \<le> sb_size b then Some (b\<lparr>sb_text := sb_text b @ s\<rparr>) else None)"
  using sb_puts_value sb_puts_fails by auto

section \<open>Double quotes\<close>

definition escaped_dquotes :: "string \<Rightarrow> string" where
  "escaped_dquotes s = concat (map (\<lambda>c. if c = CHR 0x22 then [CHR 0x5C, c] else [c]) s)"

lemma escaped_dquotes_length: "length (escaped_dquotes s) + length (filter (\<lambda>c. c \<noteq> CHR 0x22) s) = 2 * length s"
  by (induction s) (auto simp: escaped_dquotes_def)

lemma basic_no_high_bit: "is_basic c \<Longrightarrow> \<not> high_bit c"
proof
  assume b: "is_basic c" "high_bit c"
  have "4 \<le> (of_char c :: nat) div 32" using b(2) by (auto simp: high_bit_def)
  moreover have "(of_char c :: nat) div 32 < 8" using nat_of_char_less_256 [of c] by (intro less_mult_imp_div_less) simp
  ultimately have "(of_char c :: nat) div 32 \<in> {4, 5, 6, 7}" by auto
  then have "is_basic_table ! (of_char c div 32) = 0" by (auto simp: is_basic_table_def)
  with b(1) show False by (simp add: is_basic_def)
qed

lemma char_bytes_high:
  assumes "utf8_ok L" "high_bit (hd s)" "s \<noteq> []"
  shows "list_all high_bit (take (char_len L s) s)"
proof -
  obtain c t where s: "s = c # t" using assms(3) by (cases s) auto
  have "\<not> is_basic c" using basic_no_high_bit assms(2) s by auto
  then have "char_len L s = 1 \<or> lc_mbrlen L s = int (char_len L s)" using assms(2) s by (auto simp: char_len_def Let_def)
  moreover have "lc_mbrlen L s = int (char_len L s) \<Longrightarrow> list_all high_bit (tl (take (char_len L s) s))"
    using assms(1) unfolding utf8_ok_def by blast
  ultimately show ?thesis using assms(2) s char_len_pos [of L s] by (cases "char_len L s") auto
qed

lemma escaped_dquotes_append: "escaped_dquotes (s @ t) = escaped_dquotes s @ escaped_dquotes t"
  by (simp add: escaped_dquotes_def)

lemma escaped_dquotes_high: "list_all high_bit s \<Longrightarrow> escaped_dquotes s = s"
  by (induction s) (auto simp: escaped_dquotes_def high_bit_def)

text \<open>A single-byte locale, or a UTF-8 one.\<close>

definition plain_or_utf8 :: "locale_ops \<Rightarrow> bool" where
  "plain_or_utf8 L \<longleftrightarrow> \<not> lc_multibyte L \<and> \<not> lc_utf8 L \<or> utf8_ok L"

lemma wide_bytes:
  assumes "plain_or_utf8 L" "wide_start L (hd s)" "s \<noteq> []"
  shows "list_all high_bit (take (char_len L s) s)"
  using assms char_bytes_high [of L s] by (auto simp: plain_or_utf8_def wide_start_def utf8_ok_def)

lemma mkdoublequoted_loop_value:
  assumes "plain_or_utf8 L"
  shows "length (sb_text r) \<le> sb_size r \<Longrightarrow>
    mkdoublequoted_loop L flags s r =
      (let t = (if flags then escaped_dquotes s else s) in
       if length (sb_text r) + length t \<le> sb_size r then Some (r\<lparr>sb_text := sb_text r @ t\<rparr>) else None)"
proof (induction "length s" arbitrary: s r rule: less_induct)
  case less
  show ?case
  proof (cases s)
    case Nil
    then show ?thesis using less.prems by (simp add: mkdoublequoted_loop.simps escaped_dquotes_def)
  next
    case (Cons c u)
    show ?thesis
    proof (cases "flags \<and> wide_start L c")
      case True
      let ?n = "char_len L s"
      have n: "0 < ?n" by (rule char_len_pos)
      have h: "list_all high_bit (take ?n s)" by (rule wide_bytes [OF assms]) (use True Cons in simp_all)
      then have "hd s \<noteq> CHR 0x22" using n Cons by (cases ?n) (auto simp: high_bit_def)
      then have st: "mkdoublequoted_loop L flags s r = Option.bind (sb_puts (take ?n s) r) (mkdoublequoted_loop L flags (drop ?n s))"
        using True Cons by (subst mkdoublequoted_loop.simps) (simp add: Let_def)
      have e: "escaped_dquotes s = take ?n s @ escaped_dquotes (drop ?n s)"
        using escaped_dquotes_append [of "take ?n s" "drop ?n s"] escaped_dquotes_high [OF h] by simp
      have "length (drop ?n s) < length s" using n Cons by simp
      from less.hyps [OF this, of "r\<lparr>sb_text := sb_text r @ take ?n s\<rparr>"] show ?thesis
        unfolding st using less.prems True by (simp add: sb_puts_eq e)
    next
      case False
      have st: "mkdoublequoted_loop L flags s r =
          Option.bind (sb_puts ((if flags \<and> c = CHR 0x22 then [CHR 0x5C] else []) @ [c]) r) (mkdoublequoted_loop L flags u)"
        using False Cons by (subst mkdoublequoted_loop.simps) (auto simp: Let_def)
      show ?thesis unfolding st using less.hyps [of u] less.prems Cons
        by (auto simp: sb_puts_eq escaped_dquotes_def Let_def)
    qed
  qed
qed

section \<open>Escapes fit\<close>

lemma HEXVALUE_bound: "ISXDIGIT c \<Longrightarrow> HEXVALUE c \<le> 15"
  by (simp add: ISXDIGIT_def, elim disjE, simp_all add: HEXVALUE_def)

lemma digits_bound: "digits ISXDIGIT 16 n v s = (w, r) \<Longrightarrow> length r \<le> length s \<and> w < (v + 1) * 16 ^ (length s - length r)"
proof (induction ISXDIGIT "16::nat" n v s rule: digits.induct)
  case (2 n v c s)
  show ?case
  proof (cases "ISXDIGIT c \<and> 0 < n")
    case True
    then have "length r \<le> length s \<and> w < (v * 16 + HEXVALUE c + 1) * 16 ^ (length s - length r)" using 2 by simp
    moreover have "v * 16 + HEXVALUE c + 1 \<le> (v + 1) * 16" using HEXVALUE_bound [of c] True by simp
    moreover have "length r \<le> length s \<Longrightarrow> (v + 1) * 16 ^ (length (c # s) - length r) = (v + 1) * 16 * 16 ^ (length s - length r)"
      by (simp add: Suc_diff_le algebra_simps)
    ultimately show ?thesis by (metis (no_types, lifting) le_SucI length_Cons less_le_trans mult_le_mono1)
  qed (use 2 in auto)
qed simp

lemma conv_unicode: "ansi_escape A flags sawc c s = Conv t r \<Longrightarrow> unicode_escape A c s = Conv t r"
proof -
  have "hex_escape flags s \<noteq> Conv t r" by (simp add: hex_escape_def Let_def split: prod.split)
  then show "ansi_escape A flags sawc c s = Conv t r \<Longrightarrow> ?thesis"
    by (simp add: ansi_escape_def Let_def split: option.splits if_splits prod.splits)
qed

lemma conv_consumes:
  assumes "ansi_escape A flags sawc c s = Conv t r"
  shows "\<exists>v. t = u32cconv A v" and "length r + 2 \<le> length s"
proof -
  obtain v n where d: "digits ISXDIGIT 16 n 0 s = (v, r)" "0x7F < v" "t = u32cconv A v"
    using conv_unicode [OF assms] by (auto simp: unicode_escape_def split: if_splits prod.splits)
  then show "\<exists>v. t = u32cconv A v" by blast
  have "v < 16 ^ (length s - length r)" "length r \<le> length s" using digits_bound [OF d(1)] by auto
  moreover have "length s - length r \<le> 1 \<Longrightarrow> (16::nat) ^ (length s - length r) \<le> 16" by (cases "length s - length r") auto
  ultimately show "length r + 2 \<le> length s" using d(2) by (cases "length s - length r \<le> 1") auto
qed


lemma zero_suffix:
  "digits p b n v s = (w, r) \<Longrightarrow> CHR 0x00 \<notin> set s \<Longrightarrow> CHR 0x00 \<notin> set r"
  by (induction p b n v s rule: digits.induct) (auto split: if_splits)

lemma escape_zero:
  assumes "CHR 0x00 \<notin> set s"
  shows "ansi_escape A flags sawc c s = Out p d r \<Longrightarrow> CHR 0x00 \<notin> set r"
    and "ansi_escape A flags sawc c s = Conv t r \<Longrightarrow> CHR 0x00 \<notin> set r"
proof -
  have t: "CHR 0x00 \<notin> set (tl u)" if "CHR 0x00 \<notin> set u" for u using that by (cases u) auto
  have h: "hex_escape flags s = Out p d r \<Longrightarrow> CHR 0x00 \<notin> set r"
    using assms t by (fastforce simp: hex_escape_def Let_def split: prod.splits if_splits dest: zero_suffix)
  have u: "unicode_escape A c s = Out p d r \<Longrightarrow> CHR 0x00 \<notin> set r" "unicode_escape A c s = Conv t r \<Longrightarrow> CHR 0x00 \<notin> set r" for t
    using assms by (auto simp: unicode_escape_def split: prod.splits if_splits dest: zero_suffix)
  show "ansi_escape A flags sawc c s = Out p d r \<Longrightarrow> CHR 0x00 \<notin> set r"
    using h u assms t zero_suffix by (auto simp: ansi_escape_def Let_def split: option.splits if_splits prod.splits)
  show "ansi_escape A flags sawc c s = Conv t r \<Longrightarrow> CHR 0x00 \<notin> set r"
    using conv_unicode u by blast
qed

text \<open>The conversions give at most \<open>MB_LEN_MAX\<close> bytes, and no character but the zero byte has length 0.\<close>

definition conversions_fit :: "ansi_ops \<Rightarrow> bool" where
  "conversions_fit A \<longleftrightarrow>
     (\<forall>v t. an_wctomb A v = Some t \<longrightarrow> length t \<le> 16) \<and>
     (\<forall>conv u t. an_iconv A = Some conv \<longrightarrow> conv u = Some t \<longrightarrow> length t \<le> 16) \<and>
     (\<forall>t. t \<noteq> [] \<longrightarrow> hd t \<noteq> CHR 0x00 \<longrightarrow> fst (lc_mbrtowc (an_locale A) t) \<noteq> 0)"

lemma u32cconv_fits: "conversions_fit A \<Longrightarrow> length (u32cconv A v) \<le> 16"
proof -
  have "length (u32toutf8 v) \<le> 16" by (simp add: u32toutf8_def Let_def)
  moreover have "length (fixed_hex n w) = n" for n w by (induction n arbitrary: w) simp_all
  then have "length (u32tocesc v) \<le> 16" by (simp add: u32tocesc_def)
  ultimately show "conversions_fit A \<Longrightarrow> ?thesis"
    by (auto simp: u32cconv_def conversions_fit_def split: option.splits)
qed

lemma ansicstr_loop_fits:
  assumes "conversions_fit A"
  shows "CHR 0x00 \<notin> set s \<Longrightarrow> length (sb_text b) + 4 * length s < sb_size b \<Longrightarrow>
    \<exists>r stopped. ansicstr_loop A flags sawc s b = Some (r, stopped) \<and> length (sb_text r) < sb_size r"
proof (induction "length s" arbitrary: s b rule: less_induct)
  case less
  show ?case
  proof (cases s)
    case Nil
    then show ?thesis using less.prems by (subst ansicstr_loop.simps) auto
  next
    case (Cons c t)
    show ?thesis
    proof (cases "c \<noteq> CHR 0x5C \<or> t = []")
      case True
      let ?n = "plain_len (an_locale A) s"
      have "fst (lc_mbrtowc (an_locale A) s) \<noteq> 0" using assms less.prems(1) Cons unfolding conversions_fit_def by auto
      then have n: "0 < ?n" by (auto simp: plain_len_def Let_def)
      define b' where "b' = b\<lparr>sb_text := sb_text b @ take ?n s\<rparr>"
      have "sb_puts (take ?n s) b = Some b'" using less.prems(2) by (simp add: sb_puts_value b'_def)
      moreover have "length (drop ?n s) < length s" "CHR 0x00 \<notin> set (drop ?n s)" "length (sb_text b') + 4 * length (drop ?n s) < sb_size b'"
        using n less.prems Cons by (auto simp: b'_def dest: in_set_dropD)
      ultimately show ?thesis using less.hyps [of "drop ?n s" b'] True n Cons
        by (subst ansicstr_loop.simps) auto
    next
      case False
      then obtain d u where t: "t = d # u" by (cases t) auto
      have z: "CHR 0x00 \<notin> set u" using less.prems(1) Cons t by simp
      show ?thesis
      proof (cases "ansi_escape A flags sawc d u")
        case (Out bs e r)
        define w where "w = (if bs then [CHR 0x5C] else []) @ (if and flags 2 \<noteq> 0 \<and> (e = CTLESC \<or> e = CTLNUL) then [CTLESC] else []) @ [e]"
        have r: "length r \<le> length u" "CHR 0x00 \<notin> set r" using escape_length(1) [OF Out] escape_zero(1) [OF z Out] by auto
        have "length w \<le> 3" by (simp add: w_def)
        then have "sb_puts w b = Some (b\<lparr>sb_text := sb_text b @ w\<rparr>)"
          "length (sb_text (b\<lparr>sb_text := sb_text b @ w\<rparr>)) + 4 * length r < sb_size (b\<lparr>sb_text := sb_text b @ w\<rparr>)"
          using less.prems(2) Cons t r by (simp_all add: sb_puts_value)
        then show ?thesis using less.hyps [of r "b\<lparr>sb_text := sb_text b @ w\<rparr>"] r False Cons t Out
          by (subst ansicstr_loop.simps) (simp flip: w_def)
      next
        case (Conv e r)
        have r: "length r + 2 \<le> length u" "CHR 0x00 \<notin> set r" "length e \<le> 16"
          using conv_consumes [OF Conv] escape_zero(2) [OF z Conv] u32cconv_fits [OF assms] by auto
        then have "sb_strcpy e b = Some (b\<lparr>sb_text := sb_text b @ e\<rparr>)"
          "length (sb_text (b\<lparr>sb_text := sb_text b @ e\<rparr>)) + 4 * length r < sb_size (b\<lparr>sb_text := sb_text b @ e\<rparr>)"
          using less.prems(2) Cons t by (simp_all add: sb_strcpy_def)
        then show ?thesis using less.hyps [of r "b\<lparr>sb_text := sb_text b @ e\<rparr>"] r False Cons t Conv
          by (subst ansicstr_loop.simps) simp
      next
        case Stop
        then show ?thesis using less.prems(2) False Cons t by (subst ansicstr_loop.simps) auto
      qed
    qed
  qed
qed


section \<open>Escapes are read back\<close>

text \<open>
  What is relied on of \<open>mbrtowc\<close> and the classes: a character is recognised from its own bytes, has one
  byte in UTF-8 if the first has no high bit, and CTLESC and CTLNUL are in no printable character.
\<close>

definition ansi_ok :: "locale_ops \<Rightarrow> bool" where
  "ansi_ok L \<longleftrightarrow>
     (\<forall>s. s \<noteq> [] \<longrightarrow> CHR 0x00 \<notin> set s \<longrightarrow>
        (case lc_mbrtowc L s of (m, wc) \<Rightarrow>
           m = -1 \<or> m = -2 \<or>
           0 < m \<and> m \<le> int (length s) \<and> (\<forall>r. lc_mbrtowc L (take (nat m) s @ r) = (m, wc)) \<and>
           (lc_utf8 L \<longrightarrow> \<not> high_bit (hd s) \<longrightarrow> m = 1) \<and>
           (lc_iswprint L wc \<longrightarrow> CTLESC \<notin> set (take (nat m) s) \<and> CTLNUL \<notin> set (take (nat m) s)))) \<and>
     (\<forall>c. lc_isprint L c \<longrightarrow> c \<noteq> CTLESC \<and> c \<noteq> CTLNUL)"

definition marked :: "u32 \<Rightarrow> string \<Rightarrow> string" where
  "marked flags s = concat (map (\<lambda>c. if and flags 2 \<noteq> 0 \<and> (c = CTLESC \<or> c = CTLNUL) then [CTLESC, c] else [c]) s)"

lemma marked_simps [simp]:
  "marked flags [] = []" "marked flags (s @ t) = marked flags s @ marked flags t"
  "marked flags (c # s) = (if and flags 2 \<noteq> 0 \<and> (c = CTLESC \<or> c = CTLNUL) then [CTLESC, c] else [c]) @ marked flags s"
  by (simp_all add: marked_def)

lemma marked_plain: "CTLESC \<notin> set s \<Longrightarrow> CTLNUL \<notin> set s \<Longrightarrow> marked flags s = s"
  by (induction s) auto

lemma plain_back:
  assumes "ansi_ok L" "s \<noteq> []" "CHR 0x00 \<notin> set s" "ansic_plain L s = Some n"
  shows "0 < n" and "n \<le> length s" and "plain_len L (take n s @ r) = n" and "marked flags (take n s) = take n s"
proof -
  obtain m wc where m: "lc_mbrtowc L s = (m, wc)" by fastforce
  have ok: "m = -1 \<or> m = -2 \<or>
      0 < m \<and> m \<le> int (length s) \<and> (\<forall>r. lc_mbrtowc L (take (nat m) s @ r) = (m, wc)) \<and>
      (lc_utf8 L \<longrightarrow> \<not> high_bit (hd s) \<longrightarrow> m = 1) \<and>
      (lc_iswprint L wc \<longrightarrow> CTLESC \<notin> set (take (nat m) s) \<and> CTLNUL \<notin> set (take (nat m) s))"
    using assms(1-3) m unfolding ansi_ok_def by (auto split: prod.splits)
  obtain c t where s: "s = c # t" using assms(2) by (cases s) auto
  have "0 < n \<and> n \<le> length s \<and> plain_len L (take n s @ r) = n \<and> CTLESC \<notin> set (take n s) \<and> CTLNUL \<notin> set (take n s)"
  proof (cases "is_basic c")
    case True
    then have "n = 1" "lc_isprint L c" using assms(4) s by (auto simp: ansic_plain_def split: if_splits)
    moreover from this(2) have "c \<noteq> CTLESC" "c \<noteq> CTLNUL" using assms(1) by (auto simp: ansi_ok_def)
    ultimately show ?thesis using True basic_no_high_bit [OF True] s by (auto simp: plain_len_def)
  next
    case False
    then have n: "n = nat m" "lc_iswprint L wc" "m \<noteq> -1" "m \<noteq> -2" using assms(4) s m by (auto simp: ansic_plain_def split: if_splits)
    then have k: "0 < m" "n \<le> length s" "lc_mbrtowc L (take n s @ r) = (m, wc)" "lc_utf8 L \<longrightarrow> \<not> high_bit c \<longrightarrow> n = 1"
        "CTLESC \<notin> set (take n s)" "CTLNUL \<notin> set (take n s)"
      using ok s by auto
    have "hd (take n s @ r) = c" using k(1) n(1) s by (cases n) auto
    then show ?thesis using k n(1) False by (auto simp: plain_len_def Let_def)
  qed
  then show "0 < n" "n \<le> length s" "plain_len L (take n s @ r) = n" "marked flags (take n s) = take n s"
    using marked_plain by auto
qed

lemma octal_digit:
  assumes "k < 8"
  shows "ISOCTAL (char_of (48 + k))" "HEXVALUE (char_of (48 + k)) = k" "map_of simple_escapes (char_of (48 + k)) = None"
    "char_of (48 + k) \<in> set ''01234567''"
proof -
  have "list_all (\<lambda>k. ISOCTAL (char_of (48 + k)) \<and> HEXVALUE (char_of (48 + k)) = k \<and>
      map_of simple_escapes (char_of (48 + k)) = None \<and> char_of (48 + k) \<in> set ''01234567'') [0..<8]" by code_simp
  then show "ISOCTAL (char_of (48 + k))" "HEXVALUE (char_of (48 + k)) = k" "map_of simple_escapes (char_of (48 + k)) = None"
    "char_of (48 + k) \<in> set ''01234567''"
    using assms unfolding list_all_iff set_upt by auto
qed

lemma digits_none: "digits p b 0 v r = (v, r)"
  by (cases r) simp_all

lemma octal_value:
  assumes "n < 256"
  shows "byte ((n div 64 mod 8 * 8 + n div 8 mod 8) * 8 + n mod 8) = char_of n"
proof -
  have "n div 64 mod 8 = n div 64" using assms by (intro mod_less) (simp add: less_mult_imp_div_less)
  also have "n div 64 = n div 8 div 8" by (simp add: div_mult2_eq [symmetric])
  finally have "n div 64 mod 8 * 8 + n div 8 mod 8 = n div 8" by (metis div_mult_mod_eq)
  then have "(n div 64 mod 8 * 8 + n div 8 mod 8) * 8 + n mod 8 = n" by (metis div_mult_mod_eq)
  then show ?thesis using assms by (simp add: byte_def)
qed

lemma octal_parts:
  obtains x y z where "octal_escape c = [CHR 0x5C, x, y, z]" "map_of simple_escapes x = None" "x \<in> set ''01234567''"
    "ISOCTAL y" "ISOCTAL z" "byte ((HEXVALUE x * 8 + HEXVALUE y) * 8 + HEXVALUE z) = c"
proof -
  let ?n = "of_char c :: nat"
  have k: "?n div 64 mod 8 < 8" "?n div 8 mod 8 < 8" "?n mod 8 < 8" by simp_all
  show thesis
  proof (rule that [of "char_of (48 + ?n div 64 mod 8)" "char_of (48 + ?n div 8 mod 8)" "char_of (48 + ?n mod 8)"])
    show "octal_escape c = [CHR 0x5C, char_of (48 + ?n div 64 mod 8), char_of (48 + ?n div 8 mod 8), char_of (48 + ?n mod 8)]"
      by (simp add: octal_escape_def Let_def)
    show "byte ((HEXVALUE (char_of (48 + ?n div 64 mod 8)) * 8 + HEXVALUE (char_of (48 + ?n div 8 mod 8))) * 8 + HEXVALUE (char_of (48 + ?n mod 8))) = c"
      unfolding octal_digit(2) [OF k(1)] octal_digit(2) [OF k(2)] octal_digit(2) [OF k(3)]
      using octal_value [OF nat_of_char_less_256, of c] by simp
  qed (rule octal_digit k)+
qed

lemma two_digits: "ISOCTAL y \<Longrightarrow> ISOCTAL z \<Longrightarrow> digits ISOCTAL 8 2 v (y # z # r) = ((v * 8 + HEXVALUE y) * 8 + HEXVALUE z, r)"
  by (simp add: digits_none)

lemma octal_back:
  assumes "and flags 1 = 0" "octal_escape c = [CHR 0x5C, x, y, z]"
  shows "ansi_escape A flags sawc x (y # z # r) = Out False c r"
proof -
  obtain x' y' z' where p: "octal_escape c = [CHR 0x5C, x', y', z']" "map_of simple_escapes x' = None" "x' \<in> set ''01234567''"
    "ISOCTAL y'" "ISOCTAL z'" "byte ((HEXVALUE x' * 8 + HEXVALUE y') * 8 + HEXVALUE z') = c"
    by (rule octal_parts)
  then show ?thesis using assms two_digits [OF p(4,5), of "HEXVALUE x'" r]
    by (simp add: ansi_escape_def Let_def del: digits.simps list.set set_simps)
qed


lemma simple_back:
  assumes "map_of ansic_escapes c = Some e" "and flags 1 = 0"
  shows "ansi_escape A flags sawc e r = Out False c r" and "c \<noteq> CTLESC" and "c \<noteq> CTLNUL"
proof -
  have "(c, e) \<in> set ansic_escapes" using assms(1) by (rule map_of_SomeD)
  then show "ansi_escape A flags sawc e r = Out False c r" "c \<noteq> CTLESC" "c \<noteq> CTLNUL"
    unfolding ansic_escapes_def using assms(2)
    by (simp_all, (elim disjE conjE; simp add: ansi_escape_def simple_escapes_def Let_def CTLESC_def CTLNUL_def)+)
qed

lemma ansicstr_loop_back:
  assumes "ansi_ok (an_locale A)" "and flags 1 = 0"
  shows "CHR 0x00 \<notin> set s \<Longrightarrow> length (sb_text b) + 4 * length s \<le> sb_size b \<Longrightarrow>
    ansicstr_loop A flags sawc (ansic_loop (an_locale A) s) b = Some (b\<lparr>sb_text := sb_text b @ marked flags s\<rparr>, False)"
proof (induction "length s" arbitrary: s b rule: less_induct)
  case less
  let ?L = "an_locale A"
  show ?case
  proof (cases s)
    case Nil
    then show ?thesis by (simp add: ansic_loop.simps [of ?L "[]"] ansicstr_loop.simps [of _ _ _ "[]"])
  next
    case (Cons c t)
    have one: "ansicstr_loop A flags sawc (ansic_loop ?L t) (b\<lparr>sb_text := sb_text b @ marked flags [c]\<rparr>) =
        Some (b\<lparr>sb_text := sb_text b @ marked flags s\<rparr>, False)"
      "sb_puts (marked flags [c]) b = Some (b\<lparr>sb_text := sb_text b @ marked flags [c]\<rparr>)"
      using less.hyps [of t "b\<lparr>sb_text := sb_text b @ marked flags [c]\<rparr>"] less.prems Cons by (auto simp: sb_puts_value)
    show ?thesis
    proof (cases "map_of ansic_escapes c")
      case (Some e)
      then have "ansic_loop ?L s = CHR 0x5C # e # ansic_loop ?L t" using Cons by (subst ansic_loop.simps) simp
      then show ?thesis using one simple_back(1) [OF Some assms(2)] simple_back(2,3) [OF Some assms(2)]
        by (subst ansicstr_loop.simps) simp
    next
      case None
      then have c: "c \<noteq> CHR 0x5C" by (auto simp: ansic_escapes_def)
      show ?thesis
      proof (cases "ansic_plain ?L s")
        case p: None
        obtain x y z where o: "octal_escape c = [CHR 0x5C, x, y, z]" by (rule octal_parts)
        have "ansic_loop ?L s = octal_escape c @ ansic_loop ?L t" using None p Cons by (subst ansic_loop.simps) simp
        then show ?thesis using one octal_back [OF assms(2) o, of A sawc "ansic_loop ?L t"] o
          by (subst ansicstr_loop.simps) (auto split: if_splits)
      next
        case (Some n)
        have ne: "s \<noteq> []" using Cons by simp
        note p = plain_back [OF assms(1) ne less.prems(1) Some]
        have l: "ansic_loop ?L s = take n s @ ansic_loop ?L (drop n s)" using None Some Cons p(1) by (subst ansic_loop.simps) simp
        have h: "hd (take n s @ ansic_loop ?L (drop n s)) = c" "take n s @ ansic_loop ?L (drop n s) \<noteq> []" using p(1) Cons by (cases n; simp)+
        have "length (drop n s) < length s" "CHR 0x00 \<notin> set (drop n s)" using p(1) less.prems(1) Cons by (auto dest: in_set_dropD)
        moreover have "sb_puts (take n s) b = Some (b\<lparr>sb_text := sb_text b @ take n s\<rparr>)"
          "length (sb_text (b\<lparr>sb_text := sb_text b @ take n s\<rparr>)) + 4 * length (drop n s) \<le> sb_size (b\<lparr>sb_text := sb_text b @ take n s\<rparr>)"
          using less.prems(2) p(2) by (simp_all add: sb_puts_value)
        moreover have "marked flags s = take n s @ marked flags (drop n s)"
          using marked_simps(2) [of flags "take n s" "drop n s"] p(4) by simp
        ultimately show ?thesis using less.hyps [of "drop n s" "b\<lparr>sb_text := sb_text b @ take n s\<rparr>"] p(1,2,3) h c
          unfolding l by (subst ansicstr_loop.simps) (auto simp: Let_def)
      qed
    qed
  qed
qed


lemma ansic_loop_longer:
  assumes "ansi_ok L"
  shows "CHR 0x00 \<notin> set s \<Longrightarrow> length s \<le> length (ansic_loop L s)"
proof (induction "length s" arbitrary: s rule: less_induct)
  case less
  show ?case
  proof (cases s)
    case (Cons c t)
    have t: "length t \<le> length (ansic_loop L t)" using less.hyps [of t] less.prems Cons by simp
    show ?thesis
    proof (cases "map_of ansic_escapes c = None \<and> ansic_plain L s \<noteq> None")
      case False
      then show ?thesis using t Cons by (subst ansic_loop.simps) (auto simp: octal_escape_def Let_def split: option.splits)
    next
      case True
      then obtain n where n: "ansic_plain L s = Some n" by auto
      have ne: "s \<noteq> []" using Cons by simp
      note p = plain_back [OF assms ne less.prems n]
      have "ansic_loop L s = take n s @ ansic_loop L (drop n s)" using True n p(1) Cons by (subst ansic_loop.simps) simp
      moreover have "CHR 0x00 \<notin> set (drop n s)" using less.prems in_set_dropD by fast
      then have "length (drop n s) \<le> length (ansic_loop L (drop n s))" using less.hyps [of "drop n s"] p(1) Cons by simp
      ultimately show ?thesis using p(2) by simp
    qed
  qed simp
qed

lemma ansicstr_size_small: "4 * n + 4 < 2 ^ 31 \<Longrightarrow> xmalloc_int (ansicstr_size n) = Some (max 12 (4 * n + 4))"
  by (auto simp: ansicstr_size_def xmalloc_int_def as_int_small Let_def)

lemma ansicstr_back:
  assumes "ansi_ok (an_locale A)" "and flags 1 = 0" "CHR 0x00 \<notin> set s" "s \<noteq> []" "length s < 2 ^ 27 - 1"
  shows "ansicstr A (ansic_loop (an_locale A) s) flags sawc = Some (Some (marked flags s, False))"
proof -
  let ?b = "\<lparr>sb_text = [], sb_size = max 12 (4 * length (ansic_loop (an_locale A) s) + 4)\<rparr>"
  have l: "length s \<le> length (ansic_loop (an_locale A) s)" using ansic_loop_longer assms(1,3) by blast
  then have "ansic_loop (an_locale A) s \<noteq> []" using assms(4) by auto
  moreover have "length (marked flags t) \<le> 2 * length t" for t by (induction t) auto
  then have "length (marked flags s) \<le> 2 * length s" .
  moreover have "4 * length (ansic_loop (an_locale A) s) + 4 < 2 ^ 31"
    using length_ansic_loop [of "an_locale A" s] assms(5) by simp
  ultimately show ?thesis using ansicstr_loop_back [OF assms(1-3), of ?b sawc] l
    by (simp add: ansicstr_def ansicstr_size_small sb_end_def)
qed

section \<open>Backslashes are read back\<close>

text \<open>Bytes with the high bit are no special characters; \<open>prev\<close> moves on to the last of them.\<close>

lemma read_high:
  "list_all high_bit t \<Longrightarrow> t \<noteq> [] \<Longrightarrow>
    read_word False prev (t @ u) = map_option (append t) (read_word False (Some (last t)) u)"
proof (induction t arbitrary: prev)
  case (Cons c t)
  then have c: "c \<noteq> CHR 0x27" "c \<noteq> CHR 0x5C" "c \<notin> set unquoted_special" "c \<noteq> CHR ''#''" "c \<noteq> CHR ''~''"
    by (auto simp: high_bit_def unquoted_special_def)
  show ?case
  proof (cases "t = []")
    case True
    then show ?thesis using c by (cases "read_word False (Some c) u") simp_all
  next
    case False
    then show ?thesis using c Cons by (cases "read_word False (Some (last t)) u") simp_all
  qed
qed simp

lemma backslash_loop_back:
  assumes "utf8_ok L" "CHR 0x27 \<in> set table" "CHR 0x5C \<in> set table" "set unquoted_special \<subseteq> set table" "and flags 1 \<noteq> 0"
  shows "CHR 0x0A \<notin> set s \<Longrightarrow> length (sb_text b) + 2 * length s \<le> sb_size b \<Longrightarrow>
    \<exists>q. backslash_loop L blank table flags prev s b = Some (b\<lparr>sb_text := sb_text b @ q\<rparr>) \<and> length q \<le> 2 * length s \<and>
      read_word False prev q = Some s"
proof (induction "length s" arbitrary: s b prev rule: less_induct)
  case less
  show ?case
  proof (cases s)
    case Nil
    then show ?thesis by (subst backslash_loop.simps) simp
  next
    case (Cons c t)
    have u: "lc_utf8 L" using assms(1) by (simp add: utf8_ok_def)
    show ?thesis
    proof (cases "high_bit c")
      case True
      let ?n = "char_len L s"
      have n: "0 < ?n" by (rule char_len_pos)
      define b' where "b' = b\<lparr>sb_text := sb_text b @ take ?n s\<rparr>"
      have p: "sb_puts (take ?n s) b = Some b'" using less.prems by (simp add: sb_puts_value b'_def)
      have room: "length (sb_text b') + 2 * length (drop ?n s) \<le> sb_size b'" "length (drop ?n s) < length s" "CHR 0x0A \<notin> set (drop ?n s)"
        using less.prems n Cons by (auto simp: b'_def min_def dest: in_set_dropD)
      obtain q where q: "backslash_loop L blank table flags (Some (last (take ?n s))) (drop ?n s) b' = Some (b'\<lparr>sb_text := sb_text b' @ q\<rparr>)"
          "length q \<le> 2 * length (drop ?n s)" "read_word False (Some (last (take ?n s))) q = Some (drop ?n s)"
        using less.hyps [OF room(2,3,1), of "Some (last (take ?n s))"] by blast
      have "take ?n s \<noteq> []" using n Cons by (cases ?n) simp_all
      then have "read_word False prev (take ?n s @ q) = Some s"
        using read_high [OF char_bytes_high [OF assms(1)], of s prev q] True Cons q(3) by simp
      moreover have "backslash_loop L blank table flags prev s b = Some (b\<lparr>sb_text := sb_text b @ take ?n s @ q\<rparr>)"
        using p q(1) True u Cons by (subst backslash_loop.simps) (simp add: wide_start_def b'_def)
      ultimately show ?thesis using q(2) by (intro exI [of _ "take ?n s @ q"]) auto
    next
      case False
      then have w: "\<not> wide_start L c" using u by (simp add: wide_start_def)
      define special where "special = (c = CHR ''#'' \<and> prev = None \<or>
        and flags 1 \<noteq> 0 \<and> c = CHR ''~'' \<and> (prev = None \<or> prev = Some (CHR '':'') \<or> prev = Some (CHR ''='')) \<or>
        and flags 2 \<noteq> 0 \<and> blank c)"
      define pre where "pre = (if c \<in> set table \<or> special then [CHR 0x5C] else [])"
      have pre: "pre = [CHR 0x5C] \<or> pre = [] \<and> c \<notin> set table" by (simp add: pre_def)
      have st: "backslash_loop L blank table flags prev s b = Option.bind (sb_puts (pre @ [c]) b) (backslash_loop L blank table flags (Some c) t)"
      proof (cases "c \<in> set table")
        case True
        then show ?thesis unfolding Cons using False by (subst backslash_loop.simps) (simp add: pre_def)
      next
        case n: False
        then show ?thesis unfolding Cons
          by (subst backslash_loop.simps) (simp only: pre_def special_def [symmetric] Let_def list.sel w False n if_False if_True simp_thms list.distinct)
      qed
      define b' where "b' = b\<lparr>sb_text := sb_text b @ pre @ [c]\<rparr>"
      have p: "sb_puts (pre @ [c]) b = Some b'" using less.prems pre Cons by (auto simp: sb_puts_value b'_def)
      obtain q where q: "backslash_loop L blank table flags (Some c) t b' = Some (b'\<lparr>sb_text := sb_text b' @ q\<rparr>)"
          "length q \<le> 2 * length t" "read_word False (Some c) q = Some t"
        using less.hyps [of t b' "Some c"] less.prems pre Cons by (auto simp: b'_def)
      have nl: "c \<noteq> CHR 0x0A" using less.prems(1) Cons by auto
      have "read_word False prev (pre @ c # q) = Some s"
      proof (cases "pre = []")
        case True
        then have "c \<notin> set table" "\<not> special" by (auto simp: pre_def split: if_splits)
        then have "c \<noteq> CHR 0x27" "c \<noteq> CHR 0x5C" "c \<notin> set unquoted_special" "\<not> (c = CHR ''#'' \<and> prev = None)"
          "\<not> (c = CHR ''~'' \<and> (prev = None \<or> prev = Some (CHR '':'') \<or> prev = Some (CHR ''='')))"
          using assms(2-5) by (auto simp: special_def)
        then show ?thesis using True q(3) Cons by simp
      next
        case False
        then show ?thesis using pre q(3) nl Cons by simp
      qed
      then show ?thesis using st p q(1,2) pre Cons by (intro exI [of _ "pre @ c # q"]) (auto simp: b'_def)
    qed
  qed
qed

lemma sh_backslash_quote_back:
  assumes "utf8_ok L" "and flags 1 \<noteq> 0" "CHR 0x0A \<notin> set s"
  shows "\<exists>q. sh_backslash_quote L blank s None flags = Some q \<and> read_word False None q = Some s"
proof -
  have "CHR 0x27 \<in> set bstab" "CHR 0x5C \<in> set bstab" "set unquoted_special \<subseteq> set bstab"
    by (simp_all add: bstab_def unquoted_special_def)
  from backslash_loop_back [OF assms(1) this assms(2,3), of "\<lparr>sb_text = [], sb_size = 2 * length s + 1\<rparr>" blank None] show ?thesis
    by (auto simp: sh_backslash_quote_def sb_end_def)
qed


text \<open>An escaped CTLESC comes out longer than it went in.\<close>

lemma ansiexpand_longer: "ansiexpand A [CHR 0x5C, CTLESC] 0 2 = Some [CHR 0x5C, CTLESC, CTLESC]"
proof -
  have "ansi_escape A 2 False CTLESC [] = Out True CTLESC []"
    by (simp add: ansi_escape_def simple_escapes_def Let_def CTLESC_def)
  then have "ansicstr_loop A 2 False [CHR 0x5C, CTLESC] b =
      (case sb_puts [CHR 0x5C, CTLESC, CTLESC] b of None \<Rightarrow> None | Some r \<Rightarrow> Some (r, False))" for b
    by (subst ansicstr_loop.simps) (simp add: ansicstr_loop.simps [of _ _ _ "[]"] split: option.split)
  then show ?thesis
    by (simp add: ansiexpand_def ansicstr_def ansicstr_size_small sb_puts_eq sb_end_def)
qed

section \<open>Properties\<close>

text \<open>
  C17. Property of \<open>sh_quote_reusable\<close>, with \<open>ansic_quote\<close>, \<open>sh_backslash_quote\<close>, \<open>sh_single_quote\<close> and \<open>ansicstr\<close>:
  every form it chooses reads back as the string. A string with characters that do not print is
  written with escapes, from which \<open>ansicstr\<close> recovers it and \<open>ansiexpand\<close>, for the parser, the string
  with CTLESC and CTLNUL marked; any other with backslashes or in single quotes, under a reader of
  shell words that fails at any unquoted character that is special to the shell (\<open>unquoted_special\<close>,
  and \<open>#\<close> and \<open>~\<close> where they are). This in a UTF-8 locale with the properties \<open>utf8_ok\<close> and \<open>ansi_ok\<close>, for
  strings below 2 ^ 27 - 1 bytes (the sizes are \<open>int\<close>), without a newline if backslashes are asked for
  (a backslash and a newline read back as nothing).
\<close>

theorem sh_quote_reusable_reads_back:
  assumes "utf8_ok (an_locale A)" "ansi_ok (an_locale A)" "CHR 0x00 \<notin> set s" "flags \<longrightarrow> CHR 0x0A \<notin> set s" "length s < 2 ^ 27 - 1"
  shows "\<exists>q. sh_quote_reusable (an_locale A) blank (Some s) flags = Some (Some q) \<and>
    (if s \<noteq> [] \<and> ansic_shouldquote (an_locale A) s
     then \<exists>body. q = [CHR ''$'', CHR 0x27] @ body @ [CHR 0x27] \<and> ansicstr A body 0 False = Some (Some (s, False)) \<and>
       ansiexpand A q 2 (length q - 1) = Some (marked 2 s)
     else read_word False None q = Some s)"
proof (cases "s \<noteq> [] \<and> ansic_shouldquote (an_locale A) s")
  case True
  let ?body = "ansic_loop (an_locale A) s"
  have "marked 0 s = s" by (induction s) auto
  then have "ansicstr A ?body 0 False = Some (Some (s, False))" using ansicstr_back [OF assms(2) _ assms(3) _ assms(5), of 0 False] True by simp
  moreover have b: "ansicstr A ?body 2 False = Some (Some (marked 2 s, False))" using ansicstr_back [OF assms(2) _ assms(3) _ assms(5), of 2 False] True by simp
  moreover have "?body \<noteq> []" using ansic_loop_longer [OF assms(2,3)] True by auto
  moreover have "ansic_quote (an_locale A) (Some s) = Some (Some (ansic_text (an_locale A) s))"
    using True assms(5) by (intro ansic_quote_value) simp_all
  ultimately show ?thesis using True by (auto simp: sh_quote_reusable_def ansic_text_def ansiexpand_def)
next
  case False
  show ?thesis
  proof (cases "s \<noteq> [] \<and> flags")
    case True
    then show ?thesis using False sh_backslash_quote_back [OF assms(1), of 1 s blank] assms(4) by (auto simp: sh_quote_reusable_def)
  next
    case n: False
    then show ?thesis using False single_quote_reads_back [of s] by (auto simp: sh_quote_reusable_def)
  qed
qed

text \<open>A UTF-8 locale that prints everything but the control characters, without conversions.\<close>

definition ansi_utf8 :: ansi_ops where
  "ansi_utf8 = \<lparr>an_locale = utf8_locale\<lparr>
       lc_mbrtowc := (\<lambda>s. (utf8_mbrlen s, if utf8_mbrlen s = 1 then of_char (hd s) else 0x100)),
       lc_iswprint := (\<lambda>w. 0x20 \<le> w \<and> w \<noteq> 0x7F)\<rparr>,
     an_toupper = (\<lambda>c. c), an_wctomb = (\<lambda>v. None), an_iconv = None\<rparr>"

lemma ansi_utf8_ok: "ansi_ok (an_locale ansi_utf8)"
  unfolding ansi_ok_def
proof (intro conjI allI impI)
  fix s :: string assume s: "s \<noteq> []" "CHR 0x00 \<notin> set s"
  obtain c t where ct: "s = c # t" using s(1) by (cases s) auto
  consider "utf8_mbrlen s = -1 \<or> utf8_mbrlen s = -2" | "utf8_mbrlen s = 1" | n where "utf8_mbrlen s = int n" "1 < n"
  proof -
    have "utf8_mbrlen s = -1 \<or> utf8_mbrlen s = -2 \<or> utf8_mbrlen s = int (utf8_need c) \<and> utf8_need c \<noteq> 0"
      unfolding ct by (simp add: Let_def)
    then show thesis using that by (cases "utf8_need c = 1") auto
  qed
  then show "case lc_mbrtowc (an_locale ansi_utf8) s of (m, wc) \<Rightarrow> m = -1 \<or> m = -2 \<or>
      0 < m \<and> m \<le> int (length s) \<and> (\<forall>r. lc_mbrtowc (an_locale ansi_utf8) (take (nat m) s @ r) = (m, wc)) \<and>
      (lc_utf8 (an_locale ansi_utf8) \<longrightarrow> \<not> high_bit (hd s) \<longrightarrow> m = 1) \<and>
      (lc_iswprint (an_locale ansi_utf8) wc \<longrightarrow> CTLESC \<notin> set (take (nat m) s) \<and> CTLNUL \<notin> set (take (nat m) s))"
  proof cases
    case 1
    then show ?thesis by (auto simp: ansi_utf8_def)
  next
    case 2
    then have "utf8_need c = 1" unfolding ct by (auto simp: Let_def split: if_splits)
    then have "utf8_mbrlen (c # r) = 1" for r by (simp add: Let_def)
    then show ?thesis using 2 ct by (auto simp: ansi_utf8_def CTLESC_def CTLNUL_def)
  next
    case 3
    from utf8_mbrlen_long [OF 3] obtain d r where d: "s = d # r" "n = utf8_need d" "n - 1 \<le> length r"
      and cont: "list_all continuation (take (n - 1) r)" by blast
    have tk: "take n s = d # take (n - 1) r" using 3(2) by (simp add: d(1) take_Cons')
    have hi: "high_bit d" using d(2) 3(2) by (auto simp: utf8_need_def high_bit_def Let_def split: if_splits)
    moreover have "high_bit x" if "x \<in> set (take (n - 1) r)" for x using cont that continuation_high by (auto simp: list_all_iff)
    ultimately have "\<forall>x \<in> set (take n s). high_bit x" unfolding tk by auto
    moreover have "\<not> high_bit CTLESC" "\<not> high_bit CTLNUL" by (simp_all add: high_bit_def CTLESC_def CTLNUL_def)
    ultimately have ctl: "CTLESC \<notin> set (take n s)" "CTLNUL \<notin> set (take n s)" by blast+
    have "utf8_mbrlen (take n s @ u) = int n" for u unfolding tk using cont d(2,3) 3(2) by (auto simp: Let_def)
    moreover have "hd (take n s @ u) = d" for u unfolding tk by simp
    ultimately show ?thesis using 3 d ctl hi by (simp add: ansi_utf8_def)
  qed
qed (auto simp: ansi_utf8_def utf8_locale_def CTLESC_def CTLNUL_def)

lemma ansi_utf8_utf8: "utf8_ok (an_locale ansi_utf8)"
  using utf8_locale_utf8 by (simp add: utf8_ok_def ansi_utf8_def)

theorem sh_quote_reusable_reads_back_witness:
  "\<exists>q. sh_quote_reusable (an_locale ansi_utf8) (\<lambda>c. False) (Some [CHR 0x01, CHR ''7'', CHR 0x27]) True = Some (Some q) \<and>
    (if [CHR 0x01, CHR ''7'', CHR 0x27] \<noteq> [] \<and> ansic_shouldquote (an_locale ansi_utf8) [CHR 0x01, CHR ''7'', CHR 0x27]
     then \<exists>body. q = [CHR ''$'', CHR 0x27] @ body @ [CHR 0x27] \<and>
       ansicstr ansi_utf8 body 0 False = Some (Some ([CHR 0x01, CHR ''7'', CHR 0x27], False)) \<and>
       ansiexpand ansi_utf8 q 2 (length q - 1) = Some (marked 2 [CHR 0x01, CHR ''7'', CHR 0x27])
     else read_word False None q = Some [CHR 0x01, CHR ''7'', CHR 0x27])"
  by (rule sh_quote_reusable_reads_back [OF ansi_utf8_utf8 ansi_utf8_ok]) simp_all

lemma plain_copied:
  assumes "\<not> lc_utf8 (an_locale A)" "list_all is_basic s" "CHR 0x5C \<notin> set s"
  shows "sb_size b < length (sb_text b) + length s \<Longrightarrow> length (sb_text b) \<le> sb_size b \<Longrightarrow> ansicstr_loop A flags sawc s b = None"
  using assms(2,3)
proof (induction s arbitrary: b)
  case (Cons c s)
  then have n: "plain_len (an_locale A) (c # s) = 1" "c \<noteq> CHR 0x5C" using assms(1) by (auto simp: plain_len_def)
  show ?case using Cons n by (subst ansicstr_loop.simps) (auto simp: sb_puts_eq)
qed simp

text \<open>
  C32. Property of \<open>ansicstr\<close>: whatever the escapes of the string and the flags, nothing is stored behind
  the buffer for a string of less than 2 ^ 29 - 1 bytes, when a converted character has at most
  \<open>MB_LEN_MAX\<close> bytes and \<open>mbrtowc\<close> gives length 0 to the zero byte only (\<open>conversions_fit\<close>). This is exact: a string
  from 2 ^ 29 - 1 to 2 ^ 30 + 1 bytes makes the \<open>int\<close> size wrap and the code take 12 bytes, so that one without
  backslashes, of basic characters in a locale that is not UTF-8, overruns the buffer.
\<close>

theorem ansicstr_stays_in_buffer:
  assumes "CHR 0x00 \<notin> set s"
  shows "(conversions_fit A \<longrightarrow> length s < 2 ^ 29 - 1 \<longrightarrow> ansicstr A s flags sawc \<noteq> None) \<and>
    (2 ^ 29 - 1 \<le> length s \<longrightarrow> length s \<le> 2 ^ 30 + 1 \<longrightarrow> \<not> lc_utf8 (an_locale A) \<longrightarrow> list_all is_basic s \<longrightarrow> CHR 0x5C \<notin> set s \<longrightarrow>
      ansicstr A s flags sawc = None)"
proof (intro conjI impI)
  assume a: "conversions_fit A" "length s < 2 ^ 29 - 1"
  have "\<exists>r stopped. ansicstr_loop A flags sawc s \<lparr>sb_text = [], sb_size = max 12 (4 * length s + 4)\<rparr> = Some (r, stopped) \<and>
      length (sb_text r) < sb_size r"
    by (rule ansicstr_loop_fits [OF a(1) assms]) simp
  then show "ansicstr A s flags sawc \<noteq> None" using a(2) by (auto simp: ansicstr_def ansicstr_size_small sb_end_def)
next
  assume a: "2 ^ 29 - 1 \<le> length s" "length s \<le> 2 ^ 30 + 1" "\<not> lc_utf8 (an_locale A)" "list_all is_basic s" "CHR 0x5C \<notin> set s"
  have "as_int (4 * length s + 4) = int (4 * length s + 4) - 2 ^ 32" using a(1,2) by (intro as_int_beyond) simp_all
  then have "ansicstr_size (length s) = 12" using a(2) by (auto simp: ansicstr_size_def Let_def)
  moreover have "ansicstr_loop A flags sawc s \<lparr>sb_text = [], sb_size = 12\<rparr> = None"
    using a(1) by (intro plain_copied [OF a(3-5)]) simp_all
  ultimately show "ansicstr A s flags sawc = None" using a(1) by (auto simp: ansicstr_def xmalloc_int_def)
qed

theorem ansicstr_stays_in_buffer_witness:
  "ansicstr ansi_utf8 (CHR 0x5C # ''U7fffffff'') 2 False \<noteq> None \<and>
   ansicstr (ansi_utf8\<lparr>an_locale := utf8_locale\<lparr>lc_multibyte := False, lc_utf8 := False\<rparr>\<rparr>) (replicate (2 ^ 29) (CHR ''a'')) 2 False = None"
proof
  have "utf8_mbrlen t \<noteq> 0" if "t \<noteq> []" for t using that by (cases t) (auto simp: Let_def)
  then have "conversions_fit ansi_utf8" by (simp add: conversions_fit_def ansi_utf8_def)
  then show "ansicstr ansi_utf8 (CHR 0x5C # ''U7fffffff'') 2 False \<noteq> None"
    using ansicstr_stays_in_buffer [of "CHR 0x5C # ''U7fffffff''" ansi_utf8 2 False] by simp
  define s where "s = replicate (2 ^ 29) (CHR ''a'')"
  have "length s = 2 ^ 29" "list_all is_basic s" "CHR 0x5C \<notin> set s" "CHR 0x00 \<notin> set s"
    by (auto simp: s_def list_all_iff is_basic_def is_basic_table_def)
  then have "ansicstr (ansi_utf8\<lparr>an_locale := utf8_locale\<lparr>lc_multibyte := False, lc_utf8 := False\<rparr>\<rparr>) s 2 False = None"
    using ansicstr_stays_in_buffer [of s "ansi_utf8\<lparr>an_locale := utf8_locale\<lparr>lc_multibyte := False, lc_utf8 := False\<rparr>\<rparr>" 2 False]
    by simp
  then show "ansicstr (ansi_utf8\<lparr>an_locale := utf8_locale\<lparr>lc_multibyte := False, lc_utf8 := False\<rparr>\<rparr>) (replicate (2 ^ 29) (CHR ''a'')) 2 False = None"
    unfolding s_def .
qed

text \<open>
  C33. Property of \<open>sh_mkdoublequoted\<close>: without flags the string is put between double quotes; when the quotes in
  it are to be escaped, the buffer is too small by two, so that with fewer than two bytes that are no
  quotes the code stores behind it, and otherwise the result is the escaped string in quotes. This in a
  single-byte or a UTF-8 locale, for strings below 2 ^ 30 - 1 bytes, where the \<open>int\<close> sizes are exact.
\<close>

theorem mkdoublequoted_overruns:
  assumes "plain_or_utf8 L" "length s < 2 ^ 30 - 1"
  shows "sh_mkdoublequoted L s False = Some ([CHR 0x22] @ s @ [CHR 0x22]) \<and>
    sh_mkdoublequoted L s True =
      (if length (filter (\<lambda>c. c \<noteq> CHR 0x22) s) < 2 then None else Some ([CHR 0x22] @ escaped_dquotes s @ [CHR 0x22]))"
proof
  have x: "xmalloc_int (as_int (length s + 3)) = Some (length s + 3)" "xmalloc_int (as_int (2 * length s + 1)) = Some (2 * length s + 1)"
    using assms(2) by (auto intro!: xmalloc_small)
  show "sh_mkdoublequoted L s False = Some ([CHR 0x22] @ s @ [CHR 0x22])"
    by (simp add: sh_mkdoublequoted_def x [simplified] sb_puts_eq mkdoublequoted_loop_value [OF assms(1)] sb_end_def)
  have "length (escaped_dquotes s) + length (filter (\<lambda>c. c \<noteq> CHR 0x22) s) = 2 * length s" by (rule escaped_dquotes_length)
  then show "sh_mkdoublequoted L s True =
      (if length (filter (\<lambda>c. c \<noteq> CHR 0x22) s) < 2 then None else Some ([CHR 0x22] @ escaped_dquotes s @ [CHR 0x22]))"
    by (auto simp: sh_mkdoublequoted_def x [simplified] sb_puts_eq mkdoublequoted_loop_value [OF assms(1)] sb_end_def)
qed

theorem mkdoublequoted_overruns_witness:
  "sh_mkdoublequoted utf8_locale [CHR 0x22, CHR ''a''] True = None"
  using mkdoublequoted_overruns [of utf8_locale "[CHR 0x22, CHR ''a'']"] utf8_locale_utf8 by (simp add: plain_or_utf8_def)

end
