(* ===== verification/Spec2Isabelle.thy ===== *)
theory Spec2Isabelle imports KhBios_Screen KhBios_Hotkey KhBios_Board Khsl_Session Bash_Assoc Bash_Array Bash_ExprMeaning Bash_GlobText Bash_BraceSem Bash_CondSem Bash_ArrayExp Bash_AnsicSem begin

text \<open>
  A verification library for kworker: the U-Boot setup utility of the board, the \<open>khsl\<close> launcher
  of the Linux environment, and parts of the bash 5.2 that the environment ships. The theories
  follow the sources; each opens with what it models. Every definition that models code bears the
  name it has there, or is a loop or a branch of the function it is named after.

  The parts of the program and how they interact

  \<^bold>\<open>Setup utility\<close> (\<open>src/oh_bios/uboot_bios\<close>, \<open>src/oh_bios/uboot/bios\<close>). During the boot
  \<open>kh_bios_wait_f10\<close> watches the keys (\<open>KhBios_Hotkey\<close>); when F10, Enter or a board key is seen,
  \<open>kh_bios_run\<close> shows the menus (\<open>KhBios_UI\<close>), whose entries depend on the features of the board
  (\<open>KhBios_Menu\<close>, \<open>KhBios_Board\<close>), draws them into the frame buffer (\<open>KhBios_Draw\<close>,
  \<open>KhBios_Screen\<close>), loads and saves the settings in the U-Boot environment (\<open>KhBios_Env\<close>) and
  leaves by a boot command or a cold reset (\<open>KhBios_Boot\<close>). \<open>KhBios_Base\<close> holds the shared types.

  \<^bold>\<open>khsl\<close> (\<open>src/khsl/khsl/main.c\<close>). The command line (\<open>Khsl_Cli\<close>), then identity, environment,
  prompt and exec, or the relay to the terminal daemon (\<open>Khsl_Session\<close>).

  \<^bold>\<open>bash\<close> (\<open>src/khsl/bash/bash-5.2\<close>). The containers behind the shell's variables: hash tables
  (\<open>Bash_Hash\<close>), associative arrays over them (\<open>Bash_Assoc\<close>) and sparse indexed arrays
  (\<open>Bash_Array\<close>), both interpretations of the dictionary contract of \<open>Bash_Dict\<close>; the quoting the
  printers and the expansions use (\<open>Bash_Quote\<close>; \<open>shquote.c\<close> and \<open>strtrans.c\<close> are completed by
  \<open>Bash_Ansic\<close>, with the proofs in \<open>Bash_AnsicSem\<close>), growing buffers and word lists (\<open>Bash_Strbuf\<close>);
  the arithmetic evaluator (\<open>Bash_Arith\<close>, \<open>Bash_Expr\<close>), its contracts (\<open>Bash_ExprRun\<close>,
  \<open>Bash_ExprLex\<close>) and its meaning (\<open>Bash_ExprSem\<close>, \<open>Bash_ExprMeaning\<close>); the pattern matcher of
  \<open>lib/glob\<close> (\<open>Bash_Glob\<close>, \<open>Bash_GlobSem\<close>, \<open>Bash_GlobText\<close>); brace expansion (\<open>braces.c\<close>, in
  \<open>Bash_Brace\<close>) and its meaning (\<open>Bash_BraceSem\<close>); the expansions that remove or replace what a
  pattern matches (\<open>subst.c\<close>, in \<open>Bash_Pattern\<close>) and their meaning (\<open>Bash_PatternSem\<close>,
  \<open>Bash_PatSubstSem\<close>), over the matcher; word splitting and the joining of the positional parameters
  (\<open>subst.c\<close>, in \<open>Bash_Split\<close>), which undo and apply the quoting of \<open>Bash_Quote\<close>, and their meaning
  (\<open>Bash_SplitSem\<close>); arrays, patterns and splitting put together (\<open>Bash_ArrayExp\<close>); the commands \<open>test\<close>, \<open>[\<close> and \<open>[[\<close> (\<open>test.c\<close>, \<open>eaccess.c\<close> and
  \<open>execute_cond_node\<close> of \<open>execute_cmd.c\<close>, in \<open>Bash_Test\<close>), which call the matcher, the arithmetic
  evaluator and the arrays, with the grammar of \<open>test\<close> (\<open>Bash_TestSem\<close>) and the meaning of
  comparisons (\<open>Bash_CondSem\<close>).

  What is a parameter

  Code outside the repository is an argument of the definitions that use it: U-Boot's environment,
  commands and drivers (records \<open>uboot\<close>, \<open>input_ops\<close>, the font and the configuration of the
  drawing), the kernel and the user database of \<open>khsl\<close> (record \<open>os\<close>), the C library's locale
  (\<open>locale_ops\<close>, \<open>match_env\<close>, \<open>split_env\<close>, \<open>ansi_ops\<close>). Parts of bash that a modelled part calls and that are not modelled are arguments
  too: the variables behind an arithmetic expression (\<open>shell_ops\<close>), pattern substitution and case
  modification behind the array operations, the end of a command substitution inside a brace
  expression (\<open>brace_ops\<close>), the files, options and variables a test looks at (\<open>test_ops\<close>) and the
  expansion of its operands (\<open>cond_ops\<close>).

  What the lemmas show

  The containers answer every sequence of insertions, removals and look-ups as a finite map does,
  whatever the growth, the shrinking or the cached position; their printers never write beyond
  their buffers as long as what they print keeps the \<open>int\<close> sizes of the code from wrapping. The quoting
  functions are inverted by the functions that read them back, in whichever form a string is quoted
  for reuse, and the reading of escapes stays in its buffer for strings below 2 ^ 29 - 1 bytes, beyond
  which its \<open>int\<close> size wraps and it does not. The arithmetic evaluator always ends, in one of the ways
  \<open>evalexp_outcome\<close> lists, restores its context when it succeeds, has no effects while it skips an operand,
  and computes on the text of every expression of the grammar the meaning C gives it. The pattern
  matcher, which never goes back behind the last \<open>*\<close>, decides what a backtracking matcher decides.
  Brace expansion of the text of a nested expression returns the words of its meaning in order, and
  the sequences are exact for all ends and increments but the one from 0 to the least \<open>intmax_t\<close>, where with
  any positive increment the code stores outside its array or fails to allocate it. Removal takes the longest or shortest match away, and replacement replaces the longest match
  at the first place, and the later ones, as a reference does, for all patterns but those that begin
  with \<open>*\<close> and end with an escaped one, which the code misses. Word splitting returns the fields of a
  string, and every string has fields, where white space is any white space of the locale in \<open>IFS\<close>, as in the
  code, and not only space, tab and newline, as the manual has it; the parameters of a quoted \<open>$@\<close> come back from it unchanged,
  and so do the elements of an array with their matches replaced;
  \<open>read\<close> takes the same fields if \<open>IFS\<close> has no other white space than space, tab and newline. \<open>test\<close> computes the meaning of its
  grammar on the text of every expression but those it reads as shorter ones, and always
  returns a status; a condition over arithmetic operands compares their values; a comparison of files
  orders them by time, a missing file first. The setup utility writes the environment only by saving,
  reloads what it saved, decodes its keys, draws inside the frame buffer, and opens only pages the board allows. \<open>khsl\<close> parses what its options
  print, and its error paths are outcomes of the model.

  Conventions and bounds

  Machine integers are words where their width matters. Sizes of buffers are numbers with the limit of their C
  type: a size computed in an \<open>int\<close> wraps by \<open>as_int\<close>, \<open>xmalloc_int\<close> has no result for a negative one,
  \<open>RESIZE_MALLOCED_BUFFER\<close> takes the limit of its indices (\<open>INT_LIMIT\<close> or \<open>SIZE_LIMIT\<close>) and has no result
  beyond it, and what a store behind a buffer leads to is no result either. Two counters are left unbounded:
  the number of entries of a hash table (an \<open>int\<close>, exact below 2 ^ 31 entries) and the coordinates of drawn
  text (exact for texts below 2 ^ 27 characters). Loops are recursions that end, or
  \<open>partial_function (option)\<close> where the code may not end (the hotkey loops, \<open>ipow\<close>). The parsing
  functions of \<open>Bash_Expr\<close> take a bound that decreases with each nested call and each round of a
  loop; one more than what is left of the text is enough, and \<open>subexpr\<close>'s bound is the recursion
  limit of the code: \<open>evalexp_outcome\<close> shows that they are never met. The pattern matcher recurses
  at most three times for each element of a pattern without extended lists, and \<open>match_fuel\<close> allows
  four calls for each character of the pattern and of the string. The parser of \<open>test\<close> is bounded by the
  number of its arguments, which \<open>test_returns_status\<close> shows to suffice. Signed overflow wraps and
  shift counts are taken modulo 64, as the target's processor does.

  Not modelled

  The rest of bash: the parser, the executor, job control, the builtins, readline and the variable
  scopes, which are process state and system calls around the modelled parts; freeing of memory,
  everywhere. The vendored U-Boot and its drivers. The terminal daemon (C++, sockets and a
  pseudo-terminal), the N-API bridge and the ArkTS applications, which are not C or only call
  libraries.
\<close>

end
